(* ===== verification/Prelude.thy ===== *)
theory Prelude
  imports Main "HOL-Library.Word"
begin

text \<open>
  Shared vocabulary of the development: the machine-integer types of droplet/types.h, the
  operations of \<open>std::string_view\<close> the sources use (\<open>find\<close>, \<open>rfind\<close>,
  \<open>substr\<close>, \<open>starts_with\<close>), \<open>std::from_chars\<close> and the decimal printing of
  \<open>std::ostream\<close>, ASCII case folding, and the generic lemmas about them.  A string is a
  list of 8-bit \<open>char\<close>s, the bytes of a \<open>std::string\<close>; a position that C++ encodes
  as \<open>npos\<close> is \<open>None\<close>.
\<close>

unbundle bit_operations_syntax

named_theorems find_simps \<open>equations of the string searches\<close>
named_theorems case_fold \<open>facts about ASCII case folding\<close>

type_synonym u8 = "8 word"
type_synonym u16 = "16 word"
type_synonym u32 = "32 word"
type_synonym u64 = "64 word"

definition SIZE_MAX :: nat where
  "SIZE_MAX = 2 ^ 64 - 1"

definition UINT64_MAX :: u64 where
  "UINT64_MAX = - 1"

section \<open>Characters\<close>

abbreviation code :: "char \<Rightarrow> nat" where
  "code c \<equiv> of_char c"

abbreviation CR :: char where "CR \<equiv> CHR 0x0D"
abbreviation LF :: char where "LF \<equiv> CHR 0x0A"
abbreviation TAB :: char where "TAB \<equiv> CHR 0x09"
abbreviation SP :: char where "SP \<equiv> CHR '' ''"

abbreviation CRLF :: string where "CRLF \<equiv> [CR, LF]"
abbreviation CRLF2 :: string where "CRLF2 \<equiv> [CR, LF, CR, LF]"

definition is_upper :: "char \<Rightarrow> bool" where
  "is_upper c \<longleftrightarrow> 65 \<le> code c \<and> code c \<le> 90"

definition is_lower :: "char \<Rightarrow> bool" where
  "is_lower c \<longleftrightarrow> 97 \<le> code c \<and> code c \<le> 122"

definition is_digit :: "char \<Rightarrow> bool" where
  "is_digit c \<longleftrightarrow> 48 \<le> code c \<and> code c \<le> 57"

definition is_hex :: "char \<Rightarrow> bool" where
  "is_hex c \<longleftrightarrow> is_digit c \<or> (65 \<le> code c \<and> code c \<le> 70) \<or> (97 \<le> code c \<and> code c \<le> 102)"

definition ascii_lower :: "char \<Rightarrow> char" where
  "ascii_lower c = (if is_upper c then char_of (code c + 32) else c)"

lemma code_less [simp]: "code c < 256"
  by (rule nat_of_char_less_256)

lemma code_inj: "code c = code d \<longleftrightarrow> c = d"
  by simp

lemma code_char_of: "n < 256 \<Longrightarrow> code (char_of n) = n"
  by simp

lemma code_ascii_lower [case_fold]:
  "code (ascii_lower c) = (if is_upper c then code c + 32 else code c)"
  by (auto simp: ascii_lower_def is_upper_def)

lemma ascii_lower_idem [simp]: "ascii_lower (ascii_lower c) = ascii_lower c"
proof -
  have "\<not> is_upper (ascii_lower c)"
    by (auto simp: is_upper_def code_ascii_lower split: if_splits)
  then show ?thesis by (simp add: ascii_lower_def)
qed

lemma ascii_lower_not_upper [simp]: "\<not> is_upper (ascii_lower c)"
  by (auto simp: is_upper_def code_ascii_lower split: if_splits)

section \<open>Searching and slicing strings\<close>

text \<open>\<open>text.substr(pos, n)\<close> for a position inside the text.\<close>

definition substr :: "string \<Rightarrow> nat \<Rightarrow> nat \<Rightarrow> string" where
  "substr s pos n = take n (drop pos s)"

definition starts_with :: "string \<Rightarrow> string \<Rightarrow> bool" where
  "starts_with s p \<longleftrightarrow> take (length p) s = p"

fun find_sub :: "string \<Rightarrow> string \<Rightarrow> nat option" where
  "find_sub p [] = (if p = [] then Some 0 else None)"
| "find_sub p (c # cs) =
     (if starts_with (c # cs) p then Some 0 else map_option Suc (find_sub p cs))"

text \<open>\<open>text.find(p, pos)\<close>.\<close>

definition find_from :: "string \<Rightarrow> string \<Rightarrow> nat \<Rightarrow> nat option" where
  "find_from p s pos = (if pos \<le> length s then map_option ((+) pos) (find_sub p (drop pos s)) else None)"

fun find_char :: "char \<Rightarrow> string \<Rightarrow> nat option" where
  "find_char x [] = None"
| "find_char x (c # cs) = (if c = x then Some 0 else map_option Suc (find_char x cs))"

definition find_char_from :: "char \<Rightarrow> string \<Rightarrow> nat \<Rightarrow> nat option" where
  "find_char_from x s pos =
     (if pos \<le> length s then map_option ((+) pos) (find_char x (drop pos s)) else None)"

fun rfind_char :: "char \<Rightarrow> string \<Rightarrow> nat option" where
  "rfind_char x [] = None"
| "rfind_char x (c # cs) =
     (case rfind_char x cs of Some i \<Rightarrow> Some (Suc i) | None \<Rightarrow> if c = x then Some 0 else None)"

lemma length_substr [simp]: "length (substr s i n) = min n (length s - i)"
  by (simp add: substr_def min.commute)

lemma substr_middle: "substr (a @ b @ c) (length a) (length b) = b"
  by (simp add: substr_def)

lemma substr_append: "i + n \<le> length s \<Longrightarrow> substr (s @ t) i n = substr s i n"
  by (simp add: substr_def)

lemma starts_with_append: "starts_with s p \<Longrightarrow> starts_with (s @ t) p"
proof -
  assume h: "starts_with s p"
  then have "length p \<le> length s"
    by (metis length_take min.cobounded1 starts_with_def min.commute)
  with h show ?thesis by (simp add: starts_with_def)
qed

lemma starts_with_self [simp]: "starts_with (p @ t) p"
  by (simp add: starts_with_def)

lemma starts_with_Cons [simp]:
  "starts_with (c # cs) (x # xs) \<longleftrightarrow> c = x \<and> starts_with cs xs"
  "starts_with s []"
  "\<not> starts_with [] (x # xs)"
  by (auto simp: starts_with_def)

lemma starts_with_length: "starts_with s p \<Longrightarrow> length p \<le> length s"
  by (metis length_take min.cobounded1 min.commute starts_with_def)

lemma starts_with_append_long:
  "length p \<le> length s \<Longrightarrow> starts_with (s @ t) p = starts_with s p"
  by (simp add: starts_with_def)

lemma find_sub_bound: "find_sub p s = Some i \<Longrightarrow> i + length p \<le> length s"
proof (induction s arbitrary: i)
  case Nil
  then show ?case by (simp split: if_splits)
next
  case (Cons c cs)
  then show ?case
    by (auto dest: starts_with_length split: if_splits)
qed

lemma find_sub_append: "find_sub p s = Some i \<Longrightarrow> find_sub p (s @ t) = Some i"
proof (induction s arbitrary: i)
  case Nil
  then show ?case by (cases t) (auto split: if_splits)
next
  case (Cons c cs)
  then show ?case
  proof (cases "starts_with (c # cs) p")
    case True
    with Cons.prems show ?thesis using starts_with_append [OF True, of t] by simp
  next
    case False
    with Cons.prems obtain j where j: "find_sub p cs = Some j" "i = Suc j" by auto
    then have "length p \<le> length (c # cs)" using find_sub_bound [OF j(1)] by simp
    with False have "\<not> starts_with ((c # cs) @ t) p"
      by (metis starts_with_append_long)
    with Cons.IH [OF j(1)] j(2) show ?thesis by simp
  qed
qed

lemma find_sub_hit: "find_sub p s = Some i \<Longrightarrow> starts_with (drop i s) p"
  by (induction s arbitrary: i) (auto split: if_splits)

lemma find_sub_least: "find_sub p s = Some i \<Longrightarrow> j < i \<Longrightarrow> \<not> starts_with (drop j s) p"
proof (induction s arbitrary: i j)
  case Nil
  then show ?case by (simp split: if_splits)
next
  case (Cons c cs)
  then show ?case by (cases j) (auto split: if_splits)
qed

lemma find_sub_exists: "starts_with (drop j s) p \<Longrightarrow> j \<le> length s \<Longrightarrow> \<exists>i\<le>j. find_sub p s = Some i"
proof (induction s arbitrary: j)
  case Nil
  then show ?case by (cases p) auto
next
  case (Cons c cs)
  show ?case
  proof (cases "starts_with (c # cs) p")
    case True
    then show ?thesis by auto
  next
    case False
    with Cons.prems obtain k where k: "j = Suc k" by (cases j) auto
    with Cons.prems Cons.IH [of k] obtain i where "i \<le> k" "find_sub p cs = Some i" by auto
    with False k show ?thesis by auto
  qed
qed

lemma find_from_bound: "find_from p s pos = Some i \<Longrightarrow> pos \<le> i \<and> i + length p \<le> length s"
  by (auto simp: find_from_def dest!: find_sub_bound split: if_splits)

lemma find_from_append: "find_from p s pos = Some i \<Longrightarrow> find_from p (s @ t) pos = Some i"
  by (auto simp: find_from_def find_sub_append split: if_splits)

lemma find_from_0: "find_from p s 0 = find_sub p s"
  by (cases "find_sub p s") (simp_all add: find_from_def)

lemma find_from_exists:
  assumes "starts_with (drop j s) p" "pos \<le> j" "j \<le> length s"
  shows "\<exists>i\<le>j. find_from p s pos = Some i"
proof -
  have "starts_with (drop (j - pos) (drop pos s)) p" using assms by simp
  moreover have "j - pos \<le> length (drop pos s)" using assms by simp
  ultimately obtain i where "i \<le> j - pos" "find_sub p (drop pos s) = Some i"
    using find_sub_exists by blast
  then show ?thesis using assms by (intro exI [of _ "pos + i"]) (auto simp: find_from_def)
qed

lemma find_char_None [find_simps]: "find_char x s = None \<longleftrightarrow> x \<notin> set s"
  by (induction s) auto

lemma find_char_bound: "find_char x s = Some i \<Longrightarrow> i < length s"
  by (induction s arbitrary: i) (auto split: if_splits)

lemma find_char_hit: "find_char x s = Some i \<Longrightarrow> s ! i = x \<and> x \<notin> set (take i s)"
  by (induction s arbitrary: i) (auto split: if_splits)

lemma find_char_split: "find_char x s = Some i \<longleftrightarrow>
    (\<exists>a b. s = a @ x # b \<and> x \<notin> set a \<and> length a = i)"
proof
  assume h: "find_char x s = Some i"
  then have "s = take i s @ x # drop (Suc i) s"
    using find_char_bound [OF h] find_char_hit [OF h] by (metis id_take_nth_drop)
  moreover have "length (take i s) = i" using find_char_bound [OF h] by simp
  ultimately show "\<exists>a b. s = a @ x # b \<and> x \<notin> set a \<and> length a = i"
    using find_char_hit [OF h] by blast
next
  assume "\<exists>a b. s = a @ x # b \<and> x \<notin> set a \<and> length a = i"
  then obtain a b where "s = a @ x # b" "x \<notin> set a" "length a = i" by blast
  then show "find_char x s = Some i"
    by (induction a arbitrary: s i) auto
qed

lemma find_char_app [find_simps]: "x \<notin> set a \<Longrightarrow> find_char x (a @ x # b) = Some (length a)"
  by (auto simp: find_char_split)

lemma rfind_char_None [find_simps]: "rfind_char x s = None \<longleftrightarrow> x \<notin> set s"
  by (induction s) (auto split: option.splits)

lemma rfind_char_app [find_simps]: "x \<notin> set b \<Longrightarrow> rfind_char x (a @ x # b) = Some (length a)"
  by (induction a) (auto simp: rfind_char_None split: option.splits)

lemma rfind_char_split: "rfind_char x s = Some i \<longleftrightarrow>
    (\<exists>a b. s = a @ x # b \<and> x \<notin> set b \<and> length a = i)"
proof
  show "rfind_char x s = Some i \<Longrightarrow> \<exists>a b. s = a @ x # b \<and> x \<notin> set b \<and> length a = i"
  proof (induction s arbitrary: i)
    case Nil
    then show ?case by simp
  next
    case (Cons c cs)
    show ?case
    proof (cases "rfind_char x cs")
      case None
      with Cons.prems have "c = x" "i = 0" by (auto split: if_splits)
      with None show ?thesis by (auto simp: rfind_char_None)
    next
      case (Some j)
      with Cons.prems Cons.IH obtain a b where "cs = a @ x # b" "x \<notin> set b" "length a = j"
        by blast
      with Cons.prems Some show ?thesis by (intro exI [of _ "c # a"] exI [of _ b]) auto
    qed
  qed
next
  assume "\<exists>a b. s = a @ x # b \<and> x \<notin> set b \<and> length a = i"
  then show "rfind_char x s = Some i" by (auto simp: rfind_char_app)
qed

section \<open>Decimal and hexadecimal numbers\<close>

definition digit_char :: "nat \<Rightarrow> char" where
  "digit_char d = char_of (48 + d)"

fun show_nat :: "nat \<Rightarrow> string" where
  "show_nat n = (if n < 10 then [digit_char n] else show_nat (n div 10) @ [digit_char (n mod 10)])"

declare show_nat.simps [simp del]

definition show_int :: "int \<Rightarrow> string" where
  "show_int i = (if i < 0 then CHR ''-'' # show_nat (nat (- i)) else show_nat (nat i))"

definition hex_char :: "nat \<Rightarrow> char" where
  "hex_char d = (if d < 10 then char_of (48 + d) else char_of (87 + d))"

fun show_hex :: "nat \<Rightarrow> string" where
  "show_hex n = (if n < 16 then [hex_char n] else show_hex (n div 16) @ [hex_char (n mod 16)])"

declare show_hex.simps [simp del]

text \<open>The digit a character stands for in the given base, as \<open>std::from_chars\<close> reads it.\<close>

definition digit_value :: "nat \<Rightarrow> char \<Rightarrow> nat option" where
  "digit_value base c =
     (let v = (if is_digit c then Some (code c - 48)
               else if is_lower c then Some (code c - 97 + 10)
               else if is_upper c then Some (code c - 65 + 10) else None)
      in case v of None \<Rightarrow> None | Some d \<Rightarrow> if d < base then Some d else None)"

fun digits_value :: "nat \<Rightarrow> nat \<Rightarrow> string \<Rightarrow> nat" where
  "digits_value base acc [] = acc"
| "digits_value base acc (c # cs) =
     (case digit_value base c of None \<Rightarrow> acc | Some d \<Rightarrow> digits_value base (acc * base + d) cs)"

text \<open>
  \<open>std::from_chars\<close> for an unsigned type with largest value \<open>maxv\<close>: the value and the
  unread rest, or \<open>None\<close> for \<open>invalid_argument\<close> (no digit) and
  \<open>result_out_of_range\<close>.
\<close>

definition from_chars :: "nat \<Rightarrow> nat \<Rightarrow> string \<Rightarrow> (nat \<times> string) option" where
  "from_chars base maxv s =
     (let ds = takeWhile (\<lambda>c. digit_value base c \<noteq> None) s;
          v = digits_value base 0 ds
      in if ds = [] \<or> maxv < v then None
         else Some (v, dropWhile (\<lambda>c. digit_value base c \<noteq> None) s))"

lemma digit_value_digit_char [simp]: "d < 10 \<Longrightarrow> digit_value 10 (digit_char d) = Some d"
  by (simp add: digit_value_def digit_char_def is_digit_def)

lemma show_nat_digits: "\<forall>c \<in> set (show_nat n). is_digit c"
proof (induction n rule: show_nat.induct)
  case (1 n)
  show ?case
  proof (cases "n < 10")
    case True
    then show ?thesis by (subst show_nat.simps) (simp add: digit_char_def is_digit_def)
  next
    case False
    with 1 have "\<forall>c \<in> set (show_nat (n div 10)). is_digit c" by simp
    moreover have "n mod 10 < 10" by simp
    then have "is_digit (digit_char (n mod 10))" by (simp add: digit_char_def is_digit_def)
    ultimately show ?thesis using False by (subst show_nat.simps) auto
  qed
qed

lemma show_nat_nonempty [simp]: "show_nat n \<noteq> []"
  by (subst show_nat.simps) simp

lemma digits_value_append:
  "\<forall>c \<in> set a. digit_value base c \<noteq> None \<Longrightarrow>
   digits_value base acc (a @ b) = digits_value base (digits_value base acc a) b"
  by (induction a arbitrary: acc) (auto split: option.splits)

lemma is_digit_value: "is_digit c \<Longrightarrow> digit_value 10 c = Some (code c - 48)"
  by (auto simp: digit_value_def is_digit_def)

lemma digits_value_show_nat: "digits_value 10 0 (show_nat n) = n"
proof (induction n rule: show_nat.induct)
  case (1 n)
  show ?case
  proof (cases "n < 10")
    case True
    then show ?thesis by (subst show_nat.simps) simp
  next
    case False
    have d: "\<forall>c \<in> set (show_nat (n div 10)). digit_value 10 c \<noteq> None"
      using show_nat_digits is_digit_value by fastforce
    have m: "n mod 10 < 10" by simp
    have e: "show_nat n = show_nat (n div 10) @ [digit_char (n mod 10)]"
      using False by (subst show_nat.simps) simp
    have "digits_value 10 0 (show_nat n) = n div 10 * 10 + n mod 10"
      unfolding e digits_value_append [OF d] using 1 [OF False] digit_value_digit_char [OF m] by simp
    then show ?thesis by simp
  qed
qed

theorem from_chars_show_nat: "n \<le> maxv \<Longrightarrow> from_chars 10 maxv (show_nat n) = Some (n, [])"
proof -
  assume n: "n \<le> maxv"
  have d: "\<forall>c \<in> set (show_nat n). digit_value 10 c \<noteq> None"
    using show_nat_digits is_digit_value by fastforce
  have t: "takeWhile (\<lambda>c. digit_value 10 c \<noteq> None) (show_nat n) = show_nat n"
    using d by (simp only: takeWhile_eq_all_conv)
  have r: "dropWhile (\<lambda>c. digit_value 10 c \<noteq> None) (show_nat n) = []"
    using d by (simp only: dropWhile_eq_Nil_conv)
  show ?thesis unfolding from_chars_def Let_def t r using n by (simp add: digits_value_show_nat)
qed

lemma digit_value_hex_char [simp]: "d < 16 \<Longrightarrow> digit_value 16 (hex_char d) = Some d"
  by (auto simp: digit_value_def hex_char_def is_digit_def is_lower_def)

lemma show_hex_nonempty [simp]: "show_hex n \<noteq> []"
  by (subst show_hex.simps) simp

lemma show_hex_digits: "\<forall>c \<in> set (show_hex n). \<exists>d < 16. c = hex_char d"
proof (induction n rule: show_hex.induct)
  case (1 n)
  have "\<exists>d < 16. hex_char (n mod 16) = hex_char d" by (intro exI [of _ "n mod 16"]) simp
  with 1 show ?case by (cases "n < 16") (auto simp: show_hex.simps [of n])
qed

lemma digits_value_show_hex: "digits_value 16 0 (show_hex n) = n"
proof (induction n rule: show_hex.induct)
  case (1 n)
  show ?case
  proof (cases "n < 16")
    case True
    then show ?thesis by (subst show_hex.simps) simp
  next
    case False
    have d: "\<forall>c \<in> set (show_hex (n div 16)). digit_value 16 c \<noteq> None"
      using show_hex_digits by fastforce
    have m: "n mod 16 < 16" by simp
    have e: "show_hex n = show_hex (n div 16) @ [hex_char (n mod 16)]"
      using False by (subst show_hex.simps) simp
    have "digits_value 16 0 (show_hex n) = n div 16 * 16 + n mod 16"
      unfolding e digits_value_append [OF d] using 1 [OF False] digit_value_hex_char [OF m] by simp
    then show ?thesis by simp
  qed
qed

theorem from_chars_show_hex: "n \<le> maxv \<Longrightarrow> from_chars 16 maxv (show_hex n) = Some (n, [])"
proof -
  assume n: "n \<le> maxv"
  have d: "\<forall>c \<in> set (show_hex n). digit_value 16 c \<noteq> None"
    using show_hex_digits by fastforce
  have t: "takeWhile (\<lambda>c. digit_value 16 c \<noteq> None) (show_hex n) = show_hex n"
    using d by (simp only: takeWhile_eq_all_conv)
  have r: "dropWhile (\<lambda>c. digit_value 16 c \<noteq> None) (show_hex n) = []"
    using d by (simp only: dropWhile_eq_Nil_conv)
  show ?thesis unfolding from_chars_def Let_def t r using n by (simp add: digits_value_show_hex)
qed

lemma from_chars_bound: "from_chars base maxv s = Some (v, r) \<Longrightarrow> v \<le> maxv \<and> length r < length s"
proof -
  assume h: "from_chars base maxv s = Some (v, r)"
  let ?P = "\<lambda>c. digit_value base c \<noteq> None"
  from h have ne: "takeWhile ?P s \<noteq> []" and v: "v \<le> maxv" and r: "r = dropWhile ?P s"
    by (auto simp: from_chars_def Let_def split: if_splits)
  have "length (takeWhile ?P s) + length (dropWhile ?P s) = length s"
    by (metis length_append takeWhile_dropWhile_id)
  with ne v r show ?thesis by (metis add_diff_cancel_right' length_greater_0_conv less_add_same_cancel2)
qed

section \<open>Words\<close>

lemma unat_plus_no_wrap:
  "unat (a :: 'a::len word) + unat b < 2 ^ LENGTH('a) \<Longrightarrow> unat (a + b) = unat a + unat b"
  by (simp add: unat_word_ariths)

lemma word_le_plus_no_wrap:
  "unat (a :: 'a::len word) + unat b < 2 ^ LENGTH('a) \<Longrightarrow> a \<le> a + b"
  by (simp add: word_le_nat_alt unat_plus_no_wrap)

section \<open>Exceptions and operations that keep their partial effects\<close>

text \<open>
  A method that mutates \<open>this\<close> and may throw is a function from the state to the outcome
  (\<open>Inl\<close> the exception with its message, \<open>Inr\<close> the result) and the state it leaves,
  also when it throws: C++ does not roll back what was assigned before the throw.
\<close>

datatype std_exception =
    Invalid_argument string
  | Out_of_range string
  | Length_error string
  | Logic_error string
  | Runtime_error string

type_synonym ('s, 'a) op = "'s \<Rightarrow> (std_exception + 'a) \<times> 's"

definition ret :: "'a \<Rightarrow> ('s, 'a) op" where
  "ret x s = (Inr x, s)"

definition throw :: "std_exception \<Rightarrow> ('s, 'a) op" where
  "throw e s = (Inl e, s)"

definition bind_op :: "('s, 'a) op \<Rightarrow> ('a \<Rightarrow> ('s, 'b) op) \<Rightarrow> ('s, 'b) op" where
  "bind_op m f s = (case m s of (Inl e, s') \<Rightarrow> (Inl e, s') | (Inr x, s') \<Rightarrow> f x s')"

lemma ret_run [simp]: "ret x s = (Inr x, s)"
  by (simp add: ret_def)

lemma throw_run [simp]: "throw e s = (Inl e, s)"
  by (simp add: throw_def)

lemma bind_op_ok: "m s = (Inr x, s') \<Longrightarrow> bind_op m f s = f x s'"
  by (simp add: bind_op_def)

lemma bind_op_error: "m s = (Inl e, s') \<Longrightarrow> bind_op m f s = (Inl e, s')"
  by (simp add: bind_op_def)

text \<open>An operation keeps an invariant when it does so on every outcome, a throw included.\<close>

definition keeps :: "('s \<Rightarrow> bool) \<Rightarrow> ('s, 'a) op \<Rightarrow> bool" where
  "keeps I m \<longleftrightarrow> (\<forall>s. I s \<longrightarrow> I (snd (m s)))"

lemma keeps_ret [intro!]: "keeps I (ret x)"
  by (simp add: keeps_def)

lemma keeps_throw [intro!]: "keeps I (throw e)"
  by (simp add: keeps_def)

lemma keeps_bind [intro]: "keeps I m \<Longrightarrow> (\<And>x. keeps I (f x)) \<Longrightarrow> keeps I (bind_op m f)"
  unfolding keeps_def bind_op_def by (auto split: prod.splits sum.splits)

lemma keeps_run: "keeps I m \<Longrightarrow> I s \<Longrightarrow> m s = (r, s') \<Longrightarrow> I s'"
  by (metis keeps_def snd_conv)

section \<open>Lists\<close>

lemma take_drop_update:
  "length b = n \<Longrightarrow> i + n \<le> length xs \<Longrightarrow>
   take n (drop i (take i xs @ b @ drop (i + n) xs)) = b"
  by (simp add: min_def)

lemma filter_ne_subset: "set (filter P xs) \<subseteq> set xs"
  by auto

lemma overwrite_take:
  assumes "p \<le> z" "z \<le> length l" "p + length bs \<le> length l"
  shows "take (max z (p + length bs)) (take p l @ bs @ drop (p + length bs) l) =
         take p (take z l) @ bs @ drop (p + length bs) (take z l)"
proof -
  have "min p z = p" "max z (p + length bs) - p - length bs = z - (p + length bs)"
    using assms by linarith+
  then show ?thesis using assms by (simp add: drop_take)
qed

lemma map_length_eq_set:
  "map length xs = map length ys \<Longrightarrow> \<forall>y \<in> set ys. length y = n \<Longrightarrow> \<forall>x \<in> set xs. length x = n"
  by (metis (no_types, lifting) image_eqI imageE list.set_map)

lemma map_length_eq_concat: "map length xs = map length ys \<Longrightarrow> length (concat xs) = length (concat ys)"
  by (simp add: length_concat)

text \<open>Rounding up to whole blocks.\<close>

lemma ceil_div:
  fixes m B :: nat
  assumes B: "0 < B"
  shows "m \<le> (m div B + (if m mod B \<noteq> 0 then 1 else 0)) * B"
    and "(m div B + (if m mod B \<noteq> 0 then 1 else 0)) * B < m + B"
proof -
  have m: "m = m div B * B + m mod B" and r: "m mod B < B" using B by simp_all
  have e: "(m div B + (if m mod B \<noteq> 0 then 1 else 0)) * B =
      m div B * B + (if m mod B \<noteq> 0 then B else 0)"
    by (simp add: add_mult_distrib)
  show "m \<le> (m div B + (if m mod B \<noteq> 0 then 1 else 0)) * B"
  proof (cases "m mod B = 0")
    case True
    then show ?thesis unfolding e using m by simp
  next
    case False
    have "m \<le> m div B * B + B" using m r by linarith
    then show ?thesis unfolding e using False by simp
  qed
  show "(m div B + (if m mod B \<noteq> 0 then 1 else 0)) * B < m + B"
  proof (cases "m mod B = 0")
    case True
    then show ?thesis unfolding e using m B by simp
  next
    case False
    then have "m div B * B < m" using m by linarith
    then show ?thesis unfolding e using False by simp
  qed
qed

end
