(* ===== verification/Byte_Array.thy ===== *)
theory Byte_Array
  imports Prelude
begin

text \<open>
  \<open>ByteArray\<close> (include/droplet/stream/bytearray.h, src/stream/bytearray.cc): a chain of
  equally sized memory blocks behind one position that reads and writes share.

  The record has the fields of the class.  The chain \<open>root_ .. tail_\<close> is the list of its
  blocks, each the bytes of its \<open>ptr\<close> (so \<open>size\<close> is the length); a \<open>Node*\<close> is an index
  into the chain and \<open>nullptr\<close> is \<open>None\<close>.  \<open>fresh\<close> is what the allocator leaves in a
  new block, at an index of the chain and an offset: the code does not initialise it, so every
  theorem holds for every \<open>fresh\<close>.  \<open>size_t\<close> values are naturals; the code's own guards
  and the invariant keep them at most \<open>SIZE_MAX\<close>, so no operation on them wraps.  A signed
  integer is its word, read with \<open>sint\<close>; a float is its bit pattern, which is what the
  code moves with \<open>std::bit_cast\<close>.
\<close>

section \<open>Zigzag\<close>

type_synonym i8 = "8 word"
type_synonym i16 = "16 word"
type_synonym i32 = "32 word"
type_synonym i64 = "64 word"

definition EncodeZigzag32 :: "i32 \<Rightarrow> u32" where
  "EncodeZigzag32 value = push_bit 1 value XOR (if value <s 0 then - 1 else 0)"

definition EncodeZigzag64 :: "i64 \<Rightarrow> u64" where
  "EncodeZigzag64 value = push_bit 1 value XOR (if value <s 0 then - 1 else 0)"

definition DecodeZigzag32 :: "u32 \<Rightarrow> i32" where
  "DecodeZigzag32 value = drop_bit 1 value XOR (0 - (value AND 1))"

definition DecodeZigzag64 :: "u64 \<Rightarrow> i64" where
  "DecodeZigzag64 value = drop_bit 1 value XOR (0 - (value AND 1))"

definition CheckedSize :: "u64 \<Rightarrow> std_exception + nat" where
  "CheckedSize value =
     (if unat value > SIZE_MAX then Inl (Length_error ''ByteArray length does not fit in size_t'')
      else Inr (unat value))"

section \<open>The block chain\<close>

record byte_array =
  base_size :: nat
  position :: nat
  capacity :: nat
  bsize :: nat
  little_endian :: bool
  nodes :: "u8 list list"
  current :: "nat option"
  fresh :: "nat \<Rightarrow> nat \<Rightarrow> u8"

type_synonym 'a ba = "(byte_array, 'a) op"

text \<open>A pointer argument: null, or the bytes it points to.\<close>

datatype buffer = Null | Bytes "u8 list"

definition new_node :: "(nat \<Rightarrow> nat \<Rightarrow> u8) \<Rightarrow> nat \<Rightarrow> nat \<Rightarrow> u8 list" where
  "new_node junk index sz = map (junk index) [0..<sz]"

definition ByteArray :: "(nat \<Rightarrow> nat \<Rightarrow> u8) \<Rightarrow> nat \<Rightarrow> std_exception + byte_array" where
  "ByteArray junk base =
     (if base = 0 then Inl (Invalid_argument ''ByteArray base size must be greater than zero'')
      else Inr \<lparr> base_size = base, position = 0, capacity = base, bsize = 0,
                 little_endian = False, nodes = [new_node junk 0 base],
                 current = Some 0, fresh = junk \<rparr>)"

definition getReadSize :: "byte_array \<Rightarrow> nat" where
  "getReadSize b = bsize b - position b"

definition getCapacity :: "byte_array \<Rightarrow> nat" where
  "getCapacity b = capacity b - position b"

definition clear :: "unit ba" where
  "clear b = (Inr (), b\<lparr> nodes := [hd (nodes b)], current := Some 0, position := 0, bsize := 0,
                          capacity := base_size b \<rparr>)"

text \<open>\<open>nodeAt\<close>: the walk from block \<open>k\<close> on, and the offset left when it stops.\<close>

fun node_at :: "nat \<Rightarrow> u8 list list \<Rightarrow> nat \<Rightarrow> nat option \<times> nat" where
  "node_at k [] pos = (None, pos)"
| "node_at k (n # ns) pos =
     (if pos \<ge> length n then node_at (Suc k) ns (pos - length n) else (Some k, pos))"

definition nodeAt :: "byte_array \<Rightarrow> nat \<Rightarrow> nat option \<times> nat" where
  "nodeAt b pos = node_at 0 (nodes b) pos"

definition grow :: "nat \<Rightarrow> byte_array \<Rightarrow> byte_array" where
  "grow index b = b\<lparr> nodes := nodes b @ [new_node (fresh b) (length (nodes b)) (base_size b)],
                      capacity := capacity b + base_size b \<rparr>"

definition addCapacity :: "nat \<Rightarrow> unit ba" where
  "addCapacity sz b =
     (if sz \<le> getCapacity b then (Inr (), b)
      else let missing = sz - getCapacity b;
               count = missing div base_size b + (if missing mod base_size b \<noteq> 0 then 1 else 0)
           in if count > (SIZE_MAX - capacity b) div base_size b
              then (Inl (Length_error ''ByteArray capacity overflow''), b)
              else (Inr (), fold grow [0..<count] b))"

text \<open>
  The copy loops, from the block the walk stopped at: the blocks after the loop, the bytes
  still to copy, and the position.
\<close>

fun write_loop :: "u8 list list \<Rightarrow> nat \<Rightarrow> u8 list \<Rightarrow> nat \<Rightarrow> nat \<Rightarrow> u8 list list \<times> nat \<times> nat" where
  "write_loop [] offset source remaining pos = ([], remaining, pos)"
| "write_loop (n # ns) offset source remaining pos =
     (if remaining = 0 then (n # ns, remaining, pos)
      else let count = min remaining (length n - offset);
               n' = take offset n @ take count source @ drop (offset + count) n;
               (ns', r, p) = write_loop ns 0 (drop count source) (remaining - count) (pos + count)
           in (n' # ns', r, p))"

fun read_loop :: "u8 list list \<Rightarrow> nat \<Rightarrow> nat \<Rightarrow> nat \<Rightarrow> u8 list \<times> nat \<times> nat" where
  "read_loop [] offset remaining pos = ([], remaining, pos)"
| "read_loop (n # ns) offset remaining pos =
     (if remaining = 0 then ([], remaining, pos)
      else let count = min remaining (length n - offset);
               (bs, r, p) = read_loop ns 0 (remaining - count) (pos + count)
           in (take count (drop offset n) @ bs, r, p))"

definition ba_write :: "buffer \<Rightarrow> nat \<Rightarrow> unit ba" where
  "ba_write buf sz b =
     (if sz = 0 then (Inr (), b)
      else case buf of
        Null \<Rightarrow> (Inl (Invalid_argument ''ByteArray::write received a null buffer''), b)
      | Bytes source \<Rightarrow>
          if sz > SIZE_MAX - position b
          then (Inl (Length_error ''ByteArray position overflow''), b)
          else case addCapacity sz b of
            (Inl e, b1) \<Rightarrow> (Inl e, b1)
          | (Inr _, b1) \<Rightarrow>
              let (node, offset) = nodeAt b1 (position b1);
                  k = (case node of Some k \<Rightarrow> k | None \<Rightarrow> length (nodes b1));
                  (ns', remaining, p) = write_loop (drop k (nodes b1)) offset source sz (position b1);
                  b2 = b1\<lparr> nodes := take k (nodes b1) @ ns', position := p \<rparr>
              in if remaining \<noteq> 0
                 then (Inl (Logic_error ''ByteArray internal capacity error''), b2)
                 else let b3 = b2\<lparr> bsize := max (bsize b2) (position b2) \<rparr>
                      in (Inr (), b3\<lparr> current := fst (nodeAt b3 (position b3)) \<rparr>))"

text \<open>\<open>read(buffer, size)\<close>: the destination is null or not; its new bytes are the result.\<close>

definition ba_read :: "bool \<Rightarrow> nat \<Rightarrow> u8 list ba" where
  "ba_read destination_null sz b =
     (if sz = 0 then (Inr [], b)
      else if destination_null
      then (Inl (Invalid_argument ''ByteArray::read received a null buffer''), b)
      else if sz > getReadSize b
      then (Inl (Out_of_range ''ByteArray does not contain enough readable bytes''), b)
      else let (node, offset) = nodeAt b (position b);
               k = (case node of Some k \<Rightarrow> k | None \<Rightarrow> length (nodes b));
               (bs, remaining, p) = read_loop (drop k (nodes b)) offset sz (position b);
               b1 = b\<lparr> position := p \<rparr>
           in if remaining \<noteq> 0
              then (Inl (Logic_error ''ByteArray internal readable range error''), b1)
              else (Inr bs, b1\<lparr> current := fst (nodeAt b1 (position b1)) \<rparr>))"

text \<open>The \<open>const\<close> overload \<open>read(buffer, size, position)\<close>.\<close>

definition ba_read_at :: "bool \<Rightarrow> nat \<Rightarrow> nat \<Rightarrow> byte_array \<Rightarrow> std_exception + u8 list" where
  "ba_read_at destination_null sz pos b =
     (if sz = 0 then Inr []
      else if destination_null
      then Inl (Invalid_argument ''ByteArray::read received a null buffer'')
      else if pos > bsize b \<or> sz > bsize b - pos
      then Inl (Out_of_range ''ByteArray does not contain enough readable bytes'')
      else let (node, offset) = nodeAt b pos;
               k = (case node of Some k \<Rightarrow> k | None \<Rightarrow> length (nodes b));
               (bs, remaining, _) = read_loop (drop k (nodes b)) offset sz 0
           in if remaining \<noteq> 0
              then Inl (Logic_error ''ByteArray internal readable range error'')
              else Inr bs)"

definition setPosition :: "nat \<Rightarrow> unit ba" where
  "setPosition pos b =
     (if pos > capacity b then (Inl (Out_of_range ''ByteArray position exceeds capacity''), b)
      else let b1 = b\<lparr> position := pos, bsize := max (bsize b) pos \<rparr>
           in (Inr (), b1\<lparr> current := fst (nodeAt b1 pos) \<rparr>))"

section \<open>Scatter/gather views\<close>

text \<open>An \<open>iovec\<close>: the block its base points into, the offset there, and the length.\<close>

record iovec =
  iov_node :: nat
  iov_off :: nat
  iov_len :: nat

fun buffers_loop :: "nat \<Rightarrow> u8 list list \<Rightarrow> nat \<Rightarrow> nat \<Rightarrow> iovec list \<times> nat" where
  "buffers_loop k [] offset remaining = ([], remaining)"
| "buffers_loop k (n # ns) offset remaining =
     (if remaining = 0 then ([], remaining)
      else let count = min remaining (length n - offset);
               (vs, r) = buffers_loop (Suc k) ns 0 (remaining - count)
           in (\<lparr> iov_node = k, iov_off = offset, iov_len = count \<rparr> # vs, r))"

definition buffers_from :: "byte_array \<Rightarrow> nat \<Rightarrow> nat \<Rightarrow> iovec list \<times> nat" where
  "buffers_from b pos len =
     (let (node, offset) = nodeAt b pos;
          k = (case node of Some k \<Rightarrow> k | None \<Rightarrow> length (nodes b))
      in buffers_loop k (drop k (nodes b)) offset len)"

text \<open>The three methods append to \<open>buffers\<close> and return the bytes they describe.\<close>

definition getReadBuffers :: "iovec list \<Rightarrow> u64 \<Rightarrow> byte_array \<Rightarrow> nat \<times> iovec list" where
  "getReadBuffers buffers len b =
     (let n = min (unat len) (getReadSize b)
      in if n = 0 then (0, buffers)
         else let (vs, remaining) = buffers_from b (position b) n in (n - remaining, buffers @ vs))"

definition getReadBuffers_at :: "iovec list \<Rightarrow> u64 \<Rightarrow> u64 \<Rightarrow> byte_array \<Rightarrow> nat \<times> iovec list" where
  "getReadBuffers_at buffers len pos b =
     (if unat pos > bsize b then (0, buffers)
      else let n = min (unat len) (bsize b - unat pos)
           in if n = 0 then (0, buffers)
              else let (vs, remaining) = buffers_from b (unat pos) n in (n - remaining, buffers @ vs))"

definition getWriteBuffers :: "iovec list \<Rightarrow> u64 \<Rightarrow> (nat \<times> iovec list) ba" where
  "getWriteBuffers buffers len b =
     (if len = 0 then (Inr (0, buffers), b)
      else case CheckedSize len of
        Inl e \<Rightarrow> (Inl e, b)
      | Inr requested \<Rightarrow>
          (case addCapacity requested b of
             (Inl e, b1) \<Rightarrow> (Inl e, b1)
           | (Inr _, b1) \<Rightarrow>
               let (vs, remaining) = buffers_from b1 (position b1) (unat len)
               in (Inr (unat len - remaining, buffers @ vs), b1)))"

text \<open>What an \<open>iovec\<close> array denotes in the blocks: the bytes a \<open>writev\<close> of it would send.\<close>

definition gather :: "u8 list list \<Rightarrow> iovec list \<Rightarrow> u8 list" where
  "gather ns vs = concat (map (\<lambda>v. take (iov_len v) (drop (iov_off v) (ns ! iov_node v))) vs)"

section \<open>Walking and copying the chain\<close>

lemma node_at_inside:
  "pos < length (concat ns) \<Longrightarrow>
   \<exists>j off. node_at k ns pos = (Some (k + j), off) \<and> j < length ns \<and> off < length (ns ! j) \<and>
           length (concat (take j ns)) + off = pos"
proof (induction k ns pos rule: node_at.induct)
  case (1 k pos)
  then show ?case by simp
next
  case (2 k n ns pos)
  show ?case
  proof (cases "pos \<ge> length n")
    case True
    with 2 obtain j off where j: "node_at (Suc k) ns (pos - length n) = (Some (Suc k + j), off)"
      "j < length ns" "off < length (ns ! j)" "length (concat (take j ns)) + off = pos - length n"
      by fastforce
    with True show ?thesis by (intro exI [of _ "Suc j"] exI [of _ off]) auto
  next
    case False
    then show ?thesis by (intro exI [of _ 0] exI [of _ pos]) auto
  qed
qed

lemma node_at_outside:
  "length (concat ns) \<le> pos \<Longrightarrow> node_at k ns pos = (None, pos - length (concat ns))"
  by (induction k ns pos rule: node_at.induct) auto

lemma node_at_index: "node_at k ns pos = (Some i, off) \<Longrightarrow> k \<le> i \<and> i < k + length ns"
  by (induction k ns pos rule: node_at.induct) (auto split: if_splits)

lemma write_loop_0 [simp]: "write_loop ns off src 0 pos = (ns, 0, pos)"
  by (cases ns) auto

lemma read_loop_0 [simp]: "read_loop ns off 0 pos = ([], 0, pos)"
  by (cases ns) auto

lemma buffers_loop_0 [simp]: "buffers_loop k ns off 0 = ([], 0)"
  by (cases ns) auto

lemma write_loop_shape:
  "write_loop ns off src r pos = (ns', r', p) \<Longrightarrow> r \<le> length src \<Longrightarrow>
   (ns \<noteq> [] \<longrightarrow> off \<le> length (hd ns)) \<Longrightarrow> map length ns' = map length ns"
proof (induction ns off src r pos arbitrary: ns' r' p rule: write_loop.induct)
  case (1 offset source remaining pos)
  then show ?case by simp
next
  case (2 n ns offset source remaining pos)
  show ?case
  proof (cases "remaining = 0")
    case True
    with 2 show ?thesis by simp
  next
    case False
    let ?c = "min remaining (length n - offset)"
    obtain ms r q where rec: "write_loop ns 0 (drop ?c source) (remaining - ?c) (pos + ?c) = (ms, r, q)"
      by (cases "write_loop ns 0 (drop ?c source) (remaining - ?c) (pos + ?c)") auto
    have "map length ms = map length ns"
      using 2(1) [OF False refl refl rec] 2(3) by simp
    then show ?thesis using 2(2-4) False rec by (auto simp: Let_def)
  qed
qed

lemma write_loop_concat:
  "off + r \<le> length (concat ns) \<Longrightarrow> (ns \<noteq> [] \<longrightarrow> off \<le> length (hd ns)) \<Longrightarrow> r \<le> length src \<Longrightarrow>
   \<exists>ns'. write_loop ns off src r pos = (ns', 0, pos + r) \<and>
     concat ns' = take off (concat ns) @ take r src @ drop (off + r) (concat ns)"
proof (induction ns off src r pos rule: write_loop.induct)
  case (1 offset source remaining pos)
  then show ?case by simp
next
  case (2 n ns offset source remaining pos)
  show ?case
  proof (cases "remaining = 0")
    case True
    then show ?thesis using 2(3) by simp
  next
    case False
    let ?c = "min remaining (length n - offset)"
    have off: "offset \<le> length n" using 2(3) by simp
    have len: "offset + remaining \<le> length n + length (concat ns)" using 2(2) by simp
    have l: "0 + (remaining - ?c) \<le> length (concat ns)" using off len by linarith
    obtain ms where rec:
      "write_loop ns 0 (drop ?c source) (remaining - ?c) (pos + ?c) = (ms, 0, pos + ?c + (remaining - ?c))"
      "concat ms = take 0 (concat ns) @ take (remaining - ?c) (drop ?c source) @
         drop (0 + (remaining - ?c)) (concat ns)"
      using 2(1) [OF False refl refl] 2(4) l by force
    have "take remaining source = take ?c source @ take (remaining - ?c) (drop ?c source)"
      by (metis le_add_diff_inverse min.cobounded1 take_add)
    then show ?thesis
      using rec False off len
      by (cases "remaining \<le> length n - offset") (auto simp: Let_def min_def add.commute)
  qed
qed

lemma read_loop_concat:
  "off + r \<le> length (concat ns) \<Longrightarrow> (ns \<noteq> [] \<longrightarrow> off \<le> length (hd ns)) \<Longrightarrow>
   read_loop ns off r pos = (take r (drop off (concat ns)), 0, pos + r)"
proof (induction ns off r pos rule: read_loop.induct)
  case (1 offset remaining pos)
  then show ?case by simp
next
  case (2 n ns offset remaining pos)
  show ?case
  proof (cases "remaining = 0")
    case True
    then show ?thesis by simp
  next
    case False
    let ?c = "min remaining (length n - offset)"
    have off: "offset \<le> length n" using 2(3) by simp
    have len: "offset + remaining \<le> length n + length (concat ns)" using 2(2) by simp
    have "0 + (remaining - ?c) \<le> length (concat ns)" using off len by linarith
    then have "read_loop ns 0 (remaining - ?c) (pos + ?c) =
       (take (remaining - ?c) (drop 0 (concat ns)), 0, pos + ?c + (remaining - ?c))"
      using 2(1) [OF False refl] by blast
    then show ?thesis using False off len
      by (cases "remaining \<le> length n - offset") (auto simp: Let_def min_def)
  qed
qed

lemma buffers_loop_gather:
  "off + r \<le> length (concat ns) \<Longrightarrow> (ns \<noteq> [] \<longrightarrow> off \<le> length (hd ns)) \<Longrightarrow>
   \<exists>vs. buffers_loop (length pre) ns off r = (vs, 0) \<and>
     gather (pre @ ns) vs = take r (drop off (concat ns)) \<and> sum_list (map iov_len vs) = r"
proof (induction ns arbitrary: pre off r)
  case Nil
  then show ?case by (simp add: gather_def)
next
  case (Cons n ns)
  show ?case
  proof (cases "r = 0")
    case True
    then show ?thesis by (simp add: gather_def)
  next
    case False
    let ?c = "min r (length n - off)"
    have off: "off \<le> length n" using Cons.prems by simp
    have len: "off + r \<le> length n + length (concat ns)" using Cons.prems by simp
    have "0 + (r - ?c) \<le> length (concat ns)" using off len by linarith
    then obtain vs where vs: "buffers_loop (length (pre @ [n])) ns 0 (r - ?c) = (vs, 0)"
      "gather ((pre @ [n]) @ ns) vs = take (r - ?c) (drop 0 (concat ns))"
      "sum_list (map iov_len vs) = r - ?c"
      using Cons.IH [of 0 "r - ?c" "pre @ [n]"] by auto
    let ?v = "\<lparr> iov_node = length pre, iov_off = off, iov_len = ?c \<rparr>"
    have "buffers_loop (length pre) (n # ns) off r = (?v # vs, 0)"
      using vs(1) False by (simp add: Let_def)
    moreover have "gather (pre @ n # ns) (?v # vs) = take r (drop off (concat (n # ns)))"
      using vs(2) off by (cases "r \<le> length n - off") (auto simp: gather_def nth_append)
    moreover have "sum_list (map iov_len (?v # vs)) = r" using vs(3) by simp
    ultimately show ?thesis by blast
  qed
qed

section \<open>The invariant and the abstract byte store\<close>

definition ba_inv :: "byte_array \<Rightarrow> bool" where
  "ba_inv b \<longleftrightarrow>
     0 < base_size b \<and> nodes b \<noteq> [] \<and> (\<forall>n \<in> set (nodes b). length n = base_size b) \<and>
     capacity b = length (concat (nodes b)) \<and> capacity b \<le> SIZE_MAX \<and>
     position b \<le> bsize b \<and> bsize b \<le> capacity b \<and>
     (\<forall>i. current b = Some i \<longrightarrow> i < length (nodes b))"

text \<open>The abstraction: the valid bytes and the position in them.\<close>

definition contents :: "byte_array \<Rightarrow> u8 list" where
  "contents b = take (bsize b) (concat (nodes b))"

definition store_write :: "u8 list \<Rightarrow> u8 list \<times> nat \<Rightarrow> u8 list \<times> nat" where
  "store_write bs = (\<lambda>(c, p). (take p c @ bs @ drop (p + length bs) c, p + length bs))"

definition store_read :: "nat \<Rightarrow> u8 list \<times> nat \<Rightarrow> (u8 list \<times> (u8 list \<times> nat)) option" where
  "store_read n = (\<lambda>(c, p). if n \<le> length c - p then Some (take n (drop p c), (c, p + n)) else None)"

definition abs_store :: "byte_array \<Rightarrow> u8 list \<times> nat" where
  "abs_store b = (contents b, position b)"

text \<open>Room for \<open>n\<close> more bytes at the position, rounded up to a whole block.\<close>

definition room :: "byte_array \<Rightarrow> nat \<Rightarrow> bool" where
  "room b n \<longleftrightarrow> position b + n + base_size b \<le> SIZE_MAX"

lemma ba_invD:
  assumes "ba_inv b"
  shows "0 < base_size b" "nodes b \<noteq> []" "capacity b = length (concat (nodes b))"
    "capacity b \<le> SIZE_MAX" "position b \<le> bsize b" "bsize b \<le> capacity b"
    "\<And>n. n \<in> set (nodes b) \<Longrightarrow> length n = base_size b"
  using assms by (auto simp: ba_inv_def)

lemma length_contents: "ba_inv b \<Longrightarrow> length (contents b) = bsize b"
  using ba_invD [of b] by (simp add: contents_def)

lemma ByteArray_inv: "ByteArray junk base = Inr b \<Longrightarrow> base \<le> SIZE_MAX \<Longrightarrow> ba_inv b"
  by (auto simp: ByteArray_def ba_inv_def new_node_def split: if_splits)

lemma fold_grow:
  "fold grow [0..<count] b =
     b\<lparr> nodes := nodes b @ map (\<lambda>i. new_node (fresh b) (length (nodes b) + i) (base_size b)) [0..<count],
        capacity := capacity b + count * base_size b \<rparr>"
  by (induction count) (simp_all add: grow_def)

lemma length_new_nodes:
  "length (concat (map (\<lambda>i. new_node junk (k + i) base) [0..<count])) = count * base"
  by (induction count) (simp_all add: new_node_def)

lemma addCapacity_cases:
  assumes inv: "ba_inv b"
  obtains (error) msg where "addCapacity sz b = (Inl (Length_error msg), b)" "\<not> room b sz"
        | (ok) extra where "addCapacity sz b = (Inr (), b\<lparr> nodes := nodes b @ extra,
              capacity := capacity b + length (concat extra) \<rparr>)"
            "\<forall>n \<in> set extra. length n = base_size b" "capacity b + length (concat extra) \<le> SIZE_MAX"
            "position b + sz \<le> capacity b + length (concat extra)"
proof (cases "sz \<le> getCapacity b")
  case True
  then have "addCapacity sz b = (Inr (), b\<lparr> nodes := nodes b @ [], capacity := capacity b + length (concat []) \<rparr>)"
    by (simp add: addCapacity_def)
  then show ?thesis using that(2) [of "[]"] True ba_invD [OF inv]
    by (simp add: getCapacity_def)
next
  case False
  let ?B = "base_size b"
  let ?m = "sz - getCapacity b"
  let ?c = "?m div ?B + (if ?m mod ?B \<noteq> 0 then 1 else 0)"
  let ?extra = "map (\<lambda>i. new_node (fresh b) (length (nodes b) + i) ?B) [0..<?c]"
  note inv' = ba_invD [OF inv]
  have B: "0 < ?B" by (rule inv')
  have m: "?m \<le> ?c * ?B" by (rule ceil_div [OF B])
  have mu: "?c * ?B < ?m + ?B" by (rule ceil_div [OF B])
  have fits: "?c \<le> (SIZE_MAX - capacity b) div ?B \<longleftrightarrow> ?c * ?B \<le> SIZE_MAX - capacity b"
    using B by (simp add: less_eq_div_iff_mult_less_eq)
  show ?thesis
  proof (cases "?c > (SIZE_MAX - capacity b) div ?B")
    case True
    then have "SIZE_MAX - capacity b < ?c * ?B" using fits by linarith
    with mu have "\<not> room b sz" using inv' False by (simp add: room_def getCapacity_def)
    moreover have "addCapacity sz b = (Inl (Length_error ''ByteArray capacity overflow''), b)"
      using False True by (simp add: addCapacity_def Let_def)
    ultimately show ?thesis using that(1) by blast
  next
    case ok: False
    have ln: "length (concat ?extra) = ?c * ?B" by (rule length_new_nodes)
    have "addCapacity sz b = (Inr (), fold grow [0..<?c] b)"
      using False ok by (simp add: addCapacity_def Let_def)
    then have "addCapacity sz b =
        (Inr (), b\<lparr> nodes := nodes b @ ?extra, capacity := capacity b + length (concat ?extra) \<rparr>)"
      unfolding fold_grow ln .
    moreover have "capacity b + length (concat ?extra) \<le> SIZE_MAX"
      unfolding ln using ok fits inv' by linarith
    moreover have "position b + sz \<le> capacity b + length (concat ?extra)"
      unfolding ln using m False inv' by (simp add: getCapacity_def)
    moreover have "\<forall>n \<in> set ?extra. length n = base_size b" by (simp add: new_node_def)
    ultimately show ?thesis using that(2) [of ?extra] by blast
  qed
qed

lemma extend_inv:
  assumes "ba_inv b" "\<forall>n \<in> set extra. length n = base_size b" "capacity b + length (concat extra) \<le> SIZE_MAX"
  shows "ba_inv (b\<lparr> nodes := nodes b @ extra, capacity := capacity b + length (concat extra) \<rparr>)"
    and "contents (b\<lparr> nodes := nodes b @ extra, capacity := capacity b + length (concat extra) \<rparr>) = contents b"
  using assms by (auto simp: ba_inv_def contents_def intro: less_le_trans)

lemma node_at_block:
  assumes "pos < length (concat ns)"
  obtains k off where "node_at 0 ns pos = (Some k, off)" "k < length ns" "off \<le> length (hd (drop k ns))"
    "length (concat (take k ns)) + off = pos" "drop k ns \<noteq> []"
  using node_at_inside [OF assms, of 0] by (auto simp: hd_drop_conv_nth)

lemma concat_take_drop: "concat (take k ns) @ concat (drop k ns) = concat ns"
  by (metis append_take_drop_id concat_append)

lemma drop_block:
  "length (concat (take k ns)) + off = pos \<Longrightarrow> drop off (concat (drop k ns)) = drop pos (concat ns)"
  by (metis add.commute append_take_drop_id concat_append diff_add_inverse drop_append drop_drop
      drop_eq_Nil le_add1 self_append_conv2)

lemma drop_block_length:
  assumes "length (concat (take k ns)) + off = pos" "pos + n \<le> length (concat ns)"
  shows "off + n \<le> length (concat (drop k ns))"
proof -
  have "length (concat ns) = length (concat (take k ns)) + length (concat (drop k ns))"
    by (metis concat_take_drop length_append)
  with assms show ?thesis by linarith
qed

lemma take_block:
  assumes "length (concat (take k ns)) + off = pos"
  shows "concat (take k ns) @ take off (concat (drop k ns)) = take pos (concat ns)"
proof -
  have "take pos (concat (take k ns) @ concat (drop k ns)) =
      concat (take k ns) @ take off (concat (drop k ns))"
    using assms by (metis add_diff_cancel_left' le_add1 take_all take_append)
  then show ?thesis by (simp only: concat_take_drop)
qed

lemma nodeAt_current_ok: "fst (nodeAt b pos) = Some i \<Longrightarrow> i < length (nodes b)"
  using node_at_index [of 0 "nodes b" pos i "snd (nodeAt b pos)"]
  by (simp add: nodeAt_def prod_eq_iff)

lemma write_chain:
  assumes fits: "pos + length bs \<le> length (concat ns)" and ne: "bs \<noteq> []"
  obtains k off ns' where "node_at 0 ns pos = (Some k, off)"
    "write_loop (drop k ns) off bs (length bs) pos = (ns', 0, pos + length bs)"
    "map length (take k ns @ ns') = map length ns"
    "concat (take k ns @ ns') = take pos (concat ns) @ bs @ drop (pos + length bs) (concat ns)"
proof -
  have "0 < length bs" using ne by simp
  with fits have "pos < length (concat ns)" by linarith
  then obtain k off where k: "node_at 0 ns pos = (Some k, off)"
    "off \<le> length (hd (drop k ns))" "length (concat (take k ns)) + off = pos"
    by (rule node_at_block)
  have len: "off + length bs \<le> length (concat (drop k ns))"
    by (rule drop_block_length [OF k(3) fits])
  obtain ns' where w: "write_loop (drop k ns) off bs (length bs) pos = (ns', 0, pos + length bs)"
    "concat ns' = take off (concat (drop k ns)) @ take (length bs) bs @ drop (off + length bs) (concat (drop k ns))"
    using write_loop_concat [OF len] k(2) by blast
  have shape: "map length (take k ns @ ns') = map length ns"
    using write_loop_shape [OF w(1)] k(2) by (metis append_take_drop_id le_refl map_append)
  have "drop (off + length bs) (concat (drop k ns)) = drop (pos + length bs) (concat ns)"
    by (rule drop_block) (use k(3) in linarith)
  then have "concat (take k ns @ ns') = take pos (concat ns) @ bs @ drop (pos + length bs) (concat ns)"
    using w(2) take_block [OF k(3)] by (metis append.assoc concat_append take_all le_refl)
  with k(1) w(1) shape show ?thesis by (rule that)
qed

lemma chain_replaced_inv:
  assumes inv: "ba_inv b" and fits: "position b + length bs \<le> length (concat (nodes b))"
    and shape: "map length ns = map length (nodes b)"
    and cat: "concat ns = take (position b) (concat (nodes b)) @ bs @
                drop (position b + length bs) (concat (nodes b))"
    and cur: "\<forall>i. c = Some i \<longrightarrow> i < length ns"
  defines "b' \<equiv> b\<lparr> nodes := ns, position := position b + length bs,
                  bsize := max (bsize b) (position b + length bs), current := c \<rparr>"
  shows "ba_inv b'" and "abs_store b' = store_write bs (abs_store b)"
proof -
  note i = ba_invD [OF inv]
  have len: "length ns = length (nodes b)" using shape by (metis length_map)
  have "\<forall>n \<in> set ns. length n = base_size b"
    using map_length_eq_set [OF shape] i(7) by blast
  moreover have "length (concat ns) = capacity b" using map_length_eq_concat [OF shape] i(3) by simp
  moreover have "ns \<noteq> []" using len i(2) by auto
  ultimately show "ba_inv b'" using i cur fits by (simp add: ba_inv_def b'_def)
  have "bsize b \<le> length (concat (nodes b))" using i by simp
  from overwrite_take [OF i(5) this fits] show "abs_store b' = store_write bs (abs_store b)"
    by (simp add: abs_store_def store_write_def contents_def b'_def cat)
qed

lemma ba_write_cases:
  assumes inv: "ba_inv b"
  obtains (error) msg where "ba_write (Bytes bs) (length bs) b = (Inl (Length_error msg), b)"
              "\<not> room b (length bs)"
        | (ok) b' where "ba_write (Bytes bs) (length bs) b = (Inr (), b')" "ba_inv b'"
              "abs_store b' = store_write bs (abs_store b)" "base_size b' = base_size b"
              "little_endian b' = little_endian b"
proof (cases "bs = []")
  case True
  then show ?thesis using that(2) [of b] inv
    by (simp add: ba_write_def store_write_def abs_store_def)
next
  case ne: False
  show ?thesis
  proof (cases "length bs > SIZE_MAX - position b")
    case True
    then have "\<not> room b (length bs)" by (simp add: room_def)
    then show ?thesis using that(1) True ne by (simp add: ba_write_def)
  next
    case fits: False
    show ?thesis
      using inv
    proof (cases rule: addCapacity_cases [where sz = "length bs"])
      case (error msg)
      then show ?thesis using that(1) fits ne by (simp add: ba_write_def)
    next
      case (ok extra)
      define b1 where "b1 = b\<lparr> nodes := nodes b @ extra, capacity := capacity b + length (concat extra) \<rparr>"
      have inv1: "ba_inv b1" and c1: "contents b1 = contents b"
        unfolding b1_def by (rule extend_inv [OF inv ok(2,3)])+
      have same: "position b1 = position b" "base_size b1 = base_size b"
        "little_endian b1 = little_endian b" by (simp_all add: b1_def)
      have en: "position b1 + length bs \<le> length (concat (nodes b1))"
        using ok(4) ba_invD(3) [OF inv] by (simp add: b1_def)
      obtain k off ns' where w: "node_at 0 (nodes b1) (position b1) = (Some k, off)"
        "write_loop (drop k (nodes b1)) off bs (length bs) (position b1) = (ns', 0, position b1 + length bs)"
        "map length (take k (nodes b1) @ ns') = map length (nodes b1)"
        "concat (take k (nodes b1) @ ns') = take (position b1) (concat (nodes b1)) @ bs @
           drop (position b1 + length bs) (concat (nodes b1))"
        by (rule write_chain [OF en ne])
      define b2 where "b2 = b1\<lparr> nodes := take k (nodes b1) @ ns', position := position b1 + length bs,
                               bsize := max (bsize b1) (position b1 + length bs) \<rparr>"
      let ?c = "fst (nodeAt b2 (position b2))"
      have cur: "\<forall>i. ?c = Some i \<longrightarrow> i < length (take k (nodes b1) @ ns')"
        using nodeAt_current_ok [of b2 "position b2"] by (simp add: b2_def)
      have "ba_write (Bytes bs) (length bs) b = (Inr (), b2\<lparr> current := ?c \<rparr>)"
        using ne fits ok(1) w(1,2)
        by (simp add: ba_write_def nodeAt_def Let_def b2_def flip: b1_def)
      moreover have "ba_inv (b2\<lparr> current := ?c \<rparr>)"
        using chain_replaced_inv(1) [OF inv1 en w(3,4) cur] by (simp add: b2_def)
      moreover have "abs_store (b2\<lparr> current := ?c \<rparr>) = store_write bs (abs_store b)"
        using chain_replaced_inv(2) [OF inv1 en w(3,4) cur] c1 same by (simp add: b2_def abs_store_def)
      ultimately show ?thesis using that(2) same by (simp add: b2_def)
    qed
  qed
qed

lemma ba_read_ok:
  assumes inv: "ba_inv b" and n: "n \<le> getReadSize b"
  obtains c where "ba_read False n b = (Inr (take n (drop (position b) (contents b))),
      b\<lparr> position := position b + n, current := c \<rparr>)"
    "ba_inv (b\<lparr> position := position b + n, current := c \<rparr>)"
proof (cases "n = 0")
  case True
  then show ?thesis using that [of "current b"] inv by (simp add: ba_read_def)
next
  case ne: False
  let ?ns = "nodes b" and ?p = "position b"
  note i = ba_invD [OF inv]
  have le: "?p + n \<le> bsize b" using n i by (simp add: getReadSize_def)
  then have in1: "?p < length (concat ?ns)" and en: "?p + n \<le> length (concat ?ns)" using i ne by linarith+
  obtain k off where k: "node_at 0 ?ns ?p = (Some k, off)" "k < length ?ns"
    "off \<le> length (hd (drop k ?ns))" "length (concat (take k ?ns)) + off = ?p" "drop k ?ns \<noteq> []"
    by (rule node_at_block [OF in1])
  have len: "off + n \<le> length (concat (drop k ?ns))"
    by (rule drop_block_length [OF k(4) en])
  have r: "read_loop (drop k ?ns) off n ?p = (take n (drop ?p (concat ?ns)), 0, ?p + n)"
    using read_loop_concat [OF len] k(3) drop_block [OF k(4)] by simp
  have bytes: "take n (drop ?p (concat ?ns)) = take n (drop ?p (contents b))"
    using le by (simp add: contents_def drop_take min_def)
  let ?c = "fst (nodeAt (b\<lparr> position := ?p + n \<rparr>) (?p + n))"
  have "ba_read False n b = (Inr (take n (drop ?p (contents b))), b\<lparr> position := ?p + n, current := ?c \<rparr>)"
    using ne n k(1) r bytes by (simp add: ba_read_def nodeAt_def Let_def)
  moreover have "ba_inv (b\<lparr> position := ?p + n, current := ?c \<rparr>)"
    using inv le nodeAt_current_ok [of "b\<lparr> position := ?p + n \<rparr>"] by (simp add: ba_inv_def)
  ultimately show ?thesis using that by blast
qed

lemma ba_read_short:
  "n > getReadSize b \<Longrightarrow> ba_read False n b =
     (Inl (Out_of_range ''ByteArray does not contain enough readable bytes''), b)"
  by (simp add: ba_read_def)

lemma ba_read_at_value:
  assumes inv: "ba_inv b" and n: "p \<le> bsize b" "n \<le> bsize b - p"
  shows "ba_read_at False n p b = Inr (take n (drop p (contents b)))"
proof (cases "n = 0")
  case True
  then show ?thesis by (simp add: ba_read_at_def)
next
  case ne: False
  let ?ns = "nodes b"
  note i = ba_invD [OF inv]
  have in1: "p < length (concat ?ns)" and en: "p + n \<le> length (concat ?ns)" using i n ne by linarith+
  obtain k off where k: "node_at 0 ?ns p = (Some k, off)" "k < length ?ns"
    "off \<le> length (hd (drop k ?ns))" "length (concat (take k ?ns)) + off = p" "drop k ?ns \<noteq> []"
    by (rule node_at_block [OF in1])
  have len: "off + n \<le> length (concat (drop k ?ns))"
    by (rule drop_block_length [OF k(4) en])
  have "read_loop (drop k ?ns) off n 0 = (take n (drop p (concat ?ns)), 0, 0 + n)"
    using read_loop_concat [OF len] k(3) drop_block [OF k(4)] by simp
  moreover have "take n (drop p (concat ?ns)) = take n (drop p (contents b))"
    using n by (simp add: contents_def drop_take min_def)
  ultimately show ?thesis using ne n k(1) by (simp add: ba_read_at_def nodeAt_def Let_def)
qed

section \<open>The interface the encoders rely on\<close>

text \<open>
  What the codecs need of their store: \<open>put\<close> overwrites at the position and \<open>get\<close> reads
  at the position, both advance it, and \<open>seek\<close> moves it inside the valid bytes.
  \<open>encodes m e bs\<close> says that \<open>e\<close> writes exactly \<open>bs\<close> and \<open>decodes m d bs v\<close>
  that \<open>d\<close>, in front of \<open>bs\<close>, returns \<open>v\<close> and consumes exactly \<open>bs\<close>; both
  compose along \<open>bind_op\<close>.
\<close>

locale byte_store =
  fixes inv :: "'s \<Rightarrow> bool"
    and view :: "'s \<Rightarrow> u8 list \<times> nat"
    and fits :: "'s \<Rightarrow> nat \<Rightarrow> bool"
    and mode :: "'s \<Rightarrow> 'm"
    and put :: "u8 list \<Rightarrow> ('s, unit) op"
    and get :: "nat \<Rightarrow> ('s, u8 list) op"
    and seek :: "nat \<Rightarrow> ('s, unit) op"
  assumes put_law: "inv s \<Longrightarrow> fits s (length bs) \<Longrightarrow> \<exists>s'. put bs s = (Inr (), s') \<and> inv s' \<and>
      view s' = store_write bs (view s) \<and> mode s' = mode s \<and>
      (\<forall>k. fits s (length bs + k) \<longrightarrow> fits s' k)"
    and get_law: "inv s \<Longrightarrow> n \<le> length (fst (view s)) - snd (view s) \<Longrightarrow>
      \<exists>s'. get n s = (Inr (take n (drop (snd (view s)) (fst (view s)))), s') \<and> inv s' \<and>
        view s' = (fst (view s), snd (view s) + n) \<and> mode s' = mode s"
    and seek_law: "inv s \<Longrightarrow> p \<le> length (fst (view s)) \<Longrightarrow>
      \<exists>s'. seek p s = (Inr (), s') \<and> inv s' \<and> view s' = (fst (view s), p) \<and> mode s' = mode s"
    and view_law: "inv s \<Longrightarrow> snd (view s) \<le> length (fst (view s))"
    and fits_mono: "fits s n \<Longrightarrow> k \<le> n \<Longrightarrow> fits s k"
begin

definition encodes :: "'m \<Rightarrow> ('s, unit) op \<Rightarrow> u8 list \<Rightarrow> bool" where
  "encodes m e bs \<longleftrightarrow> (\<forall>s. inv s \<and> mode s = m \<and> fits s (length bs) \<longrightarrow>
     (\<exists>s'. e s = (Inr (), s') \<and> inv s' \<and> view s' = store_write bs (view s) \<and> mode s' = m \<and>
           (\<forall>k. fits s (length bs + k) \<longrightarrow> fits s' k)))"

definition decodes :: "'m \<Rightarrow> ('s, 'v) op \<Rightarrow> u8 list \<Rightarrow> 'v \<Rightarrow> bool" where
  "decodes m d bs v \<longleftrightarrow> (\<forall>s rest. inv s \<and> mode s = m \<and>
       drop (snd (view s)) (fst (view s)) = bs @ rest \<longrightarrow>
     (\<exists>s'. d s = (Inr v, s') \<and> inv s' \<and> view s' = (fst (view s), snd (view s) + length bs) \<and> mode s' = m))"

lemma encodes_put: "encodes m (put bs) bs"
  unfolding encodes_def using put_law by blast

lemma encodes_bind:
  assumes e: "encodes m e bs" and f: "encodes m (f ()) cs"
  shows "encodes m (bind_op e f) (bs @ cs)"
  unfolding encodes_def
proof (intro allI impI, elim conjE)
  fix s
  assume s: "inv s" "mode s = m" "fits s (length (bs @ cs))"
  from s have "fits s (length bs)" by (auto elim: fits_mono)
  with e s obtain s1 where s1: "e s = (Inr (), s1)" "inv s1" "view s1 = store_write bs (view s)"
    "mode s1 = m" "\<forall>k. fits s (length bs + k) \<longrightarrow> fits s1 k"
    unfolding encodes_def by blast
  from s s1 have "fits s1 (length cs)" by simp
  with f s1 obtain s2 where s2: "f () s1 = (Inr (), s2)" "inv s2" "view s2 = store_write cs (view s1)"
    "mode s2 = m" "\<forall>k. fits s1 (length cs + k) \<longrightarrow> fits s2 k"
    unfolding encodes_def by blast
  have "view s2 = store_write (bs @ cs) (view s)"
    using s2(3) s1(3) view_law [OF s(1)] by (simp add: store_write_def split_beta ac_simps)
  then show "\<exists>s'. bind_op e f s = (Inr (), s') \<and> inv s' \<and> view s' = store_write (bs @ cs) (view s) \<and>
      mode s' = m \<and> (\<forall>k. fits s (length (bs @ cs) + k) \<longrightarrow> fits s' k)"
    using s1 s2 by (intro exI [of _ s2]) (simp add: bind_op_def add.assoc)
qed

lemma decodes_get: "decodes m (get (length bs)) bs bs"
  unfolding decodes_def
proof (intro allI impI, elim conjE)
  fix s rest
  assume s: "inv s" "mode s = m" "drop (snd (view s)) (fst (view s)) = bs @ rest"
  then have "length bs \<le> length (fst (view s)) - snd (view s)"
    by (metis le_add1 length_append length_drop)
  from get_law [OF s(1) this] s show "\<exists>s'. get (length bs) s = (Inr bs, s') \<and> inv s' \<and>
      view s' = (fst (view s), snd (view s) + length bs) \<and> mode s' = m"
    by auto
qed

lemma decodes_ret: "decodes m (ret v) [] v"
  by (auto simp: decodes_def)

lemma decodes_bind:
  assumes d: "decodes m d bs v" and f: "decodes m (f v) cs w"
  shows "decodes m (bind_op d f) (bs @ cs) w"
  unfolding decodes_def
proof (intro allI impI, elim conjE)
  fix s rest
  assume s: "inv s" "mode s = m" "drop (snd (view s)) (fst (view s)) = (bs @ cs) @ rest"
  with d obtain s1 where s1: "d s = (Inr v, s1)" "inv s1"
    "view s1 = (fst (view s), snd (view s) + length bs)" "mode s1 = m"
    unfolding decodes_def by (metis append.assoc)
  have "drop (snd (view s1)) (fst (view s1)) = cs @ rest"
    using s1(3) s(3) by (metis add.commute append.assoc append_eq_conv_conj drop_drop fst_conv snd_conv)
  with f s1 obtain s2 where "f v s1 = (Inr w, s2)" "inv s2"
    "view s2 = (fst (view s1), snd (view s1) + length cs)" "mode s2 = m"
    unfolding decodes_def by blast
  with s1 show "\<exists>s'. bind_op d f s = (Inr w, s') \<and> inv s' \<and>
      view s' = (fst (view s), snd (view s) + length (bs @ cs)) \<and> mode s' = m"
    by (intro exI [of _ s2]) (simp add: bind_op_def add.assoc)
qed

lemma decodes_checked:
  assumes "\<And>s. inv s \<Longrightarrow> avail s = length (fst (view s)) - snd (view s)"
  shows "decodes m (\<lambda>s. if length bs > avail s then (Inl err, s) else get (length bs) s) bs bs"
  unfolding decodes_def
proof (intro allI impI, elim conjE)
  fix s rest
  assume s: "inv s" "mode s = m" "drop (snd (view s)) (fst (view s)) = bs @ rest"
  then have "\<not> length bs > avail s"
    using assms [OF s(1)] by (metis le_add1 length_append length_drop not_less)
  then show "\<exists>s'. (if length bs > avail s then (Inl err, s) else get (length bs) s) = (Inr bs, s') \<and>
      inv s' \<and> view s' = (fst (view s), snd (view s) + length bs) \<and> mode s' = m"
    using decodes_get [of m bs] s unfolding decodes_def by auto
qed

lemma round_trip:
  assumes e: "encodes m e bs" and d: "decodes m d bs v"
    and s: "inv s" "mode s = m" "fits s (length bs)"
  shows "\<exists>s1 s2 s3. e s = (Inr (), s1) \<and> seek (snd (view s)) s1 = (Inr (), s2) \<and> d s2 = (Inr v, s3) \<and>
     view s1 = store_write bs (view s) \<and> view s3 = view s1 \<and> inv s3"
proof -
  obtain s1 where s1: "e s = (Inr (), s1)" "inv s1" "view s1 = store_write bs (view s)" "mode s1 = m"
    using e s unfolding encodes_def by blast
  have p: "snd (view s) \<le> length (fst (view s))" using s by (intro view_law)
  then have "snd (view s) \<le> length (fst (view s1))"
    using s1(3) by (simp add: store_write_def split_beta)
  then obtain s2 where s2: "seek (snd (view s)) s1 = (Inr (), s2)" "inv s2"
    "view s2 = (fst (view s1), snd (view s))" "mode s2 = m"
    using seek_law [OF s1(2)] s1(4) by blast
  have "drop (snd (view s2)) (fst (view s2)) = bs @ drop (snd (view s) + length bs) (fst (view s))"
    using s2(3) s1(3) p by (simp add: store_write_def split_beta)
  with d s2 obtain s3 where "d s2 = (Inr v, s3)" "inv s3"
    "view s3 = (fst (view s2), snd (view s2) + length bs)"
    unfolding decodes_def by blast
  then show ?thesis using s1 s2 by (auto simp: store_write_def split_beta)
qed

end

text \<open>The block chain provides the interface.\<close>

lemma store_write_shape:
  "abs_store b' = store_write bs (abs_store b) \<Longrightarrow> position b' = position b + length bs"
  by (simp add: abs_store_def store_write_def)

interpretation ba: byte_store ba_inv abs_store room little_endian
    "\<lambda>bs. ba_write (Bytes bs) (length bs)" "ba_read False" setPosition
proof
  fix s and bs :: "u8 list"
  assume s: "ba_inv s" "room s (length bs)"
  show "\<exists>s'. ba_write (Bytes bs) (length bs) s = (Inr (), s') \<and> ba_inv s' \<and>
      abs_store s' = store_write bs (abs_store s) \<and> little_endian s' = little_endian s \<and>
      (\<forall>k. room s (length bs + k) \<longrightarrow> room s' k)"
    using s(1)
  proof (cases rule: ba_write_cases [where bs = bs])
    case (error msg)
    with s show ?thesis by simp
  next
    case (ok b')
    then show ?thesis using store_write_shape [OF ok(3)] by (simp add: room_def add.assoc)
  qed
next
  fix s n
  assume s: "ba_inv s" "n \<le> length (fst (abs_store s)) - snd (abs_store s)"
  then have "n \<le> getReadSize s" by (simp add: abs_store_def length_contents getReadSize_def)
  from ba_read_ok [OF s(1) this]
  show "\<exists>s'. ba_read False n s = (Inr (take n (drop (snd (abs_store s)) (fst (abs_store s)))), s') \<and>
      ba_inv s' \<and> abs_store s' = (fst (abs_store s), snd (abs_store s) + n) \<and>
      little_endian s' = little_endian s"
    by (fastforce simp: abs_store_def contents_def)
next
  fix s p
  assume s: "ba_inv s" "p \<le> length (fst (abs_store s))"
  then have p: "p \<le> bsize s" "p \<le> capacity s" using ba_invD [OF s(1)]
    by (simp_all add: abs_store_def length_contents)
  then show "\<exists>s'. setPosition p s = (Inr (), s') \<and> ba_inv s' \<and> abs_store s' = (fst (abs_store s), p) \<and>
      little_endian s' = little_endian s"
    using s nodeAt_current_ok [of "s\<lparr> position := p \<rparr>"]
    by (simp add: setPosition_def Let_def ba_inv_def abs_store_def contents_def max_absorb1)
next
  fix s
  assume "ba_inv s"
  then show "snd (abs_store s) \<le> length (fst (abs_store s))"
    using ba_invD [of s] by (simp add: abs_store_def length_contents)
qed (simp add: room_def)

section \<open>Properties\<close>

definition demo_array :: byte_array where
  "demo_array = \<lparr> base_size = 2, position = 1, capacity = 2, bsize = 2, little_endian = False,
                  nodes = [[10, 20]], current = Some 0, fresh = \<lambda>_ _. 0 \<rparr>"

lemma demo_array_inv: "ba_inv demo_array"
  by (simp add: ba_inv_def demo_array_def SIZE_MAX_def)

lemma demo_array_room: "n \<le> 1000 \<Longrightarrow> room demo_array n"
  by (simp add: room_def demo_array_def SIZE_MAX_def)

text \<open>C16: \<open>write\<close> on the block chain implements the overwrite of the flat store: with
  room for the bytes it succeeds (the internal capacity error cannot happen), replaces exactly the
  bytes from the position on, moves the position past them, and keeps the invariant; without
  room it either still succeeds in that way or throws \<open>length_error\<close> leaving the array
  untouched.\<close>

theorem write_refines:
  assumes "ba_inv b"
  shows "(\<exists>b'. ba_write (Bytes bs) (length bs) b = (Inr (), b') \<and> ba_inv b' \<and>
            abs_store b' = store_write bs (abs_store b)) \<or>
         (\<not> room b (length bs) \<and> (\<exists>msg. ba_write (Bytes bs) (length bs) b = (Inl (Length_error msg), b)))"
  using assms by (cases rule: ba_write_cases [where bs = bs]) auto

theorem write_refines_witness:
  "(\<exists>b'. ba_write (Bytes [1, 2, 3]) (length [1, 2, 3 :: u8]) demo_array = (Inr (), b') \<and> ba_inv b' \<and>
      abs_store b' = store_write [1, 2, 3] (abs_store demo_array))"
  using write_refines [OF demo_array_inv, of "[1, 2, 3]"] demo_array_room [of "length [1, 2, 3 :: u8]"]
  by simp

text \<open>\<open>read\<close> and the positional \<open>read\<close> implement the reads of the flat store: they
  return the stored bytes and only \<open>read\<close> advances, exactly when enough bytes are readable, and
  throw \<open>out_of_range\<close> with the array untouched otherwise.\<close>

theorem read_refines:
  assumes "ba_inv b"
  shows "(case store_read n (abs_store b) of
            Some (bs, st) \<Rightarrow> (\<exists>b'. ba_read False n b = (Inr bs, b') \<and> ba_inv b' \<and> abs_store b' = st) \<and>
                             ba_read_at False n (position b) b = Inr bs
          | None \<Rightarrow> (let e = Out_of_range ''ByteArray does not contain enough readable bytes''
                     in ba_read False n b = (Inl e, b) \<and> ba_read_at False n (position b) b = Inl e))"
proof (cases "n \<le> getReadSize b")
  case True
  then have st: "store_read n (abs_store b) =
      Some (take n (drop (position b) (contents b)), (contents b, position b + n))"
    using assms by (simp add: store_read_def abs_store_def length_contents getReadSize_def)
  have "ba_read_at False n (position b) b = Inr (take n (drop (position b) (contents b)))"
    using ba_read_at_value [OF assms] True ba_invD(5) [OF assms] by (simp add: getReadSize_def)
  then show ?thesis unfolding st
    using ba_read_ok [OF assms True] by (fastforce simp: abs_store_def contents_def)
next
  case False
  then have "store_read n (abs_store b) = None"
    using assms by (simp add: store_read_def abs_store_def length_contents getReadSize_def)
  then show ?thesis using False
    by (auto simp: ba_read_short ba_read_at_def getReadSize_def Let_def)
qed

theorem read_refines_witness:
  "(\<exists>b'. ba_read False 1 demo_array = (Inr [20], b') \<and> ba_inv b' \<and> abs_store b' = ([10, 20], 2)) \<and>
   ba_read_at False 1 1 demo_array = Inr [20]"
  using read_refines [OF demo_array_inv, of 1]
  by (simp add: store_read_def abs_store_def contents_def demo_array_def numeral_2_eq_2)

lemma buffers_from_gather:
  assumes "pos + n \<le> length (concat (nodes b))" "0 < n"
  shows "\<exists>vs. buffers_from b pos n = (vs, 0) \<and>
     gather (nodes b) vs = take n (drop pos (concat (nodes b))) \<and> sum_list (map iov_len vs) = n"
proof -
  let ?ns = "nodes b"
  have "pos < length (concat ?ns)" using assms by linarith
  then obtain k off where k: "node_at 0 ?ns pos = (Some k, off)" "k < length ?ns"
    "off \<le> length (hd (drop k ?ns))" "length (concat (take k ?ns)) + off = pos"
    by (rule node_at_block)
  have len: "off + n \<le> length (concat (drop k ?ns))"
    by (rule drop_block_length [OF k(4) assms(1)])
  have l: "length (take k ?ns) = k" using k(2) by simp
  obtain vs where "buffers_loop k (drop k ?ns) off n = (vs, 0)"
    "gather ?ns vs = take n (drop off (concat (drop k ?ns)))" "sum_list (map iov_len vs) = n"
    using buffers_loop_gather [OF len, of "take k ?ns"] k(3) unfolding l append_take_drop_id by blast
  then show ?thesis using k(1) drop_block [OF k(4)] by (simp add: buffers_from_def nodeAt_def)
qed

lemma read_buffers_lemma:
  assumes "ba_inv b"
  shows "\<exists>vs. getReadBuffers buffers len b = (min (unat len) (getReadSize b), buffers @ vs) \<and>
     gather (nodes b) vs = take (unat len) (drop (position b) (contents b))"
proof (cases "min (unat len) (getReadSize b) = 0")
  case True
  then have "take (unat len) (drop (position b) (contents b)) = []"
    using assms by (auto simp: length_contents getReadSize_def min_def split: if_splits)
  then show ?thesis using True by (auto simp: getReadBuffers_def gather_def Let_def)
next
  case False
  let ?n = "min (unat len) (getReadSize b)"
  note i = ba_invD [OF assms]
  have le: "position b + ?n \<le> bsize b" using i by (simp add: getReadSize_def)
  then have "position b + ?n \<le> length (concat (nodes b))" using i by linarith
  from buffers_from_gather [OF this] False obtain vs where vs:
    "buffers_from b (position b) ?n = (vs, 0)"
    "gather (nodes b) vs = take ?n (drop (position b) (concat (nodes b)))" by blast
  have "take ?n (drop (position b) (concat (nodes b))) = take (unat len) (drop (position b) (contents b))"
    by (simp add: contents_def drop_take getReadSize_def min.commute)
  with vs False show ?thesis by (auto simp: getReadBuffers_def Let_def)
qed

text \<open>The scatter/gather view of the readable bytes is exact: \<open>getReadBuffers\<close> appends
  buffers that describe, in order, precisely the first \<open>min length readable\<close> readable bytes,
  and returns their number.\<close>

theorem read_buffers_exact:
  assumes "ba_inv b"
  shows "\<exists>vs. getReadBuffers buffers len b = (min (unat len) (getReadSize b), buffers @ vs) \<and>
     gather (nodes b) vs = take (unat len) (drop (position b) (contents b))"
  by (rule read_buffers_lemma [OF assms])

theorem read_buffers_exact_witness:
  "\<exists>vs. getReadBuffers [] 5 demo_array = (1, vs) \<and> gather [[10, 20]] vs = [20]"
  using read_buffers_exact [OF demo_array_inv, of "[]" 5]
  by (auto simp: demo_array_def getReadSize_def contents_def)

end
