(* ===== verification/Byte_Codec.thy ===== *)
theory Byte_Codec
  imports Byte_Array
begin

text \<open>
  The typed reads and writes of \<open>ByteArray\<close> (src/stream/bytearray.cc): fixed-width
  integers in either byte order, base-128 varints, zigzag integers, floats as bit patterns,
  length-prefixed strings, the printable views and the file transfer.  Strings are byte lists.
  The lemmas show each decoder to be the inverse of its encoder through the interface
  \<open>byte_store\<close>, and every operation to keep the invariant, also when it throws.
\<close>

section \<open>Fixed-width integers\<close>

definition fixed_shift :: "bool \<Rightarrow> nat \<Rightarrow> nat \<Rightarrow> nat" where
  "fixed_shift little n i = (if little then i * 8 else (n - 1 - i) * 8)"

definition fixed_bytes :: "bool \<Rightarrow> 'a::len word \<Rightarrow> u8 list" where
  "fixed_bytes little bits =
     (let n = LENGTH('a) div 8
      in map (\<lambda>i. ucast (drop_bit (fixed_shift little n i) bits)) [0..<n])"

definition fixed_value :: "bool \<Rightarrow> u8 list \<Rightarrow> 'a::len word" where
  "fixed_value little bytes =
     (let n = LENGTH('a) div 8
      in fold (\<lambda>i bits. bits OR push_bit (fixed_shift little n i) (ucast (bytes ! i))) [0..<n] 0)"

definition writeFixed :: "'a::len word \<Rightarrow> unit ba" where
  "writeFixed value b =
     (let bytes = fixed_bytes (little_endian b) value
      in ba_write (Bytes bytes) (length bytes) b)"

definition readFixed :: "('a::len word) ba" where
  "readFixed = bind_op (ba_read False (LENGTH('a) div 8))
     (\<lambda>bytes b. (Inr (fixed_value (little_endian b) bytes), b))"

definition writeFint8 :: "i8 \<Rightarrow> unit ba" where "writeFint8 value = writeFixed value"
definition writeFuint8 :: "u8 \<Rightarrow> unit ba" where "writeFuint8 value = writeFixed value"
definition writeFint16 :: "i16 \<Rightarrow> unit ba" where "writeFint16 value = writeFixed value"
definition writeFuint16 :: "u16 \<Rightarrow> unit ba" where "writeFuint16 value = writeFixed value"
definition writeFint32 :: "i32 \<Rightarrow> unit ba" where "writeFint32 value = writeFixed value"
definition writeFuint32 :: "u32 \<Rightarrow> unit ba" where "writeFuint32 value = writeFixed value"
definition writeFint64 :: "i64 \<Rightarrow> unit ba" where "writeFint64 value = writeFixed value"
definition writeFuint64 :: "u64 \<Rightarrow> unit ba" where "writeFuint64 value = writeFixed value"

definition readFint8 :: "i8 ba" where "readFint8 = readFixed"
definition readFuint8 :: "u8 ba" where "readFuint8 = readFixed"
definition readFint16 :: "i16 ba" where "readFint16 = readFixed"
definition readFuint16 :: "u16 ba" where "readFuint16 = readFixed"
definition readFint32 :: "i32 ba" where "readFint32 = readFixed"
definition readFuint32 :: "u32 ba" where "readFuint32 = readFixed"
definition readFint64 :: "i64 ba" where "readFint64 = readFixed"
definition readFuint64 :: "u64 ba" where "readFuint64 = readFixed"

section \<open>Varints\<close>

lemma shift_shrinks:
  "(0x80 :: 'a::len word) \<le> v \<Longrightarrow> 7 < LENGTH('a) \<Longrightarrow> unat (drop_bit 7 v) < unat v"
proof -
  assume v: "0x80 \<le> v" and l: "7 < LENGTH('a)"
  have "unat (0x80 :: 'a word) = 128"
  proof -
    have "(128::nat) < 2 ^ LENGTH('a)"
      using power_increasing [of 8 "LENGTH('a)" "2::nat"] l by simp
    then show ?thesis by (simp add: unsigned_numeral take_bit_nat_eq_self)
  qed
  then have "128 \<le> unat v" using v by (simp add: word_le_nat_alt)
  moreover have "unat (drop_bit 7 v) = unat v div 128"
  proof -
    have "unat (drop_bit 7 v) = drop_bit 7 (unat v)" by (rule unat_drop_bit_eq)
    also have "\<dots> = unat v div 2 ^ 7" by (rule drop_bit_eq_div)
    finally show ?thesis by simp
  qed
  ultimately show ?thesis by simp
qed

function varint32_bytes :: "u32 \<Rightarrow> u8 list" where
  "varint32_bytes value =
     (if value \<ge> 0x80
      then ucast ((value AND 0x7F) OR 0x80) # varint32_bytes (drop_bit 7 value)
      else [ucast value])"
  by auto
termination by (relation "measure unat") (simp_all add: shift_shrinks)

function varint64_bytes :: "u64 \<Rightarrow> u8 list" where
  "varint64_bytes value =
     (if value \<ge> 0x80
      then ucast ((value AND 0x7F) OR 0x80) # varint64_bytes (drop_bit 7 value)
      else [ucast value])"
  by auto
termination by (relation "measure unat") (simp_all add: shift_shrinks)

declare varint32_bytes.simps [simp del] varint64_bytes.simps [simp del]

definition writeUint32 :: "u32 \<Rightarrow> unit ba" where
  "writeUint32 value = (let bytes = varint32_bytes value in ba_write (Bytes bytes) (length bytes))"

definition writeUint64 :: "u64 \<Rightarrow> unit ba" where
  "writeUint64 value = (let bytes = varint64_bytes value in ba_write (Bytes bytes) (length bytes))"

definition writeInt32 :: "i32 \<Rightarrow> unit ba" where
  "writeInt32 value = writeUint32 (EncodeZigzag32 value)"

definition writeInt64 :: "i64 \<Rightarrow> unit ba" where
  "writeInt64 value = writeUint64 (EncodeZigzag64 value)"

function readUint32_loop :: "nat \<Rightarrow> u32 \<Rightarrow> u32 ba" where
  "readUint32_loop index result =
     (if index < 5
      then bind_op readFuint8 (\<lambda>byte.
        if index = 4 \<and> byte > 0x0F then throw (Out_of_range ''invalid uint32 varint'')
        else let result' = result OR push_bit (index * 7) (ucast (byte AND 0x7F))
             in if byte AND 0x80 = 0 then ret result' else readUint32_loop (Suc index) result')
      else throw (Out_of_range ''invalid uint32 varint''))"
  by auto
termination by (relation "measure (\<lambda>(index, _). 5 - index)") auto

function readUint64_loop :: "nat \<Rightarrow> u64 \<Rightarrow> u64 ba" where
  "readUint64_loop index result =
     (if index < 10
      then bind_op readFuint8 (\<lambda>byte.
        if index = 9 \<and> byte > 0x01 then throw (Out_of_range ''invalid uint64 varint'')
        else let result' = result OR push_bit (index * 7) (ucast (byte AND 0x7F))
             in if byte AND 0x80 = 0 then ret result' else readUint64_loop (Suc index) result')
      else throw (Out_of_range ''invalid uint64 varint''))"
  by auto
termination by (relation "measure (\<lambda>(index, _). 10 - index)") auto

declare readUint32_loop.simps [simp del] readUint64_loop.simps [simp del]

definition readUint32 :: "u32 ba" where
  "readUint32 = readUint32_loop 0 0"

definition readUint64 :: "u64 ba" where
  "readUint64 = readUint64_loop 0 0"

definition readInt32 :: "i32 ba" where
  "readInt32 = bind_op readUint32 (\<lambda>v. ret (DecodeZigzag32 v))"

definition readInt64 :: "i64 ba" where
  "readInt64 = bind_op readUint64 (\<lambda>v. ret (DecodeZigzag64 v))"

section \<open>Floats and strings\<close>

definition writeFloat :: "u32 \<Rightarrow> unit ba" where "writeFloat bits = writeFuint32 bits"
definition writeDouble :: "u64 \<Rightarrow> unit ba" where "writeDouble bits = writeFuint64 bits"
definition readFloat :: "u32 ba" where "readFloat = readFuint32"
definition readDouble :: "u64 ba" where "readDouble = readFuint64"

definition writeStringWithoutLength :: "u8 list \<Rightarrow> unit ba" where
  "writeStringWithoutLength value = ba_write (Bytes value) (length value)"

definition writeStringF16 :: "u8 list \<Rightarrow> unit ba" where
  "writeStringF16 value =
     (if length value > 2 ^ 16 - 1
      then throw (Length_error ''string is too long for a uint16 length'')
      else bind_op (writeFuint16 (word_of_nat (length value)))
             (\<lambda>_. ba_write (Bytes value) (length value)))"

definition writeStringF32 :: "u8 list \<Rightarrow> unit ba" where
  "writeStringF32 value =
     (if length value > 2 ^ 32 - 1
      then throw (Length_error ''string is too long for a uint32 length'')
      else bind_op (writeFuint32 (word_of_nat (length value)))
             (\<lambda>_. ba_write (Bytes value) (length value)))"

definition writeStringF64 :: "u8 list \<Rightarrow> unit ba" where
  "writeStringF64 value =
     bind_op (writeFuint64 (word_of_nat (length value)))
       (\<lambda>_. ba_write (Bytes value) (length value))"

definition writeStringVint :: "u8 list \<Rightarrow> unit ba" where
  "writeStringVint value =
     bind_op (writeUint64 (word_of_nat (length value)))
       (\<lambda>_. ba_write (Bytes value) (length value))"

text \<open>The common tail of the four string readers, after the length prefix.\<close>

definition read_checked :: "string \<Rightarrow> nat \<Rightarrow> u8 list ba" where
  "read_checked msg len =
     (\<lambda>b. if len > getReadSize b then (Inl (Out_of_range msg), b) else ba_read False len b)"

definition readStringF16 :: "u8 list ba" where
  "readStringF16 = bind_op readFuint16
     (\<lambda>n. read_checked ''not enough bytes for uint16 string'' (unat n))"

definition readStringF32 :: "u8 list ba" where
  "readStringF32 = bind_op readFuint32
     (\<lambda>n. read_checked ''not enough bytes for uint32 string'' (unat n))"

definition readStringF64 :: "u8 list ba" where
  "readStringF64 = bind_op readFuint64
     (\<lambda>n. case CheckedSize n of Inl e \<Rightarrow> throw e
          | Inr len \<Rightarrow> read_checked ''not enough bytes for uint64 string'' len)"

definition readStringVint :: "u8 list ba" where
  "readStringVint = bind_op readUint64
     (\<lambda>n. case CheckedSize n of Inl e \<Rightarrow> throw e
          | Inr len \<Rightarrow> read_checked ''not enough bytes for varint string'' len)"

section \<open>Printable views and files\<close>

definition toString :: "byte_array \<Rightarrow> std_exception + u8 list" where
  "toString b = (if getReadSize b = 0 then Inr [] else ba_read_at False (getReadSize b) (position b) b)"

fun hex_dump :: "nat \<Rightarrow> u8 list \<Rightarrow> string" where
  "hex_dump index [] = []"
| "hex_dump index (v # vs) =
     (if index \<noteq> 0 \<and> index mod 32 = 0 then [LF] else []) @
     [hex_char (unat v div 16), hex_char (unat v mod 16), SP] @ hex_dump (Suc index) vs"

definition toHexString :: "byte_array \<Rightarrow> std_exception + string" where
  "toHexString b = (case toString b of Inl e \<Rightarrow> Inl e | Inr bytes \<Rightarrow> Inr (hex_dump 0 bytes))"

text \<open>
  \<open>writeToFile\<close>: \<open>opened\<close> and \<open>wrote\<close> are what the stream reports for the open and
  for the \<open>k\<close>-th \<open>output.write\<close>; the result is the returned flag and the bytes the
  file received.  A single block never exceeds \<open>streamsize\<close>, so each buffer is one write.
\<close>

fun write_buffers :: "(nat \<Rightarrow> bool) \<Rightarrow> nat \<Rightarrow> u8 list list \<Rightarrow> bool \<times> u8 list" where
  "write_buffers wrote k [] = (True, [])"
| "write_buffers wrote k (bs # bss) =
     (if bs = [] then write_buffers wrote k bss
      else if \<not> wrote k then (False, [])
      else let (ok, out) = write_buffers wrote (Suc k) bss in (ok, bs @ out))"

definition writeToFile :: "bool \<Rightarrow> (nat \<Rightarrow> bool) \<Rightarrow> byte_array \<Rightarrow> bool \<times> u8 list" where
  "writeToFile opened wrote b =
     (if \<not> opened then (False, [])
      else let buffers = snd (getReadBuffers [] UINT64_MAX b)
           in write_buffers wrote 0 (map (\<lambda>v. gather (nodes b) [v]) buffers))"

text \<open>
  \<open>readFromFile\<close>: the file's bytes arrive in reads of 16 KiB, each appended at the
  position; \<open>bad\<close> is the stream's \<open>badbit\<close> after the last read.
\<close>

definition FILE_CHUNK :: nat where
  "FILE_CHUNK = 16 * 1024"

function file_chunks :: "u8 list \<Rightarrow> u8 list list" where
  "file_chunks bytes =
     (if bytes = [] then [] else take FILE_CHUNK bytes # file_chunks (drop FILE_CHUNK bytes))"
  by auto
termination by (relation "measure length") (auto simp: FILE_CHUNK_def)

declare file_chunks.simps [simp del]

fun write_chunks :: "u8 list list \<Rightarrow> unit ba" where
  "write_chunks [] = ret ()"
| "write_chunks (c # cs) = bind_op (ba_write (Bytes c) (length c)) (\<lambda>_. write_chunks cs)"

definition readFromFile :: "u8 list option \<Rightarrow> bool \<Rightarrow> bool ba" where
  "readFromFile file bad =
     (case file of None \<Rightarrow> ret False
      | Some bytes \<Rightarrow> bind_op (write_chunks (file_chunks bytes)) (\<lambda>_. ret (\<not> bad)))"

section \<open>Fixed-width round trips\<close>

lemma bit_fold_or:
  "bit (fold (\<lambda>i acc. acc OR f i) is a) m \<longleftrightarrow> bit (a :: 'a::len word) m \<or> (\<exists>i \<in> set is. bit (f i) m)"
  by (induction "is" arbitrary: a) (auto simp: bit_simps)

lemma fixed_shift_hits:
  "m < 8 * n \<Longrightarrow> \<exists>i < n. fixed_shift little n i \<le> m \<and> m - fixed_shift little n i < 8"
  by (cases little)
    (intro exI [of _ "m div 8"] exI [of _ "n - 1 - m div 8"], auto simp: fixed_shift_def)+

lemma fixed_roundtrip:
  fixes x :: "'a::len word"
  assumes n: "LENGTH('a) = 8 * n"
  shows "fixed_value little (fixed_bytes little x) = x"
proof (rule bit_word_eqI)
  fix m
  assume m: "m < LENGTH('a)"
  have n8: "LENGTH('a) div 8 = n" using n by simp
  let ?sh = "fixed_shift little n"
  have "bit (fixed_value little (fixed_bytes little x) :: 'a word) m \<longleftrightarrow>
      (\<exists>i < n. ?sh i \<le> m \<and> m - ?sh i < 8 \<and> bit x m)"
    using m by (auto simp: fixed_value_def fixed_bytes_def n8 Let_def bit_fold_or bit_simps)
  then show "bit (fixed_value little (fixed_bytes little x) :: 'a word) m = bit x m"
    using fixed_shift_hits [of m n little] m n by auto
qed

lemma length_fixed_bytes: "length (fixed_bytes little (x :: 'a::len word)) = LENGTH('a) div 8"
  by (simp add: fixed_bytes_def Let_def)

lemma encodes_fixed: "ba.encodes little (writeFixed x) (fixed_bytes little x)"
  using ba.encodes_put [of little "fixed_bytes little x"]
  unfolding ba.encodes_def writeFixed_def Let_def by simp

lemma decodes_fixed:
  fixes x :: "'a::len word"
  assumes "LENGTH('a) = 8 * n"
  shows "ba.decodes little readFixed (fixed_bytes little x) x"
proof -
  have "ba.decodes little (\<lambda>b. (Inr (fixed_value (little_endian b) (fixed_bytes little x)), b)) [] x"
    using fixed_roundtrip [OF assms] by (auto simp: ba.decodes_def)
  from ba.decodes_bind [where f = "\<lambda>bytes b. (Inr (fixed_value (little_endian b) bytes), b)",
      OF ba.decodes_get [of little "fixed_bytes little x"] this] show ?thesis
    by (simp add: readFixed_def length_fixed_bytes)
qed

section \<open>Zigzag\<close>

lemma sless_zero_bit: "(v :: 'a::len word) <s 0 \<longleftrightarrow> bit v (LENGTH('a) - 1)"
  by (simp add: word_sless_alt bit_last_iff)

lemma minus_low_bit: "0 - (v AND 1) = (if bit (v :: 'a::len word) 0 then - 1 else 0)"
  by (simp add: and_one_eq bit_0 odd_iff_mod_2_eq_one)

lemma zigzag32_roundtrip: "DecodeZigzag32 (EncodeZigzag32 v) = v"
proof (rule bit_word_eqI)
  fix m
  assume m: "m < LENGTH(32)"
  then show "bit (DecodeZigzag32 (EncodeZigzag32 v)) m = bit v m"
    unfolding DecodeZigzag32_def EncodeZigzag32_def minus_low_bit sless_zero_bit
    by (cases "m = 31") (auto simp: bit_simps simp del: push_bit_Suc drop_bit_Suc One_nat_def)
qed

lemma zigzag64_roundtrip: "DecodeZigzag64 (EncodeZigzag64 v) = v"
proof (rule bit_word_eqI)
  fix m
  assume m: "m < LENGTH(64)"
  then show "bit (DecodeZigzag64 (EncodeZigzag64 v)) m = bit v m"
    unfolding DecodeZigzag64_def EncodeZigzag64_def minus_low_bit sless_zero_bit
    by (cases "m = 63") (auto simp: bit_simps simp del: push_bit_Suc drop_bit_Suc One_nat_def)
qed

lemma zigzag_value:
  fixes v :: "'a::len word"
  assumes l: "1 < LENGTH('a)"
  shows "uint (push_bit 1 v XOR (if v <s 0 then - 1 else 0)) =
     (if 0 \<le> sint v then 2 * sint v else - 2 * sint v - 1)"
proof -
  let ?n = "LENGTH('a)"
  have s: "sint v < 2 ^ (?n - 1)" "- (2 ^ (?n - 1)) \<le> sint v"
    by (auto simp: sint_greater_eq sint_less)
  have p: "(2::int) ^ ?n = 2 * 2 ^ (?n - 1)" using l by (metis gr0I le_zero_eq less_imp_le_nat
      less_numeral_extra(1) not_less power_eq_if)
  have d: "uint (push_bit 1 v) = 2 * sint v mod 2 ^ ?n"
  proof -
    have "push_bit 1 v = word_of_int (2 * sint v)" by simp
    then show ?thesis by (simp only: uint_word_of_int)
  qed
  show ?thesis
  proof (cases "v <s 0")
    case False
    then have "0 \<le> sint v" by (simp add: word_sless_alt)
    then show ?thesis using d s p False by simp
  next
    case True
    then have n: "sint v < 0" by (simp add: word_sless_alt)
    have "push_bit 1 v XOR - 1 = NOT (push_bit 1 v)" by simp
    also have "\<dots> = word_of_int (- 2 * sint v - 1)"
      by (simp add: not_eq_complement)
    finally have "uint (push_bit 1 v XOR - 1) = (- 2 * sint v - 1) mod 2 ^ ?n"
      by (simp only: uint_word_of_int)
    also have "\<dots> = - 2 * sint v - 1" using s p n by (intro mod_pos_pos_trivial) auto
    finally show ?thesis using True n by simp
  qed
qed

section \<open>Varint round trips\<close>

lemma bit_low7: "bit (x AND 0x7F) m \<longleftrightarrow> bit (x :: 'a::len word) m \<and> m < 7"
proof -
  have e: "(0x7F :: 'a word) = mask 7" by (simp add: mask_eq_exp_minus_1)
  show ?thesis unfolding e bit_and_iff bit_mask_iff by (auto dest: bit_imp_le_length)
qed

lemma bit_high: "bit (0x80 :: 'a::len word) m \<longleftrightarrow> m = 7 \<and> 7 < LENGTH('a)"
proof -
  have e: "(0x80 :: 'a word) = 2 ^ 7" by simp
  show ?thesis by (subst e) (simp only: bit_exp_iff possible_bit_word, blast)
qed

lemmas varint_bits = bit_low7 bit_high bit_or_iff bit_unsigned_iff bit_drop_bit_eq bit_push_bit_iff

lemma ge_128_iff: "7 < LENGTH('a) \<Longrightarrow> (0x80 :: 'a::len word) \<le> v \<longleftrightarrow> 128 \<le> unat v"
proof -
  assume l: "7 < LENGTH('a)"
  have "(128::nat) < 2 ^ LENGTH('a)"
    using power_increasing [of 8 "LENGTH('a)" "2::nat"] l by simp
  then have "unat (0x80 :: 'a word) = 128" by (simp add: unsigned_numeral take_bit_nat_eq_self)
  then show ?thesis by (simp add: word_le_nat_alt)
qed

lemma small_bits: "unat (v :: 'a::len word) < 128 \<Longrightarrow> bit v m \<Longrightarrow> m < 7"
proof -
  assume v: "unat v < 128" and b: "bit v m"
  have "take_bit 7 (unat v) = unat v" using v by (intro take_bit_nat_eq_self) simp
  moreover have "bit (unat v) m" using b by (simp add: bit_unsigned_iff bit_imp_le_length)
  ultimately show "m < 7" by (metis bit_take_bit_iff)
qed

lemma more_byte:
  fixes v :: "'a::len word"
  assumes "7 < LENGTH('a)"
  defines "byte \<equiv> ucast ((v AND 0x7F) OR 0x80) :: u8"
  shows "byte AND 0x80 \<noteq> 0" and "ucast (byte AND 0x7F) = v AND 0x7F"
proof -
  have "bit (byte AND 0x80) 7"
    unfolding byte_def bit_and_iff using assms(1) by (simp add: varint_bits)
  then show "byte AND 0x80 \<noteq> 0" by auto
  show "ucast (byte AND 0x7F) = v AND 0x7F"
    by (rule bit_word_eqI) (simp only: byte_def varint_bits, auto)
qed

lemma last_byte:
  fixes v :: "'a::len word"
  assumes "unat v < 128"
  defines "byte \<equiv> ucast v :: u8"
  shows "byte AND 0x80 = 0" and "ucast (byte AND 0x7F) = v" and "unat byte = unat v"
proof -
  note small = small_bits [OF assms(1)]
  show "byte AND 0x80 = 0"
  proof (rule bit_word_eqI)
    fix m
    show "bit (byte AND 0x80) m = bit (0 :: u8) m"
      by (simp only: byte_def bit_and_iff varint_bits) (auto dest: small)
  qed
  show "ucast (byte AND 0x7F) = v"
    by (rule bit_word_eqI) (simp only: byte_def varint_bits, auto dest: small)
  show "unat byte = unat v"
    using assms(1) by (simp add: byte_def unsigned_ucast_eq take_bit_nat_eq_self)
qed

lemma varint_assemble:
  fixes v :: "'a::len word"
  shows "(r OR push_bit (i * 7) (v AND 0x7F)) OR push_bit (Suc i * 7) (drop_bit 7 v) = r OR push_bit (i * 7) v"
proof (rule bit_word_eqI)
  fix m
  assume m: "m < LENGTH('a)"
  show "bit ((r OR push_bit (i * 7) (v AND 0x7F)) OR push_bit (Suc i * 7) (drop_bit 7 v)) m =
        bit (r OR push_bit (i * 7) v) m"
  proof (cases "Suc i * 7 \<le> m")
    case True
    then have "7 + (m - Suc i * 7) = m - i * 7" by simp
    with True m show ?thesis unfolding varint_bits by auto
  next
    case False
    then have "i * 7 \<le> m \<Longrightarrow> m - i * 7 < 7" by simp
    with False m show ?thesis unfolding varint_bits by auto
  qed
qed

lemma fixed_bytes_u8: "fixed_bytes little (b :: u8) = [b]"
  by (simp add: fixed_bytes_def Let_def fixed_shift_def)

lemma decodes_u8: "ba.decodes little readFuint8 [b] b"
  using decodes_fixed [of 1 little b] by (simp add: readFuint8_def fixed_bytes_u8)

lemma varint32_more: "128 \<le> unat v \<Longrightarrow>
    varint32_bytes v = ucast ((v AND 0x7F) OR 0x80) # varint32_bytes (drop_bit 7 v)"
  by (subst varint32_bytes.simps) (simp add: ge_128_iff)

lemma varint32_last: "unat v < 128 \<Longrightarrow> varint32_bytes v = [ucast v]"
  by (subst varint32_bytes.simps) (simp add: ge_128_iff)

lemma decodes_varint32_loop:
  "i \<le> 4 \<Longrightarrow> unat v < 2 ^ (32 - i * 7) \<Longrightarrow>
   ba.decodes little (readUint32_loop i r) (varint32_bytes v) (r OR push_bit (i * 7) v)"
proof (induction v arbitrary: i r rule: varint32_bytes.induct)
  case (1 v)
  show ?case
  proof (cases "128 \<le> unat v")
    case True
    have i: "i < 4"
    proof (rule ccontr)
      assume "\<not> i < 4"
      with 1 have "i = 4" by simp
      with 1 True show False by simp
    qed
    define byte :: u8 where "byte = ucast ((v AND 0x7F) OR 0x80)"
    have byte: "byte AND 0x80 \<noteq> 0" "ucast (byte AND 0x7F) = v AND 0x7F"
      unfolding byte_def by (rule more_byte, simp)+
    have sh: "unat (drop_bit 7 v) = unat v div 128"
      using unat_drop_bit_eq [of 7 v] by (simp only: drop_bit_eq_div) simp
    have e: "32 - i * 7 = (32 - Suc i * 7) + 7" using i by simp
    have "(2::nat) ^ (32 - i * 7) = 2 ^ (32 - Suc i * 7) * 2 ^ 7"
      unfolding e by (rule power_add)
    with 1(3) have "unat v < 2 ^ (32 - Suc i * 7) * 128" by simp
    then have "unat (drop_bit 7 v) < 2 ^ (32 - Suc i * 7)"
      unfolding sh by (simp add: less_mult_imp_div_less)
    then have "ba.decodes little (readUint32_loop (Suc i) (r OR push_bit (i * 7) (v AND 0x7F)))
        (varint32_bytes (drop_bit 7 v)) (r OR push_bit (i * 7) v)"
      using 1(1) [of "Suc i" "r OR push_bit (i * 7) (v AND 0x7F)"] True i
      by (simp only: varint_assemble) (simp add: ge_128_iff)
    from ba.decodes_bind [where f = "\<lambda>byte. if i = 4 \<and> byte > 0x0F
          then throw (Out_of_range ''invalid uint32 varint'')
          else let r' = r OR push_bit (i * 7) (ucast (byte AND 0x7F))
               in if byte AND 0x80 = 0 then ret r' else readUint32_loop (Suc i) r'",
        OF decodes_u8 [of little byte]] this i byte
    show ?thesis
      by (subst readUint32_loop.simps) (simp add: varint32_more [OF True] Let_def flip: byte_def)
  next
    case False
    then have small: "unat v < 128" by simp
    define byte :: u8 where "byte = ucast v"
    have byte: "byte AND 0x80 = 0" "ucast (byte AND 0x7F) = v" "unat byte = unat v"
      unfolding byte_def by (rule last_byte [OF small])+
    have top: "\<not> (i = 4 \<and> byte > 0x0F)"
      using 1(3) byte(3) by (auto simp: word_less_nat_alt)
    have "ba.decodes little (ret (r OR push_bit (i * 7) v)) [] (r OR push_bit (i * 7) v)"
      by (rule ba.decodes_ret)
    with ba.decodes_bind [where f = "\<lambda>byte. if i = 4 \<and> byte > 0x0F
          then throw (Out_of_range ''invalid uint32 varint'')
          else let r' = r OR push_bit (i * 7) (ucast (byte AND 0x7F))
               in if byte AND 0x80 = 0 then ret r' else readUint32_loop (Suc i) r'",
        OF decodes_u8 [of little byte], of "[]"] top byte 1(2)
    show ?thesis
      by (subst readUint32_loop.simps) (simp add: varint32_last [OF small] Let_def flip: byte_def)
  qed
qed

lemma decodes_varint32: "ba.decodes little readUint32 (varint32_bytes v) v"
proof -
  have "unat v < 2 ^ (32 - 0 * 7)" by (rule less_le_trans [OF unsigned_less]) simp
  with decodes_varint32_loop [of 0 v little 0] show ?thesis by (simp add: readUint32_def)
qed

lemma encodes_varint32: "ba.encodes little (writeUint32 v) (varint32_bytes v)"
  using ba.encodes_put by (simp add: writeUint32_def Let_def)

lemma varint32_length_bound:
  "unat v < 2 ^ (7 * Suc k) \<Longrightarrow> length (varint32_bytes v) \<le> Suc k"
proof (induction v arbitrary: k rule: varint32_bytes.induct)
  case (1 v)
  show ?case
  proof (cases "128 \<le> unat v")
    case True
    then obtain j where k: "k = Suc j" using 1(2) by (cases k) auto
    have sh: "unat (drop_bit 7 v) = unat v div 128"
      using unat_drop_bit_eq [of 7 v] by (simp only: drop_bit_eq_div) simp
    have "unat v < 2 ^ (7 * Suc j) * 128" using 1(2) unfolding k by (simp add: power_add)
    then have "unat (drop_bit 7 v) < 2 ^ (7 * Suc j)"
      unfolding sh by (simp add: less_mult_imp_div_less)
    with 1(1) True show ?thesis by (simp add: varint32_more ge_128_iff k)
  next
    case False
    then show ?thesis by (simp add: varint32_last)
  qed
qed

lemma varint32_fits_array: "length (varint32_bytes v) \<le> 5"
proof -
  have "unat v < 2 ^ (7 * Suc 4)" by (rule less_le_trans [OF unsigned_less]) simp
  from varint32_length_bound [OF this] show ?thesis by simp
qed

lemma varint64_more: "128 \<le> unat v \<Longrightarrow>
    varint64_bytes v = ucast ((v AND 0x7F) OR 0x80) # varint64_bytes (drop_bit 7 v)"
  by (subst varint64_bytes.simps) (simp add: ge_128_iff)

lemma varint64_last: "unat v < 128 \<Longrightarrow> varint64_bytes v = [ucast v]"
  by (subst varint64_bytes.simps) (simp add: ge_128_iff)

lemma decodes_varint64_loop:
  "i \<le> 9 \<Longrightarrow> unat v < 2 ^ (64 - i * 7) \<Longrightarrow>
   ba.decodes little (readUint64_loop i r) (varint64_bytes v) (r OR push_bit (i * 7) v)"
proof (induction v arbitrary: i r rule: varint64_bytes.induct)
  case (1 v)
  show ?case
  proof (cases "128 \<le> unat v")
    case True
    have i: "i < 9"
    proof (rule ccontr)
      assume "\<not> i < 9"
      with 1 have "i = 9" by simp
      with 1 True show False by simp
    qed
    define byte :: u8 where "byte = ucast ((v AND 0x7F) OR 0x80)"
    have byte: "byte AND 0x80 \<noteq> 0" "ucast (byte AND 0x7F) = v AND 0x7F"
      unfolding byte_def by (rule more_byte, simp)+
    have sh: "unat (drop_bit 7 v) = unat v div 128"
      using unat_drop_bit_eq [of 7 v] by (simp only: drop_bit_eq_div) simp
    have e: "64 - i * 7 = (64 - Suc i * 7) + 7" using i by simp
    have "(2::nat) ^ (64 - i * 7) = 2 ^ (64 - Suc i * 7) * 2 ^ 7"
      unfolding e by (rule power_add)
    with 1(3) have "unat v < 2 ^ (64 - Suc i * 7) * 128" by simp
    then have "unat (drop_bit 7 v) < 2 ^ (64 - Suc i * 7)"
      unfolding sh by (simp add: less_mult_imp_div_less)
    then have "ba.decodes little (readUint64_loop (Suc i) (r OR push_bit (i * 7) (v AND 0x7F)))
        (varint64_bytes (drop_bit 7 v)) (r OR push_bit (i * 7) v)"
      using 1(1) [of "Suc i" "r OR push_bit (i * 7) (v AND 0x7F)"] True i
      by (simp only: varint_assemble) (simp add: ge_128_iff)
    from ba.decodes_bind [where f = "\<lambda>byte. if i = 9 \<and> byte > 0x01
          then throw (Out_of_range ''invalid uint64 varint'')
          else let r' = r OR push_bit (i * 7) (ucast (byte AND 0x7F))
               in if byte AND 0x80 = 0 then ret r' else readUint64_loop (Suc i) r'",
        OF decodes_u8 [of little byte]] this i byte
    show ?thesis
      by (subst readUint64_loop.simps) (simp add: varint64_more [OF True] Let_def flip: byte_def)
  next
    case False
    then have small: "unat v < 128" by simp
    define byte :: u8 where "byte = ucast v"
    have byte: "byte AND 0x80 = 0" "ucast (byte AND 0x7F) = v" "unat byte = unat v"
      unfolding byte_def by (rule last_byte [OF small])+
    have top: "\<not> (i = 9 \<and> byte > 0x01)"
      using 1(3) byte(3) by (auto simp: word_less_nat_alt)
    have "ba.decodes little (ret (r OR push_bit (i * 7) v)) [] (r OR push_bit (i * 7) v)"
      by (rule ba.decodes_ret)
    with ba.decodes_bind [where f = "\<lambda>byte. if i = 9 \<and> byte > 0x01
          then throw (Out_of_range ''invalid uint64 varint'')
          else let r' = r OR push_bit (i * 7) (ucast (byte AND 0x7F))
               in if byte AND 0x80 = 0 then ret r' else readUint64_loop (Suc i) r'",
        OF decodes_u8 [of little byte], of "[]"] top byte 1(2)
    show ?thesis
      by (subst readUint64_loop.simps) (simp add: varint64_last [OF small] Let_def flip: byte_def)
  qed
qed

lemma decodes_varint64: "ba.decodes little readUint64 (varint64_bytes v) v"
proof -
  have "unat v < 2 ^ (64 - 0 * 7)" by (rule less_le_trans [OF unsigned_less]) simp
  with decodes_varint64_loop [of 0 v little 0] show ?thesis by (simp add: readUint64_def)
qed

lemma encodes_varint64: "ba.encodes little (writeUint64 v) (varint64_bytes v)"
  using ba.encodes_put by (simp add: writeUint64_def Let_def)

lemma varint64_length_bound:
  "unat v < 2 ^ (7 * Suc k) \<Longrightarrow> length (varint64_bytes v) \<le> Suc k"
proof (induction v arbitrary: k rule: varint64_bytes.induct)
  case (1 v)
  show ?case
  proof (cases "128 \<le> unat v")
    case True
    then obtain j where k: "k = Suc j" using 1(2) by (cases k) auto
    have sh: "unat (drop_bit 7 v) = unat v div 128"
      using unat_drop_bit_eq [of 7 v] by (simp only: drop_bit_eq_div) simp
    have "unat v < 2 ^ (7 * Suc j) * 128" using 1(2) unfolding k by (simp add: power_add)
    then have "unat (drop_bit 7 v) < 2 ^ (7 * Suc j)"
      unfolding sh by (simp add: less_mult_imp_div_less)
    with 1(1) True show ?thesis by (simp add: varint64_more ge_128_iff k)
  next
    case False
    then show ?thesis by (simp add: varint64_last)
  qed
qed

lemma varint64_fits_array: "length (varint64_bytes v) \<le> 10"
proof -
  have "unat v < 2 ^ (7 * Suc 9)" by (rule less_le_trans [OF unsigned_less]) simp
  from varint64_length_bound [OF this] show ?thesis by simp
qed

section \<open>Strings\<close>

lemma getReadSize_view: "ba_inv b \<Longrightarrow> getReadSize b = length (fst (abs_store b)) - snd (abs_store b)"
  by (simp add: abs_store_def length_contents getReadSize_def)

lemma decodes_checked_read: "ba.decodes little (read_checked msg (length bs)) bs bs"
  unfolding read_checked_def by (rule ba.decodes_checked) (rule getReadSize_view)

lemma CheckedSize_ok: "CheckedSize n = Inr (unat n)"
proof -
  have "unat n < 2 ^ 64" by (rule less_le_trans [OF unsigned_less]) simp
  then show ?thesis by (simp add: CheckedSize_def SIZE_MAX_def)
qed

lemma unat_word_of_length:
  "n < 2 ^ LENGTH('a) \<Longrightarrow> unat (word_of_nat n :: 'a::len word) = n"
  by (simp add: unsigned_of_nat take_bit_nat_eq_self)

lemma encodes_bytes: "ba.encodes little (ba_write (Bytes bs) (length bs)) bs"
  by (rule ba.encodes_put)

lemma encodes_StringF16:
  "length value \<le> 65535 \<Longrightarrow>
   ba.encodes little (writeStringF16 value)
     (fixed_bytes little (word_of_nat (length value) :: u16) @ value)"
  using ba.encodes_bind [where f = "\<lambda>_. ba_write (Bytes value) (length value)",
      OF encodes_fixed [of little "word_of_nat (length value) :: u16"] encodes_bytes]
  by (simp add: writeStringF16_def writeFuint16_def)

lemma encodes_StringF32:
  "length value \<le> 4294967295 \<Longrightarrow>
   ba.encodes little (writeStringF32 value)
     (fixed_bytes little (word_of_nat (length value) :: u32) @ value)"
  using ba.encodes_bind [where f = "\<lambda>_. ba_write (Bytes value) (length value)",
      OF encodes_fixed [of little "word_of_nat (length value) :: u32"] encodes_bytes]
  by (simp add: writeStringF32_def writeFuint32_def)

lemma encodes_StringF64:
  "ba.encodes little (writeStringF64 value)
     (fixed_bytes little (word_of_nat (length value) :: u64) @ value)"
  using ba.encodes_bind [where f = "\<lambda>_. ba_write (Bytes value) (length value)",
      OF encodes_fixed [of little "word_of_nat (length value) :: u64"] encodes_bytes]
  by (simp add: writeStringF64_def writeFuint64_def)

lemma encodes_StringVint:
  "ba.encodes little (writeStringVint value) (varint64_bytes (word_of_nat (length value)) @ value)"
  using ba.encodes_bind [where f = "\<lambda>_. ba_write (Bytes value) (length value)",
      OF encodes_varint64 [of little "word_of_nat (length value)"] encodes_bytes]
  by (simp add: writeStringVint_def)

lemma decodes_StringF16:
  assumes "length value \<le> 65535"
  shows "ba.decodes little readStringF16 (fixed_bytes little (word_of_nat (length value) :: u16) @ value) value"
  unfolding readStringF16_def readFuint16_def
  by (rule ba.decodes_bind [OF decodes_fixed [where n = 2]])
    (use assms decodes_checked_read in \<open>simp_all add: unat_word_of_length\<close>)

lemma decodes_StringF32:
  assumes "length value \<le> 4294967295"
  shows "ba.decodes little readStringF32 (fixed_bytes little (word_of_nat (length value) :: u32) @ value) value"
  unfolding readStringF32_def readFuint32_def
  by (rule ba.decodes_bind [OF decodes_fixed [where n = 4]])
    (use assms decodes_checked_read in \<open>simp_all add: unat_word_of_length\<close>)

lemma decodes_StringF64:
  assumes "length value \<le> SIZE_MAX"
  shows "ba.decodes little readStringF64 (fixed_bytes little (word_of_nat (length value) :: u64) @ value) value"
  unfolding readStringF64_def readFuint64_def
  by (rule ba.decodes_bind [OF decodes_fixed [where n = 8]])
    (use assms decodes_checked_read in \<open>simp_all add: unat_word_of_length CheckedSize_ok SIZE_MAX_def\<close>)

lemma decodes_StringVint:
  assumes "length value \<le> SIZE_MAX"
  shows "ba.decodes little readStringVint (varint64_bytes (word_of_nat (length value)) @ value) value"
  unfolding readStringVint_def
  by (rule ba.decodes_bind [OF decodes_varint64])
    (use assms decodes_checked_read in \<open>simp_all add: unat_word_of_length CheckedSize_ok SIZE_MAX_def\<close>)

section \<open>Every operation keeps the invariant\<close>

named_theorems ba_keeps \<open>operations that keep the invariant of the byte array\<close>

lemma keeps_addCapacity [ba_keeps]: "keeps ba_inv (addCapacity n)"
  unfolding keeps_def
proof (intro allI impI)
  fix b assume b: "ba_inv b"
  then show "ba_inv (snd (addCapacity n b))"
    by (cases rule: addCapacity_cases [where sz = n]) (use b extend_inv in auto)
qed

lemma keeps_write [ba_keeps]: "keeps ba_inv (ba_write (Bytes bs) (length bs))"
  unfolding keeps_def
proof (intro allI impI)
  fix b assume b: "ba_inv b"
  then show "ba_inv (snd (ba_write (Bytes bs) (length bs) b))"
    by (cases rule: ba_write_cases [where bs = bs]) (use b in auto)
qed

lemma keeps_write_null [ba_keeps]: "keeps ba_inv (ba_write Null n)"
  by (simp add: keeps_def ba_write_def)

lemma keeps_read [ba_keeps]: "keeps ba_inv (ba_read null n)"
  unfolding keeps_def
proof (intro allI impI)
  fix b assume b: "ba_inv b"
  show "ba_inv (snd (ba_read null n b))"
  proof (cases "n = 0 \<or> null \<or> n > getReadSize b")
    case True
    then show ?thesis using b by (auto simp: ba_read_def)
  next
    case False
    then have "n \<le> getReadSize b" by simp
    from ba_read_ok [OF b this] False show ?thesis by (metis snd_conv)
  qed
qed

lemma keeps_setPosition [ba_keeps]: "keeps ba_inv (setPosition p)"
  unfolding keeps_def
proof (intro allI impI)
  fix b assume b: "ba_inv b"
  let ?b1 = "b\<lparr> position := p, bsize := max (bsize b) p \<rparr>"
  show "ba_inv (snd (setPosition p b))"
    using ba_invD [OF b] b nodeAt_current_ok [of ?b1 p]
    by (auto simp: setPosition_def Let_def ba_inv_def)
qed

lemma keeps_clear [ba_keeps]: "keeps ba_inv clear"
  unfolding keeps_def
proof (intro allI impI)
  fix b assume b: "ba_inv b"
  then obtain n ns where n: "nodes b = n # ns" by (cases "nodes b") (auto simp: ba_inv_def)
  with b show "ba_inv (snd (clear b))" by (auto simp: clear_def ba_inv_def)
qed

lemma keeps_getWriteBuffers [ba_keeps]: "keeps ba_inv (getWriteBuffers buffers len)"
  unfolding keeps_def
proof (intro allI impI)
  fix b assume b: "ba_inv b"
  show "ba_inv (snd (getWriteBuffers buffers len b))"
    using keeps_run [OF keeps_addCapacity b, of "unat len"] b
    by (cases "addCapacity (unat len) b")
      (auto simp: getWriteBuffers_def CheckedSize_ok split: sum.splits prod.splits)
qed

lemma keeps_writeFixed [ba_keeps]: "keeps ba_inv (writeFixed x)"
  using keeps_write by (simp add: keeps_def writeFixed_def Let_def)

lemma keeps_readFixed [ba_keeps]: "keeps ba_inv readFixed"
  unfolding readFixed_def by (rule keeps_bind [OF keeps_read]) (simp add: keeps_def)

lemma keeps_varint_writes [ba_keeps]: "keeps ba_inv (writeUint32 x)" "keeps ba_inv (writeUint64 y)"
  unfolding writeUint32_def writeUint64_def Let_def by (rule keeps_write)+

lemma keeps_readUint32_loop: "keeps ba_inv (readUint32_loop i r)"
proof (induction i r rule: readUint32_loop.induct)
  case (1 i r)
  then show ?case
    by (subst readUint32_loop.simps)
      (auto simp: Let_def readFuint8_def intro!: keeps_bind keeps_readFixed)
qed

lemma keeps_readUint64_loop: "keeps ba_inv (readUint64_loop i r)"
proof (induction i r rule: readUint64_loop.induct)
  case (1 i r)
  then show ?case
    by (subst readUint64_loop.simps)
      (auto simp: Let_def readFuint8_def intro!: keeps_bind keeps_readFixed)
qed

lemma keeps_varint_reads [ba_keeps]: "keeps ba_inv readUint32" "keeps ba_inv readUint64"
  unfolding readUint32_def readUint64_def by (rule keeps_readUint32_loop keeps_readUint64_loop)+

lemma keeps_read_checked [ba_keeps]: "keeps ba_inv (read_checked msg n)"
  using keeps_read by (simp add: keeps_def read_checked_def)

lemma keeps_string_writes [ba_keeps]:
  "keeps ba_inv (writeStringF16 v)" "keeps ba_inv (writeStringF32 v)"
  "keeps ba_inv (writeStringF64 v)" "keeps ba_inv (writeStringVint v)"
  unfolding writeStringF16_def writeStringF32_def writeStringF64_def writeStringVint_def
    writeFuint16_def writeFuint32_def writeFuint64_def
  by (auto intro!: keeps_bind ba_keeps)

lemma keeps_string_reads [ba_keeps]:
  "keeps ba_inv readStringF16" "keeps ba_inv readStringF32"
  "keeps ba_inv readStringF64" "keeps ba_inv readStringVint"
  unfolding readStringF16_def readStringF32_def readStringF64_def readStringVint_def
    readFuint16_def readFuint32_def readFuint64_def
  by (auto intro!: keeps_bind ba_keeps split: sum.splits simp: CheckedSize_ok)

lemma keeps_write_chunks: "keeps ba_inv (write_chunks cs)"
proof (induction cs)
  case Nil
  show ?case by (simp add: keeps_def)
next
  case (Cons c cs)
  then show ?case by (auto intro: keeps_bind keeps_write)
qed

lemma keeps_readFromFile [ba_keeps]: "keeps ba_inv (readFromFile file bad)"
  unfolding readFromFile_def by (auto intro!: keeps_bind keeps_write_chunks split: option.splits)

section \<open>Properties\<close>

text \<open>Reading back: with \<open>n\<close> bytes of room, \<open>e\<close> succeeds, and going back to where it started,
  \<open>d\<close> returns \<open>v\<close> and stops where \<open>e\<close> stopped.\<close>

definition reads_back :: "unit ba \<Rightarrow> 'v ba \<Rightarrow> nat \<Rightarrow> 'v \<Rightarrow> bool" where
  "reads_back e d n v \<longleftrightarrow> (\<forall>b. ba_inv b \<and> room b n \<longrightarrow>
     (\<exists>b1 b2 b3. e b = (Inr (), b1) \<and> setPosition (position b) b1 = (Inr (), b2) \<and>
                 d b2 = (Inr v, b3) \<and> abs_store b3 = abs_store b1 \<and> ba_inv b3))"

lemma reads_backI:
  assumes "\<And>m. ba.encodes m e (f m)" "\<And>m. ba.decodes m d (f m) v" "\<And>m. length (f m) \<le> n"
  shows "reads_back e d n v"
  unfolding reads_back_def
proof (intro allI impI, elim conjE)
  fix b
  assume b: "ba_inv b" "room b n"
  let ?m = "little_endian b"
  have "room b (length (f ?m))" using b(2) assms(3) [of ?m] by (simp add: room_def)
  from ba.round_trip [OF assms(1) [of ?m] assms(2) b(1) refl this]
  show "\<exists>b1 b2 b3. e b = (Inr (), b1) \<and> setPosition (position b) b1 = (Inr (), b2) \<and>
                   d b2 = (Inr v, b3) \<and> abs_store b3 = abs_store b1 \<and> ba_inv b3"
    by (auto simp: abs_store_def)
qed

lemma reads_back_fixed:
  "LENGTH('a::len) = 8 * n \<Longrightarrow> reads_back (writeFixed (x :: 'a word)) readFixed n x"
  by (rule reads_backI [where f = "\<lambda>m. fixed_bytes m x"])
    (simp_all add: encodes_fixed decodes_fixed length_fixed_bytes)

text \<open>C20: Every fixed-width integer and every float or double bit pattern is read back as it
  was written, in either byte order, from any position of any well-formed array.\<close>

theorem fixed_reads_back:
  "reads_back (writeFint8 a) readFint8 1 a \<and> reads_back (writeFuint8 a') readFuint8 1 a' \<and>
   reads_back (writeFint16 c) readFint16 2 c \<and> reads_back (writeFuint16 c') readFuint16 2 c' \<and>
   reads_back (writeFint32 e) readFint32 4 e \<and> reads_back (writeFuint32 e') readFuint32 4 e' \<and>
   reads_back (writeFint64 g) readFint64 8 g \<and> reads_back (writeFuint64 g') readFuint64 8 g' \<and>
   reads_back (writeFloat h) readFloat 4 h \<and> reads_back (writeDouble k) readDouble 8 k"
  unfolding writeFint8_def readFint8_def writeFuint8_def readFuint8_def writeFint16_def
    readFint16_def writeFuint16_def readFuint16_def writeFint32_def readFint32_def writeFuint32_def
    readFuint32_def writeFint64_def readFint64_def writeFuint64_def readFuint64_def writeFloat_def
    readFloat_def writeDouble_def readDouble_def
  by (intro conjI reads_back_fixed) simp_all

lemma zigzag_reads_back32: "reads_back (writeInt32 x) readInt32 5 x"
proof (rule reads_backI)
  fix m
  show "ba.encodes m (writeInt32 x) (varint32_bytes (EncodeZigzag32 x))"
    unfolding writeInt32_def by (rule encodes_varint32)
  show "ba.decodes m readInt32 (varint32_bytes (EncodeZigzag32 x)) x"
    unfolding readInt32_def
    using ba.decodes_bind [where f = "\<lambda>v. ret (DecodeZigzag32 v)", OF decodes_varint32,
        of m "EncodeZigzag32 x" "[]" x] ba.decodes_ret [of m x]
    by (simp add: zigzag32_roundtrip)
  show "length (varint32_bytes (EncodeZigzag32 x)) \<le> 5" by (rule varint32_fits_array)
qed

lemma zigzag_reads_back64: "reads_back (writeInt64 x) readInt64 10 x"
proof (rule reads_backI)
  fix m
  show "ba.encodes m (writeInt64 x) (varint64_bytes (EncodeZigzag64 x))"
    unfolding writeInt64_def by (rule encodes_varint64)
  show "ba.decodes m readInt64 (varint64_bytes (EncodeZigzag64 x)) x"
    unfolding readInt64_def
    using ba.decodes_bind [where f = "\<lambda>v. ret (DecodeZigzag64 v)", OF decodes_varint64,
        of m "EncodeZigzag64 x" "[]" x] ba.decodes_ret [of m x]
    by (simp add: zigzag64_roundtrip)
  show "length (varint64_bytes (EncodeZigzag64 x)) \<le> 10" by (rule varint64_fits_array)
qed

text \<open>Every varint, plain or zigzag, is read back as it was written, and its encoding never
  exceeds the 5 or 10 bytes of the array the encoder fills.\<close>

theorem varint_reads_back:
  "reads_back (writeUint32 a) readUint32 5 a \<and> reads_back (writeUint64 b) readUint64 10 b \<and>
   reads_back (writeInt32 c) readInt32 5 c \<and> reads_back (writeInt64 d) readInt64 10 d \<and>
   length (varint32_bytes a) \<le> 5 \<and> length (varint64_bytes b) \<le> 10"
  using reads_backI [OF encodes_varint32 decodes_varint32 varint32_fits_array]
    reads_backI [OF encodes_varint64 decodes_varint64 varint64_fits_array]
    zigzag_reads_back32 zigzag_reads_back64 varint32_fits_array varint64_fits_array
  by blast

text \<open>The zigzag code of a signed integer is its magnitude doubled, less one for a negative
  value, so small magnitudes of either sign get small codes; it is exact for every value.\<close>

theorem zigzag_meaning:
  "uint (EncodeZigzag32 v) = (if 0 \<le> sint v then 2 * sint v else - 2 * sint v - 1) \<and>
   uint (EncodeZigzag64 w) = (if 0 \<le> sint w then 2 * sint w else - 2 * sint w - 1) \<and>
   DecodeZigzag32 (EncodeZigzag32 v) = v \<and> DecodeZigzag64 (EncodeZigzag64 w) = w"
  using zigzag_value [of v] zigzag_value [of w] zigzag32_roundtrip zigzag64_roundtrip
  by (simp add: EncodeZigzag32_def EncodeZigzag64_def)

text \<open>A string within its prefix's range is read back by the reader of the same prefix; a
  longer one is refused with \<open>length_error\<close> before anything is written.\<close>

theorem strings_read_back:
  assumes "length value \<le> SIZE_MAX"
  shows "(if length value \<le> 65535 then reads_back (writeStringF16 value) readStringF16 (2 + length value) value
          else writeStringF16 value = throw (Length_error ''string is too long for a uint16 length'')) \<and>
         (if length value \<le> 4294967295 then reads_back (writeStringF32 value) readStringF32 (4 + length value) value
          else writeStringF32 value = throw (Length_error ''string is too long for a uint32 length'')) \<and>
         reads_back (writeStringF64 value) readStringF64 (8 + length value) value \<and>
         reads_back (writeStringVint value) readStringVint (10 + length value) value"
proof (intro conjI)
  show "if length value \<le> 65535 then reads_back (writeStringF16 value) readStringF16 (2 + length value) value
      else writeStringF16 value = throw (Length_error ''string is too long for a uint16 length'')"
    using reads_backI [OF encodes_StringF16 decodes_StringF16, of "value" "2 + length value"]
    by (simp add: writeStringF16_def length_fixed_bytes)
  show "if length value \<le> 4294967295 then reads_back (writeStringF32 value) readStringF32 (4 + length value) value
      else writeStringF32 value = throw (Length_error ''string is too long for a uint32 length'')"
    using reads_backI [OF encodes_StringF32 decodes_StringF32, of "value" "4 + length value"]
    by (simp add: writeStringF32_def length_fixed_bytes)
  show "reads_back (writeStringF64 value) readStringF64 (8 + length value) value"
    by (rule reads_backI [OF encodes_StringF64 decodes_StringF64 [OF assms]])
      (simp add: length_fixed_bytes)
  show "reads_back (writeStringVint value) readStringVint (10 + length value) value"
    by (rule reads_backI [OF encodes_StringVint decodes_StringVint [OF assms]])
      (simp add: varint64_fits_array)
qed

theorem strings_read_back_witness:
  "reads_back (writeStringF16 [104, 105]) readStringF16 4 [104, 105]"
  using strings_read_back [of "[104, 105]"] by (simp add: SIZE_MAX_def)

text \<open>The arrays a program can reach: a construction and any sequence of calls, thrown
  exceptions caught or not.\<close>

inductive ba_reach :: "byte_array \<Rightarrow> bool" where
  construct: "ByteArray junk base = Inr b \<Longrightarrow> base \<le> SIZE_MAX \<Longrightarrow> ba_reach b"
| write_call: "ba_reach b \<Longrightarrow> ba_reach (snd (ba_write (Bytes bs) (length bs) b))"
| read_call: "ba_reach b \<Longrightarrow> ba_reach (snd (ba_read null n b))"
| seek_call: "ba_reach b \<Longrightarrow> ba_reach (snd (setPosition p b))"
| clear_call: "ba_reach b \<Longrightarrow> ba_reach (snd (clear b))"
| endian_call: "ba_reach b \<Longrightarrow> ba_reach (b\<lparr> little_endian := flag \<rparr>)"
| buffers_call: "ba_reach b \<Longrightarrow> ba_reach (snd (getWriteBuffers buffers len b))"
| varint_call: "ba_reach b \<Longrightarrow> ba_reach (snd (readUint64 b))"
| string_write_call: "ba_reach b \<Longrightarrow> ba_reach (snd (writeStringVint v b))"
| string_read_call: "ba_reach b \<Longrightarrow> ba_reach (snd (readStringVint b))"
| file_call: "ba_reach b \<Longrightarrow> ba_reach (snd (readFromFile file bad b))"

text \<open>Whatever calls are made and whichever of them throw, the chain stays well formed: equal
  blocks that add up to the capacity, and \<open>position \<le> size \<le> capacity \<le> SIZE_MAX\<close>.\<close>

theorem reachable_inv:
  assumes "ba_reach b"
  shows "ba_inv b"
  using assms
proof (induction rule: ba_reach.induct)
  case (construct junk base b)
  then show ?case by (rule ByteArray_inv)
next
  case (endian_call b flag)
  then show ?case by (simp add: ba_inv_def)
qed (use ba_keeps in \<open>auto simp: keeps_def\<close>)

theorem reachable_inv_witness:
  "ba_inv (snd (setPosition 3 (\<lparr> base_size = 4, position = 0, capacity = 4, bsize = 0,
     little_endian = False, nodes = [[7, 7, 7, 7]], current = Some 0, fresh = \<lambda>_ _. 7 \<rparr>)))"
proof (rule reachable_inv, rule ba_reach.seek_call, rule ba_reach.construct)
  show "ByteArray (\<lambda>_ _. 7) 4 = Inr \<lparr> base_size = 4, position = 0, capacity = 4, bsize = 0,
     little_endian = False, nodes = [[7, 7, 7, 7]], current = Some 0, fresh = \<lambda>_ _. 7 \<rparr>"
    by (simp add: ByteArray_def new_node_def upt_rec)
qed (simp add: SIZE_MAX_def)

section \<open>Files\<close>

lemma concat_file_chunks: "concat (file_chunks bytes) = bytes"
proof (induction bytes rule: file_chunks.induct)
  case (1 bytes)
  then show ?case by (subst file_chunks.simps) auto
qed

lemma encodes_chunks: "ba.encodes m (write_chunks cs) (concat cs)"
proof (induction cs)
  case Nil
  show ?case unfolding ba.encodes_def by (simp add: store_write_def abs_store_def)
next
  case (Cons c cs)
  then show ?case using ba.encodes_bind [OF encodes_bytes [of m c]] by simp
qed

lemma write_buffers_all:
  "(\<And>k. ok k) \<Longrightarrow> write_buffers ok k bss = (True, concat bss)"
  by (induction ok k bss rule: write_buffers.induct) auto

text \<open>A file written from the readable bytes and read into another array reproduces them:
  all of them arrive, in order, at that array's position.\<close>

theorem file_round_trip:
  assumes b: "ba_inv b" and c: "ba_inv c" "room c (getReadSize b)" and ok: "\<And>k. ok k"
  shows "\<exists>out c'. writeToFile True ok b = (True, out) \<and>
     readFromFile (Some out) False c = (Inr True, c') \<and>
     abs_store c' = store_write (drop (position b) (contents b)) (abs_store c)"
proof -
  obtain vs where vs: "snd (getReadBuffers [] UINT64_MAX b) = vs"
    "gather (nodes b) vs = take (unat UINT64_MAX) (drop (position b) (contents b))"
    using read_buffers_lemma [OF b, of "[]" UINT64_MAX] by auto
  have all: "bsize b \<le> unat UINT64_MAX"
    using ba_invD [OF b] by (simp add: UINT64_MAX_def SIZE_MAX_def unsigned_minus_1_eq_mask mask_eq_exp_minus_1)
  let ?out = "drop (position b) (contents b)"
  have "concat (map (\<lambda>v. gather (nodes b) [v]) vs) = ?out"
    using vs(2) all length_contents [OF b] by (simp add: gather_def)
  then have w: "writeToFile True ok b = (True, ?out)"
    using vs(1) write_buffers_all [OF ok] by (simp add: writeToFile_def Let_def)
  have "room c (length ?out)" using c(2) length_contents [OF b] by (simp add: getReadSize_def)
  then obtain c' where "write_chunks (file_chunks ?out) c = (Inr (), c')"
    "abs_store c' = store_write ?out (abs_store c)"
    using encodes_chunks [of "little_endian c" "file_chunks ?out"] c(1)
    unfolding ba.encodes_def concat_file_chunks by blast
  then show ?thesis using w by (auto simp: readFromFile_def bind_op_def)
qed

theorem file_round_trip_witness:
  "\<exists>out c'. writeToFile True (\<lambda>_. True) demo_array = (True, out) \<and>
     readFromFile (Some out) False demo_array = (Inr True, c') \<and>
     abs_store c' = ([10, 20], 2)"
  using file_round_trip [OF demo_array_inv demo_array_inv demo_array_room, of "\<lambda>_. True"]
  by (simp add: demo_array_def getReadSize_def abs_store_def contents_def store_write_def numeral_2_eq_2)

end
