(* ===== verification/Stream.thy ===== *)
theory Stream
  imports Byte_Array
begin

text \<open>
  \<open>Stream\<close> and \<open>SocketStream\<close> (include/droplet/stream/stream.h, socket_stream.h,
  src/stream/stream.cc, socket_stream.cc).  The socket below is the environment: the record holds
  what the peer has sent, in the segments the kernel will hand out, what has been sent to it, and
  how many bytes each coming \<open>send\<close> takes.  A \<open>recv\<close> of at most \<open>n\<close> bytes returns
  the front of the first segment and 0 at the end of the stream; these are data, so every theorem
  holds for every way the bytes are cut.  The locale states what \<open>readFixSize\<close> and
  \<open>writeFixSize\<close> rely on in the virtual \<open>read\<close> and \<open>write\<close>.
\<close>

record 'b socket_stream =
  ss_connected :: bool
  ss_incoming :: "'b list list"
  ss_sent :: "'b list"
  ss_accept :: "nat list"

definition SSIZE_MAX :: nat where
  "SSIZE_MAX = 2 ^ 63 - 1"

text \<open>\<open>static_cast<int>\<close> of a count.\<close>

definition to_int :: "int \<Rightarrow> int" where
  "to_int n = sint (word_of_int n :: 32 word)"

definition sock_recv :: "nat \<Rightarrow> 'b socket_stream \<Rightarrow> 'b list \<times> 'b socket_stream" where
  "sock_recv n s =
     (case ss_incoming s of
        [] \<Rightarrow> ([], s)
      | seg # rest \<Rightarrow>
          if length seg \<le> n then (seg, s\<lparr> ss_incoming := rest \<rparr>)
          else (take n seg, s\<lparr> ss_incoming := drop n seg # rest \<rparr>))"

definition sock_send :: "'b list \<Rightarrow> 'b socket_stream \<Rightarrow> nat \<times> 'b socket_stream" where
  "sock_send bytes s =
     (case ss_accept s of
        [] \<Rightarrow> (length bytes, s\<lparr> ss_sent := ss_sent s @ bytes \<rparr>)
      | k # ks \<Rightarrow> (min k (length bytes), s\<lparr> ss_sent := ss_sent s @ take k bytes, ss_accept := ks \<rparr>))"

text \<open>\<open>SocketStream::read\<close> and \<open>write\<close> on raw buffers: the returned count, and the bytes
  placed in the buffer.\<close>

definition ss_read :: "bool \<Rightarrow> nat \<Rightarrow> 'b socket_stream \<Rightarrow> (int \<times> 'b list) \<times> 'b socket_stream" where
  "ss_read buffer_null len s =
     (if \<not> ss_connected s \<or> (buffer_null \<and> len \<noteq> 0) then ((- 1, []), s)
      else if len > SSIZE_MAX then ((- 1, []), s)
      else let (bytes, s') = sock_recv len s in ((to_int (int (length bytes)), bytes), s'))"

definition ss_write :: "'b list option \<Rightarrow> nat \<Rightarrow> 'b socket_stream \<Rightarrow> int \<times> 'b socket_stream" where
  "ss_write buf len s =
     (if \<not> ss_connected s \<or> (buf = None \<and> len \<noteq> 0) then (- 1, s)
      else if len > SSIZE_MAX then (- 1, s)
      else let (n, s') = sock_send (take len (case buf of None \<Rightarrow> [] | Some bs \<Rightarrow> bs)) s
           in (to_int (int n), s'))"

definition ss_close :: "'b socket_stream \<Rightarrow> 'b socket_stream" where
  "ss_close s = s\<lparr> ss_connected := False \<rparr>"

section \<open>readFixSize and writeFixSize\<close>

text \<open>The loops over the virtual \<open>read\<close> and \<open>write\<close>, from an offset on; \<open>acc\<close> is what has
  been placed in the buffer so far.\<close>

function readFix_loop ::
  "(nat \<Rightarrow> 's \<Rightarrow> (int \<times> 'b list) \<times> 's) \<Rightarrow> nat \<Rightarrow> nat \<Rightarrow> 'b list \<Rightarrow> 's \<Rightarrow> (int \<times> 'b list) \<times> 's" where
  "readFix_loop rd offset len acc s =
     (if offset < len then
        (case rd (len - offset) s of
           ((result, bytes), s') \<Rightarrow>
             if result \<le> 0 then ((result, acc), s')
             else readFix_loop rd (offset + nat result) len (acc @ bytes) s')
      else ((to_int (int len), acc), s))"
  by pat_completeness auto
termination by (relation "measure (\<lambda>(_, offset, len, _). len - offset)") auto

declare readFix_loop.simps [simp del]

definition readFixSize ::
  "(nat \<Rightarrow> 's \<Rightarrow> (int \<times> 'b list) \<times> 's) \<Rightarrow> bool \<Rightarrow> nat \<Rightarrow> 's \<Rightarrow> (int \<times> 'b list) \<times> 's" where
  "readFixSize rd buffer_null len s =
     (if buffer_null \<and> len \<noteq> 0 then ((- 1, []), s) else readFix_loop rd 0 len [] s)"

function writeFix_loop ::
  "('b list \<Rightarrow> 's \<Rightarrow> int \<times> 's) \<Rightarrow> 'b list \<Rightarrow> nat \<Rightarrow> nat \<Rightarrow> 's \<Rightarrow> int \<times> 's" where
  "writeFix_loop wr buf offset len s =
     (if offset < len then
        (case wr (take (len - offset) (drop offset buf)) s of
           (result, s') \<Rightarrow>
             if result \<le> 0 then (result, s')
             else writeFix_loop wr buf (offset + nat result) len s')
      else (to_int (int len), s))"
  by pat_completeness auto
termination by (relation "measure (\<lambda>(_, _, offset, len, _). len - offset)") auto

declare writeFix_loop.simps [simp del]

definition writeFixSize ::
  "('b list \<Rightarrow> 's \<Rightarrow> int \<times> 's) \<Rightarrow> 'b list option \<Rightarrow> nat \<Rightarrow> 's \<Rightarrow> int \<times> 's" where
  "writeFixSize wr buf len s =
     (if buf = None \<and> len \<noteq> 0 then (- 1, s)
      else writeFix_loop wr (case buf of None \<Rightarrow> [] | Some bs \<Rightarrow> bs) 0 len s)"

text \<open>What the loops rely on: a positive count is the number of bytes moved, at most the number
  asked for, and they are the next bytes of the stream in their direction.\<close>

locale byte_stream =
  fixes rd :: "nat \<Rightarrow> 's \<Rightarrow> (int \<times> 'b list) \<times> 's"
    and wr :: "'b list \<Rightarrow> 's \<Rightarrow> int \<times> 's"
    and pending :: "'s \<Rightarrow> 'b list"
    and delivered :: "'s \<Rightarrow> 'b list"
    and alive :: "'s \<Rightarrow> bool"
    and limit :: nat
  assumes rd_law: "alive s \<Longrightarrow> 0 < n \<Longrightarrow> n \<le> limit \<Longrightarrow> rd n s = ((r, bytes), s') \<Longrightarrow>
      r = int (length bytes) \<and> length bytes \<le> n \<and> pending s = bytes @ pending s' \<and>
      delivered s' = delivered s \<and> alive s' \<and> (bytes = [] \<longrightarrow> pending s = [])"
    and wr_law: "alive s \<Longrightarrow> bs \<noteq> [] \<Longrightarrow> length bs \<le> limit \<Longrightarrow> wr bs s = (r, s') \<Longrightarrow>
      0 \<le> r \<and> nat r \<le> length bs \<and> delivered s' = delivered s @ take (nat r) bs \<and>
      pending s' = pending s \<and> alive s'"
    and limit_law: "n \<le> limit \<Longrightarrow> to_int (int n) = int n"
begin

lemma readFix_loop_result:
  "alive s \<Longrightarrow> offset \<le> len \<Longrightarrow> len \<le> limit \<Longrightarrow> readFix_loop rd offset len acc s = ((r, bytes), s') \<Longrightarrow>
   \<exists>got. bytes = acc @ got \<and> pending s = got @ pending s' \<and> alive s' \<and> delivered s' = delivered s \<and>
     (if len - offset \<le> length (pending s) then r = int len \<and> length got = len - offset
      else r = 0 \<and> got = pending s)"
proof (induction "len - offset" arbitrary: offset acc s rule: less_induct)
  case less
  show ?case
  proof (cases "offset < len")
    case False
    then show ?thesis using less.prems limit_law [of len] by (simp add: readFix_loop.simps)
  next
    case True
    obtain r1 b1 s1 where r1: "rd (len - offset) s = ((r1, b1), s1)"
      by (metis surj_pair)
    have n: "0 < len - offset" "len - offset \<le> limit" using True less.prems by simp_all
    note law = rd_law [OF less.prems(1) n r1]
    show ?thesis
    proof (cases "b1 = []")
      case empty: True
      then show ?thesis using law r1 True less.prems(4) by (auto simp: readFix_loop.simps [of rd offset])
    next
      case False
      then have pos: "\<not> r1 \<le> 0" "nat r1 = length b1" using law by auto
      have run: "readFix_loop rd (offset + length b1) len (acc @ b1) s1 = ((r, bytes), s')"
        using less.prems(4) True r1 pos by (simp add: readFix_loop.simps [of rd offset])
      have "0 < length b1" using False by simp
      then have "len - (offset + length b1) < len - offset" using True by linarith
      moreover have "alive s1" "offset + length b1 \<le> len" using law True by auto
      ultimately obtain got where g: "bytes = (acc @ b1) @ got" "pending s1 = got @ pending s'" "alive s'"
        "delivered s' = delivered s1"
        "if len - (offset + length b1) \<le> length (pending s1)
         then r = int len \<and> length got = len - (offset + length b1) else r = 0 \<and> got = pending s1"
        using less.hyps [OF _ _ _ less.prems(3) run] by blast
      have p: "pending s = (b1 @ got) @ pending s'" using law g(2) by (simp only: append.assoc)
      have l: "length (pending s) = length b1 + length (pending s1)" using law by (simp only: length_append)
      have "if len - offset \<le> length (pending s) then r = int len \<and> length (b1 @ got) = len - offset
          else r = 0 \<and> b1 @ got = pending s"
      proof (cases "len - offset \<le> length (pending s)")
        case True
        then show ?thesis using g(5) l law \<open>offset < len\<close> by (auto split: if_splits)
      next
        case False
        then have "r = 0" "got = pending s1" using g(5) l by (auto split: if_splits)
        then show ?thesis using False law by simp
      qed
      then show ?thesis using g p law by (intro exI [of _ "b1 @ got"]) (simp only: append.assoc simp_thms)
    qed
  qed
qed

lemma writeFix_loop_result:
  "alive s \<Longrightarrow> offset \<le> len \<Longrightarrow> len \<le> limit \<Longrightarrow> len \<le> length buf \<Longrightarrow>
   writeFix_loop wr buf offset len s = (r, s') \<Longrightarrow>
   \<exists>m. delivered s' = delivered s @ take m (drop offset buf) \<and> pending s' = pending s \<and> alive s' \<and>
     (r = int len \<and> m = len - offset \<or> r = 0 \<and> m < len - offset)"
proof (induction "len - offset" arbitrary: offset s rule: less_induct)
  case less
  show ?case
  proof (cases "offset < len")
    case False
    then show ?thesis using less.prems limit_law [of len]
      by (intro exI [of _ 0]) (simp add: writeFix_loop.simps)
  next
    case True
    let ?bs = "take (len - offset) (drop offset buf)"
    obtain r1 s1 where r1: "wr ?bs s = (r1, s1)" by (metis surj_pair)
    have bs: "?bs \<noteq> []" "length ?bs \<le> limit" using True less.prems by auto
    note law = wr_law [OF less.prems(1) bs r1]
    show ?thesis
    proof (cases "r1 \<le> 0")
      case z: True
      then show ?thesis using law r1 True less.prems(5)
        by (intro exI [of _ 0]) (auto simp: writeFix_loop.simps [of wr buf offset])
    next
      case False
      have k: "nat r1 \<le> len - offset" using law less.prems by simp
      have run: "writeFix_loop wr buf (offset + nat r1) len s1 = (r, s')"
        using less.prems(5) True r1 False by (simp add: writeFix_loop.simps [of wr buf offset])
      have "len - (offset + nat r1) < len - offset" using False True by simp
      from less.hyps [OF this _ _ less.prems(3,4) run] law k True
      obtain m where m: "delivered s' = delivered s1 @ take m (drop (offset + nat r1) buf)" "pending s' = pending s1"
        "alive s'" "r = int len \<and> m = len - (offset + nat r1) \<or> r = 0 \<and> m < len - (offset + nat r1)"
        by fastforce
      have "take (nat r1) ?bs = take (nat r1) (drop offset buf)" using k by (simp add: min_absorb1)
      moreover have "take (nat r1 + m) (drop offset buf) =
          take (nat r1) (drop offset buf) @ take m (drop (offset + nat r1) buf)"
        using take_add [of "nat r1" m "drop offset buf"] by (simp add: add.commute)
      ultimately have "take (nat r1) ?bs @ take m (drop (offset + nat r1) buf) = take (nat r1 + m) (drop offset buf)"
        by simp
      moreover have "r = int len \<and> nat r1 + m = len - offset \<or> r = 0 \<and> nat r1 + m < len - offset"
        using m(4) k True by linarith
      ultimately show ?thesis using law m(1-3) by (intro exI [of _ "nat r1 + m"]) simp
    qed
  qed
qed

lemma readFixSize_spec:
  assumes "alive s" "len \<le> limit" "readFixSize rd False len s = ((r, bytes), s')"
  shows "pending s = bytes @ pending s' \<and> (alive s' \<and> delivered s' = delivered s) \<and>
     (if len \<le> length (pending s) then r = int len \<and> bytes = take len (pending s)
      else r = 0 \<and> bytes = pending s)"
proof -
  have "readFix_loop rd 0 len [] s = ((r, bytes), s')" using assms(3) by (simp add: readFixSize_def)
  from readFix_loop_result [OF assms(1) le0 assms(2) this] obtain got where g: "bytes = [] @ got"
    "pending s = got @ pending s'" "alive s' \<and> delivered s' = delivered s"
    "if len - 0 \<le> length (pending s) then r = int len \<and> length got = len - 0 else r = 0 \<and> got = pending s"
    by blast
  note h = g(2-4) [folded g(1) [unfolded append_Nil], unfolded diff_zero]
  have t: "take (length bytes) (pending s) = bytes" by (subst h(1)) simp
  show ?thesis
  proof (cases "len \<le> length (pending s)")
    case True
    note k = h(3) [unfolded if_P [OF True]]
    have "bytes = take len (pending s)" using t k by simp
    then show ?thesis unfolding if_P [OF True] using h(1,2) k by blast
  next
    case False
    show ?thesis unfolding if_not_P [OF False] using h(1,2) h(3) [unfolded if_not_P [OF False]] by blast
  qed
qed

lemma writeFixSize_spec:
  assumes "alive s" "length bs \<le> limit" "writeFixSize wr (Some bs) (length bs) s = (r, s')"
  shows "\<exists>m. delivered s' = delivered s @ take m bs \<and> pending s' = pending s \<and> alive s' \<and>
     (r = int (length bs) \<and> m = length bs \<or> r = 0 \<and> m < length bs)"
  using writeFix_loop_result [OF assms(1) _ assms(2), of 0 bs r s'] assms(3)
  by (auto simp: writeFixSize_def)

end

section \<open>SocketStream provides the interface\<close>

definition INT_MAX :: nat where
  "INT_MAX = 2 ^ 31 - 1"

definition ss_alive :: "'b socket_stream \<Rightarrow> bool" where
  "ss_alive s \<longleftrightarrow> ss_connected s \<and> [] \<notin> set (ss_incoming s)"

abbreviation ss_pending :: "'b socket_stream \<Rightarrow> 'b list" where
  "ss_pending s \<equiv> concat (ss_incoming s)"

abbreviation ss_write_all :: "'b list \<Rightarrow> 'b socket_stream \<Rightarrow> int \<times> 'b socket_stream" where
  "ss_write_all bs \<equiv> ss_write (Some bs) (length bs)"

lemma to_int_small: "n \<le> INT_MAX \<Longrightarrow> to_int (int n) = int n"
  unfolding to_int_def sint_sbintrunc'
  by (rule signed_take_bit_int_eq_self) (simp_all add: INT_MAX_def)

lemma sock_recv_law:
  "[] \<notin> set (ss_incoming s) \<Longrightarrow> 0 < n \<Longrightarrow> sock_recv n s = (bytes, s') \<Longrightarrow>
   length bytes \<le> n \<and> ss_pending s = bytes @ ss_pending s' \<and> ss_sent s' = ss_sent s \<and>
   ss_connected s' = ss_connected s \<and> [] \<notin> set (ss_incoming s') \<and> (bytes = [] \<longrightarrow> ss_pending s = [])"
  by (auto simp: sock_recv_def split: list.splits if_splits)

lemma sock_send_law:
  "sock_send bs s = (n, s') \<Longrightarrow> n \<le> length bs \<and> ss_sent s' = ss_sent s @ take n bs \<and>
   ss_incoming s' = ss_incoming s \<and> ss_connected s' = ss_connected s"
  by (auto simp: sock_send_def min_def split: list.splits if_splits)

interpretation ss: byte_stream "ss_read False" ss_write_all ss_pending ss_sent ss_alive INT_MAX
proof
  fix s :: "'b socket_stream" and n r bytes s'
  assume a: "ss_alive s" "0 < n" "n \<le> INT_MAX" "ss_read False n s = ((r, bytes), s')"
  obtain b1 s1 where rv: "sock_recv n s = (b1, s1)" by (cases "sock_recv n s")
  have small: "\<not> n > SSIZE_MAX" using a(3) by (simp add: SSIZE_MAX_def INT_MAX_def)
  have e: "r = to_int (int (length b1))" "bytes = b1" "s' = s1"
    using a(1,4) rv small by (auto simp: ss_read_def ss_alive_def)
  have "[] \<notin> set (ss_incoming s)" using a(1) by (simp add: ss_alive_def)
  note law = sock_recv_law [OF this a(2) rv]
  then have "bytes = [] \<longrightarrow> ss_pending s = []" using e by blast
  with law e a(1,3)
  show "r = int (length bytes) \<and> length bytes \<le> n \<and> ss_pending s = bytes @ ss_pending s' \<and>
      ss_sent s' = ss_sent s \<and> ss_alive s' \<and> (bytes = [] \<longrightarrow> ss_pending s = [])"
    by (simp add: ss_alive_def to_int_small)
next
  fix s :: "'b socket_stream" and bs r s'
  assume a: "ss_alive s" "bs \<noteq> []" "length bs \<le> INT_MAX" "ss_write_all bs s = (r, s')"
  obtain n s1 where sd: "sock_send bs s = (n, s1)" by (cases "sock_send bs s")
  have small: "\<not> length bs > SSIZE_MAX" using a(3) by (simp add: SSIZE_MAX_def INT_MAX_def)
  have e: "r = to_int (int n)" "s' = s1"
    using a(1,4) sd small by (auto simp: ss_write_def ss_alive_def)
  from sock_send_law [OF sd] a e
  show "0 \<le> r \<and> nat r \<le> length bs \<and> ss_sent s' = ss_sent s @ take (nat r) bs \<and>
      ss_pending s' = ss_pending s \<and> ss_alive s'"
    by (auto simp: ss_alive_def to_int_small)
qed (rule to_int_small)

section \<open>Reading into and writing from a byte array\<close>

text \<open>A \<open>readv\<close> places its bytes in the buffers in order.\<close>

fun scatter :: "u8 list list \<Rightarrow> iovec list \<Rightarrow> u8 list \<Rightarrow> u8 list list" where
  "scatter ns [] data = ns"
| "scatter ns (v # vs) data =
     (let d = take (iov_len v) data;
          n = ns ! iov_node v
      in scatter (ns[iov_node v := take (iov_off v) n @ d @ drop (iov_off v + length d) n]) vs
           (drop (iov_len v) data))"

definition ss_read_ba ::
  "bool \<Rightarrow> nat \<Rightarrow> (u8 socket_stream \<times> byte_array, int) op" where
  "ss_read_ba buffer_null len = (\<lambda>(s, b).
     if \<not> ss_connected s \<or> (buffer_null \<and> len \<noteq> 0) then (Inr (- 1), (s, b))
     else if len = 0 then (Inr 0, (s, b))
     else case getWriteBuffers [] (word_of_nat len) b of
       (Inl e, b1) \<Rightarrow> (Inl e, (s, b1))
     | (Inr (available, vs), b1) \<Rightarrow>
         if available = 0 \<or> vs = [] then (Inr 0, (s, b1))
         else let (bytes, s') = sock_recv (sum_list (map iov_len vs)) s;
                  b2 = b1\<lparr> nodes := scatter (nodes b1) vs bytes \<rparr>
              in if bytes = [] then (Inr 0, (s', b2))
                 else case setPosition (position b2 + length bytes) b2 of
                   (Inl e, b3) \<Rightarrow> (Inl e, (s', b3))
                 | (Inr _, b3) \<Rightarrow> (Inr (to_int (int (length bytes))), (s', b3)))"

definition ss_write_ba ::
  "bool \<Rightarrow> nat \<Rightarrow> (u8 socket_stream \<times> byte_array, int) op" where
  "ss_write_ba buffer_null len = (\<lambda>(s, b).
     if \<not> ss_connected s \<or> (buffer_null \<and> len \<noteq> 0) then (Inr (- 1), (s, b))
     else if len = 0 then (Inr 0, (s, b))
     else let (available, vs) = getReadBuffers [] (word_of_nat len) b
          in if available = 0 \<or> vs = [] then (Inr 0, (s, b))
             else let (n, s') = sock_send (gather (nodes b) vs) s
                  in if n = 0 then (Inr 0, (s', b))
                     else case setPosition (position b + n) b of
                       (Inl e, b1) \<Rightarrow> (Inl e, (s', b1))
                     | (Inr _, b1) \<Rightarrow> (Inr (to_int (int n)), (s', b1)))"

text \<open>\<open>readFixSize\<close> and \<open>writeFixSize\<close> on a byte array: the same loop over the virtual
  \<open>read\<close> and \<open>write\<close> of byte arrays; an exception of the array leaves the loop.\<close>

function fix_ba_loop :: "(nat \<Rightarrow> ('s, int) op) \<Rightarrow> nat \<Rightarrow> nat \<Rightarrow> ('s, int) op" where
  "fix_ba_loop step offset len s =
     (if offset < len then
        (case step (len - offset) s of
           (Inl e, s') \<Rightarrow> (Inl e, s')
         | (Inr result, s') \<Rightarrow>
             if result \<le> 0 then (Inr result, s')
             else fix_ba_loop step (offset + nat result) len s')
      else (Inr (to_int (int len)), s))"
  by pat_completeness auto
termination by (relation "measure (\<lambda>(_, offset, len, _). len - offset)") auto

declare fix_ba_loop.simps [simp del]

definition readFixSize_ba ::
  "(nat \<Rightarrow> ('s, int) op) \<Rightarrow> bool \<Rightarrow> nat \<Rightarrow> ('s, int) op" where
  "readFixSize_ba rd buffer_null len s =
     (if buffer_null \<and> len \<noteq> 0 then (Inr (- 1), s) else fix_ba_loop rd 0 len s)"

definition writeFixSize_ba ::
  "(nat \<Rightarrow> ('s, int) op) \<Rightarrow> bool \<Rightarrow> nat \<Rightarrow> ('s, int) op" where
  "writeFixSize_ba wr buffer_null len s =
     (if buffer_null \<and> len \<noteq> 0 then (Inr (- 1), s) else fix_ba_loop wr 0 len s)"

lemma scatter_Nil_data: "scatter ns vs [] = ns"
  by (induction vs) (simp_all add: Let_def)

lemma scatter_loop:
  "off + r \<le> length (concat ns) \<Longrightarrow> (ns \<noteq> [] \<longrightarrow> off \<le> length (hd ns)) \<Longrightarrow> length data \<le> r \<Longrightarrow>
   buffers_loop (length pre) ns off r = (vs, 0) \<Longrightarrow>
   \<exists>ns'. scatter (pre @ ns) vs data = pre @ ns' \<and> map length ns' = map length ns \<and>
     concat ns' = take off (concat ns) @ data @ drop (off + length data) (concat ns)"
proof (induction ns arbitrary: pre off r data vs)
  case Nil
  then show ?case by simp
next
  case (Cons n ns)
  have off: "off \<le> length n" using Cons.prems by simp
  show ?case
  proof (cases "r = 0")
    case True
    then show ?thesis using Cons.prems by simp
  next
    case False
    let ?c = "min r (length n - off)"
    have len: "off + r \<le> length n + length (concat ns)" using Cons.prems by simp
    have rest: "0 + (r - ?c) \<le> length (concat ns)" using off len by linarith
    obtain vs' where vs: "vs = \<lparr> iov_node = length pre, iov_off = off, iov_len = ?c \<rparr> # vs'"
      "buffers_loop (Suc (length pre)) ns 0 (r - ?c) = (vs', 0)"
      using Cons.prems(4) False by (auto simp: Let_def split: prod.splits)
    let ?d = "take ?c data"
    let ?n' = "take off n @ ?d @ drop (off + length ?d) n"
    have "length (drop ?c data) \<le> r - ?c" using Cons.prems(3) by simp
    then obtain ns' where ns': "scatter ((pre @ [?n']) @ ns) vs' (drop ?c data) = (pre @ [?n']) @ ns'"
      "map length ns' = map length ns"
      "concat ns' = take 0 (concat ns) @ drop ?c data @ drop (0 + length (drop ?c data)) (concat ns)"
      using Cons.IH [OF rest, of "drop ?c data" "pre @ [?n']" vs'] vs(2) by auto
    have "length ?d \<le> length n - off" by simp
    then have ln: "length ?n' = length n" using off by simp
    have "scatter (pre @ n # ns) vs data = pre @ ?n' # ns'"
      using ns'(1) by (simp add: vs(1) Let_def)
    moreover have "concat (?n' # ns') =
        take off (concat (n # ns)) @ data @ drop (off + length data) (concat (n # ns))"
    proof (cases "length data \<le> ?c")
      case True
      then have "length data \<le> length n - off" by simp
      then have "off + length data \<le> length n" using off by linarith
      then show ?thesis using off ns'(3) True by simp
    next
      case large: False
      then have c: "?c = length n - off" using Cons.prems(3) by linarith
      have d: "length ?d = ?c" unfolding length_take using large by linarith
      then have e: "off + length ?d = length n" using c off by linarith
      have "off + length data - length n = length data - ?c" using c off by linarith
      then have "drop (off + length data) (concat (n # ns)) = drop (length data - ?c) (concat ns)"
        using off c large by simp
      moreover have "concat (?n' # ns') = take off n @ (?d @ drop ?c data) @ drop (length data - ?c) (concat ns)"
        unfolding concat.simps ns'(3) e by simp
      ultimately show ?thesis using off unfolding append_take_drop_id by simp
    qed
    ultimately show ?thesis using ns'(2) ln by (intro exI [of _ "?n' # ns'"]) simp
  qed
qed


lemma scatter_buffers_from:
  assumes "position b + n \<le> length (concat (nodes b))" "0 < n" "length data \<le> n"
  shows "\<exists>vs ns'. buffers_from b (position b) n = (vs, 0) \<and> vs \<noteq> [] \<and> sum_list (map iov_len vs) = n \<and>
     scatter (nodes b) vs data = ns' \<and> map length ns' = map length (nodes b) \<and>
     concat ns' = take (position b) (concat (nodes b)) @ data @
       drop (position b + length data) (concat (nodes b))"
proof -
  let ?ns = "nodes b" and ?p = "position b"
  have "?p < length (concat ?ns)" using assms by linarith
  then obtain k off where k: "node_at 0 ?ns ?p = (Some k, off)" "k < length ?ns"
    "off \<le> length (hd (drop k ?ns))" "length (concat (take k ?ns)) + off = ?p"
    by (rule node_at_block)
  have len: "off + n \<le> length (concat (drop k ?ns))"
    by (rule drop_block_length [OF k(4) assms(1)])
  have l: "length (take k ?ns) = k" using k(2) by simp
  obtain vs where vs: "buffers_loop k (drop k ?ns) off n = (vs, 0)" "sum_list (map iov_len vs) = n"
    using buffers_loop_gather [OF len, of "take k ?ns"] k(3) unfolding l append_take_drop_id by blast
  obtain ns' where ns': "scatter ?ns vs data = take k ?ns @ ns'"
    "map length ns' = map length (drop k ?ns)"
    "concat ns' = take off (concat (drop k ?ns)) @ data @ drop (off + length data) (concat (drop k ?ns))"
    using scatter_loop [OF len _ assms(3), of "take k ?ns" vs] k(3) vs(1)
    unfolding l append_take_drop_id by blast
  have "map length (take k ?ns @ ns') = map length ?ns"
    using ns'(2) by (metis append_take_drop_id map_append)
  moreover have "drop (off + length data) (concat (drop k ?ns)) = drop (?p + length data) (concat ?ns)"
    by (rule drop_block) (use k(4) in linarith)
  then have "concat (take k ?ns @ ns') = take ?p (concat ?ns) @ data @ drop (?p + length data) (concat ?ns)"
    using ns'(3) take_block [OF k(4)] by (metis append.assoc concat_append)
  moreover have "vs \<noteq> []" using vs(2) assms(2) by auto
  ultimately show ?thesis using vs ns'(1) k(1)
    by (intro exI [of _ vs] exI [of _ "take k ?ns @ ns'"]) (simp add: buffers_from_def nodeAt_def)
qed

lemma getWriteBuffers_cases:
  assumes inv: "ba_inv b" and n: "0 < n" "n \<le> INT_MAX"
  obtains (error) msg where "getWriteBuffers [] (word_of_nat n) b = (Inl (Length_error msg), b)" "\<not> room b n"
    | (ok) b1 vs where "getWriteBuffers [] (word_of_nat n) b = (Inr (n, vs), b1)"
        "ba_inv b1" "contents b1 = contents b" "position b1 = position b" "base_size b1 = base_size b"
        "buffers_from b1 (position b1) n = (vs, 0)" "position b1 + n \<le> length (concat (nodes b1))"
proof -
  have small: "n < 2 ^ 64" using n(2) by (simp add: INT_MAX_def)
  then have un: "unat (word_of_nat n :: u64) = n" by (simp add: unat_of_nat)
  then have nz: "(word_of_nat n :: u64) \<noteq> 0" using n(1) by (metis less_numeral_extra(3) unat_0)
  have chk: "CheckedSize (word_of_nat n) = Inr n"
    using small un by (simp add: CheckedSize_def SIZE_MAX_def)
  show thesis
    using inv
  proof (cases rule: addCapacity_cases [where sz = n])
    case (error msg)
    then show thesis using that(1) nz chk by (simp add: getWriteBuffers_def)
  next
    case (ok extra)
    define b1 where "b1 = b\<lparr> nodes := nodes b @ extra, capacity := capacity b + length (concat extra) \<rparr>"
    have i: "ba_inv b1" "contents b1 = contents b"
      unfolding b1_def by (rule extend_inv [OF inv ok(2,3)])+
    have en: "position b1 + n \<le> length (concat (nodes b1))"
      using ok(4) ba_invD(3) [OF inv] by (simp add: b1_def)
    obtain vs where vs: "buffers_from b1 (position b1) n = (vs, 0)"
      using scatter_buffers_from [OF en n(1), of "[]"] by auto
    have "getWriteBuffers [] (word_of_nat n) b = (Inr (n, vs), b1)"
      using nz chk ok(1) vs un by (simp add: getWriteBuffers_def flip: b1_def)
    from that(2) [OF this i _ _ vs en] show thesis by (simp add: b1_def)
  qed
qed

lemma setPosition_after:
  "position b + k \<le> capacity b \<Longrightarrow>
   \<exists>c. setPosition (position b + k) b = (Inr (), b\<lparr> position := position b + k,
       bsize := max (bsize b) (position b + k), current := c \<rparr>) \<and>
     (\<forall>i. c = Some i \<longrightarrow> i < length (nodes b))"
  using nodeAt_current_ok [of "b\<lparr> position := position b + k, bsize := max (bsize b) (position b + k) \<rparr>"
      "position b + k"]
  by (intro exI [of _ "fst (nodeAt (b\<lparr> position := position b + k,
      bsize := max (bsize b) (position b + k) \<rparr>) (position b + k))"])
     (simp add: setPosition_def Let_def)

lemma received_inv:
  assumes inv: "ba_inv b" and n: "position b + n \<le> length (concat (nodes b))" "0 < n" "length data \<le> n"
    and vs: "buffers_from b (position b) n = (vs, 0)"
  defines "b1 \<equiv> b\<lparr> nodes := scatter (nodes b) vs data \<rparr>"
  shows "\<exists>b2. setPosition (position b1 + length data) b1 = (Inr (), b2) \<and> ba_inv b2 \<and>
     abs_store b2 = store_write data (abs_store b) \<and> base_size b2 = base_size b"
proof -
  obtain ns' where ns: "scatter (nodes b) vs data = ns'" "map length ns' = map length (nodes b)"
    "concat ns' = take (position b) (concat (nodes b)) @ data @
       drop (position b + length data) (concat (nodes b))"
    using scatter_buffers_from [OF n] vs by auto
  have fits: "position b + length data \<le> length (concat (nodes b))" using n by linarith
  then have "position b1 + length data \<le> capacity b1"
    using ba_invD(3) [OF inv] by (simp add: b1_def)
  from setPosition_after [OF this] obtain c where
    c: "setPosition (position b1 + length data) b1 = (Inr (), b1\<lparr> position := position b1 + length data,
       bsize := max (bsize b1) (position b1 + length data), current := c \<rparr>)"
      "\<forall>i. c = Some i \<longrightarrow> i < length (nodes b1)" by blast
  then have "\<forall>i. c = Some i \<longrightarrow> i < length ns'" by (simp add: b1_def ns)
  from chain_replaced_inv [OF inv fits ns(2,3) this] c(1) show ?thesis by (simp add: b1_def ns(1))
qed

section \<open>Properties\<close>

lemma rest_is_drop: "xs = bs @ ys \<Longrightarrow> bs = take n xs \<Longrightarrow> ys = drop n xs"
  by (metis append_take_drop_id same_append_eq)

definition demo_stream :: "u8 socket_stream" where
  "demo_stream = \<lparr> ss_connected = True, ss_incoming = [[1], [2, 3], [4]], ss_sent = [], ss_accept = [1, 1] \<rparr>"

lemma demo_stream_bytes: "ss_pending demo_stream = [1, 2, 3, 4]" "ss_sent demo_stream = []"
  by (simp_all add: demo_stream_def)

lemma demo_stream_alive: "ss_alive demo_stream"
  by (simp add: ss_alive_def demo_stream_def)

text \<open>\<open>readFixSize\<close> over a connected socket does not depend on how the kernel cuts the
  stream: whatever the segments, it returns the length and the next \<open>length\<close> bytes when the
  peer sent that many, and otherwise returns 0 with everything the peer sent; the rest stays
  pending in order and nothing is sent.\<close>

theorem read_fix_size_exact:
  assumes "ss_alive s" "n \<le> INT_MAX"
  shows "\<exists>s'. readFixSize (ss_read False) False n s =
       ((if n \<le> length (ss_pending s) then int n else 0, take n (ss_pending s)), s') \<and>
     ss_pending s' = drop n (ss_pending s) \<and> ss_sent s' = ss_sent s \<and> ss_alive s'"
proof -
  obtain r bytes s' where e: "readFixSize (ss_read False) False n s = ((r, bytes), s')"
    by (metis prod.collapse)
  note spec = ss.readFixSize_spec [OF assms e]
  show ?thesis
  proof (cases "n \<le> length (ss_pending s)")
    case True
    note res = spec [THEN conjunct2, THEN conjunct2, unfolded if_P [OF True]]
    have "ss_pending s' = drop n (ss_pending s)"
      by (rule rest_is_drop [OF conjunct1 [OF spec] conjunct2 [OF res]])
    with spec res e True show ?thesis by (intro exI [of _ s']) (simp only: if_True simp_thms)
  next
    case False
    note res = spec [THEN conjunct2, THEN conjunct2, unfolded if_not_P [OF False]]
    have b: "bytes = take n (ss_pending s)" using res False by simp
    have "ss_pending s' = drop n (ss_pending s)"
      by (rule rest_is_drop [OF conjunct1 [OF spec] b])
    with spec res b e False show ?thesis by (intro exI [of _ s']) (simp only: if_False simp_thms)
  qed
qed

theorem read_fix_size_exact_witness:
  "\<exists>s'. readFixSize (ss_read False) False 3 demo_stream = ((3, [1, 2, 3]), s') \<and> ss_pending s' = [4] \<and>
     ss_sent s' = [] \<and> ss_alive s'"
  using read_fix_size_exact [OF demo_stream_alive, of 3]
  by (auto simp: demo_stream_def INT_MAX_def numeral_3_eq_3)

text \<open>\<open>writeFixSize\<close> over a connected socket sends a prefix of the buffer, in order and without
  touching what is pending, however little each \<open>send\<close> takes; it returns the length exactly
  when the whole buffer went out, and 0 when the socket stopped accepting bytes before.\<close>

theorem write_fix_size_exact:
  assumes "ss_alive s" "length bs \<le> INT_MAX"
  shows "\<exists>r m s'. writeFixSize ss_write_all (Some bs) (length bs) s = (r, s') \<and>
     ss_sent s' = ss_sent s @ take m bs \<and> ss_pending s' = ss_pending s \<and> ss_alive s' \<and>
     (r = int (length bs) \<and> m = length bs \<or> r = 0 \<and> m < length bs)"
proof -
  obtain r s' where e: "writeFixSize ss_write_all (Some bs) (length bs) s = (r, s')"
    by (metis surj_pair)
  from ss.writeFixSize_spec [OF assms e] e show ?thesis by blast
qed

theorem write_fix_size_exact_witness:
  "\<exists>r m s'. writeFixSize ss_write_all (Some [7, 8, 9]) 3 demo_stream = (r, s') \<and>
     ss_sent s' = take m [7, 8, 9] \<and> ss_pending s' = [1, 2, 3, 4] \<and> ss_alive s' \<and>
     (r = 3 \<and> m = 3 \<or> r = 0 \<and> m < 3)"
  using write_fix_size_exact [OF demo_stream_alive, of "[7, 8, 9]"]
  by (simp add: demo_stream_bytes INT_MAX_def numeral_3_eq_3)

text \<open>One read into a byte array: the scattered \<open>readv\<close> over the blocks, grown first for the
  whole request, followed by the move of the position, has the effect of \<open>write\<close> with the next bytes.\<close>

lemma ss_read_ba_effect:
  assumes b: "ba_inv b" and s: "ss_alive s" and n: "0 < n" "n \<le> INT_MAX"
  shows "(\<exists>bytes s' b'. ss_read_ba False n (s, b) = (Inr (int (length bytes)), (s', b')) \<and> ba_inv b' \<and>
            abs_store b' = store_write bytes (abs_store b) \<and> base_size b' = base_size b \<and> length bytes \<le> n \<and>
            ss_pending s = bytes @ ss_pending s' \<and> ss_sent s' = ss_sent s \<and> ss_alive s' \<and>
            (bytes = [] \<longrightarrow> ss_pending s = [])) \<or>
         (\<not> room b n \<and> (\<exists>msg. ss_read_ba False n (s, b) = (Inl (Length_error msg), (s, b))))"
  using b n
proof (cases rule: getWriteBuffers_cases)
  case (error msg)
  then show ?thesis using s n by (simp add: ss_read_ba_def ss_alive_def)
next
  case (ok b1 vs)
  obtain bytes s' where rv: "sock_recv n s = (bytes, s')" by (metis surj_pair)
  have "[] \<notin> set (ss_incoming s)" using s by (simp add: ss_alive_def)
  note law = sock_recv_law [OF this n(1) rv]
  have total: "sum_list (map iov_len vs) = n" "vs \<noteq> []"
    using scatter_buffers_from [OF ok(7) n(1), of bytes] law ok(6) by auto
  let ?b1 = "b1\<lparr> nodes := scatter (nodes b1) vs bytes \<rparr>"
  obtain b2 where b2: "setPosition (position ?b1 + length bytes) ?b1 = (Inr (), b2)" "ba_inv b2"
    "abs_store b2 = store_write bytes (abs_store b1)" "base_size b2 = base_size b1"
    using received_inv [OF ok(2,7) n(1) _ ok(6)] law by blast
  have same: "abs_store b1 = abs_store b" using ok(3,4) by (simp add: abs_store_def)
  have count: "to_int (int (length bytes)) = int (length bytes)"
    using law n(2) by (intro to_int_small) linarith
  show ?thesis
  proof (cases "bytes = []")
    case False
    then have "ss_read_ba False n (s, b) = (Inr (int (length bytes)), (s', b2))"
      using s n ok(1) total rv b2(1) count by (simp add: ss_read_ba_def ss_alive_def Let_def)
    moreover have "ss_alive s'" using law s by (simp add: ss_alive_def)
    ultimately show ?thesis using b2(2,4) b2(3) [unfolded same] ok(5) law False by metis
  next
    case True
    then have "scatter (nodes b1) vs bytes = nodes b1" by (simp add: scatter_Nil_data)
    then have "ss_read_ba False n (s, b) = (Inr (int (length bytes)), (s', b1))"
      using s n ok(1) total rv True by (simp add: ss_read_ba_def ss_alive_def Let_def)
    moreover have "abs_store b1 = store_write bytes (abs_store b)"
      using True same by (simp add: store_write_def split: prod.splits)
    moreover have "ss_alive s'" using law s by (simp add: ss_alive_def)
    ultimately show ?thesis using ok(2,5) law by blast
  qed
qed

lemma fix_ba_loop_result:
  "offset \<le> len \<Longrightarrow> len \<le> INT_MAX \<Longrightarrow> ba_inv b \<Longrightarrow> ss_alive s \<Longrightarrow> room b (len - offset) \<Longrightarrow>
   \<exists>s' b'. fix_ba_loop (ss_read_ba False) offset len (s, b) =
       (Inr (if len - offset \<le> length (ss_pending s) then int len else 0), (s', b')) \<and> ba_inv b' \<and>
     abs_store b' = store_write (take (len - offset) (ss_pending s)) (abs_store b) \<and>
     ss_pending s' = drop (len - offset) (ss_pending s) \<and> ss_sent s' = ss_sent s"
proof (induction "len - offset" arbitrary: offset s b rule: less_induct)
  case less
  show ?case
  proof (cases "offset < len")
    case False
    then show ?thesis using less.prems
      by (intro exI [of _ s] exI [of _ b])
         (simp add: fix_ba_loop.simps to_int_small store_write_def split: prod.splits)
  next
    case True
    let ?n = "len - offset"
    have n: "0 < ?n" "?n \<le> INT_MAX" using True less.prems by simp_all
    from ss_read_ba_effect [OF less.prems(3,4) n] less.prems(5) obtain bytes s1 b1 where
      r: "ss_read_ba False ?n (s, b) = (Inr (int (length bytes)), (s1, b1))" "ba_inv b1"
      "abs_store b1 = store_write bytes (abs_store b)" "base_size b1 = base_size b" "length bytes \<le> ?n"
      "ss_pending s = bytes @ ss_pending s1" "ss_sent s1 = ss_sent s" "ss_alive s1"
      "bytes = [] \<longrightarrow> ss_pending s = []" by blast
    show ?thesis
    proof (cases "bytes = []")
      case empty: True
      then have "ss_pending s = []" "ss_pending s1 = []" using r by auto
      then show ?thesis using r(1,2,3,7) empty True
        by (intro exI [of _ s1] exI [of _ b1]) (simp add: fix_ba_loop.simps [of _ offset] del: concat_eq_Nil_conv)
    next
      case False
      then have pos: "0 < length bytes" by simp
      have le: "offset + length bytes \<le> len" using r(5) True by linarith
      have small: "len - (offset + length bytes) < ?n" using pos True le by linarith
      have p1: "position b1 = position b + length bytes" by (rule store_write_shape [OF r(3)])
      have "room b1 (len - (offset + length bytes))"
        using less.prems(5) p1 r(4,5) le unfolding room_def by linarith
      from less.hyps [OF small le less.prems(2) r(2,8) this] obtain s' b' where
        h: "fix_ba_loop (ss_read_ba False) (offset + length bytes) len (s1, b1) =
            (Inr (if len - (offset + length bytes) \<le> length (ss_pending s1) then int len else 0), (s', b'))"
        "ba_inv b'" "abs_store b' = store_write (take (len - (offset + length bytes)) (ss_pending s1)) (abs_store b1)"
        "ss_pending s' = drop (len - (offset + length bytes)) (ss_pending s1)" "ss_sent s' = ss_sent s1" by blast
      have step: "fix_ba_loop (ss_read_ba False) offset len (s, b) =
          fix_ba_loop (ss_read_ba False) (offset + length bytes) len (s1, b1)"
        using True r(1) pos by (simp add: fix_ba_loop.simps [of _ offset])
      have cut: "len - (offset + length bytes) = ?n - length bytes" by simp
      have cond: "?n - length bytes \<le> length (ss_pending s1) \<longleftrightarrow> ?n \<le> length (ss_pending s)"
        unfolding r(6) using r(5) by auto
      have tk: "take ?n (ss_pending s) = bytes @ take (?n - length bytes) (ss_pending s1)"
        unfolding r(6) using r(5) by simp
      have dr: "drop ?n (ss_pending s) = drop (?n - length bytes) (ss_pending s1)"
        unfolding r(6) using r(5) by simp
      have "position b \<le> length (contents b)"
        using ba_invD(5) [OF less.prems(3)] by (simp add: length_contents [OF less.prems(3)])
      then have "store_write (take (?n - length bytes) (ss_pending s1)) (abs_store b1) =
          store_write (take ?n (ss_pending s)) (abs_store b)"
        unfolding r(3) tk by (simp add: store_write_def abs_store_def split_beta ac_simps)
      then show ?thesis using h r(7) unfolding step cut cond dr by (intro exI [of _ s'] exI [of _ b']) simp
    qed
  qed
qed



text \<open>Writing a byte array to a socket sends a prefix of the first \<open>min length readable\<close> bytes,
  gathered across the blocks, moves the position past exactly the bytes sent, keeps the invariant
  and the contents, and returns their number.\<close>

theorem socket_write_sends_array:
  assumes b: "ba_inv b" and s: "ss_alive s" and n: "0 < n" "n \<le> INT_MAX"
  shows "\<exists>k s' b'. ss_write_ba False n (s, b) = (Inr (int k), (s', b')) \<and> ba_inv b' \<and>
     abs_store b' = (contents b, position b + k) \<and> k \<le> min n (getReadSize b) \<and>
     ss_sent s' = ss_sent s @ take k (drop (position b) (contents b)) \<and> ss_pending s' = ss_pending s"
proof -
  let ?m = "min n (getReadSize b)"
  let ?bs = "take n (drop (position b) (contents b))"
  have "n < 2 ^ 64" using n by (simp add: INT_MAX_def)
  then have un: "unat (word_of_nat n :: u64) = n" by (simp add: unat_of_nat)
  obtain vs where vs: "getReadBuffers [] (word_of_nat n) b = (?m, vs)" "gather (nodes b) vs = ?bs"
    using read_buffers_lemma [OF b, of "[]" "word_of_nat n"] un by auto
  have lb: "length ?bs = ?m" by (simp add: length_contents [OF b] getReadSize_def)
  show ?thesis
  proof (cases "?m = 0 \<or> vs = []")
    case True
    then have "ss_write_ba False n (s, b) = (Inr (int 0), (s, b))"
      using vs s n by (auto simp: ss_write_ba_def ss_alive_def)
    with b show ?thesis by (intro exI [of _ 0] exI [of _ s] exI [of _ b]) (simp add: abs_store_def)
  next
    case False
    obtain k s' where k: "sock_send ?bs s = (k, s')" by (metis surj_pair)
    note law = sock_send_law [OF k]
    have "k \<le> length ?bs" using law by blast
    then have km: "k \<le> ?m" unfolding lb .
    have t: "take k ?bs = take k (drop (position b) (contents b))" using km by simp
    show ?thesis
    proof (cases "k = 0")
      case True
      then have "ss_write_ba False n (s, b) = (Inr (int k), (s', b))"
        using vs s n False k by (auto simp: ss_write_ba_def ss_alive_def Let_def)
      then show ?thesis using b law True t
        by (intro exI [of _ k] exI [of _ s'] exI [of _ b]) (simp add: abs_store_def)
    next
      case pos: False
      have "k \<le> bsize b - position b" using km by (simp add: getReadSize_def)
      then have le: "position b + k \<le> bsize b" using pos by linarith
      then have cap: "position b + k \<le> capacity b" using ba_invD [OF b] by linarith
      from setPosition_after [OF this] obtain c where c: "setPosition (position b + k) b =
          (Inr (), b\<lparr> position := position b + k, bsize := max (bsize b) (position b + k), current := c \<rparr>)"
        "\<forall>i. c = Some i \<longrightarrow> i < length (nodes b)" by blast
      let ?b' = "b\<lparr> position := position b + k, bsize := max (bsize b) (position b + k), current := c \<rparr>"
      have "to_int (int k) = int k" using km n by (intro to_int_small) linarith
      then have "ss_write_ba False n (s, b) = (Inr (int k), (s', ?b'))"
        using vs s n False k pos c(1) by (simp add: ss_write_ba_def ss_alive_def)
      moreover have "ba_inv ?b'" using b c(2) le by (simp add: ba_inv_def)
      moreover have "abs_store ?b' = (contents b, position b + k)"
        using le by (simp add: abs_store_def contents_def max_absorb1)
      ultimately show ?thesis using law t km
        by (intro exI [of _ k] exI [of _ s'] exI [of _ ?b']) simp
    qed
  qed
qed

theorem socket_write_sends_array_witness:
  "\<exists>k s' b'. ss_write_ba False 5 (demo_stream, demo_array) = (Inr (int k), (s', b')) \<and> ba_inv b' \<and>
     abs_store b' = ([10, 20], 1 + k) \<and> k \<le> 1 \<and> ss_sent s' = take k [20]"
  using socket_write_sends_array [OF demo_array_inv demo_stream_alive, of 5]
  by (force simp: INT_MAX_def demo_stream_def demo_array_def getReadSize_def contents_def)

end
