(* ===== verification/Std_Map.thy ===== *)
theory Std_Map
  imports Prelude
begin

text \<open>
  \<open>std::map\<close> and \<open>std::set\<close> over a comparator, as the sources use them: the list of the
  entries in iteration order.  Two keys are the same when neither is less than the other, so an
  assignment through an equivalent key keeps the spelling of the key already there.  The locale
  states the contract of the comparator (a strict weak order); the laws of the container are proved
  from it once.
\<close>

type_synonym ('k, 'v) std_map = "('k \<times> 'v) list"

fun map_find :: "('k \<Rightarrow> 'k \<Rightarrow> bool) \<Rightarrow> 'k \<Rightarrow> ('k, 'v) std_map \<Rightarrow> 'v option" where
  "map_find lt k [] = None"
| "map_find lt k ((k', v') # m) =
     (if lt k' k then map_find lt k m else if lt k k' then None else Some v')"

fun insert_or_assign :: "('k \<Rightarrow> 'k \<Rightarrow> bool) \<Rightarrow> 'k \<Rightarrow> 'v \<Rightarrow> ('k, 'v) std_map \<Rightarrow> ('k, 'v) std_map" where
  "insert_or_assign lt k v [] = [(k, v)]"
| "insert_or_assign lt k v ((k', v') # m) =
     (if lt k' k then (k', v') # insert_or_assign lt k v m
      else if lt k k' then (k, v) # (k', v') # m else (k', v) # m)"

definition try_emplace :: "('k \<Rightarrow> 'k \<Rightarrow> bool) \<Rightarrow> 'k \<Rightarrow> 'v \<Rightarrow> ('k, 'v) std_map \<Rightarrow> ('k, 'v) std_map" where
  "try_emplace lt k v m = (case map_find lt k m of None \<Rightarrow> insert_or_assign lt k v m | Some _ \<Rightarrow> m)"

fun map_erase :: "('k \<Rightarrow> 'k \<Rightarrow> bool) \<Rightarrow> 'k \<Rightarrow> ('k, 'v) std_map \<Rightarrow> ('k, 'v) std_map" where
  "map_erase lt k [] = []"
| "map_erase lt k ((k', v') # m) =
     (if lt k' k then (k', v') # map_erase lt k m else if lt k k' then (k', v') # m else m)"

definition map_inv :: "('k \<Rightarrow> 'k \<Rightarrow> bool) \<Rightarrow> ('k, 'v) std_map \<Rightarrow> bool" where
  "map_inv lt m \<longleftrightarrow> sorted_wrt (\<lambda>a b. lt (fst a) (fst b)) m"

lemma map_inv_Nil [simp]: "map_inv lt []"
  by (simp add: map_inv_def)

lemma map_inv_Cons [simp]:
  "map_inv lt (e # m) \<longleftrightarrow> (\<forall>e' \<in> set m. lt (fst e) (fst e')) \<and> map_inv lt m"
  by (simp add: map_inv_def)

locale strict_weak_order =
  fixes lt :: "'k \<Rightarrow> 'k \<Rightarrow> bool"
  assumes irrefl: "\<not> lt a a"
    and trans: "lt a b \<Longrightarrow> lt b c \<Longrightarrow> lt a c"
    and incomparable_trans: "\<not> lt a b \<Longrightarrow> \<not> lt b c \<Longrightarrow> \<not> lt a c"
begin

definition equiv :: "'k \<Rightarrow> 'k \<Rightarrow> bool" where
  "equiv a b \<longleftrightarrow> \<not> lt a b \<and> \<not> lt b a"

lemma asym: "lt a b \<Longrightarrow> \<not> lt b a"
  using irrefl trans by blast

lemma equiv_refl [simp]: "equiv a a"
  by (simp add: equiv_def irrefl)

lemma equiv_sym: "equiv a b \<Longrightarrow> equiv b a"
  by (simp add: equiv_def)

lemma equiv_trans: "equiv a b \<Longrightarrow> equiv b c \<Longrightarrow> equiv a c"
  unfolding equiv_def using incomparable_trans by blast

lemma equiv_lt_left: "equiv a b \<Longrightarrow> lt a c \<longleftrightarrow> lt b c"
  unfolding equiv_def using incomparable_trans by blast

lemma equiv_lt_right: "equiv a b \<Longrightarrow> lt c a \<longleftrightarrow> lt c b"
  unfolding equiv_def using incomparable_trans by blast

lemma insert_keys:
  "e \<in> set (insert_or_assign lt k v m) \<Longrightarrow> e = (k, v) \<or> (\<exists>e' \<in> set m. fst e' = fst e)"
  by (induction lt k v m rule: insert_or_assign.induct) (auto split: if_splits)

lemma insert_inv: "map_inv lt m \<Longrightarrow> map_inv lt (insert_or_assign lt k v m)"
proof (induction m rule: list.induct)
  case Nil
  then show ?case by simp
next
  case (Cons e m)
  obtain k' v' where e: "e = (k', v')" by (cases e)
  from Cons have IH: "map_inv lt (insert_or_assign lt k v m)" by simp
  show ?case
  proof (cases "lt k' k")
    case True
    have "lt k' (fst x)" if "x \<in> set (insert_or_assign lt k v m)" for x
      using insert_keys [OF that] Cons.prems True e by auto
    then show ?thesis using IH True e by simp
  next
    case False
    then show ?thesis using Cons.prems e by (auto intro: trans)
  qed
qed

lemma erase_subset: "set (map_erase lt k m) \<subseteq> set m"
  by (induction lt k m rule: map_erase.induct) auto

lemma erase_inv: "map_inv lt m \<Longrightarrow> map_inv lt (map_erase lt k m)"
proof (induction m)
  case Nil
  then show ?case by simp
next
  case (Cons e m)
  then show ?case using erase_subset [of k m] by (cases e) auto
qed

lemma try_emplace_inv: "map_inv lt m \<Longrightarrow> map_inv lt (try_emplace lt k v m)"
  by (simp add: try_emplace_def insert_inv split: option.split)

lemma find_below: "\<forall>e \<in> set m. lt k (fst e) \<Longrightarrow> map_find lt k m = None"
  by (cases m) (auto dest: asym)

lemma find_insert:
  "map_inv lt m \<Longrightarrow>
   map_find lt j (insert_or_assign lt k v m) = (if equiv j k then Some v else map_find lt j m)"
proof (induction m)
  case Nil
  show ?case by (auto simp: equiv_def)
next
  case (Cons e m)
  obtain k' v' where e: "e = (k', v')" by (cases e)
  show ?case
  proof (cases "equiv j k")
    case True
    then show ?thesis
      using Cons e equiv_lt_left [OF True] equiv_lt_right [OF True]
      by (auto simp: irrefl equiv_def dest: asym)
  next
    case False
    show ?thesis
    proof (cases "lt k' k")
      case True
      then show ?thesis using Cons e False by auto
    next
      case nk: False
      show ?thesis
      proof (cases "lt k k'")
        case True
        show ?thesis
        proof (cases "lt j k")
          case j: True
          then have "lt j k'" by (rule trans [OF _ True])
          then show ?thesis using True nk e False j by (simp add: asym)
        next
          case nj: False
          then have "lt k j" using False by (simp add: equiv_def)
          then show ?thesis using True nk e False by simp
        qed
      next
        case kk: False
        then have "equiv k k'" using nk by (simp add: equiv_def)
        then show ?thesis using nk kk e False equiv_lt_left [OF \<open>equiv k k'\<close>] equiv_lt_right [OF \<open>equiv k k'\<close>]
          by (auto simp: equiv_def)
      qed
    qed
  qed
qed

lemma find_erase:
  "map_inv lt m \<Longrightarrow> map_find lt j (map_erase lt k m) = (if equiv j k then None else map_find lt j m)"
proof (induction m)
  case Nil
  show ?case by simp
next
  case (Cons e m)
  obtain k' v' where e: "e = (k', v')" by (cases e)
  have below: "map_find lt x m = None" if "equiv x k'" for x
    using Cons.prems e equiv_lt_left [OF that] by (intro find_below) auto
  show ?case
  proof (cases "lt k' k")
    case True
    show ?thesis
    proof (cases "equiv j k")
      case j: True
      then have "lt k' j" using True equiv_lt_right [OF j] by simp
      then show ?thesis using Cons e True j by simp
    next
      case False
      then show ?thesis using Cons e True by auto
    qed
  next
    case nk: False
    show ?thesis
    proof (cases "lt k k'")
      case True
      have "map_find lt j (e # m) = None" if "equiv j k"
        using True equiv_lt_left [OF that] e asym by simp
      then show ?thesis using nk e True by simp
    next
      case kk: False
      then have k: "equiv k k'" using nk by (simp add: equiv_def)
      show ?thesis
      proof (cases "equiv j k")
        case True
        then have "map_find lt j m = None" using below equiv_trans k by blast
        then show ?thesis using nk kk e True by simp
      next
        case False
        then have nj: "lt k' j \<or> lt j k'" using k equiv_trans equiv_sym unfolding equiv_def by blast
        have "map_find lt j m = None" if "lt j k'"
          using Cons.prems e that by (intro find_below) (auto intro: trans)
        then show ?thesis using nk kk e False nj asym by auto
      qed
    qed
  qed
qed

lemma find_try_emplace:
  "map_inv lt m \<Longrightarrow>
   map_find lt j (try_emplace lt k v m) =
     (if equiv j k \<and> map_find lt k m = None then Some v else map_find lt j m)"
  by (auto simp: try_emplace_def find_insert split: option.split)

lemma find_equiv: "equiv j k \<Longrightarrow> map_find lt j m = map_find lt k m"
proof (induction m)
  case (Cons e m)
  then show ?case
    using equiv_lt_left [OF Cons.prems] equiv_lt_right [OF Cons.prems] by (cases e) simp
qed simp

lemma find_fold_assign:
  "map_inv lt m \<Longrightarrow> map_inv lt m0 \<Longrightarrow>
   map_find lt j (fold (\<lambda>(k, v). insert_or_assign lt k v) m m0) =
     (case map_find lt j m of Some v \<Rightarrow> Some v | None \<Rightarrow> map_find lt j m0)"
proof (induction m arbitrary: m0)
  case Nil
  then show ?case by simp
next
  case (Cons e m)
  obtain k v where e: "e = (k, v)" by (cases e)
  have inv: "map_inv lt (insert_or_assign lt k v m0)" using Cons.prems by (simp add: insert_inv)
  have below: "map_find lt j m = None" if "\<not> lt k j"
  proof (rule find_below, rule ballI)
    fix x assume "x \<in> set m"
    then have "lt k (fst x)" using Cons.prems(1) e by simp
    then show "lt j (fst x)" using incomparable_trans [of k j "fst x"] that by blast
  qed
  show ?case
  proof (cases "lt k j")
    case True
    then have "\<not> equiv j k" by (simp add: equiv_def)
    then show ?thesis using Cons inv e True by (simp add: find_insert split: option.split)
  next
    case False
    then show ?thesis using Cons inv e below
      by (auto simp: find_insert equiv_def split: option.split)
  qed
qed

lemma fold_assign_inv:
  "map_inv lt m0 \<Longrightarrow> map_inv lt (fold (\<lambda>(k, v). insert_or_assign lt k v) m m0)"
  by (induction m arbitrary: m0) (auto simp: insert_inv)

lemma find_filter:
  assumes resp: "\<And>a b. equiv a b \<Longrightarrow> P a = P b"
  shows "map_inv lt m \<Longrightarrow> map_find lt j (filter (\<lambda>(k, v). P k) m) = (if P j then map_find lt j m else None)"
proof (induction m)
  case Nil
  then show ?case by simp
next
  case (Cons e m)
  obtain k v where e: "e = (k, v)" by (cases e)
  have none: "map_find lt j m = None" if "\<not> lt k j"
  proof (rule find_below, rule ballI)
    fix x assume "x \<in> set m"
    then have "lt k (fst x)" using Cons.prems(1) e by simp
    then show "lt j (fst x)" using incomparable_trans [of k j "fst x"] that by blast
  qed
  have "P j = P k" if "\<not> lt k j" "\<not> lt j k"
    using resp [of j k] that by (simp add: equiv_def)
  then show ?case using Cons e none by auto
qed

lemma filter_inv: "map_inv lt m \<Longrightarrow> map_inv lt (filter P m)"
  by (induction m) auto

lemma insert_other_key:
  "\<not> equiv j k \<Longrightarrow> map_inv lt m \<Longrightarrow> map_find lt j (insert_or_assign lt k v m) = map_find lt j m"
  by (simp add: find_insert)

lemma erase_other_key:
  "\<not> equiv j k \<Longrightarrow> map_inv lt m \<Longrightarrow> map_find lt j (map_erase lt k m) = map_find lt j m"
  by (simp add: find_erase)

text \<open>Entry by entry: what a lookup finds, and where an insertion and an erasure act.\<close>

lemma find_None_iff: "map_inv lt m \<Longrightarrow> map_find lt k m = None \<longleftrightarrow> (\<forall>e \<in> set m. \<not> equiv (fst e) k)"
proof (induction m)
  case (Cons e m)
  obtain k' v' where e: "e = (k', v')" by (cases e)
  show ?case
  proof (cases "lt k k'")
    case True
    then have "\<forall>x \<in> set m. lt k (fst x)" using Cons.prems e trans by auto
    then have "\<forall>x \<in> set (e # m). \<not> equiv (fst x) k" using True e by (auto simp: equiv_def)
    moreover have "map_find lt k (e # m) = None" using True e by (simp add: asym)
    ultimately show ?thesis by blast
  next
    case False
    then show ?thesis using Cons e by (auto simp: equiv_def)
  qed
qed simp

lemma insert_split:
  "map_find lt k m = None \<Longrightarrow> \<exists>xs ys. m = xs @ ys \<and> insert_or_assign lt k v m = xs @ (k, v) # ys"
proof (induction m)
  case (Cons e m)
  obtain k' v' where e: "e = (k', v')" by (cases e)
  show ?case
  proof (cases "lt k' k")
    case True
    then obtain xs ys where "m = xs @ ys" "insert_or_assign lt k v m = xs @ (k, v) # ys"
      using Cons e by auto
    then show ?thesis using True e by (intro exI [of _ "e # xs"] exI [of _ ys]) simp
  next
    case False
    then have "lt k k'" using Cons.prems e by (simp split: if_splits)
    then show ?thesis using False e by (intro exI [of _ "[]"] exI [of _ "e # m"]) simp
  qed
qed simp

lemma emplace_split:
  "map_find lt k m = None \<Longrightarrow> \<exists>xs ys. m = xs @ ys \<and> try_emplace lt k v m = xs @ (k, v) # ys"
  using insert_split by (simp add: try_emplace_def)

lemma erase_set: "map_inv lt m \<Longrightarrow> set (map_erase lt k m) = {e \<in> set m. \<not> equiv (fst e) k}"
proof (induction m)
  case (Cons e m)
  obtain k' v' where e: "e = (k', v')" by (cases e)
  have above: "\<not> equiv (fst x) k" if "\<not> lt k' k" "x \<in> set m" for x
  proof -
    have "lt k' (fst x)" using Cons.prems e that(2) by simp
    then show ?thesis using that(1) equiv_lt_right [of "fst x" k k'] by blast
  qed
  show ?case
  proof (cases "lt k' k")
    case True
    then show ?thesis using Cons e by (auto simp: equiv_def)
  next
    case False
    have m: "{x \<in> set m. \<not> equiv (fst x) k} = set m" using above [OF False] by blast
    show ?thesis
    proof (cases "lt k k'")
      case True
      then have "\<not> equiv (fst e) k" using e by (simp add: equiv_def)
      then have "{x \<in> set (e # m). \<not> equiv (fst x) k} = insert e {x \<in> set m. \<not> equiv (fst x) k}" by auto
      then show ?thesis using True False e unfolding m by simp
    next
      case nk: False
      then have "equiv (fst e) k" using False e by (simp add: equiv_def)
      then have "{x \<in> set (e # m). \<not> equiv (fst x) k} = {x \<in> set m. \<not> equiv (fst x) k}" by auto
      then show ?thesis using nk False e unfolding m by simp
    qed
  qed
qed simp

end

text \<open>Only the comparator's values on the keys matter.\<close>

lemma map_inv_cong:
  "(\<And>a b. a \<in> fst ` set m \<Longrightarrow> b \<in> fst ` set m \<Longrightarrow> lt a b = lt' a b) \<Longrightarrow> map_inv lt m = map_inv lt' m"
proof -
  assume same: "\<And>a b. a \<in> fst ` set m \<Longrightarrow> b \<in> fst ` set m \<Longrightarrow> lt a b = lt' a b"
  show "map_inv lt m = map_inv lt' m"
    unfolding map_inv_def
  proof
    assume "sorted_wrt (\<lambda>a b. lt (fst a) (fst b)) m"
    then show "sorted_wrt (\<lambda>a b. lt' (fst a) (fst b)) m"
      by (rule sorted_wrt_mono_rel [rotated]) (metis same imageI)
  next
    assume "sorted_wrt (\<lambda>a b. lt' (fst a) (fst b)) m"
    then show "sorted_wrt (\<lambda>a b. lt (fst a) (fst b)) m"
      by (rule sorted_wrt_mono_rel [rotated]) (metis same imageI)
  qed
qed

text \<open>\<open>std::map::erase(find(key))\<close>, guarded by the test for \<open>end()\<close>.\<close>

definition erase_found :: "('k \<Rightarrow> 'k \<Rightarrow> bool) \<Rightarrow> 'k \<Rightarrow> ('k, 'v) std_map \<Rightarrow> ('k, 'v) std_map" where
  "erase_found lt k m = (case map_find lt k m of None \<Rightarrow> m | Some _ \<Rightarrow> map_erase lt k m)"

lemma erase_not_found: "map_find lt k m = None \<Longrightarrow> map_erase lt k m = m"
  by (induction lt k m rule: map_erase.induct) (auto split: if_splits)

lemma erase_found_erase: "erase_found lt k m = map_erase lt k m"
  by (simp add: erase_found_def erase_not_found split: option.split)

end
