(* ===== verification/Http_Types.thy ===== *)
theory Http_Types
  imports Std_Map
begin

text \<open>
  The vocabulary of the HTTP components: methods, status codes, the case-insensitive order of header
  names and the header map over it (include/droplet/http/http.h, src/http/http.cc), and the string
  helpers that http_request.cc, http_response.cc and http_parser.cc each declare in their anonymous
  namespaces with the same bodies.
\<close>

section \<open>Methods and status codes\<close>

datatype HttpMethod =
    DELETE
  | GET | HEAD | POST | PUT | CONNECT | OPTIONS
  | TRACE | COPY | LOCK | MKCOL | MOVE | PROPFIND
  | PROPPATCH | SEARCH | UNLOCK | BIND | REBIND | UNBIND
  | ACL | REPORT | MKACTIVITY | CHECKOUT | MERGE | MSEARCH
  | NOTIFY | SUBSCRIBE | UNSUBSCRIBE | PATCH | PURGE | MKCALENDAR
  | LINK | UNLINK | SOURCE | INVALID_METHOD

text \<open>The enumerators in order, and \<open>kMethodNames\<close>; the index of the one is the value of the
  other.\<close>

definition method_values :: "HttpMethod list" where
  "method_values =
   [ DELETE, GET, HEAD, POST, PUT, CONNECT, OPTIONS,
    TRACE, COPY, LOCK, MKCOL, MOVE, PROPFIND, PROPPATCH,
    SEARCH, UNLOCK, BIND, REBIND, UNBIND, ACL, REPORT,
    MKACTIVITY, CHECKOUT, MERGE, MSEARCH, NOTIFY, SUBSCRIBE, UNSUBSCRIBE,
    PATCH, PURGE, MKCALENDAR, LINK, UNLINK, SOURCE ]"

definition kMethodNames :: "string list" where
  "kMethodNames =
   [ ''DELETE'', ''GET'', ''HEAD'', ''POST'', ''PUT'', ''CONNECT'',
    ''OPTIONS'', ''TRACE'', ''COPY'', ''LOCK'', ''MKCOL'', ''MOVE'',
    ''PROPFIND'', ''PROPPATCH'', ''SEARCH'', ''UNLOCK'', ''BIND'', ''REBIND'',
    ''UNBIND'', ''ACL'', ''REPORT'', ''MKACTIVITY'', ''CHECKOUT'', ''MERGE'',
    ''M-SEARCH'', ''NOTIFY'', ''SUBSCRIBE'', ''UNSUBSCRIBE'', ''PATCH'', ''PURGE'',
    ''MKCALENDAR'', ''LINK'', ''UNLINK'', ''SOURCE'' ]"

definition StringToHttpMethod :: "string \<Rightarrow> HttpMethod" where
  "StringToHttpMethod method =
     (case map_of (zip kMethodNames method_values) method of
        None \<Rightarrow> INVALID_METHOD | Some m \<Rightarrow> m)"

definition CharsToHttpMethod :: "string option \<Rightarrow> HttpMethod" where
  "CharsToHttpMethod method = (case method of None \<Rightarrow> INVALID_METHOD | Some s \<Rightarrow> StringToHttpMethod s)"

definition HttpMethodToString :: "HttpMethod \<Rightarrow> string" where
  "HttpMethodToString method =
     (case map_of (zip method_values kMethodNames) method of
        None \<Rightarrow> ''INVALID_METHOD'' | Some s \<Rightarrow> s)"

text \<open>\<open>HttpStatus\<close> has 16 bits and is also made by a cast from a received number.\<close>

type_synonym HttpStatus = u16

abbreviation STATUS_OK :: HttpStatus where "STATUS_OK \<equiv> 200"
abbreviation STATUS_NO_CONTENT :: HttpStatus where "STATUS_NO_CONTENT \<equiv> 204"
abbreviation STATUS_FOUND :: HttpStatus where "STATUS_FOUND \<equiv> 302"
abbreviation STATUS_NOT_MODIFIED :: HttpStatus where "STATUS_NOT_MODIFIED \<equiv> 304"
abbreviation STATUS_NOT_FOUND :: HttpStatus where "STATUS_NOT_FOUND \<equiv> 404"
abbreviation STATUS_INTERNAL_SERVER_ERROR :: HttpStatus where "STATUS_INTERNAL_SERVER_ERROR \<equiv> 500"

definition kStatusNames :: "(HttpStatus \<times> string) list" where
  "kStatusNames =
   [ (100, ''Continue''), (101, ''Switching Protocols''), (102, ''Processing''),
    (103, ''Early Hints''), (200, ''OK''), (201, ''Created''),
    (202, ''Accepted''), (203, ''Non-Authoritative Information''), (204, ''No Content''),
    (205, ''Reset Content''), (206, ''Partial Content''), (207, ''Multi-Status''),
    (208, ''Already Reported''), (226, ''IM Used''), (300, ''Multiple Choices''),
    (301, ''Moved Permanently''), (302, ''Found''), (303, ''See Other''),
    (304, ''Not Modified''), (305, ''Use Proxy''), (307, ''Temporary Redirect''),
    (308, ''Permanent Redirect''), (400, ''Bad Request''), (401, ''Unauthorized''),
    (402, ''Payment Required''), (403, ''Forbidden''), (404, ''Not Found''),
    (405, ''Method Not Allowed''), (406, ''Not Acceptable''), (407, ''Proxy Authentication Required''),
    (408, ''Request Timeout''), (409, ''Conflict''), (410, ''Gone''),
    (411, ''Length Required''), (412, ''Precondition Failed''), (413, ''Payload Too Large''),
    (414, ''URI Too Long''), (415, ''Unsupported Media Type''), (416, ''Range Not Satisfiable''),
    (417, ''Expectation Failed''), (418, ''I'' @ [CHR 0x27] @ ''m a Teapot''), (421, ''Misdirected Request''),
    (422, ''Unprocessable Entity''), (423, ''Locked''), (424, ''Failed Dependency''),
    (425, ''Too Early''), (426, ''Upgrade Required''), (428, ''Precondition Required''),
    (429, ''Too Many Requests''), (431, ''Request Header Fields Too Large''), (451, ''Unavailable For Legal Reasons''),
    (500, ''Internal Server Error''), (501, ''Not Implemented''), (502, ''Bad Gateway''),
    (503, ''Service Unavailable''), (504, ''Gateway Timeout''), (505, ''HTTP Version Not Supported''),
    (506, ''Variant Also Negotiates''), (507, ''Insufficient Storage''), (508, ''Loop Detected''),
    (510, ''Not Extended''), (511, ''Network Authentication Required'') ]"

definition HttpStatusToString :: "HttpStatus \<Rightarrow> string" where
  "HttpStatusToString status =
     (case map_of kStatusNames status of None \<Rightarrow> ''Unknown'' | Some s \<Rightarrow> s)"

section \<open>Case-insensitive names\<close>

fun CaseInsensitiveLess :: "string \<Rightarrow> string \<Rightarrow> bool" where
  "CaseInsensitiveLess _ [] = False"
| "CaseInsensitiveLess [] (r # rs) = True"
| "CaseInsensitiveLess (l # ls) (r # rs) =
     (if code (ascii_lower l) < code (ascii_lower r) then True
      else if code (ascii_lower r) < code (ascii_lower l) then False
      else CaseInsensitiveLess ls rs)"

type_synonym HttpMap = "(string, string) std_map"

definition CaseInsensitiveEqual :: "string \<Rightarrow> string \<Rightarrow> bool" where
  "CaseInsensitiveEqual lhs rhs \<longleftrightarrow>
     length lhs = length rhs \<and>
     list_all (\<lambda>(left, right). ascii_lower left = ascii_lower right) (zip lhs rhs)"

lemma less_irrefl: "\<not> CaseInsensitiveLess a a"
  by (induction a) auto

lemma less_trans: "CaseInsensitiveLess a b \<Longrightarrow> CaseInsensitiveLess b c \<Longrightarrow> CaseInsensitiveLess a c"
proof (induction a b arbitrary: c rule: CaseInsensitiveLess.induct)
  case (2 r rs)
  then show ?case by (cases c) auto
next
  case (3 l ls r rs)
  then show ?case by (cases c) (auto split: if_splits)
qed simp

lemma less_incomparable_trans:
  "\<not> CaseInsensitiveLess a b \<Longrightarrow> \<not> CaseInsensitiveLess b c \<Longrightarrow> \<not> CaseInsensitiveLess a c"
proof (induction b c arbitrary: a rule: CaseInsensitiveLess.induct)
  case (3 l ls r rs)
  then show ?case by (cases a) (auto split: if_splits)
qed auto

text \<open>The comparator meets the contract of \<open>std::map\<close>.\<close>

interpretation ci: strict_weak_order CaseInsensitiveLess
  by unfold_locales (fact less_irrefl less_trans less_incomparable_trans)+

lemma less_lower: "CaseInsensitiveLess (map ascii_lower a) (map ascii_lower b) = CaseInsensitiveLess a b"
  by (induction a b rule: CaseInsensitiveLess.induct) auto

lemma equal_lower [case_fold]: "CaseInsensitiveEqual a b \<longleftrightarrow> map ascii_lower a = map ascii_lower b"
proof (cases "length a = length b")
  case True
  then show ?thesis unfolding CaseInsensitiveEqual_def by (induction rule: list_induct2) auto
next
  case False
  then show ?thesis by (auto simp: CaseInsensitiveEqual_def dest: map_eq_imp_length_eq)
qed

lemma equiv_equal: "ci.equiv a b \<longleftrightarrow> CaseInsensitiveEqual a b"
proof -
  have "ci.equiv a b \<longleftrightarrow> map ascii_lower a = map ascii_lower b"
    unfolding ci.equiv_def
  proof (induction a b rule: CaseInsensitiveLess.induct)
    case (1 a)
    then show ?case by (cases a) auto
  qed auto
  then show ?thesis by (simp add: equal_lower)
qed

lemma equal_refl [simp]: "CaseInsensitiveEqual a a"
  by (simp add: equal_lower)

lemma equal_sym: "CaseInsensitiveEqual a b = CaseInsensitiveEqual b a"
  by (auto simp: equal_lower)

abbreviation http_find :: "string \<Rightarrow> HttpMap \<Rightarrow> string option" where
  "http_find \<equiv> map_find CaseInsensitiveLess"

abbreviation http_assign :: "string \<Rightarrow> string \<Rightarrow> HttpMap \<Rightarrow> HttpMap" where
  "http_assign \<equiv> insert_or_assign CaseInsensitiveLess"

abbreviation http_emplace :: "string \<Rightarrow> string \<Rightarrow> HttpMap \<Rightarrow> HttpMap" where
  "http_emplace \<equiv> try_emplace CaseInsensitiveLess"

abbreviation http_erase :: "string \<Rightarrow> HttpMap \<Rightarrow> HttpMap" where
  "http_erase \<equiv> erase_found CaseInsensitiveLess"

abbreviation http_inv :: "HttpMap \<Rightarrow> bool" where
  "http_inv \<equiv> map_inv CaseInsensitiveLess"

lemma http_find_assign:
  "http_inv m \<Longrightarrow> http_find j (http_assign k v m) = (if CaseInsensitiveEqual j k then Some v else http_find j m)"
  by (simp add: ci.find_insert equiv_equal)

lemma http_find_erase:
  "http_inv m \<Longrightarrow> http_find j (http_erase k m) = (if CaseInsensitiveEqual j k then None else http_find j m)"
  by (simp add: ci.find_erase equiv_equal erase_found_erase)

lemma http_erase_inv: "http_inv m \<Longrightarrow> http_inv (http_erase k m)"
  by (simp add: ci.erase_inv erase_found_erase)

text \<open>\<open>CheckGetAs\<close>: for \<open>std::string\<close> the value itself; for another type the formatted
  extraction \<open>extract\<close>, which yields a value and the unread rest or fails, must leave only
  white space.\<close>

definition is_space :: "char \<Rightarrow> bool" where
  "is_space c \<longleftrightarrow> c = SP \<or> (9 \<le> code c \<and> code c \<le> 13)"

definition CheckGetAs_string :: "HttpMap \<Rightarrow> string \<Rightarrow> string \<Rightarrow> bool \<times> string" where
  "CheckGetAs_string values key default_value =
     (case http_find key values of None \<Rightarrow> (False, default_value) | Some v \<Rightarrow> (True, v))"

definition CheckGetAs :: "(string \<Rightarrow> ('a \<times> string) option) \<Rightarrow> HttpMap \<Rightarrow> string \<Rightarrow> 'a \<Rightarrow> bool \<times> 'a" where
  "CheckGetAs extract values key default_value =
     (case http_find key values of
        None \<Rightarrow> (False, default_value)
      | Some text \<Rightarrow>
          (case extract text of
             None \<Rightarrow> (False, default_value)
           | Some (converted, rest) \<Rightarrow>
               if dropWhile is_space rest \<noteq> [] then (False, default_value) else (True, converted)))"

section \<open>Helpers shared by the HTTP sources\<close>

definition is_ows :: "char \<Rightarrow> bool" where
  "is_ows c \<longleftrightarrow> c = SP \<or> c = TAB"

definition Trim :: "string \<Rightarrow> string" where
  "Trim v = rev (dropWhile is_ows (rev (dropWhile is_ows v)))"

text \<open>The parts between separators, as the \<open>find\<close> loops of the sources enumerate them.\<close>

fun split_on :: "char \<Rightarrow> string \<Rightarrow> string list" where
  "split_on sep [] = [[]]"
| "split_on sep (c # cs) =
     (if c = sep then [] # split_on sep cs
      else case split_on sep cs of p # ps \<Rightarrow> (c # p) # ps | [] \<Rightarrow> [[c]])"

definition HeaderContainsToken :: "string \<Rightarrow> string \<Rightarrow> bool" where
  "HeaderContainsToken header token \<longleftrightarrow>
     list_ex (\<lambda>item. CaseInsensitiveEqual (Trim item) token) (split_on CHR '','' header)"

lemma split_on_nonempty [simp]: "split_on sep s \<noteq> []"
  by (cases s) (auto split: list.splits)

lemma split_on_single: "sep \<notin> set s \<Longrightarrow> split_on sep s = [s]"
  by (induction s) auto

lemma Trim_trimmed:
  "s \<noteq> [] \<Longrightarrow> \<not> is_ows (hd s) \<Longrightarrow> \<not> is_ows (last s) \<Longrightarrow> Trim s = s"
proof -
  assume s: "s \<noteq> []" "\<not> is_ows (hd s)" "\<not> is_ows (last s)"
  then have "dropWhile is_ows s = s" by (cases s) auto
  moreover have "dropWhile is_ows (rev s) = rev s"
    using s by (cases "rev s") (auto simp: last_rev [symmetric] hd_rev)
  ultimately show ?thesis by (simp add: Trim_def)
qed

lemma Trim_Nil [simp]: "Trim [] = []"
  by (simp add: Trim_def)

section \<open>Method names\<close>

lemma method_names_distinct: "distinct kMethodNames"
  by (simp add: kMethodNames_def)

lemma method_round_trip: "m \<noteq> INVALID_METHOD \<Longrightarrow> StringToHttpMethod (HttpMethodToString m) = m"
  by (cases m) (simp_all add: StringToHttpMethod_def HttpMethodToString_def kMethodNames_def method_values_def)

end
