(* ===== verification/Http_Message.thy ===== *)
theory Http_Message
  imports Http_Types
begin

text \<open>
  \<open>HttpRequest\<close> and \<open>HttpResponse\<close> (include/droplet/http/http_request.h, http_response.h and
  src/http/http_request.cc, http_response.cc): the message records, the lazily parsed parameters and
  cookies with their invalidation, the connection semantics and the serialisation.  A \<open>const\<close>
  getter that fills a \<open>mutable\<close> cache returns the request with the cache filled.
\<close>

section \<open>Decoding key/value lists\<close>

definition HexValue :: "char \<Rightarrow> nat option" where
  "HexValue c =
     (if is_digit c then Some (code c - 48)
      else let lowered = code (ascii_lower c)
           in if 97 \<le> lowered \<and> lowered \<le> 102 then Some (lowered - 97 + 10) else None)"

fun UrlDecode :: "string \<Rightarrow> string" where
  "UrlDecode [] = []"
| "UrlDecode (c # cs) =
     (if c = CHR ''+'' then SP # UrlDecode cs
      else if c = CHR ''%'' then
        (case cs of
           h # l # rest \<Rightarrow>
             (case (HexValue h, HexValue l) of
                (Some high, Some low) \<Rightarrow> char_of (high * 16 + low) # UrlDecode rest
              | _ \<Rightarrow> c # UrlDecode cs)
         | _ \<Rightarrow> c # UrlDecode cs)
      else c # UrlDecode cs)"

definition parse_part :: "bool \<Rightarrow> string \<Rightarrow> HttpMap \<Rightarrow> HttpMap" where
  "parse_part trim_parts raw output =
     (let part = (if trim_parts then Trim raw else raw)
      in if part = [] then output
         else let equal = find_char CHR ''='' part;
                  key0 = (case equal of None \<Rightarrow> part | Some e \<Rightarrow> substr part 0 e);
                  value0 = (case equal of None \<Rightarrow> [] | Some e \<Rightarrow> drop (e + 1) part);
                  key = (if trim_parts then Trim key0 else key0);
                  val = (if trim_parts then Trim value0 else value0)
              in if key = [] then output else http_emplace (UrlDecode key) (UrlDecode val) output)"

definition ParseKeyValueList :: "string \<Rightarrow> char \<Rightarrow> HttpMap \<Rightarrow> bool \<Rightarrow> HttpMap" where
  "ParseKeyValueList input separator output trim_parts =
     fold (parse_part trim_parts) (split_on separator input) output"

definition ShouldSkipHeader :: "string \<Rightarrow> bool \<Rightarrow> bool \<Rightarrow> bool" where
  "ShouldSkipHeader name websocket has_body \<longleftrightarrow>
     (\<not> websocket \<and> CaseInsensitiveEqual name ''connection'') \<or>
     (has_body \<and> CaseInsensitiveEqual name ''content-length'')"

section \<open>Requests\<close>

record http_request =
  rq_method :: HttpMethod
  rq_version :: u8
  rq_close :: bool
  rq_websocket :: bool
  rq_path :: string
  rq_query :: string
  rq_fragment :: string
  rq_body :: string
  rq_headers :: HttpMap
  rq_params :: HttpMap
  rq_cookies :: HttpMap
  rq_params_initialized :: bool
  rq_cookies_initialized :: bool

definition HttpRequest :: "u8 \<Rightarrow> bool \<Rightarrow> http_request" where
  "HttpRequest version close =
     \<lparr> rq_method = GET, rq_version = version, rq_close = close, rq_websocket = False,
       rq_path = ''/'', rq_query = [], rq_fragment = [], rq_body = [], rq_headers = [],
       rq_params = [], rq_cookies = [], rq_params_initialized = False,
       rq_cookies_initialized = False \<rparr>"

definition rq_setQuery :: "string \<Rightarrow> http_request \<Rightarrow> http_request" where
  "rq_setQuery v r = r\<lparr> rq_query := v, rq_params := [], rq_params_initialized := False \<rparr>"

definition rq_setBody :: "string \<Rightarrow> http_request \<Rightarrow> http_request" where
  "rq_setBody v r = r\<lparr> rq_body := v, rq_params := [], rq_params_initialized := False \<rparr>"

definition rq_setHeaders :: "HttpMap \<Rightarrow> http_request \<Rightarrow> http_request" where
  "rq_setHeaders v r = r\<lparr> rq_headers := v, rq_params := [], rq_cookies := [],
     rq_params_initialized := False, rq_cookies_initialized := False \<rparr>"

definition rq_setParams :: "HttpMap \<Rightarrow> http_request \<Rightarrow> http_request" where
  "rq_setParams v r = r\<lparr> rq_params := v, rq_params_initialized := True \<rparr>"

definition rq_setCookies :: "HttpMap \<Rightarrow> http_request \<Rightarrow> http_request" where
  "rq_setCookies v r = r\<lparr> rq_cookies := v, rq_cookies_initialized := True \<rparr>"

definition rq_getHeader :: "string \<Rightarrow> string \<Rightarrow> http_request \<Rightarrow> string" where
  "rq_getHeader key default_value r =
     (case http_find key (rq_headers r) of None \<Rightarrow> default_value | Some v \<Rightarrow> v)"

definition rq_invalidate :: "string \<Rightarrow> http_request \<Rightarrow> http_request" where
  "rq_invalidate key r =
     (let r1 = (if CaseInsensitiveEqual key ''content-type''
                then r\<lparr> rq_params := [], rq_params_initialized := False \<rparr> else r)
      in if CaseInsensitiveEqual key ''cookie''
         then r1\<lparr> rq_cookies := [], rq_cookies_initialized := False \<rparr> else r1)"

definition rq_setHeader :: "string \<Rightarrow> string \<Rightarrow> http_request \<Rightarrow> http_request" where
  "rq_setHeader key v r =
     rq_invalidate key (r\<lparr> rq_headers := http_assign key v (rq_headers r) \<rparr>)"

definition rq_delHeader :: "string \<Rightarrow> http_request \<Rightarrow> http_request" where
  "rq_delHeader key r =
     rq_invalidate key (r\<lparr> rq_headers := http_erase key (rq_headers r) \<rparr>)"

definition initParams :: "http_request \<Rightarrow> http_request" where
  "initParams r =
     (if rq_params_initialized r then r
      else let params = ParseKeyValueList (rq_query r) CHR ''&'' [] False;
               header = rq_getHeader ''content-type'' [] r;
               content_type =
                 Trim (case find_char CHR '';'' header of None \<Rightarrow> header | Some i \<Rightarrow> substr header 0 i);
               params' = (if CaseInsensitiveEqual content_type ''application/x-www-form-urlencoded''
                          then ParseKeyValueList (rq_body r) CHR ''&'' params False else params)
           in r\<lparr> rq_params := params', rq_params_initialized := True \<rparr>)"

definition initCookies :: "http_request \<Rightarrow> http_request" where
  "initCookies r =
     (if rq_cookies_initialized r then r
      else r\<lparr> rq_cookies := ParseKeyValueList (rq_getHeader ''cookie'' [] r) CHR '';'' [] True,
              rq_cookies_initialized := True \<rparr>)"

definition getParams :: "http_request \<Rightarrow> HttpMap \<times> http_request" where
  "getParams r = (let r' = initParams r in (rq_params r', r'))"

definition getCookies :: "http_request \<Rightarrow> HttpMap \<times> http_request" where
  "getCookies r = (let r' = initCookies r in (rq_cookies r', r'))"

definition getParam :: "string \<Rightarrow> string \<Rightarrow> http_request \<Rightarrow> string \<times> http_request" where
  "getParam key default_value r =
     (let r' = initParams r
      in (case http_find key (rq_params r') of None \<Rightarrow> default_value | Some v \<Rightarrow> v, r'))"

definition getCookie :: "string \<Rightarrow> string \<Rightarrow> http_request \<Rightarrow> string \<times> http_request" where
  "getCookie key default_value r =
     (let r' = initCookies r
      in (case http_find key (rq_cookies r') of None \<Rightarrow> default_value | Some v \<Rightarrow> v, r'))"

definition setParam :: "string \<Rightarrow> string \<Rightarrow> http_request \<Rightarrow> http_request" where
  "setParam key v r =
     (let r' = initParams r in r'\<lparr> rq_params := http_assign key v (rq_params r') \<rparr>)"

definition rq_setCookie :: "string \<Rightarrow> string \<Rightarrow> http_request \<Rightarrow> http_request" where
  "rq_setCookie key v r =
     (let r' = initCookies r in r'\<lparr> rq_cookies := http_assign key v (rq_cookies r') \<rparr>)"

definition delParam :: "string \<Rightarrow> http_request \<Rightarrow> http_request" where
  "delParam key r = (let r' = initParams r in r'\<lparr> rq_params := http_erase key (rq_params r') \<rparr>)"

definition delCookie :: "string \<Rightarrow> http_request \<Rightarrow> http_request" where
  "delCookie key r = (let r' = initCookies r in r'\<lparr> rq_cookies := http_erase key (rq_cookies r') \<rparr>)"

text \<open>\<open>has...(key, value)\<close>: the flag, and what \<open>*value\<close> is set to when it is true.\<close>

definition rq_hasHeader :: "string \<Rightarrow> http_request \<Rightarrow> string option" where
  "rq_hasHeader key r = http_find key (rq_headers r)"

definition hasParam :: "string \<Rightarrow> http_request \<Rightarrow> string option \<times> http_request" where
  "hasParam key r = (let r' = initParams r in (http_find key (rq_params r'), r'))"

definition hasCookie :: "string \<Rightarrow> http_request \<Rightarrow> string option \<times> http_request" where
  "hasCookie key r = (let r' = initCookies r in (http_find key (rq_cookies r'), r'))"

definition connection_close :: "u8 \<Rightarrow> string \<Rightarrow> bool" where
  "connection_close version connection =
     (if HeaderContainsToken connection ''close'' then True
      else if HeaderContainsToken connection ''keep-alive'' then False
      else version \<le> 0x10)"

definition rq_initConnection :: "http_request \<Rightarrow> http_request" where
  "rq_initConnection r = r\<lparr> rq_close := connection_close (rq_version r) (rq_getHeader ''connection'' [] r) \<rparr>"

definition show_version :: "u8 \<Rightarrow> string" where
  "show_version v = ''HTTP/'' @ show_nat (unat (drop_bit 4 v)) @ ''.'' @ show_nat (unat (v AND 0x0F))"

definition header_line :: "string \<Rightarrow> string \<Rightarrow> string" where
  "header_line name v = name @ '': '' @ v @ CRLF"

definition rq_header_lines :: "http_request \<Rightarrow> string" where
  "rq_header_lines r =
     concat (map (\<lambda>(name, v). if ShouldSkipHeader name (rq_websocket r) (rq_body r \<noteq> []) then []
                              else header_line name v) (rq_headers r)) @
     (if \<not> rq_websocket r
      then header_line ''Connection'' (if rq_close r then ''close'' else ''keep-alive'') else []) @
     (if rq_body r \<noteq> [] then header_line ''Content-Length'' (show_nat (length (rq_body r))) else [])"

definition rq_dump :: "http_request \<Rightarrow> string" where
  "rq_dump r =
     HttpMethodToString (rq_method r) @ [SP] @ (if rq_path r = [] then ''/'' else rq_path r) @
     (if rq_query r \<noteq> [] then ''?'' @ rq_query r else []) @
     (if rq_fragment r \<noteq> [] then ''#'' @ rq_fragment r else []) @
     [SP] @ show_version (rq_version r) @ CRLF @
     rq_header_lines r @ CRLF @ rq_body r"

section \<open>Responses\<close>

record http_response =
  rs_status :: HttpStatus
  rs_version :: u8
  rs_close :: bool
  rs_websocket :: bool
  rs_body :: string
  rs_reason :: string
  rs_headers :: HttpMap
  rs_cookies :: "string list"

definition HttpResponse :: "u8 \<Rightarrow> bool \<Rightarrow> http_response" where
  "HttpResponse version close =
     \<lparr> rs_status = STATUS_OK, rs_version = version, rs_close = close, rs_websocket = False,
       rs_body = [], rs_reason = [], rs_headers = [], rs_cookies = [] \<rparr>"

definition createResponse :: "http_request \<Rightarrow> http_response" where
  "createResponse r = HttpResponse (rq_version r) (rq_close r)"

definition rs_getHeader :: "string \<Rightarrow> string \<Rightarrow> http_response \<Rightarrow> string" where
  "rs_getHeader key default_value r =
     (case http_find key (rs_headers r) of None \<Rightarrow> default_value | Some v \<Rightarrow> v)"

definition rs_setHeader :: "string \<Rightarrow> string \<Rightarrow> http_response \<Rightarrow> http_response" where
  "rs_setHeader key v r = r\<lparr> rs_headers := http_assign key v (rs_headers r) \<rparr>"

definition rs_delHeader :: "string \<Rightarrow> http_response \<Rightarrow> http_response" where
  "rs_delHeader key r = r\<lparr> rs_headers := http_erase key (rs_headers r) \<rparr>"

definition rs_hasHeader :: "string \<Rightarrow> http_response \<Rightarrow> string option" where
  "rs_hasHeader key r = http_find key (rs_headers r)"

definition setRedirect :: "string \<Rightarrow> http_response \<Rightarrow> http_response" where
  "setRedirect uri r = rs_setHeader ''Location'' uri (r\<lparr> rs_status := STATUS_FOUND \<rparr>)"

text \<open>\<open>gmtime_r\<close> and the \<open>strftime\<close> format \<open>%a, %d %b %Y %H:%M:%S GMT\<close>, for times from
  1970 on (the only ones \<open>setCookie\<close> formats).\<close>

definition is_leap :: "nat \<Rightarrow> bool" where
  "is_leap y \<longleftrightarrow> (y mod 4 = 0 \<and> y mod 100 \<noteq> 0) \<or> y mod 400 = 0"

definition year_days :: "nat \<Rightarrow> nat" where
  "year_days y = (if is_leap y then 366 else 365)"

definition month_days :: "nat \<Rightarrow> nat list" where
  "month_days y = [31, if is_leap y then 29 else 28, 31, 30, 31, 30, 31, 31, 30, 31, 30, 31]"

function year_of :: "nat \<Rightarrow> nat \<Rightarrow> nat \<times> nat" where
  "year_of y d = (if d < year_days y then (y, d) else year_of (y + 1) (d - year_days y))"
  by auto
termination by (relation "measure snd") (auto simp: year_days_def)

declare year_of.simps [simp del]

fun month_of :: "nat list \<Rightarrow> nat \<Rightarrow> nat \<Rightarrow> nat \<times> nat" where
  "month_of [] m d = (m, d)"
| "month_of (n # ns) m d = (if d < n then (m, d) else month_of ns (m + 1) (d - n))"

definition day_names :: "string list" where
  "day_names = [''Sun'', ''Mon'', ''Tue'', ''Wed'', ''Thu'', ''Fri'', ''Sat'']"

definition month_names :: "string list" where
  "month_names = [''Jan'', ''Feb'', ''Mar'', ''Apr'', ''May'', ''Jun'',
                  ''Jul'', ''Aug'', ''Sep'', ''Oct'', ''Nov'', ''Dec'']"

definition two_digits :: "nat \<Rightarrow> string" where
  "two_digits n = [digit_char (n div 10 mod 10), digit_char (n mod 10)]"

definition FormatHttpDate :: "nat \<Rightarrow> string" where
  "FormatHttpDate t =
     (let days = t div 86400;
          secs = t mod 86400;
          (y, yday) = year_of 1970 days;
          (m, d) = month_of (month_days y) 0 yday
      in day_names ! ((days + 4) mod 7) @ '', '' @ two_digits (d + 1) @ '' '' @ month_names ! m @
         '' '' @ show_nat y @ '' '' @ two_digits (secs div 3600) @ '':'' @
         two_digits (secs div 60 mod 60) @ '':'' @ two_digits (secs mod 60) @ '' GMT'')"

definition rs_setCookie ::
  "string \<Rightarrow> string \<Rightarrow> int \<Rightarrow> string \<Rightarrow> string \<Rightarrow> bool \<Rightarrow> bool \<Rightarrow> string \<Rightarrow> http_response \<Rightarrow> http_response" where
  "rs_setCookie key v expires path domain secure http_only same_site r =
     r\<lparr> rs_cookies := rs_cookies r @
        [key @ ''='' @ v @
         (if expires > 0 then ''; Expires='' @ FormatHttpDate (nat expires) else []) @
         (if path \<noteq> [] then ''; Path='' @ path else []) @
         (if domain \<noteq> [] then ''; Domain='' @ domain else []) @
         (if secure then ''; Secure'' else []) @
         (if http_only then ''; HttpOnly'' else []) @
         (if same_site \<noteq> [] then ''; SameSite='' @ same_site else [])] \<rparr>"

definition addCookie :: "string \<Rightarrow> http_response \<Rightarrow> http_response" where
  "addCookie v r = r\<lparr> rs_cookies := rs_cookies r @ [v] \<rparr>"

definition rs_initConnection :: "http_response \<Rightarrow> http_response" where
  "rs_initConnection r = r\<lparr> rs_close := connection_close (rs_version r) (rs_getHeader ''connection'' [] r) \<rparr>"

definition ResponseAllowsBody :: "HttpStatus \<Rightarrow> bool" where
  "ResponseAllowsBody status \<longleftrightarrow>
     \<not> (status \<ge> 100 \<and> status < 200) \<and> status \<noteq> STATUS_NO_CONTENT \<and> status \<noteq> STATUS_NOT_MODIFIED"

definition rs_header_lines :: "http_response \<Rightarrow> string" where
  "rs_header_lines r =
     concat (map (\<lambda>(name, v).
        if (\<not> rs_websocket r \<and> CaseInsensitiveEqual name ''connection'') \<or>
           (\<not> rs_websocket r \<and> CaseInsensitiveEqual name ''content-length'')
        then [] else header_line name v) (rs_headers r)) @
     concat (map (header_line ''Set-Cookie'') (rs_cookies r)) @
     (if \<not> rs_websocket r
      then header_line ''Connection'' (if rs_close r then ''close'' else ''keep-alive'') @
           (if ResponseAllowsBody (rs_status r)
            then header_line ''Content-Length'' (show_nat (length (rs_body r))) else [])
      else [])"

definition rs_dump :: "http_response \<Rightarrow> string" where
  "rs_dump r =
     show_version (rs_version r) @ [SP] @ show_nat (unat (rs_status r)) @ [SP] @
     (if rs_reason r = [] then HttpStatusToString (rs_status r) else rs_reason r) @ CRLF @
     rs_header_lines r @ CRLF @
     (if ResponseAllowsBody (rs_status r) then rs_body r else [])"

section \<open>What the parameter and cookie maps mean\<close>

text \<open>The decoded pairs of a list, in order, as a list of key and value.\<close>

definition part_pairs :: "bool \<Rightarrow> string \<Rightarrow> (string \<times> string) list" where
  "part_pairs trim_parts raw =
     (let part = (if trim_parts then Trim raw else raw);
          key0 = takeWhile (\<lambda>c. c \<noteq> CHR ''='') part;
          val0 = drop 1 (dropWhile (\<lambda>c. c \<noteq> CHR ''='') part);
          key = (if trim_parts then Trim key0 else key0);
          val = (if trim_parts then Trim val0 else val0)
      in if key = [] then [] else [(UrlDecode key, UrlDecode val)])"

definition kv_pairs :: "char \<Rightarrow> bool \<Rightarrow> string \<Rightarrow> (string \<times> string) list" where
  "kv_pairs separator trim_parts input = concat (map (part_pairs trim_parts) (split_on separator input))"

definition first_value :: "string \<Rightarrow> (string \<times> string) list \<Rightarrow> string option" where
  "first_value key ps = map_option snd (find (\<lambda>kv. CaseInsensitiveEqual key (fst kv)) ps)"

definition is_form :: "http_request \<Rightarrow> bool" where
  "is_form r \<longleftrightarrow>
     CaseInsensitiveEqual (Trim (takeWhile (\<lambda>c. c \<noteq> CHR '';'') (rq_getHeader ''content-type'' [] r)))
       ''application/x-www-form-urlencoded''"

definition request_pairs :: "http_request \<Rightarrow> (string \<times> string) list" where
  "request_pairs r =
     kv_pairs CHR ''&'' False (rq_query r) @ (if is_form r then kv_pairs CHR ''&'' False (rq_body r) else [])"

definition cookie_pairs :: "http_request \<Rightarrow> (string \<times> string) list" where
  "cookie_pairs r = kv_pairs CHR '';'' True (rq_getHeader ''cookie'' [] r)"

lemma find_char_takeWhile:
  "(case find_char x s of None \<Rightarrow> s | Some i \<Rightarrow> substr s 0 i) = takeWhile (\<lambda>c. c \<noteq> x) s"
  by (induction s) (auto simp: substr_def split: option.splits)

lemma find_char_dropWhile:
  "(case find_char x s of None \<Rightarrow> [] | Some i \<Rightarrow> drop (i + 1) s) = drop 1 (dropWhile (\<lambda>c. c \<noteq> x) s)"
  by (induction s) (auto split: option.splits)

lemma parse_part_pairs:
  "parse_part trim_parts raw output = fold (\<lambda>(k, v). http_emplace k v) (part_pairs trim_parts raw) output"
  unfolding parse_part_def part_pairs_def Let_def
  unfolding find_char_takeWhile find_char_dropWhile
  by auto

lemma ParseKeyValueList_pairs:
  "ParseKeyValueList input separator output trim_parts =
     fold (\<lambda>(k, v). http_emplace k v) (kv_pairs separator trim_parts input) output"
proof -
  have "fold (parse_part trim_parts) parts out =
      fold (\<lambda>(k, v). http_emplace k v) (concat (map (part_pairs trim_parts) parts)) out" for parts out
    by (induction parts arbitrary: out) (simp_all add: parse_part_pairs)
  then show ?thesis by (simp add: ParseKeyValueList_def kv_pairs_def)
qed

lemma fold_emplace_inv:
  "http_inv m \<Longrightarrow> http_inv (fold (\<lambda>(k, v). http_emplace k v) ps m)"
  by (induction ps arbitrary: m) (auto simp: ci.try_emplace_inv)

lemma fold_emplace_find:
  "http_inv m \<Longrightarrow> http_find key (fold (\<lambda>(k, v). http_emplace k v) ps m) =
     (case http_find key m of Some v \<Rightarrow> Some v | None \<Rightarrow> first_value key ps)"
proof (induction ps arbitrary: m)
  case Nil
  then show ?case by (simp add: first_value_def split: option.split)
next
  case (Cons kv ps)
  obtain k v where kv: "kv = (k, v)" by (cases kv)
  have same: "http_find key m = http_find k m" if "CaseInsensitiveEqual key k"
    using ci.find_equiv [of key k m] that by (simp add: equiv_equal)
  show ?case
    using Cons.IH [OF ci.try_emplace_inv [OF Cons.prems], of k v] same kv Cons.prems
    by (auto simp: ci.find_try_emplace equiv_equal first_value_def split: option.split)
qed

section \<open>Cache coherence\<close>

text \<open>A filled cache holds what the fields it was parsed from still say.\<close>

definition params_of :: "http_request \<Rightarrow> HttpMap" where
  "params_of r = rq_params (initParams (r\<lparr> rq_params_initialized := False \<rparr>))"

definition cookies_of :: "http_request \<Rightarrow> HttpMap" where
  "cookies_of r = rq_cookies (initCookies (r\<lparr> rq_cookies_initialized := False \<rparr>))"

definition caches_ok :: "http_request \<Rightarrow> bool" where
  "caches_ok r \<longleftrightarrow> http_inv (rq_headers r) \<and>
     (rq_params_initialized r \<longrightarrow> rq_params r = params_of r) \<and>
     (rq_cookies_initialized r \<longrightarrow> rq_cookies r = cookies_of r)"

lemma params_of_eq:
  "params_of r = fold (\<lambda>(k, v). http_emplace k v) (request_pairs r) []"
  unfolding params_of_def initParams_def Let_def find_char_takeWhile
  by (simp add: is_form_def request_pairs_def ParseKeyValueList_pairs rq_getHeader_def)

lemma cookies_of_eq: "cookies_of r = fold (\<lambda>(k, v). http_emplace k v) (cookie_pairs r) []"
  unfolding cookies_of_def initCookies_def
  by (simp add: cookie_pairs_def ParseKeyValueList_pairs rq_getHeader_def)

lemma params_of_find: "http_find key (params_of r) = first_value key (request_pairs r)"
  by (simp add: params_of_eq fold_emplace_find)

lemma cookies_of_find: "http_find key (cookies_of r) = first_value key (cookie_pairs r)"
  by (simp add: cookies_of_eq fold_emplace_find)

lemma params_of_cong:
  "rq_query r = rq_query s \<Longrightarrow> rq_body r = rq_body s \<Longrightarrow>
   rq_getHeader ''content-type'' [] r = rq_getHeader ''content-type'' [] s \<Longrightarrow> params_of r = params_of s"
  by (simp add: params_of_eq request_pairs_def is_form_def)

lemma cookies_of_cong:
  "rq_getHeader ''cookie'' [] r = rq_getHeader ''cookie'' [] s \<Longrightarrow> cookies_of r = cookies_of s"
  by (simp add: cookies_of_eq cookie_pairs_def)

lemma initParams_value: "caches_ok r \<Longrightarrow> rq_params (initParams r) = params_of r"
  by (cases "rq_params_initialized r") (auto simp: caches_ok_def initParams_def params_of_def Let_def rq_getHeader_def)

lemma initCookies_value: "caches_ok r \<Longrightarrow> rq_cookies (initCookies r) = cookies_of r"
  by (cases "rq_cookies_initialized r") (auto simp: caches_ok_def initCookies_def cookies_of_def rq_getHeader_def)

lemma initParams_fields:
  "rq_query (initParams r) = rq_query r" "rq_body (initParams r) = rq_body r"
  "rq_headers (initParams r) = rq_headers r" "rq_cookies (initParams r) = rq_cookies r"
  "rq_cookies_initialized (initParams r) = rq_cookies_initialized r"
  by (simp_all add: initParams_def Let_def)

lemma initCookies_fields:
  "rq_query (initCookies r) = rq_query r" "rq_body (initCookies r) = rq_body r"
  "rq_headers (initCookies r) = rq_headers r" "rq_params (initCookies r) = rq_params r"
  "rq_params_initialized (initCookies r) = rq_params_initialized r"
  by (simp_all add: initCookies_def)

lemma getHeader_cong: "rq_headers r = rq_headers s \<Longrightarrow> rq_getHeader k d r = rq_getHeader k d s"
  by (simp add: rq_getHeader_def)

lemma initParams_ok: "caches_ok r \<Longrightarrow> caches_ok (initParams r)"
  using initParams_value [of r] params_of_cong [of "initParams r" r] cookies_of_cong [of "initParams r" r]
    getHeader_cong [of "initParams r" r]
  by (simp add: caches_ok_def initParams_fields)

lemma initCookies_ok: "caches_ok r \<Longrightarrow> caches_ok (initCookies r)"
  using initCookies_value [of r] params_of_cong [of "initCookies r" r] cookies_of_cong [of "initCookies r" r]
    getHeader_cong [of "initCookies r" r]
  by (simp add: caches_ok_def initCookies_fields)

lemma HttpRequest_ok: "caches_ok (HttpRequest version close)"
  by (simp add: caches_ok_def HttpRequest_def)

lemma setters_ok:
  assumes "caches_ok r"
  shows "caches_ok (rq_setQuery v r)" "caches_ok (rq_setBody v r)"
    "http_inv m \<Longrightarrow> caches_ok (rq_setHeaders m r)"
  using assms
    cookies_of_cong [of "r\<lparr> rq_query := v, rq_params := [], rq_params_initialized := False \<rparr>" r]
    cookies_of_cong [of "r\<lparr> rq_body := v, rq_params := [], rq_params_initialized := False \<rparr>" r]
  by (simp_all add: caches_ok_def rq_setQuery_def rq_setBody_def rq_setHeaders_def rq_getHeader_def)

lemma plain_setters_ok:
  assumes "caches_ok r"
  shows "caches_ok (r\<lparr> rq_method := m \<rparr>)" "caches_ok (r\<lparr> rq_version := v \<rparr>)"
    "caches_ok (r\<lparr> rq_path := p \<rparr>)" "caches_ok (r\<lparr> rq_fragment := p \<rparr>)"
    "caches_ok (r\<lparr> rq_close := c \<rparr>)" "caches_ok (r\<lparr> rq_websocket := c \<rparr>)"
  using assms
  by (simp_all add: caches_ok_def params_of_eq cookies_of_eq request_pairs_def cookie_pairs_def is_form_def
      rq_getHeader_def)

lemma header_change_ok:
  assumes ok: "caches_ok r" and inv: "http_inv h"
    and other: "\<And>j. \<not> CaseInsensitiveEqual j key \<Longrightarrow> http_find j h = http_find j (rq_headers r)"
  shows "caches_ok (rq_invalidate key (r\<lparr> rq_headers := h \<rparr>))"
proof -
  let ?s = "rq_invalidate key (r\<lparr> rq_headers := h \<rparr>)"
  have f: "rq_headers ?s = h" "rq_query ?s = rq_query r" "rq_body ?s = rq_body r"
    by (simp_all add: rq_invalidate_def Let_def)
  have get: "rq_getHeader j d ?s = rq_getHeader j d r" if "\<not> CaseInsensitiveEqual key j" for j d
    using other [of j] that by (simp add: rq_getHeader_def f equal_sym [of j])
  have "rq_params ?s = params_of ?s" if i: "rq_params_initialized ?s"
  proof -
    have n: "\<not> CaseInsensitiveEqual key ''content-type''" and "rq_params ?s = rq_params r"
      "rq_params_initialized r"
      using i by (auto simp: rq_invalidate_def Let_def split: if_splits)
    then show ?thesis using ok params_of_cong [of ?s r] get [OF n] f by (simp add: caches_ok_def)
  qed
  moreover have "rq_cookies ?s = cookies_of ?s" if i: "rq_cookies_initialized ?s"
  proof -
    have n: "\<not> CaseInsensitiveEqual key ''cookie''" and "rq_cookies ?s = rq_cookies r"
      "rq_cookies_initialized r"
      using i by (auto simp: rq_invalidate_def Let_def split: if_splits)
    then show ?thesis using ok cookies_of_cong [of ?s r] get [OF n] by (simp add: caches_ok_def)
  qed
  ultimately show ?thesis using inv f by (simp add: caches_ok_def)
qed

lemma setHeader_ok: "caches_ok r \<Longrightarrow> caches_ok (rq_setHeader key v r)"
  unfolding rq_setHeader_def
  by (rule header_change_ok) (auto simp: caches_ok_def ci.insert_inv http_find_assign)

lemma delHeader_ok: "caches_ok r \<Longrightarrow> caches_ok (rq_delHeader key r)"
  unfolding rq_delHeader_def
  by (rule header_change_ok) (auto simp: caches_ok_def http_erase_inv http_find_erase)

text \<open>The requests built by any sequence of setters and getters, the direct writes to the two
  cached maps apart.\<close>

inductive request_built :: "http_request \<Rightarrow> bool" where
  fresh: "request_built (HttpRequest version close)"
| set_method: "request_built r \<Longrightarrow> request_built (r\<lparr> rq_method := m \<rparr>)"
| set_version: "request_built r \<Longrightarrow> request_built (r\<lparr> rq_version := v \<rparr>)"
| set_path: "request_built r \<Longrightarrow> request_built (r\<lparr> rq_path := p \<rparr>)"
| set_fragment: "request_built r \<Longrightarrow> request_built (r\<lparr> rq_fragment := f \<rparr>)"
| set_close: "request_built r \<Longrightarrow> request_built (r\<lparr> rq_close := c \<rparr>)"
| set_websocket: "request_built r \<Longrightarrow> request_built (r\<lparr> rq_websocket := c \<rparr>)"
| init_connection: "request_built r \<Longrightarrow> request_built (rq_initConnection r)"
| set_query: "request_built r \<Longrightarrow> request_built (rq_setQuery q r)"
| set_body: "request_built r \<Longrightarrow> request_built (rq_setBody b r)"
| set_header: "request_built r \<Longrightarrow> request_built (rq_setHeader k h r)"
| del_header: "request_built r \<Longrightarrow> request_built (rq_delHeader k r)"
| set_headers: "request_built r \<Longrightarrow> http_inv hs \<Longrightarrow> request_built (rq_setHeaders hs r)"
| get_params: "request_built r \<Longrightarrow> request_built (snd (getParams r))"
| get_cookies: "request_built r \<Longrightarrow> request_built (snd (getCookies r))"

lemma built_ok: "request_built r \<Longrightarrow> caches_ok r"
  by (induction rule: request_built.induct)
    (simp_all add: HttpRequest_ok plain_setters_ok setters_ok setHeader_ok delHeader_ok initParams_ok
      initCookies_ok getParams_def getCookies_def Let_def rq_initConnection_def)

section \<open>Properties\<close>

text \<open>Lazily parsed parameters never go stale: after any sequence of setters and getters,
  \<open>getParam\<close> returns the first value the current query string, then the current form body, gives
  the key (compared without case), and \<open>getCookie\<close> the first value in the current Cookie
  header; whatever was cached before an intervening change is not seen.\<close>

theorem params_never_stale:
  assumes "request_built r"
  shows "fst (getParam key d r) = (case first_value key (request_pairs r) of None \<Rightarrow> d | Some v \<Rightarrow> v) \<and>
     fst (getCookie key d r) = (case first_value key (cookie_pairs r) of None \<Rightarrow> d | Some v \<Rightarrow> v)"
  using built_ok [OF assms]
  by (simp add: getParam_def getCookie_def Let_def initParams_value initCookies_value params_of_find
      cookies_of_find)

definition demo_request :: http_request where
  "demo_request = rq_setQuery ''a=2&A=3'' (snd (getParams (rq_setQuery ''a=1'' (HttpRequest 0x11 True))))"

lemma demo_request_built: "request_built demo_request"
  unfolding demo_request_def by (intro request_built.intros)

lemma demo_request_pairs: "first_value ''A'' (request_pairs demo_request) = Some ''2''"
  by code_simp

theorem params_never_stale_witness: "fst (getParam ''A'' [] demo_request) = ''2''"
  using params_never_stale [OF demo_request_built, of "''A''" "[]"] by (simp add: demo_request_pairs)

end
