(* ===== verification/Http_Parser.thy ===== *)
theory Http_Parser
  imports Http_Message
begin

text \<open>
  \<open>HttpRequestParser\<close> (include/droplet/http/http_parser.h, src/http/http_parser.cc): the
  positions, searches, guards and error messages of \<open>parse\<close>, and the object around it.
  \<open>parse\<close> sets its members once, at the end or through \<open>setError\<close>, so it is a function of the
  input to an outcome that the object then records.  The lemmas show the outcome stable under more
  input, bounded, and inverse to the serialisation of a request.
\<close>

section \<open>Character classes and numbers\<close>

datatype HttpParseError =
    E_NONE
  | E_INVALID_METHOD | E_INVALID_REQUEST_TARGET | E_INVALID_VERSION | E_INVALID_STATUS
  | E_INVALID_HEADER | E_INVALID_CONTENT_LENGTH | E_INVALID_CHUNK_SIZE
  | E_UNSUPPORTED_TRANSFER_ENCODING | E_HEADER_TOO_LARGE | E_BODY_TOO_LARGE

definition HttpParseErrorToString :: "HttpParseError \<Rightarrow> string" where
  "HttpParseErrorToString e =
     (case e of
        E_NONE \<Rightarrow> ''none''
      | E_INVALID_METHOD \<Rightarrow> ''invalid method''
      | E_INVALID_REQUEST_TARGET \<Rightarrow> ''invalid request target''
      | E_INVALID_VERSION \<Rightarrow> ''invalid HTTP version''
      | E_INVALID_STATUS \<Rightarrow> ''invalid HTTP status''
      | E_INVALID_HEADER \<Rightarrow> ''invalid header''
      | E_INVALID_CONTENT_LENGTH \<Rightarrow> ''invalid Content-Length''
      | E_INVALID_CHUNK_SIZE \<Rightarrow> ''invalid chunk size''
      | E_UNSUPPORTED_TRANSFER_ENCODING \<Rightarrow> ''unsupported Transfer-Encoding''
      | E_HEADER_TOO_LARGE \<Rightarrow> ''headers too large''
      | E_BODY_TOO_LARGE \<Rightarrow> ''body too large'')"

definition kMaxHeaderSize :: nat where "kMaxHeaderSize = 64 * 1024"
definition kMaxBodySize :: nat where "kMaxBodySize = 64 * 1024 * 1024"
definition kDefaultBufferSize :: nat where "kDefaultBufferSize = 4 * 1024"

definition separator_codes :: "nat list" where
  "separator_codes = [40, 41, 60, 62, 64, 44, 59, 58, 92, 34, 47, 91, 93, 63, 61, 123, 125]"

definition IsTokenCharacter :: "char \<Rightarrow> bool" where
  "IsTokenCharacter c \<longleftrightarrow> \<not> (code c \<le> 32 \<or> code c \<ge> 127) \<and> \<not> List.member separator_codes (code c)"

definition IsValidHeaderName :: "string \<Rightarrow> bool" where
  "IsValidHeaderName name \<longleftrightarrow> name \<noteq> [] \<and> list_all IsTokenCharacter name"

definition IsValidHeaderValue :: "string \<Rightarrow> bool" where
  "IsValidHeaderValue v \<longleftrightarrow> list_all (\<lambda>c. \<not> ((code c < 32 \<and> c \<noteq> TAB) \<or> code c = 127)) v"

definition ParseContentLength :: "string \<Rightarrow> nat option" where
  "ParseContentLength text =
     (let v = Trim text
      in if v = [] then None
         else case from_chars 10 (2 ^ 64 - 1) v of
           Some (result, []) \<Rightarrow> Some result
         | _ \<Rightarrow> None)"

section \<open>Request line\<close>

definition bad_target_char :: "char \<Rightarrow> bool" where
  "bad_target_char c \<longleftrightarrow> code c \<le> 32 \<or> code c = 127"

type_synonym parse_error = "HttpParseError \<times> string"

definition split_target :: "string \<Rightarrow> http_request \<Rightarrow> http_request" where
  "split_target target request0 =
     (let (request, without_fragment) =
        (case find_char CHR ''#'' target of
           Some fragment_position \<Rightarrow>
             (request0\<lparr> rq_fragment := drop (fragment_position + 1) target \<rparr>,
              substr target 0 fragment_position)
         | None \<Rightarrow> (request0, target))
      in case find_char CHR ''?'' without_fragment of
           Some query_position \<Rightarrow>
             rq_setQuery (drop (query_position + 1) without_fragment)
               (request\<lparr> rq_path := substr without_fragment 0 query_position \<rparr>)
         | None \<Rightarrow> request\<lparr> rq_path := without_fragment \<rparr>)"

definition request_line_error :: parse_error where
  "request_line_error =
     (E_INVALID_REQUEST_TARGET, ''HTTP request line must contain method, target and version'')"

definition parse_request_line :: "string \<Rightarrow> parse_error + http_request" where
  "parse_request_line request_line =
     (case find_char CHR '' '' request_line of
        None \<Rightarrow> Inl request_line_error
      | Some method_end \<Rightarrow>
          (case find_char_from CHR '' '' request_line (method_end + 1) of
             None \<Rightarrow> Inl request_line_error
           | Some target_end \<Rightarrow>
               if method_end = 0 \<or> target_end = method_end + 1 \<or>
                  find_char_from CHR '' '' request_line (target_end + 1) \<noteq> None
               then Inl request_line_error
               else
                 let method_text = substr request_line 0 method_end;
                     method = StringToHttpMethod method_text;
                     target = substr request_line (method_end + 1) (target_end - method_end - 1);
                     version = drop (target_end + 1) request_line
                 in if method = INVALID_METHOD
                    then Inl (E_INVALID_METHOD, ''unsupported HTTP method: '' @ method_text)
                    else if list_ex bad_target_char target
                    then Inl (E_INVALID_REQUEST_TARGET, ''HTTP request target contains an invalid character'')
                    else if version \<noteq> ''HTTP/1.1'' \<and> version \<noteq> ''HTTP/1.0''
                    then Inl (E_INVALID_VERSION, ''only HTTP/1.0 and HTTP/1.1 requests are supported'')
                    else
                      let encoded_version = (if version = ''HTTP/1.1'' then 0x11 else 0x10 :: u8);
                          request0 = (HttpRequest encoded_version (encoded_version \<le> 0x10))
                                       \<lparr> rq_method := method \<rparr>;
                          request = split_target target request0
                      in if rq_path request = []
                         then Inl (E_INVALID_REQUEST_TARGET, ''HTTP request target has an empty path'')
                         else Inr request))"

section \<open>Header lines\<close>

text \<open>One header line to its name and trimmed value; the two messages are the caller's.\<close>

definition header_field :: "string \<Rightarrow> string \<Rightarrow> string \<Rightarrow> parse_error + (string \<times> string)" where
  "header_field colon_message invalid_message line =
     (case find_char CHR '':'' line of
        None \<Rightarrow> Inl (E_INVALID_HEADER, colon_message)
      | Some colon \<Rightarrow>
          let name = substr line 0 colon;
              v = Trim (drop (colon + 1) line)
          in if \<not> IsValidHeaderName name \<or> \<not> IsValidHeaderValue v
             then Inl (E_INVALID_HEADER, invalid_message)
             else Inr (name, v))"

definition missing_colon :: "string \<Rightarrow> string" where
  "missing_colon what = what @ '' is missing '' @ [CHR 0x27, CHR '':'', CHR 0x27]"

definition content_length_error :: parse_error where
  "content_length_error =
     (E_INVALID_CONTENT_LENGTH, ''Content-Length must be one unsigned decimal value'')"

function rq_headers_loop ::
  "string \<Rightarrow> nat \<Rightarrow> nat \<Rightarrow> http_request \<Rightarrow> bool \<Rightarrow> nat \<Rightarrow> parse_error + (http_request \<times> nat)" where
  "rq_headers_loop input header_end line_begin request length_seen parsed_length =
     (if line_begin < header_end then
        (case find_from CRLF input line_begin of
           None \<Rightarrow> Inl (E_INVALID_HEADER, ''HTTP header line is not terminated with CRLF'')
         | Some line_end \<Rightarrow>
             if line_end > header_end
             then Inl (E_INVALID_HEADER, ''HTTP header line is not terminated with CRLF'')
             else let line = substr input line_begin (line_end - line_begin)
             in if line = [] \<or> is_ows (hd line)
                then Inl (E_INVALID_HEADER, ''empty or folded HTTP header line is not supported'')
                else (case header_field (missing_colon ''HTTP header line'')
                             ''HTTP header contains an invalid name or value'' line of
                  Inl e \<Rightarrow> Inl e
                | Inr (name, v) \<Rightarrow>
                    if CaseInsensitiveEqual name ''content-length'' then
                      (if length_seen then Inl content_length_error
                       else case ParseContentLength v of
                          None \<Rightarrow> Inl content_length_error
                        | Some current_length \<Rightarrow>
                            rq_headers_loop input header_end (line_end + 2)
                              (rq_setHeader name v request) True current_length)
                    else if CaseInsensitiveEqual name ''transfer-encoding'' \<and> v \<noteq> [] then
                      Inl (E_UNSUPPORTED_TRANSFER_ENCODING,
                           ''Transfer-Encoding is not supported by the request parser yet'')
                    else rq_headers_loop input header_end (line_end + 2)
                           (rq_setHeader name v request) length_seen parsed_length))
      else Inr (request, parsed_length))"
  by pat_completeness auto
termination
  by (relation "measure (\<lambda>(input, header_end, line_begin, _). header_end - line_begin)")
    (auto dest: find_from_bound)

declare rq_headers_loop.simps [simp del]

section \<open>The message\<close>

datatype 'm outcome =
    Failed HttpParseError string
  | Incomplete
  | Finished nat 'm nat

definition rq_parse :: "string \<Rightarrow> http_request outcome" where
  "rq_parse input =
     (case find_sub CRLF2 input of
        None \<Rightarrow>
          if length input > kMaxHeaderSize
          then Failed E_HEADER_TOO_LARGE ''HTTP request headers exceed the configured limit''
          else Incomplete
      | Some header_end \<Rightarrow>
          let header_size = header_end + 4
          in if header_size > kMaxHeaderSize
             then Failed E_HEADER_TOO_LARGE ''HTTP request headers exceed the configured limit''
             else case find_sub CRLF input of
               None \<Rightarrow> Failed E_INVALID_VERSION ''HTTP request line is incomplete''
             | Some request_line_end \<Rightarrow>
                 if request_line_end > header_end
                 then Failed E_INVALID_VERSION ''HTTP request line is incomplete''
                 else case parse_request_line (substr input 0 request_line_end) of
                   Inl (e, message) \<Rightarrow> Failed e message
                 | Inr request \<Rightarrow>
                     (case rq_headers_loop input header_end (request_line_end + 2) request False 0 of
                        Inl (e, message) \<Rightarrow> Failed e message
                      | Inr (request', parsed_length) \<Rightarrow>
                          if parsed_length > kMaxBodySize
                          then Failed E_BODY_TOO_LARGE ''HTTP request body exceeds the configured limit''
                          else if parsed_length > SIZE_MAX - header_size
                          then Failed E_BODY_TOO_LARGE ''HTTP request size overflows size_t''
                          else let message_size = header_size + parsed_length
                               in if length input < message_size then Incomplete
                                  else Finished message_size
                                    (rq_initConnection (rq_setBody (substr input header_size parsed_length) request'))
                                    parsed_length))"

record request_parser =
  p_data :: http_request
  p_error :: HttpParseError
  p_error_message :: string
  p_content_length :: nat
  p_finished :: bool

definition HttpRequestParser :: request_parser where
  "HttpRequestParser = \<lparr> p_data = HttpRequest 0x11 True, p_error = E_NONE, p_error_message = [],
                         p_content_length = 0, p_finished = False \<rparr>"

definition p_reset :: "request_parser \<Rightarrow> request_parser" where
  "p_reset p = p\<lparr> p_data := HttpRequest 0x11 True, p_error := E_NONE, p_error_message := [],
                  p_content_length := 0, p_finished := False \<rparr>"

definition p_hasError :: "request_parser \<Rightarrow> bool" where
  "p_hasError p \<longleftrightarrow> p_error p \<noteq> E_NONE"

definition p_setError :: "HttpParseError \<Rightarrow> string \<Rightarrow> request_parser \<Rightarrow> request_parser" where
  "p_setError e message p = p\<lparr> p_error := e, p_error_message := message, p_finished := False \<rparr>"

definition p_parse :: "string \<Rightarrow> request_parser \<Rightarrow> nat \<times> request_parser" where
  "p_parse input p =
     (case rq_parse input of
        Failed e message \<Rightarrow> (0, p_setError e message p)
      | Incomplete \<Rightarrow> (0, p)
      | Finished n request len \<Rightarrow>
          (n, p\<lparr> p_data := request, p_content_length := len, p_finished := True \<rparr>))"

text \<open>\<open>execute(string_view)\<close>, and \<open>execute(char*, size_t)\<close> with the buffer it leaves: the
  unread bytes are moved to the front, the tail keeps its old bytes.\<close>

definition p_execute :: "string \<Rightarrow> request_parser \<Rightarrow> nat \<times> request_parser" where
  "p_execute input p = (if p_finished p \<or> p_hasError p then (0, p) else p_parse input p)"

definition memmove_front :: "string \<Rightarrow> nat \<Rightarrow> string" where
  "memmove_front buf consumed =
     (if consumed \<noteq> 0 \<and> consumed < length buf
      then drop consumed buf @ drop (length buf - consumed) buf else buf)"

definition p_execute_buffer :: "string option \<Rightarrow> request_parser \<Rightarrow> nat \<times> string option \<times> request_parser" where
  "p_execute_buffer data p =
     (case data of
        None \<Rightarrow> (0, None, p)
      | Some buf \<Rightarrow>
          if length buf = 0 \<or> p_finished p \<or> p_hasError p then (0, data, p)
          else let (consumed, p') = p_parse buf p in (consumed, Some (memmove_front buf consumed), p'))"

section \<open>The outcome does not change with more input\<close>

lemma find_sub_prefix:
  assumes "find_sub pat (p @ q) = Some h" "h + length pat \<le> length p"
  shows "find_sub pat p = Some h"
proof -
  have "starts_with (drop h (p @ q)) pat" using find_sub_hit [OF assms(1)] .
  moreover have "h \<le> length p" using assms(2) by simp
  moreover have "drop h (p @ q) = drop h p @ q" using \<open>h \<le> length p\<close> by simp
  ultimately have "starts_with (drop h p) pat"
    using assms(2) starts_with_append_long [of pat "drop h p" q] by simp
  then obtain i where "find_sub pat p = Some i" using find_sub_exists \<open>h \<le> length p\<close> by blast
  then show ?thesis using assms(1) find_sub_append by fastforce
qed


lemma rq_headers_loop_append:
  "starts_with (drop header_end p) CRLF \<Longrightarrow> header_end + 2 \<le> length p \<Longrightarrow>
   rq_headers_loop (p @ q) header_end line_begin request seen len =
     rq_headers_loop p header_end line_begin request seen len"
proof (induction p header_end line_begin request seen len rule: rq_headers_loop.induct)
  case (1 p header_end line_begin request seen len)
  show ?case
  proof (cases "line_begin < header_end")
    case False
    then show ?thesis by (simp add: rq_headers_loop.simps [of _ header_end line_begin])
  next
    case True
    then obtain line_end where le: "line_end \<le> header_end" "find_from CRLF p line_begin = Some line_end"
      using find_from_exists [OF 1(3), of line_begin] 1(4) by auto
    have le': "find_from CRLF (p @ q) line_begin = Some line_end" by (rule find_from_append [OF le(2)])
    have sub: "substr (p @ q) line_begin (line_end - line_begin) = substr p line_begin (line_end - line_begin)"
      by (rule substr_append) (use find_from_bound [OF le(2)] in simp)
    let ?line = "substr p line_begin (line_end - line_begin)"
    note le1 = linorder_not_less [THEN iffD2, OF le(1)]
    note steps = rq_headers_loop.simps [of "p @ q" header_end line_begin]
      rq_headers_loop.simps [of p header_end line_begin]
    note simps = steps True le(2) le' le1 sub simp_thms Let_def if_True if_False option.case sum.case prod.case
    show ?thesis
    proof (cases "?line = [] \<or> is_ows (hd ?line)")
      case bad: True
      then show ?thesis by (simp only: simps)
    next
      case good: False
      note IH = 1(1,2) [OF True le(2) le1 refl good]
      show ?thesis
      proof (cases "header_field (missing_colon ''HTTP header line'')
                      ''HTTP header contains an invalid name or value'' ?line")
        case (Inl e)
        then show ?thesis using good by (simp only: simps)
      next
        case (Inr nv)
        obtain name v where nv: "nv = (name, v)" by (cases nv)
        note IH' = IH [OF Inr nv [symmetric]]
        show ?thesis
        proof (cases "CaseInsensitiveEqual name ''content-length''")
          case True
          show ?thesis
          proof (cases "ParseContentLength v")
            case None
            then show ?thesis using good Inr nv True by (simp only: simps)
          next
            case (Some n)
            show ?thesis
            proof (cases seen)
              case s: True
              then show ?thesis using good Inr nv True Some by (simp only: simps)
            next
              case s: False
              then show ?thesis using IH'(1) [OF True s Some 1(3,4)] good Inr nv True Some
                by (simp only: simps)
            qed
          qed
        next
          case ncl: False
          show ?thesis
          proof (cases "CaseInsensitiveEqual name ''transfer-encoding'' \<and> v \<noteq> []")
            case True
            then show ?thesis using good Inr nv ncl by (simp only: simps)
          next
            case False
            then show ?thesis using IH'(2) [OF ncl False 1(3,4)] good Inr nv ncl by (simp only: simps)
          qed
        qed
      qed
    qed
  qed
qed

lemma rq_parse_append:
  assumes "rq_parse p \<noteq> Incomplete"
  shows "rq_parse (p @ q) = rq_parse p"
proof (cases "find_sub CRLF2 p")
  case None
  then have long: "length p > kMaxHeaderSize"
    using assms by (auto simp: rq_parse_def split: if_splits)
  show ?thesis
  proof (cases "find_sub CRLF2 (p @ q)")
    case (Some h)
    then have "\<not> h + length CRLF2 \<le> length p" using find_sub_prefix [OF Some] None by force
    then have "h + 4 > kMaxHeaderSize" using long by simp
    then show ?thesis using None Some long by (simp add: rq_parse_def)
  qed (use None long in \<open>simp add: rq_parse_def\<close>)
next
  case (Some h)
  have h4: "h + 4 \<le> length p" using find_sub_bound [OF Some] by simp
  have at: "starts_with (drop h p) CRLF2" by (rule find_sub_hit [OF Some])
  then have crlf: "starts_with (drop h p) CRLF"
    by (cases "drop h p"; cases "tl (drop h p)") auto
  obtain l where l: "find_sub CRLF p = Some l" "l \<le> h"
    using find_sub_exists [OF crlf] h4 by auto
  have app: "find_sub CRLF2 (p @ q) = Some h" "find_sub CRLF (p @ q) = Some l"
    using Some l by (auto intro: find_sub_append)
  have subs: "substr (p @ q) 0 l = substr p 0 l"
    by (rule substr_append) (use l h4 in simp)
  have loop: "rq_headers_loop (p @ q) h b r s n = rq_headers_loop p h b r s n" for b r s n
    by (rule rq_headers_loop_append [OF crlf]) (use h4 in simp)
  note simps = app Some l(1) loop subs Let_def option.case sum.case prod.case if_True if_False
    rq_parse_def [of "p @ q"] rq_parse_def [of p]
  show ?thesis
  proof (cases "h + 4 > kMaxHeaderSize")
    case True
    then show ?thesis by (simp only: simps)
  next
    case small: False
    note le = linorder_not_less [THEN iffD2, OF l(2)]
    show ?thesis
    proof (cases "parse_request_line (substr p 0 l)")
      case (Inl e)
      then show ?thesis using small by (simp only: simps le)
    next
      case line: (Inr request)
      show ?thesis
      proof (cases "rq_headers_loop p h (l + 2) request False 0")
        case (Inl e)
        then show ?thesis using small line by (simp only: simps le)
      next
        case (Inr rn)
        obtain request' n where rn: "rn = (request', n)" by (cases rn)
        show ?thesis
        proof (cases "n > kMaxBodySize")
          case True
          then show ?thesis using small line Inr rn by (simp only: simps le)
        next
          case ok: False
          show ?thesis
          proof (cases "n > SIZE_MAX - (h + 4)")
            case True
            then show ?thesis using small line Inr rn ok by (simp only: simps le)
          next
            case ok': False
            note here = simps le small line Inr rn ok ok'
            have full: "\<not> length p < h + 4 + n"
            proof
              assume "length p < h + 4 + n"
              then have "rq_parse p = Incomplete" by (simp only: here)
              then show False using assms by simp
            qed
            then have "substr (p @ q) (h + 4) n = substr p (h + 4) n"
              by (intro substr_append) simp
            moreover have "\<not> length (p @ q) < h + 4 + n" using full by simp
            ultimately show ?thesis using full by (simp only: here)
          qed
        qed
      qed
    qed
  qed
qed

section \<open>Bounds\<close>

lemma split_target_headers: "rq_headers (split_target t r) = rq_headers r"
  by (auto simp: split_target_def Let_def rq_setQuery_def split: option.splits)

lemma rq_parse_bounds:
  assumes "rq_parse input = Finished n request len"
  shows "n \<le> length input \<and> 4 \<le> n \<and> len \<le> kMaxBodySize \<and> n \<le> kMaxHeaderSize + len \<and>
     length (rq_body request) = len \<and> rq_body request = substr input (n - len) len"
proof -
  obtain h where h: "find_sub CRLF2 input = Some h"
    using assms by (cases "find_sub CRLF2 input") (auto simp: rq_parse_def split: if_splits)
  note le = find_sub_bound [OF h]
  have "h + 4 \<le> kMaxHeaderSize \<and> (\<exists>r'. n = h + 4 + len \<and> len \<le> kMaxBodySize \<and> h + 4 + len \<le> length input \<and>
      request = rq_initConnection (rq_setBody (substr input (h + 4) len) r'))"
    using assms unfolding rq_parse_def h
    by (auto simp: Let_def split: if_splits option.splits sum.splits prod.splits)
  then obtain r' where r: "h + 4 \<le> kMaxHeaderSize" "n = h + 4 + len" "len \<le> kMaxBodySize"
    "h + 4 + len \<le> length input"
    "request = rq_initConnection (rq_setBody (substr input (h + 4) len) r')" by blast
  have b: "rq_body request = substr input (h + 4) len"
    unfolding r(5) by (simp add: rq_initConnection_def rq_setBody_def)
  have "n - len = h + 4" using r(2) by simp
  with b r show ?thesis by simp
qed

section \<open>The parser object\<close>

text \<open>Every state the object reaches: idle, failed with an error, or finished, never both.\<close>

inductive rq_parser_reach :: "request_parser \<Rightarrow> bool" where
  "rq_parser_reach HttpRequestParser"
| "rq_parser_reach p \<Longrightarrow> rq_parser_reach (snd (p_execute input p))"
| "rq_parser_reach p \<Longrightarrow> rq_parser_reach (snd (snd (p_execute_buffer data p)))"
| "rq_parser_reach p \<Longrightarrow> rq_parser_reach (p_reset p)"

definition rq_parser_inv :: "request_parser \<Rightarrow> bool" where
  "rq_parser_inv p \<longleftrightarrow> \<not> (p_finished p \<and> p_hasError p) \<and>
     (p_finished p \<longrightarrow> length (rq_body (p_data p)) = p_content_length p \<and> p_content_length p \<le> kMaxBodySize)"

lemma rq_parse_error_real: "rq_parse input \<noteq> Failed E_NONE message"
proof
  assume f: "rq_parse input = Failed E_NONE message"
  have line: "parse_request_line l \<noteq> Inl (E_NONE, m)" for l m
    by (auto simp: parse_request_line_def request_line_error_def Let_def split: option.splits if_splits)
  have field: "header_field a b l \<noteq> Inl (E_NONE, m)" for a b l m
    by (auto simp: header_field_def Let_def split: option.splits if_splits)
  have loop: "rq_headers_loop input h b r s n \<noteq> Inl (E_NONE, m)" for h b r s n m
  proof (induction input h b r s n rule: rq_headers_loop.induct)
    case (1 input h b r s n)
    then show ?case
      by (subst rq_headers_loop.simps)
        (auto simp: Let_def content_length_error_def field split: option.splits sum.splits if_splits)
  qed
  show False using f line loop unfolding rq_parse_def
    by (auto simp: Let_def split: if_splits option.splits sum.splits prod.splits)
qed

lemma p_parse_inv: "rq_parser_inv p \<Longrightarrow> \<not> p_finished p \<Longrightarrow> \<not> p_hasError p \<Longrightarrow> rq_parser_inv (snd (p_parse input p))"
  using rq_parse_bounds [of input]
  by (auto simp: p_parse_def rq_parser_inv_def p_setError_def p_hasError_def split: outcome.splits)

lemma rq_parser_reach_inv: "rq_parser_reach p \<Longrightarrow> rq_parser_inv p"
proof (induction rule: rq_parser_reach.induct)
  case 1
  then show ?case by (simp add: rq_parser_inv_def HttpRequestParser_def p_hasError_def)
next
  case (2 p input)
  then show ?case by (simp add: p_execute_def p_parse_inv)
next
  case (3 p data)
  then show ?case
    by (auto simp: p_execute_buffer_def p_parse_inv split: option.split prod.split) (metis p_parse_inv snd_conv)
next
  case (4 p)
  then show ?case by (simp add: rq_parser_inv_def p_reset_def p_hasError_def)
qed

section \<open>Reading back a serialised request\<close>

lemma find_sub_skip:
  "x \<notin> set a \<Longrightarrow> find_sub (x # xs) (a @ s) = map_option ((+) (length a)) (find_sub (x # xs) s)"
proof (induction a)
  case Nil
  then show ?case by (simp add: option.map_ident)
next
  case (Cons c cs)
  then have "\<not> starts_with ((c # cs) @ s) (x # xs)" by auto
  then show ?case using Cons by (cases "find_sub (x # xs) s") auto
qed

lemma find_crlf_line: "CR \<notin> set a \<Longrightarrow> find_sub CRLF (a @ CRLF @ s) = Some (length a)"
  by (simp add: find_sub_skip)

lemma find_from_crlf_line:
  assumes "CR \<notin> set line"
  shows "find_from CRLF (A @ line @ CRLF @ B) (length A) = Some (length A + length line)"
  using find_crlf_line [OF assms, of B] by (simp add: find_from_def)

text \<open>Lines that contain no CR and are not empty, each ended by CRLF.\<close>

definition lines :: "string list \<Rightarrow> string" where
  "lines ls = concat (map (\<lambda>l. l @ CRLF) ls)"

lemma find_header_end:
  "ls \<noteq> [] \<Longrightarrow> (\<forall>l \<in> set ls. l \<noteq> [] \<and> CR \<notin> set l) \<Longrightarrow>
   find_sub CRLF2 (lines ls @ CRLF @ t) = Some (length (lines ls) - 2)"
proof (induction ls)
  case Nil
  then show ?case by simp
next
  case (Cons l ls)
  have l: "CR \<notin> set l" "l \<noteq> []" using Cons.prems by auto
  show ?case
  proof (cases "ls = []")
    case True
    then show ?thesis using l by (simp add: lines_def find_sub_skip)
  next
    case False
    then obtain l' ls' where ls: "ls = l' # ls'" by (cases ls) auto
    then obtain c cs where c: "l' = c # cs" "c \<noteq> CR" using Cons.prems(2) by (cases l') auto
    have IH: "find_sub CRLF2 (lines ls @ CRLF @ t) = Some (length (lines ls) - 2)"
      using Cons False by auto
    have "find_sub CRLF2 (lines (l # ls) @ CRLF @ t) =
        map_option ((+) (length l)) (find_sub CRLF2 (CRLF @ lines ls @ CRLF @ t))"
      using l(1) by (simp add: lines_def find_sub_skip)
    also have "find_sub CRLF2 (CRLF @ lines ls @ CRLF @ t) =
        map_option (Suc \<circ> Suc) (find_sub CRLF2 (lines ls @ CRLF @ t))"
      using c by (simp add: ls lines_def option.map_comp comp_assoc)
    finally have "find_sub CRLF2 (lines (l # ls) @ CRLF @ t) =
        Some (length l + Suc (Suc (length (lines ls) - 2)))"
      unfolding IH by simp
    moreover have "2 \<le> length (lines ls)" by (simp add: ls lines_def)
    ultimately show ?thesis by (simp add: lines_def)
  qed
qed

lemma find_char_first: "x \<notin> set a \<Longrightarrow> find_char x (a @ x # b) = Some (length a)"
  by (rule find_char_app)

lemma find_char_from_first:
  "x \<notin> set a \<Longrightarrow> find_char_from x (p @ a @ x # b) (length p) = Some (length p + length a)"
  by (simp add: find_char_from_def find_char_app)

lemma find_char_from_none: "x \<notin> set a \<Longrightarrow> find_char_from x (p @ a) (length p) = None"
  by (simp add: find_char_from_def find_char_None)

lemma method_name_no_space: "m \<noteq> INVALID_METHOD \<Longrightarrow> SP \<notin> set (HttpMethodToString m) \<and>
    HttpMethodToString m \<noteq> [] \<and> CR \<notin> set (HttpMethodToString m)"
  by (cases m) (simp_all add: HttpMethodToString_def kMethodNames_def method_values_def)

lemma parse_request_line_ok:
  assumes m: "m \<noteq> INVALID_METHOD" and t: "target \<noteq> []" "\<not> list_ex bad_target_char target"
    and v: "ver = 0x11 \<or> ver = (0x10 :: u8)"
    and path: "rq_path (split_target target ((HttpRequest ver (ver \<le> 0x10))\<lparr> rq_method := m \<rparr>)) \<noteq> []"
  shows "parse_request_line (HttpMethodToString m @ [SP] @ target @ [SP] @
           (if ver = 0x11 then ''HTTP/1.1'' else ''HTTP/1.0'')) =
         Inr (split_target target ((HttpRequest ver (ver \<le> 0x10))\<lparr> rq_method := m \<rparr>))"
proof -
  let ?M = "HttpMethodToString m" and ?V = "if ver = 0x11 then ''HTTP/1.1'' else ''HTTP/1.0''"
  let ?l = "?M @ [SP] @ target @ [SP] @ ?V"
  note nm = method_name_no_space [OF m]
  have nt: "SP \<notin> set target" using t(2) by (auto simp: list_ex_iff bad_target_char_def)
  have f1: "find_char SP ?l = Some (length ?M)" using nm by (simp add: find_char_app)
  have f2: "find_char_from SP ?l (length ?M + 1) = Some (length ?M + 1 + length target)"
    using find_char_from_first [of SP target "?M @ [SP]" ?V] nt by simp
  have nv: "SP \<notin> set ?V" by simp
  have f3: "find_char_from SP ?l (length ?M + 1 + length target + 1) = None"
    using find_char_from_none [OF nv, of "?M @ [SP] @ target @ [SP]"] by (simp add: algebra_simps)
  have s1: "substr ?l 0 (length ?M) = ?M" by (simp add: substr_def)
  have s2: "substr ?l (length ?M + 1) (length ?M + 1 + length target - length ?M - 1) = target"
    by (simp add: substr_def)
  have s3: "drop (length ?M + 1 + length target + 1) ?l = ?V" by simp
  have ver: "(if ?V = ''HTTP/1.1'' then 0x11 else 0x10) = ver" using v by auto
  have g: "\<not> (length ?M = 0 \<or> length ?M + 1 + length target = length ?M + 1 \<or> None \<noteq> (None :: nat option))"
    using nm t(1) by simp
  have vv: "\<not> (?V \<noteq> ''HTTP/1.1'' \<and> ?V \<noteq> ''HTTP/1.0'')" by simp
  show ?thesis
    unfolding parse_request_line_def f1 option.case f2 f3 Let_def s1 s2 s3 ver
    using g vv m method_round_trip [OF m] t path by simp
qed

text \<open>A header the loop takes as it is: a token, a value that is valid and trimmed, and neither a
  length nor a transfer encoding.\<close>

definition plain_field :: "string \<times> string \<Rightarrow> bool" where
  "plain_field nv \<longleftrightarrow> IsValidHeaderName (fst nv) \<and> IsValidHeaderValue (snd nv) \<and> Trim (snd nv) = snd nv \<and>
     \<not> CaseInsensitiveEqual (fst nv) ''content-length'' \<and>
     (CaseInsensitiveEqual (fst nv) ''transfer-encoding'' \<longrightarrow> snd nv = [])"

definition field_text :: "string \<times> string \<Rightarrow> string" where
  "field_text nv = fst nv @ '': '' @ snd nv"

lemma Trim_leading_space: "Trim (SP # v) = Trim v"
  by (simp add: Trim_def is_ows_def)

lemma valid_name_chars:
  assumes "IsValidHeaderName name"
  shows "CHR '':'' \<notin> set name" "CR \<notin> set name" "name \<noteq> []" "\<not> is_ows (hd name)"
proof -
  have t: "\<forall>c \<in> set name. IsTokenCharacter c" "name \<noteq> []"
    using assms by (auto simp: IsValidHeaderName_def list_all_iff)
  have "\<not> IsTokenCharacter CHR '':''" "\<not> IsTokenCharacter CR" "\<not> IsTokenCharacter SP" "\<not> IsTokenCharacter TAB"
    by code_simp+
  moreover have "IsTokenCharacter (hd name)" using t hd_in_set by blast
  ultimately show "CHR '':'' \<notin> set name" "CR \<notin> set name" "name \<noteq> []" "\<not> is_ows (hd name)"
    using t \<open>IsTokenCharacter (hd name)\<close> unfolding is_ows_def by (blast, blast, blast, metis)
qed

lemma valid_value_no_cr: "IsValidHeaderValue v \<Longrightarrow> CR \<notin> set v"
proof -
  have "\<not> IsValidHeaderValue [CR]" by code_simp
  then show "IsValidHeaderValue v \<Longrightarrow> CR \<notin> set v"
    by (auto simp: IsValidHeaderValue_def list_all_iff)
qed

lemma header_field_ok:
  assumes "IsValidHeaderName name" "IsValidHeaderValue v" "Trim v = v"
  shows "header_field a b (field_text (name, v)) = Inr (name, v)"
proof -
  have f: "find_char CHR '':'' (name @ CHR '':'' # SP # v) = Some (length name)"
    using valid_name_chars [OF assms(1)] by (simp add: find_char_app)
  then show ?thesis
    using assms Trim_leading_space [of v]
    by (simp add: header_field_def field_text_def Let_def substr_def)
qed

lemma field_text_line:
  assumes "IsValidHeaderName (fst nv)" "IsValidHeaderValue (snd nv)"
  shows "CR \<notin> set (field_text nv)" "field_text nv \<noteq> []" "\<not> is_ows (hd (field_text nv))"
  using valid_name_chars [OF assms(1)] valid_value_no_cr [OF assms(2)]
  by (auto simp: field_text_def)

lemma rq_headers_step:
  assumes name: "IsValidHeaderName (fst nv)" "IsValidHeaderValue (snd nv)" "Trim (snd nv) = snd nv"
    and pos: "length A + length (field_text nv) \<le> header_end"
  shows "rq_headers_loop (A @ field_text nv @ CRLF @ B) header_end (length A) request seen len =
     (if CaseInsensitiveEqual (fst nv) ''content-length'' then
        (if seen then Inl content_length_error
         else case ParseContentLength (snd nv) of None \<Rightarrow> Inl content_length_error
           | Some n \<Rightarrow> rq_headers_loop (A @ field_text nv @ CRLF @ B) header_end
               (length (A @ field_text nv @ CRLF)) (rq_setHeader (fst nv) (snd nv) request) True n)
      else if CaseInsensitiveEqual (fst nv) ''transfer-encoding'' \<and> snd nv \<noteq> [] then
        Inl (E_UNSUPPORTED_TRANSFER_ENCODING,
             ''Transfer-Encoding is not supported by the request parser yet'')
      else rq_headers_loop (A @ field_text nv @ CRLF @ B) header_end
             (length (A @ field_text nv @ CRLF)) (rq_setHeader (fst nv) (snd nv) request) seen len)"
proof -
  let ?line = "field_text nv" and ?in = "A @ field_text nv @ CRLF @ B"
  note line = field_text_line [OF name(1,2)]
  have f: "find_from CRLF ?in (length A) = Some (length A + length ?line)"
    by (rule find_from_crlf_line [OF line(1)])
  have "0 < length ?line" using line(2) by simp
  then have lb: "length A < header_end" using pos by linarith
  have le: "\<not> length A + length ?line > header_end" using pos by simp
  have s: "substr ?in (length A) (length A + length ?line - length A) = ?line"
    by (simp add: substr_def)
  have next_line: "length A + length ?line + 2 = length (A @ ?line @ CRLF)" by simp
  have h: "header_field (missing_colon ''HTTP header line'')
      ''HTTP header contains an invalid name or value'' ?line = Inr (fst nv, snd nv)"
    using header_field_ok [OF name] by simp
  have g: "\<not> (?line = [] \<or> is_ows (hd ?line))" using line by simp
  show ?thesis
    by (subst rq_headers_loop.simps)
      (simp only: lb if_True f option.case le if_False s Let_def g h sum.case prod.case next_line)
qed

definition add_fields :: "(string \<times> string) list \<Rightarrow> http_request \<Rightarrow> http_request" where
  "add_fields fs request = fold (\<lambda>nv. rq_setHeader (fst nv) (snd nv)) fs request"

lemma rq_headers_plain:
  "\<forall>nv \<in> set fs. plain_field nv \<Longrightarrow> length (A @ lines (map field_text fs)) \<le> header_end + 2 \<Longrightarrow>
   rq_headers_loop (A @ lines (map field_text fs) @ B) header_end (length A) request seen len =
   rq_headers_loop (A @ lines (map field_text fs) @ B) header_end
     (length (A @ lines (map field_text fs))) (add_fields fs request) seen len"
proof (induction fs arbitrary: A request)
  case Nil
  then show ?case by (simp add: lines_def add_fields_def)
next
  case (Cons nv fs)
  let ?rest = "lines (map field_text fs)"
  have p: "plain_field nv" using Cons.prems by simp
  have e: "A @ lines (map field_text (nv # fs)) @ B = A @ field_text nv @ CRLF @ (?rest @ B)"
    by (simp add: lines_def)
  have pos: "length A + length (field_text nv) \<le> header_end"
    using Cons.prems(2) by (simp add: lines_def)
  have "rq_headers_loop (A @ field_text nv @ CRLF @ (?rest @ B)) header_end (length A) request seen len =
      rq_headers_loop (A @ field_text nv @ CRLF @ (?rest @ B)) header_end
        (length (A @ field_text nv @ CRLF)) (rq_setHeader (fst nv) (snd nv) request) seen len"
    using p pos by (subst rq_headers_step) (auto simp: plain_field_def)
  also have "\<dots> = rq_headers_loop ((A @ field_text nv @ CRLF) @ ?rest @ B) header_end
        (length ((A @ field_text nv @ CRLF) @ ?rest)) (add_fields fs (rq_setHeader (fst nv) (snd nv) request)) seen len"
  proof -
    have "length ((A @ field_text nv @ CRLF) @ ?rest) \<le> header_end + 2"
      using Cons.prems(2) by (simp add: lines_def)
    from Cons.IH [OF _ this] Cons.prems(1) show ?thesis by simp
  qed
  finally show ?case by (simp add: lines_def add_fields_def)
qed

lemma rq_headers_done: "header_end \<le> line_begin \<Longrightarrow>
   rq_headers_loop input header_end line_begin request seen len = Inr (request, len)"
  by (subst rq_headers_loop.simps) simp

lemma setHeader_fields [simp]:
  "rq_method (rq_setHeader k v r) = rq_method r" "rq_version (rq_setHeader k v r) = rq_version r"
  "rq_path (rq_setHeader k v r) = rq_path r" "rq_query (rq_setHeader k v r) = rq_query r"
  "rq_fragment (rq_setHeader k v r) = rq_fragment r" "rq_websocket (rq_setHeader k v r) = rq_websocket r"
  "rq_headers (rq_setHeader k v r) = http_assign k v (rq_headers r)"
  by (simp_all add: rq_setHeader_def rq_invalidate_def Let_def)

lemma add_fields_fields [simp]:
  "rq_method (add_fields fs r) = rq_method r" "rq_version (add_fields fs r) = rq_version r"
  "rq_path (add_fields fs r) = rq_path r" "rq_query (add_fields fs r) = rq_query r"
  "rq_fragment (add_fields fs r) = rq_fragment r" "rq_websocket (add_fields fs r) = rq_websocket r"
  "rq_headers (add_fields fs r) = fold (\<lambda>(k, v). http_assign k v) fs (rq_headers r)"
  by (induction fs arbitrary: r) (simp_all add: add_fields_def split_beta)

definition rq_target :: "http_request \<Rightarrow> string" where
  "rq_target r = rq_path r @ (if rq_query r \<noteq> [] then ''?'' @ rq_query r else []) @
     (if rq_fragment r \<noteq> [] then ''#'' @ rq_fragment r else [])"

definition kept_headers :: "http_request \<Rightarrow> HttpMap" where
  "kept_headers r = filter (\<lambda>(name, v). \<not> ShouldSkipHeader name False (rq_body r \<noteq> [])) (rq_headers r)"

definition connection_value :: "http_request \<Rightarrow> string" where
  "connection_value r = (if rq_close r then ''close'' else ''keep-alive'')"

definition length_fields :: "http_request \<Rightarrow> (string \<times> string) list" where
  "length_fields r = (if rq_body r \<noteq> [] then [(''Content-Length'', show_nat (length (rq_body r)))] else [])"

text \<open>The requests that survive a serialisation: a known method and version, a target whose parts
  contain no control characters or separators of their own, and headers a peer would accept.\<close>

definition wf_request :: "http_request \<Rightarrow> bool" where
  "wf_request r \<longleftrightarrow>
     rq_method r \<noteq> INVALID_METHOD \<and> (rq_version r = 0x11 \<or> rq_version r = 0x10) \<and> \<not> rq_websocket r \<and>
     rq_path r \<noteq> [] \<and> \<not> list_ex bad_target_char (rq_target r) \<and>
     CHR ''?'' \<notin> set (rq_path r) \<and> CHR ''#'' \<notin> set (rq_path r) \<and> CHR ''#'' \<notin> set (rq_query r) \<and>
     http_inv (rq_headers r) \<and> list_all plain_field (kept_headers r) \<and>
     length (rq_dump r) \<le> kMaxHeaderSize + length (rq_body r) \<and> length (rq_body r) \<le> kMaxBodySize"

lemma split_target_ok:
  assumes "CHR ''?'' \<notin> set p" "CHR ''#'' \<notin> set p" "CHR ''#'' \<notin> set q"
    and r0: "rq_query r0 = []" "rq_fragment r0 = []" "rq_params r0 = []" "\<not> rq_params_initialized r0"
  shows "split_target (p @ (if q \<noteq> [] then ''?'' @ q else []) @ (if f \<noteq> [] then ''#'' @ f else [])) r0 =
         r0\<lparr> rq_path := p, rq_query := q, rq_fragment := f \<rparr>"
proof -
  have h: "find_char CHR ''#'' (p @ (if q \<noteq> [] then ''?'' @ q else [])) = None"
    using assms by (simp add: find_char_None)
  have f: "find_char CHR ''#'' (p @ (if q \<noteq> [] then ''?'' @ q else []) @ ''#'' @ f) =
      Some (length (p @ (if q \<noteq> [] then ''?'' @ q else [])))"
    using find_char_app [of "CHR ''#''" "p @ (if q \<noteq> [] then ''?'' @ q else [])" f] assms by simp
  have q: "find_char CHR ''?'' (p @ ''?'' @ q) = Some (length p)" "find_char CHR ''?'' p = None"
    using assms by (simp_all add: find_char_app find_char_None)
  show ?thesis
    using h f q r0 by (cases "q = []"; cases "f = []")
      (simp_all add: split_target_def Let_def substr_def rq_setQuery_def)
qed

lemma header_lines_eq:
  "\<not> rq_websocket r \<Longrightarrow> rq_header_lines r =
     lines (map field_text (kept_headers r @ [(''Connection'', connection_value r)] @ length_fields r))"
proof -
  assume w: "\<not> rq_websocket r"
  have "concat (map (\<lambda>(name, v). if ShouldSkipHeader name False b then [] else header_line name v) hs) =
      lines (map field_text (filter (\<lambda>(name, v). \<not> ShouldSkipHeader name False b) hs))" for hs b
    by (induction hs) (auto simp: lines_def header_line_def field_text_def)
  then show ?thesis using w
    by (simp add: rq_header_lines_def kept_headers_def connection_value_def length_fields_def lines_def
        header_line_def field_text_def)
qed

lemma show_version_ok: "ver = 0x11 \<or> ver = 0x10 \<Longrightarrow>
    show_version ver = (if ver = 0x11 then ''HTTP/1.1'' else ''HTTP/1.0'')"
proof -
  have "show_version 0x11 = ''HTTP/1.1''" "show_version 0x10 = ''HTTP/1.0''" by code_simp+
  then show "ver = 0x11 \<or> ver = 0x10 \<Longrightarrow> ?thesis" by auto
qed

lemma show_nat_header:
  "IsValidHeaderValue (show_nat n)" "Trim (show_nat n) = show_nat n"
proof -
  have d: "\<forall>c \<in> set (show_nat n). is_digit c" by (rule show_nat_digits)
  then show "IsValidHeaderValue (show_nat n)"
    by (auto simp: IsValidHeaderValue_def list_all_iff is_digit_def)
  have nd: "is_digit c \<Longrightarrow> \<not> is_ows c" for c by (auto simp: is_digit_def is_ows_def)
  show "Trim (show_nat n) = show_nat n"
    using d nd by (intro Trim_trimmed) (simp_all add: hd_in_set last_in_set)
qed

lemma ParseContentLength_show: "n \<le> kMaxBodySize \<Longrightarrow> ParseContentLength (show_nat n) = Some n"
  by (simp add: ParseContentLength_def show_nat_header from_chars_show_nat kMaxBodySize_def)

lemma connection_field: "plain_field (''Connection'', connection_value r)"
proof -
  have "plain_field (''Connection'', ''close'')" "plain_field (''Connection'', ''keep-alive'')"
    by code_simp+
  then show ?thesis by (simp add: connection_value_def)
qed

lemma length_field_name: "IsValidHeaderName ''Content-Length''"
  "CaseInsensitiveEqual ''Content-Length'' ''content-length''"
  by code_simp+

lemma connection_tokens:
  "connection_close v ''close''" "\<not> connection_close v ''keep-alive''"
proof -
  have "HeaderContainsToken ''close'' ''close''" "\<not> HeaderContainsToken ''keep-alive'' ''close''"
    "HeaderContainsToken ''keep-alive'' ''keep-alive''" by code_simp+
  then show "connection_close v ''close''" "\<not> connection_close v ''keep-alive''"
    by (simp_all add: connection_close_def)
qed

text \<open>What of a message a peer gets to see.\<close>

definition same_message :: "http_request \<Rightarrow> http_request \<Rightarrow> bool" where
  "same_message r' r \<longleftrightarrow>
     rq_method r' = rq_method r \<and> rq_version r' = rq_version r \<and> rq_path r' = rq_path r \<and>
     rq_query r' = rq_query r \<and> rq_fragment r' = rq_fragment r \<and> rq_body r' = rq_body r \<and>
     rq_close r' = rq_close r \<and>
     (\<forall>j. \<not> CaseInsensitiveEqual j ''connection'' \<and> \<not> CaseInsensitiveEqual j ''content-length'' \<longrightarrow>
          http_find j (rq_headers r') = http_find j (rq_headers r))"

lemma dump_lines:
  assumes wf: "wf_request r"
  defines "line \<equiv> HttpMethodToString (rq_method r) @ [SP] @ rq_target r @ [SP] @
                   (if rq_version r = 0x11 then ''HTTP/1.1'' else ''HTTP/1.0'')"
  shows "rq_dump r = lines (line # map field_text (kept_headers r @ [(''Connection'', connection_value r)] @
           length_fields r)) @ CRLF @ rq_body r"
  using wf show_version_ok [of "rq_version r"]
  by (simp add: rq_dump_def wf_request_def header_lines_eq line_def rq_target_def lines_def)

lemma parse_fields:
  assumes wf: "wf_request r" and A: "length A + length (lines (map field_text (kept_headers r @
      [(''Connection'', connection_value r)] @ length_fields r))) = header_end + 2"
  shows "rq_headers_loop (A @ lines (map field_text (kept_headers r @
      [(''Connection'', connection_value r)] @ length_fields r)) @ B) header_end (length A) request False 0 =
    Inr (add_fields (kept_headers r @ [(''Connection'', connection_value r)] @ length_fields r) request,
         length (rq_body r))"
proof -
  let ?F = "kept_headers r @ [(''Connection'', connection_value r)]"
  let ?L = "length_fields r"
  have plain: "\<forall>nv \<in> set ?F. plain_field nv"
    using wf connection_field by (auto simp: wf_request_def list_all_iff)
  have split: "lines (map field_text (kept_headers r @ [(''Connection'', connection_value r)] @ ?L)) =
      lines (map field_text ?F) @ lines (map field_text ?L)"
    by (simp add: lines_def)
  let ?A' = "A @ lines (map field_text ?F)"
  let ?in = "A @ lines (map field_text ?F) @ lines (map field_text ?L) @ B"
  have len: "length ?A' + length (lines (map field_text ?L)) = header_end + 2"
    using A unfolding split by simp
  have "rq_headers_loop ?in header_end (length A) request False 0 =
      rq_headers_loop ?in header_end (length ?A') (add_fields ?F request) False 0"
    by (rule rq_headers_plain [OF plain]) (use len in simp)
  also have "\<dots> = Inr (add_fields (?F @ ?L) request, length (rq_body r))"
  proof (cases "rq_body r = []")
    case True
    then show ?thesis using len by (simp add: length_fields_def lines_def rq_headers_done)
  next
    case False
    let ?cl = "(''Content-Length'', show_nat (length (rq_body r)))"
    have L: "?L = [?cl]" using False by (simp add: length_fields_def)
    have e: "?in = ?A' @ field_text ?cl @ CRLF @ B" by (simp add: L lines_def)
    have pos: "length ?A' + length (field_text ?cl) \<le> header_end"
      using len by (simp add: L lines_def)
    have small: "length (rq_body r) \<le> kMaxBodySize" using wf by (simp add: wf_request_def)
    have "rq_headers_loop (?A' @ field_text ?cl @ CRLF @ B) header_end (length ?A') (add_fields ?F request) False 0 =
        rq_headers_loop (?A' @ field_text ?cl @ CRLF @ B) header_end (length (?A' @ field_text ?cl @ CRLF))
          (rq_setHeader (fst ?cl) (snd ?cl) (add_fields ?F request)) True (length (rq_body r))"
      using ParseContentLength_show [OF small] length_field_name show_nat_header
      by (subst rq_headers_step [OF _ _ _ pos]) simp_all
    also have "\<dots> = Inr (rq_setHeader (fst ?cl) (snd ?cl) (add_fields ?F request), length (rq_body r))"
      by (rule rq_headers_done) (use len in \<open>simp add: L lines_def\<close>)
    finally show ?thesis unfolding e by (simp add: L add_fields_def)
  qed
  finally show ?thesis unfolding split by simp
qed

lemma kept_find:
  assumes "http_inv (rq_headers r)" "\<not> CaseInsensitiveEqual j ''connection''" "\<not> CaseInsensitiveEqual j ''content-length''"
  shows "http_find j (kept_headers r) = http_find j (rq_headers r)"
  unfolding kept_headers_def using assms
  by (subst ci.find_filter) (auto simp: ShouldSkipHeader_def equiv_equal equal_lower)

lemma connection_names: "CaseInsensitiveEqual j ''Connection'' = CaseInsensitiveEqual j ''connection''"
  "CaseInsensitiveEqual j ''Content-Length'' = CaseInsensitiveEqual j ''content-length''"
  "\<not> CaseInsensitiveEqual ''connection'' ''content-length''"
proof -
  have "map ascii_lower ''Connection'' = map ascii_lower ''connection''"
    "map ascii_lower ''Content-Length'' = map ascii_lower ''content-length''"
    "map ascii_lower ''connection'' \<noteq> map ascii_lower ''content-length''"
    by code_simp+
  then show "CaseInsensitiveEqual j ''Connection'' = CaseInsensitiveEqual j ''connection''"
    "CaseInsensitiveEqual j ''Content-Length'' = CaseInsensitiveEqual j ''content-length''"
    "\<not> CaseInsensitiveEqual ''connection'' ''content-length''"
    by (simp_all only: equal_lower not_False_eq_True)
qed

lemma parsed_headers_find:
  assumes "http_inv (rq_headers r)"
  defines "hs \<equiv> fold (\<lambda>(k, v). http_assign k v)
      (kept_headers r @ [(''Connection'', connection_value r)] @ length_fields r) []"
  shows "\<not> CaseInsensitiveEqual j ''connection'' \<Longrightarrow> \<not> CaseInsensitiveEqual j ''content-length'' \<Longrightarrow>
      http_find j hs = http_find j (rq_headers r)"
    and "http_find ''connection'' hs = Some (connection_value r)"
proof -
  let ?k = "fold (\<lambda>(k, v). http_assign k v) (kept_headers r) []"
  have inv: "http_inv ?k" by (rule ci.fold_assign_inv) simp
  have kept: "http_find j ?k = http_find j (kept_headers r)" for j
    using ci.find_fold_assign [of "kept_headers r" "[]" j] assms(1)
    by (simp add: kept_headers_def ci.filter_inv split: option.split)
  have step: "http_find j hs = (if rq_body r \<noteq> [] \<and> CaseInsensitiveEqual j ''content-length''
      then Some (show_nat (length (rq_body r)))
      else if CaseInsensitiveEqual j ''connection'' then Some (connection_value r)
      else http_find j (kept_headers r))" for j
    using inv by (simp add: hs_def length_fields_def http_find_assign ci.insert_inv kept connection_names)
  show "\<not> CaseInsensitiveEqual j ''connection'' \<Longrightarrow> \<not> CaseInsensitiveEqual j ''content-length'' \<Longrightarrow>
      http_find j hs = http_find j (rq_headers r)"
    using kept_find [OF assms(1)] by (simp add: step)
  show "http_find ''connection'' hs = Some (connection_value r)"
    by (simp add: step connection_names)
qed

lemma rq_parse_dump:
  assumes wf: "wf_request r"
  shows "\<exists>r'. rq_parse (rq_dump r @ rest) = Finished (length (rq_dump r)) r' (length (rq_body r)) \<and> same_message r' r"
proof -
  let ?line = "HttpMethodToString (rq_method r) @ [SP] @ rq_target r @ [SP] @
                   (if rq_version r = 0x11 then ''HTTP/1.1'' else ''HTTP/1.0'')"
  let ?fs = "kept_headers r @ [(''Connection'', connection_value r)] @ length_fields r"
  let ?X = "lines (?line # map field_text ?fs)"
  note d = dump_lines [OF wf]
  have in_eq: "rq_dump r @ rest = ?X @ CRLF @ rq_body r @ rest" by (simp only: d append.assoc)
  have names: "rq_method r \<noteq> INVALID_METHOD" "rq_version r = 0x11 \<or> rq_version r = 0x10"
    "rq_path r \<noteq> []" "\<not> list_ex bad_target_char (rq_target r)" "http_inv (rq_headers r)"
    "length (rq_body r) \<le> kMaxBodySize"
    using wf by (simp_all add: wf_request_def)
  have nb: "CR \<notin> set (rq_target r)" using names(4) by (auto simp: list_ex_iff bad_target_char_def)
  have line: "CR \<notin> set ?line" "?line \<noteq> []"
    using method_name_no_space [OF names(1)] nb by auto
  have valid: "CR \<notin> set (field_text nv) \<and> field_text nv \<noteq> []" if "nv \<in> set ?fs" for nv
  proof -
    have "IsValidHeaderName (fst nv) \<and> IsValidHeaderValue (snd nv)"
      using that wf connection_field [of r] length_field_name show_nat_header
      by (auto simp: wf_request_def list_all_iff plain_field_def length_fields_def split: if_splits)
    then show ?thesis using field_text_line by blast
  qed
  have clean: "\<forall>l \<in> set (?line # map field_text ?fs). l \<noteq> [] \<and> CR \<notin> set l"
    using line valid by auto
  let ?h = "length ?X - 2"
  have X2: "length ?X = length ?line + 2 + length (lines (map field_text ?fs))"
    by (simp add: lines_def)
  have fs2: "2 \<le> length (lines (map field_text ?fs))" by (simp add: lines_def)
  have end_at: "find_sub CRLF2 (rq_dump r @ rest) = Some ?h"
    unfolding in_eq by (rule find_header_end [OF _ clean]) simp
  have line_at: "find_sub CRLF (rq_dump r @ rest) = Some (length ?line)"
    unfolding in_eq using find_crlf_line [OF line(1)] by (simp add: lines_def)
  have first: "substr (rq_dump r @ rest) 0 (length ?line) = ?line"
    unfolding in_eq by (simp add: substr_def lines_def)
  define req0 where "req0 = (HttpRequest (rq_version r) (rq_version r \<le> 0x10))\<lparr> rq_method := rq_method r \<rparr>"
  define req where "req = req0\<lparr> rq_path := rq_path r, rq_query := rq_query r, rq_fragment := rq_fragment r \<rparr>"
  have st: "split_target (rq_target r) req0 = req"
    unfolding rq_target_def req_def
    by (rule split_target_ok) (use wf in \<open>simp_all add: wf_request_def req0_def HttpRequest_def\<close>)
  have tne: "rq_target r \<noteq> []" using names(3) by (simp add: rq_target_def)
  have rl: "parse_request_line ?line = Inr req"
    using parse_request_line_ok [OF names(1) tne names(4,2)] st names(3) by (simp add: req0_def req_def)
  have "rq_headers_loop ((?line @ CRLF) @ lines (map field_text ?fs) @ (CRLF @ rq_body r @ rest)) ?h
      (length (?line @ CRLF)) req False 0 = Inr (add_fields ?fs req, length (rq_body r))"
    by (rule parse_fields [OF wf]) (use X2 fs2 in simp)
  then have loop: "rq_headers_loop (rq_dump r @ rest) ?h (length ?line + 2) req False 0 =
      Inr (add_fields ?fs req, length (rq_body r))"
    unfolding in_eq by (simp add: lines_def)
  have dlen: "length (rq_dump r) = ?h + 4 + length (rq_body r)"
    using X2 unfolding d by simp
  have head: "\<not> ?h + 4 > kMaxHeaderSize" using wf dlen by (simp add: wf_request_def)
  have big: "\<not> length (rq_body r) > kMaxBodySize" "\<not> length (rq_body r) > SIZE_MAX - (?h + 4)"
    using names(6) head by (simp_all add: kMaxBodySize_def kMaxHeaderSize_def SIZE_MAX_def)
  have body: "substr (rq_dump r @ rest) (?h + 4) (length (rq_body r)) = rq_body r"
  proof -
    have l: "?h + 4 = length (?X @ CRLF)" using X2 by simp
    have e: "?X @ CRLF @ rq_body r @ rest = (?X @ CRLF) @ rq_body r @ rest" by (simp only: append.assoc)
    show ?thesis unfolding in_eq e l by (rule substr_middle)
  qed
  have le: "\<not> length ?line > ?h" using X2 fs2 by simp
  have enough: "\<not> length (rq_dump r @ rest) < ?h + 4 + length (rq_body r)" using dlen by simp
  let ?r = "rq_initConnection (rq_setBody (rq_body r) (add_fields ?fs req))"
  have "rq_parse (rq_dump r @ rest) = Finished (length (rq_dump r)) ?r (length (rq_body r))"
    unfolding rq_parse_def
    by (simp only: end_at line_at option.case Let_def head if_False le first rl sum.case loop prod.case
        big enough body dlen)
  moreover have "same_message ?r r"
  proof -
    have "rq_headers req = []" by (simp add: req_def req0_def HttpRequest_def)
    then have f: "http_find j (rq_headers ?r) =
        http_find j (fold (\<lambda>(k, v). http_assign k v) ?fs [])" for j
      by (simp add: rq_initConnection_def rq_setBody_def)
    have "rq_getHeader ''connection'' [] (rq_setBody (rq_body r) (add_fields ?fs req)) = connection_value r"
      using parsed_headers_find(2) [OF names(5)] \<open>rq_headers req = []\<close>
      by (simp add: rq_getHeader_def rq_setBody_def)
    then have "rq_close ?r = rq_close r"
      using connection_tokens by (simp add: rq_initConnection_def connection_value_def)
    then show ?thesis
      using parsed_headers_find(1) [OF names(5)] f
      by (simp add: same_message_def rq_initConnection_def rq_setBody_def req_def req0_def HttpRequest_def)
  qed
  ultimately show ?thesis by blast
qed

section \<open>Properties\<close>

text \<open>The outcome of the request parser is stable: once an input is accepted or rejected, more
  bytes behind it change neither the outcome, nor the bytes consumed, nor the request, so a parser
  fed a growing buffer decides exactly what one fed the whole stream decides.\<close>

theorem request_outcome_stable:
  assumes "rq_parse p \<noteq> Incomplete"
  shows "rq_parse (p @ q) = rq_parse p"
  by (rule rq_parse_append [OF assms])

definition demo_post :: http_request where
  "demo_post = rq_setHeader ''Host'' ''x'' (rq_setBody ''hi'' (rq_setQuery ''b=1''
     ((HttpRequest 0x11 False)\<lparr> rq_method := POST, rq_path := ''/a'' \<rparr>)))"

lemma demo_post_body: "rq_body demo_post = ''hi''"
  by code_simp

lemma demo_post_length: "length (rq_dump demo_post) = 78"
  by code_simp

lemma demo_post_fields:
  "rq_method demo_post \<noteq> INVALID_METHOD \<and> rq_version demo_post = 0x11 \<and> \<not> rq_websocket demo_post \<and>
   rq_path demo_post = ''/a'' \<and> \<not> list_ex bad_target_char (rq_target demo_post) \<and>
   list_all (\<lambda>c. c \<noteq> CHR ''#'') (rq_query demo_post) \<and> list_all plain_field (kept_headers demo_post) \<and>
   rq_headers demo_post = [(''Host'', ''x'')]"
  by code_simp

lemma demo_post_wf: "wf_request demo_post"
  using demo_post_fields demo_post_length demo_post_body
  by (auto simp: wf_request_def kMaxHeaderSize_def kMaxBodySize_def list_all_iff)

lemma demo_finished: "\<exists>r. rq_parse (rq_dump demo_post) = Finished 78 r 2"
  using rq_parse_dump [OF demo_post_wf, of "[]"] demo_post_body demo_post_length by auto

theorem request_outcome_stable_witness:
  "rq_parse (rq_dump demo_post @ ''GET /'') = rq_parse (rq_dump demo_post)"
  using demo_finished by (intro request_outcome_stable) auto

text \<open>An accepted request is consumed within the input, its header block is within the header
  limit, its body within the body limit, and the body is exactly the announced number of bytes
  that follow the header block.\<close>

theorem request_bounds:
  assumes "rq_parse input = Finished n request len"
  shows "n \<le> length input \<and> 4 \<le> n \<and> len \<le> kMaxBodySize \<and> n \<le> kMaxHeaderSize + len \<and>
     length (rq_body request) = len \<and> rq_body request = substr input (n - len) len"
  by (rule rq_parse_bounds [OF assms])

theorem request_bounds_witness:
  "\<exists>r. rq_parse (rq_dump demo_post) = Finished 78 r 2 \<and> length (rq_body r) = 2"
  using demo_finished request_bounds [of "rq_dump demo_post" 78 _ 2] by auto

text \<open>Whatever is fed to it and however often it is reset, a request parser is never both
  finished and failed, a finished one holds a body of the announced length within the limit, and a
  finished or failed one consumes nothing until it is reset.\<close>

theorem request_parser_states:
  assumes "rq_parser_reach p"
  shows "\<not> (p_finished p \<and> p_hasError p) \<and>
     (p_finished p \<longrightarrow> length (rq_body (p_data p)) = p_content_length p \<and> p_content_length p \<le> kMaxBodySize) \<and>
     (p_finished p \<or> p_hasError p \<longrightarrow> p_execute input p = (0, p))"
  using rq_parser_reach_inv [OF assms] by (simp add: rq_parser_inv_def p_execute_def)

theorem request_parser_states_witness:
  "\<not> (p_finished (snd (p_execute CRLF2 HttpRequestParser)) \<and> p_hasError (snd (p_execute CRLF2 HttpRequestParser)))"
  using request_parser_states [OF rq_parser_reach.intros(2) [OF rq_parser_reach.intros(1)]] by blast

text \<open>C14: Serialising a well-formed request and parsing the bytes, whatever follows them, finishes
  after exactly those bytes and yields the same method, version, target, body, connection
  semantics and headers.\<close>

theorem request_round_trip:
  assumes "wf_request r"
  shows "\<exists>r'. rq_parse (rq_dump r @ rest) = Finished (length (rq_dump r)) r' (length (rq_body r)) \<and> same_message r' r"
  by (rule rq_parse_dump [OF assms])

theorem request_round_trip_witness:
  "\<exists>r'. rq_parse (rq_dump demo_post @ ''GET'') = Finished (length (rq_dump demo_post)) r' 2 \<and> rq_body r' = ''hi''"
  using request_round_trip [OF demo_post_wf, of "''GET''"] demo_post_body
  by (auto simp: same_message_def)

end
