(* ===== verification/Http_Session.thy ===== *)
theory Http_Session
  imports Stream Http_Parser
begin

text \<open>
  \<open>HttpSession\<close> (include/droplet/http/http_session.h, src/http/http_session.cc): the server's side
  of a connection, a socket stream with the bytes received and not yet parsed.  The loop of
  \<open>recvRequest\<close> parses what is buffered and reads on until a request is complete.  \<open>errno\<close> and the
  log lines are not modelled.
\<close>

record http_session =
  hs_stream :: "char socket_stream"
  hs_input :: string
  hs_parse_error :: HttpParseError
  hs_parse_message :: string

definition HttpSession :: "char socket_stream \<Rightarrow> http_session" where
  "HttpSession socket =
     \<lparr> hs_stream = socket, hs_input = [], hs_parse_error = E_NONE, hs_parse_message = [] \<rparr>"

definition hs_close :: "http_session \<Rightarrow> http_session" where
  "hs_close s = s\<lparr> hs_stream := ss_close (hs_stream s) \<rparr>"

definition hs_isConnected :: "http_session \<Rightarrow> bool" where
  "hs_isConnected s \<longleftrightarrow> ss_connected (hs_stream s)"

definition getPendingInputSize :: "http_session \<Rightarrow> nat" where
  "getPendingInputSize s = length (hs_input s)"

text \<open>What the loop does with the buffered bytes: the buffer, the bytes consumed and the parser
  after \<open>execute\<close>, which is called only on a buffer that is not empty.\<close>

definition parse_buffered :: "request_parser \<Rightarrow> string \<Rightarrow> nat \<times> string \<times> request_parser" where
  "parse_buffered parser input =
     (if input = [] then (0, input, parser)
      else case p_execute_buffer (Some input) parser of
        (consumed, buf, parser') \<Rightarrow> (consumed, (case buf of None \<Rightarrow> input | Some b \<Rightarrow> b), parser'))"

lemma sock_recv_less:
  "sock_recv n s = (bytes, s') \<Longrightarrow> bytes \<noteq> [] \<Longrightarrow> length (ss_pending s') < length (ss_pending s)"
  by (auto simp: sock_recv_def simp flip: length_greater_0_conv split: list.splits if_splits)

lemma ss_read_less:
  assumes "ss_read False n s = ((count, bytes), s')" "0 < count"
  shows "length (ss_pending s') < length (ss_pending s)"
proof -
  have e: "sock_recv n s = (bytes, s')" "count = to_int (int (length bytes))"
    using assms by (auto simp: ss_read_def split: if_splits prod.splits)
  have "bytes \<noteq> []" using assms(2) e(2) by (auto simp: to_int_def)
  from sock_recv_less [OF e(1) this] show ?thesis .
qed

function recv_loop :: "request_parser \<Rightarrow> http_session \<Rightarrow> http_request option \<times> http_session" where
  "recv_loop parser s =
     (let buffered = length (hs_input s);
          (consumed, input, parser') = parse_buffered parser (hs_input s);
          s1 = s\<lparr> hs_input := input \<rparr>
      in if hs_input s \<noteq> [] \<and> p_hasError parser'
         then (None, hs_close (s1\<lparr> hs_parse_error := p_error parser',
                                   hs_parse_message := p_error_message parser' \<rparr>))
         else if hs_input s \<noteq> [] \<and> p_finished parser'
         then (Some (p_data parser'), s1\<lparr> hs_input := take (buffered - consumed) input \<rparr>)
         else case ss_read False kDefaultBufferSize (hs_stream s1) of
           ((count, bytes), stream) \<Rightarrow>
             let s2 = s1\<lparr> hs_stream := stream \<rparr>
             in if count \<le> 0 then (None, hs_close s2)
                else recv_loop parser' (s2\<lparr> hs_input := input @ bytes \<rparr>))"
  by pat_completeness auto
termination
  by (relation "measure (\<lambda>(_, s). length (ss_pending (hs_stream s)))")
     (auto dest!: ss_read_less [OF sym] simp del: length_concat)

declare recv_loop.simps [simp del]

definition recvRequest :: "http_session \<Rightarrow> http_request option \<times> http_session" where
  "recvRequest s =
     recv_loop HttpRequestParser (s\<lparr> hs_parse_error := E_NONE, hs_parse_message := [] \<rparr>)"

definition sendResponse :: "http_response option \<Rightarrow> http_session \<Rightarrow> int \<times> http_session" where
  "sendResponse response s =
     (case response of
        None \<Rightarrow> (- 1, s)
      | Some r \<Rightarrow>
          let data = rs_dump r;
              (n, stream) = writeFixSize ss_write_all (Some data) (length data) (hs_stream s)
          in (n, s\<lparr> hs_stream := stream \<rparr>))"

section \<open>Receiving depends only on the bytes\<close>

text \<open>The bytes of the connection no request has used yet: those buffered, then those the socket
  still holds.\<close>

definition hs_unread :: "http_session \<Rightarrow> string" where
  "hs_unread s = hs_input s @ ss_pending (hs_stream s)"

definition hs_alive :: "http_session \<Rightarrow> bool" where
  "hs_alive s \<longleftrightarrow> ss_alive (hs_stream s)"

text \<open>What a call returns and leaves, as a function of the unread bytes alone.\<close>

definition received :: "string \<Rightarrow> http_session \<Rightarrow> http_request option \<times> http_session \<Rightarrow> bool" where
  "received bytes s = (\<lambda>(result, s').
     ss_sent (hs_stream s') = ss_sent (hs_stream s) \<and> ss_accept (hs_stream s') = ss_accept (hs_stream s) \<and>
     (case rq_parse bytes of
        Finished n request len \<Rightarrow>
          result = Some request \<and> hs_alive s' \<and> hs_unread s' = drop n bytes \<and> hs_parse_error s' = E_NONE
      | Failed e message \<Rightarrow>
          result = None \<and> \<not> hs_isConnected s' \<and> hs_parse_error s' = e \<and> hs_parse_message s' = message
      | Incomplete \<Rightarrow>
          result = None \<and> \<not> hs_isConnected s' \<and> hs_parse_error s' = E_NONE))"

lemma take_moved:
  "n \<le> length xs \<Longrightarrow> take (length xs - n) (memmove_front xs n) = drop n xs"
  by (auto simp: memmove_front_def)

lemma rq_parse_Nil: "rq_parse [] = Incomplete"
  by (simp add: rq_parse_def)

lemma sock_recv_accept: "sock_recv n s = (bytes, s') \<Longrightarrow> ss_accept s' = ss_accept s"
  by (auto simp: sock_recv_def split: list.splits if_splits)

lemma ss_read_buffer:
  assumes "ss_alive s"
  obtains bytes s' where "ss_read False kDefaultBufferSize s = ((int (length bytes), bytes), s')"
    "ss_pending s = bytes @ ss_pending s'" "ss_sent s' = ss_sent s" "ss_alive s'"
    "ss_accept s' = ss_accept s" "bytes = [] \<longrightarrow> ss_pending s = []"
proof -
  obtain r bytes s' where r: "ss_read False kDefaultBufferSize s = ((r, bytes), s')"
    by (metis prod.collapse)
  have "0 < kDefaultBufferSize" "kDefaultBufferSize \<le> INT_MAX"
    by (simp_all add: kDefaultBufferSize_def INT_MAX_def)
  from ss.rd_law [OF assms this r] have law: "r = int (length bytes)" "ss_pending s = bytes @ ss_pending s'"
    "ss_sent s' = ss_sent s" "ss_alive s'" "bytes = [] \<longrightarrow> ss_pending s = []" by blast+
  have "ss_accept s' = ss_accept s"
    using r by (auto simp: ss_read_def sock_recv_accept split: if_splits prod.splits)
  from that [OF r [unfolded law(1)] law(2-4) this law(5)] show thesis .
qed

lemma recv_loop_received:
  "hs_alive s \<Longrightarrow> hs_parse_error s = E_NONE \<Longrightarrow>
   received (hs_unread s) s (recv_loop HttpRequestParser s)"
proof (induction "length (ss_pending (hs_stream s))" arbitrary: s rule: less_induct)
  case less
  let ?i = "hs_input s"
  have fresh: "\<not> p_finished HttpRequestParser" "\<not> p_hasError HttpRequestParser" "p_error HttpRequestParser = E_NONE"
    by (simp_all add: HttpRequestParser_def p_hasError_def)
  have exec: "?i \<noteq> [] \<Longrightarrow> parse_buffered HttpRequestParser ?i =
      (let (n, p) = p_parse ?i HttpRequestParser in (n, memmove_front ?i n, p))"
    using fresh by (simp add: parse_buffered_def p_execute_buffer_def split: prod.splits)
  show ?case
  proof (cases "rq_parse ?i")
    case (Finished n request len)
    then have ne: "?i \<noteq> []" using rq_parse_Nil by auto
    have all: "rq_parse (hs_unread s) = Finished n request len"
      using rq_parse_append [of ?i] Finished by (simp add: hs_unread_def)
    have n: "n \<le> length ?i" using rq_parse_bounds [OF Finished] by simp
    have "recv_loop HttpRequestParser s = (Some request, s\<lparr> hs_input := drop n ?i \<rparr>)"
      using ne fresh Finished take_moved [OF n]
      by (subst recv_loop.simps) (simp add: exec p_parse_def p_hasError_def)
    then show ?thesis using all n less.prems
      by (simp add: received_def hs_unread_def hs_alive_def)
  next
    case (Failed e message)
    then have ne: "?i \<noteq> []" using rq_parse_Nil by auto
    have all: "rq_parse (hs_unread s) = Failed e message"
      using rq_parse_append [of ?i] Failed by (simp add: hs_unread_def)
    have "e \<noteq> E_NONE" using rq_parse_error_real Failed by blast
    then show ?thesis using ne Failed all
      by (subst recv_loop.simps)
         (simp add: exec p_parse_def p_setError_def p_hasError_def received_def hs_close_def ss_close_def
            hs_isConnected_def)
  next
    case Incomplete
    have same: "parse_buffered HttpRequestParser ?i = (0, ?i, HttpRequestParser)"
      using Incomplete exec by (cases "?i = []") (simp_all add: parse_buffered_def p_parse_def memmove_front_def)
    have "ss_alive (hs_stream s)" using less.prems(1) by (simp add: hs_alive_def)
    then obtain bytes stream where rd:
      "ss_read False kDefaultBufferSize (hs_stream s) = ((int (length bytes), bytes), stream)"
      "ss_pending (hs_stream s) = bytes @ ss_pending stream" "ss_sent stream = ss_sent (hs_stream s)"
      "ss_alive stream" "ss_accept stream = ss_accept (hs_stream s)"
      "bytes = [] \<longrightarrow> ss_pending (hs_stream s) = []"
      by (rule ss_read_buffer)
    show ?thesis
    proof (cases "bytes = []")
      case True
      then have "hs_unread s = ?i" using rd by (simp add: hs_unread_def)
      then show ?thesis using Incomplete True rd same fresh less.prems
        by (subst recv_loop.simps)
           (simp add: received_def hs_close_def ss_close_def hs_isConnected_def)
    next
      case False
      let ?s = "s\<lparr> hs_stream := stream, hs_input := ?i @ bytes \<rparr>"
      have next_state: "recv_loop HttpRequestParser s = recv_loop HttpRequestParser ?s"
        using False rd(1) same fresh by (subst recv_loop.simps) simp
      have unread: "hs_unread ?s = hs_unread s" using rd(2) by (simp add: hs_unread_def)
      have "length (ss_pending (hs_stream ?s)) < length (ss_pending (hs_stream s))"
        unfolding rd(2) using False by simp
      from less.hyps [OF this] less.prems rd(4) have "received (hs_unread ?s) ?s (recv_loop HttpRequestParser ?s)"
        by (simp add: hs_alive_def)
      then show ?thesis unfolding next_state unread using rd(3,5)
        by (auto simp: received_def split: prod.splits)
    qed
  qed
qed

lemma recvRequest_received:
  "hs_alive s \<Longrightarrow> received (hs_unread s) s (recvRequest s)"
  using recv_loop_received [of "s\<lparr> hs_parse_error := E_NONE, hs_parse_message := [] \<rparr>"]
  by (simp add: recvRequest_def hs_alive_def hs_unread_def received_def)

fun recv_requests :: "nat \<Rightarrow> http_session \<Rightarrow> http_request option list \<times> http_session" where
  "recv_requests 0 s = ([], s)"
| "recv_requests (Suc n) s =
     (let (r, s1) = recvRequest s; (rs, s2) = recv_requests n s1 in (r # rs, s2))"

lemma recv_dump:
  assumes "wf_request r" "hs_alive s" "hs_unread s = rq_dump r @ rest"
  obtains r' s' where "recvRequest s = (Some r', s')" "same_message r' r" "hs_alive s'" "hs_unread s' = rest"
    "ss_sent (hs_stream s') = ss_sent (hs_stream s)" "ss_accept (hs_stream s') = ss_accept (hs_stream s)"
proof -
  obtain r' where r': "rq_parse (hs_unread s) = Finished (length (rq_dump r)) r' (length (rq_body r))"
    "same_message r' r"
    using rq_parse_dump [OF assms(1)] assms(3) by auto
  obtain result s' where e: "recvRequest s = (result, s')" by (cases "recvRequest s")
  have "received (hs_unread s) s (result, s')" using recvRequest_received [OF assms(2)] unfolding e .
  with r' that [of r' s'] e assms(3) show thesis by (simp add: received_def)
qed

lemma sendResponse_all:
  assumes "hs_alive s" "ss_accept (hs_stream s) = []" "0 < length (rs_dump r)" "length (rs_dump r) \<le> INT_MAX"
  shows "sendResponse (Some r) s = (int (length (rs_dump r)),
     s\<lparr> hs_stream := (hs_stream s)\<lparr> ss_sent := ss_sent (hs_stream s) @ rs_dump r \<rparr> \<rparr>)"
proof -
  let ?d = "rs_dump r" and ?st = "hs_stream s"
  have small: "\<not> length ?d > SSIZE_MAX" using assms(4) by (simp add: SSIZE_MAX_def INT_MAX_def)
  have wr: "ss_write_all ?d ?st = (int (length ?d), ?st\<lparr> ss_sent := ss_sent ?st @ ?d \<rparr>)"
    using assms small
    by (simp add: ss_write_def hs_alive_def ss_alive_def sock_send_def to_int_small)
  have "writeFix_loop ss_write_all ?d 0 (length ?d) ?st =
      (int (length ?d), ?st\<lparr> ss_sent := ss_sent ?st @ ?d \<rparr>)"
    using assms wr by (subst writeFix_loop.simps) (simp add: writeFix_loop.simps to_int_small)
  then show ?thesis by (simp add: sendResponse_def writeFixSize_def Let_def)
qed

section \<open>Properties\<close>

definition demo_session :: http_session where
  "demo_session = HttpSession \<lparr> ss_connected = True,
     ss_incoming = [take 10 (rq_dump demo_post), drop 10 (rq_dump demo_post) @ rq_dump demo_post],
     ss_sent = [], ss_accept = [] \<rparr>"

lemma demo_session_facts:
  "hs_alive demo_session" "hs_unread demo_session = rq_dump demo_post @ rq_dump demo_post"
proof -
  have "rq_dump demo_post \<noteq> []" "take 10 (rq_dump demo_post) \<noteq> []" "drop 10 (rq_dump demo_post) \<noteq> []"
    using demo_post_length by auto
  then show "hs_alive demo_session" "hs_unread demo_session = rq_dump demo_post @ rq_dump demo_post"
    by (simp_all add: demo_session_def HttpSession_def hs_alive_def hs_unread_def ss_alive_def)
qed

text \<open>C10: Receiving a request depends only on the bytes of the connection, not on how the network
  cuts them nor on what was buffered before: if they start with an acceptable request, exactly that
  request is returned, exactly its bytes are used up and the connection stays open; if they are
  malformed, the call reports the parser's error and closes; if they end early it closes without a
  parse error.  Nothing is sent in any case.\<close>

theorem recv_request_exact:
  assumes "hs_alive s"
  shows "\<exists>result s'. recvRequest s = (result, s') \<and> ss_sent (hs_stream s') = ss_sent (hs_stream s) \<and>
     (case rq_parse (hs_unread s) of
        Finished n request len \<Rightarrow>
          result = Some request \<and> hs_alive s' \<and> hs_unread s' = drop n (hs_unread s) \<and> hs_parse_error s' = E_NONE
      | Failed e message \<Rightarrow>
          result = None \<and> \<not> hs_isConnected s' \<and> hs_parse_error s' = e \<and> hs_parse_message s' = message
      | Incomplete \<Rightarrow> result = None \<and> \<not> hs_isConnected s' \<and> hs_parse_error s' = E_NONE)"
  using recvRequest_received [OF assms] unfolding received_def by (cases "recvRequest s") simp

theorem recv_request_exact_witness:
  "\<exists>r s'. recvRequest demo_session = (Some r, s') \<and> hs_unread s' = rq_dump demo_post"
proof -
  obtain r where "rq_parse (hs_unread demo_session) = Finished (length (rq_dump demo_post)) r 2"
    using rq_parse_dump [OF demo_post_wf, of "rq_dump demo_post"] demo_post_body
    by (auto simp: demo_session_facts)
  then show ?thesis using recv_request_exact [OF demo_session_facts(1)]
    by (auto simp: demo_session_facts)
qed

text \<open>Pipelined requests come out one by one: if the bytes of a connection, in whatever
  segments, are the serialisations of well-formed requests followed by anything, successive calls
  return the same messages in the same order, and what follows is left unread.\<close>

theorem pipelined_requests:
  assumes "\<forall>r \<in> set rs. wf_request r" "hs_alive s" "hs_unread s = concat (map rq_dump rs) @ rest"
  shows "\<exists>rs' s'. recv_requests (length rs) s = (map Some rs', s') \<and> list_all2 same_message rs' rs \<and>
     hs_alive s' \<and> hs_unread s' = rest"
  using assms
proof (induction rs arbitrary: s)
  case Nil
  then show ?case by simp
next
  case (Cons r rs)
  have "hs_unread s = rq_dump r @ (concat (map rq_dump rs) @ rest)" using Cons.prems(3) by simp
  then obtain r' s' where "recvRequest s = (Some r', s')" "same_message r' r" "hs_alive s'"
    "hs_unread s' = concat (map rq_dump rs) @ rest"
    using recv_dump [of r s "concat (map rq_dump rs) @ rest"] Cons.prems by (metis list.set_intros(1))
  moreover from Cons.IH [OF _ this(3,4)] Cons.prems(1) obtain rs' s'' where
    "recv_requests (length rs) s' = (map Some rs', s'')" "list_all2 same_message rs' rs" "hs_alive s''"
    "hs_unread s'' = rest" by auto
  ultimately show ?case by (intro exI [of _ "r' # rs'"] exI [of _ s'']) simp
qed

theorem pipelined_requests_witness:
  "\<exists>r1 r2 s'. recv_requests 2 demo_session = ([Some r1, Some r2], s') \<and> rq_body r2 = ''hi''"
proof -
  from pipelined_requests [of "[demo_post, demo_post]" demo_session "[]"] demo_post_wf demo_session_facts
  obtain rs' s' where "recv_requests 2 demo_session = (map Some rs', s')"
    "list_all2 same_message rs' [demo_post, demo_post]" by (auto simp: numeral_2_eq_2)
  then show ?thesis using demo_post_body
    by (auto simp: list_all2_Cons2 same_message_def)
qed

end
