(* ===== verification/Http_Server.thy ===== *)
theory Http_Server
  imports Http_Session
begin

text \<open>
  Servlets, their routing table and the HTTP server's connection loop
  (include/droplet/http/servlet.h, src/http/servlet.cc, src/http/http_server.cc).  A callback is user
  code: any function of the exchange, which may change the pointed-to request, response and session
  and a state of its own, and may throw.  The server's configuration is a function of that state, so
  that callbacks and other threads can change it between requests.  \<open>fnmatch\<close> belongs to the C
  library and is a parameter, \<open>matches pattern uri\<close>.  The two \<open>catch\<close> clauses do the same apart
  from the log line and are one branch.
\<close>

section \<open>Servlets\<close>

record 'w exchange =
  ex_request :: http_request
  ex_response :: http_response
  ex_session :: http_session
  ex_world :: 'w

text \<open>The two flags say that the request and the response pointer are null.\<close>

type_synonym 'w callback = "bool \<Rightarrow> bool \<Rightarrow> ('w exchange, int) op"

datatype 'w servlet =
    FunctionServlet "'w callback option"
  | NotFoundServlet (server_name: string) (content: string)
  | OtherServlet "'w callback"

definition make_NotFoundServlet :: "string \<Rightarrow> 'w servlet" where
  "make_NotFoundServlet name = NotFoundServlet name
     (''<!doctype html><html><head><title>404 Not Found</title></head>'' @
      ''<body><h1>404 Not Found</h1><hr><p>'' @ name @ ''</p></body></html>'')"

definition on_response :: "(http_response \<Rightarrow> http_response) \<Rightarrow> 'w exchange \<Rightarrow> 'w exchange" where
  "on_response f e = e\<lparr> ex_response := f (ex_response e) \<rparr>"

definition internal_error :: "string \<Rightarrow> http_response \<Rightarrow> http_response" where
  "internal_error text r = r\<lparr> rs_status := STATUS_INTERNAL_SERVER_ERROR, rs_body := text \<rparr>"

definition handle_FunctionServlet :: "'w callback option \<Rightarrow> 'w callback" where
  "handle_FunctionServlet cb rq_null rs_null e =
     (case cb of
        Some f \<Rightarrow> f rq_null rs_null e
      | None \<Rightarrow>
          (Inr (- 1), if rs_null then e else on_response (internal_error ''Servlet callback is empty'') e))"

definition not_found_response :: "string \<Rightarrow> string \<Rightarrow> http_response \<Rightarrow> http_response" where
  "not_found_response name text r =
     (let r1 = r\<lparr> rs_status := STATUS_NOT_FOUND \<rparr>;
          r2 = (if rs_hasHeader ''Server'' r1 = None then rs_setHeader ''Server'' name r1 else r1);
          r3 = rs_setHeader ''Content-Type'' ''text/html; charset=utf-8'' r2
      in r3\<lparr> rs_body := text \<rparr>)"

definition handle_NotFoundServlet :: "string \<Rightarrow> string \<Rightarrow> 'w callback" where
  "handle_NotFoundServlet name text rq_null rs_null e =
     (if rs_null then (Inr (- 1), e) else (Inr 0, on_response (not_found_response name text) e))"

fun servlet_handle :: "'w servlet \<Rightarrow> 'w callback" where
  "servlet_handle (FunctionServlet cb) = handle_FunctionServlet cb"
| "servlet_handle (NotFoundServlet name text) = handle_NotFoundServlet name text"
| "servlet_handle (OtherServlet f) = f"

section \<open>The routing table\<close>

record 'w dispatch =
  exact_routes :: "string \<rightharpoonup> 'w servlet"
  glob_routes :: "(string \<times> 'w servlet) list"
  default_servlet :: "'w servlet option"

definition ServletDispatch :: "string \<Rightarrow> 'w dispatch" where
  "ServletDispatch name = \<lparr> exact_routes = Map.empty, glob_routes = [],
                            default_servlet = Some (make_NotFoundServlet name) \<rparr>"

definition delServlet :: "string \<Rightarrow> 'w dispatch \<Rightarrow> bool \<times> 'w dispatch" where
  "delServlet uri d =
     (case exact_routes d uri of
        None \<Rightarrow> (False, d)
      | Some _ \<Rightarrow> (True, d\<lparr> exact_routes := (exact_routes d)(uri := None) \<rparr>))"

text \<open>\<open>find_if\<close> and \<open>erase\<close>: the first route of the pattern is removed.\<close>

fun glob_find :: "string \<Rightarrow> (string \<times> 'w servlet) list \<Rightarrow> 'w servlet option" where
  "glob_find pattern [] = None"
| "glob_find pattern ((p, s) # rs) = (if p = pattern then Some s else glob_find pattern rs)"

fun glob_erase :: "string \<Rightarrow> (string \<times> 'w servlet) list \<Rightarrow> (string \<times> 'w servlet) list" where
  "glob_erase pattern [] = []"
| "glob_erase pattern ((p, s) # rs) = (if p = pattern then rs else (p, s) # glob_erase pattern rs)"

definition delGlobServlet :: "string \<Rightarrow> 'w dispatch \<Rightarrow> bool \<times> 'w dispatch" where
  "delGlobServlet pattern d =
     (case glob_find pattern (glob_routes d) of
        None \<Rightarrow> (False, d)
      | Some _ \<Rightarrow> (True, d\<lparr> glob_routes := glob_erase pattern (glob_routes d) \<rparr>))"

definition addServlet :: "string \<Rightarrow> 'w servlet option \<Rightarrow> 'w dispatch \<Rightarrow> 'w dispatch" where
  "addServlet uri servlet d =
     (case servlet of
        None \<Rightarrow> snd (delServlet uri d)
      | Some s \<Rightarrow> d\<lparr> exact_routes := (exact_routes d)(uri \<mapsto> s) \<rparr>)"

definition addServlet_callback :: "string \<Rightarrow> 'w callback option \<Rightarrow> 'w dispatch \<Rightarrow> 'w dispatch" where
  "addServlet_callback uri cb = addServlet uri (Some (FunctionServlet cb))"

definition addGlobServlet :: "string \<Rightarrow> 'w servlet option \<Rightarrow> 'w dispatch \<Rightarrow> 'w dispatch" where
  "addGlobServlet pattern servlet d =
     (case servlet of
        None \<Rightarrow> snd (delGlobServlet pattern d)
      | Some s \<Rightarrow>
          let routes = (if glob_find pattern (glob_routes d) \<noteq> None
                        then glob_erase pattern (glob_routes d) else glob_routes d)
          in d\<lparr> glob_routes := routes @ [(pattern, s)] \<rparr>)"

definition addGlobServlet_callback :: "string \<Rightarrow> 'w callback option \<Rightarrow> 'w dispatch \<Rightarrow> 'w dispatch" where
  "addGlobServlet_callback pattern cb = addGlobServlet pattern (Some (FunctionServlet cb))"

definition getServlet :: "string \<Rightarrow> 'w dispatch \<Rightarrow> 'w servlet option" where
  "getServlet uri d = exact_routes d uri"

definition getGlobServlet :: "string \<Rightarrow> 'w dispatch \<Rightarrow> 'w servlet option" where
  "getGlobServlet pattern d = glob_find pattern (glob_routes d)"

fun first_match :: "(string \<Rightarrow> string \<Rightarrow> bool) \<Rightarrow> string \<Rightarrow> (string \<times> 'w servlet) list \<Rightarrow> 'w servlet option" where
  "first_match matches uri [] = None"
| "first_match matches uri ((p, s) # rs) =
     (if matches p uri then Some s else first_match matches uri rs)"

definition getMatchedServlet ::
  "(string \<Rightarrow> string \<Rightarrow> bool) \<Rightarrow> string \<Rightarrow> 'w dispatch \<Rightarrow> 'w servlet option" where
  "getMatchedServlet matches uri d =
     (case exact_routes d uri of
        Some s \<Rightarrow> Some s
      | None \<Rightarrow>
          (case first_match matches uri (glob_routes d) of
             Some s \<Rightarrow> Some s
           | None \<Rightarrow> default_servlet d))"

definition setDefault :: "'w servlet option \<Rightarrow> 'w dispatch \<Rightarrow> 'w dispatch" where
  "setDefault servlet d = d\<lparr> default_servlet := servlet \<rparr>"

definition dispatch_handle :: "(string \<Rightarrow> string \<Rightarrow> bool) \<Rightarrow> 'w dispatch \<Rightarrow> 'w callback" where
  "dispatch_handle matches d rq_null rs_null e =
     (if rq_null \<or> rs_null then (Inr (- 1), e)
      else case getMatchedServlet matches (rq_path (ex_request e)) d of
        None \<Rightarrow> (Inr (- 1), on_response (internal_error ''No default servlet is configured'') e)
      | Some s \<Rightarrow> servlet_handle s False False e)"

section \<open>The server\<close>

record 'w http_server =
  srv_name :: string
  srv_keep_alive :: bool
  srv_dispatch :: "'w dispatch option"

definition HttpServer :: "string \<Rightarrow> bool \<Rightarrow> 'w http_server" where
  "HttpServer name keep_alive =
     \<lparr> srv_name = name, srv_keep_alive = keep_alive, srv_dispatch = Some (ServletDispatch name) \<rparr>"

definition setServletDispatch :: "'w dispatch option \<Rightarrow> 'w http_server \<Rightarrow> 'w http_server" where
  "setServletDispatch d srv =
     srv\<lparr> srv_dispatch := (case d of Some d' \<Rightarrow> Some d' | None \<Rightarrow> Some (ServletDispatch (srv_name srv))) \<rparr>"

definition srv_setName :: "string \<Rightarrow> 'w http_server \<Rightarrow> 'w http_server" where
  "srv_setName name srv =
     (let srv1 = srv\<lparr> srv_name := name \<rparr>
      in case srv_dispatch srv1 of
           None \<Rightarrow> srv1
         | Some d \<Rightarrow> srv1\<lparr> srv_dispatch := Some (setDefault (Some (make_NotFoundServlet name)) d) \<rparr>)"

text \<open>The part of the loop body between a request received and its response sent: the response is
  created, the dispatcher runs on it, and the connection semantics are settled.  The result is the
  response to send, whether the connection closes after it, and the session and state left.\<close>

definition run_dispatch ::
  "(string \<Rightarrow> string \<Rightarrow> bool) \<Rightarrow> 'w http_server \<Rightarrow> 'w exchange \<Rightarrow> 'w exchange" where
  "run_dispatch matches server e =
     (case srv_dispatch server of
        None \<Rightarrow> on_response (internal_error ''No servlet dispatcher is configured'') e
      | Some d \<Rightarrow>
          (case dispatch_handle matches d False False e of
             (Inr _, e1) \<Rightarrow> e1
           | (Inl _, e1) \<Rightarrow> on_response (internal_error ''Internal Server Error'') e1))"

definition initial_response :: "'w http_server \<Rightarrow> http_request \<Rightarrow> http_response" where
  "initial_response server request =
     (rs_setHeader ''Server'' (srv_name server) (createResponse request))
       \<lparr> rs_close := rq_close request \<or> \<not> srv_keep_alive server \<rparr>"

definition respond ::
  "(string \<Rightarrow> string \<Rightarrow> bool) \<Rightarrow> ('w \<Rightarrow> 'w http_server) \<Rightarrow> http_request \<Rightarrow> http_session \<times> 'w \<Rightarrow>
   http_response \<times> bool \<times> http_session \<times> 'w" where
  "respond matches server_of request = (\<lambda>(session, w).
     let server = server_of w;
         e = run_dispatch matches server
               \<lparr> ex_request = request, ex_response = initial_response server request,
                 ex_session = session, ex_world = w \<rparr>;
         close_after_response = rs_close (ex_response e) \<or> rq_close (ex_request e) \<or> \<not> srv_keep_alive server;
         response = (ex_response e)\<lparr> rs_close := close_after_response \<rparr>;
         response' = (if rq_method (ex_request e) = HEAD then response\<lparr> rs_body := [] \<rparr> else response)
     in (response', close_after_response, ex_session e, ex_world e))"

text \<open>One round of the loop: whether it goes on, and the session and state after it.\<close>

definition serve_one ::
  "(string \<Rightarrow> string \<Rightarrow> bool) \<Rightarrow> ('w \<Rightarrow> 'w http_server) \<Rightarrow> http_session \<times> 'w \<Rightarrow>
   bool \<times> http_session \<times> 'w" where
  "serve_one matches server_of = (\<lambda>(session, w).
     case recvRequest session of
       (None, session1) \<Rightarrow> (False, session1, w)
     | (Some request, session1) \<Rightarrow>
         let (response, close_after_response, session2, w') =
               respond matches server_of request (session1, w);
             (sent, session3) = sendResponse (Some response) session2
         in (\<not> (sent \<le> 0 \<or> close_after_response), session3, w'))"

text \<open>The loop itself may run for ever when a callback keeps feeding the session; \<open>None\<close> says so.\<close>

partial_function (option) serve_loop ::
  "(string \<Rightarrow> string \<Rightarrow> bool) \<Rightarrow> ('w \<Rightarrow> 'w http_server) \<Rightarrow> http_session \<times> 'w \<Rightarrow>
   (http_session \<times> 'w) option" where
  "serve_loop matches server_of s =
     (if hs_isConnected (fst s)
      then (if fst (serve_one matches server_of s)
            then serve_loop matches server_of (snd (serve_one matches server_of s))
            else Some (snd (serve_one matches server_of s)))
      else Some s)"

definition handleClient ::
  "(string \<Rightarrow> string \<Rightarrow> bool) \<Rightarrow> ('w \<Rightarrow> 'w http_server) \<Rightarrow> char socket_stream \<Rightarrow> 'w \<Rightarrow>
   (http_session \<times> 'w) option" where
  "handleClient matches server_of client w =
     (case serve_loop matches server_of (HttpSession client, w) of
        None \<Rightarrow> None
      | Some (session, w') \<Rightarrow> Some (hs_close session, w'))"

section \<open>What a connection answers\<close>

text \<open>The requests a byte sequence carries.\<close>

function requests_of :: "string \<Rightarrow> http_request list" where
  "requests_of bytes =
     (case rq_parse bytes of
        Finished n request len \<Rightarrow> request # requests_of (drop n bytes)
      | _ \<Rightarrow> [])"
  by pat_completeness auto
termination
  by (relation "measure length") (use rq_parse_bounds in \<open>fastforce+\<close>)

declare requests_of.simps [simp del]

text \<open>The answers to a list of requests, up to the first that closes the connection, and the state
  left, for servlets that neither look at nor touch the session.\<close>

definition session_blind :: "(string \<Rightarrow> string \<Rightarrow> bool) \<Rightarrow> ('w \<Rightarrow> 'w http_server) \<Rightarrow> bool" where
  "session_blind matches server_of \<longleftrightarrow> (\<forall>w e s. run_dispatch matches (server_of w) (e\<lparr> ex_session := s \<rparr>) =
     (run_dispatch matches (server_of w) e)\<lparr> ex_session := s \<rparr>)"

definition no_session :: http_session where
  "no_session = HttpSession \<lparr> ss_connected = False, ss_incoming = [], ss_sent = [], ss_accept = [] \<rparr>"

fun answers ::
  "(string \<Rightarrow> string \<Rightarrow> bool) \<Rightarrow> ('w \<Rightarrow> 'w http_server) \<Rightarrow> http_request list \<Rightarrow> 'w \<Rightarrow> http_response list \<times> 'w" where
  "answers matches server_of [] w = ([], w)"
| "answers matches server_of (r # rs) w =
     (case respond matches server_of r (no_session, w) of
        (response, close_after_response, _, w1) \<Rightarrow>
          if close_after_response then ([response], w1)
          else let (rest, w2) = answers matches server_of rs w1 in (response # rest, w2))"

lemma respond_blind:
  assumes "session_blind matches server_of" "respond matches server_of r (no_session, w) = (resp, c, s0, w')"
  shows "respond matches server_of r (s, w) = (resp, c, s, w')"
proof -
  let ?e = "\<lparr> ex_request = r, ex_response = initial_response (server_of w) r, ex_session = no_session, ex_world = w \<rparr>"
  have "run_dispatch matches (server_of w) (?e\<lparr> ex_session := s \<rparr>) =
      (run_dispatch matches (server_of w) ?e)\<lparr> ex_session := s \<rparr>"
    using assms(1) unfolding session_blind_def by blast
  then have "run_dispatch matches (server_of w) \<lparr> ex_request = r, ex_response = initial_response (server_of w) r,
      ex_session = s, ex_world = w \<rparr> = (run_dispatch matches (server_of w) ?e)\<lparr> ex_session := s \<rparr>" by simp
  then show ?thesis using assms(2) by (auto simp: respond_def Let_def)
qed

lemma rs_dump_nonempty: "0 < length (rs_dump r)"
  by (simp add: rs_dump_def)

lemma serve_loop_closed: "\<not> hs_isConnected s \<Longrightarrow> serve_loop matches server_of (s, w) = Some (s, w)"
  by (subst serve_loop.simps) simp

lemma serve_loop_answers:
  assumes blind: "session_blind matches server_of"
  shows "hs_alive s \<Longrightarrow> ss_accept (hs_stream s) = [] \<Longrightarrow>
    (\<forall>r \<in> set (fst (answers matches server_of (requests_of (hs_unread s)) w)). length (rs_dump r) \<le> INT_MAX) \<Longrightarrow>
    \<exists>s'. serve_loop matches server_of (s, w) = Some (s', snd (answers matches server_of (requests_of (hs_unread s)) w)) \<and>
      ss_sent (hs_stream s') = ss_sent (hs_stream s) @
        concat (map rs_dump (fst (answers matches server_of (requests_of (hs_unread s)) w)))"
proof (induction "length (hs_unread s)" arbitrary: s w rule: less_induct)
  case less
  have conn: "hs_isConnected s" using less.prems(1) by (simp add: hs_alive_def ss_alive_def hs_isConnected_def)
  obtain result s1 where recv: "recvRequest s = (result, s1)" by (cases "recvRequest s")
  have got: "received (hs_unread s) s (result, s1)" using recvRequest_received [OF less.prems(1)] unfolding recv .
  show ?case
  proof (cases "rq_parse (hs_unread s)")
    case (Finished n r len)
    have g: "result = Some r" "hs_alive s1" "hs_unread s1 = drop n (hs_unread s)"
      "ss_sent (hs_stream s1) = ss_sent (hs_stream s)" "ss_accept (hs_stream s1) = []"
      using got Finished less.prems(2) by (simp_all add: received_def)
    have reqs: "requests_of (hs_unread s) = r # requests_of (hs_unread s1)"
      by (subst requests_of.simps) (simp add: Finished g(3))
    obtain resp c s0 w1 where ans: "respond matches server_of r (no_session, w) = (resp, c, s0, w1)"
      by (metis prod.collapse)
    note res = respond_blind [OF blind ans, of s1]
    have small: "length (rs_dump resp) \<le> INT_MAX"
      using less.prems(3) unfolding reqs by (simp add: ans split: if_splits prod.splits)
    define s2 where "s2 = s1\<lparr> hs_stream := (hs_stream s1)\<lparr> ss_sent := ss_sent (hs_stream s1) @ rs_dump resp \<rparr> \<rparr>"
    have send: "sendResponse (Some resp) s1 = (int (length (rs_dump resp)), s2)"
      unfolding s2_def by (rule sendResponse_all [OF g(2,5) rs_dump_nonempty small])
    have pos: "\<not> int (length (rs_dump resp)) \<le> 0" using rs_dump_nonempty [of resp] by simp
    have one: "serve_one matches server_of (s, w) = (\<not> c, s2, w1)"
      using recv g(1) res send pos by (simp add: serve_one_def Let_def)
    have sent: "ss_sent (hs_stream s2) = ss_sent (hs_stream s) @ rs_dump resp" by (simp add: s2_def g(4))
    show ?thesis
    proof (cases c)
      case True
      then have "serve_loop matches server_of (s, w) = Some (s2, w1)"
        using conn one by (subst serve_loop.simps) simp
      then show ?thesis unfolding reqs using True ans sent by simp
    next
      case False
      have next_round: "serve_loop matches server_of (s, w) = serve_loop matches server_of (s2, w1)"
        using conn one False by (subst serve_loop.simps) simp
      have u: "hs_unread s2 = hs_unread s1" by (simp add: s2_def hs_unread_def)
      have "4 \<le> n \<and> n \<le> length (hs_unread s)" using rq_parse_bounds [OF Finished] by simp
      then have "length (hs_unread s2) < length (hs_unread s)" unfolding u g(3) length_drop by linarith
      moreover have "hs_alive s2" "ss_accept (hs_stream s2) = []"
        using g(2,5) by (simp_all add: s2_def hs_alive_def ss_alive_def)
      moreover have "\<forall>r \<in> set (fst (answers matches server_of (requests_of (hs_unread s2)) w1)).
          length (rs_dump r) \<le> INT_MAX"
        using less.prems(3) False unfolding reqs u by (simp add: ans split: prod.splits)
      ultimately obtain s' where "serve_loop matches server_of (s2, w1) =
            Some (s', snd (answers matches server_of (requests_of (hs_unread s2)) w1))"
          "ss_sent (hs_stream s') = ss_sent (hs_stream s2) @
            concat (map rs_dump (fst (answers matches server_of (requests_of (hs_unread s2)) w1)))"
        using less.hyps by blast
      then show ?thesis unfolding reqs next_round u using False ans sent by (simp split: prod.splits)
    qed
  next
    case (Failed e message)
    have "requests_of (hs_unread s) = []" by (subst requests_of.simps) (simp add: Failed)
    moreover have "serve_one matches server_of (s, w) = (False, s1, w)" "ss_sent (hs_stream s1) = ss_sent (hs_stream s)"
      using got recv Failed by (auto simp: received_def serve_one_def)
    ultimately show ?thesis using conn by (subst serve_loop.simps) simp
  next
    case Incomplete
    have "requests_of (hs_unread s) = []" by (subst requests_of.simps) (simp add: Incomplete)
    moreover have "serve_one matches server_of (s, w) = (False, s1, w)" "ss_sent (hs_stream s1) = ss_sent (hs_stream s)"
      using got recv Incomplete by (auto simp: received_def serve_one_def)
    ultimately show ?thesis using conn by (subst serve_loop.simps) simp
  qed
qed

section \<open>The connection loop ends\<close>

lemma sock_send_incoming:
  "sock_send bs s = (n, s') \<Longrightarrow> ss_incoming s' = ss_incoming s \<and> ss_connected s' = ss_connected s"
  by (auto simp: sock_send_def split: list.splits)

lemma ss_write_incoming:
  "ss_write buf n s = (r, s') \<Longrightarrow> ss_incoming s' = ss_incoming s \<and> ss_connected s' = ss_connected s"
  by (auto simp: ss_write_def split: if_splits prod.splits dest!: sock_send_incoming)

lemma writeFix_loop_incoming:
  "writeFix_loop ss_write_all buf offset len s = (r, s') \<Longrightarrow>
   ss_incoming s' = ss_incoming s \<and> ss_connected s' = ss_connected s"
proof (induction "len - offset" arbitrary: offset s rule: less_induct)
  case less
  show ?case
  proof (cases "offset < len")
    case True
    obtain r1 s1 where w: "ss_write_all (take (len - offset) (drop offset buf)) s = (r1, s1)"
      by (metis prod.collapse)
    note same = ss_write_incoming [OF w]
    show ?thesis
    proof (cases "r1 \<le> 0")
      case False
      then have "writeFix_loop ss_write_all buf (offset + nat r1) len s1 = (r, s')"
        using less.prems True w by (simp add: writeFix_loop.simps [of _ _ offset])
      moreover have "len - (offset + nat r1) < len - offset" using False True by simp
      ultimately show ?thesis using less.hyps same by metis
    qed (use less.prems True w same in \<open>simp add: writeFix_loop.simps [of _ _ offset]\<close>)
  qed (use less.prems in \<open>simp add: writeFix_loop.simps [of _ _ offset]\<close>)
qed

lemma sendResponse_unread:
  assumes "sendResponse r s = (n, s')"
  shows "hs_unread s' = hs_unread s" "hs_alive s' = hs_alive s"
  using assms
  by (auto simp: sendResponse_def writeFixSize_def Let_def hs_unread_def hs_alive_def ss_alive_def
      split: option.splits prod.splits dest!: writeFix_loop_incoming)

lemma serve_loop_ends:
  assumes quiet: "\<And>w e. ex_session (run_dispatch matches (server_of w) e) = ex_session e"
  shows "hs_alive s \<Longrightarrow> \<exists>r. serve_loop matches server_of (s, w) = Some r"
proof (induction "length (hs_unread s)" arbitrary: s w rule: less_induct)
  case less
  obtain result s1 where recv: "recvRequest s = (result, s1)" by (cases "recvRequest s")
  have got: "received (hs_unread s) s (result, s1)" using recvRequest_received [OF less.prems] unfolding recv .
  show ?case
  proof (cases result)
    case None
    then show ?thesis using recv by (subst serve_loop.simps) (simp add: serve_one_def)
  next
    case (Some r)
    obtain n len where f: "rq_parse (hs_unread s) = Finished n r len"
      using got Some by (auto simp: received_def split: outcome.splits)
    then have g: "hs_alive s1" "hs_unread s1 = drop n (hs_unread s)" using got by (simp_all add: received_def)
    obtain resp c s2 w2 where ans: "respond matches server_of r (s1, w) = (resp, c, s2, w2)"
      by (metis prod.collapse)
    then have s2: "s2 = s1" using quiet by (auto simp: respond_def Let_def)
    obtain k s3 where send: "sendResponse (Some resp) s2 = (k, s3)" by (metis prod.collapse)
    have one: "serve_one matches server_of (s, w) = (\<not> (k \<le> 0 \<or> c), s3, w2)"
      using recv Some ans send by (simp add: serve_one_def)
    have "4 \<le> n" "n \<le> length (hs_unread s)" using rq_parse_bounds [OF f] by simp_all
    moreover have "hs_unread s3 = drop n (hs_unread s)"
      using sendResponse_unread(1) [OF send] g(2) unfolding s2 by simp
    ultimately have "length (hs_unread s3) < length (hs_unread s)" by (simp only: length_drop)
    moreover have "hs_alive s3" using sendResponse_unread(2) [OF send] g(1) unfolding s2 by simp
    ultimately obtain r where "serve_loop matches server_of (s3, w2) = Some r" using less.hyps by blast
    then show ?thesis using one by (subst serve_loop.simps) simp
  qed
qed

section \<open>The routing table\<close>

text \<open>Every table the operations build.\<close>

inductive routes_reach :: "'w dispatch \<Rightarrow> bool" where
  "routes_reach (ServletDispatch name)"
| "routes_reach d \<Longrightarrow> routes_reach (addServlet uri servlet d)"
| "routes_reach d \<Longrightarrow> routes_reach (addGlobServlet pattern servlet d)"
| "routes_reach d \<Longrightarrow> routes_reach (snd (delServlet uri d))"
| "routes_reach d \<Longrightarrow> routes_reach (snd (delGlobServlet pattern d))"
| "routes_reach d \<Longrightarrow> routes_reach (setDefault servlet d)"

abbreviation without :: "string \<Rightarrow> (string \<times> 'w servlet) list \<Rightarrow> (string \<times> 'w servlet) list" where
  "without pattern rs \<equiv> filter (\<lambda>r. fst r \<noteq> pattern) rs"

lemma glob_erase_filter: "distinct (map fst rs) \<Longrightarrow> glob_erase pattern rs = without pattern rs"
  by (induction rs) (auto simp: filter_id_conv intro!: filter_True [symmetric])

lemma glob_find_map_of: "glob_find pattern rs = map_of rs pattern"
  by (induction rs) auto

lemma glob_find_None: "glob_find pattern rs = None \<longleftrightarrow> pattern \<notin> fst ` set rs"
  by (simp add: glob_find_map_of map_of_eq_None_iff)

lemma without_absent: "pattern \<notin> fst ` set rs \<Longrightarrow> without pattern rs = rs"
  by (auto simp: filter_id_conv)

lemma add_glob_routes:
  "distinct (map fst (glob_routes d)) \<Longrightarrow>
   glob_routes (addGlobServlet pattern (Some s) d) = without pattern (glob_routes d) @ [(pattern, s)]"
  using glob_erase_filter [of "glob_routes d" pattern] without_absent [of pattern "glob_routes d"]
  by (auto simp: addGlobServlet_def Let_def glob_find_None)

lemma del_glob_routes:
  "distinct (map fst (glob_routes d)) \<Longrightarrow>
   glob_routes (snd (delGlobServlet pattern d)) = without pattern (glob_routes d)"
  using glob_erase_filter [of "glob_routes d" pattern] without_absent [of pattern "glob_routes d"]
  by (auto simp: delGlobServlet_def glob_find_None split: option.split)

lemma distinct_without: "distinct (map fst rs) \<Longrightarrow> distinct (map fst (without pattern rs))"
  by (induction rs) auto

lemma exact_ops_glob [simp]:
  "glob_routes (addServlet uri servlet d) = glob_routes d" "glob_routes (snd (delServlet uri d)) = glob_routes d"
  "glob_routes (setDefault servlet d) = glob_routes d"
  by (auto simp: addServlet_def delServlet_def setDefault_def split: option.split)

lemma glob_ops_exact [simp]:
  "exact_routes (addGlobServlet pattern servlet d) = exact_routes d"
  "exact_routes (snd (delGlobServlet pattern d)) = exact_routes d"
  "default_servlet (addGlobServlet pattern servlet d) = default_servlet d"
  "default_servlet (snd (delGlobServlet pattern d)) = default_servlet d"
  by (auto simp: addGlobServlet_def delGlobServlet_def Let_def split: option.split)

lemma routes_distinct: "routes_reach d \<Longrightarrow> distinct (map fst (glob_routes d))"
proof (induction rule: routes_reach.induct)
  case (3 d pattern servlet)
  then show ?case
  proof (cases servlet)
    case None
    then have "addGlobServlet pattern servlet d = snd (delGlobServlet pattern d)" by (simp add: addGlobServlet_def)
    then show ?thesis using 3 by (simp add: del_glob_routes distinct_without)
  next
    case (Some s)
    have "pattern \<notin> fst ` set (without pattern (glob_routes d))" by auto
    then show ?thesis using 3 Some by (simp add: add_glob_routes distinct_without)
  qed
qed (simp_all add: ServletDispatch_def del_glob_routes distinct_without)

lemma first_match_find: "first_match matches uri rs = map_option snd (find (\<lambda>r. matches (fst r) uri) rs)"
  by (induction rs) auto

lemma handleClient_sends:
  assumes "session_blind matches server_of" "ss_alive client" "ss_accept client = []"
    and "\<forall>r \<in> set (fst (answers matches server_of (requests_of (ss_pending client)) w)). length (rs_dump r) \<le> INT_MAX"
  shows "\<exists>s'. handleClient matches server_of client w =
       Some (s', snd (answers matches server_of (requests_of (ss_pending client)) w)) \<and>
     ss_sent (hs_stream s') = ss_sent client @
       concat (map rs_dump (fst (answers matches server_of (requests_of (ss_pending client)) w))) \<and>
     \<not> hs_isConnected s'"
proof -
  have u: "hs_unread (HttpSession client) = ss_pending client" "hs_stream (HttpSession client) = client"
    by (simp_all add: hs_unread_def HttpSession_def)
  have "hs_alive (HttpSession client)" using assms(2) by (simp add: hs_alive_def u)
  from serve_loop_answers [OF assms(1) this, of w] assms(3,4) show ?thesis
    unfolding u handleClient_def
    by (auto simp: hs_close_def ss_close_def hs_isConnected_def)
qed

section \<open>Properties\<close>

text \<open>C2: What the HTTP server sends is a function of the bytes it receives: for servlets that leave
  the session alone, serving a connection whose peer takes what it is sent ends, and the bytes sent
  are the serialised answers to the requests those bytes carry, in order and one for each, up to the
  first answer that closes the connection; how the network cut the bytes plays no role.\<close>

theorem handle_client_answers:
  assumes "session_blind matches server_of" "ss_alive client" "ss_accept client = []"
    and "\<forall>r \<in> set (fst (answers matches server_of (requests_of (ss_pending client)) w)). length (rs_dump r) \<le> INT_MAX"
  shows "\<exists>s'. handleClient matches server_of client w =
       Some (s', snd (answers matches server_of (requests_of (ss_pending client)) w)) \<and>
     ss_sent (hs_stream s') = ss_sent client @
       concat (map rs_dump (fst (answers matches server_of (requests_of (ss_pending client)) w))) \<and>
     \<not> hs_isConnected s'"
  by (rule handleClient_sends [OF assms])

definition demo_server :: "unit \<Rightarrow> unit http_server" where
  "demo_server w = HttpServer ''droplet'' True"

definition demo_response :: http_response where
  "demo_response = not_found_response ''droplet'' (content (make_NotFoundServlet ''droplet'' :: unit servlet))
     ((rs_setHeader ''Server'' ''droplet'' (HttpResponse 0x11 False))\<lparr> rs_close := False \<rparr>)"

lemma demo_dispatch:
  "run_dispatch matches (demo_server w) e =
   on_response (not_found_response ''droplet'' (content (make_NotFoundServlet ''droplet'' :: unit servlet))) e"
  by (simp add: run_dispatch_def demo_server_def HttpServer_def ServletDispatch_def dispatch_handle_def
      getMatchedServlet_def make_NotFoundServlet_def handle_NotFoundServlet_def)

lemma demo_blind: "session_blind matches demo_server"
  by (simp add: session_blind_def demo_dispatch on_response_def)

lemma demo_respond:
  assumes "same_message r demo_post"
  shows "respond matches demo_server r (no_session, w) = (demo_response, False, no_session, w)"
proof -
  have "rq_version demo_post = 0x11 \<and> \<not> rq_close demo_post \<and> rq_method demo_post \<noteq> HEAD" by code_simp
  then have r: "rq_version r = 0x11" "\<not> rq_close r" "rq_method r \<noteq> HEAD"
    using assms by (auto simp: same_message_def)
  have "\<not> rs_close demo_response" by code_simp
  moreover have "initial_response (demo_server w) r =
      (rs_setHeader ''Server'' ''droplet'' (HttpResponse 0x11 False))\<lparr> rs_close := False \<rparr>"
    using r by (simp add: initial_response_def demo_server_def HttpServer_def createResponse_def)
  ultimately show ?thesis using r
    by (simp add: respond_def demo_dispatch on_response_def Let_def flip: demo_response_def)
       (simp add: demo_server_def HttpServer_def)
qed

lemma demo_requests:
  "\<exists>r1 r2. requests_of (rq_dump demo_post @ rq_dump demo_post) = [r1, r2] \<and>
     same_message r1 demo_post \<and> same_message r2 demo_post"
proof -
  obtain r1 where r1: "rq_parse (rq_dump demo_post @ rq_dump demo_post) = Finished (length (rq_dump demo_post)) r1 2"
    "same_message r1 demo_post"
    using rq_parse_dump [OF demo_post_wf, of "rq_dump demo_post"] demo_post_body by auto
  obtain r2 where r2: "rq_parse (rq_dump demo_post) = Finished (length (rq_dump demo_post)) r2 2"
    "same_message r2 demo_post"
    using rq_parse_dump [OF demo_post_wf, of "[]"] demo_post_body by auto
  show ?thesis using r1 r2
    by (auto simp: requests_of.simps [of "_ @ _"] requests_of.simps [of "rq_dump demo_post"]
        requests_of.simps [of "[]"] rq_parse_Nil)
qed

lemma demo_response_length: "length (rs_dump demo_response) \<le> 1000"
  by code_simp

abbreviation demo_client :: "char socket_stream" where
  "demo_client \<equiv> hs_stream demo_session"

lemma demo_client_facts: "ss_alive demo_client" "ss_accept demo_client = []" "ss_sent demo_client = []"
    "ss_pending demo_client = rq_dump demo_post @ rq_dump demo_post"
  using demo_session_facts
  by (simp_all add: hs_alive_def hs_unread_def demo_session_def HttpSession_def)

lemma demo_answers:
  "answers matches demo_server (requests_of (ss_pending demo_client)) () = ([demo_response, demo_response], ())"
  using demo_requests demo_respond by (auto simp: demo_client_facts)

theorem handle_client_answers_witness:
  "\<exists>s'. handleClient (\<lambda>_ _. False) demo_server demo_client () = Some (s', ()) \<and>
     ss_sent (hs_stream s') = rs_dump demo_response @ rs_dump demo_response \<and> \<not> hs_isConnected s'"
proof -
  have "length (rs_dump demo_response) \<le> INT_MAX"
    using demo_response_length by (simp add: INT_MAX_def)
  then show ?thesis
    using handle_client_answers [OF demo_blind demo_client_facts(1,2), of "\<lambda>_ _. False" "()"]
    unfolding demo_answers by (simp add: demo_client_facts)
qed

text \<open>C27: Serving a connection always ends with the connection closed when the servlets do not replace
  the session, whatever the peer sends, however little it accepts and whatever the servlets throw.\<close>

theorem handle_client_terminates:
  assumes "\<And>w e. ex_session (run_dispatch matches (server_of w) e) = ex_session e" "ss_alive client"
  shows "\<exists>s' w'. handleClient matches server_of client w = Some (s', w') \<and> \<not> hs_isConnected s'"
proof -
  have "hs_alive (HttpSession client)" using assms(2) by (simp add: hs_alive_def HttpSession_def)
  from serve_loop_ends [of matches server_of, OF assms(1) this, of w] show ?thesis
    by (auto simp: handleClient_def hs_close_def ss_close_def hs_isConnected_def)
qed

theorem handle_client_terminates_witness:
  "\<exists>s' w'. handleClient (\<lambda>_ _. True) demo_server (demo_client\<lparr> ss_accept := [3, 0] \<rparr>) () = Some (s', w') \<and>
     \<not> hs_isConnected s'"
  by (rule handle_client_terminates)
     (use demo_client_facts in \<open>simp_all add: demo_dispatch on_response_def ss_alive_def\<close>)

text \<open>Whatever the operations, a routing table keeps one glob route per pattern; registering a
  pattern again moves it behind the others, deleting reports whether it was there, and a request is
  served by its exact route, else by the first glob route in registration order that matches, else
  by the default servlet.\<close>

theorem routing_table:
  assumes "routes_reach d"
  shows "distinct (map fst (glob_routes d)) \<and>
     glob_routes (addGlobServlet p (Some s) d) = filter (\<lambda>r. fst r \<noteq> p) (glob_routes d) @ [(p, s)] \<and>
     (fst (delGlobServlet p d) = (p \<in> fst ` set (glob_routes d))) \<and>
     glob_routes (snd (delGlobServlet p d)) = filter (\<lambda>r. fst r \<noteq> p) (glob_routes d) \<and>
     getServlet uri (addServlet u (Some s) d) = (if uri = u then Some s else getServlet uri d) \<and>
     getServlet uri (addServlet u None d) = (if uri = u then None else getServlet uri d) \<and>
     getMatchedServlet matches uri d =
       (case getServlet uri d of Some e \<Rightarrow> Some e
        | None \<Rightarrow> (case find (\<lambda>r. matches (fst r) uri) (glob_routes d) of
            Some r \<Rightarrow> Some (snd r) | None \<Rightarrow> default_servlet d))"
proof -
  note dist = routes_distinct [OF assms]
  have "fst (delGlobServlet p d) = (p \<in> fst ` set (glob_routes d))"
    using glob_find_None [of p "glob_routes d"] by (auto simp: delGlobServlet_def split: option.split)
  moreover have "getServlet uri (addServlet u (Some s) d) = (if uri = u then Some s else getServlet uri d)"
    "getServlet uri (addServlet u None d) = (if uri = u then None else getServlet uri d)"
    by (auto simp: getServlet_def addServlet_def delServlet_def split: option.split)
  moreover have "getMatchedServlet matches uri d =
       (case getServlet uri d of Some e \<Rightarrow> Some e
        | None \<Rightarrow> (case find (\<lambda>r. matches (fst r) uri) (glob_routes d) of
            Some r \<Rightarrow> Some (snd r) | None \<Rightarrow> default_servlet d))"
    by (simp add: getMatchedServlet_def getServlet_def first_match_find split: option.split)
  ultimately show ?thesis
    using dist add_glob_routes [OF dist, of p s] del_glob_routes [OF dist, of p] by (simp only:)
qed

theorem routing_table_witness:
  "glob_routes (addGlobServlet ''/a*'' (Some (FunctionServlet None))
     (addGlobServlet ''/b*'' (Some (FunctionServlet None)) (addGlobServlet ''/a*'' (Some (FunctionServlet None))
       (ServletDispatch ''droplet'' :: unit dispatch)))) =
   [(''/b*'', FunctionServlet None), (''/a*'', FunctionServlet None)]"
proof -
  have r: "routes_reach (addGlobServlet ''/b*'' (Some (FunctionServlet None))
     (addGlobServlet ''/a*'' (Some (FunctionServlet None)) (ServletDispatch ''droplet'' :: unit dispatch)))"
    by (intro routes_reach.intros)
  show ?thesis
    using routing_table [OF r, of "''/a*''" "FunctionServlet None" "[]" "[]" "\<lambda>_ _. True"]
    by (simp add: addGlobServlet_def ServletDispatch_def)
qed

text \<open>A servlet that throws costs its client nothing but the page: the exchange is answered with
  status 500 and a fixed body (none to a HEAD), with the headers set so far, and the connection is
  kept or closed exactly as the request and the server's setting ask, unless the servlet asked to
  close.\<close>

theorem servlet_exception_answered:
  assumes "srv_dispatch (server_of w) = Some d"
    and "dispatch_handle matches d False False \<lparr> ex_request = r, ex_response = initial_response (server_of w) r,
       ex_session = s, ex_world = w \<rparr> = (Inl ex, e1)"
  shows "\<exists>response close. respond matches server_of r (s, w) = (response, close, ex_session e1, ex_world e1) \<and>
     rs_status response = STATUS_INTERNAL_SERVER_ERROR \<and>
     rs_body response = (if rq_method (ex_request e1) = HEAD then [] else ''Internal Server Error'') \<and>
     rs_headers response = rs_headers (ex_response e1) \<and> rs_close response = close \<and>
     (close \<longleftrightarrow> rs_close (ex_response e1) \<or> rq_close (ex_request e1) \<or> \<not> srv_keep_alive (server_of w))"
  using assms by (simp add: respond_def run_dispatch_def on_response_def internal_error_def Let_def)

definition failing_dispatch :: "unit dispatch" where
  "failing_dispatch = setDefault (Some (OtherServlet (\<lambda>_ _ e. (Inl (Runtime_error ''boom''), e))))
     (ServletDispatch ''x'')"

definition failing_server :: "unit \<Rightarrow> unit http_server" where
  "failing_server w = (HttpServer ''x'' True)\<lparr> srv_dispatch := Some failing_dispatch \<rparr>"

theorem servlet_exception_answered_witness:
  "\<exists>response close. respond (\<lambda>_ _. True) failing_server demo_post (no_session, ()) =
       (response, close, no_session, ()) \<and>
     rs_status response = STATUS_INTERNAL_SERVER_ERROR \<and> \<not> close"
proof -
  have c: "\<not> rq_close demo_post" by code_simp
  let ?e = "\<lparr> ex_request = demo_post, ex_response = initial_response (failing_server ()) demo_post,
              ex_session = no_session, ex_world = () \<rparr>"
  have d: "srv_dispatch (failing_server ()) = Some failing_dispatch" by (simp add: failing_server_def)
  have f: "dispatch_handle (\<lambda>_ _. True) failing_dispatch False False ?e = (Inl (Runtime_error ''boom''), ?e)"
    by (simp add: dispatch_handle_def getMatchedServlet_def failing_dispatch_def setDefault_def ServletDispatch_def)
  from servlet_exception_answered [where server_of = failing_server and w = "()", OF d f] c show ?thesis
    by (auto simp: initial_response_def failing_server_def HttpServer_def)
qed

end
