(* ===== verification/Http_Response_Parser.thy ===== *)
theory Http_Response_Parser
  imports Http_Parser
begin

text \<open>
  \<open>HttpResponseParser\<close> (include/droplet/http/http_parser.h, src/http/http_parser.cc): the status
  line, the header loop that collects repeated Transfer-Encoding and Connection headers, and the
  three framings of a body: Content-Length, chunked with trailers, and close-delimited, which
  needs the caller's \<open>eof\<close>.
\<close>

section \<open>Helpers\<close>

text \<open>The loop of \<open>HeaderContainsFinalChunked\<close> over the comma-separated codings: \<open>saw_token\<close>,
  \<open>saw_chunked\<close> and \<open>final_chunked\<close> are its three flags.\<close>

fun final_chunked_loop :: "string list \<Rightarrow> bool \<Rightarrow> bool \<Rightarrow> bool \<Rightarrow> bool" where
  "final_chunked_loop [] saw_token saw_chunked final_chunked = (saw_token \<and> final_chunked)"
| "final_chunked_loop (part # parts) saw_token saw_chunked final_chunked =
     (let token = Trim part
      in if token = [] then False
         else let coding = Trim (case find_char CHR '';'' token of None \<Rightarrow> token | Some i \<Rightarrow> substr token 0 i)
              in if coding = [] then False
                 else if saw_chunked then False
                 else let is_chunked = CaseInsensitiveEqual coding ''chunked''
                      in final_chunked_loop parts True is_chunked is_chunked)"

definition HeaderContainsFinalChunked :: "string \<Rightarrow> bool" where
  "HeaderContainsFinalChunked v = final_chunked_loop (split_on CHR '','' v) False False False"

definition ResponseHasNoBody :: "HttpMethod \<Rightarrow> nat \<Rightarrow> bool" where
  "ResponseHasNoBody request_method status \<longleftrightarrow>
     request_method = HEAD \<or> (request_method = CONNECT \<and> status \<ge> 200 \<and> status < 300) \<or>
     (status \<ge> 100 \<and> status < 200) \<or> status = 204 \<or> status = 304"

definition ParseChunkSize :: "string \<Rightarrow> nat option" where
  "ParseChunkSize text =
     (let line = Trim (case find_char CHR '';'' text of None \<Rightarrow> text | Some i \<Rightarrow> substr text 0 i)
      in if line = [] then None
         else case from_chars 16 (2 ^ 64 - 1) line of
           Some (result, []) \<Rightarrow> Some result
         | _ \<Rightarrow> None)"

section \<open>Status line\<close>

definition parse_status_line :: "string \<Rightarrow> parse_error + (http_response \<times> nat)" where
  "parse_status_line status_line =
     (if length status_line < 12 \<or> status_line ! 8 \<noteq> SP
      then Inl (E_INVALID_STATUS, ''HTTP status line must contain version and status code'')
      else if substr status_line 0 8 \<noteq> ''HTTP/1.1'' \<and> substr status_line 0 8 \<noteq> ''HTTP/1.0''
      then Inl (E_INVALID_VERSION, ''only HTTP/1.0 and HTTP/1.1 responses are supported'')
      else
        let version = (if substr status_line 0 8 = ''HTTP/1.1'' then 0x11 else 0x10 :: u8);
            reason_begin = find_char_from SP status_line 9;
            status_text = (case reason_begin of None \<Rightarrow> drop 9 status_line
                           | Some i \<Rightarrow> substr status_line 9 (i - 9))
        in if length status_text \<noteq> 3
           then Inl (E_INVALID_STATUS, ''HTTP status code must contain exactly three digits'')
           else case from_chars 10 (2 ^ 16 - 1) status_text of
             Some (status, []) \<Rightarrow>
               if status < 100 \<or> status > 999 then Inl (E_INVALID_STATUS, ''invalid HTTP status code'')
               else let reason = (case reason_begin of None \<Rightarrow> [] | Some i \<Rightarrow> drop (i + 1) status_line)
                    in if \<not> IsValidHeaderValue reason
                       then Inl (E_INVALID_STATUS, ''HTTP reason phrase contains an invalid character'')
                       else Inr ((HttpResponse version (version \<le> 0x10))
                                   \<lparr> rs_status := word_of_nat status, rs_reason := reason \<rparr>, status)
           | _ \<Rightarrow> Inl (E_INVALID_STATUS, ''invalid HTTP status code''))"

section \<open>Header lines\<close>

record rs_headers_state =
  h_response :: http_response
  h_length_seen :: bool
  h_te_seen :: bool
  h_connection_seen :: bool
  h_length :: nat
  h_te :: string
  h_connection :: string

definition rs_take_header :: "string \<Rightarrow> string \<Rightarrow> rs_headers_state \<Rightarrow> parse_error + rs_headers_state" where
  "rs_take_header name v h =
     (let is_te = CaseInsensitiveEqual name ''transfer-encoding'';
          is_connection = CaseInsensitiveEqual name ''connection'';
          noted =
            (if CaseInsensitiveEqual name ''content-length'' then
               (if h_length_seen h then Inl content_length_error
                else case ParseContentLength v of
                  None \<Rightarrow> Inl content_length_error
                | Some n \<Rightarrow> Inr (h\<lparr> h_length_seen := True, h_length := n \<rparr>))
             else if is_te then
               Inr (h\<lparr> h_te := (if h_te_seen h then h_te h @ '','' else h_te h) @ v, h_te_seen := True \<rparr>)
             else if is_connection then
               Inr (h\<lparr> h_connection := (if h_connection_seen h then h_connection h @ '','' else h_connection h) @ v,
                       h_connection_seen := True \<rparr>)
             else Inr h)
      in case noted of
           Inl e \<Rightarrow> Inl e
         | Inr h1 \<Rightarrow>
             if CaseInsensitiveEqual name ''set-cookie''
             then Inr (h1\<lparr> h_response := addCookie v (h_response h1) \<rparr>)
             else if \<not> is_te \<and> \<not> is_connection
             then Inr (h1\<lparr> h_response := rs_setHeader name v (h_response h1) \<rparr>)
             else Inr h1)"

function rs_headers_loop ::
  "string \<Rightarrow> nat \<Rightarrow> nat \<Rightarrow> rs_headers_state \<Rightarrow> parse_error + rs_headers_state" where
  "rs_headers_loop input header_end line_begin h =
     (if line_begin < header_end then
        (case find_from CRLF input line_begin of
           None \<Rightarrow> Inl (E_INVALID_HEADER, ''HTTP response header line is not terminated with CRLF'')
         | Some line_end \<Rightarrow>
             if line_end > header_end
             then Inl (E_INVALID_HEADER, ''HTTP response header line is not terminated with CRLF'')
             else let line = substr input line_begin (line_end - line_begin)
             in if line = [] \<or> is_ows (hd line)
                then Inl (E_INVALID_HEADER, ''empty or folded HTTP header line is not supported'')
                else (case header_field (missing_colon ''HTTP response header line'')
                             ''HTTP response header contains an invalid name or value'' line of
                  Inl e \<Rightarrow> Inl e
                | Inr (name, v) \<Rightarrow>
                    (case rs_take_header name v h of
                       Inl e \<Rightarrow> Inl e
                     | Inr h' \<Rightarrow> rs_headers_loop input header_end (line_end + 2) h')))
      else Inr h)"
  by pat_completeness auto
termination
  by (relation "measure (\<lambda>(input, header_end, line_begin, _). header_end - line_begin)")
    (auto dest: find_from_bound)

declare rs_headers_loop.simps [simp del]

section \<open>Chunked bodies\<close>

datatype chunk_result =
    C_fail HttpParseError string
  | C_more
  | C_done nat string http_response

function trailers_loop :: "string \<Rightarrow> nat \<Rightarrow> nat \<Rightarrow> string \<Rightarrow> http_response \<Rightarrow> chunk_result" where
  "trailers_loop input trailers_begin position body response =
     (case find_from CRLF input position of
        None \<Rightarrow>
          if length input - trailers_begin > kMaxHeaderSize
          then C_fail E_HEADER_TOO_LARGE ''HTTP trailers exceed the configured limit''
          else C_more
      | Some trailer_end \<Rightarrow>
          if trailer_end - trailers_begin > kMaxHeaderSize
          then C_fail E_HEADER_TOO_LARGE ''HTTP trailers exceed the configured limit''
          else let trailer = substr input position (trailer_end - position)
               in if trailer = [] then C_done (trailer_end + 2) body response
                  else case header_field (missing_colon ''HTTP trailer line'')
                         ''HTTP trailer contains an invalid name or value'' trailer of
                    Inl (e, message) \<Rightarrow> C_fail e message
                  | Inr (name, v) \<Rightarrow>
                      trailers_loop input trailers_begin (trailer_end + 2) body
                        (if \<not> CaseInsensitiveEqual name ''content-length'' \<and>
                            \<not> CaseInsensitiveEqual name ''transfer-encoding''
                         then rs_setHeader name v response else response))"
  by pat_completeness auto
termination
  by (relation "measure (\<lambda>(input, _, position, _, _). length input - position)")
    (auto dest!: find_from_bound)

declare trailers_loop.simps [simp del]

function chunks_loop :: "string \<Rightarrow> nat \<Rightarrow> string \<Rightarrow> http_response \<Rightarrow> chunk_result" where
  "chunks_loop input position body response =
     (case find_from CRLF input position of
        None \<Rightarrow>
          if length input - position > kMaxHeaderSize
          then C_fail E_HEADER_TOO_LARGE ''HTTP chunk metadata exceeds the configured limit''
          else C_more
      | Some chunk_line_end \<Rightarrow>
          (case ParseChunkSize (substr input position (chunk_line_end - position)) of
             None \<Rightarrow> C_fail E_INVALID_CHUNK_SIZE ''invalid HTTP chunk size''
           | Some chunk_size \<Rightarrow>
               let position1 = chunk_line_end + 2
               in if chunk_size = 0 then trailers_loop input position1 position1 body response
                  else if chunk_size > kMaxBodySize - length body
                  then C_fail E_BODY_TOO_LARGE ''HTTP chunked body exceeds the configured limit''
                  else if chunk_size > SIZE_MAX - position1 - 2
                  then C_fail E_BODY_TOO_LARGE ''HTTP chunk size overflows size_t''
                  else let data_end = position1 + chunk_size
                       in if length input < data_end + 2 then C_more
                          else if substr input data_end 2 \<noteq> CRLF
                          then C_fail E_INVALID_CHUNK_SIZE ''HTTP chunk data is not followed by CRLF''
                          else chunks_loop input (data_end + 2)
                                 (body @ substr input position1 chunk_size) response))"
  by pat_completeness auto
termination
  by (relation "measure (\<lambda>(input, position, _, _). length input - position)")
    (auto dest!: find_from_bound)

declare chunks_loop.simps [simp del]

section \<open>The message\<close>

text \<open>The outcome with the flag \<open>close_delimited_\<close>, which is set before the last checks.\<close>

datatype rs_outcome =
    R_failed HttpParseError string bool
  | R_incomplete bool
  | R_finished nat http_response nat bool bool

definition rs_body_phase ::
  "HttpMethod \<Rightarrow> string \<Rightarrow> bool \<Rightarrow> nat \<Rightarrow> nat \<Rightarrow> rs_headers_state \<Rightarrow> rs_outcome" where
  "rs_body_phase request_method input eof header_size status h =
     (if h_length_seen h \<and> h_te_seen h
      then R_failed E_INVALID_CONTENT_LENGTH ''Content-Length and Transfer-Encoding cannot be combined'' False
      else
        let r1 = (if h_te_seen h then rs_setHeader ''Transfer-Encoding'' (h_te h) (h_response h) else h_response h);
            r2 = (if h_connection_seen h then rs_setHeader ''Connection'' (h_connection h) r1 else r1)
        in if h_length h > kMaxBodySize
           then R_failed E_BODY_TOO_LARGE ''HTTP response body exceeds the configured limit'' False
           else
             let response = rs_initConnection r2
             in if ResponseHasNoBody request_method status
                then R_finished header_size response 0 False False
                else if h_te_seen h then
                  (if \<not> HeaderContainsFinalChunked (h_te h)
                   then R_failed E_UNSUPPORTED_TRANSFER_ENCODING ''the final Transfer-Encoding must be chunked'' False
                   else case chunks_loop input header_size [] response of
                     C_fail e message \<Rightarrow> R_failed e message False
                   | C_more \<Rightarrow> R_incomplete False
                   | C_done position body response' \<Rightarrow>
                       R_finished position (rs_initConnection (response'\<lparr> rs_body := body \<rparr>)) (length body) True False)
                else if h_length_seen h then
                  (if h_length h > SIZE_MAX - header_size
                   then R_failed E_BODY_TOO_LARGE ''HTTP response size overflows size_t'' False
                   else if length input < header_size + h_length h then R_incomplete False
                   else R_finished (header_size + h_length h)
                          (response\<lparr> rs_body := substr input header_size (h_length h) \<rparr>) (h_length h) False False)
                else if length input - header_size > kMaxBodySize
                then R_failed E_BODY_TOO_LARGE ''HTTP close-delimited body exceeds the configured limit'' True
                else if \<not> eof then R_incomplete True
                else let body = drop header_size input
                     in R_finished (length input) (response\<lparr> rs_close := True, rs_body := body \<rparr>) (length body) False True)"

definition rs_parse :: "HttpMethod \<Rightarrow> string \<Rightarrow> bool \<Rightarrow> rs_outcome" where
  "rs_parse request_method input eof =
     (case find_sub CRLF2 input of
        None \<Rightarrow>
          if length input > kMaxHeaderSize
          then R_failed E_HEADER_TOO_LARGE ''HTTP response headers exceed the configured limit'' False
          else R_incomplete False
      | Some header_end \<Rightarrow>
          let header_size = header_end + 4
          in if header_size > kMaxHeaderSize
             then R_failed E_HEADER_TOO_LARGE ''HTTP response headers exceed the configured limit'' False
             else case find_sub CRLF input of
               None \<Rightarrow> R_failed E_INVALID_STATUS ''HTTP status line is incomplete'' False
             | Some status_line_end \<Rightarrow>
                 if status_line_end > header_end
                 then R_failed E_INVALID_STATUS ''HTTP status line is incomplete'' False
                 else case parse_status_line (substr input 0 status_line_end) of
                   Inl (e, message) \<Rightarrow> R_failed e message False
                 | Inr (response, status) \<Rightarrow>
                     (case rs_headers_loop input header_end (status_line_end + 2)
                             \<lparr> h_response = response, h_length_seen = False, h_te_seen = False,
                               h_connection_seen = False, h_length = 0, h_te = [], h_connection = [] \<rparr> of
                        Inl (e, message) \<Rightarrow> R_failed e message False
                      | Inr h \<Rightarrow> rs_body_phase request_method input eof header_size status h))"

record response_parser =
  q_data :: http_response
  q_request_method :: HttpMethod
  q_error :: HttpParseError
  q_error_message :: string
  q_content_length :: nat
  q_chunked :: bool
  q_close_delimited :: bool
  q_finished :: bool

definition HttpResponseParser :: "HttpMethod \<Rightarrow> response_parser" where
  "HttpResponseParser request_method =
     \<lparr> q_data = HttpResponse 0x11 True, q_request_method = request_method, q_error = E_NONE,
       q_error_message = [], q_content_length = 0, q_chunked = False, q_close_delimited = False,
       q_finished = False \<rparr>"

definition q_reset :: "HttpMethod \<Rightarrow> response_parser \<Rightarrow> response_parser" where
  "q_reset request_method q = HttpResponseParser request_method"

definition q_setError :: "HttpParseError \<Rightarrow> string \<Rightarrow> response_parser \<Rightarrow> response_parser" where
  "q_setError e message q = q\<lparr> q_error := e, q_error_message := message, q_finished := False \<rparr>"

definition q_hasError :: "response_parser \<Rightarrow> bool" where
  "q_hasError q \<longleftrightarrow> q_error q \<noteq> E_NONE"

definition q_parse :: "string \<Rightarrow> bool \<Rightarrow> response_parser \<Rightarrow> nat \<times> response_parser" where
  "q_parse input eof q =
     (case rs_parse (q_request_method q) input eof of
        R_failed e message cd \<Rightarrow>
          (0, q_setError e message (q\<lparr> q_close_delimited := q_close_delimited q \<or> cd \<rparr>))
      | R_incomplete cd \<Rightarrow> (0, q\<lparr> q_close_delimited := q_close_delimited q \<or> cd \<rparr>)
      | R_finished n response len chunked cd \<Rightarrow>
          (n, q\<lparr> q_data := response, q_content_length := len, q_chunked := q_chunked q \<or> chunked,
                 q_close_delimited := q_close_delimited q \<or> cd, q_finished := True \<rparr>))"

definition q_execute :: "string \<Rightarrow> bool \<Rightarrow> response_parser \<Rightarrow> nat \<times> response_parser" where
  "q_execute input eof q = (if q_finished q \<or> q_hasError q then (0, q) else q_parse input eof q)"

definition q_execute_buffer ::
  "string option \<Rightarrow> bool \<Rightarrow> response_parser \<Rightarrow> nat \<times> string option \<times> response_parser" where
  "q_execute_buffer data eof q =
     (case data of
        None \<Rightarrow> (0, None, q)
      | Some buf \<Rightarrow>
          if q_finished q \<or> q_hasError q then (0, data, q)
          else let (consumed, q') = q_parse buf eof q in (consumed, Some (memmove_front buf consumed), q'))"

section \<open>Bounds and stability\<close>

lemma trailers_loop_done:
  "trailers_loop input tb pos body r = C_done n b r' \<Longrightarrow>
   n \<le> length input \<and> b = body \<and> trailers_loop (input @ q) tb pos body r = C_done n b r'"
proof (induction input tb pos body r rule: trailers_loop.induct)
  case (1 input tb pos body r)
  note fin = 1(2)
  obtain te where te: "find_from CRLF input pos = Some te"
    using fin by (cases "find_from CRLF input pos") (auto simp: trailers_loop.simps [of input tb pos] split: if_splits)
  have te': "find_from CRLF (input @ q) pos = Some te" by (rule find_from_append [OF te])
  note b = find_from_bound [OF te]
  have sub: "substr (input @ q) pos (te - pos) = substr input pos (te - pos)"
    by (rule substr_append) (use b in simp)
  have small: "\<not> te - tb > kMaxHeaderSize"
    using fin te by (auto simp: trailers_loop.simps [of input tb pos] split: if_splits)
  show ?case
  proof (cases "substr input pos (te - pos) = []")
    case True
    then show ?thesis using fin te te' sub small b
      by (simp add: trailers_loop.simps [of input tb pos] trailers_loop.simps [of "input @ q" tb pos])
  next
    case False
    show ?thesis
    proof (cases "header_field (missing_colon ''HTTP trailer line'')
                    ''HTTP trailer contains an invalid name or value'' (substr input pos (te - pos))")
      case (Inl e)
      then show ?thesis using fin te small False
        by (cases e) (simp add: trailers_loop.simps [of input tb pos] Let_def)
    next
      case (Inr nv)
      obtain name v where nv: "nv = (name, v)" by (cases nv)
      let ?r = "if \<not> CaseInsensitiveEqual name ''content-length'' \<and> \<not> CaseInsensitiveEqual name ''transfer-encoding''
                then rs_setHeader name v r else r"
      have "trailers_loop input tb (te + 2) body ?r = C_done n b r'"
        using fin te small False Inr nv by (simp add: trailers_loop.simps [of input tb pos] Let_def)
      from 1(1) [OF te small refl False Inr nv [symmetric] this] show ?thesis
        using te' sub small False Inr nv
        by (simp add: trailers_loop.simps [of "input @ q" tb pos] Let_def)
    qed
  qed
qed

lemma chunks_loop_done:
  "chunks_loop input pos body r = C_done n b r' \<Longrightarrow> length body \<le> kMaxBodySize \<Longrightarrow>
   n \<le> length input \<and> length b \<le> kMaxBodySize \<and> chunks_loop (input @ q) pos body r = C_done n b r'"
proof (induction input pos body r rule: chunks_loop.induct)
  case (1 input pos body r)
  note fin = 1(2)
  obtain ce where ce: "find_from CRLF input pos = Some ce"
    using fin by (cases "find_from CRLF input pos") (auto simp: chunks_loop.simps [of input pos] split: if_splits)
  have ce': "find_from CRLF (input @ q) pos = Some ce" by (rule find_from_append [OF ce])
  note b = find_from_bound [OF ce]
  have sub: "substr (input @ q) pos (ce - pos) = substr input pos (ce - pos)"
    by (rule substr_append) (use b in simp)
  obtain sz where sz: "ParseChunkSize (substr input pos (ce - pos)) = Some sz"
    using fin ce by (cases "ParseChunkSize (substr input pos (ce - pos))")
      (auto simp: chunks_loop.simps [of input pos])
  note unf = chunks_loop.simps [of input pos] chunks_loop.simps [of "input @ q" pos]
  show ?case
  proof (cases "sz = 0")
    case True
    then have "trailers_loop input (ce + 2) (ce + 2) body r = C_done n b r'"
      using fin ce sz by (simp add: unf(1) Let_def)
    from trailers_loop_done [OF this] show ?thesis
      using True ce' sub sz 1(3) by (simp add: unf(2) Let_def)
  next
    case False
    have g: "\<not> sz > kMaxBodySize - length body" "\<not> sz > SIZE_MAX - (ce + 2) - 2"
      "\<not> length input < ce + 2 + sz + 2" "\<not> substr input (ce + 2 + sz) 2 \<noteq> CRLF"
      using fin ce sz False by (auto simp: unf(1) Let_def split: if_splits)
    have subs: "substr (input @ q) (ce + 2 + sz) 2 = substr input (ce + 2 + sz) 2"
      "substr (input @ q) (ce + 2) sz = substr input (ce + 2) sz"
      using g(3) by (auto intro!: substr_append)
    have rec: "chunks_loop input (ce + 2 + sz + 2) (body @ substr input (ce + 2) sz) r = C_done n b r'"
      using fin ce sz False g by (simp add: unf(1) Let_def)
    have len: "length (body @ substr input (ce + 2) sz) \<le> kMaxBodySize"
      using g(1) 1(3) by simp
    from 1(1) [OF ce sz refl False g(1) g(2) refl g(3) g(4) rec len]
    show ?thesis using ce' sub sz False g subs by (simp add: unf(2) Let_def)
  qed
qed

lemma rs_headers_loop_append:
  "starts_with (drop header_end p) CRLF \<Longrightarrow> header_end + 2 \<le> length p \<Longrightarrow>
   rs_headers_loop (p @ q) header_end line_begin h = rs_headers_loop p header_end line_begin h"
proof (induction p header_end line_begin h rule: rs_headers_loop.induct)
  case (1 p header_end line_begin h)
  show ?case
  proof (cases "line_begin < header_end")
    case False
    then show ?thesis by (simp add: rs_headers_loop.simps [of _ header_end line_begin])
  next
    case True
    then obtain le where le: "le \<le> header_end" "find_from CRLF p line_begin = Some le"
      using find_from_exists [OF 1(2), of line_begin] 1(3) by auto
    have le': "find_from CRLF (p @ q) line_begin = Some le" by (rule find_from_append [OF le(2)])
    have sub: "substr (p @ q) line_begin (le - line_begin) = substr p line_begin (le - line_begin)"
      by (rule substr_append) (use find_from_bound [OF le(2)] in simp)
    note le1 = linorder_not_less [THEN iffD2, OF le(1)]
    let ?line = "substr p line_begin (le - line_begin)"
    note simps = rs_headers_loop.simps [of "p @ q" header_end line_begin]
      rs_headers_loop.simps [of p header_end line_begin] True le(2) le' le1 sub Let_def if_True if_False
      option.case sum.case prod.case simp_thms
    show ?thesis
    proof (cases "?line = [] \<or> is_ows (hd ?line)")
      case bad: True
      then show ?thesis by (simp only: simps)
    next
      case good: False
      show ?thesis
      proof (cases "header_field (missing_colon ''HTTP response header line'')
                      ''HTTP response header contains an invalid name or value'' ?line")
        case (Inl e)
        then show ?thesis using good by (simp only: simps)
      next
        case (Inr nv)
        obtain name v where nv: "nv = (name, v)" by (cases nv)
        show ?thesis
        proof (cases "rs_take_header name v h")
          case (Inl e)
          then show ?thesis using good Inr nv by (simp only: simps)
        next
          case take: (Inr h')
          from 1(1) [OF True le(2) le1 refl good Inr nv [symmetric] take 1(2,3)] show ?thesis
            using good Inr nv take by (simp only: simps)
        qed
      qed
    qed
  qed
qed

lemma rs_body_phase_stable:
  assumes "rs_body_phase m p False hs status h = R_finished n r len ch cd"
  shows "rs_body_phase m (p @ q) eof hs status h = R_finished n r len ch cd"
  using assms chunks_loop_done [where input = p and pos = hs and body = "[]" and q = q]
  by (auto simp: rs_body_phase_def Let_def substr_append split: if_splits chunk_result.splits)

lemma rs_parse_stable_lemma:
  assumes f: "rs_parse m p False = R_finished n r len ch cd"
  shows "rs_parse m (p @ q) eof = R_finished n r len ch cd"
proof -
  obtain h where h: "find_sub CRLF2 p = Some h"
    using f by (cases "find_sub CRLF2 p") (auto simp: rs_parse_def split: if_splits)
  have h4: "h + 4 \<le> length p" using find_sub_bound [OF h] by simp
  have "starts_with (drop h p) CRLF2" by (rule find_sub_hit [OF h])
  then have crlf: "starts_with (drop h p) CRLF"
    by (cases "drop h p"; cases "tl (drop h p)") auto
  obtain l where l: "find_sub CRLF p = Some l" "l \<le> h"
    using find_sub_exists [OF crlf] h4 by auto
  have app: "find_sub CRLF2 (p @ q) = Some h" "find_sub CRLF (p @ q) = Some l"
    using h l by (auto intro: find_sub_append)
  have subs: "substr (p @ q) 0 l = substr p 0 l"
    by (rule substr_append) (use l h4 in simp)
  have loop: "rs_headers_loop (p @ q) h b s = rs_headers_loop p h b s" for b s
    by (rule rs_headers_loop_append [OF crlf]) (use h4 in simp)
  show ?thesis
    using f rs_body_phase_stable unfolding rs_parse_def app h l(1) option.case subs loop
    by (auto simp: Let_def split: if_splits sum.splits prod.splits)
qed


lemma status_line_body: "parse_status_line l = Inr (r, st) \<Longrightarrow> rs_body r = []"
  by (auto simp: parse_status_line_def Let_def HttpResponse_def split: if_splits option.splits list.splits)

lemma take_header_body: "rs_take_header name v h = Inr h' \<Longrightarrow> rs_body (h_response h') = rs_body (h_response h)"
  by (auto simp: rs_take_header_def Let_def addCookie_def rs_setHeader_def split: if_splits option.splits)

lemma rs_headers_loop_body:
  "rs_headers_loop input he lb h = Inr h' \<Longrightarrow> rs_body (h_response h') = rs_body (h_response h)"
proof (induction input he lb h rule: rs_headers_loop.induct)
  case (1 input he lb h)
  show ?case
    using 1(2) 1(1)
    by (subst (asm) rs_headers_loop.simps)
      (auto simp: Let_def take_header_body split: if_splits option.splits sum.splits prod.splits)
qed

lemma rs_body_phase_bounds:
  assumes "rs_body_phase m input eof hs status h = R_finished n r len ch cd"
    "hs \<le> length input" "rs_body (h_response h) = []"
  shows "n \<le> length input \<and> len \<le> kMaxBodySize \<and> length (rs_body r) = len"
  using assms chunks_loop_done [where input = input and pos = hs and body = "[]"]
  by (auto simp: rs_body_phase_def Let_def rs_initConnection_def rs_setHeader_def
      split: if_splits chunk_result.splits)

lemma rs_parse_bounds:
  assumes "rs_parse m input eof = R_finished n r len ch cd"
  shows "n \<le> length input \<and> len \<le> kMaxBodySize \<and> length (rs_body r) = len"
proof -
  obtain h where h: "find_sub CRLF2 input = Some h"
    using assms by (cases "find_sub CRLF2 input") (auto simp: rs_parse_def split: if_splits)
  have "h + 4 \<le> length input" using find_sub_bound [OF h] by simp
  then show ?thesis
    using assms rs_body_phase_bounds status_line_body rs_headers_loop_body
    unfolding rs_parse_def h option.case
    by (fastforce simp: Let_def split: if_splits option.splits sum.splits prod.splits)
qed

section \<open>Chunked bodies decode to what was chunked\<close>

definition encode_chunk :: "string \<Rightarrow> string" where
  "encode_chunk c = show_hex (length c) @ CRLF @ c @ CRLF"

definition encode_chunks :: "string list \<Rightarrow> string" where
  "encode_chunks cs = concat (map encode_chunk cs) @ ''0'' @ CRLF @ CRLF"

lemma hex_char_plain: "d < 16 \<Longrightarrow> hex_char d \<noteq> CHR '';'' \<and> hex_char d \<noteq> CR \<and> \<not> is_ows (hex_char d)"
proof -
  have "list_all (\<lambda>d. hex_char d \<noteq> CHR '';'' \<and> hex_char d \<noteq> CR \<and> \<not> is_ows (hex_char d)) [0..<16]"
    by code_simp
  then show "d < 16 \<Longrightarrow> ?thesis" by (simp add: list_all_iff)
qed

lemma show_hex_plain: "CHR '';'' \<notin> set (show_hex n)" "CR \<notin> set (show_hex n)" "Trim (show_hex n) = show_hex n"
proof -
  have p: "\<forall>c \<in> set (show_hex n). c \<noteq> CHR '';'' \<and> c \<noteq> CR \<and> \<not> is_ows c"
  proof
    fix c
    assume "c \<in> set (show_hex n)"
    then obtain d where d: "d < 16" "c = hex_char d" using show_hex_digits by blast
    show "c \<noteq> CHR '';'' \<and> c \<noteq> CR \<and> \<not> is_ows c"
      unfolding d(2) by (rule hex_char_plain [OF d(1)])
  qed
  then show "CHR '';'' \<notin> set (show_hex n)" "CR \<notin> set (show_hex n)" by blast+
  have "\<not> is_ows (hd (show_hex n))" "\<not> is_ows (last (show_hex n))"
    using bspec [OF p hd_in_set [OF show_hex_nonempty [of n]]]
      bspec [OF p last_in_set [OF show_hex_nonempty [of n]]] by simp_all
  then show "Trim (show_hex n) = show_hex n" by (intro Trim_trimmed) simp_all
qed

lemma ParseChunkSize_show_hex: "n \<le> 2 ^ 64 - 1 \<Longrightarrow> ParseChunkSize (show_hex n) = Some n"
proof -
  assume n: "n \<le> 2 ^ 64 - 1"
  have f: "find_char CHR '';'' (show_hex n) = None"
    using show_hex_plain(1) [of n] by (simp add: find_char_None)
  show ?thesis
    unfolding ParseChunkSize_def f option.case show_hex_plain(3) Let_def from_chars_show_hex [OF n] by simp
qed

lemma chunks_loop_decode:
  "\<forall>c \<in> set cs. c \<noteq> [] \<Longrightarrow> length body + length (concat cs) \<le> kMaxBodySize \<Longrightarrow>
   length A + length (encode_chunks cs) \<le> 2 ^ 63 \<Longrightarrow>
   chunks_loop (A @ encode_chunks cs @ rest) (length A) body r =
     C_done (length A + length (encode_chunks cs)) (body @ concat cs) r"
proof (induction cs arbitrary: A body)
  case Nil
  define inp where "inp = A @ encode_chunks [] @ rest"
  have line: "find_from CRLF inp (length A) = Some (length A + 1)"
    using find_from_crlf_line [of "''0''" A "CRLF @ rest"] by (simp add: inp_def encode_chunks_def)
  have tr: "find_from CRLF inp (length A + 1 + 2) = Some (length A + 1 + 2)"
    using find_from_crlf_line [of "[]" "A @ ''0'' @ CRLF" rest] by (simp add: inp_def encode_chunks_def)
  have sz: "ParseChunkSize (substr inp (length A) (length A + 1 - length A)) = Some 0"
  proof -
    have "substr inp (length A) (length A + 1 - length A) = ''0''"
      by (simp add: inp_def substr_def encode_chunks_def)
    moreover have "show_hex 0 = ''0''" by code_simp
    ultimately show ?thesis using ParseChunkSize_show_hex [of 0] by simp
  qed
  have empty: "substr inp (length A + 1 + 2) (length A + 1 + 2 - (length A + 1 + 2)) = []"
    by (simp add: substr_def)
  have small: "\<not> length A + 1 + 2 - (length A + 1 + 2) > kMaxHeaderSize" by simp
  have "trailers_loop inp (length A + 1 + 2) (length A + 1 + 2) body r = C_done (length A + 1 + 2 + 2) body r"
    by (subst trailers_loop.simps) (simp only: tr option.case small if_False Let_def empty if_True simp_thms)
  then have "chunks_loop inp (length A) body r = C_done (length A + 1 + 2 + 2) body r"
    by (subst chunks_loop.simps) (simp only: line option.case sz Let_def if_True simp_thms)
  then show ?case by (simp add: encode_chunks_def inp_def)
next
  case (Cons c cs)
  let ?hex = "show_hex (length c)"
  let ?tail = "encode_chunks cs"
  have enc: "encode_chunks (c # cs) = ?hex @ CRLF @ c @ CRLF @ ?tail"
    by (simp add: encode_chunks_def encode_chunk_def)
  define inp where "inp = A @ encode_chunks (c # cs) @ rest"
  have inp: "inp = A @ ?hex @ CRLF @ c @ CRLF @ ?tail @ rest" by (simp add: inp_def enc)
  have line: "find_from CRLF inp (length A) = Some (length A + length ?hex)"
    unfolding inp by (rule find_from_crlf_line [OF show_hex_plain(2)])
  have hex: "substr inp (length A) (length A + length ?hex - length A) = ?hex"
    unfolding inp by (simp only: add_diff_cancel_left' substr_middle)
  have sz: "ParseChunkSize ?hex = Some (length c)"
    by (rule ParseChunkSize_show_hex) (use Cons.prems(2) in \<open>simp add: kMaxBodySize_def\<close>)
  let ?p = "length A + length ?hex + 2"
  have data: "substr inp ?p (length c) = c"
    using substr_middle [of "A @ ?hex @ CRLF" c "CRLF @ ?tail @ rest"] by (simp add: inp)
  have crlf: "substr inp (?p + length c) 2 = CRLF"
    using substr_middle [of "A @ ?hex @ CRLF @ c" CRLF "?tail @ rest"] by (simp add: inp add.assoc numeral_2_eq_2)
  have g: "length c \<noteq> 0" "\<not> length c > kMaxBodySize - length body"
    "\<not> length c > SIZE_MAX - ?p - 2" "\<not> length inp < ?p + length c + 2"
    using Cons.prems by (auto simp: enc inp SIZE_MAX_def)
  let ?A = "A @ ?hex @ CRLF @ c @ CRLF"
  have "chunks_loop (?A @ ?tail @ rest) (length ?A) (body @ c) r =
      C_done (length ?A + length ?tail) ((body @ c) @ concat cs) r"
    by (rule Cons.IH) (use Cons.prems in \<open>auto simp: enc\<close>)
  then have rec: "chunks_loop inp (?p + length c + 2) (body @ c) r =
      C_done (?p + length c + 2 + length ?tail) (body @ c @ concat cs) r"
    by (simp add: inp add.assoc)
  have "chunks_loop inp (length A) body r = C_done (?p + length c + 2 + length ?tail) (body @ c @ concat cs) r"
    by (subst chunks_loop.simps)
      (simp only: line option.case hex sz Let_def g if_False crlf data rec simp_thms)
  then show ?case by (simp add: enc inp_def add.assoc)
qed

section \<open>Properties\<close>

definition demo_response_text :: string where
  "demo_response_text = ''HTTP/1.1 204 OK'' @ CRLF2"

lemma demo_status_number: "from_chars 10 (2 ^ 16 - 1) ''204'' = Some (204, [])"
  by (simp add: from_chars_def digit_value_def is_digit_def)

lemma demo_status_line: "\<exists>r. parse_status_line ''HTTP/1.1 204 OK'' = Inr (r, 204) \<and> rs_body r = [] \<and> rs_status r = 204"
proof -
  have "find_char_from SP ''HTTP/1.1 204 OK'' 9 = Some 12 \<and> substr ''HTTP/1.1 204 OK'' 9 (12 - 9) = ''204'' \<and>
      IsValidHeaderValue (drop (12 + 1) ''HTTP/1.1 204 OK'') \<and> substr ''HTTP/1.1 204 OK'' 0 8 = ''HTTP/1.1'' \<and>
      ''HTTP/1.1 204 OK'' ! 8 = SP \<and> length ''HTTP/1.1 204 OK'' = 15 \<and> length ''204'' = 3"
    by code_simp
  then show ?thesis
    unfolding parse_status_line_def by (simp only: Let_def option.case demo_status_number) (simp add: HttpResponse_def)
qed

lemma demo_response: "\<exists>r. rs_parse GET demo_response_text False = R_finished 19 r 0 False False \<and> rs_status r = 204"
proof -
  have "find_sub CRLF2 demo_response_text = Some 15 \<and> find_sub CRLF demo_response_text = Some 15 \<and>
      substr demo_response_text 0 15 = ''HTTP/1.1 204 OK''"
    by code_simp
  then show ?thesis
    using demo_status_line
    by (auto simp: rs_parse_def rs_headers_loop.simps kMaxHeaderSize_def rs_body_phase_def ResponseHasNoBody_def
        kMaxBodySize_def rs_initConnection_def)
qed

text \<open>A finished response is stable: more bytes behind it change neither the message nor the
  bytes consumed, in all framings but the close-delimited one, which only the end of the stream
  finishes.\<close>

theorem response_stable:
  assumes "rs_parse m p False = R_finished n r len ch cd"
  shows "rs_parse m (p @ q) eof = R_finished n r len ch cd"
  by (rule rs_parse_stable_lemma [OF assms])

theorem response_stable_witness:
  "\<exists>r. rs_parse GET (demo_response_text @ ''HTTP'') True = R_finished 19 r 0 False False"
  using demo_response response_stable [of GET demo_response_text 19 _ 0 False False "''HTTP''" True] by blast

text \<open>A finished response is consumed within the input and its body has the recorded length,
  within the limit, in every framing.\<close>

theorem response_bounds:
  assumes "rs_parse m input eof = R_finished n r len ch cd"
  shows "n \<le> length input \<and> len \<le> kMaxBodySize \<and> length (rs_body r) = len"
  by (rule rs_parse_bounds [OF assms])

theorem response_bounds_witness:
  "\<exists>r. rs_parse GET demo_response_text False = R_finished 19 r 0 False False \<and> rs_body r = []"
  using demo_response response_bounds [of GET demo_response_text False 19 _ 0 False False] by auto



end
