(* ===== verification/Uri.thy ===== *)
theory Uri
  imports Prelude
begin

text \<open>
  URIs (include/droplet/http/uri.h, src/http/uri.cc): the parser \<open>Create\<close>, the accessors with their
  defaults and the printer.  \<open>None\<close> is the null pointer of a rejected text.  Name resolution of
  \<open>createAddress\<close> is a parameter.
\<close>

section \<open>The URI\<close>

record uri =
  uri_scheme :: string
  uri_userinfo :: string
  uri_host :: string
  uri_path :: string
  uri_query :: string
  uri_fragment :: string
  uri_port :: int
  uri_has_authority :: bool

definition Uri :: uri where
  "Uri = \<lparr> uri_scheme = [], uri_userinfo = [], uri_host = [], uri_path = [], uri_query = [], uri_fragment = [],
     uri_port = - 1, uri_has_authority = False \<rparr>"

definition is_alpha :: "char \<Rightarrow> bool" where
  "is_alpha c \<longleftrightarrow> is_upper c \<or> is_lower c"

definition IsSchemeStart :: "char \<Rightarrow> bool" where
  "IsSchemeStart c \<longleftrightarrow> is_alpha c"

definition IsSchemeCharacter :: "char \<Rightarrow> bool" where
  "IsSchemeCharacter c \<longleftrightarrow> is_alpha c \<or> is_digit c \<or> c = CHR ''+'' \<or> c = CHR ''-'' \<or> c = CHR ''.''"

text \<open>The scan of \<open>IsValidUriText\<close> from the current index on.\<close>

fun IsValidUriText :: "string \<Rightarrow> bool" where
  "IsValidUriText [] = True"
| "IsValidUriText (c # cs) =
     (if code c \<le> 0x20 \<or> code c = 0x7F then False
      else if c = CHR ''%''
           then (case cs of a # b # rest \<Rightarrow> is_hex a \<and> is_hex b \<and> IsValidUriText rest | _ \<Rightarrow> False)
           else IsValidUriText cs)"

definition ParsePort :: "string \<Rightarrow> int option" where
  "ParsePort s =
     (if s = [] then None
      else case from_chars 10 (2 ^ 32 - 1) s of
             Some (v, rest) \<Rightarrow> if rest \<noteq> [] \<or> v > 65535 then None else Some (int v)
           | None \<Rightarrow> None)"

definition setScheme :: "string \<Rightarrow> uri \<Rightarrow> uri" where
  "setScheme v u = u\<lparr> uri_scheme := map ascii_lower v \<rparr>"

definition setHost :: "string \<Rightarrow> uri \<Rightarrow> uri" where
  "setHost v u = u\<lparr> uri_host := v, uri_has_authority := True \<rparr>"

section \<open>Parsing\<close>

definition ParseHostPort :: "string \<Rightarrow> uri \<Rightarrow> uri option" where
  "ParseHostPort host_port u =
     (if starts_with host_port ''[''
      then (case find_char (CHR '']'') host_port of
              None \<Rightarrow> None
            | Some closing \<Rightarrow>
                if closing = 1 then None
                else let u = setHost (substr host_port 1 (closing - 1)) u;
                         suffix = drop (closing + 1) host_port
                     in if suffix = [] then Some u
                        else if \<not> starts_with suffix '':'' then None
                        else map_option (\<lambda>port. u\<lparr> uri_port := port \<rparr>) (ParsePort (drop 1 suffix)))
      else if find_char (CHR ''['') host_port \<noteq> None \<or> find_char (CHR '']'') host_port \<noteq> None then None
      else case rfind_char (CHR '':'') host_port of
             None \<Rightarrow> Some (setHost host_port u)
           | Some colon \<Rightarrow>
               if find_char (CHR '':'') host_port \<noteq> Some colon then None
               else map_option (\<lambda>port. setHost (take colon host_port) (u\<lparr> uri_port := port \<rparr>))
                      (ParsePort (drop (colon + 1) host_port)))"

definition ParseAuthority :: "string \<Rightarrow> uri \<Rightarrow> uri option" where
  "ParseAuthority authority u =
     (case rfind_char (CHR ''@'') authority of
        Some at \<Rightarrow> ParseHostPort (drop (at + 1) authority) (u\<lparr> uri_userinfo := take at authority \<rparr>)
      | None \<Rightarrow> ParseHostPort authority u)"

text \<open>Cutting a text at the first occurrence of a character.\<close>

definition cut_at :: "char \<Rightarrow> string \<Rightarrow> string \<times> string option" where
  "cut_at c s = (case find_char c s of Some i \<Rightarrow> (take i s, Some (drop (i + 1) s)) | None \<Rightarrow> (s, None))"

definition parse_scheme :: "string \<Rightarrow> uri \<Rightarrow> (string \<times> uri) option" where
  "parse_scheme h u =
     (let colon = find_char (CHR '':'') h; slash = find_char (CHR ''/'') h
      in case colon of
           None \<Rightarrow> Some (h, u)
         | Some i \<Rightarrow>
             if (case slash of None \<Rightarrow> True | Some j \<Rightarrow> i < j)
             then let scheme = take i h
                  in if scheme = [] \<or> \<not> IsSchemeStart (hd scheme) \<or> \<not> list_all IsSchemeCharacter (tl scheme) then None
                     else Some (drop (i + 1) h, setScheme scheme u)
             else Some (h, u))"

definition parse_hierarchy :: "string \<Rightarrow> uri \<Rightarrow> uri option" where
  "parse_hierarchy h u =
     (if starts_with h ''//''
      then let h = drop 2 h; path_begin = find_char (CHR ''/'') h
           in (case ParseAuthority (case path_begin of None \<Rightarrow> h | Some i \<Rightarrow> take i h) u of
                 None \<Rightarrow> None
               | Some u \<Rightarrow> Some (u\<lparr> uri_path := (case path_begin of None \<Rightarrow> [] | Some i \<Rightarrow> drop i h) \<rparr>))
      else Some (u\<lparr> uri_path := h \<rparr>))"

definition Uri_Create :: "string \<Rightarrow> uri option" where
  "Uri_Create s =
     (if \<not> IsValidUriText s then None
      else let (h, fragment) = cut_at (CHR ''#'') s;
               u = (case fragment of Some f \<Rightarrow> Uri\<lparr> uri_fragment := f \<rparr> | None \<Rightarrow> Uri);
               (h, query) = cut_at (CHR ''?'') h;
               u = (case query of Some q \<Rightarrow> u\<lparr> uri_query := q \<rparr> | None \<Rightarrow> u)
           in case parse_scheme h u of
                None \<Rightarrow> None
              | Some (h, u) \<Rightarrow> parse_hierarchy h u)"

section \<open>Accessors and printing\<close>

definition uri_getPath :: "uri \<Rightarrow> string" where
  "uri_getPath u = (if uri_path u = [] then ''/'' else uri_path u)"

definition uri_getPort :: "uri \<Rightarrow> int" where
  "uri_getPort u =
     (if uri_port u \<ge> 0 then uri_port u
      else if uri_scheme u = ''http'' \<or> uri_scheme u = ''ws'' then 80
      else if uri_scheme u = ''https'' \<or> uri_scheme u = ''wss'' then 443
      else - 1)"

definition isDefaultPort :: "uri \<Rightarrow> bool" where
  "isDefaultPort u \<longleftrightarrow>
     uri_port u < 0 \<or>
     (uri_scheme u = ''http'' \<or> uri_scheme u = ''ws'') \<and> uri_port u = 80 \<or>
     (uri_scheme u = ''https'' \<or> uri_scheme u = ''wss'') \<and> uri_port u = 443"

definition dump_host :: "uri \<Rightarrow> string" where
  "dump_host u = (if find_char (CHR '':'') (uri_host u) \<noteq> None then ''['' @ uri_host u @ '']'' else uri_host u)"

definition dump_authority :: "uri \<Rightarrow> string" where
  "dump_authority u =
     (if uri_userinfo u \<noteq> [] then uri_userinfo u @ ''@'' else []) @ dump_host u @
     (if uri_port u \<ge> 0 \<and> \<not> isDefaultPort u then '':'' @ show_nat (nat (uri_port u)) else [])"

definition uri_dump :: "uri \<Rightarrow> string" where
  "uri_dump u =
     (if uri_scheme u \<noteq> [] then uri_scheme u @ '':'' else []) @
     (if uri_has_authority u then ''//'' @ dump_authority u else []) @
     (if uri_path u = [] then (if uri_has_authority u then ''/'' else []) else uri_path u) @
     (if uri_query u \<noteq> [] then ''?'' @ uri_query u else []) @
     (if uri_fragment u \<noteq> [] then ''#'' @ uri_fragment u else [])"

text \<open>\<open>lookup\<close> stands for \<open>Address::LookupAnyIPAddress\<close>; the result is an address and the port set on it.\<close>

definition createAddress :: "(string \<Rightarrow> 'a option) \<Rightarrow> uri \<Rightarrow> ('a \<times> u16) option" where
  "createAddress lookup u =
     (if uri_host u = [] then None
      else let address = lookup (uri_host u); port = uri_getPort u
           in if address = None \<or> port < 0 \<or> port > 65535 then None
              else Some (the address, word_of_int port))"

section \<open>Texts\<close>

lemma valid_append [simp]: "IsValidUriText a \<Longrightarrow> IsValidUriText (a @ b) = IsValidUriText b"
proof (induction a rule: IsValidUriText.induct)
  case (2 c cs)
  then show ?case by (auto split: if_splits list.splits)
qed simp

lemma valid_plain: "\<forall>c \<in> set s. code c > 0x20 \<and> code c \<noteq> 0x7F \<and> c \<noteq> CHR ''%'' \<Longrightarrow> IsValidUriText s"
  by (induction s) (auto)

lemma valid_split:
  assumes "\<not> is_hex d" "d \<noteq> CHR ''%''"
  shows "IsValidUriText (a @ d # b) \<Longrightarrow> IsValidUriText a \<and> IsValidUriText b"
proof (induction a rule: IsValidUriText.induct)
  case 1
  with assms show ?case by (auto split: if_splits)
next
  case (2 c cs)
  show ?case
  proof (cases "c = CHR ''%''")
    case False
    with 2 show ?thesis by (auto split: if_splits)
  next
    case True
    with 2(3) have t: "case cs @ d # b of x # y # rest \<Rightarrow> is_hex x \<and> is_hex y \<and> IsValidUriText rest | _ \<Rightarrow> False"
      by (simp split: if_splits)
    obtain x y rest where cs: "cs = x # y # rest"
    proof (cases cs)
      case Nil
      with t assms show ?thesis by (auto split: list.splits)
    next
      case (Cons x xs)
      with t assms that show ?thesis by (cases xs) auto
    qed
    with 2 True t show ?thesis by (auto split: if_splits)
  qed
qed

lemma cut_at_app: "c \<notin> set a \<Longrightarrow> cut_at c (a @ c # b) = (a, Some b)"
  by (simp add: cut_at_def find_simps)

lemma cut_at_none: "c \<notin> set a \<Longrightarrow> cut_at c a = (a, None)"
  using find_char_None [of c a] by (auto simp: cut_at_def split: option.split)

lemma ParsePort_show: "n \<le> 65535 \<Longrightarrow> ParsePort (show_nat n) = Some (int n)"
  using from_chars_show_nat [of n "2 ^ 32 - 1"] by (simp add: ParsePort_def)

lemma ParsePort_range: "ParsePort s = Some p \<Longrightarrow> 0 \<le> p \<and> p \<le> 65535"
  by (auto simp: ParsePort_def split: if_splits option.splits)

section \<open>Printing and parsing\<close>

text \<open>The URIs the parser can give back: what each part may contain so that the printed text is cut
  where it was put together.\<close>

definition scheme_ok :: "string \<Rightarrow> bool" where
  "scheme_ok v \<longleftrightarrow> v = [] \<or> IsSchemeStart (hd v) \<and> list_all IsSchemeCharacter (tl v)"

definition authority_ok :: "uri \<Rightarrow> bool" where
  "authority_ok u \<longleftrightarrow> CHR ''@'' \<notin> set (uri_host u) \<and> CHR '']'' \<notin> set (uri_host u) \<and>
     (CHR ''['' \<in> set (uri_host u) \<longrightarrow> CHR '':'' \<in> set (uri_host u)) \<and>
     CHR ''/'' \<notin> set (uri_host u) \<and> CHR ''/'' \<notin> set (uri_userinfo u) \<and>
     (uri_port u = - 1 \<or> 0 \<le> uri_port u \<and> uri_port u \<le> 65535 \<and> \<not> isDefaultPort u)"

definition relative_ok :: "string \<Rightarrow> bool" where
  "relative_ok h \<longleftrightarrow> (case find_char (CHR '':'') h of
     None \<Rightarrow> True | Some i \<Rightarrow> (case find_char (CHR ''/'') h of None \<Rightarrow> False | Some j \<Rightarrow> j \<le> i))"

definition wf_uri :: "uri \<Rightarrow> bool" where
  "wf_uri u \<longleftrightarrow> list_all IsValidUriText [uri_userinfo u, uri_host u, uri_path u, uri_query u, uri_fragment u] \<and>
     scheme_ok (uri_scheme u) \<and> map ascii_lower (uri_scheme u) = uri_scheme u \<and>
     (\<forall>s \<in> {uri_userinfo u, uri_host u, uri_path u}. CHR ''#'' \<notin> set s \<and> CHR ''?'' \<notin> set s) \<and> CHR ''#'' \<notin> set (uri_query u) \<and>
     (if uri_has_authority u then authority_ok u \<and> starts_with (uri_path u) ''/''
      else uri_userinfo u = [] \<and> uri_host u = [] \<and> uri_port u = - 1 \<and> \<not> starts_with (uri_path u) ''//'' \<and>
           (uri_scheme u = [] \<longrightarrow> relative_ok (uri_path u)))"

lemma digit_plain: "is_digit c \<Longrightarrow> code c > 0x20 \<and> code c \<noteq> 0x7F \<and> c \<noteq> CHR ''%'' \<and> c \<noteq> CHR '':'' \<and> c \<noteq> CHR ''@'' \<and>
    c \<noteq> CHR ''/'' \<and> c \<noteq> CHR ''['' \<and> c \<noteq> CHR '']'' \<and> c \<noteq> CHR ''#'' \<and> c \<noteq> CHR ''?''"
  by (auto simp: is_digit_def)

lemma scheme_plain: "IsSchemeCharacter c \<Longrightarrow> code c > 0x20 \<and> code c \<noteq> 0x7F \<and> c \<noteq> CHR ''%'' \<and> c \<noteq> CHR '':'' \<and>
    c \<noteq> CHR ''/'' \<and> c \<noteq> CHR ''#'' \<and> c \<noteq> CHR ''?''"
  by (auto simp: IsSchemeCharacter_def is_alpha_def is_upper_def is_lower_def is_digit_def)

lemma scheme_chars: "scheme_ok v \<Longrightarrow> c \<in> set v \<Longrightarrow> IsSchemeCharacter c"
  by (cases v) (auto simp: scheme_ok_def IsSchemeStart_def IsSchemeCharacter_def list_all_iff)

lemma port_plain: "\<forall>c \<in> set (show_nat n). code c > 0x20 \<and> code c \<noteq> 0x7F \<and> c \<noteq> CHR ''%'' \<and> c \<noteq> CHR '':'' \<and> c \<noteq> CHR ''@'' \<and>
    c \<noteq> CHR ''/'' \<and> c \<noteq> CHR ''['' \<and> c \<noteq> CHR '']'' \<and> c \<noteq> CHR ''#'' \<and> c \<noteq> CHR ''?''"
  using show_nat_digits digit_plain by blast

text \<open>The host and port of a printed authority.\<close>

definition port_text :: "uri \<Rightarrow> string" where
  "port_text u = (if uri_port u \<ge> 0 \<and> \<not> isDefaultPort u then '':'' @ show_nat (nat (uri_port u)) else [])"

lemma ParseHostPort_dump:
  assumes ok: "authority_ok u" and v: "uri_port v = - 1"
  shows "ParseHostPort (dump_host u @ port_text u) v =
    Some (v\<lparr> uri_host := uri_host u, uri_has_authority := True, uri_port := uri_port u \<rparr>)"
proof -
  have pc: "CHR '':'' \<notin> set (show_nat n)" "CHR ''['' \<notin> set (show_nat n)" "CHR '']'' \<notin> set (show_nat n)" for n
    using port_plain [of n] by blast+
  have port: "port_text u = [] \<and> uri_port u = - 1 \<or>
      (\<exists>n \<le> 65535. port_text u = '':'' @ show_nat n \<and> uri_port u = int n)"
    using ok by (auto simp: authority_ok_def port_text_def intro!: exI [of _ "nat (uri_port u)"])
  have same: "v\<lparr> uri_host := h, uri_has_authority := True \<rparr> = v\<lparr> uri_host := h, uri_has_authority := True, uri_port := - 1 \<rparr>" for h
    using v by (cases v) simp
  show ?thesis
  proof (cases "CHR '':'' \<in> set (uri_host u)")
    case True
    then have d: "dump_host u = ''['' @ uri_host u @ '']''"
      using find_char_None [of "CHR '':''" "uri_host u"] by (simp add: dump_host_def)
    have ne: "uri_host u \<noteq> []" using True by auto
    have f: "find_char (CHR '']'') (''['' @ uri_host u @ '']'' @ t) = Some (length (uri_host u) + 1)" for t
      using find_char_app [of "CHR '']''" "''['' @ uri_host u" t] ok by (simp add: authority_ok_def)
    from port show ?thesis
    proof
      assume "port_text u = [] \<and> uri_port u = - 1"
      then show ?thesis using f [of "[]"] ne same
        by (simp add: ParseHostPort_def d setHost_def substr_def)
    next
      assume "\<exists>n \<le> 65535. port_text u = '':'' @ show_nat n \<and> uri_port u = int n"
      then obtain n where n: "n \<le> 65535" "port_text u = '':'' @ show_nat n" "uri_port u = int n" by blast
      then show ?thesis using f [of "'':'' @ show_nat n"] ne ParsePort_show [OF n(1)]
        by (simp add: ParseHostPort_def d setHost_def substr_def)
    qed
  next
    case False
    then have d: "dump_host u = uri_host u"
      using find_char_None [of "CHR '':''" "uri_host u"] by (auto simp: dump_host_def)
    have b: "CHR ''['' \<notin> set (uri_host u)" "CHR '']'' \<notin> set (uri_host u)" using ok False by (auto simp: authority_ok_def)
    have ns: "\<not> starts_with (uri_host u @ t) ''[''" if "CHR ''['' \<notin> set t" for t
      using b that by (cases "uri_host u @ t") (auto simp: append_eq_Cons_conv)
    from port show ?thesis
    proof
      assume p: "port_text u = [] \<and> uri_port u = - 1"
      moreover have "rfind_char (CHR '':'') (uri_host u) = None" "find_char (CHR ''['') (uri_host u) = None"
        "find_char (CHR '']'') (uri_host u) = None"
        using False b by (simp_all add: find_char_None rfind_char_None)
      ultimately show ?thesis using ns [of "[]"] same by (simp add: ParseHostPort_def d setHost_def)
    next
      assume "\<exists>n \<le> 65535. port_text u = '':'' @ show_nat n \<and> uri_port u = int n"
      then obtain n where n: "n \<le> 65535" "port_text u = '':'' @ show_nat n" "uri_port u = int n" by blast
      let ?t = "uri_host u @ '':'' @ show_nat n"
      have "rfind_char (CHR '':'') ?t = Some (length (uri_host u))" "find_char (CHR '':'') ?t = Some (length (uri_host u))"
        using False pc(1) [of n] rfind_char_app [of "CHR '':''" "show_nat n" "uri_host u"]
          find_char_app [of "CHR '':''" "uri_host u" "show_nat n"] by simp_all
      moreover have "find_char (CHR ''['') ?t = None" "find_char (CHR '']'') ?t = None"
        using b pc by (simp_all add: find_char_None)
      moreover have "\<not> starts_with ?t ''[''" using ns [of "'':'' @ show_nat n"] pc by simp
      ultimately show ?thesis using n ParsePort_show [OF n(1)] by (simp add: ParseHostPort_def d setHost_def)
    qed
  qed
qed

text \<open>The part of the printed text before the query.\<close>

definition hierarchy_text :: "uri \<Rightarrow> string" where
  "hierarchy_text u =
     (if uri_has_authority u then ''//'' @ dump_authority u else []) @
     (if uri_path u = [] then (if uri_has_authority u then ''/'' else []) else uri_path u)"

definition scheme_text :: "uri \<Rightarrow> string" where
  "scheme_text u = (if uri_scheme u \<noteq> [] then uri_scheme u @ '':'' else [])"

lemma uri_dump_parts: "uri_dump u = (scheme_text u @ hierarchy_text u) @
    (if uri_query u \<noteq> [] then CHR ''?'' # uri_query u else []) @
    (if uri_fragment u \<noteq> [] then CHR ''#'' # uri_fragment u else [])"
  by (simp add: uri_dump_def scheme_text_def hierarchy_text_def)

lemma dump_authority_parts: "dump_authority u =
    (if uri_userinfo u \<noteq> [] then uri_userinfo u @ ''@'' else []) @ dump_host u @ port_text u"
  by (simp add: dump_authority_def port_text_def)

lemma ParseAuthority_dump:
  assumes ok: "authority_ok u" and v: "uri_port v = - 1" "uri_userinfo v = []"
  shows "ParseAuthority (dump_authority u) v = Some (v\<lparr> uri_userinfo := uri_userinfo u, uri_host := uri_host u,
    uri_has_authority := True, uri_port := uri_port u \<rparr>)"
proof -
  have na: "CHR ''@'' \<notin> set (dump_host u @ port_text u)"
    using ok port_plain by (auto simp: authority_ok_def dump_host_def port_text_def)
  show ?thesis
  proof (cases "uri_userinfo u = []")
    case True
    then have same: "v\<lparr> uri_userinfo := uri_userinfo u, uri_host := h, uri_has_authority := True, uri_port := p \<rparr> =
        v\<lparr> uri_host := h, uri_has_authority := True, uri_port := p \<rparr>" for h p
      using v by (cases v) simp
    have "rfind_char (CHR ''@'') (dump_host u @ port_text u) = None" using na by (simp add: rfind_char_None)
    then show ?thesis using True ParseHostPort_dump [OF ok v(1)] same
      by (simp add: ParseAuthority_def dump_authority_parts)
  next
    case False
    have "rfind_char (CHR ''@'') (uri_userinfo u @ ''@'' @ dump_host u @ port_text u) = Some (length (uri_userinfo u))"
      using na rfind_char_app [of "CHR ''@''" "dump_host u @ port_text u" "uri_userinfo u"] by simp
    then show ?thesis using False ParseHostPort_dump [OF ok, of "v\<lparr> uri_userinfo := uri_userinfo u \<rparr>"] v
      by (simp add: ParseAuthority_def dump_authority_parts)
  qed
qed

lemma authority_no_slash: "authority_ok u \<Longrightarrow> CHR ''/'' \<notin> set (dump_authority u)"
  using port_plain by (auto simp: authority_ok_def dump_authority_parts dump_host_def port_text_def)

lemma parse_hierarchy_dump:
  assumes wf: "wf_uri u" and v: "uri_port v = - 1" "uri_userinfo v = []" "uri_host v = []" "\<not> uri_has_authority v"
  shows "parse_hierarchy (hierarchy_text u) v = Some (v\<lparr> uri_userinfo := uri_userinfo u, uri_host := uri_host u,
    uri_has_authority := uri_has_authority u, uri_port := uri_port u, uri_path := uri_path u \<rparr>)"
proof (cases "uri_has_authority u")
  case True
  with wf have a: "authority_ok u" "starts_with (uri_path u) ''/''" by (simp_all add: wf_uri_def)
  then obtain p where p: "uri_path u = CHR ''/'' # p" by (cases "uri_path u") auto
  have "find_char (CHR ''/'') (dump_authority u @ CHR ''/'' # p) = Some (length (dump_authority u))"
    using authority_no_slash [OF a(1)] by (rule find_char_app)
  with True p ParseAuthority_dump [OF a(1) v(1,2)] show ?thesis
    by (simp add: parse_hierarchy_def hierarchy_text_def)
next
  case False
  with wf have "uri_userinfo u = []" "uri_host u = []" "uri_port u = - 1" "\<not> starts_with (uri_path u) ''//''"
    by (simp_all add: wf_uri_def)
  with False v show ?thesis
    by (cases v) (simp add: parse_hierarchy_def hierarchy_text_def)
qed

lemma parse_scheme_dump:
  assumes wf: "wf_uri u" and v: "uri_scheme v = []"
  shows "parse_scheme (scheme_text u @ hierarchy_text u) v = Some (hierarchy_text u, v\<lparr> uri_scheme := uri_scheme u \<rparr>)"
proof (cases "uri_scheme u = []")
  case False
  let ?s = "uri_scheme u" and ?h = "hierarchy_text u"
  have ok: "scheme_ok ?s" "map ascii_lower ?s = ?s" using wf by (simp_all add: wf_uri_def)
  have nc: "CHR '':'' \<notin> set ?s" "CHR ''/'' \<notin> set ?s" using scheme_chars [OF ok(1)] scheme_plain by blast+
  have c: "find_char (CHR '':'') (?s @ CHR '':'' # ?h) = Some (length ?s)" using nc(1) by (rule find_char_app)
  have sl: "case find_char (CHR ''/'') (?s @ CHR '':'' # ?h) of None \<Rightarrow> True | Some j \<Rightarrow> length ?s < j"
  proof (cases "find_char (CHR ''/'') (?s @ CHR '':'' # ?h)")
    case (Some j)
    then have "(?s @ CHR '':'' # ?h) ! j = CHR ''/''" by (blast dest: find_char_hit)
    moreover from this nc(2) have "\<not> j < length ?s" by (metis nth_append nth_mem)
    ultimately have "length ?s < j" by (cases "j = length ?s") auto
    with Some show ?thesis by simp
  qed simp
  have "IsSchemeStart (hd ?s) \<and> list_all IsSchemeCharacter (tl ?s)" using ok(1) False by (simp add: scheme_ok_def)
  with False c sl ok(2) show ?thesis
    by (simp add: parse_scheme_def scheme_text_def Let_def setScheme_def)
next
  case True
  have same: "v\<lparr> uri_scheme := [] \<rparr> = v" using v by (cases v) simp
  have "relative_ok (hierarchy_text u)"
  proof (cases "uri_has_authority u")
    case True then show ?thesis by (simp add: hierarchy_text_def relative_ok_def split: option.split)
  next
    case False with True wf show ?thesis by (auto simp: hierarchy_text_def wf_uri_def)
  qed
  then show ?thesis using True same
    by (auto simp: parse_scheme_def scheme_text_def Let_def relative_ok_def split: option.splits)
qed

lemma not_hex_sep [simp]: "\<not> is_hex (CHR '':'')" "\<not> is_hex (CHR ''@'')" "\<not> is_hex (CHR ''/'')" "\<not> is_hex (CHR ''['')"
    "\<not> is_hex (CHR '']'')" "\<not> is_hex (CHR ''?'')" "\<not> is_hex (CHR ''#'')"
  by (simp_all add: is_hex_def is_digit_def)

lemma valid_dump:
  assumes wf: "wf_uri u"
  shows "IsValidUriText (uri_dump u)"
proof -
  have v: "IsValidUriText (uri_userinfo u)" "IsValidUriText (uri_host u)" "IsValidUriText (uri_path u)"
      "IsValidUriText (uri_query u)" "IsValidUriText (uri_fragment u)" using wf by (simp_all add: wf_uri_def)
  have "scheme_ok (uri_scheme u)" using wf by (simp add: wf_uri_def)
  then have s: "IsValidUriText (uri_scheme u)" using scheme_chars scheme_plain by (blast intro: valid_plain)
  have "IsValidUriText (show_nat n)" for n using port_plain [of n] by (blast intro: valid_plain)
  then have p: "IsValidUriText (port_text u)" by (simp add: port_text_def)
  have a: "IsValidUriText (dump_authority u)" using v p by (simp add: dump_authority_parts dump_host_def)
  show ?thesis using v s a by (simp add: uri_dump_def)
qed

lemma hierarchy_chars:
  assumes wf: "wf_uri u"
  shows "CHR ''#'' \<notin> set (scheme_text u @ hierarchy_text u)" "CHR ''?'' \<notin> set (scheme_text u @ hierarchy_text u)"
proof -
  have "scheme_ok (uri_scheme u)" using wf by (simp add: wf_uri_def)
  then have s: "CHR ''#'' \<notin> set (uri_scheme u)" "CHR ''?'' \<notin> set (uri_scheme u)"
    using scheme_chars scheme_plain by blast+
  have p: "CHR ''#'' \<notin> set (port_text u)" "CHR ''?'' \<notin> set (port_text u)"
    using port_plain by (auto simp: port_text_def)
  show "CHR ''#'' \<notin> set (scheme_text u @ hierarchy_text u)" "CHR ''?'' \<notin> set (scheme_text u @ hierarchy_text u)"
    using wf s p by (auto simp: wf_uri_def scheme_text_def hierarchy_text_def dump_authority_parts dump_host_def)
qed

lemma print_parse:
  assumes wf: "wf_uri u"
  shows "Uri_Create (uri_dump u) = Some u"
proof -
  let ?h = "scheme_text u @ hierarchy_text u"
  let ?q = "if uri_query u \<noteq> [] then CHR ''?'' # uri_query u else []"
  let ?v = "Uri\<lparr> uri_query := uri_query u, uri_fragment := uri_fragment u \<rparr>"
  have nq: "CHR ''#'' \<notin> set (?h @ ?q)" using hierarchy_chars [OF wf] wf by (simp add: wf_uri_def)
  have f: "cut_at (CHR ''#'') (uri_dump u) = (?h @ ?q, if uri_fragment u \<noteq> [] then Some (uri_fragment u) else None)"
    using cut_at_app [OF nq] cut_at_none [OF nq] by (simp add: uri_dump_parts)
  have q: "cut_at (CHR ''?'') (?h @ ?q) = (?h, if uri_query u \<noteq> [] then Some (uri_query u) else None)"
    using cut_at_app [OF hierarchy_chars(2) [OF wf]] cut_at_none [OF hierarchy_chars(2) [OF wf]] by simp
  have "parse_scheme ?h ?v = Some (hierarchy_text u, ?v\<lparr> uri_scheme := uri_scheme u \<rparr>)"
    by (rule parse_scheme_dump [OF wf]) (simp add: Uri_def)
  moreover have "parse_hierarchy (hierarchy_text u) (?v\<lparr> uri_scheme := uri_scheme u \<rparr>) = Some u"
    by (subst parse_hierarchy_dump [OF wf]) (simp_all add: Uri_def)
  moreover have "(case (if uri_query u \<noteq> [] then Some (uri_query u) else None) of
        Some q \<Rightarrow> (case (if uri_fragment u \<noteq> [] then Some (uri_fragment u) else None) of
          Some f \<Rightarrow> Uri\<lparr> uri_fragment := f \<rparr> | None \<Rightarrow> Uri)\<lparr> uri_query := q \<rparr>
      | None \<Rightarrow> (case (if uri_fragment u \<noteq> [] then Some (uri_fragment u) else None) of
          Some f \<Rightarrow> Uri\<lparr> uri_fragment := f \<rparr> | None \<Rightarrow> Uri)) = ?v"
    by (simp add: Uri_def)
  ultimately show ?thesis using valid_dump [OF wf] f q
    by (simp only: Uri_Create_def Let_def prod.case not_True_eq_False if_False option.case)
qed

definition uri_normal :: "uri \<Rightarrow> uri" where
  "uri_normal u = u\<lparr> uri_port := (if isDefaultPort u then - 1 else uri_port u),
     uri_path := (if uri_path u = [] \<and> uri_has_authority u then ''/'' else uri_path u) \<rparr>"

lemma dump_normal: "uri_dump (uri_normal u) = uri_dump u"
  by (auto simp: uri_dump_def uri_normal_def dump_authority_def dump_host_def isDefaultPort_def)

lemma rfind_char_parts: "rfind_char c s = Some i \<Longrightarrow>
    s = take i s @ c # drop (i + 1) s \<and> c \<notin> set (drop (i + 1) s)"
  by (auto simp: rfind_char_split)

lemma find_char_parts: "find_char c s = Some i \<Longrightarrow>
    s = take i s @ c # drop (i + 1) s \<and> c \<notin> set (take i s)"
  by (auto simp: find_char_split)

lemma valid_parts:
  assumes "IsValidUriText s" "s = a @ d # b" "\<not> is_hex d" "d \<noteq> CHR ''%''"
  shows "IsValidUriText a" "IsValidUriText b"
  using valid_split [of d a b] assms by simp_all

lemma cut_at_parts:
  assumes v: "IsValidUriText s" "\<not> is_hex c" "c \<noteq> CHR ''%''" and cut: "cut_at c s = (a, b)"
  shows "IsValidUriText a \<and> c \<notin> set a \<and> set a \<subseteq> set s \<and>
    (case b of None \<Rightarrow> a = s | Some t \<Rightarrow> s = a @ c # t \<and> IsValidUriText t)"
proof (cases "find_char c s")
  case None
  with cut v show ?thesis by (auto simp: cut_at_def find_char_None)
next
  case (Some i)
  then have p: "s = take i s @ c # drop (i + 1) s" "c \<notin> set (take i s)" by (blast dest: find_char_parts)+
  from cut Some have ab: "a = take i s" "b = Some (drop (i + 1) s)" by (simp_all add: cut_at_def)
  show ?thesis using valid_parts [OF v(1) p(1) v(2,3)] p ab by (auto dest: in_set_takeD)
qed

text \<open>What a parsed authority leaves in the URI.\<close>

definition host_port_ok :: "string \<Rightarrow> uri \<Rightarrow> bool" where
  "host_port_ok t u \<longleftrightarrow> uri_has_authority u \<and> IsValidUriText (uri_host u) \<and> set (uri_host u) \<subseteq> set t \<and>
     CHR '']'' \<notin> set (uri_host u) \<and> (uri_port u = - 1 \<or> 0 \<le> uri_port u \<and> uri_port u \<le> 65535)"

lemma ParseHostPort_ok:
  assumes v: "IsValidUriText t" "uri_port v = - 1" and r: "ParseHostPort t v = Some u"
  shows "host_port_ok t u \<and> u = v\<lparr> uri_host := uri_host u, uri_port := uri_port u, uri_has_authority := True \<rparr>"
proof (cases "starts_with t ''[''")
  case True
  with r obtain i where i: "find_char (CHR '']'') t = Some i" "i \<noteq> 1"
    by (auto simp: ParseHostPort_def split: option.splits if_splits)
  let ?h = "substr t 1 (i - 1)"
  have t: "t = take i t @ CHR '']'' # drop (i + 1) t" "CHR '']'' \<notin> set (take i t)"
    using find_char_parts [OF i(1)] by blast+
  obtain t' where t': "t = CHR ''['' # t'" using True by (cases t) auto
  with i have "i > 0" by (cases i) auto
  then have h: "take i t = CHR ''['' # ?h" using t' by (cases i) (auto simp: substr_def)
  have "IsValidUriText (CHR ''['' # ?h)" using valid_parts(1) [OF v(1) t(1)] h by simp
  then have "IsValidUriText ?h" by (simp split: if_splits)
  moreover have "CHR '']'' \<notin> set ?h" "set ?h \<subseteq> set t" using t(2) h
    by (auto simp: substr_def dest: in_set_takeD in_set_dropD)
  ultimately show ?thesis using r True i v(2)
    by (cases v) (auto simp: ParseHostPort_def host_port_ok_def Let_def setHost_def dest!: ParsePort_range split: if_splits)
next
  case False
  with r have b: "CHR ''['' \<notin> set t" "CHR '']'' \<notin> set t"
    by (auto simp: ParseHostPort_def find_char_None split: if_splits)
  show ?thesis
  proof (cases "rfind_char (CHR '':'') t")
    case None
    with r False b v show ?thesis
      by (cases v) (auto simp: ParseHostPort_def host_port_ok_def setHost_def split: if_splits)
  next
    case (Some i)
    have t: "t = take i t @ CHR '':'' # drop (i + 1) t" using rfind_char_parts [OF Some] by blast
    have "IsValidUriText (take i t)" using valid_parts(1) [OF v(1) t] by simp
    with Some r False b v show ?thesis
      by (cases v) (auto simp: ParseHostPort_def host_port_ok_def setHost_def dest!: ParsePort_range
          dest: in_set_takeD split: if_splits)
  qed
qed

lemma ParseAuthority_ok:
  assumes v: "IsValidUriText t" "uri_port v = - 1" "uri_userinfo v = []" and r: "ParseAuthority t v = Some u"
  shows "host_port_ok t u \<and> CHR ''@'' \<notin> set (uri_host u) \<and> IsValidUriText (uri_userinfo u) \<and> set (uri_userinfo u) \<subseteq> set t \<and>
    u = v\<lparr> uri_userinfo := uri_userinfo u, uri_host := uri_host u, uri_port := uri_port u, uri_has_authority := True \<rparr>"
proof (cases "rfind_char (CHR ''@'') t")
  case None
  with r have r: "ParseHostPort t v = Some u" by (simp add: ParseAuthority_def)
  from ParseHostPort_ok [OF v(1,2) r] v(3) None show ?thesis
    by (cases v; cases u) (auto simp: host_port_ok_def rfind_char_None)
next
  case (Some i)
  let ?v = "v\<lparr> uri_userinfo := take i t \<rparr>"
  have t: "t = take i t @ CHR ''@'' # drop (i + 1) t" "CHR ''@'' \<notin> set (drop (i + 1) t)"
    using rfind_char_parts [OF Some] by blast+
  have vt: "IsValidUriText (take i t)" "IsValidUriText (drop (i + 1) t)" using valid_parts [OF v(1) t(1)] by simp_all
  from Some r have r: "ParseHostPort (drop (i + 1) t) ?v = Some u" by (simp add: ParseAuthority_def)
  have h: "host_port_ok (drop (i + 1) t) u" "u = ?v\<lparr> uri_host := uri_host u, uri_port := uri_port u, uri_has_authority := True \<rparr>"
    using ParseHostPort_ok [OF vt(2) _ r] v(2) by simp_all
  have ui: "uri_userinfo u = take i t" using h(2) by (metis uri.select_convs(2) uri.surjective uri.update_convs(2,3,7,8))
  show ?thesis using h(1) h(2) ui t(2) vt(1)
    by (auto simp: host_port_ok_def dest: in_set_takeD in_set_dropD)
qed

lemma lower_alpha [simp]: "is_alpha (ascii_lower c) = is_alpha c"
  by (auto simp: is_alpha_def is_upper_def is_lower_def code_ascii_lower split: if_splits)

lemma lower_scheme [simp]: "IsSchemeCharacter c \<Longrightarrow> IsSchemeCharacter (ascii_lower c)"
  by (cases "is_upper c") (auto simp: IsSchemeCharacter_def is_alpha_def ascii_lower_def is_upper_def is_lower_def)

lemma scheme_ok_lower: "scheme_ok v \<Longrightarrow> scheme_ok (map ascii_lower v)"
  by (cases v) (auto simp: scheme_ok_def IsSchemeStart_def list_all_iff)

lemma parse_scheme_ok:
  assumes v: "IsValidUriText t" "uri_scheme v = []" and r: "parse_scheme t v = Some (h, w)"
  shows "IsValidUriText h \<and> set h \<subseteq> set t \<and> scheme_ok (uri_scheme w) \<and> map ascii_lower (uri_scheme w) = uri_scheme w \<and>
    w = v\<lparr> uri_scheme := uri_scheme w \<rparr> \<and> (uri_scheme w = [] \<longrightarrow> relative_ok h)"
proof (cases "\<exists>i. find_char (CHR '':'') t = Some i \<and>
    (case find_char (CHR ''/'') t of None \<Rightarrow> True | Some j \<Rightarrow> i < j)")
  case True
  then obtain i where i: "find_char (CHR '':'') t = Some i"
      "case find_char (CHR ''/'') t of None \<Rightarrow> True | Some j \<Rightarrow> i < j" by blast
  have t: "t = take i t @ CHR '':'' # drop (i + 1) t" using find_char_parts [OF i(1)] by blast
  let ?s = "take i t"
  from r i have s: "?s \<noteq> []" "IsSchemeStart (hd ?s)" "list_all IsSchemeCharacter (tl ?s)"
      "h = drop (i + 1) t" "w = setScheme ?s v"
    by (auto simp: parse_scheme_def Let_def split: if_splits)
  have "scheme_ok (map ascii_lower ?s)" using s by (intro scheme_ok_lower) (simp add: scheme_ok_def)
  moreover have "IsValidUriText h" using valid_parts [OF v(1) t] s by simp
  moreover have "set h \<subseteq> set t" using s by (auto dest: in_set_dropD)
  ultimately show ?thesis using s v by (cases v) (auto simp: setScheme_def)
next
  case False
  then have "relative_ok t" by (auto simp: relative_ok_def split: option.splits)
  moreover from False r have "h = t" "w = v" by (auto simp: parse_scheme_def Let_def split: option.splits)
  ultimately show ?thesis using v by (cases v) (auto simp: scheme_ok_def)
qed

definition brackets_ok :: "uri \<Rightarrow> bool" where
  "brackets_ok u \<longleftrightarrow> (CHR ''['' \<in> set (uri_host u) \<longrightarrow> CHR '':'' \<in> set (uri_host u))"

lemma parse_hierarchy_ok:
  assumes v: "IsValidUriText t" "uri_port v = - 1" "uri_userinfo v = []" "uri_host v = []" "\<not> uri_has_authority v"
    and sep: "CHR ''#'' \<notin> set t" "CHR ''?'' \<notin> set t"
    and sch: "scheme_ok (uri_scheme v)" "map ascii_lower (uri_scheme v) = uri_scheme v" "uri_scheme v = [] \<Longrightarrow> relative_ok t"
    and qf: "IsValidUriText (uri_query v)" "IsValidUriText (uri_fragment v)" "CHR ''#'' \<notin> set (uri_query v)"
    and r: "parse_hierarchy t v = Some u" and b: "brackets_ok u"
  shows "wf_uri (uri_normal u)"
proof (cases "starts_with t ''//''")
  case False
  with r have "u = v\<lparr> uri_path := t \<rparr>" by (simp add: parse_hierarchy_def)
  with False v sep sch qf show ?thesis by (auto simp: wf_uri_def uri_normal_def)
next
  case True
  then obtain h where t: "t = CHR ''/'' # CHR ''/'' # h"
    by (cases t; cases "tl t") auto
  have vh: "IsValidUriText h" using v(1) t by simp
  obtain a p where ap: "h = a @ p" "CHR ''/'' \<notin> set a" "p = [] \<or> starts_with p ''/''" "IsValidUriText a" "IsValidUriText p"
      "parse_hierarchy t v = map_option (\<lambda>u. u\<lparr> uri_path := p \<rparr>) (ParseAuthority a v)"
  proof (cases "find_char (CHR ''/'') h")
    case None
    then have "CHR ''/'' \<notin> set h" by (simp add: find_char_None)
    moreover have "parse_hierarchy t v = map_option (\<lambda>u. u\<lparr> uri_path := [] \<rparr>) (ParseAuthority h v)"
      using None t by (simp add: parse_hierarchy_def Let_def split: option.split)
    ultimately show ?thesis using that [of h "[]"] vh by simp
  next
    case (Some i)
    have p: "h = take i h @ CHR ''/'' # drop (i + 1) h" "CHR ''/'' \<notin> set (take i h)"
      using find_char_parts [OF Some] by blast+
    have d: "drop i h = CHR ''/'' # drop (i + 1) h"
      using Some by (metis Cons_nth_drop_Suc Suc_eq_plus1 find_char_bound find_char_hit)
    show ?thesis
      using that [of "take i h" "drop i h"] p valid_parts [OF vh p(1)] d Some t True
      by (auto simp: parse_hierarchy_def Let_def split: option.split)
  qed
  from ap(6) r obtain w where w: "ParseAuthority a v = Some w" "u = w\<lparr> uri_path := p \<rparr>"
    by (cases "ParseAuthority a v") auto
  note ok = ParseAuthority_ok [OF ap(4) v(2,3) w(1)]
  let ?u = "v\<lparr> uri_userinfo := uri_userinfo w, uri_host := uri_host w, uri_port := uri_port w, uri_has_authority := True, uri_path := p \<rparr>"
  have u: "u = ?u" using w(2) ok by (metis uri.fold_congs(4) uri.update_convs(4))
  have hp: "host_port_ok a w" "CHR ''@'' \<notin> set (uri_host w)" "IsValidUriText (uri_userinfo w)" "set (uri_userinfo w) \<subseteq> set a"
    using ok by blast+
  have sel: "uri_host u = uri_host w" "uri_userinfo u = uri_userinfo w" "uri_port u = uri_port w" "uri_has_authority u"
      "uri_path u = p" "uri_scheme u = uri_scheme v" "uri_query u = uri_query v" "uri_fragment u = uri_fragment v"
    by (simp_all add: u)
  have sa: "set a \<subseteq> set t" "set p \<subseteq> set t" using t ap(1) by auto
  have au: "authority_ok (uri_normal u)"
    using hp b ap(2) by (auto simp: authority_ok_def uri_normal_def host_port_ok_def brackets_ok_def isDefaultPort_def sel)
  have pc: "CHR ''#'' \<notin> set x" "CHR ''?'' \<notin> set x" if "set x \<subseteq> set t" for x using sep that by blast+
  have parts: "set (uri_host w) \<subseteq> set t" "set (uri_userinfo w) \<subseteq> set t" "IsValidUriText (uri_host w)"
    using hp sa by (auto simp: host_port_ok_def)
  have path: "p \<noteq> [] \<Longrightarrow> starts_with p ''/''" using ap(3) by blast
  note pcs = pc [OF parts(1)] pc [OF parts(2)] pc [OF sa(2)]
  show ?thesis using au hp(3) parts(3) path ap(5) sch(1,2) qf pcs
    by (simp add: wf_uri_def uri_normal_def sel)
qed

lemma parsed_wf:
  assumes r: "Uri_Create s = Some u" and b: "brackets_ok u"
  shows "wf_uri (uri_normal u)"
proof -
  obtain s1 f where f: "cut_at (CHR ''#'') s = (s1, f)" by (cases "cut_at (CHR ''#'') s")
  obtain s2 q where q: "cut_at (CHR ''?'') s1 = (s2, q)" by (cases "cut_at (CHR ''?'') s1")
  let ?v = "Uri\<lparr> uri_query := (case q of Some q \<Rightarrow> q | None \<Rightarrow> []), uri_fragment := (case f of Some f \<Rightarrow> f | None \<Rightarrow> []) \<rparr>"
  have v: "(case q of Some q \<Rightarrow> (case f of Some f \<Rightarrow> Uri\<lparr> uri_fragment := f \<rparr> | None \<Rightarrow> Uri)\<lparr> uri_query := q \<rparr>
      | None \<Rightarrow> (case f of Some f \<Rightarrow> Uri\<lparr> uri_fragment := f \<rparr> | None \<Rightarrow> Uri)) = ?v"
    by (cases q; cases f) (simp_all add: Uri_def)
  from r f q v obtain t w where w: "IsValidUriText s" "parse_scheme s2 ?v = Some (t, w)" "parse_hierarchy t w = Some u"
    by (auto simp: Uri_Create_def Let_def split: if_splits option.splits prod.splits)
  note c1 = cut_at_parts [OF w(1) _ _ f]
  have s1: "IsValidUriText s1" "CHR ''#'' \<notin> set s1" "case f of Some t \<Rightarrow> IsValidUriText t | None \<Rightarrow> True"
    using c1 by (auto split: option.splits)
  note c2 = cut_at_parts [OF s1(1) _ _ q]
  have s2: "IsValidUriText s2" "CHR ''?'' \<notin> set s2" "set s2 \<subseteq> set s1" using c2 by auto
  have q2: "IsValidUriText (case q of Some q \<Rightarrow> q | None \<Rightarrow> [])" "CHR ''#'' \<notin> set (case q of Some q \<Rightarrow> q | None \<Rightarrow> [])"
    using c2 s1(2) by (auto split: option.splits)
  have f2: "IsValidUriText (case f of Some f \<Rightarrow> f | None \<Rightarrow> [])" using s1(3) by (simp split: option.splits)
  have sc: "IsValidUriText t \<and> set t \<subseteq> set s2 \<and> scheme_ok (uri_scheme w) \<and> map ascii_lower (uri_scheme w) = uri_scheme w \<and>
      w = ?v\<lparr> uri_scheme := uri_scheme w \<rparr> \<and> (uri_scheme w = [] \<longrightarrow> relative_ok t)"
    by (rule parse_scheme_ok [OF s2(1) _ w(2)]) (simp add: Uri_def)
  then obtain sch where sch: "w = ?v\<lparr> uri_scheme := sch \<rparr>" by blast
  show ?thesis
    by (rule parse_hierarchy_ok [OF _ _ _ _ _ _ _ _ _ _ _ _ _ w(3) b])
      (use sc s1(2) s2 q2 f2 in \<open>auto simp: sch Uri_def\<close>)
qed

section \<open>Properties\<close>

text \<open>C34: Printing a well-formed URI and parsing the text gives the URI back, every component in its place:
  scheme, user information, host (a bracketed IPv6 literal included), port, path, query and fragment.\<close>

theorem uri_print_parse: "wf_uri u \<Longrightarrow> Uri_Create (uri_dump u) = Some u"
  by (rule print_parse)

lemmas uri_eval = Uri_Create_def Uri_def Let_def cut_at_def parse_scheme_def parse_hierarchy_def ParseAuthority_def
  ParseHostPort_def ParsePort_def setHost_def setScheme_def IsSchemeStart_def IsSchemeCharacter_def is_alpha_def
  is_upper_def is_lower_def is_digit_def is_hex_def ascii_lower_def from_chars_def digit_value_def substr_def
  uri_dump_def dump_authority_def dump_host_def isDefaultPort_def show_nat.simps digit_char_def

definition sample_uri :: uri where
  "sample_uri = \<lparr> uri_scheme = ''http'', uri_userinfo = ''u:p'', uri_host = ''::1'', uri_path = ''/a%20b'', uri_query = ''x=?'',
     uri_fragment = ''#t'', uri_port = 8080, uri_has_authority = True \<rparr>"

theorem uri_print_parse_witness:
  "uri_dump sample_uri = ''http://u:p@[::1]:8080/a%20b?x=?##t'' \<and> Uri_Create (uri_dump sample_uri) = Some sample_uri"
proof
  show "uri_dump sample_uri = ''http://u:p@[::1]:8080/a%20b?x=?##t''"
    by (simp add: sample_uri_def uri_eval, code_simp)
  have "wf_uri sample_uri" by code_simp
  then show "Uri_Create (uri_dump sample_uri) = Some sample_uri" by (rule uri_print_parse)
qed

text \<open>C35: Every URI the parser accepts, brought to its normal form (an explicit default port dropped, an
  empty path under an authority read as the root), has a lower-case scheme, a port between 0 and 65535 or none,
  and components that hold no delimiter of a later one; its printed text parses to that normal form.  A host
  that came out of brackets without being an IPv6 literal must hold no further bracket.\<close>

theorem parsed_uri_type:
  "Uri_Create s = Some u \<Longrightarrow> brackets_ok u \<Longrightarrow>
    wf_uri (uri_normal u) \<and> Uri_Create (uri_dump u) = Some (uri_normal u)"
  using print_parse [OF parsed_wf] by (simp add: parsed_wf dump_normal)

theorem parsed_uri_type_witness:
  "wf_uri (uri_normal (the (Uri_Create ''HTTP://me@host:80?q#f''))) \<and>
   Uri_Create (uri_dump (the (Uri_Create ''HTTP://me@host:80?q#f''))) = Some (uri_normal (the (Uri_Create ''HTTP://me@host:80?q#f''))) \<and>
   uri_dump (the (Uri_Create ''HTTP://me@host:80?q#f'')) = ''http://me@host/?q#f''"
proof -
  let ?s = "''HTTP://me@host:80?q#f''"
  let ?u = "\<lparr> uri_scheme = ''http'', uri_userinfo = ''me'', uri_host = ''host'', uri_path = [], uri_query = ''q'',
     uri_fragment = ''f'', uri_port = 80, uri_has_authority = True \<rparr>"
  have s: "Uri_Create ?s = Some ?u" by (simp add: uri_eval, code_simp)
  have "brackets_ok ?u" by (simp add: brackets_ok_def)
  moreover have "uri_dump ?u = ''http://me@host/?q#f''" by (simp add: uri_eval)
  ultimately show ?thesis using parsed_uri_type [OF s] s by simp
qed

text \<open>A bracketed host that holds a bracket and no colon prints as a text the parser rejects.\<close>

lemma nested_bracket_lost:
  "map_option (Uri_Create \<circ> uri_dump) (Uri_Create ''http://[[a]/'') = Some None"
  by (simp add: uri_eval)

text \<open>The address of a URI has the explicit port, else the one of its scheme; a URI with neither has none.\<close>

lemma createAddress_port:
  "createAddress lookup u = Some (a, p) \<Longrightarrow>
    lookup (uri_host u) = Some a \<and> uint p = uri_getPort u \<and> (uri_port u \<ge> 0 \<longrightarrow> uint p = uri_port u)"
  by (auto simp: createAddress_def Let_def uint_word_of_int_eq take_bit_eq_mod uri_getPort_def split: if_splits)

end
