(* ===== verification/Http_Client.thy ===== *)
theory Http_Client
  imports Http_Session Http_Response_Parser Uri
begin

unbundle bit_operations_syntax

text \<open>
  \<open>HttpConnection\<close> (include/droplet/http/http_connection.h, src/http/http_connection.cc): the client's
  side of a connection and the one-shot requests.  The socket is the environment: after the segments
  the kernel will hand out a \<open>recv\<close> reports the end of the stream or fails with an \<open>errno\<close>, and after
  the accepted sends a \<open>send\<close> may fail too.  Name resolution, \<open>connect\<close> and \<open>std::strerror\<close> are
  parameters; the steady clock is an argument.
\<close>

section \<open>Results\<close>

datatype HttpResultError =
    RES_OK | INVALID_URL | INVALID_HOST | CONNECT_FAIL | SEND_CLOSE_BY_PEER | SEND_SOCKET_ERROR | TIMEOUT
  | CREATE_SOCKET_ERROR | POOL_GET_CONNECTION | POOL_INVALID_CONNECTION | UNSUPPORTED_SCHEME
  | RECEIVE_CLOSE_BY_PEER | RECEIVE_SOCKET_ERROR | PARSE_ERROR

fun error_code :: "HttpResultError \<Rightarrow> int" where
  "error_code RES_OK = 0"
| "error_code INVALID_URL = 1"
| "error_code INVALID_HOST = 2"
| "error_code CONNECT_FAIL = 3"
| "error_code SEND_CLOSE_BY_PEER = 4"
| "error_code SEND_SOCKET_ERROR = 5"
| "error_code TIMEOUT = 6"
| "error_code CREATE_SOCKET_ERROR = 7"
| "error_code POOL_GET_CONNECTION = 8"
| "error_code POOL_INVALID_CONNECTION = 9"
| "error_code UNSUPPORTED_SCHEME = 10"
| "error_code RECEIVE_CLOSE_BY_PEER = 11"
| "error_code RECEIVE_SOCKET_ERROR = 12"
| "error_code PARSE_ERROR = 13"

record http_result =
  hr_result :: int
  hr_response :: "http_response option"
  hr_error :: string

definition MakeResult :: "HttpResultError \<Rightarrow> string \<Rightarrow> http_response option \<Rightarrow> http_result" where
  "MakeResult error message response =
     \<lparr> hr_result = error_code error, hr_response = response, hr_error = message \<rparr>"

definition success :: "http_result \<Rightarrow> bool" where
  "success r \<longleftrightarrow> hr_result r = error_code RES_OK"

definition http_result_toString :: "http_result \<Rightarrow> string" where
  "http_result_toString r =
     ''[HttpResult result='' @ show_nat (nat (hr_result r)) @ '' error='' @ hr_error r @ '' response='' @
     (case hr_response r of Some response \<Rightarrow> rs_dump response | None \<Rightarrow> ''nullptr'') @ '']''"

section \<open>Helpers\<close>

text \<open>The loop of this file's \<open>HeaderContainsToken\<close>, from an index of the header on.\<close>

definition trim_item :: "string \<Rightarrow> string" where
  "trim_item item =
     rev (dropWhile (\<lambda>c. c = SP \<or> c = TAB) (rev (dropWhile (\<lambda>c. c = SP \<or> c = TAB) item)))"

lemma find_char_from_bound: "find_char_from x s pos = Some i \<Longrightarrow> pos \<le> i \<and> i < length s"
  by (auto simp: find_char_from_def dest!: find_char_bound split: if_splits)

function token_loop :: "string \<Rightarrow> string \<Rightarrow> nat \<Rightarrow> bool" where
  "token_loop header token begin_at =
     (if begin_at \<le> length header
      then let end_at = find_char_from (CHR '','') header begin_at;
               item = substr header begin_at
                        (case end_at of None \<Rightarrow> length header - begin_at | Some e \<Rightarrow> e - begin_at)
           in if CaseInsensitiveEqual (trim_item item) token then True
              else case end_at of None \<Rightarrow> False | Some e \<Rightarrow> token_loop header token (e + 1)
      else False)"
  by pat_completeness auto
termination
  by (relation "measure (\<lambda>(header, _, begin_at). Suc (length header) - begin_at)")
     (auto dest!: find_char_from_bound [OF sym])

declare token_loop.simps [simp del]

definition header_has_token :: "string \<Rightarrow> string \<Rightarrow> bool" where
  "header_has_token header token = token_loop header token 0"

definition ETIMEDOUT :: int where "ETIMEDOUT = 110"
definition EAGAIN :: int where "EAGAIN = 11"
definition EINVAL :: int where "EINVAL = 22"

definition IsTimeoutError :: "int \<Rightarrow> bool" where
  "IsTimeoutError error \<longleftrightarrow> error = ETIMEDOUT \<or> error = EAGAIN"

text \<open>The header of a host and a port that is not the default of the scheme.\<close>

definition HostHeader_uri :: "uri \<Rightarrow> string" where
  "HostHeader_uri u =
     (if find_char (CHR '':'') (uri_host u) \<noteq> None then ''['' @ uri_host u @ '']'' else uri_host u) @
     (if \<not> isDefaultPort u \<and> uri_getPort u \<ge> 0 then '':'' @ show_nat (nat (uri_getPort u)) else [])"

definition HostHeader :: "string \<Rightarrow> u16 \<Rightarrow> bool \<Rightarrow> string" where
  "HostHeader host port https =
     (if find_char (CHR '':'') host \<noteq> None then ''['' @ host @ '']'' else host) @
     (if (https \<and> port \<noteq> 443) \<or> (\<not> https \<and> port \<noteq> 80) then '':'' @ show_nat (unat port) else [])"

text \<open>One header of the caller: the new request and whether a \<open>Host\<close> has been seen.\<close>

definition build_header :: "string \<times> string \<Rightarrow> http_request \<times> bool \<Rightarrow> http_request \<times> bool" where
  "build_header = (\<lambda>(name, v) (request, has_host).
     if CaseInsensitiveEqual name ''connection''
     then (if header_has_token v ''close'' then request\<lparr> rq_close := True \<rparr>
           else if header_has_token v ''keep-alive'' then request\<lparr> rq_close := False \<rparr>
           else request, has_host)
     else (rq_setHeader name v request,
           has_host \<or> (CaseInsensitiveEqual name ''host'' \<and> v \<noteq> [])))"

definition BuildRequest ::
  "HttpMethod \<Rightarrow> string \<Rightarrow> string \<Rightarrow> bool \<Rightarrow> HttpMap \<Rightarrow> string \<Rightarrow> string \<Rightarrow> http_request" where
  "BuildRequest method path query close headers body default_host =
     (let request = (HttpRequest 0x11 close)\<lparr> rq_method := method, rq_path := (if path = [] then ''/'' else path) \<rparr>;
          request = rq_setBody body (rq_setQuery query request);
          (request, has_host) = fold build_header headers (request, False)
      in if has_host then request else rq_setHeader ''Host'' default_host request)"

definition IsInterimResponse :: "http_response \<Rightarrow> bool" where
  "IsInterimResponse r \<longleftrightarrow> rs_status r \<ge> 100 \<and> rs_status r < 200 \<and> rs_status r \<noteq> 101"

section \<open>The connection\<close>

record client_socket =
  cs_stream :: "char socket_stream"
  cs_recv_fault :: "int option"
  cs_send_fault :: "int option"
  cs_recv_timeout :: int
  cs_send_timeout :: int

text \<open>The socket option takes a signed number of milliseconds.\<close>

definition SetSocketTimeouts :: "u64 \<Rightarrow> client_socket \<Rightarrow> client_socket" where
  "SetSocketTimeouts timeout_ms s =
     (if timeout_ms = - 1 then s
      else let bounded = min (uint timeout_ms) (2 ^ 63 - 1)
           in s\<lparr> cs_recv_timeout := bounded, cs_send_timeout := bounded \<rparr>)"

record http_connection =
  hc_socket :: client_socket
  hc_errno :: int
  hc_created_at_ms :: u64
  hc_request_count :: u64
  hc_pending_method :: HttpMethod
  hc_reusable :: bool
  hc_input :: string
  hc_last_error :: HttpResultError
  hc_last_error_message :: string

definition HttpConnection :: "u64 \<Rightarrow> client_socket \<Rightarrow> http_connection" where
  "HttpConnection now socket =
     \<lparr> hc_socket = socket, hc_errno = 0, hc_created_at_ms = now, hc_request_count = 0, hc_pending_method = GET,
       hc_reusable = True, hc_input = [], hc_last_error = RES_OK, hc_last_error_message = [] \<rparr>"

abbreviation hc_stream :: "http_connection \<Rightarrow> char socket_stream" where
  "hc_stream c \<equiv> cs_stream (hc_socket c)"

definition set_stream :: "char socket_stream \<Rightarrow> http_connection \<Rightarrow> http_connection" where
  "set_stream s c = c\<lparr> hc_socket := (hc_socket c)\<lparr> cs_stream := s \<rparr> \<rparr>"

definition hc_isConnected :: "http_connection \<Rightarrow> bool" where
  "hc_isConnected c \<longleftrightarrow> ss_connected (hc_stream c)"

definition hc_close :: "http_connection \<Rightarrow> http_connection" where
  "hc_close c = set_stream (ss_close (hc_stream c)) c"

text \<open>\<open>SocketStream::read\<close> and \<open>write\<close> on this environment.\<close>

definition hc_read :: "nat \<Rightarrow> http_connection \<Rightarrow> (int \<times> string) \<times> http_connection" where
  "hc_read n c =
     (case (if hc_isConnected c \<and> ss_incoming (hc_stream c) = [] then cs_recv_fault (hc_socket c) else None) of
        Some e \<Rightarrow> ((- 1, []), c\<lparr> hc_errno := e \<rparr>)
      | None \<Rightarrow> (case ss_read False n (hc_stream c) of (r, s) \<Rightarrow> (r, set_stream s c)))"

definition hc_write :: "string \<Rightarrow> http_connection \<Rightarrow> int \<times> http_connection" where
  "hc_write bytes c =
     (case (if hc_isConnected c \<and> ss_accept (hc_stream c) = [] then cs_send_fault (hc_socket c) else None) of
        Some e \<Rightarrow> (- 1, c\<lparr> hc_errno := e \<rparr>)
      | None \<Rightarrow> (case ss_write_all bytes (hc_stream c) of (r, s) \<Rightarrow> (r, set_stream s c)))"

definition setLastError :: "HttpResultError \<Rightarrow> string \<Rightarrow> http_connection \<Rightarrow> http_connection" where
  "setLastError error message c = c\<lparr> hc_last_error := error, hc_last_error_message := message \<rparr>"

definition sendRequest :: "(int \<Rightarrow> string) \<Rightarrow> http_request option \<Rightarrow> http_connection \<Rightarrow> int \<times> http_connection" where
  "sendRequest strerror request c =
     (case request of
        None \<Rightarrow> (- 1, setLastError SEND_SOCKET_ERROR ''request is null'' (c\<lparr> hc_errno := EINVAL \<rparr>))
      | Some request \<Rightarrow>
          let data = rq_dump request;
              c = c\<lparr> hc_pending_method := rq_method request, hc_reusable := False \<rparr>;
              (result, c) = writeFixSize hc_write (Some data) (length data) c
          in if result \<le> 0
             then let error = hc_errno c
                  in (result, hc_close (setLastError
                       (if result = 0 then SEND_CLOSE_BY_PEER
                        else if IsTimeoutError error then TIMEOUT else SEND_SOCKET_ERROR)
                       (if result = 0 then ''peer closed while sending HTTP request''
                        else ''send HTTP request failed: '' @ strerror error) c))
             else (result, c))"

section \<open>Receiving a response\<close>

text \<open>\<open>parser.execute\<close> on the buffered bytes: what was consumed, the buffer, and the parser.\<close>

definition execute_input :: "bool \<Rightarrow> response_parser \<Rightarrow> string \<Rightarrow> nat \<times> string \<times> response_parser" where
  "execute_input eof parser input =
     (case q_execute_buffer (Some input) eof parser of
        (consumed, buf, parser') \<Rightarrow> (consumed, (case buf of None \<Rightarrow> input | Some b \<Rightarrow> b), parser'))"

lemma execute_input_eq:
  "execute_input eof parser input =
     (if q_finished parser \<or> q_hasError parser then (0, input, parser)
      else let (n, p) = q_parse input eof parser in (n, memmove_front input n, p))"
  by (auto simp: execute_input_def q_execute_buffer_def split: prod.splits)

text \<open>What \<open>recvResponse\<close> reports when \<open>read\<close> brings nothing more.\<close>

definition recv_failed :: "(int \<Rightarrow> string) \<Rightarrow> int \<Rightarrow> http_connection \<Rightarrow> http_response option \<times> http_connection" where
  "recv_failed strerror count c =
     (let error = hc_errno c
      in (None, hc_close
            (if count = 0
             then setLastError RECEIVE_CLOSE_BY_PEER ''peer closed before a complete HTTP response was received'' c
             else setLastError (if IsTimeoutError error then TIMEOUT else RECEIVE_SOCKET_ERROR)
                    (''receive HTTP response failed: '' @ strerror error) c)))"

definition recv_parse_error :: "response_parser \<Rightarrow> http_connection \<Rightarrow> http_response option \<times> http_connection" where
  "recv_parse_error parser c = (None, hc_close (setLastError PARSE_ERROR (q_error_message parser) c))"

lemma rs_parse_pos: "rs_parse m input eof = R_finished n r len ch cd \<Longrightarrow> 0 < n"
proof -
  assume f: "rs_parse m input eof = R_finished n r len ch cd"
  have t: "trailers_loop i tb p b r0 = C_done n0 b0 r1 \<Longrightarrow> 0 < n0" for i tb p b r0 n0 b0 r1
  proof (induction i tb p b r0 rule: trailers_loop.induct)
    case (1 i tb p b r0)
    obtain te where te: "find_from CRLF i p = Some te"
      using 1(2) by (cases "find_from CRLF i p") (auto simp: trailers_loop.simps [of i tb p] split: if_splits)
    have small: "\<not> te - tb > kMaxHeaderSize"
      using 1(2) te by (auto simp: trailers_loop.simps [of i tb p] split: if_splits)
    show ?case
    proof (cases "substr i p (te - p) = []")
      case True
      with 1(2) te small show ?thesis by (simp add: trailers_loop.simps [of i tb p])
    next
      case False
      with 1(2) te small obtain name v where h: "header_field (missing_colon ''HTTP trailer line'')
          ''HTTP trailer contains an invalid name or value'' (substr i p (te - p)) = Inr (name, v)"
        by (auto simp: trailers_loop.simps [of i tb p] Let_def split: sum.splits)
      show ?thesis using 1(1) [OF te small refl False h refl] 1(2) te small False h
        by (simp add: trailers_loop.simps [of i tb p])
    qed
  qed
  have c: "chunks_loop i p b r0 = C_done n0 b0 r1 \<Longrightarrow> 0 < n0" for i p b r0 n0 b0 r1
  proof (induction i p b r0 rule: chunks_loop.induct)
    case (1 i p b r0)
    obtain e k where e: "find_from CRLF i p = Some e" "ParseChunkSize (substr i p (e - p)) = Some k"
      using 1(2) by (auto simp: chunks_loop.simps [of i p] split: option.splits if_splits)
    show ?case
    proof (cases "k = 0")
      case True
      with 1(2) e t show ?thesis by (simp add: chunks_loop.simps [of i p] Let_def)
    next
      case False
      with 1(2) e have go: "\<not> k > kMaxBodySize - length b" "\<not> k > SIZE_MAX - (e + 2) - 2"
          "\<not> length i < e + 2 + k + 2" "substr i (e + 2 + k) 2 = CRLF"
        by (auto simp: chunks_loop.simps [of i p] Let_def split: if_splits)
      show ?thesis using 1(1) [OF e refl False go(1,2) refl go(3)] 1(2) e False go
        by (simp add: chunks_loop.simps [of i p] Let_def)
    qed
  qed
  have b: "rs_body_phase m input eof hs status h = R_finished n r len ch cd \<Longrightarrow> 0 < hs \<Longrightarrow> 0 < length input \<Longrightarrow> 0 < n" for hs status h
    by (auto simp: rs_body_phase_def Let_def dest: c split: if_splits chunk_result.splits)
  have "input \<noteq> []" using f by (auto simp: rs_parse_def)
  with f b show ?thesis
    by (auto simp: rs_parse_def Let_def split: option.splits if_splits sum.splits prod.splits)
qed

lemma execute_input_less:
  assumes "execute_input eof parser input = (n, input', parser')" "q_finished parser'" "\<not> q_finished parser"
  shows "0 < n \<and> n \<le> length input"
proof (cases "q_hasError parser")
  case True
  with assms show ?thesis by (simp add: execute_input_eq)
next
  case False
  with assms obtain p where "q_parse input eof parser = (n, p)" "q_finished p"
    by (auto simp: execute_input_eq split: prod.splits)
  then show ?thesis using rs_parse_pos rs_parse_bounds assms(3)
    by (auto simp: q_parse_def q_setError_def split: rs_outcome.splits)
qed

lemma hc_read_less:
  assumes "hc_read n c = ((count, bytes), c')" "0 < count"
  shows "length (ss_pending (hc_stream c')) + length bytes = length (ss_pending (hc_stream c)) \<and> bytes \<noteq> [] \<and> hc_input c' = hc_input c"
proof -
  obtain s where r: "ss_read False n (hc_stream c) = ((count, bytes), s)" and c': "c' = set_stream s c"
    using assms by (auto simp: hc_read_def split: option.splits prod.splits)
  have e: "sock_recv n (hc_stream c) = (bytes, s)" "count = to_int (int (length bytes))"
    using assms(2) r by (auto simp: ss_read_def split: if_splits prod.splits)
  have "bytes \<noteq> []" using assms(2) e(2) by (auto simp: to_int_def)
  moreover have "length (ss_pending s) + length bytes = length (ss_pending (hc_stream c))"
    using e(1) by (auto simp: sock_recv_def split: list.splits if_splits)
  ultimately show ?thesis by (simp add: c' set_stream_def)
qed

text \<open>One turn of the loop: it returns, or goes round again with a parser and the connection.\<close>

datatype recv_turn = Received "http_response option" http_connection | Again response_parser http_connection

definition turn_received :: "http_response option \<times> http_connection \<Rightarrow> recv_turn" where
  "turn_received = (\<lambda>(r, c). Received r c)"

definition read_turn :: "(int \<Rightarrow> string) \<Rightarrow> response_parser \<Rightarrow> http_connection \<Rightarrow> recv_turn" where
  "read_turn strerror parser c1 =
     (let input = hc_input c1; ((count, bytes), c2) = hc_read kDefaultBufferSize c1
      in if count > 0 then Again parser (c2\<lparr> hc_input := input @ bytes \<rparr>)
         else if count = 0 \<and> input \<noteq> []
         then let (consumed, input', parser) = execute_input True parser input;
                  c3 = c2\<lparr> hc_input := input' \<rparr>
              in if q_finished parser
                 then Received (Some (q_data parser))
                        (hc_close (c3\<lparr> hc_input := take (length input - consumed) input',
                           hc_request_count := hc_request_count c3 + 1, hc_reusable := False \<rparr>))
                 else if q_hasError parser then turn_received (recv_parse_error parser c3)
                 else turn_received (recv_failed strerror count c3)
         else turn_received (recv_failed strerror count c2))"

definition recv_turn_of :: "(int \<Rightarrow> string) \<Rightarrow> response_parser \<Rightarrow> http_connection \<Rightarrow> recv_turn" where
  "recv_turn_of strerror parser c =
     (if hc_input c = [] then read_turn strerror parser c
      else let buffered = length (hc_input c);
               (consumed, input, parser) = execute_input False parser (hc_input c);
               c1 = c\<lparr> hc_input := input \<rparr>
           in if q_hasError parser then turn_received (recv_parse_error parser c1)
              else if q_finished parser
              then let c1 = c1\<lparr> hc_input := take (buffered - consumed) input \<rparr>; response = q_data parser
                   in if IsInterimResponse response then Again (q_reset (hc_pending_method c1) parser) c1
                      else Received (Some response) (c1\<lparr> hc_request_count := hc_request_count c1 + 1,
                             hc_reusable := \<not> rs_close response \<and> rs_status response \<noteq> 101 \<rparr>)
              else read_turn strerror parser c1)"

definition turn_size :: "response_parser \<Rightarrow> http_connection \<Rightarrow> nat" where
  "turn_size parser c = 4 * length (ss_pending (hc_stream c)) + 2 * length (hc_input c) + (if q_finished parser then 1 else 0)"

lemma read_turn_less:
  "read_turn strerror parser c = Again parser' c' \<Longrightarrow> \<not> q_finished parser \<or> hc_input c = [] \<Longrightarrow> turn_size parser' c' < turn_size parser c"
proof -
  assume r: "read_turn strerror parser c = Again parser' c'" 
  obtain count bytes c2 where rd: "hc_read kDefaultBufferSize c = ((count, bytes), c2)" by (metis prod.collapse)
  with r have e: "count > 0" "parser' = parser" "c' = c2\<lparr> hc_input := hc_input c @ bytes \<rparr>"
    by (auto simp: read_turn_def Let_def turn_received_def recv_parse_error_def recv_failed_def split: if_splits prod.splits)
  from hc_read_less [OF rd e(1)] show ?thesis by (cases bytes) (auto simp: turn_size_def e)
qed

lemma execute_input_length: "execute_input eof parser input = (n, input', parser') \<Longrightarrow> length input' = length input"
  by (auto simp: execute_input_eq memmove_front_def split: if_splits prod.splits)

lemma recv_turn_less:
  assumes r: "recv_turn_of strerror parser c = Again parser' c'"
  shows "turn_size parser' c' < turn_size parser c"
proof (cases "hc_input c = []")
  case True
  with r read_turn_less show ?thesis by (simp add: recv_turn_of_def)
next
  case False
  obtain n input p where e: "execute_input False parser (hc_input c) = (n, input, p)" by (metis prod_cases3)
  note len = execute_input_length [OF e]
  show ?thesis
  proof (cases "q_finished p")
    case True
    with r False e have c': "c' = c\<lparr> hc_input := take (length (hc_input c) - n) input \<rparr>"
      and p': "parser' = HttpResponseParser (hc_pending_method c)"
      by (auto simp: recv_turn_of_def Let_def turn_received_def recv_parse_error_def q_reset_def split: if_splits)
    show ?thesis
    proof (cases "q_finished parser")
      case True
      then show ?thesis using len by (simp add: turn_size_def c' p' HttpResponseParser_def)
    next
      case nf: False
      show ?thesis using execute_input_less [OF e True nf] len nf
        by (auto simp: turn_size_def c' p' HttpResponseParser_def)
    qed
  next
    case nf: False
    with r False e have rt: "read_turn strerror p (c\<lparr> hc_input := input \<rparr>) = Again parser' c'"
      by (auto simp: recv_turn_of_def Let_def turn_received_def recv_parse_error_def split: if_splits)
    from read_turn_less [OF rt] nf len show ?thesis by (simp add: turn_size_def)
  qed
qed

function recv_response_loop ::
  "(int \<Rightarrow> string) \<Rightarrow> response_parser \<Rightarrow> http_connection \<Rightarrow> http_response option \<times> http_connection" where
  "recv_response_loop strerror parser c =
     (case recv_turn_of strerror parser c of
        Received r c' \<Rightarrow> (r, c')
      | Again parser' c' \<Rightarrow> recv_response_loop strerror parser' c')"
  by pat_completeness auto
termination
  by (relation "measure (\<lambda>(_, parser, c). turn_size parser c)") (auto dest: recv_turn_less)

declare recv_response_loop.simps [simp del]

definition recvResponse :: "(int \<Rightarrow> string) \<Rightarrow> http_connection \<Rightarrow> http_response option \<times> http_connection" where
  "recvResponse strerror c =
     recv_response_loop strerror (HttpResponseParser (hc_pending_method c)) (setLastError RES_OK [] c)"

section \<open>One-shot requests\<close>

text \<open>The network: \<open>resolve\<close> is \<open>Address::LookupAnyIPAddress\<close>, \<open>show_address\<close> prints an address with its
  port, \<open>create\<close> is whether \<open>Socket::CreateTCP\<close> gives a socket, and \<open>dial\<close> connects one within a timeout
  or fails with an \<open>errno\<close>.\<close>

record 'a network =
  resolve :: "string \<Rightarrow> 'a option"
  show_address :: "'a \<times> u16 \<Rightarrow> string"
  create :: "'a \<times> u16 \<Rightarrow> bool"
  dial :: "'a \<times> u16 \<Rightarrow> u64 \<Rightarrow> int + client_socket"

definition request_over ::
  "(int \<Rightarrow> string) \<Rightarrow> http_request option \<Rightarrow> http_connection \<Rightarrow> (int \<times> http_connection \<Rightarrow> http_result) \<Rightarrow> string \<Rightarrow>
   http_result \<times> http_connection" where
  "request_over strerror request c send_error closed =
     (let (sent, c) = sendRequest strerror request c
      in if sent = 0 then (MakeResult SEND_CLOSE_BY_PEER closed None, c)
         else if sent < 0 then (send_error (sent, c), c)
         else case recvResponse strerror c of
           (None, c) \<Rightarrow> (MakeResult (hc_last_error c) (hc_last_error_message c) None, c)
         | (Some response, c) \<Rightarrow> (MakeResult RES_OK ''ok'' (Some response), c))"

definition DoRequest ::
  "(int \<Rightarrow> string) \<Rightarrow> 'a network \<Rightarrow> u64 \<Rightarrow> http_request option \<Rightarrow> uri option \<Rightarrow> u64 \<Rightarrow> http_result" where
  "DoRequest strerror net now request uri timeout_ms =
     (case (request, uri) of
        (Some r, Some u) \<Rightarrow>
          if uri_scheme u \<noteq> ''http''
          then MakeResult UNSUPPORTED_SCHEME ''only plain http:// is supported; TLS is not implemented'' None
          else (case createAddress (resolve net) u of
            None \<Rightarrow> MakeResult INVALID_HOST (''cannot resolve host: '' @ uri_host u) None
          | Some address \<Rightarrow>
              if \<not> create net address
              then MakeResult CREATE_SOCKET_ERROR (''cannot create socket for '' @ show_address net address) None
              else (case dial net address timeout_ms of
                Inl error \<Rightarrow>
                  MakeResult (if IsTimeoutError error then TIMEOUT else CONNECT_FAIL)
                    (''connect to '' @ show_address net address @ '' failed: '' @ strerror error) None
              | Inr socket \<Rightarrow>
                  fst (request_over strerror request (HttpConnection now (SetSocketTimeouts timeout_ms socket))
                    (\<lambda>(_, c). MakeResult (if IsTimeoutError (hc_errno c) then TIMEOUT else SEND_SOCKET_ERROR)
                       (''send HTTP request failed: '' @ strerror (hc_errno c)) None)
                    ''peer closed while sending HTTP request'')))
      | _ \<Rightarrow> MakeResult INVALID_URL ''request and URI must not be null'' None)"

definition DoRequest_uri ::
  "(int \<Rightarrow> string) \<Rightarrow> 'a network \<Rightarrow> u64 \<Rightarrow> HttpMethod \<Rightarrow> uri option \<Rightarrow> u64 \<Rightarrow> HttpMap \<Rightarrow> string \<Rightarrow> http_result" where
  "DoRequest_uri strerror net now method uri timeout_ms headers body =
     (case uri of
        None \<Rightarrow> MakeResult INVALID_URL ''URI is null'' None
      | Some u \<Rightarrow>
          if uri_scheme u \<noteq> ''http''
          then MakeResult UNSUPPORTED_SCHEME ''only plain http:// is supported; TLS is not implemented'' None
          else if uri_host u = [] then MakeResult INVALID_HOST ''HTTP URI has an empty host'' None
          else DoRequest strerror net now
                 (Some (BuildRequest method (uri_getPath u) (uri_query u) True headers body (HostHeader_uri u)))
                 uri timeout_ms)"

definition DoRequest_url ::
  "(int \<Rightarrow> string) \<Rightarrow> 'a network \<Rightarrow> u64 \<Rightarrow> HttpMethod \<Rightarrow> string \<Rightarrow> u64 \<Rightarrow> HttpMap \<Rightarrow> string \<Rightarrow> http_result" where
  "DoRequest_url strerror net now method url timeout_ms headers body =
     (case Uri_Create url of
        None \<Rightarrow> MakeResult INVALID_URL (''invalid URL: '' @ url) None
      | Some u \<Rightarrow> DoRequest_uri strerror net now method (Some u) timeout_ms headers body)"

definition DoGet ::
  "(int \<Rightarrow> string) \<Rightarrow> 'a network \<Rightarrow> u64 \<Rightarrow> string \<Rightarrow> u64 \<Rightarrow> HttpMap \<Rightarrow> string \<Rightarrow> http_result" where
  "DoGet strerror net now = DoRequest_url strerror net now GET"

definition DoPost ::
  "(int \<Rightarrow> string) \<Rightarrow> 'a network \<Rightarrow> u64 \<Rightarrow> string \<Rightarrow> u64 \<Rightarrow> HttpMap \<Rightarrow> string \<Rightarrow> http_result" where
  "DoPost strerror net now = DoRequest_url strerror net now POST"

definition DoGet_uri ::
  "(int \<Rightarrow> string) \<Rightarrow> 'a network \<Rightarrow> u64 \<Rightarrow> uri option \<Rightarrow> u64 \<Rightarrow> HttpMap \<Rightarrow> string \<Rightarrow> http_result" where
  "DoGet_uri strerror net now = DoRequest_uri strerror net now GET"

definition DoPost_uri ::
  "(int \<Rightarrow> string) \<Rightarrow> 'a network \<Rightarrow> u64 \<Rightarrow> uri option \<Rightarrow> u64 \<Rightarrow> HttpMap \<Rightarrow> string \<Rightarrow> http_result" where
  "DoPost_uri strerror net now = DoRequest_uri strerror net now POST"

section \<open>What a response is, as a function of the bytes\<close>

text \<open>The bytes of the connection no response has used yet, and a connection that can still read.\<close>

definition hc_unread :: "http_connection \<Rightarrow> string" where
  "hc_unread c = hc_input c @ ss_pending (hc_stream c)"

definition hc_alive :: "http_connection \<Rightarrow> bool" where
  "hc_alive c \<longleftrightarrow> ss_alive (hc_stream c)"

datatype recv_outcome =
    Delivered http_response string
  | Closed_by_peer http_response
  | Refused HttpResultError string

text \<open>Interim responses are skipped; then the first response decides, or what ended the stream.\<close>

function first_response :: "(int \<Rightarrow> string) \<Rightarrow> HttpMethod \<Rightarrow> int option \<Rightarrow> string \<Rightarrow> recv_outcome" where
  "first_response strerror m fault bytes =
     (case rs_parse m bytes False of
        R_finished n r _ _ _ \<Rightarrow>
          if IsInterimResponse r then first_response strerror m fault (drop n bytes) else Delivered r (drop n bytes)
      | R_failed _ message _ \<Rightarrow> Refused PARSE_ERROR message
      | R_incomplete _ \<Rightarrow>
          (case fault of
             Some e \<Rightarrow> Refused (if IsTimeoutError e then TIMEOUT else RECEIVE_SOCKET_ERROR)
                         (''receive HTTP response failed: '' @ strerror e)
           | None \<Rightarrow>
               (case rs_parse m bytes True of
                  R_finished _ r _ _ _ \<Rightarrow> Closed_by_peer r
                | R_failed _ message _ \<Rightarrow> Refused PARSE_ERROR message
                | R_incomplete _ \<Rightarrow>
                    Refused RECEIVE_CLOSE_BY_PEER ''peer closed before a complete HTTP response was received'')))"
  by pat_completeness auto
termination
proof (relation "measure (\<lambda>(_, _, _, bytes). length bytes)", goal_cases)
  case (2 strerror m fault bytes n r len ch cd)
  then have f: "rs_parse m bytes False = R_finished n r len ch cd" by simp
  from rs_parse_pos [OF f] rs_parse_bounds [OF f] show ?case by auto
qed simp

declare first_response.simps [simp del]

text \<open>Bytes no prefix of which is refused before they have all been read: the limits on chunk lines and
  trailers look at what has arrived, so a long one may be refused for the way it was cut.\<close>

definition steady :: "HttpMethod \<Rightarrow> string \<Rightarrow> bool" where
  "steady m bytes \<longleftrightarrow> (\<forall>k e message cd. rs_parse m (take k bytes) False = R_failed e message cd \<longrightarrow>
     (\<exists>cd'. rs_parse m bytes False = R_failed e message cd'))"

function calm :: "HttpMethod \<Rightarrow> string \<Rightarrow> bool" where
  "calm m bytes \<longleftrightarrow> steady m bytes \<and>
     (case rs_parse m bytes False of
        R_finished n r _ _ _ \<Rightarrow> if IsInterimResponse r then calm m (drop n bytes) else True
      | _ \<Rightarrow> True)"
  by pat_completeness auto
termination
proof (relation "measure (\<lambda>(_, bytes). length bytes)", goal_cases)
  case (2 m bytes n r len ch cd)
  then have f: "rs_parse m bytes False = R_finished n r len ch cd" by simp
  from rs_parse_pos [OF f] rs_parse_bounds [OF f] show ?case by auto
qed simp

declare calm.simps [simp del]

lemma calm_drop: "calm m bytes \<Longrightarrow> rs_parse m bytes False = R_finished n r len ch cd \<Longrightarrow> IsInterimResponse r \<Longrightarrow> calm m (drop n bytes)"
  by (subst (asm) calm.simps) simp

lemma calm_prefix: "calm m (p @ q) \<Longrightarrow> rs_parse m p False = R_failed e message cd \<Longrightarrow>
    \<exists>cd'. rs_parse m (p @ q) False = R_failed e message cd'"
  by (subst (asm) calm.simps, unfold steady_def) (metis append_eq_conv_conj)

definition outcome_ok :: "recv_outcome \<Rightarrow> http_connection \<Rightarrow> http_response option \<times> http_connection \<Rightarrow> bool" where
  "outcome_ok out c = (\<lambda>(result, c').
     ss_sent (hc_stream c') = ss_sent (hc_stream c) \<and>
     (case out of
        Delivered r rest \<Rightarrow>
          result = Some r \<and> hc_alive c' \<and> hc_unread c' = rest \<and> hc_request_count c' = hc_request_count c + 1 \<and>
          hc_reusable c' = (\<not> rs_close r \<and> rs_status r \<noteq> 101) \<and> hc_last_error c' = hc_last_error c
      | Closed_by_peer r \<Rightarrow>
          result = Some r \<and> \<not> hc_isConnected c' \<and> hc_request_count c' = hc_request_count c + 1 \<and> \<not> hc_reusable c'
      | Refused e message \<Rightarrow>
          result = None \<and> \<not> hc_isConnected c' \<and> hc_last_error c' = e \<and> hc_last_error_message c' = message))"

lemma outcome_ok_input [simp]: "outcome_ok out (c\<lparr> hc_input := i \<rparr>) = outcome_ok out c"
  by (cases out) (simp_all add: outcome_ok_def)

text \<open>A parser in the middle of a message.\<close>

definition parsing :: "HttpMethod \<Rightarrow> response_parser \<Rightarrow> bool" where
  "parsing m parser \<longleftrightarrow> \<not> q_finished parser \<and> q_error parser = E_NONE \<and> q_request_method parser = m"

lemma parsing_new: "parsing m (HttpResponseParser m)"
  by (simp add: parsing_def HttpResponseParser_def)

lemma rs_parse_error_real: "rs_parse m input eof \<noteq> R_failed E_NONE message cd"
proof
  assume f: "rs_parse m input eof = R_failed E_NONE message cd"
  have line: "parse_status_line l \<noteq> Inl (E_NONE, w)" for l w
    by (auto simp: parse_status_line_def Let_def split: option.splits if_splits list.splits)
  have field: "header_field a b l \<noteq> Inl (E_NONE, w)" for a b l w
    by (auto simp: header_field_def Let_def split: option.splits if_splits)
  have take: "rs_take_header k v h \<noteq> Inl (E_NONE, w)" for k v h w
    by (auto simp: rs_take_header_def Let_def content_length_error_def split: option.splits if_splits)
  have loop: "rs_headers_loop i he b h \<noteq> Inl (E_NONE, w)" for i he b h w
  proof (induction i he b h rule: rs_headers_loop.induct)
    case (1 i he b h)
    then show ?case by (subst rs_headers_loop.simps) (auto simp: Let_def field take split: option.splits sum.splits)
  qed
  have tr: "trailers_loop i tb p b r0 \<noteq> C_fail E_NONE w" for i tb p b r0 w
  proof (induction i tb p b r0 rule: trailers_loop.induct)
    case (1 i tb p b r0)
    then show ?case by (subst trailers_loop.simps) (auto simp: Let_def field split: option.splits sum.splits)
  qed
  have ch: "chunks_loop i p b r0 \<noteq> C_fail E_NONE w" for i p b r0 w
  proof (induction i p b r0 rule: chunks_loop.induct)
    case (1 i p b r0)
    then show ?case by (subst chunks_loop.simps) (auto simp: Let_def tr split: option.splits)
  qed
  have body: "rs_body_phase m input eof hs st h \<noteq> R_failed E_NONE w cd'" for hs st h w cd'
    by (auto simp: rs_body_phase_def Let_def ch split: chunk_result.splits)
  show False using f line loop body unfolding rs_parse_def
    by (auto simp: Let_def split: if_splits option.splits sum.splits prod.splits)
qed

lemma execute_parsing:
  assumes "parsing m parser"
  shows "rs_parse m input eof = R_incomplete cd \<Longrightarrow> \<exists>parser'. execute_input eof parser input = (0, input, parser') \<and> parsing m parser'"
    and "rs_parse m input eof = R_failed e message cd \<Longrightarrow> \<exists>parser'. execute_input eof parser input = (0, input, parser') \<and>
      q_hasError parser' \<and> \<not> q_finished parser' \<and> q_error_message parser' = message"
    and "rs_parse m input eof = R_finished n r len ch cd \<Longrightarrow> \<exists>parser'. execute_input eof parser input = (n, memmove_front input n, parser') \<and>
      \<not> q_hasError parser' \<and> q_finished parser' \<and> q_data parser' = r"
  using assms rs_parse_error_real
  by (auto simp: execute_input_eq parsing_def q_hasError_def q_parse_def q_setError_def memmove_front_def)

lemma hc_read_end:
  assumes "hc_alive c" "ss_pending (hc_stream c) = []"
  shows "hc_read kDefaultBufferSize c =
    (case cs_recv_fault (hc_socket c) of Some e \<Rightarrow> ((- 1, []), c\<lparr> hc_errno := e \<rparr>) | None \<Rightarrow> ((0, []), c))"
proof -
  have i: "ss_incoming (hc_stream c) = []"
    using assms by (cases "ss_incoming (hc_stream c)") (auto simp: hc_alive_def ss_alive_def)
  have "ss_read False kDefaultBufferSize (hc_stream c) = ((0, []), hc_stream c)"
    using assms i by (simp add: ss_read_def hc_alive_def ss_alive_def sock_recv_def kDefaultBufferSize_def SSIZE_MAX_def to_int_def)
  then show ?thesis using assms i
    by (simp add: hc_read_def hc_isConnected_def hc_alive_def ss_alive_def set_stream_def split: option.split)
qed

lemma hc_read_more:
  assumes "hc_alive c" "ss_pending (hc_stream c) \<noteq> []"
  obtains bytes s where "hc_read kDefaultBufferSize c = ((int (length bytes), bytes), set_stream s c)" "bytes \<noteq> []"
    "ss_pending (hc_stream c) = bytes @ ss_pending s" "ss_sent s = ss_sent (hc_stream c)" "ss_alive s"
proof -
  have al: "ss_alive (hc_stream c)" using assms by (simp add: hc_alive_def)
  obtain bytes s where r: "ss_read False kDefaultBufferSize (hc_stream c) = ((int (length bytes), bytes), s)"
    "ss_pending (hc_stream c) = bytes @ ss_pending s" "ss_sent s = ss_sent (hc_stream c)" "ss_alive s"
    "bytes = [] \<longrightarrow> ss_pending (hc_stream c) = []"
    by (rule ss_read_buffer [OF al])
  have "ss_incoming (hc_stream c) \<noteq> []" using assms(2) by auto
  then have "hc_read kDefaultBufferSize c = ((int (length bytes), bytes), set_stream s c)"
    using r(1) by (simp add: hc_read_def)
  with r assms(2) that show thesis by blast
qed

text \<open>Reading with an unfinished message in the buffer: at the end of the stream the outcome is
  settled, before it the loop goes round with more bytes.\<close>

definition turn_ok :: "recv_outcome \<Rightarrow> http_connection \<Rightarrow> recv_turn \<Rightarrow> bool" where
  "turn_ok out c t = (case t of Received r c' \<Rightarrow> outcome_ok out c (r, c') | Again _ _ \<Rightarrow> False)"

lemma recv_failed_ok:
  "turn_ok (if count = 0 then Refused RECEIVE_CLOSE_BY_PEER ''peer closed before a complete HTTP response was received''
            else Refused (if IsTimeoutError (hc_errno c') then TIMEOUT else RECEIVE_SOCKET_ERROR)
                   (''receive HTTP response failed: '' @ strerror (hc_errno c')))
     c (turn_received (recv_failed strerror count c')) = (ss_sent (hc_stream c') = ss_sent (hc_stream c))"
  by (simp add: turn_ok_def outcome_ok_def turn_received_def recv_failed_def setLastError_def hc_close_def
    set_stream_def ss_close_def hc_isConnected_def)

lemma recv_parse_error_ok:
  "turn_ok (Refused PARSE_ERROR (q_error_message p)) c (turn_received (recv_parse_error p c')) =
     (ss_sent (hc_stream c') = ss_sent (hc_stream c))"
  by (simp add: turn_ok_def outcome_ok_def turn_received_def recv_parse_error_def setLastError_def hc_close_def
    set_stream_def ss_close_def hc_isConnected_def)

lemma read_turn_end:
  assumes "hc_alive c" "ss_pending (hc_stream c) = []" "parsing (hc_pending_method c) parser"
    and inc: "rs_parse (hc_pending_method c) (hc_input c) False = R_incomplete cd"
  shows "turn_ok (first_response strerror (hc_pending_method c) (cs_recv_fault (hc_socket c)) (hc_unread c)) c
    (read_turn strerror parser c)"
proof -
  let ?m = "hc_pending_method c"
  note rd = hc_read_end [OF assms(1,2)]
  have u: "hc_unread c = hc_input c" using assms(2) by (simp add: hc_unread_def)
  note spec = first_response.simps [of strerror ?m "cs_recv_fault (hc_socket c)" "hc_input c"]
  have nil: "rs_parse ?m [] True = R_incomplete False" by (simp add: rs_parse_def)
  show ?thesis
  proof (cases "cs_recv_fault (hc_socket c)")
    case (Some e)
    have "read_turn strerror parser c = turn_received (recv_failed strerror (- 1) (c\<lparr> hc_errno := e \<rparr>))"
      using Some rd by (simp add: read_turn_def)
    with recv_failed_ok [of "- 1" "c\<lparr> hc_errno := e \<rparr>" strerror c] show ?thesis using u inc Some spec by simp
  next
    case None
    show ?thesis
    proof (cases "hc_input c = []")
      case True
      then have "read_turn strerror parser c = turn_received (recv_failed strerror 0 c)"
        using None rd by (simp add: read_turn_def)
      with recv_failed_ok [of 0 c strerror c] show ?thesis using u inc None spec nil True by simp
    next
      case ne: False
      show ?thesis
      proof (cases "rs_parse ?m (hc_input c) True")
        case (R_failed e message cd')
        from execute_parsing(2) [OF assms(3) R_failed] obtain p where
          p: "execute_input True parser (hc_input c) = (0, hc_input c, p)" "q_hasError p" "\<not> q_finished p" "q_error_message p = message"
          by blast
        then have "read_turn strerror parser c = turn_received (recv_parse_error p c)"
          using None rd ne by (simp add: read_turn_def)
        with recv_parse_error_ok [of p c c] show ?thesis using u inc None spec R_failed p(4) by simp
      next
        case (R_incomplete cd')
        from execute_parsing(1) [OF assms(3) R_incomplete] obtain p where
          p: "execute_input True parser (hc_input c) = (0, hc_input c, p)" "parsing ?m p" by blast
        then have "read_turn strerror parser c = turn_received (recv_failed strerror 0 c)"
          using None rd ne by (simp add: read_turn_def parsing_def q_hasError_def)
        with recv_failed_ok [of 0 c strerror c] show ?thesis using u inc None spec R_incomplete by simp
      next
        case (R_finished n r len ch cd')
        from execute_parsing(3) [OF assms(3) R_finished] obtain p where
          p: "execute_input True parser (hc_input c) = (n, memmove_front (hc_input c) n, p)" "\<not> q_hasError p" "q_finished p" "q_data p = r"
          by blast
        show ?thesis using p None rd ne u inc spec R_finished
          by (simp add: read_turn_def Let_def turn_ok_def outcome_ok_def hc_close_def set_stream_def ss_close_def hc_isConnected_def)
      qed
    qed
  qed
qed

lemma read_turn_more:
  assumes "hc_alive c" "ss_pending (hc_stream c) \<noteq> []"
  obtains c' where "read_turn strerror parser c = Again parser c'" "hc_alive c'" "hc_unread c' = hc_unread c"
    "hc_pending_method c' = hc_pending_method c" "\<forall>out. outcome_ok out c' = outcome_ok out c"
    "cs_recv_fault (hc_socket c') = cs_recv_fault (hc_socket c)"
proof -
  obtain bytes s where
    r: "hc_read kDefaultBufferSize c = ((int (length bytes), bytes), set_stream s c)" "bytes \<noteq> []"
      "ss_pending (hc_stream c) = bytes @ ss_pending s" "ss_sent s = ss_sent (hc_stream c)" "ss_alive s"
    by (rule hc_read_more [OF assms])
  let ?c = "(set_stream s c)\<lparr> hc_input := hc_input c @ bytes \<rparr>"
  show thesis
  proof (rule that)
    show "read_turn strerror parser c = Again parser ?c" using r(1,2) by (simp add: read_turn_def)
    show "hc_alive ?c" using r(5) by (simp add: hc_alive_def set_stream_def)
    show "hc_unread ?c = hc_unread c" using r(3) by (simp add: hc_unread_def set_stream_def)
    have "outcome_ok out ?c = outcome_ok out c" for out
      using r(4) by (cases out) (simp_all add: outcome_ok_def set_stream_def)
    then show "\<forall>out. outcome_ok out ?c = outcome_ok out c" by blast
  qed (simp_all add: set_stream_def)
qed

lemma recv_response_loop_ok:
  "parsing (hc_pending_method c) parser \<Longrightarrow> hc_alive c \<Longrightarrow> calm (hc_pending_method c) (hc_unread c) \<Longrightarrow>
   outcome_ok (first_response strerror (hc_pending_method c) (cs_recv_fault (hc_socket c)) (hc_unread c)) c
     (recv_response_loop strerror parser c)"
proof (induction strerror parser c rule: recv_response_loop.induct)
  case (1 strerror parser c)
  let ?m = "hc_pending_method c" and ?f = "cs_recv_fault (hc_socket c)"
  let ?spec = "first_response strerror ?m ?f (hc_unread c)"
  note spec = first_response.simps [of strerror ?m ?f "hc_unread c"]
  note loop = recv_response_loop.simps [of strerror parser c]
  have reading: "outcome_ok ?spec c (recv_response_loop strerror parser c)"
    if p: "parsing ?m p" and t: "recv_turn_of strerror parser c = read_turn strerror p c"
      and inc: "rs_parse ?m (hc_input c) False = R_incomplete cd" for p cd
  proof (cases "ss_pending (hc_stream c) = []")
    case True
    from read_turn_end [OF 1(3) True p inc, of strerror] show ?thesis
      unfolding loop t by (simp add: turn_ok_def split: recv_turn.splits)
  next
    case False
    obtain c' where c': "read_turn strerror p c = Again p c'" "hc_alive c'" "hc_unread c' = hc_unread c"
      "hc_pending_method c' = hc_pending_method c" "\<forall>out. outcome_ok out c' = outcome_ok out c"
      "cs_recv_fault (hc_socket c') = cs_recv_fault (hc_socket c)"
      by (rule read_turn_more [OF 1(3) False, of strerror p])
    have "recv_turn_of strerror parser c = Again p c'" using t c'(1) by simp
    from 1(1) [OF this] c' p 1(4) have "outcome_ok ?spec c (recv_response_loop strerror p c')" by simp
    then show ?thesis unfolding loop t c'(1) by simp
  qed
  show ?case
  proof (cases "hc_input c = []")
    case True
    show ?thesis
      by (rule reading [OF 1(2), where cd = False]) (use True in \<open>simp_all add: recv_turn_of_def rs_parse_def\<close>)
  next
    case ne: False
    have u: "hc_unread c = hc_input c @ ss_pending (hc_stream c)" by (simp add: hc_unread_def)
    show ?thesis
    proof (cases "rs_parse ?m (hc_input c) False")
      case (R_failed e message cd)
      from execute_parsing(2) [OF 1(2) R_failed] obtain p where
        p: "execute_input False parser (hc_input c) = (0, hc_input c, p)" "q_hasError p" "q_error_message p = message" by blast
      then have t: "recv_turn_of strerror parser c = turn_received (recv_parse_error p c)"
        using ne by (simp add: recv_turn_of_def)
      obtain cd' where "rs_parse ?m (hc_unread c) False = R_failed e message cd'"
        using calm_prefix [of ?m "hc_input c" "ss_pending (hc_stream c)"] 1(4) R_failed unfolding u by blast
      with recv_parse_error_ok [of p c c] p(3) show ?thesis
        unfolding loop t by (simp add: spec turn_ok_def split: recv_turn.splits)
    next
      case (R_incomplete cd)
      from execute_parsing(1) [OF 1(2) R_incomplete] obtain p where
        p: "execute_input False parser (hc_input c) = (0, hc_input c, p)" "parsing ?m p" by blast
      show ?thesis
        by (rule reading [OF p(2) _ R_incomplete]) (use p ne in \<open>simp add: recv_turn_of_def parsing_def q_hasError_def\<close>)
    next
      case (R_finished n r len ch cd)
      from execute_parsing(3) [OF 1(2) R_finished] obtain p where
        p: "execute_input False parser (hc_input c) = (n, memmove_front (hc_input c) n, p)" "\<not> q_hasError p" "q_finished p" "q_data p = r"
        by blast
      have n: "n \<le> length (hc_input c)" using rs_parse_bounds [OF R_finished] by simp
      have whole: "rs_parse ?m (hc_unread c) False = R_finished n r len ch cd"
        unfolding u by (rule rs_parse_stable_lemma [OF R_finished])
      let ?c = "c\<lparr> hc_input := drop n (hc_input c) \<rparr>"
      have rest: "hc_unread ?c = drop n (hc_unread c)" using n by (simp add: hc_unread_def)
      show ?thesis
      proof (cases "IsInterimResponse r")
        case True
        have t: "recv_turn_of strerror parser c = Again (q_reset ?m p) ?c"
          using p ne True take_moved [OF n] by (simp add: recv_turn_of_def)
        have "parsing ?m (q_reset ?m p)" using parsing_new by (simp add: q_reset_def)
        moreover have "calm ?m (hc_unread ?c)" unfolding rest by (rule calm_drop [OF 1(4) whole True])
        ultimately have "outcome_ok (first_response strerror ?m ?f (hc_unread ?c)) ?c (recv_response_loop strerror (q_reset ?m p) ?c)"
          using 1(1) [OF t] 1(3) by (simp add: hc_alive_def)
        then show ?thesis unfolding loop t using True whole by (simp add: spec rest)
      next
        case False
        have "recv_turn_of strerror parser c = Received (Some r) (?c\<lparr> hc_request_count := hc_request_count c + 1,
            hc_reusable := \<not> rs_close r \<and> rs_status r \<noteq> 101 \<rparr>)"
          using p ne False take_moved [OF n] by (simp add: recv_turn_of_def)
        moreover have "?spec = Delivered r (drop n (hc_unread c))" using False whole by (simp add: spec)
        moreover have "drop n (hc_input c) @ ss_pending (hc_stream c) = drop n (hc_unread c)"
          using rest by (simp add: hc_unread_def)
        ultimately show ?thesis unfolding loop using 1(3)
          by (simp add: outcome_ok_def hc_alive_def hc_unread_def)
      qed
    qed
  qed
qed

lemma recvResponse_ok:
  "hc_alive c \<Longrightarrow> calm (hc_pending_method c) (hc_unread c) \<Longrightarrow>
   outcome_ok (first_response strerror (hc_pending_method c) (cs_recv_fault (hc_socket c)) (hc_unread c))
     (setLastError RES_OK [] c) (recvResponse strerror c)"
  using recv_response_loop_ok [of "setLastError RES_OK [] c" "HttpResponseParser (hc_pending_method c)" strerror] parsing_new
  by (simp add: recvResponse_def setLastError_def hc_alive_def hc_unread_def)

section \<open>Short messages are never refused for the way they were cut\<close>

lemma trailers_loop_fail:
  "trailers_loop p tb pos body r = C_fail e message \<Longrightarrow> length p \<le> kMaxHeaderSize \<Longrightarrow>
   trailers_loop (p @ q) tb pos body r = C_fail e message"
proof (induction p tb pos body r rule: trailers_loop.induct)
  case (1 p tb pos body r)
  obtain te where te: "find_from CRLF p pos = Some te"
    using 1(2,3) by (cases "find_from CRLF p pos") (auto simp: trailers_loop.simps [of p tb pos] split: if_splits)
  note b = find_from_bound [OF te]
  have te': "find_from CRLF (p @ q) pos = Some te" by (rule find_from_append [OF te])
  have sub: "substr (p @ q) pos (te - pos) = substr p pos (te - pos)" by (rule substr_append) (use b in simp)
  have small: "\<not> te - tb > kMaxHeaderSize" using b 1(3) by auto
  show ?case
  proof (cases "substr p pos (te - pos) = []")
    case True
    with 1(2) te small show ?thesis by (simp add: trailers_loop.simps [of p tb pos])
  next
    case ne: False
    show ?thesis
    proof (cases "header_field (missing_colon ''HTTP trailer line'')
        ''HTTP trailer contains an invalid name or value'' (substr p pos (te - pos))")
      case (Inl err)
      with 1(2) te te' small sub ne show ?thesis
        by (simp add: trailers_loop.simps [of p tb pos] trailers_loop.simps [of "p @ q" tb pos] split: prod.splits)
    next
      case (Inr nv)
      obtain name v where nv: "nv = (name, v)" by (cases nv)
      from 1(1) [OF te small refl ne Inr nv [symmetric]] 1(2,3) Inr te te' small sub ne nv show ?thesis
        by (simp add: trailers_loop.simps [of p tb pos] trailers_loop.simps [of "p @ q" tb pos])
    qed
  qed
qed

lemma chunks_loop_fail:
  "chunks_loop p pos body r = C_fail e message \<Longrightarrow> length p \<le> kMaxHeaderSize \<Longrightarrow>
   chunks_loop (p @ q) pos body r = C_fail e message"
proof (induction p pos body r rule: chunks_loop.induct)
  case (1 p pos body r)
  obtain ce where ce: "find_from CRLF p pos = Some ce"
    using 1(2,3) by (cases "find_from CRLF p pos") (auto simp: chunks_loop.simps [of p pos] split: if_splits)
  note b = find_from_bound [OF ce]
  have ce': "find_from CRLF (p @ q) pos = Some ce" by (rule find_from_append [OF ce])
  have sub: "substr (p @ q) pos (ce - pos) = substr p pos (ce - pos)" by (rule substr_append) (use b in simp)
  note steps = chunks_loop.simps [of p pos] chunks_loop.simps [of "p @ q" pos]
  show ?case
  proof (cases "ParseChunkSize (substr p pos (ce - pos))")
    case None
    with 1(2) ce ce' sub show ?thesis by (simp add: steps)
  next
    case (Some k)
    show ?thesis
    proof (cases "k = 0 \<or> k > kMaxBodySize - length body \<or> k > SIZE_MAX - (ce + 2) - 2")
      case True
      with 1(2,3) ce ce' sub Some show ?thesis
        by (auto simp: steps Let_def dest: trailers_loop_fail [where q = q])
    next
      case False
      then have g: "\<not> k > kMaxBodySize - length body" "\<not> k > SIZE_MAX - (ce + 2) - 2" "k \<noteq> 0" by simp_all
      have long: "\<not> length p < ce + 2 + k + 2" using 1(2) ce Some g by (auto simp: steps Let_def split: if_splits)
      have subs: "substr (p @ q) (ce + 2 + k) 2 = substr p (ce + 2 + k) 2" "substr (p @ q) (ce + 2) k = substr p (ce + 2) k"
        by (rule substr_append; use long in simp)+
      show ?thesis
      proof (cases "substr p (ce + 2 + k) 2 = CRLF")
        case True
        from 1(1) [OF ce Some refl g(3,1,2) refl long] 1(2,3) True ce ce' sub Some g long subs show ?thesis
          by (simp add: steps Let_def)
      next
        case nc: False
        with 1(2) ce ce' sub Some g long subs show ?thesis by (simp add: steps Let_def)
      qed
    qed
  qed
qed

lemma rs_body_phase_fail:
  assumes "rs_body_phase m p False hs status h = R_failed e message cd" "length p \<le> kMaxHeaderSize"
  shows "rs_body_phase m (p @ q) False hs status h = R_failed e message cd"
  using assms chunks_loop_fail [where p = p and q = q]
  by (auto simp: rs_body_phase_def Let_def split: if_splits chunk_result.splits)

lemma rs_parse_fail:
  assumes f: "rs_parse m p False = R_failed e message cd" and len: "length p \<le> kMaxHeaderSize"
  shows "rs_parse m (p @ q) False = R_failed e message cd"
proof -
  obtain h where h: "find_sub CRLF2 p = Some h"
    using f len by (cases "find_sub CRLF2 p") (auto simp: rs_parse_def split: if_splits)
  have h': "find_sub CRLF2 (p @ q) = Some h" by (rule find_sub_append [OF h])
  have h4: "h + 4 \<le> length p" using find_sub_bound [OF h] by simp
  have "starts_with (drop h p) CRLF2" by (rule find_sub_hit [OF h])
  then have crlf: "starts_with (drop h p) CRLF"
    by (cases "drop h p"; cases "tl (drop h p)") auto
  obtain l where l: "find_sub CRLF p = Some l" "l \<le> h"
    using find_sub_exists [OF crlf] h4 by auto
  have app: "find_sub CRLF2 (p @ q) = Some h" "find_sub CRLF (p @ q) = Some l"
    using h l by (auto intro: find_sub_append)
  have subs: "substr (p @ q) 0 l = substr p 0 l"
    by (rule substr_append) (use l h4 in simp)
  have loop: "rs_headers_loop (p @ q) h b s = rs_headers_loop p h b s" for b s
    by (rule rs_headers_loop_append [OF crlf]) (use h4 in simp)
  show ?thesis
    using f rs_body_phase_fail [OF _ len] unfolding rs_parse_def app h l(1) option.case subs loop
    by (auto simp: Let_def split: if_splits sum.splits prod.splits)
qed

lemma steady_short: "length bytes \<le> kMaxHeaderSize \<Longrightarrow> steady m bytes"
proof -
  assume len: "length bytes \<le> kMaxHeaderSize"
  have "rs_parse m bytes False = R_failed e message cd"
    if "rs_parse m (take k bytes) False = R_failed e message cd" for k e message cd
    using rs_parse_fail [OF that, of "drop k bytes", unfolded append_take_drop_id] len by simp
  then show ?thesis unfolding steady_def by blast
qed

lemma calm_short: "length bytes \<le> kMaxHeaderSize \<Longrightarrow> calm m bytes"
proof (induction m bytes rule: calm.induct)
  case (1 m bytes)
  then show ?case using steady_short [of bytes m]
    by (subst calm.simps) (auto split: rs_outcome.split)
qed

section \<open>Helpers of the client agree with those of the server\<close>

lemma split_on_find:
  "split_on sep s = (case find_char sep s of None \<Rightarrow> [s] | Some i \<Rightarrow> take i s # split_on sep (drop (i + 1) s))"
proof (induction s)
  case (Cons c s)
  then show ?case by (auto split: option.splits list.splits)
qed simp

lemma token_loop_split:
  "b \<le> length header \<Longrightarrow> token_loop header token b =
     list_ex (\<lambda>item. CaseInsensitiveEqual (Trim item) token) (split_on (CHR '','') (drop b header))"
proof (induction header token b rule: token_loop.induct)
  case (1 header token b)
  have trim: "trim_item = Trim" by (auto simp: fun_eq_iff trim_item_def Trim_def is_ows_def [abs_def])
  show ?case
  proof (cases "find_char (CHR '','') (drop b header)")
    case None
    then have "find_char_from (CHR '','') header b = None" using 1(2) by (simp add: find_char_from_def)
    then show ?thesis using 1(2) None
      by (simp add: token_loop.simps [of header token b] split_on_find [of _ "drop b header"] substr_def trim)
  next
    case (Some i)
    then have f: "find_char_from (CHR '','') header b = Some (b + i)" using 1(2) by (simp add: find_char_from_def)
    have i: "b + i + 1 \<le> length header" using find_char_bound [OF Some] by simp
    have d: "drop (i + 1) (drop b header) = drop (b + i + 1) header" by (simp add: add.commute add.left_commute)
    note split = split_on_find [of "CHR '',''" "drop b header", unfolded Some option.case d]
    show ?thesis
    proof (cases "CaseInsensitiveEqual (Trim (substr header b i)) token")
      case True
      then show ?thesis using f 1(2) split by (simp add: token_loop.simps [of header token b] substr_def trim)
    next
      case False
      from 1(1) [OF 1(2) refl refl _ _ i] False f have
        "token_loop header token (b + i + 1) = list_ex (\<lambda>item. CaseInsensitiveEqual (Trim item) token)
           (split_on (CHR '','') (drop (b + i + 1) header))"
        by (simp add: trim)
      then show ?thesis using f 1(2) split False by (simp add: token_loop.simps [of header token b] substr_def trim)
    qed
  qed
qed

lemma header_has_token_eq [simp]: "header_has_token header token = HeaderContainsToken header token"
  by (simp add: header_has_token_def token_loop_split HeaderContainsToken_def)

section \<open>Properties\<close>


definition demo_socket :: client_socket where
  "demo_socket = \<lparr> cs_stream = \<lparr> ss_connected = True,
       ss_incoming = [take 7 demo_response_text, drop 7 demo_response_text @ ''HTTP''], ss_sent = [], ss_accept = [] \<rparr>,
     cs_recv_fault = Some ETIMEDOUT, cs_send_fault = None, cs_recv_timeout = 5, cs_send_timeout = 5 \<rparr>"


end
