(* ===== verification/Http_Round_Trip.thy ===== *)
theory Http_Round_Trip
  imports Http_Client
begin

text \<open>
  The printer of responses (src/http/http_response.cc) against their parser (src/http/http_parser.cc): what
  \<open>HttpResponse::dump\<close> writes is read back whole by \<open>HttpResponseParser\<close>.
\<close>

section \<open>Header fields\<close>

definition valid_field :: "string \<times> string \<Rightarrow> bool" where
  "valid_field nv \<longleftrightarrow> IsValidHeaderName (fst nv) \<and> IsValidHeaderValue (snd nv) \<and> Trim (snd nv) = snd nv"

lemma rs_headers_step:
  assumes name: "valid_field nv" and pos: "length A + length (field_text nv) \<le> header_end"
  shows "rs_headers_loop (A @ field_text nv @ CRLF @ B) header_end (length A) h =
     (case rs_take_header (fst nv) (snd nv) h of
        Inl e \<Rightarrow> Inl e
      | Inr h' \<Rightarrow> rs_headers_loop (A @ field_text nv @ CRLF @ B) header_end (length (A @ field_text nv @ CRLF)) h')"
proof -
  let ?line = "field_text nv" and ?in = "A @ field_text nv @ CRLF @ B"
  have v: "IsValidHeaderName (fst nv)" "IsValidHeaderValue (snd nv)" "Trim (snd nv) = snd nv"
    using name by (simp_all add: valid_field_def)
  note line = field_text_line [OF v(1,2)]
  have f: "find_from CRLF ?in (length A) = Some (length A + length ?line)"
    by (rule find_from_crlf_line [OF line(1)])
  have "0 < length ?line" using line(2) by simp
  then have lb: "length A < header_end" using pos by linarith
  have le: "\<not> length A + length ?line > header_end" using pos by simp
  have s: "substr ?in (length A) (length A + length ?line - length A) = ?line"
    by (simp add: substr_def)
  have next_line: "length A + length ?line + 2 = length (A @ ?line @ CRLF)" by simp
  have h: "header_field a b ?line = Inr (fst nv, snd nv)" for a b
    using header_field_ok [OF v, of a b] by simp
  have g: "\<not> (?line = [] \<or> is_ows (hd ?line))" using line by simp
  show ?thesis
    by (subst rs_headers_loop.simps)
      (simp only: lb if_True f option.case le if_False s Let_def g h sum.case prod.case next_line)
qed

fun take_all :: "(string \<times> string) list \<Rightarrow> rs_headers_state \<Rightarrow> parse_error + rs_headers_state" where
  "take_all [] h = Inr h"
| "take_all (nv # fs) h = (case rs_take_header (fst nv) (snd nv) h of Inl e \<Rightarrow> Inl e | Inr h' \<Rightarrow> take_all fs h')"

lemma take_all_append: "take_all (fs @ gs) h = (case take_all fs h of Inl e \<Rightarrow> Inl e | Inr h' \<Rightarrow> take_all gs h')"
  by (induction fs arbitrary: h) (auto split: sum.split)

lemma rs_headers_fields:
  "\<forall>nv \<in> set fs. valid_field nv \<Longrightarrow> length (A @ lines (map field_text fs)) = header_end + 2 \<Longrightarrow> take_all fs h = Inr h' \<Longrightarrow>
   rs_headers_loop (A @ lines (map field_text fs) @ B) header_end (length A) h = Inr h' \<or> fs = []"
proof (induction fs arbitrary: A h)
  case (Cons nv fs)
  let ?rest = "lines (map field_text fs)"
  have e: "A @ lines (map field_text (nv # fs)) @ B = A @ field_text nv @ CRLF @ (?rest @ B)"
    by (simp add: lines_def)
  have pos: "length A + length (field_text nv) \<le> header_end"
    using Cons.prems(2) by (simp add: lines_def)
  obtain h1 where h1: "rs_take_header (fst nv) (snd nv) h = Inr h1" "take_all fs h1 = Inr h'"
    using Cons.prems(3) by (auto split: sum.splits)
  have "rs_headers_loop (A @ field_text nv @ CRLF @ (?rest @ B)) header_end (length A) h =
      rs_headers_loop (A @ field_text nv @ CRLF @ (?rest @ B)) header_end (length (A @ field_text nv @ CRLF)) h1"
    using Cons.prems(1) pos h1 by (subst rs_headers_step) simp_all
  also have "\<dots> = Inr h'"
  proof (cases "fs = []")
    case True
    then show ?thesis using Cons.prems(2) h1 by (subst rs_headers_loop.simps) (simp add: lines_def)
  next
    case False
    have "length ((A @ field_text nv @ CRLF) @ ?rest) = header_end + 2"
      using Cons.prems(2) by (simp add: lines_def)
    from Cons.IH [OF _ this h1(2)] Cons.prems(1) False show ?thesis by (simp add: lines_def)
  qed
  finally show ?case unfolding e by simp
qed simp

text \<open>Ordinary headers, cookies, and the two headers the printer adds.\<close>

definition ordinary :: "string \<times> string \<Rightarrow> bool" where
  "ordinary nv \<longleftrightarrow> valid_field nv \<and> \<not> CaseInsensitiveEqual (fst nv) ''content-length'' \<and>
     \<not> CaseInsensitiveEqual (fst nv) ''transfer-encoding'' \<and> \<not> CaseInsensitiveEqual (fst nv) ''connection'' \<and>
     \<not> CaseInsensitiveEqual (fst nv) ''set-cookie''"

lemma take_ordinary:
  "\<forall>nv \<in> set fs. ordinary nv \<Longrightarrow> take_all fs h =
     Inr (h\<lparr> h_response := (h_response h)\<lparr> rs_headers := fold (\<lambda>(k, v). http_assign k v) fs (rs_headers (h_response h)) \<rparr> \<rparr>)"
  by (induction fs arbitrary: h) (auto simp: ordinary_def rs_take_header_def Let_def rs_setHeader_def split_beta)

lemma cookie_name: "CaseInsensitiveEqual ''Set-Cookie'' ''set-cookie''" "\<not> CaseInsensitiveEqual ''Set-Cookie'' ''content-length''"
  "\<not> CaseInsensitiveEqual ''Set-Cookie'' ''transfer-encoding''" "\<not> CaseInsensitiveEqual ''Set-Cookie'' ''connection''"
  "IsValidHeaderName ''Set-Cookie''" "\<not> CaseInsensitiveEqual ''Connection'' ''content-length''"
  "\<not> CaseInsensitiveEqual ''Connection'' ''transfer-encoding''" "CaseInsensitiveEqual ''Connection'' ''connection''"
  "\<not> CaseInsensitiveEqual ''Connection'' ''set-cookie''" "IsValidHeaderName ''Connection''"
  "\<not> CaseInsensitiveEqual ''Content-Length'' ''transfer-encoding''" "\<not> CaseInsensitiveEqual ''Content-Length'' ''connection''"
  "\<not> CaseInsensitiveEqual ''Content-Length'' ''set-cookie''"
  by code_simp+

lemma take_cookies:
  "take_all (map (Pair ''Set-Cookie'') cs) h =
     Inr (h\<lparr> h_response := (h_response h)\<lparr> rs_cookies := rs_cookies (h_response h) @ cs \<rparr> \<rparr>)"
  by (induction cs arbitrary: h) (simp_all add: rs_take_header_def Let_def addCookie_def cookie_name)

definition rs_kept :: "http_response \<Rightarrow> HttpMap" where
  "rs_kept r = filter (\<lambda>(name, v). \<not> CaseInsensitiveEqual name ''connection'' \<and> \<not> CaseInsensitiveEqual name ''content-length'')
     (rs_headers r)"

definition rs_connection :: "http_response \<Rightarrow> string" where
  "rs_connection r = (if rs_close r then ''close'' else ''keep-alive'')"

definition rs_length_fields :: "http_response \<Rightarrow> (string \<times> string) list" where
  "rs_length_fields r = (if ResponseAllowsBody (rs_status r) then [(''Content-Length'', show_nat (length (rs_body r)))] else [])"

definition rs_fields :: "http_response \<Rightarrow> (string \<times> string) list" where
  "rs_fields r = rs_kept r @ map (Pair ''Set-Cookie'') (rs_cookies r) @ [(''Connection'', rs_connection r)] @ rs_length_fields r"

lemma rs_header_lines_eq:
  "\<not> rs_websocket r \<Longrightarrow> rs_header_lines r = lines (map field_text (rs_fields r))"
proof -
  assume w: "\<not> rs_websocket r"
  have "concat (map (\<lambda>(name, v). if CaseInsensitiveEqual name ''connection'' \<or> CaseInsensitiveEqual name ''content-length'' then []
        else header_line name v) hs) =
      lines (map field_text (filter (\<lambda>(name, v). \<not> CaseInsensitiveEqual name ''connection'' \<and>
        \<not> CaseInsensitiveEqual name ''content-length'') hs))" for hs
    by (induction hs) (auto simp: lines_def header_line_def field_text_def)
  moreover have "concat (map (header_line n) cs) = lines (map (field_text \<circ> Pair n) cs)" for n cs
    by (induction cs) (auto simp: lines_def header_line_def field_text_def)
  ultimately show ?thesis using w
    by (simp add: rs_header_lines_def rs_fields_def rs_kept_def rs_connection_def rs_length_fields_def)
      (simp add: lines_def header_line_def field_text_def)
qed

section \<open>The status line\<close>

lemma show_nat_three: "100 \<le> n \<Longrightarrow> n \<le> 999 \<Longrightarrow> length (show_nat n) = 3"
proof -
  assume "100 \<le> n" "n \<le> 999"
  then have "\<not> n < 10" "\<not> n div 10 < 10" "n div 10 div 10 < 10" by linarith+
  then show ?thesis by (simp add: show_nat.simps [of n] show_nat.simps [of "n div 10"] show_nat.simps [of "n div 10 div 10"])
qed

definition status_line :: "u8 \<Rightarrow> nat \<Rightarrow> string \<Rightarrow> string" where
  "status_line ver st reason = (if ver = 0x11 then ''HTTP/1.1'' else ''HTTP/1.0'') @ [SP] @ show_nat st @ [SP] @ reason"

lemma parse_status_line_ok:
  assumes ver: "ver = 0x11 \<or> ver = 0x10" and st: "100 \<le> st" "st \<le> 999" and reason: "IsValidHeaderValue reason"
  shows "parse_status_line (status_line ver st reason) =
    Inr ((HttpResponse ver (ver \<le> 0x10))\<lparr> rs_status := word_of_nat st, rs_reason := reason \<rparr>, st)"
proof -
  let ?V = "if ver = 0x11 then ''HTTP/1.1'' else ''HTTP/1.0''" and ?n = "show_nat st"
  let ?l = "?V @ [SP] @ ?n @ [SP] @ reason"
  have n3: "length ?n = 3" by (rule show_nat_three [OF st])
  have ns: "SP \<notin> set ?n" using show_nat_digits [of st] by (auto simp: is_digit_def)
  have V: "length ?V = 8" by simp
  have len: "\<not> length ?l < 12" "?l ! 8 = SP" using n3 by (auto simp: nth_append)
  have first: "substr ?l 0 8 = ?V" by (simp add: substr_def)
  have d: "drop 9 ?l = ?n @ SP # reason" by simp
  have f: "find_char_from SP ?l 9 = Some 12" using ns n3 find_char_app [of SP ?n reason] d
    by (simp add: find_char_from_def)
  have code: "substr ?l 9 (12 - 9) = ?n" using d n3 by (simp add: substr_def)
  have num: "from_chars 10 (2 ^ 16 - 1) ?n = Some (st, [])" using st by (simp add: from_chars_show_nat)
  have rest: "drop (12 + 1) ?l = reason" using n3 by simp
  show ?thesis
    unfolding parse_status_line_def status_line_def f option.case Let_def code num prod.case list.case rest first
    using len n3 reason ver st by auto
qed

definition reason_text :: "http_response \<Rightarrow> string" where
  "reason_text r = (if rs_reason r = [] then HttpStatusToString (rs_status r) else rs_reason r)"

text \<open>A response a client understands: a final status, header values that need no trimming, framing left to
  the printer, and a body where the status and the request allow one.\<close>

definition wf_response :: "HttpMethod \<Rightarrow> http_response \<Rightarrow> bool" where
  "wf_response m r \<longleftrightarrow>
     (rs_version r = 0x11 \<or> rs_version r = 0x10) \<and> \<not> rs_websocket r \<and> 200 \<le> rs_status r \<and> rs_status r \<le> 999 \<and>
     IsValidHeaderValue (reason_text r) \<and> http_inv (rs_headers r) \<and> list_all ordinary (rs_kept r) \<and>
     list_all (\<lambda>c. IsValidHeaderValue c \<and> Trim c = c) (rs_cookies r) \<and>
     (ResponseHasNoBody m (unat (rs_status r)) \<longrightarrow> rs_body r = []) \<and> m \<noteq> CONNECT \<and>
     length (rs_dump r) \<le> kMaxHeaderSize + length (if ResponseAllowsBody (rs_status r) then rs_body r else []) \<and>
     length (rs_body r) \<le> kMaxBodySize"

definition same_response :: "http_response \<Rightarrow> http_response \<Rightarrow> bool" where
  "same_response r' r \<longleftrightarrow>
     rs_status r' = rs_status r \<and> rs_version r' = rs_version r \<and> rs_reason r' = reason_text r \<and>
     rs_body r' = rs_body r \<and> rs_close r' = rs_close r \<and> rs_cookies r' = rs_cookies r \<and>
     (\<forall>j. \<not> CaseInsensitiveEqual j ''connection'' \<and> \<not> CaseInsensitiveEqual j ''content-length'' \<longrightarrow>
          http_find j (rs_headers r') = http_find j (rs_headers r))"

lemma fields_valid:
  assumes "wf_response m r" "nv \<in> set (rs_fields r)"
  shows "valid_field nv"
proof -
  have "valid_field (''Connection'', rs_connection r)"
    using connection_field [of "(HttpRequest 0x11 (rs_close r))"]
    by (simp add: plain_field_def valid_field_def connection_value_def rs_connection_def HttpRequest_def)
  moreover have "valid_field (''Content-Length'', show_nat n)" for n
    using length_field_name show_nat_header by (simp add: valid_field_def)
  ultimately show ?thesis using assms
    by (auto simp: rs_fields_def wf_response_def list_all_iff ordinary_def valid_field_def rs_length_fields_def cookie_name
        split: if_splits)
qed

definition empty_state :: "http_response \<Rightarrow> rs_headers_state" where
  "empty_state r = \<lparr> h_response = r, h_length_seen = False, h_te_seen = False, h_connection_seen = False, h_length = 0,
     h_te = [], h_connection = [] \<rparr>"

text \<open>The state after all the fields of a printed response.\<close>

definition kept_map :: "http_response \<Rightarrow> HttpMap" where
  "kept_map r = fold (\<lambda>(k, v). http_assign k v) (rs_kept r) []"

definition full_state :: "http_response \<Rightarrow> http_response \<Rightarrow> rs_headers_state" where
  "full_state r q =
     (let b = ResponseAllowsBody (rs_status r); n = show_nat (length (rs_body r))
      in \<lparr> h_response = q\<lparr> rs_headers := (if b then http_assign ''Content-Length'' n (kept_map r) else kept_map r),
                           rs_cookies := rs_cookies r \<rparr>,
           h_length_seen = b, h_te_seen = False, h_connection_seen = True,
           h_length = (if b then length (rs_body r) else 0), h_te = [], h_connection = rs_connection r \<rparr>)"

lemma take_fields:
  assumes wf: "wf_response m r" and q: "rs_headers q = []" "rs_cookies q = []"
  shows "take_all (rs_fields r) (empty_state q) = Inr (full_state r q)"
proof -
  have ord: "\<forall>nv \<in> set (rs_kept r). ordinary nv" using wf by (simp add: wf_response_def list_all_iff)
  have small: "length (rs_body r) \<le> kMaxBodySize" using wf by (simp add: wf_response_def)
  show ?thesis
    unfolding rs_fields_def take_all_append take_ordinary [OF ord] take_cookies sum.case
    using ParseContentLength_show [OF small] length_field_name q
    by (simp add: rs_length_fields_def rs_take_header_def Let_def cookie_name empty_state_def full_state_def kept_map_def
        rs_setHeader_def)
qed

section \<open>The whole message\<close>

definition read_back :: "http_response \<Rightarrow> http_response" where
  "read_back r =
     (let q = (HttpResponse (rs_version r) (rs_version r \<le> 0x10))\<lparr> rs_status := rs_status r, rs_reason := reason_text r \<rparr>;
          h = full_state r q
      in (rs_initConnection (rs_setHeader ''Connection'' (h_connection h) (h_response h)))\<lparr> rs_body := rs_body r \<rparr>)"

lemma kept_map_inv: "http_inv (kept_map r)"
  unfolding kept_map_def by (rule ci.fold_assign_inv) simp

lemma kept_map_find:
  assumes "http_inv (rs_headers r)" "\<not> CaseInsensitiveEqual j ''connection''" "\<not> CaseInsensitiveEqual j ''content-length''"
  shows "http_find j (kept_map r) = http_find j (rs_headers r)"
proof -
  have "http_find j (kept_map r) = http_find j (rs_kept r)"
    using ci.find_fold_assign [of "rs_kept r" "[]" j] assms(1)
    by (simp add: kept_map_def rs_kept_def ci.filter_inv split: option.split)
  also have "\<dots> = http_find j (rs_headers r)"
    unfolding rs_kept_def using assms by (subst ci.find_filter) (auto simp: equiv_equal equal_lower)
  finally show ?thesis .
qed

lemma read_back_same:
  assumes "wf_response m r"
  shows "same_response (read_back r) r"
proof -
  have inv: "http_inv (rs_headers r)" using assms by (simp add: wf_response_def)
  let ?H = "if ResponseAllowsBody (rs_status r) then http_assign ''Content-Length'' (show_nat (length (rs_body r))) (kept_map r)
    else kept_map r"
  have hs: "rs_headers (read_back r) = http_assign ''Connection'' (rs_connection r) ?H"
    by (simp add: read_back_def full_state_def Let_def rs_initConnection_def rs_setHeader_def)
  have hinv: "http_inv ?H" using kept_map_inv by (simp add: ci.insert_inv)
  have find: "http_find j (rs_headers (read_back r)) = http_find j (rs_headers r)"
    if "\<not> CaseInsensitiveEqual j ''connection''" "\<not> CaseInsensitiveEqual j ''content-length''" for j
    unfolding hs using that hinv kept_map_inv kept_map_find [OF inv that] by (simp add: http_find_assign connection_names)
  have "rs_close (read_back r) = connection_close (rs_version r) (rs_connection r)"
    using hinv unfolding read_back_def full_state_def Let_def
    by (simp add: rs_initConnection_def rs_setHeader_def rs_getHeader_def http_find_assign connection_names HttpResponse_def)
  then have "rs_close (read_back r) = rs_close r" using connection_tokens by (simp add: rs_connection_def)
  with find show ?thesis
    by (simp add: same_response_def read_back_def full_state_def Let_def rs_initConnection_def rs_setHeader_def HttpResponse_def)
qed

lemma allows_body:
  assumes "200 \<le> rs_status r"
  shows "ResponseAllowsBody (rs_status r) \<longleftrightarrow> unat (rs_status r) \<noteq> 204 \<and> unat (rs_status r) \<noteq> 304"
proof -
  have "(unat (rs_status r) = 204) = (rs_status r = 204)" "(unat (rs_status r) = 304) = (rs_status r = 304)"
    using word_unat_eq_iff [of "rs_status r" 204] word_unat_eq_iff [of "rs_status r" 304] by simp_all
  moreover have "\<not> rs_status r < 200" using assms by simp
  ultimately show ?thesis by (simp add: ResponseAllowsBody_def)
qed

lemma body_phase_dump:
  assumes wf: "wf_response m r" and len: "length input \<ge> hs + (if ResponseAllowsBody (rs_status r) then length (rs_body r) else 0)"
    and body: "ResponseAllowsBody (rs_status r) \<Longrightarrow> substr input hs (length (rs_body r)) = rs_body r" and hs: "hs \<le> kMaxHeaderSize"
  shows "rs_body_phase m input eof hs (unat (rs_status r)) (full_state r
      ((HttpResponse (rs_version r) (rs_version r \<le> 0x10))\<lparr> rs_status := rs_status r, rs_reason := reason_text r \<rparr>)) =
    R_finished (hs + (if ResponseAllowsBody (rs_status r) then length (rs_body r) else 0)) (read_back r) (length (rs_body r)) False False"
proof -
  let ?q = "(HttpResponse (rs_version r) (rs_version r \<le> 0x10))\<lparr> rs_status := rs_status r, rs_reason := reason_text r \<rparr>"
  have small: "length (rs_body r) \<le> kMaxBodySize" and final: "200 \<le> rs_status r" and nc: "m \<noteq> CONNECT"
    and nb: "ResponseHasNoBody m (unat (rs_status r)) \<longrightarrow> rs_body r = []"
    using wf by (simp_all add: wf_response_def)
  have st: "200 \<le> unat (rs_status r)" using final by (simp add: word_le_nat_alt)
  have big: "\<not> length (rs_body r) > SIZE_MAX - hs" "\<not> length (rs_body r) > kMaxBodySize"
    using small hs by (simp_all add: kMaxBodySize_def kMaxHeaderSize_def SIZE_MAX_def)
  have none: "ResponseHasNoBody m (unat (rs_status r)) = (m = HEAD \<or> \<not> ResponseAllowsBody (rs_status r))"
    using allows_body [OF final] st nc by (auto simp: ResponseHasNoBody_def)
  have same: "x\<lparr> rs_body := [] \<rparr> = x" if "rs_body x = []" for x :: http_response using that by (cases x) simp
  have qb: "rs_body (rs_initConnection (rs_setHeader k v (h_response (full_state r ?q)))) = []" for k v
    by (simp add: full_state_def Let_def rs_initConnection_def rs_setHeader_def HttpResponse_def)
  show ?thesis
  proof (cases "ResponseHasNoBody m (unat (rs_status r))")
    case True
    then have "rs_body r = []" using nb by blast
    then have "read_back r = rs_initConnection (rs_setHeader ''Connection'' (rs_connection r) (h_response (full_state r ?q)))"
      using qb by (simp add: read_back_def Let_def same full_state_def)
    with True \<open>rs_body r = []\<close> show ?thesis
      by (simp add: rs_body_phase_def Let_def full_state_def)
  next
    case False
    then have b: "ResponseAllowsBody (rs_status r)" using none by blast
    show ?thesis using False b len body big
      by (simp add: rs_body_phase_def Let_def full_state_def read_back_def)
  qed
qed

definition head_lines :: "http_response \<Rightarrow> string list" where
  "head_lines r = status_line (rs_version r) (unat (rs_status r)) (reason_text r) # map field_text (rs_fields r)"

definition head_text :: "http_response \<Rightarrow> string" where
  "head_text r = lines (head_lines r) @ CRLF"

definition parsed_line :: "http_response \<Rightarrow> http_response" where
  "parsed_line r = (HttpResponse (rs_version r) (rs_version r \<le> 0x10))\<lparr> rs_status := rs_status r, rs_reason := reason_text r \<rparr>"

lemma response_text:
  assumes wf: "wf_response m r"
  shows "rs_dump r = head_text r @ (if ResponseAllowsBody (rs_status r) then rs_body r else [])"
proof -
  have "rs_version r = 0x11 \<or> rs_version r = 0x10" "\<not> rs_websocket r" using wf by (simp_all add: wf_response_def)
  with show_version_ok [OF this(1)] rs_header_lines_eq [OF this(2)] show ?thesis
    by (simp add: rs_dump_def head_text_def head_lines_def status_line_def reason_text_def lines_def)
qed

lemma head_small: "wf_response m r \<Longrightarrow> length (head_text r) \<le> kMaxHeaderSize"
  using response_text [of m r] by (simp add: wf_response_def)

lemma head_clean:
  assumes wf: "wf_response m r"
  shows "\<forall>l \<in> set (head_lines r). l \<noteq> [] \<and> CR \<notin> set l"
proof -
  have "IsValidHeaderValue (reason_text r)" using wf by (simp add: wf_response_def)
  then have "CR \<notin> set (hd (head_lines r))" "hd (head_lines r) \<noteq> []"
    using valid_value_no_cr show_nat_digits [of "unat (rs_status r)"] by (auto simp: head_lines_def status_line_def is_digit_def)
  moreover have "CR \<notin> set (field_text nv) \<and> field_text nv \<noteq> []" if "nv \<in> set (rs_fields r)" for nv
    using fields_valid [OF wf that] field_text_line [of nv] by (simp add: valid_field_def)
  ultimately show ?thesis by (auto simp: head_lines_def)
qed

lemma head_end: "wf_response m r \<Longrightarrow> find_sub CRLF2 (head_text r @ t) = Some (length (head_text r) - 4)"
  using find_header_end [OF _ head_clean, of r m t] by (simp add: head_text_def head_lines_def)

lemma rs_parse_head:
  assumes wf: "wf_response m r"
  shows "rs_parse m (head_text r @ t) False =
    rs_body_phase m (head_text r @ t) False (length (head_text r)) (unat (rs_status r)) (full_state r (parsed_line r))"
proof -
  let ?st = "unat (rs_status r)"
  let ?line = "status_line (rs_version r) ?st (reason_text r)" and ?fs = "rs_fields r" and ?in = "head_text r @ t"
  let ?h = "length (head_text r) - 4"
  have w: "rs_version r = 0x11 \<or> rs_version r = 0x10" "200 \<le> rs_status r" "rs_status r \<le> 999" "IsValidHeaderValue (reason_text r)"
    using wf by (simp_all add: wf_response_def)
  have st: "100 \<le> ?st" "?st \<le> 999" using w(2,3) by (simp_all add: word_le_nat_alt)
  have psl: "parse_status_line ?line = Inr (parsed_line r, ?st)"
    using parse_status_line_ok [OF w(1) st w(4)] by (simp add: parsed_line_def)
  have cr: "CR \<notin> set ?line" using head_clean [OF wf] by (simp add: head_lines_def)
  have X2: "length (head_text r) = length ?line + 2 + length (lines (map field_text ?fs)) + 2"
    by (simp add: head_text_def head_lines_def lines_def)
  have fs2: "2 \<le> length (lines (map field_text ?fs))" "?fs \<noteq> []" by (simp_all add: lines_def rs_fields_def)
  have split: "?in = (?line @ CRLF) @ lines (map field_text ?fs) @ (CRLF @ t)"
    by (simp add: head_text_def head_lines_def lines_def)
  have line_at: "find_sub CRLF ?in = Some (length ?line)"
    unfolding split using find_crlf_line [OF cr] by simp
  have first: "substr ?in 0 (length ?line) = ?line" unfolding split by (simp add: substr_def)
  have take: "take_all ?fs (empty_state (parsed_line r)) = Inr (full_state r (parsed_line r))"
    by (rule take_fields [OF wf]) (simp_all add: parsed_line_def HttpResponse_def)
  have vf: "\<forall>nv \<in> set ?fs. valid_field nv" using fields_valid [OF wf] by blast
  have "rs_headers_loop ((?line @ CRLF) @ lines (map field_text ?fs) @ (CRLF @ t)) ?h
      (length (?line @ CRLF)) (empty_state (parsed_line r)) = Inr (full_state r (parsed_line r)) \<or> ?fs = []"
    by (rule rs_headers_fields [OF vf _ take]) (use X2 fs2 in simp)
  then have loop: "rs_headers_loop ?in ?h (length ?line + 2) (empty_state (parsed_line r)) = Inr (full_state r (parsed_line r))"
    unfolding split using fs2(2) by simp
  have h4: "?h + 4 = length (head_text r)" using X2 fs2 by simp
  have head: "\<not> length (head_text r) > kMaxHeaderSize" using head_small [OF wf] by simp
  have le: "\<not> length ?line > ?h" using X2 fs2 by simp
  show ?thesis
    unfolding rs_parse_def
    by (simp only: head_end [OF wf] line_at option.case Let_def h4 head if_False le first psl sum.case prod.case
        empty_state_def [symmetric] loop)
qed

lemma rs_parse_dump:
  assumes wf: "wf_response m r"
  shows "rs_parse m (rs_dump r @ rest) False = R_finished (length (rs_dump r)) (read_back r) (length (rs_body r)) False False"
proof -
  let ?B = "if ResponseAllowsBody (rs_status r) then rs_body r else []"
  have e: "rs_dump r @ rest = head_text r @ ?B @ rest" using response_text [OF wf] by simp
  have body: "substr (head_text r @ ?B @ rest) (length (head_text r)) (length (rs_body r)) = rs_body r"
    if "ResponseAllowsBody (rs_status r)" using that by (simp add: substr_middle)
  have "rs_parse m (head_text r @ ?B @ rest) False =
      R_finished (length (head_text r) + length ?B) (read_back r) (length (rs_body r)) False False"
    unfolding rs_parse_head [OF wf] parsed_line_def
    using body_phase_dump [OF wf, of "length (head_text r)" "head_text r @ ?B @ rest" False] body head_small [OF wf]
    by (simp split: if_splits)
  then show ?thesis using response_text [OF wf] unfolding e by simp
qed

lemma steady_dump:
  assumes wf: "wf_response m r"
  shows "steady m (rs_dump r)"
  unfolding steady_def
proof (intro allI impI)
  fix k e message cd
  let ?B = "if ResponseAllowsBody (rs_status r) then rs_body r else []"
  assume f: "rs_parse m (take k (rs_dump r)) False = R_failed e message cd"
  show "\<exists>cd'. rs_parse m (rs_dump r) False = R_failed e message cd'"
  proof (cases "k < length (head_text r)")
    case True
    then have p: "take k (rs_dump r) = take k (head_text r)" using response_text [OF wf] by simp
    have "find_sub CRLF2 (take k (head_text r)) = None"
    proof (rule ccontr)
      assume "find_sub CRLF2 (take k (head_text r)) \<noteq> None"
      then obtain h where h: "find_sub CRLF2 (take k (head_text r)) = Some h" by blast
      from find_sub_append [OF h, of "drop k (head_text r)"] head_end [OF wf, of "[]"]
      have "h = length (head_text r) - 4" by simp
      moreover have "4 \<le> length (head_text r)" by (simp add: head_text_def head_lines_def lines_def)
      ultimately show False using find_sub_bound [OF h] True by simp
    qed
    then show ?thesis using f head_small [OF wf] True unfolding p by (simp add: rs_parse_def split: if_splits)
  next
    case False
    then have p: "take k (rs_dump r) = head_text r @ take (k - length (head_text r)) ?B"
      using response_text [OF wf] by simp
    have "length (rs_body r) \<le> kMaxBodySize" using wf by (simp add: wf_response_def)
    moreover have "\<not> length (rs_body r) > SIZE_MAX - length (head_text r)"
      using calculation head_small [OF wf] by (simp add: kMaxBodySize_def kMaxHeaderSize_def SIZE_MAX_def)
    ultimately have "rs_body_phase m p False (length (head_text r)) (unat (rs_status r)) (full_state r (parsed_line r)) \<noteq>
        R_failed e message cd" for p
      using wf allows_body [of r]
      by (auto simp: rs_body_phase_def full_state_def Let_def ResponseHasNoBody_def wf_response_def)
    with f show ?thesis unfolding p rs_parse_head [OF wf] by blast
  qed
qed

lemma read_back_final: "wf_response m r \<Longrightarrow> \<not> IsInterimResponse (read_back r)"
  by (simp add: IsInterimResponse_def read_back_def full_state_def Let_def rs_initConnection_def rs_setHeader_def wf_response_def)
    (auto simp: word_less_nat_alt word_le_nat_alt)

lemma calm_dump: "wf_response m r \<Longrightarrow> calm m (rs_dump r)"
  using steady_dump rs_parse_dump [of m r "[]"] read_back_final by (subst calm.simps) simp

end
