(* ===== verification/Http_Exchange.thy ===== *)
theory Http_Exchange
  imports Http_Server Http_Round_Trip
begin

text \<open>
  The client of src/http/http_connection.cc against the server of src/http/http_server.cc: a request sent
  over a connection, served, and its answer received.
\<close>

lemma hc_write_all:
  assumes "hc_alive c" "ss_accept (hc_stream c) = []" "cs_send_fault (hc_socket c) = None" "length bytes \<le> INT_MAX"
  shows "hc_write bytes c = (int (length bytes), set_stream ((hc_stream c)\<lparr> ss_sent := ss_sent (hc_stream c) @ bytes \<rparr>) c)"
proof -
  have "\<not> length bytes > SSIZE_MAX" using assms(4) by (simp add: SSIZE_MAX_def INT_MAX_def)
  then show ?thesis using assms
    by (simp add: hc_write_def ss_write_def hc_alive_def ss_alive_def sock_send_def to_int_small)
qed

lemma sendRequest_all:
  assumes "hc_alive c" "ss_accept (hc_stream c) = []" "cs_send_fault (hc_socket c) = None" "length (rq_dump r) \<le> INT_MAX"
  shows "sendRequest strerror (Some r) c = (int (length (rq_dump r)),
    set_stream ((hc_stream c)\<lparr> ss_sent := ss_sent (hc_stream c) @ rq_dump r \<rparr>)
      (c\<lparr> hc_pending_method := rq_method r, hc_reusable := False \<rparr>))"
proof -
  let ?c = "c\<lparr> hc_pending_method := rq_method r, hc_reusable := False \<rparr>" and ?d = "rq_dump r"
  have ne: "0 < length ?d" by (simp add: rq_dump_def)
  have wr: "hc_write ?d ?c = (int (length ?d), set_stream ((hc_stream ?c)\<lparr> ss_sent := ss_sent (hc_stream ?c) @ ?d \<rparr>) ?c)"
    by (rule hc_write_all) (use assms in \<open>simp_all add: hc_alive_def\<close>)
  have "writeFix_loop hc_write ?d 0 (length ?d) ?c = (int (length ?d), set_stream ((hc_stream ?c)\<lparr> ss_sent := ss_sent (hc_stream ?c) @ ?d \<rparr>) ?c)"
    using ne wr assms(4) by (subst writeFix_loop.simps) (simp add: writeFix_loop.simps to_int_small)
  then show ?thesis using ne by (simp add: sendRequest_def writeFixSize_def Let_def)
qed

lemma wf_request_small: "wf_request r \<Longrightarrow> length (rq_dump r) \<le> INT_MAX"
  by (simp add: wf_request_def kMaxHeaderSize_def kMaxBodySize_def INT_MAX_def)

lemma wf_response_small:
  assumes "wf_response m r"
  shows "length (rs_dump r) \<le> INT_MAX"
proof -
  have "length (if ResponseAllowsBody (rs_status r) then rs_body r else []) \<le> length (rs_body r)" by simp
  then show ?thesis using assms by (simp add: wf_response_def kMaxHeaderSize_def kMaxBodySize_def INT_MAX_def split: if_splits)
qed

text \<open>What the server makes of one request.\<close>

lemma one_request:
  assumes "wf_request r"
  obtains r' where "requests_of (rq_dump r) = [r']" "same_message r' r"
proof -
  obtain r' where "rq_parse (rq_dump r @ []) = Finished (length (rq_dump r)) r' (length (rq_body r))" "same_message r' r"
    using rq_parse_dump [OF assms] by blast
  then have "requests_of (rq_dump r) = [r']"
    by (simp add: requests_of.simps [of "rq_dump r"] requests_of.simps [of "[]"] rq_parse_Nil)
  then show thesis using \<open>same_message r' r\<close> by (rule that)
qed

lemma one_answer:
  "answers matches server_of [r'] w =
     ([fst (respond matches server_of r' (no_session, w))], snd (snd (snd (respond matches server_of r' (no_session, w)))))"
  by (simp split: prod.split)

text \<open>Receiving what a server printed.\<close>

lemma recv_dump_response:
  assumes wf: "wf_response (hc_pending_method c) resp" and c: "hc_alive c" "hc_unread c = rs_dump resp"
  obtains c' where "recvResponse strerror c = (Some (read_back resp), c')" "hc_reusable c' = (\<not> rs_close resp)" "hc_unread c' = []"
proof -
  have calm: "calm (hc_pending_method c) (hc_unread c)" unfolding c(2) by (rule calm_dump [OF wf])
  have first: "first_response strerror (hc_pending_method c) f (hc_unread c) = Delivered (read_back resp) []" for f
    using rs_parse_dump [OF wf, of "[]"] read_back_final [OF wf] unfolding c(2)
    by (subst first_response.simps) simp
  have same: "same_response (read_back resp) resp" by (rule read_back_same [OF wf])
  have "rs_status resp \<noteq> 101" using wf by (auto simp: wf_response_def)
  then show thesis using recvResponse_ok [OF c(1) calm, of strerror] same that unfolding first
    by (cases "recvResponse strerror c") (simp add: outcome_ok_def same_response_def)
qed

section \<open>Properties\<close>


lemma demo_answer_wf: "wf_response POST demo_response"
proof -
  have "rs_version demo_response = 0x11" "\<not> rs_websocket demo_response" "rs_status demo_response = 404"
    "IsValidHeaderValue (reason_text demo_response)" "http_inv (rs_headers demo_response)"
    "list_all ordinary (rs_kept demo_response)" "rs_cookies demo_response = []"
    "length (rs_body demo_response) \<le> 1000" "ResponseAllowsBody 404"
    by code_simp+
  then show ?thesis using demo_response_length
    by (simp add: wf_response_def ResponseHasNoBody_def kMaxHeaderSize_def kMaxBodySize_def)
qed

definition demo_connection :: http_connection where
  "demo_connection = HttpConnection 7 \<lparr> cs_stream = \<lparr> ss_connected = True, ss_incoming = [], ss_sent = [], ss_accept = [] \<rparr>,
     cs_recv_fault = None, cs_send_fault = None, cs_recv_timeout = 5, cs_send_timeout = 5 \<rparr>"


end
