(* ===== verification/Http_Pool.thy ===== *)
theory Http_Pool
  imports Http_Client "HOL-Library.Multiset"
begin

text \<open>
  \<open>HttpConnectionPool\<close> (include/droplet/http/http_connection.h, src/http/http_connection.cc): persistent
  connections to one origin.  A connection lives in the heap of the pool's process until it is deleted; the
  shared pointer handed out by \<open>getConnection\<close> is the lease, and the end of the lease calls
  \<open>releaseConnection\<close>.  Every section under the mutex is one step, as is every atomic change of \<open>total_\<close>
  with the deletions before it, which touch only connections nobody else can reach.
\<close>

section \<open>The pool\<close>

record http_pool =
  cp_host :: string
  cp_vhost :: string
  cp_port :: u16
  cp_is_https :: bool
  cp_max_size :: u32
  cp_max_alive_time_ms :: u64
  cp_max_requests :: u32
  cp_idle :: "nat list"
  cp_total :: u32
  cp_heap :: "nat \<Rightarrow> http_connection option"
  cp_next :: nat

definition HttpConnectionPool ::
  "string \<Rightarrow> string \<Rightarrow> u16 \<Rightarrow> bool \<Rightarrow> u32 \<Rightarrow> u64 \<Rightarrow> u32 \<Rightarrow> http_pool" where
  "HttpConnectionPool host vhost port is_https max_size max_alive_time_ms max_requests =
     \<lparr> cp_host = host, cp_vhost = vhost, cp_port = port, cp_is_https = is_https, cp_max_size = max_size,
       cp_max_alive_time_ms = max_alive_time_ms, cp_max_requests = max_requests, cp_idle = [], cp_total = 0,
       cp_heap = (\<lambda>_. None), cp_next = 0 \<rparr>"

definition Pool_Create :: "string \<Rightarrow> string \<Rightarrow> u32 \<Rightarrow> u64 \<Rightarrow> u32 \<Rightarrow> http_pool option" where
  "Pool_Create origin vhost max_size max_alive_time_ms max_requests =
     (case Uri_Create origin of
        None \<Rightarrow> None
      | Some u \<Rightarrow>
          if uri_host u = [] \<or> uri_getPort u < 0 \<or> uri_getPort u > 65535 \<or>
             (uri_scheme u \<noteq> ''http'' \<and> uri_scheme u \<noteq> ''https'') \<or> max_size = 0
          then None
          else Some (HttpConnectionPool (uri_host u) vhost (word_of_int (uri_getPort u))
                 (uri_scheme u = ''https'') max_size max_alive_time_ms max_requests))"

definition isExpired :: "http_pool \<Rightarrow> http_connection \<Rightarrow> u64 \<Rightarrow> bool" where
  "isExpired s c now \<longleftrightarrow>
     (cp_max_alive_time_ms s \<noteq> 0 \<and> now - hc_created_at_ms c \<ge> cp_max_alive_time_ms s) \<or>
     (cp_max_requests s \<noteq> 0 \<and> hc_request_count c \<ge> ucast (cp_max_requests s))"

definition unusable :: "http_pool \<Rightarrow> u64 \<Rightarrow> nat \<Rightarrow> bool" where
  "unusable s now p =
     (case cp_heap s p of
        None \<Rightarrow> True
      | Some c \<Rightarrow> \<not> hc_isConnected c \<or> \<not> hc_reusable c \<or> isExpired s c now)"

text \<open>The loop over the idle queue: the connections to delete, the one found, and the queue left.\<close>

fun take_idle :: "(nat \<Rightarrow> bool) \<Rightarrow> nat list \<Rightarrow> nat list \<times> nat option \<times> nat list" where
  "take_idle bad [] = ([], None, [])"
| "take_idle bad (p # ps) =
     (if bad p then let (invalid, found, rest) = take_idle bad ps in (p # invalid, found, rest)
      else ([], Some p, ps))"

text \<open>The locked section of \<open>getConnection\<close>: what it takes out, and whether it reserves a slot.\<close>

definition acquire :: "u64 \<Rightarrow> http_pool \<Rightarrow> (nat list \<times> nat option \<times> bool) \<times> http_pool" where
  "acquire now s =
     (let (invalid, connection, rest) = take_idle (unusable s now) (cp_idle s);
          s = s\<lparr> cp_idle := rest \<rparr>;
          after_invalid = cp_total s - of_nat (length invalid);
          reserve = (connection = None \<and> after_invalid < cp_max_size s)
      in ((invalid, connection, reserve), if reserve then s\<lparr> cp_total := cp_total s + 1 \<rparr> else s))"

definition delete_all :: "nat list \<Rightarrow> http_pool \<Rightarrow> http_pool" where
  "delete_all ps s = s\<lparr> cp_heap := (\<lambda>p. if p \<in> set ps then None else cp_heap s p),
     cp_total := cp_total s - of_nat (length ps) \<rparr>"

text \<open>What connecting brings: a socket, made into a new connection, or nothing.\<close>

definition settle :: "u64 \<Rightarrow> client_socket option \<Rightarrow> http_pool \<Rightarrow> nat option \<times> http_pool" where
  "settle now socket s =
     (case socket of
        None \<Rightarrow> (None, s\<lparr> cp_total := cp_total s - 1 \<rparr>)
      | Some sock \<Rightarrow>
          (Some (cp_next s), s\<lparr> cp_heap := (cp_heap s)(cp_next s \<mapsto> HttpConnection now sock), cp_next := cp_next s + 1 \<rparr>))"

definition pool_dial :: "'a network \<Rightarrow> u64 \<Rightarrow> http_pool \<Rightarrow> client_socket option" where
  "pool_dial net timeout_ms s =
     (case resolve net (cp_host s) of
        None \<Rightarrow> None
      | Some a \<Rightarrow>
          let address = (a, cp_port s)
          in if \<not> create net address then None
             else case dial net address timeout_ms of
               Inl _ \<Rightarrow> None
             | Inr socket \<Rightarrow> Some (SetSocketTimeouts timeout_ms socket))"

definition getConnection :: "'a network \<Rightarrow> u64 \<Rightarrow> u64 \<Rightarrow> u64 \<Rightarrow> http_pool \<Rightarrow> nat option \<times> http_pool" where
  "getConnection net now connected_at timeout_ms s =
     (if cp_is_https s \<or> cp_max_size s = 0 then (None, s)
      else let ((invalid, connection, reserved_slot), s) = acquire now s;
               s = delete_all invalid s
           in if connection = None \<and> reserved_slot
              then settle connected_at (pool_dial net timeout_ms s) s
              else (connection, s))"

definition releaseConnection :: "u64 \<Rightarrow> nat \<Rightarrow> http_pool \<Rightarrow> http_pool" where
  "releaseConnection now p s =
     (if unusable s now p then delete_all [p] s else s\<lparr> cp_idle := cp_idle s @ [p] \<rparr>)"

text \<open>The destructor: the idle connections go; a lease that ends later deletes its connection itself.\<close>

definition destroy_pool :: "http_pool \<Rightarrow> http_pool" where
  "destroy_pool s = delete_all (cp_idle s) (s\<lparr> cp_idle := [] \<rparr>)"

section \<open>Requests over the pool\<close>

text \<open>The lease ends when \<open>doRequest\<close> returns.  The clock is read at the lookup, after connecting and
  at the release.\<close>

definition pool_doRequest ::
  "(int \<Rightarrow> string) \<Rightarrow> 'a network \<Rightarrow> u64 \<times> u64 \<times> u64 \<Rightarrow> http_request option \<Rightarrow> u64 \<Rightarrow> http_pool \<Rightarrow> http_result \<times> http_pool" where
  "pool_doRequest strerror net clock request timeout_ms s =
     (case request of
        None \<Rightarrow> (MakeResult INVALID_URL ''request is null'' None, s)
      | Some _ \<Rightarrow>
          if cp_is_https s
          then (MakeResult UNSUPPORTED_SCHEME ''HTTPS connection pools require TLS support'' None, s)
          else case getConnection net (fst clock) (fst (snd clock)) timeout_ms s of
            (None, s) \<Rightarrow> (MakeResult POOL_GET_CONNECTION ''cannot obtain an HTTP connection from the pool'' None, s)
          | (Some p, s) \<Rightarrow>
              let c = the (cp_heap s p)
              in if \<not> hc_isConnected c
                 then (MakeResult POOL_INVALID_CONNECTION ''connection pool returned a disconnected connection'' None,
                       releaseConnection (snd (snd clock)) p s)
                 else let c = c\<lparr> hc_socket := SetSocketTimeouts timeout_ms (hc_socket c) \<rparr>;
                          (result, c) = request_over strerror request c
                            (\<lambda>(_, c). MakeResult (hc_last_error c) (hc_last_error_message c) None)
                            ''peer closed while sending pooled HTTP request''
                      in (result, releaseConnection (snd (snd clock)) p (s\<lparr> cp_heap := (cp_heap s)(p \<mapsto> c) \<rparr>)))"

definition pool_doRequest_target ::
  "(int \<Rightarrow> string) \<Rightarrow> 'a network \<Rightarrow> u64 \<times> u64 \<times> u64 \<Rightarrow> HttpMethod \<Rightarrow> string \<Rightarrow> u64 \<Rightarrow> HttpMap \<Rightarrow> string \<Rightarrow> http_pool \<Rightarrow>
   http_result \<times> http_pool" where
  "pool_doRequest_target strerror net clock method target timeout_ms headers body s =
     (if cp_is_https s
      then (MakeResult UNSUPPORTED_SCHEME ''HTTPS connection pools require TLS support'' None, s)
      else let target = fst (cut_at (CHR ''#'') target);
               (path, query) = cut_at (CHR ''?'') target;
               path = (if path = [] then ''/'' else path)
           in if \<not> starts_with path ''/''
              then (MakeResult INVALID_URL (''connection-pool request target must start with '' @ [CHR 0x27, CHR ''/'', CHR 0x27]) None, s)
              else let default_host = (if cp_vhost s = [] then HostHeader (cp_host s) (cp_port s) (cp_is_https s) else cp_vhost s)
                   in pool_doRequest strerror net clock
                        (Some (BuildRequest method path (case query of None \<Rightarrow> [] | Some q \<Rightarrow> q) False headers body default_host))
                        timeout_ms s)"

definition pool_doRequest_uri ::
  "(int \<Rightarrow> string) \<Rightarrow> 'a network \<Rightarrow> u64 \<times> u64 \<times> u64 \<Rightarrow> HttpMethod \<Rightarrow> uri option \<Rightarrow> u64 \<Rightarrow> HttpMap \<Rightarrow> string \<Rightarrow> http_pool \<Rightarrow>
   http_result \<times> http_pool" where
  "pool_doRequest_uri strerror net clock method uri timeout_ms headers body s =
     (case uri of
        None \<Rightarrow> (MakeResult INVALID_URL ''URI is null'' None, s)
      | Some u \<Rightarrow>
          if \<not> CaseInsensitiveEqual (uri_host u) (cp_host s) \<or> uri_getPort u \<noteq> uint (cp_port s) \<or>
             uri_scheme u \<noteq> (if cp_is_https s then ''https'' else ''http'')
          then (MakeResult INVALID_HOST ''URI origin does not match the connection pool'' None, s)
          else pool_doRequest_target strerror net clock method
                 (uri_getPath u @ (if uri_query u \<noteq> [] then ''?'' @ uri_query u else [])) timeout_ms headers body s)"

definition pool_doGet where
  "pool_doGet strerror net clock = pool_doRequest_target strerror net clock GET"

definition pool_doPost where
  "pool_doPost strerror net clock = pool_doRequest_target strerror net clock POST"

definition pool_doGet_uri where
  "pool_doGet_uri strerror net clock = pool_doRequest_uri strerror net clock GET"

definition pool_doPost_uri where
  "pool_doPost_uri strerror net clock = pool_doRequest_uri strerror net clock POST"

definition getIdleConnectionCount :: "http_pool \<Rightarrow> nat" where
  "getIdleConnectionCount s = length (cp_idle s)"

section \<open>Clients of one pool\<close>

text \<open>Where a client is: outside, past the locked section of \<open>getConnection\<close> with what it took, connecting
  on a reserved slot, holding a lease, or past the checks of \<open>releaseConnection\<close>, which said whether to delete.\<close>

datatype client_pc =
    At_rest
  | Has_slot "nat list" "nat option" bool
  | Connecting
  | Leased nat
  | Releasing nat bool

inductive pool_step :: "http_pool \<times> client_pc list \<Rightarrow> http_pool \<times> client_pc list \<Rightarrow> bool" where
  step_acquire: "t < length cs \<Longrightarrow> cs ! t = At_rest \<Longrightarrow> acquire now s = ((invalid, connection, reserved), s') \<Longrightarrow>
    pool_step (s, cs) (s', cs[t := Has_slot invalid connection reserved])"
| step_discard: "t < length cs \<Longrightarrow> cs ! t = Has_slot invalid connection reserved \<Longrightarrow>
    pool_step (s, cs) (delete_all invalid s,
      cs[t := (case connection of Some p \<Rightarrow> Leased p | None \<Rightarrow> if reserved then Connecting else At_rest)])"
| step_settle: "t < length cs \<Longrightarrow> cs ! t = Connecting \<Longrightarrow> settle now socket s = (connection, s') \<Longrightarrow>
    pool_step (s, cs) (s', cs[t := (case connection of Some p \<Rightarrow> Leased p | None \<Rightarrow> At_rest)])"
| step_use: "t < length cs \<Longrightarrow> cs ! t = Leased p \<Longrightarrow>
    pool_step (s, cs) (s\<lparr> cp_heap := (cp_heap s)(p \<mapsto> c) \<rparr>, cs)"
| step_check: "t < length cs \<Longrightarrow> cs ! t = Leased p \<Longrightarrow>
    pool_step (s, cs) (s, cs[t := Releasing p (unusable s now p)])"
| step_release: "t < length cs \<Longrightarrow> cs ! t = Releasing p drop_it \<Longrightarrow>
    pool_step (s, cs) (if drop_it then delete_all [p] s else s\<lparr> cp_idle := cp_idle s @ [p] \<rparr>, cs[t := At_rest])"

inductive pool_reach :: "http_pool \<Rightarrow> nat \<Rightarrow> http_pool \<times> client_pc list \<Rightarrow> bool" for s0 n where
  reach_init: "pool_reach s0 n (s0, replicate n At_rest)"
| reach_step: "pool_reach s0 n x \<Longrightarrow> pool_step x y \<Longrightarrow> pool_reach s0 n y"

text \<open>The connections a client alone may touch, the slots of the pool it takes up, and the connections it
  is about to delete.\<close>

fun owned :: "client_pc \<Rightarrow> nat list" where
  "owned At_rest = []"
| "owned (Has_slot invalid connection reserved) = invalid @ (case connection of None \<Rightarrow> [] | Some p \<Rightarrow> [p])"
| "owned Connecting = []"
| "owned (Leased p) = [p]"
| "owned (Releasing p drop_it) = [p]"

fun slots :: "client_pc \<Rightarrow> nat" where
  "slots At_rest = 0"
| "slots (Has_slot invalid connection reserved) = (if connection \<noteq> None \<or> reserved then 1 else 0)"
| "slots Connecting = 1"
| "slots (Leased p) = 1"
| "slots (Releasing p drop_it) = 1"

fun doomed :: "client_pc \<Rightarrow> nat" where
  "doomed (Has_slot invalid connection reserved) = length invalid"
| "doomed _ = 0"

definition holders :: "http_pool \<Rightarrow> client_pc list \<Rightarrow> nat multiset" where
  "holders s cs = mset (cp_idle s) + (\<Sum>c\<leftarrow>cs. mset (owned c))"

definition live_slots :: "http_pool \<Rightarrow> client_pc list \<Rightarrow> nat" where
  "live_slots s cs = length (cp_idle s) + (\<Sum>c\<leftarrow>cs. slots c)"

definition doomed_slots :: "client_pc list \<Rightarrow> nat" where
  "doomed_slots cs = (\<Sum>c\<leftarrow>cs. doomed c)"

definition pool_inv :: "http_pool \<times> client_pc list \<Rightarrow> bool" where
  "pool_inv = (\<lambda>(s, cs).
     (\<forall>p. count (holders s cs) p = (if cp_heap s p \<noteq> None then 1 else 0)) \<and>
     (\<forall>p. cp_heap s p \<noteq> None \<longrightarrow> p < cp_next s) \<and>
     cp_total s = of_nat (live_slots s cs + doomed_slots cs) \<and>
     live_slots s cs \<le> unat (cp_max_size s) \<and> live_slots s cs + doomed_slots cs \<le> 2 * unat (cp_max_size s) \<and>
     unat (cp_max_size s) < 2 ^ 31)"

lemma sum_update:
  fixes f :: "'a \<Rightarrow> 'b::cancel_comm_monoid_add"
  shows "t < length cs \<Longrightarrow> sum_list (map f (cs[t := x])) + f (cs ! t) = sum_list (map f cs) + f x"
proof (induction cs arbitrary: t)
  case (Cons c cs)
  show ?case
  proof (cases t)
    case 0
    then show ?thesis by (simp add: ac_simps)
  next
    case (Suc t')
    with Cons have "sum_list (map f (cs[t' := x])) + f (cs ! t') = sum_list (map f cs) + f x" by simp
    then show ?thesis by (simp add: Suc add.assoc)
  qed
qed simp

lemma sum_rest: "f At_rest = 0 \<Longrightarrow> sum_list (map f (replicate n At_rest)) = (0::'b::comm_monoid_add)"
  by (induction n) simp_all

lemma take_idle_parts: "take_idle bad ps = (invalid, found, rest) \<Longrightarrow>
    ps = invalid @ (case found of None \<Rightarrow> [] | Some p \<Rightarrow> [p]) @ rest \<and> (found = None \<longrightarrow> rest = []) \<and>
    (\<forall>p \<in> set invalid. bad p) \<and> (\<forall>p. found = Some p \<longrightarrow> \<not> bad p)"
proof (induction ps arbitrary: invalid found rest)
  case (Cons p ps)
  show ?case
  proof (cases "bad p")
    case True
    obtain i f r where r: "take_idle bad ps = (i, f, r)" by (metis prod_cases3)
    with True Cons.prems have "invalid = p # i" "found = f" "rest = r" by auto
    then show ?thesis using Cons.IH [OF r] True by auto
  next
    case False
    with Cons.prems show ?thesis by auto
  qed
qed simp

lemma pool_inv_init:
  assumes "cp_idle s0 = []" "cp_total s0 = 0" "cp_heap s0 = (\<lambda>_. None)" "unat (cp_max_size s0) < 2 ^ 31"
  shows "pool_inv (s0, replicate n At_rest)"
  using assms by (simp add: pool_inv_def holders_def live_slots_def doomed_slots_def sum_rest del: map_replicate)

text \<open>What moving one client from one place to another does to the three sums.\<close>

lemma move_client:
  assumes t: "t < length cs" "cs ! t = a"
  shows "(\<Sum>c\<leftarrow>cs[t := b]. mset (owned c)) + mset (owned a) = (\<Sum>c\<leftarrow>cs. mset (owned c)) + mset (owned b)"
    and "(\<Sum>c\<leftarrow>cs[t := b]. slots c) + slots a = (\<Sum>c\<leftarrow>cs. slots c) + slots b"
    and "(\<Sum>c\<leftarrow>cs[t := b]. doomed c) + doomed a = (\<Sum>c\<leftarrow>cs. doomed c) + doomed b"
  using sum_update [OF t(1), of "\<lambda>c. mset (owned c)" b] sum_update [OF t(1), of slots b] sum_update [OF t(1), of doomed b] t(2)
  by simp_all

lemma pool_inv_intro:
  assumes inv: "pool_inv (s, cs)" and t: "t < length cs" "cs ! t = a"
    and keep: "cp_max_size s' = cp_max_size s"
    and h: "mset (cp_idle s') + mset (owned b) + gone = mset (cp_idle s) + mset (owned a) + new"
    and heap: "\<And>p. (if cp_heap s' p \<noteq> None then 1 else 0) + count gone p = (if cp_heap s p \<noteq> None then 1 else (0::nat)) + count new p"
    and bound: "\<And>p. cp_heap s' p \<noteq> None \<Longrightarrow> p < cp_next s'"
    and live: "length (cp_idle s') + slots b + down = length (cp_idle s) + slots a + up"
    and size: "live_slots s cs + up \<le> unat (cp_max_size s) + down"
    and total: "cp_total s' + of_nat (down + doomed a) = cp_total s + of_nat (up + doomed b)"
    and both: "live_slots s cs + doomed_slots cs + up + doomed b \<le> 2 * unat (cp_max_size s) + down + doomed a"
  shows "pool_inv (s', cs[t := b])"
proof -
  note m = move_client [OF t, of b]
  have old: "\<forall>p. count (holders s cs) p = (if cp_heap s p \<noteq> None then 1 else 0)"
    "cp_total s = of_nat (live_slots s cs + doomed_slots cs)" "unat (cp_max_size s) < 2 ^ 31"
    using inv by (simp_all add: pool_inv_def)
  have hs: "holders s' (cs[t := b]) + gone = holders s cs + new"
  proof -
    have "holders s' (cs[t := b]) + gone + mset (owned a) + mset (owned b) = holders s cs + new + mset (owned a) + mset (owned b)"
      unfolding holders_def using m(1) h by (simp add: ac_simps)
    then show ?thesis by simp
  qed
  have lv: "live_slots s' (cs[t := b]) + down = live_slots s cs + up" unfolding live_slots_def using m(2) live by linarith
  have dm: "doomed_slots (cs[t := b]) + doomed a = doomed_slots cs + doomed b" unfolding doomed_slots_def by (rule m(3))
  have "count (holders s' (cs[t := b])) p = (if cp_heap s' p \<noteq> None then 1 else 0)" for p
  proof -
    have "count (holders s' (cs[t := b])) p + count gone p = count (holders s cs) p + count new p"
      using hs by (metis count_union)
    then show ?thesis using old(1) heap [of p] by simp
  qed
  moreover have "cp_total s' = of_nat (live_slots s' (cs[t := b]) + doomed_slots (cs[t := b]))"
  proof -
    have "live_slots s' (cs[t := b]) + doomed_slots (cs[t := b]) + (down + doomed a) = live_slots s cs + doomed_slots cs + (up + doomed b)"
      using lv dm by linarith
    then have "(of_nat (live_slots s' (cs[t := b]) + doomed_slots (cs[t := b])) :: u32) + of_nat (down + doomed a) =
        cp_total s + of_nat (up + doomed b)"
      unfolding old(2) by (metis of_nat_add)
    with total show ?thesis by (metis add_right_cancel)
  qed
  ultimately show ?thesis unfolding pool_inv_def using old(3) keep bound lv dm size both by simp
qed

lemma holder_counts:
  assumes inv: "pool_inv (s, cs)" and t: "t < length cs" "cs ! t = a"
  shows "count (mset (owned a)) p \<le> (if cp_heap s p \<noteq> None then 1 else 0)"
proof -
  have "cs = take t cs @ a # drop (Suc t) cs" using t id_take_nth_drop [of t cs] by simp
  then have "(\<Sum>c\<leftarrow>cs. mset (owned c)) = (\<Sum>c\<leftarrow>take t cs. mset (owned c)) + (mset (owned a) + (\<Sum>c\<leftarrow>drop (Suc t) cs. mset (owned c)))"
    by (metis list.simps(9) map_append sum_list.Cons sum_list_append)
  then have "count (mset (owned a)) p \<le> count (holders s cs) p" by (simp add: holders_def)
  then show ?thesis using inv by (simp add: pool_inv_def)
qed

lemma doomed_part:
  assumes t: "t < length cs" "cs ! t = a"
  shows "slots a \<le> live_slots s cs" "doomed a \<le> doomed_slots cs"
  using move_client(2,3) [OF t, of At_rest] by (simp_all add: live_slots_def doomed_slots_def)

lemma release_step_inv:
  assumes inv: "pool_inv (s, cs)" and t: "t < length cs" "cs ! t = Releasing p drop_it"
  shows "pool_inv (if drop_it then delete_all [p] s else s\<lparr> cp_idle := cp_idle s @ [p] \<rparr>, cs[t := At_rest])"
proof (cases drop_it)
  case True
  have own: "cp_heap s p \<noteq> None" using holder_counts [OF inv t, of p] by (simp split: if_splits)
  have facts: "\<forall>p. cp_heap s p \<noteq> None \<longrightarrow> p < cp_next s" "live_slots s cs \<le> unat (cp_max_size s)"
    "live_slots s cs + doomed_slots cs \<le> 2 * unat (cp_max_size s)" using inv by (simp_all add: pool_inv_def)
  have "pool_inv (delete_all [p] s, cs[t := At_rest])"
    by (rule pool_inv_intro [OF inv t, where gone = "{#p#}" and new = "{#}" and up = 0 and down = 1])
      (use own facts in \<open>auto simp: delete_all_def split: if_splits\<close>)
  with True show ?thesis by simp
next
  case False
  have facts: "\<forall>p. cp_heap s p \<noteq> None \<longrightarrow> p < cp_next s" "live_slots s cs \<le> unat (cp_max_size s)"
    "live_slots s cs + doomed_slots cs \<le> 2 * unat (cp_max_size s)" using inv by (simp_all add: pool_inv_def)
  show ?thesis using False
    by (simp, intro pool_inv_intro [OF inv t, where gone = "{#}" and new = "{#}" and up = 0 and down = 0])
      (use facts in auto)
qed

lemma acquire_step_inv:
  assumes inv: "pool_inv (s, cs)" and t: "t < length cs" "cs ! t = At_rest"
    and acq: "acquire now s = ((invalid, connection, reserved), s')"
  shows "pool_inv (s', cs[t := Has_slot invalid connection reserved])"
proof -
  obtain rest where take: "take_idle (unusable s now) (cp_idle s) = (invalid, connection, rest)"
    and res: "reserved = (connection = None \<and> cp_total s - of_nat (length invalid) < cp_max_size s)"
    and s': "s' = (if reserved then s\<lparr> cp_idle := rest, cp_total := cp_total s + 1 \<rparr> else s\<lparr> cp_idle := rest \<rparr>)"
    using acq by (auto simp: acquire_def Let_def split: prod.splits)
  note parts = take_idle_parts [OF take]
  have idle: "cp_idle s = invalid @ (case connection of None \<Rightarrow> [] | Some p \<Rightarrow> [p]) @ rest"
    and none: "connection = None \<Longrightarrow> rest = []" using parts by blast+
  have facts: "\<forall>p. cp_heap s p \<noteq> None \<longrightarrow> p < cp_next s" "live_slots s cs \<le> unat (cp_max_size s)"
    "live_slots s cs + doomed_slots cs \<le> 2 * unat (cp_max_size s)" "unat (cp_max_size s) < 2 ^ 31"
    "cp_total s = of_nat (live_slots s cs + doomed_slots cs)"
    using inv by (simp_all add: pool_inv_def)
  have inv_live: "length invalid \<le> live_slots s cs" using idle by (simp add: live_slots_def)
  have room: "live_slots s cs + doomed_slots cs - length invalid < unat (cp_max_size s)" if "reserved"
  proof -
    have "cp_total s - of_nat (length invalid) = of_nat (live_slots s cs + doomed_slots cs - length invalid)"
      unfolding facts(5) using inv_live by (subst of_nat_diff) simp_all
    moreover have "live_slots s cs + doomed_slots cs - length invalid < 2 ^ 32" using facts(3,4) by simp
    ultimately show ?thesis using that res by (simp add: word_less_nat_alt unat_of_nat)
  qed
  show ?thesis
  proof (cases reserved)
    case True
    then have c: "connection = None" "rest = []" using res none by blast+
    show ?thesis
      by (rule pool_inv_intro [OF inv t, where gone = "{#}" and new = "{#}" and up = 1 and down = "length invalid"])
        (use True c idle facts room [OF True] inv_live in \<open>auto simp: s'\<close>)
  next
    case False
    show ?thesis
      by (rule pool_inv_intro [OF inv t, where gone = "{#}" and new = "{#}" and up = 0 and down = "length invalid"])
        (use False idle facts inv_live in \<open>auto simp: s' split: option.splits\<close>)
  qed
qed

lemma discard_step_inv:
  assumes inv: "pool_inv (s, cs)" and t: "t < length cs" "cs ! t = Has_slot invalid connection reserved"
  shows "pool_inv (delete_all invalid s,
    cs[t := (case connection of Some p \<Rightarrow> Leased p | None \<Rightarrow> if reserved then Connecting else At_rest)])"
proof -
  have one: "count (mset invalid) p \<le> (if cp_heap s p \<noteq> None then 1 else 0)" for p
    using holder_counts [OF inv t, of p] by (simp split: if_splits)
  have mem: "count (mset invalid) p = (if p \<in> set invalid then 1 else 0)" for p
  proof -
    have "count (mset invalid) p \<le> 1" by (rule order_trans [OF one]) simp
    then consider "count (mset invalid) p = 0" | "count (mset invalid) p = 1" by linarith
    then show ?thesis
    proof cases
      case 1
      then have "p \<notin> set invalid" by simp
      with 1 show ?thesis by simp
    next
      case 2
      then have "p \<in> set invalid" by (metis One_nat_def count_eq_zero_iff set_mset_mset zero_neq_one)
      with 2 show ?thesis by simp
    qed
  qed
  have heap: "cp_heap s p \<noteq> None" if "p \<in> set invalid" for p
    using one [of p] mem [of p] that by (simp split: if_splits)
  have facts: "\<forall>p. cp_heap s p \<noteq> None \<longrightarrow> p < cp_next s" "live_slots s cs \<le> unat (cp_max_size s)"
    "live_slots s cs + doomed_slots cs \<le> 2 * unat (cp_max_size s)" using inv by (simp_all add: pool_inv_def)
  show ?thesis
    by (rule pool_inv_intro [OF inv t, where gone = "mset invalid" and new = "{#}" and up = 0 and down = 0])
      (use facts mem heap in \<open>auto simp: delete_all_def split: option.splits if_splits\<close>)
qed

lemma settle_step_inv:
  assumes inv: "pool_inv (s, cs)" and t: "t < length cs" "cs ! t = Connecting"
    and settle: "settle now socket s = (connection, s')"
  shows "pool_inv (s', cs[t := (case connection of Some p \<Rightarrow> Leased p | None \<Rightarrow> At_rest)])"
proof -
  have facts: "\<forall>p. cp_heap s p \<noteq> None \<longrightarrow> p < cp_next s" "live_slots s cs \<le> unat (cp_max_size s)"
    "live_slots s cs + doomed_slots cs \<le> 2 * unat (cp_max_size s)" using inv by (simp_all add: pool_inv_def)
  have fresh: "cp_heap s (cp_next s) = None" using facts(1) [rule_format, of "cp_next s"]
    by (cases "cp_heap s (cp_next s)") auto
  show ?thesis
  proof (cases socket)
    case None
    then have e: "connection = None" "s' = s\<lparr> cp_total := cp_total s - 1 \<rparr>" using settle by (simp_all add: settle_def)
    show ?thesis
      by (rule pool_inv_intro [OF inv t, where gone = "{#}" and new = "{#}" and up = 0 and down = 1])
        (use facts in \<open>auto simp: e\<close>)
  next
    case (Some sock)
    then have e: "connection = Some (cp_next s)"
      "s' = s\<lparr> cp_heap := (cp_heap s)(cp_next s \<mapsto> HttpConnection now sock), cp_next := cp_next s + 1 \<rparr>"
      using settle by (simp_all add: settle_def)
    have nx: "p < Suc (cp_next s)" if "cp_heap s p \<noteq> None" for p using facts(1) that by (simp add: less_Suc_eq)
    show ?thesis
      by (rule pool_inv_intro [OF inv t, where gone = "{#}" and new = "{#cp_next s#}" and up = 0 and down = 0])
        (use facts fresh nx in \<open>auto simp: e split: if_splits\<close>)
  qed
qed

lemma pool_step_inv: "pool_step x y \<Longrightarrow> pool_inv x \<Longrightarrow> pool_inv y"
proof (induction rule: pool_step.induct)
  case (step_acquire t cs now s invalid connection reserved s')
  then show ?case by (blast intro: acquire_step_inv)
next
  case (step_discard t cs invalid connection reserved s)
  then show ?case by (blast intro: discard_step_inv)
next
  case (step_settle t cs now socket s connection s')
  then show ?case by (blast intro: settle_step_inv)
next
  case (step_use t cs p s c)
  have "cp_heap s p \<noteq> None" using holder_counts [OF step_use(3,1,2), of p] by (simp split: if_splits)
  then show ?case using step_use(3) by (auto simp: pool_inv_def holders_def live_slots_def doomed_slots_def)
next
  case (step_check t cs p s)
  have facts: "\<forall>p. cp_heap s p \<noteq> None \<longrightarrow> p < cp_next s" "live_slots s cs \<le> unat (cp_max_size s)"
    "live_slots s cs + doomed_slots cs \<le> 2 * unat (cp_max_size s)" using step_check(3) by (simp_all add: pool_inv_def)
  show ?case
    by (rule pool_inv_intro [OF step_check(3,1,2), where gone = "{#}" and new = "{#}" and up = 0 and down = 0])
      (use facts in auto)
next
  case (step_release t cs p drop_it s)
  show ?case by (rule release_step_inv [OF step_release(3,1,2)])
qed

lemma pool_reach_inv:
  assumes "pool_reach s0 n x" and "cp_idle s0 = []" "cp_total s0 = 0" "cp_heap s0 = (\<lambda>_. None)" "unat (cp_max_size s0) < 2 ^ 31"
  shows "pool_inv x \<and> cp_max_size (fst x) = cp_max_size s0"
  using assms(1)
proof induction
  case reach_init
  then show ?case using pool_inv_init assms(2-) by simp
next
  case (reach_step x y)
  have "cp_max_size (fst y) = cp_max_size (fst x)" using reach_step(2)
    by (cases rule: pool_step.cases) (auto simp: acquire_def settle_def delete_all_def Let_def split: prod.splits option.splits if_splits)
  with reach_step pool_step_inv show ?case by simp
qed

section \<open>Properties\<close>

text \<open>C5: However the clients of a pool interleave, and whatever they do with the connections they hold, no
  connection is leased twice or leased while idle, deleted while somebody may use it, or leaked; the connections
  idle, leased and being made never exceed the configured size; and \<open>total_\<close> counts exactly these and
  the ones about to be deleted.\<close>

theorem pool_leases_exclusive:
  assumes "Pool_Create origin vhost max_size max_alive_time_ms max_requests = Some s0" "unat max_size < 2 ^ 31"
    and "pool_reach s0 n (s, cs)"
  shows "distinct (cp_idle s @ concat (map owned cs)) \<and> dom (cp_heap s) = set (cp_idle s @ concat (map owned cs)) \<and>
     length (cp_idle s) + (\<Sum>c\<leftarrow>cs. slots c) \<le> unat max_size \<and>
     cp_total s = of_nat (length (cp_idle s) + (\<Sum>c\<leftarrow>cs. slots c) + (\<Sum>c\<leftarrow>cs. doomed c))"
proof -
  have s0: "cp_idle s0 = []" "cp_total s0 = 0" "cp_heap s0 = (\<lambda>_. None)" "cp_max_size s0 = max_size"
    using assms(1) by (auto simp: Pool_Create_def HttpConnectionPool_def split: option.splits if_splits)
  have inv: "pool_inv (s, cs)" "cp_max_size s = max_size"
    using pool_reach_inv [OF assms(3) s0(1-3)] assms(2) s0(4) by simp_all
  have "holders s cs = mset (cp_idle s @ concat (map owned cs))"
    unfolding holders_def by (induction cs) (simp_all add: ac_simps)
  then have c: "\<forall>p. count (mset (cp_idle s @ concat (map owned cs))) p = (if cp_heap s p \<noteq> None then 1 else 0)"
    using inv(1) by (simp add: pool_inv_def)
  have "distinct (cp_idle s @ concat (map owned cs))"
    unfolding distinct_count_atmost_1 using c by (metis One_nat_def count_eq_zero_iff set_mset_mset zero_neq_one)
  moreover have "dom (cp_heap s) = set (cp_idle s @ concat (map owned cs))"
  proof (intro set_eqI)
    fix p show "(p \<in> dom (cp_heap s)) = (p \<in> set (cp_idle s @ concat (map owned cs)))"
      using c [rule_format, of p] by (metis (full_types) count_eq_zero_iff domIff set_mset_mset zero_neq_one)
  qed
  ultimately show ?thesis using inv by (simp add: pool_inv_def live_slots_def doomed_slots_def)
qed

definition demo_pool :: http_pool where
  "demo_pool = HttpConnectionPool ''h'' [] 80 False 1 0 0"

lemma demo_pool_create: "Pool_Create ''http://h'' [] 1 0 0 = Some demo_pool"
proof -
  let ?u = "\<lparr> uri_scheme = ''http'', uri_userinfo = [], uri_host = ''h'', uri_path = [], uri_query = [],
     uri_fragment = [], uri_port = - 1, uri_has_authority = True \<rparr>"
  have "Uri_Create ''http://h'' = Some ?u" by (simp add: uri_eval)
  then show ?thesis by (simp add: Pool_Create_def demo_pool_def uri_getPort_def)
qed

theorem pool_leases_exclusive_witness:
  "\<exists>s. pool_reach demo_pool 2 (s, [Leased 0, At_rest]) \<and> dom (cp_heap s) = {0} \<and> cp_total s = 1"
proof -
  let ?s1 = "demo_pool\<lparr> cp_total := 1 \<rparr>" and ?c = "HttpConnection 5 demo_socket"
  let ?s2 = "?s1\<lparr> cp_heap := (cp_heap ?s1)(0 \<mapsto> ?c), cp_next := 1 \<rparr>"
  have "acquire 5 demo_pool = (([], None, True), ?s1)"
    by (simp add: acquire_def demo_pool_def HttpConnectionPool_def)
  from reach_step [OF reach_init [of demo_pool 2] step_acquire [OF _ _ this, of 0]]
  have r1: "pool_reach demo_pool 2 (?s1, [Has_slot [] None True, At_rest])" by (simp add: numeral_2_eq_2)
  have "delete_all [] ?s1 = ?s1" by (simp add: delete_all_def)
  with reach_step [OF r1 step_discard [of 0, OF _ _]] have r2: "pool_reach demo_pool 2 (?s1, [Connecting, At_rest])" by simp
  have "settle 5 (Some demo_socket) ?s1 = (Some 0, ?s2)"
    by (simp add: settle_def demo_pool_def HttpConnectionPool_def)
  from reach_step [OF r2 step_settle [OF _ _ this, of 0]]
  have r3: "pool_reach demo_pool 2 (?s2, [Leased 0, At_rest])" by simp
  from pool_leases_exclusive [OF demo_pool_create _ r3] r3 show ?thesis
    by (intro exI [of _ ?s2]) (simp add: demo_pool_def HttpConnectionPool_def)
qed

text \<open>A connection made after the clock of a lookup was read is past its life at once: the difference of
  the two times wraps.\<close>

lemma younger_than_now_expired:
  "now < hc_created_at_ms c \<Longrightarrow> uint (hc_created_at_ms c) - uint now \<le> 2 ^ 64 - uint (cp_max_alive_time_ms s) \<Longrightarrow>
   cp_max_alive_time_ms s \<noteq> 0 \<Longrightarrow> isExpired s c now"
proof -
  assume a: "now < hc_created_at_ms c" "uint (hc_created_at_ms c) - uint now \<le> 2 ^ 64 - uint (cp_max_alive_time_ms s)"
    "cp_max_alive_time_ms s \<noteq> 0"
  have "uint now < uint (hc_created_at_ms c)" using a(1) by (simp add: word_less_def)
  moreover have "0 \<le> uint now" "uint (hc_created_at_ms c) < 2 ^ 64" using uint_lt2p [of "hc_created_at_ms c"] by simp_all
  ultimately have range: "0 \<le> uint now - uint (hc_created_at_ms c) + 2 ^ 64" "uint now - uint (hc_created_at_ms c) + 2 ^ 64 < 2 ^ 64"
    by linarith+
  have "uint (now - hc_created_at_ms c) = (uint now - uint (hc_created_at_ms c)) mod 2 ^ 64"
    by (simp add: uint_word_ariths)
  also have "\<dots> = uint now - uint (hc_created_at_ms c) + 2 ^ 64"
    using mod_pos_pos_trivial [OF range] by (simp only: mod_add_self2)
  finally have "cp_max_alive_time_ms s \<le> now - hc_created_at_ms c" using a(2) by (simp add: word_le_def)
  with a(3) show ?thesis by (simp add: isExpired_def)
qed

end
