(* ===== verification/String_Utils.thy ===== *)
theory String_Utils
  imports Prelude
begin

text \<open>
  String utilities (include/droplet/utils/string_utils.h, src/utils/string_utils.cc): conversion between
  UTF-8 bytes and wide strings, and trimming.  A wide string is a list of 32-bit code units; \<open>w16\<close> says
  that \<open>wchar_t\<close> has 16 bits (the units are UTF-16), else it has 32.  \<open>None\<close> is the failed
  assertion of an ill-formed input (a release build returns an empty string there).
\<close>

section \<open>UTF-8\<close>

definition MAX_UNICODE_CODE_POINT :: u32 where "MAX_UNICODE_CODE_POINT = 0x10FFFF"
definition HIGH_SURROGATE_FIRST :: u32 where "HIGH_SURROGATE_FIRST = 0xD800"
definition HIGH_SURROGATE_LAST :: u32 where "HIGH_SURROGATE_LAST = 0xDBFF"
definition LOW_SURROGATE_FIRST :: u32 where "LOW_SURROGATE_FIRST = 0xDC00"
definition LOW_SURROGATE_LAST :: u32 where "LOW_SURROGATE_LAST = 0xDFFF"

definition IsHighSurrogate :: "u32 \<Rightarrow> bool" where
  "IsHighSurrogate v \<longleftrightarrow> v \<ge> HIGH_SURROGATE_FIRST \<and> v \<le> HIGH_SURROGATE_LAST"

definition IsLowSurrogate :: "u32 \<Rightarrow> bool" where
  "IsLowSurrogate v \<longleftrightarrow> v \<ge> LOW_SURROGATE_FIRST \<and> v \<le> LOW_SURROGATE_LAST"

text \<open>\<open>static_cast<char>\<close> of a 32-bit value, and the value of a byte.\<close>

definition to_char :: "u32 \<Rightarrow> char" where
  "to_char v = char_of (unat v mod 256)"

definition byte_value :: "char \<Rightarrow> u32" where
  "byte_value c = of_nat (code c)"

definition AppendUtf8 :: "u32 \<Rightarrow> string" where
  "AppendUtf8 cp =
     (if cp \<le> 0x7F then [to_char cp]
      else if cp \<le> 0x7FF
      then [to_char (0xC0 OR drop_bit 6 cp), to_char (0x80 OR (cp AND 0x3F))]
      else if cp \<le> 0xFFFF
      then [to_char (0xE0 OR drop_bit 12 cp), to_char (0x80 OR (drop_bit 6 cp AND 0x3F)),
            to_char (0x80 OR (cp AND 0x3F))]
      else [to_char (0xF0 OR drop_bit 18 cp), to_char (0x80 OR (drop_bit 12 cp AND 0x3F)),
            to_char (0x80 OR (drop_bit 6 cp AND 0x3F)), to_char (0x80 OR (cp AND 0x3F))])"

text \<open>The continuation bytes: the code point so far, extended.\<close>

fun continuation :: "nat \<Rightarrow> u32 \<Rightarrow> string \<Rightarrow> (u32 \<times> string) option" where
  "continuation 0 cp text = Some (cp, text)"
| "continuation (Suc n) cp text =
     (case text of
        [] \<Rightarrow> None
      | c # rest \<Rightarrow>
          if byte_value c AND 0xC0 \<noteq> 0x80 then None
          else continuation n (push_bit 6 cp OR (byte_value c AND 0x3F)) rest)"

definition DecodeUtf8CodePoint :: "char \<Rightarrow> string \<Rightarrow> (u32 \<times> string) option" where
  "DecodeUtf8CodePoint c text =
     (let first = byte_value c
      in if first \<le> 0x7F then Some (first, text)
         else case (if first \<ge> 0xC2 \<and> first \<le> 0xDF then Some (first AND 0x1F, 0x80, 1)
                    else if first \<ge> 0xE0 \<and> first \<le> 0xEF then Some (first AND 0x0F, 0x800, 2)
                    else if first \<ge> 0xF0 \<and> first \<le> 0xF4 then Some (first AND 0x07, 0x10000, 3)
                    else None) of
                None \<Rightarrow> None
              | Some (cp, minimum_code_point, continuation_count) \<Rightarrow>
                  if length text < continuation_count then None
                  else case continuation continuation_count cp text of
                         None \<Rightarrow> None
                       | Some (cp, rest) \<Rightarrow>
                           if cp < minimum_code_point \<or> cp > MAX_UNICODE_CODE_POINT \<or>
                              IsHighSurrogate cp \<or> IsLowSurrogate cp then None
                           else Some (cp, rest))"

section \<open>Wide strings\<close>

fun WStringToString :: "bool \<Rightarrow> u32 list \<Rightarrow> string option" where
  "WStringToString w16 [] = Some []"
| "WStringToString w16 (u # us) =
     (if w16
      then if IsHighSurrogate u
           then case us of
                  [] \<Rightarrow> None
                | l # us' \<Rightarrow>
                    if \<not> IsLowSurrogate l then None
                    else map_option ((@) (AppendUtf8 (0x10000 + push_bit 10 (u - HIGH_SURROGATE_FIRST) +
                           (l - LOW_SURROGATE_FIRST)))) (WStringToString w16 us')
           else if IsLowSurrogate u then None
           else map_option ((@) (AppendUtf8 u)) (WStringToString w16 us)
      else if u \<le> MAX_UNICODE_CODE_POINT \<and> \<not> IsHighSurrogate u \<and> \<not> IsLowSurrogate u
           then map_option ((@) (AppendUtf8 u)) (WStringToString w16 us)
           else None)"

definition wide_units :: "bool \<Rightarrow> u32 \<Rightarrow> u32 list" where
  "wide_units w16 cp =
     (if w16
      then if cp \<le> 0xFFFF then [cp]
           else let cp = cp - 0x10000
                in [HIGH_SURROGATE_FIRST + drop_bit 10 cp, LOW_SURROGATE_FIRST + (cp AND 0x3FF)]
      else [cp])"

lemma continuation_length: "continuation n cp s = Some (cp', rest) \<Longrightarrow> length rest \<le> length s"
  by (induction n cp s rule: continuation.induct) (auto split: list.splits if_splits)

lemma decode_length: "DecodeUtf8CodePoint c text = Some (cp, rest) \<Longrightarrow> length rest \<le> length text"
  by (auto simp: DecodeUtf8CodePoint_def Let_def simp del: continuation.simps dest: continuation_length split: if_splits option.splits)

function StringToWString :: "bool \<Rightarrow> string \<Rightarrow> u32 list option" where
  "StringToWString w16 [] = Some []"
| "StringToWString w16 (c # text) =
     (case DecodeUtf8CodePoint c text of
        None \<Rightarrow> None
      | Some (cp, rest) \<Rightarrow> map_option ((@) (wide_units w16 cp)) (StringToWString w16 rest))"
  by pat_completeness auto
termination by (relation "measure (length \<circ> snd)") (auto dest: decode_length)

section \<open>Trimming\<close>

definition ASCII_WHITESPACE :: string where
  "ASCII_WHITESPACE = [SP, TAB, LF, CR, CHR 0x0C, CHR 0x0B]"

fun find_first_not_of :: "string \<Rightarrow> string \<Rightarrow> nat option" where
  "find_first_not_of ds [] = None"
| "find_first_not_of ds (c # cs) = (if c \<in> set ds then map_option Suc (find_first_not_of ds cs) else Some 0)"

fun find_last_not_of :: "string \<Rightarrow> string \<Rightarrow> nat option" where
  "find_last_not_of ds [] = None"
| "find_last_not_of ds (c # cs) =
     (case find_last_not_of ds cs of
        Some i \<Rightarrow> Some (Suc i)
      | None \<Rightarrow> if c \<in> set ds then None else Some 0)"

definition TrimLeft :: "string \<Rightarrow> string \<Rightarrow> string" where
  "TrimLeft ds text = (case find_first_not_of ds text of None \<Rightarrow> [] | Some b \<Rightarrow> drop b text)"

definition TrimRight :: "string \<Rightarrow> string \<Rightarrow> string" where
  "TrimRight ds text = (case find_last_not_of ds text of None \<Rightarrow> [] | Some e \<Rightarrow> substr text 0 (e + 1))"

definition Trim_delimiters :: "string \<Rightarrow> string \<Rightarrow> string" where
  "Trim_delimiters ds text =
     (case find_first_not_of ds text of
        None \<Rightarrow> []
      | Some b \<Rightarrow> (case find_last_not_of ds text of
                      None \<Rightarrow> []
                    | Some e \<Rightarrow> substr text b (e - b + 1)))"

lemma find_first_not_of_drop:
  "find_first_not_of ds s = None \<Longrightarrow> set s \<subseteq> set ds"
  "find_first_not_of ds s = Some i \<Longrightarrow> i = length (takeWhile (\<lambda>c. c \<in> set ds) s) \<and> i < length s"
  by (induction s arbitrary: i) (auto split: if_splits)

lemma TrimLeft_eq: "TrimLeft ds s = dropWhile (\<lambda>c. c \<in> set ds) s"
proof (cases "find_first_not_of ds s")
  case None
  have "dropWhile (\<lambda>c. c \<in> set ds) s = []"
    using find_first_not_of_drop(1) [OF None] by (auto simp: dropWhile_eq_Nil_conv)
  with None show ?thesis by (simp add: TrimLeft_def del: dropWhile_eq_Nil_conv)
next
  case (Some i)
  with find_first_not_of_drop(2) [OF Some] show ?thesis by (simp add: TrimLeft_def dropWhile_eq_drop)
qed

lemma find_last_not_of_None: "find_last_not_of ds s = None \<longleftrightarrow> set s \<subseteq> set ds"
  by (induction s) (auto split: option.splits)

lemma find_last_not_of_Some:
  "find_last_not_of ds s = Some i \<Longrightarrow> \<exists>a c b. s = a @ c # b \<and> c \<notin> set ds \<and> set b \<subseteq> set ds \<and> length a = i"
proof (induction s arbitrary: i)
  case (Cons x s)
  show ?case
  proof (cases "find_last_not_of ds s")
    case None
    with Cons.prems have "x \<notin> set ds" "i = 0" by (auto split: if_splits)
    with None show ?thesis using find_last_not_of_None by (intro exI [of _ "[]"] exI [of _ x] exI [of _ s]) auto
  next
    case (Some j)
    with Cons.prems Cons.IH [OF Some] obtain a c b where "s = a @ c # b" "c \<notin> set ds" "set b \<subseteq> set ds" "Suc (length a) = i"
      by auto
    then show ?thesis by (intro exI [of _ "x # a"] exI [of _ c] exI [of _ b]) auto
  qed
qed simp

lemma dropWhile_all: "set b \<subseteq> A \<Longrightarrow> dropWhile (\<lambda>c. c \<in> A) (b @ r) = dropWhile (\<lambda>c. c \<in> A) r"
  by (induction b) auto

lemma TrimRight_eq: "TrimRight ds s = rev (dropWhile (\<lambda>c. c \<in> set ds) (rev s))"
proof (cases "find_last_not_of ds s")
  case None
  then have "dropWhile (\<lambda>c. c \<in> set ds) (rev s) = []"
    using find_last_not_of_None by (fastforce simp: dropWhile_eq_Nil_conv)
  then show ?thesis using None by (simp add: TrimRight_def)
next
  case (Some i)
  from find_last_not_of_Some [OF Some] obtain a c b
    where s: "s = a @ c # b" "c \<notin> set ds" "set b \<subseteq> set ds" "length a = i" by blast
  then have "dropWhile (\<lambda>c. c \<in> set ds) (rev s) = c # rev a"
    using dropWhile_all [of "rev b" "set ds" "c # rev a"] by simp
  then show ?thesis using Some s by (simp add: TrimRight_def substr_def)
qed

lemma Trim_eq: "Trim_delimiters ds s = TrimLeft ds (TrimRight ds s)"
proof (cases "find_last_not_of ds s")
  case None
  then have "set s \<subseteq> set ds" by (simp add: find_last_not_of_None)
  then show ?thesis using None
    by (auto simp: Trim_delimiters_def TrimRight_def TrimLeft_def split: option.splits)
next
  case (Some i)
  from find_last_not_of_Some [OF Some] obtain a c b
    where s: "s = a @ c # b" "c \<notin> set ds" "set b \<subseteq> set ds" "length a = i" by blast
  have r: "TrimRight ds s = a @ [c]" using Some s by (simp add: TrimRight_def substr_def)
  have first: "find_first_not_of ds (u @ v) = find_first_not_of ds u" if "\<not> set u \<subseteq> set ds" for u v
    using that by (induction u) auto
  then have f: "find_first_not_of ds s = find_first_not_of ds (a @ [c])"
    using first [of "a @ [c]" b] s(1,2) by simp
  obtain j where j: "find_first_not_of ds (a @ [c]) = Some j"
    using find_first_not_of_drop(1) [of ds "a @ [c]"] s(2) by fastforce
  then have "j \<le> length a" using find_first_not_of_drop(2) [OF j] by simp
  then show ?thesis using Some s f j r
    by (simp add: Trim_delimiters_def TrimLeft_def substr_def Suc_diff_le)
qed

section \<open>Code points and their bytes\<close>

text \<open>A Unicode scalar value: what both directions accept.\<close>

definition scalar :: "u32 \<Rightarrow> bool" where
  "scalar cp \<longleftrightarrow> cp \<le> MAX_UNICODE_CODE_POINT \<and> \<not> IsHighSurrogate cp \<and> \<not> IsLowSurrogate cp"

lemma scalar_nat: "scalar cp \<longleftrightarrow> unat cp \<le> 1114111 \<and> \<not> (55296 \<le> unat cp \<and> unat cp \<le> 57343)"
  by (auto simp: scalar_def IsHighSurrogate_def IsLowSurrogate_def MAX_UNICODE_CODE_POINT_def
      HIGH_SURROGATE_FIRST_def HIGH_SURROGATE_LAST_def LOW_SURROGATE_FIRST_def LOW_SURROGATE_LAST_def word_le_nat_alt)

lemma or_disjoint:
  fixes x :: u32
  assumes x: "unat x < 2 ^ k" and c: "take_bit k c = 0" "unat c + unat x < 2 ^ 32"
  shows "unat (c OR x) = unat c + unat x"
proof -
  have tx: "take_bit k x = x"
    using x by (simp add: word_unat_eq_iff unsigned_take_bit_eq take_bit_nat_eq_self)
  have "\<not> bit c n \<or> \<not> bit x n" for n
  proof (cases "n < k")
    case True
    have "bit (take_bit k c) n = (n < k \<and> bit c n)" by (simp add: bit_take_bit_iff)
    with c(1) True show ?thesis by simp
  next
    case False
    have "bit (take_bit k x) n = (n < k \<and> bit x n)" by (simp add: bit_take_bit_iff)
    with tx False show ?thesis by simp
  qed
  then have "c + x = c OR x" by (intro disjunctive_add) auto
  moreover have "unat (c + x) = (unat c + unat x) mod 2 ^ 32" by (simp add: unat_word_ariths)
  ultimately show ?thesis using c(2) by simp
qed

lemma unat_small [simp]: "n < 2 ^ 32 \<Longrightarrow> unat (of_nat n :: u32) = n"
  by (simp add: unat_of_nat)

lemma unat_take: "unat (take_bit k (w :: u32)) = unat w mod 2 ^ k"
  unfolding unsigned_take_bit_eq by (simp add: take_bit_eq_mod)

lemma low_bits: "unat ((w :: u32) AND 63) = unat w mod 64" "unat (w AND 31) = unat w mod 32"
  "unat (w AND 15) = unat w mod 16" "unat (w AND 7) = unat w mod 8"
proof -
  have m: "unat (w AND mask k) = unat w mod 2 ^ k" for k
    using unat_take [of k w] by (simp only: take_bit_eq_mask)
  show "unat (w AND 63) = unat w mod 64" using m [of 6] by (simp add: mask_eq_exp_minus_1)
  show "unat (w AND 31) = unat w mod 32" using m [of 5] by (simp add: mask_eq_exp_minus_1)
  show "unat (w AND 15) = unat w mod 16" using m [of 4] by (simp add: mask_eq_exp_minus_1)
  show "unat (w AND 7) = unat w mod 8" using m [of 3] by (simp add: mask_eq_exp_minus_1)
qed

lemma unat_drop: "unat (drop_bit k (w :: u32)) = unat w div 2 ^ k"
  unfolding unat_drop_bit_eq by (simp add: drop_bit_eq_div)

lemma byte_value_unat [simp]: "unat (byte_value c) = code c"
proof -
  have "code c < 2 ^ 32" using code_less [of c] by (rule order_less_trans) simp
  then show ?thesis unfolding byte_value_def by (rule unat_small)
qed

lemma continuation_byte: "byte_value c AND 0xC0 = 0x80 \<longleftrightarrow> code c div 64 = 2"
proof -
  let ?w = "byte_value c"
  have "?w AND push_bit 6 (mask 2) = push_bit 6 (take_bit 2 (drop_bit 6 ?w))"
    by (rule bit_word_eqI) (auto simp: bit_simps)
  moreover have "unat (push_bit 6 (take_bit 2 (drop_bit 6 ?w))) = code c div 64 mod 4 * 64"
  proof -
    have "unat (take_bit 2 (drop_bit 6 ?w)) = code c div 64 mod 4"
      unfolding unat_take unat_drop by simp
    then show ?thesis by (simp add: push_bit_eq_mult unat_word_ariths)
  qed
  ultimately have "unat (?w AND 0xC0) = code c div 64 mod 4 * 64" by (simp add: mask_eq_exp_minus_1)
  moreover have "code c div 64 < 4" by (intro less_mult_imp_div_less) (use code_less [of c] in simp)
  ultimately show ?thesis by (simp add: word_unat_eq_iff)
qed

lemma extend_nat:
  assumes "n < 2 ^ 20" "m < 64"
  shows "push_bit 6 (of_nat n :: u32) OR (of_nat m) = of_nat (n * 64 + m)"
proof -
  have 1: "unat (push_bit 6 (of_nat n :: u32)) = n * 64"
    using assms by (simp add: push_bit_eq_mult unat_word_ariths)
  have 2: "unat (of_nat m :: u32) = m" using assms by simp
  have 3: "take_bit 6 (push_bit 6 (of_nat n :: u32)) = 0" by (rule bit_word_eqI) (auto simp: bit_simps)
  have "unat (push_bit 6 (of_nat n :: u32) OR of_nat m) = n * 64 + m"
    using or_disjoint [OF _ 3, of "of_nat m"] 1 2 assms by simp
  moreover have "unat (of_nat (n * 64 + m) :: u32) = n * 64 + m" by (rule unat_small) (use assms in simp)
  ultimately show ?thesis by (simp add: word_unat_eq_iff)
qed

lemma low_six: "byte_value c AND 0x3F = of_nat (code c mod 64)"
  by (simp add: word_unat_eq_iff low_bits)

text \<open>One continuation byte, on numbers.\<close>

lemma continuation_step:
  assumes "n < 2 ^ 20"
  shows "continuation (Suc k) (of_nat n) (c # s) =
    (if code c div 64 = 2 then continuation k (of_nat (n * 64 + code c mod 64)) s else None)"
  using extend_nat [OF assms, of "code c mod 64"] by (simp add: continuation_byte low_six)

text \<open>The bytes of a code point, on numbers.\<close>

definition utf8_codes :: "nat \<Rightarrow> nat list" where
  "utf8_codes n =
     (if n \<le> 127 then [n]
      else if n \<le> 2047 then [192 + n div 64, 128 + n mod 64]
      else if n \<le> 65535 then [224 + n div 4096, 128 + n div 64 mod 64, 128 + n mod 64]
      else [240 + n div 262144, 128 + n div 4096 mod 64, 128 + n div 64 mod 64, 128 + n mod 64])"

lemma code_to_char [simp]: "code (to_char v) = unat v mod 256"
  by (simp add: to_char_def)

lemma lead_code:
  assumes "take_bit k (of_nat c :: u32) = 0" "unat x < 2 ^ k" "c + unat x < 256"
  shows "code (to_char (of_nat c OR x)) = c + unat x"
  using or_disjoint [OF assms(2,1)] assms(3) by simp

lemma AppendUtf8_codes:
  assumes "unat cp \<le> 1114111"
  shows "map code (AppendUtf8 cp) = utf8_codes (unat cp)"
proof -
  have t: "take_bit 6 (of_nat 128 :: u32) = 0" "take_bit 5 (of_nat 192 :: u32) = 0"
    "take_bit 4 (of_nat 224 :: u32) = 0" "take_bit 3 (of_nat 240 :: u32) = 0"
    by (simp_all add: take_bit_eq_mod word_unat_eq_iff unat_mod)
  have c: "code (to_char (0x80 OR (w AND 0x3F))) = 128 + unat w mod 64" for w
  proof -
    have "unat w mod 64 < 64" by simp
    then show ?thesis using lead_code [OF t(1), of "w AND 0x3F"] by (simp add: low_bits del: code_to_char)
  qed
  have l2: "code (to_char (0xC0 OR drop_bit 6 cp)) = 192 + unat cp div 64" if "unat cp \<le> 2047"
    using lead_code [OF t(2), of "drop_bit 6 cp"] that by (simp add: unat_drop del: code_to_char)
  have l3: "code (to_char (0xE0 OR drop_bit 12 cp)) = 224 + unat cp div 4096" if "unat cp \<le> 65535"
    using lead_code [OF t(3), of "drop_bit 12 cp"] that by (simp add: unat_drop del: code_to_char)
  have l4: "code (to_char (0xF0 OR drop_bit 18 cp)) = 240 + unat cp div 262144"
    using lead_code [OF t(4), of "drop_bit 18 cp"] assms by (simp add: unat_drop del: code_to_char)
  have le: "cp \<le> 0x7F \<longleftrightarrow> unat cp \<le> 127" "cp \<le> 0x7FF \<longleftrightarrow> unat cp \<le> 2047" "cp \<le> 0xFFFF \<longleftrightarrow> unat cp \<le> 65535"
    by (simp_all add: word_le_nat_alt)
  show ?thesis
    using l2 l3 l4 by (simp add: AppendUtf8_def utf8_codes_def le c unat_drop del: code_to_char) simp
qed

lemma AppendUtf8_eqI: "unat cp \<le> 1114111 \<Longrightarrow> map code bs = utf8_codes (unat cp) \<Longrightarrow> AppendUtf8 cp = bs"
  using AppendUtf8_codes [of cp] map_injective [of code] by (metis code_inj injI)

lemma byte_range: "byte_value c \<le> w \<longleftrightarrow> code c \<le> unat w" "w \<le> byte_value c \<longleftrightarrow> unat w \<le> code c"
  by (simp_all add: word_le_nat_alt)

lemma lead_bits: "byte_value c AND 0x1F = of_nat (code c mod 32)" "byte_value c AND 0x0F = of_nat (code c mod 16)"
  "byte_value c AND 0x07 = of_nat (code c mod 8)"
  by (simp_all add: word_unat_eq_iff low_bits)

text \<open>The decoder, on numbers.\<close>

definition finish :: "nat \<Rightarrow> (u32 \<times> string) option \<Rightarrow> (u32 \<times> string) option" where
  "finish m r = (case r of None \<Rightarrow> None | Some (cp, rest) \<Rightarrow> if unat cp < m \<or> \<not> scalar cp then None else Some (cp, rest))"

lemma Decode_cases:
  "DecodeUtf8CodePoint c s =
     (if code c \<le> 127 then Some (of_nat (code c), s)
      else if 194 \<le> code c \<and> code c \<le> 223 then finish 128 (continuation 1 (of_nat (code c mod 32)) s)
      else if 224 \<le> code c \<and> code c \<le> 239 then finish 2048 (continuation 2 (of_nat (code c mod 16)) s)
      else if 240 \<le> code c \<and> code c \<le> 244 then finish 65536 (continuation 3 (of_nat (code c mod 8)) s)
      else None)"
proof -
  have short: "continuation k cp s = None" if "length s < k" for k cp
    using that by (induction k cp s rule: continuation.induct) (auto split: list.splits)
  have fin: "(if length s < k then None else case continuation k cp s of None \<Rightarrow> None
      | Some (cp, rest) \<Rightarrow> if cp < m \<or> cp > MAX_UNICODE_CODE_POINT \<or> IsHighSurrogate cp \<or> IsLowSurrogate cp
          then None else Some (cp, rest)) = finish (unat m) (continuation k cp s)" for k cp m
    using short [of k cp]
    by (auto simp: finish_def scalar_def word_less_nat_alt word_le_nat_alt not_less simp del: continuation.simps
        split: option.splits)
  have b: "byte_value c = of_nat (code c)" by (simp add: byte_value_def)
  have r: "byte_value c \<le> 0x7F \<longleftrightarrow> code c \<le> 127" "byte_value c \<ge> 0xC2 \<and> byte_value c \<le> 0xDF \<longleftrightarrow> 194 \<le> code c \<and> code c \<le> 223"
    "byte_value c \<ge> 0xE0 \<and> byte_value c \<le> 0xEF \<longleftrightarrow> 224 \<le> code c \<and> code c \<le> 239"
    "byte_value c \<ge> 0xF0 \<and> byte_value c \<le> 0xF4 \<longleftrightarrow> 240 \<le> code c \<and> code c \<le> 244"
    by (simp_all add: byte_range)
  consider "code c \<le> 127" | "194 \<le> code c \<and> code c \<le> 223" | "224 \<le> code c \<and> code c \<le> 239"
    | "240 \<le> code c \<and> code c \<le> 244"
    | "\<not> code c \<le> 127" "\<not> (194 \<le> code c \<and> code c \<le> 223)" "\<not> (224 \<le> code c \<and> code c \<le> 239)" "\<not> (240 \<le> code c \<and> code c \<le> 244)"
    by blast
  then show ?thesis
  proof cases
    case 1
    then show ?thesis unfolding DecodeUtf8CodePoint_def Let_def r by (simp add: b)
  next
    case 2
    then show ?thesis using fin [where k = 1 and cp = "of_nat (code c mod 32)" and m = 128]
      unfolding DecodeUtf8CodePoint_def Let_def r lead_bits by (simp del: continuation.simps One_nat_def)
  next
    case 3
    then show ?thesis using fin [where k = 2 and cp = "of_nat (code c mod 16)" and m = 2048]
      unfolding DecodeUtf8CodePoint_def Let_def r lead_bits by (simp del: continuation.simps)
  next
    case 4
    then show ?thesis using fin [where k = 3 and cp = "of_nat (code c mod 8)" and m = 65536]
      unfolding DecodeUtf8CodePoint_def Let_def r lead_bits by (simp del: continuation.simps)
  next
    case 5
    then show ?thesis by (simp only: DecodeUtf8CodePoint_def Let_def r if_False option.case)
  qed
qed

lemma continuation_one:
  assumes "continuation (Suc 0) (of_nat n) s = Some (cp, rest)" "n < 2 ^ 20"
  obtains c where "s = c # rest" "code c div 64 = 2" "cp = of_nat (n * 64 + code c mod 64)"
  using assms(1) continuation_step [OF assms(2), of 0] by (cases s) (auto split: if_splits)

lemma continuation_more:
  assumes "continuation (Suc (Suc k)) (of_nat n) s = Some (cp, rest)" "n < 2 ^ 20"
  obtains c s' where "s = c # s'" "code c div 64 = 2" "continuation (Suc k) (of_nat (n * 64 + code c mod 64)) s' = Some (cp, rest)"
proof (cases s)
  case Nil
  with assms(1) show thesis by simp
next
  case (Cons c s')
  with assms(1) that show thesis using continuation_step [OF assms(2), of "Suc k"] by (simp del: continuation.simps split: if_splits)
qed

lemma continuation_two:
  assumes "continuation (Suc (Suc 0)) (of_nat n) s = Some (cp, rest)" "n < 2 ^ 14"
  obtains c1 c2 where "s = c1 # c2 # rest" "code c1 div 64 = 2" "code c2 div 64 = 2"
    "cp = of_nat ((n * 64 + code c1 mod 64) * 64 + code c2 mod 64)"
proof -
  have n: "n < 2 ^ 20" using assms(2) by simp
  obtain c1 s1 where 1: "s = c1 # s1" "code c1 div 64 = 2"
    "continuation (Suc 0) (of_nat (n * 64 + code c1 mod 64)) s1 = Some (cp, rest)"
    by (rule continuation_more [OF assms(1) n])
  have "code c1 mod 64 < 64" by simp
  then have "n * 64 + code c1 mod 64 < 2 ^ 20" using assms(2) by simp
  from continuation_one [OF 1(3) this] 1(1,2) that show thesis by metis
qed

lemma continuation_three:
  assumes "continuation (Suc (Suc (Suc 0))) (of_nat n) s = Some (cp, rest)" "n < 2 ^ 8"
  obtains c1 c2 c3 where "s = c1 # c2 # c3 # rest" "code c1 div 64 = 2" "code c2 div 64 = 2" "code c3 div 64 = 2"
    "cp = of_nat (((n * 64 + code c1 mod 64) * 64 + code c2 mod 64) * 64 + code c3 mod 64)"
proof -
  have n: "n < 2 ^ 20" using assms(2) by simp
  obtain c1 s1 where 1: "s = c1 # s1" "code c1 div 64 = 2"
    "continuation (Suc (Suc 0)) (of_nat (n * 64 + code c1 mod 64)) s1 = Some (cp, rest)"
    by (rule continuation_more [OF assms(1) n])
  have "code c1 mod 64 < 64" by simp
  then have "n * 64 + code c1 mod 64 < 2 ^ 14" using assms(2) by simp
  from continuation_two [OF 1(3) this] 1(1,2) that show thesis by metis
qed

lemma lead_mod:
  "192 \<le> n \<Longrightarrow> n < 224 \<Longrightarrow> 192 + n mod 32 = (n :: nat)" "224 \<le> n \<Longrightarrow> n < 240 \<Longrightarrow> 224 + n mod 16 = (n :: nat)"
  "240 \<le> n \<Longrightarrow> n < 248 \<Longrightarrow> 240 + n mod 8 = (n :: nat)" "n div 64 = 2 \<Longrightarrow> 128 + n mod 64 = (n :: nat)"
proof -
  have e: "n div m = q \<Longrightarrow> m * q + n mod m = n" for m q :: nat using mult_div_mod_eq [of m n] by simp
  show "192 \<le> n \<Longrightarrow> n < 224 \<Longrightarrow> 192 + n mod 32 = n" using e [of 32 6] div_nat_eqI [of 32 6 n] by simp
  show "224 \<le> n \<Longrightarrow> n < 240 \<Longrightarrow> 224 + n mod 16 = n" using e [of 16 14] div_nat_eqI [of 16 14 n] by simp
  show "240 \<le> n \<Longrightarrow> n < 248 \<Longrightarrow> 240 + n mod 8 = n" using e [of 8 30] div_nat_eqI [of 8 30 n] by simp
  show "n div 64 = 2 \<Longrightarrow> 128 + n mod 64 = n" using e [of 64 2] by simp
qed

lemma digit64:
  fixes a b :: nat
  assumes "b < 64"
  shows "(a * 64 + b) div 64 = a" "(a * 64 + b) mod 64 = b"
    "(a * 64 + b) div 4096 = a div 64" "(a * 64 + b) div 262144 = a div 4096"
proof -
  show 1: "(a * 64 + b) div 64 = a" "(a * 64 + b) mod 64 = b" using assms by simp_all
  have "x div 4096 = x div 64 div 64" "x div 262144 = x div 64 div 4096" for x :: nat
    by (simp_all add: div_mult2_eq [symmetric])
  then show "(a * 64 + b) div 4096 = a div 64" "(a * 64 + b) div 262144 = a div 4096" by (simp_all only: 1)
qed

lemma codes_two:
  assumes "n = p * 64 + x" "128 \<le> n" "p < 32" "x < 64"
  shows "utf8_codes n = [192 + p, 128 + x]"
proof -
  have "n div 64 = p" "n mod 64 = x" unfolding assms(1) by (rule digit64 [OF assms(4)])+
  moreover have "n \<le> 2047" using assms by simp
  ultimately show ?thesis using assms(2) by (simp add: utf8_codes_def)
qed

lemma codes_three:
  assumes n: "n = (p * 64 + x) * 64 + y" "2048 \<le> n" and b: "p < 16" "x < 64" "y < 64"
  shows "utf8_codes n = [224 + p, 128 + x, 128 + y]"
proof -
  have "n div 4096 = p" "n div 64 mod 64 = x" "n mod 64 = y"
    unfolding n(1) digit64 [OF b(3)] digit64 [OF b(2)] by (rule refl)+
  moreover have "n \<le> 65535" using n(1) b by simp
  ultimately show ?thesis using n(2) unfolding utf8_codes_def by simp
qed

lemma codes_four:
  assumes n: "n = ((p * 64 + x) * 64 + y) * 64 + z" "65536 \<le> n" and b: "x < 64" "y < 64" "z < 64"
  shows "utf8_codes n = [240 + p, 128 + x, 128 + y, 128 + z]"
proof -
  have "n div 262144 = p" "n div 4096 mod 64 = x" "n div 64 mod 64 = y" "n mod 64 = z"
    unfolding n(1) digit64 [OF b(3)] digit64 [OF b(2)] digit64 [OF b(1)] by (rule refl)+
  then show ?thesis using n(2) unfolding utf8_codes_def by simp
qed

lemma finish_Some: "finish m r = Some (cp, rest) \<longleftrightarrow> r = Some (cp, rest) \<and> m \<le> unat cp \<and> scalar cp"
  by (auto simp: finish_def split: option.splits if_splits)

lemma decode_sound:
  assumes "DecodeUtf8CodePoint c s = Some (cp, rest)"
  shows "scalar cp \<and> c # s = AppendUtf8 cp @ rest"
proof -
  consider (one) "code c \<le> 127" | (two) "194 \<le> code c" "code c \<le> 223" | (three) "224 \<le> code c" "code c \<le> 239"
    | (four) "240 \<le> code c" "code c \<le> 244"
    | (bad) "\<not> code c \<le> 127" "\<not> (194 \<le> code c \<and> code c \<le> 223)" "\<not> (224 \<le> code c \<and> code c \<le> 239)" "\<not> (240 \<le> code c \<and> code c \<le> 244)"
    by blast
  then consider "code c \<le> 127" "cp = of_nat (code c)" "rest = s"
    | "194 \<le> code c" "code c \<le> 223" "finish 128 (continuation 1 (of_nat (code c mod 32)) s) = Some (cp, rest)"
    | "224 \<le> code c" "code c \<le> 239" "finish 2048 (continuation (Suc (Suc 0)) (of_nat (code c mod 16)) s) = Some (cp, rest)"
    | "240 \<le> code c" "code c \<le> 244" "finish 65536 (continuation (Suc (Suc (Suc 0))) (of_nat (code c mod 8)) s) = Some (cp, rest)"
  proof cases
    case one
    then show thesis using assms that(1) by (simp add: Decode_cases)
  next
    case two
    then show thesis using assms that(2) by (simp add: Decode_cases del: continuation.simps One_nat_def)
  next
    case three
    then show thesis using assms that(3) by (simp add: Decode_cases numeral_2_eq_2 del: continuation.simps)
  next
    case four
    then show thesis using assms that(4) by (simp add: Decode_cases numeral_3_eq_3 del: continuation.simps)
  next
    case bad
    then show thesis using assms unfolding Decode_cases by (simp only: if_False option.distinct)
  qed
  then show ?thesis
  proof cases
    case 1
    then have u: "unat cp = code c" by simp
    then have "AppendUtf8 cp = [c]" using 1(1) by (intro AppendUtf8_eqI) (auto simp: utf8_codes_def)
    with 1 u show ?thesis by (simp add: scalar_nat)
  next
    case 2
    have "code c mod 32 < 32" by simp
    then have a': "code c mod 32 < 2 ^ 20" by simp
    from 2(3) have e: "continuation (Suc 0) (of_nat (code c mod 32)) s = Some (cp, rest)"
      and f: "128 \<le> unat cp" "scalar cp" unfolding finish_Some One_nat_def by auto
    obtain c1 where s: "s = c1 # rest" "code c1 div 64 = 2" "cp = of_nat (code c mod 32 * 64 + code c1 mod 64)"
      by (rule continuation_one [OF e a'])
    have b: "code c mod 32 < 32" "code c1 mod 64 < 64" by simp_all
    have u: "unat cp = code c mod 32 * 64 + code c1 mod 64" unfolding s(3) by (rule unat_small) (use b in simp)
    have "utf8_codes (unat cp) = [192 + code c mod 32, 128 + code c1 mod 64]"
      by (rule codes_two [OF u f(1) b])
    then have "utf8_codes (unat cp) = map code [c, c1]"
      using lead_mod(1) [of "code c"] lead_mod(4) [OF s(2)] 2(1,2) by (simp del: mod_less)
    then have "AppendUtf8 cp = [c, c1]" using f(2) by (intro AppendUtf8_eqI) (simp_all add: scalar_nat)
    with s f show ?thesis by simp
  next
    case 3
    have a: "code c mod 16 < 16" by simp
    then have a': "code c mod 16 < 2 ^ 14" by simp
    from 3(3) have e: "continuation (Suc (Suc 0)) (of_nat (code c mod 16)) s = Some (cp, rest)"
      and f: "2048 \<le> unat cp" "scalar cp" unfolding finish_Some by auto
    obtain c1 c2 where s: "s = c1 # c2 # rest" "code c1 div 64 = 2" "code c2 div 64 = 2"
      "cp = of_nat ((code c mod 16 * 64 + code c1 mod 64) * 64 + code c2 mod 64)"
      by (rule continuation_two [OF e a'])
    have b: "code c1 mod 64 < 64" "code c2 mod 64 < 64" by simp_all
    have u: "unat cp = (code c mod 16 * 64 + code c1 mod 64) * 64 + code c2 mod 64"
      unfolding s(4) by (rule unat_small) (use a b in simp)
    have "utf8_codes (unat cp) = [224 + code c mod 16, 128 + code c1 mod 64, 128 + code c2 mod 64]"
      by (rule codes_three [OF u f(1) a b])
    then have "utf8_codes (unat cp) = map code [c, c1, c2]"
      using lead_mod(2) [of "code c"] lead_mod(4) [OF s(2)] lead_mod(4) [OF s(3)] 3(1,2) by (simp del: mod_less)
    then have "AppendUtf8 cp = [c, c1, c2]" using f(2) by (intro AppendUtf8_eqI) (simp_all add: scalar_nat)
    with s f show ?thesis by simp
  next
    case 4
    have a: "code c mod 8 < 8" by simp
    then have a': "code c mod 8 < 2 ^ 8" by simp
    from 4(3) have e: "continuation (Suc (Suc (Suc 0))) (of_nat (code c mod 8)) s = Some (cp, rest)"
      and f: "65536 \<le> unat cp" "scalar cp" unfolding finish_Some by auto
    obtain c1 c2 c3 where s: "s = c1 # c2 # c3 # rest" "code c1 div 64 = 2" "code c2 div 64 = 2" "code c3 div 64 = 2"
      "cp = of_nat (((code c mod 8 * 64 + code c1 mod 64) * 64 + code c2 mod 64) * 64 + code c3 mod 64)"
      by (rule continuation_three [OF e a'])
    have b: "code c1 mod 64 < 64" "code c2 mod 64 < 64" "code c3 mod 64 < 64" by simp_all
    have u: "unat cp = ((code c mod 8 * 64 + code c1 mod 64) * 64 + code c2 mod 64) * 64 + code c3 mod 64"
      unfolding s(5) by (rule unat_small) (use a b in simp)
    have "utf8_codes (unat cp) = [240 + code c mod 8, 128 + code c1 mod 64, 128 + code c2 mod 64, 128 + code c3 mod 64]"
      by (rule codes_four [OF u f(1) b])
    then have "utf8_codes (unat cp) = map code [c, c1, c2, c3]"
      using lead_mod(3) [of "code c"] lead_mod(4) [OF s(2)] lead_mod(4) [OF s(3)] lead_mod(4) [OF s(4)] 4(1,2)
      by (simp del: mod_less)
    then have "AppendUtf8 cp = [c, c1, c2, c3]" using f(2) by (intro AppendUtf8_eqI) (simp_all add: scalar_nat)
    with s f show ?thesis by simp
  qed
qed

lemma follow_byte:
  assumes "code c = 128 + m" "m < 64"
  shows "code c div 64 = 2" "code c mod 64 = m"
  using digit64(1,2) [OF assms(2), of 2] assms(1) by simp_all

lemma compose64:
  fixes n :: nat
  shows "n div 64 * 64 + n mod 64 = n" "(n div 4096 * 64 + n div 64 mod 64) * 64 + n mod 64 = n"
    "((n div 262144 * 64 + n div 4096 mod 64) * 64 + n div 64 mod 64) * 64 + n mod 64 = n"
proof -
  have 1: "x div 64 * 64 + x mod 64 = x" for x :: nat by (rule div_mult_mod_eq)
  have 2: "x div 4096 = x div 64 div 64" "x div 262144 = x div 64 div 64 div 64" for x :: nat
    by (simp_all add: div_mult2_eq [symmetric])
  show "n div 64 * 64 + n mod 64 = n" by (rule 1)
  show "(n div 4096 * 64 + n div 64 mod 64) * 64 + n mod 64 = n" unfolding 2 1 by (rule refl)
  show "((n div 262144 * 64 + n div 4096 mod 64) * 64 + n div 64 mod 64) * 64 + n mod 64 = n"
    unfolding 2 1 by (rule refl)
qed

lemma continuation_do:
  assumes "n < 2 ^ 20" "code c = 128 + m" "m < 64"
  shows "continuation (Suc k) (of_nat n) (c # s) = continuation k (of_nat (n * 64 + m)) s"
  using continuation_step [OF assms(1), of k c s] follow_byte [OF assms(2,3)] by (simp del: continuation.simps)

lemma lead_value: "x < 32 \<Longrightarrow> (192 + x) mod 32 = (x :: nat)" "x < 16 \<Longrightarrow> (224 + x) mod 16 = (x :: nat)"
  "x < 8 \<Longrightarrow> (240 + x) mod 8 = (x :: nat)"
  using mod_mult_self3 [of 6 32 x] mod_mult_self3 [of 14 16 x] mod_mult_self3 [of 30 8 x] by simp_all

lemma decode_complete:
  assumes sc: "scalar cp" and bs: "AppendUtf8 cp = c # bs"
  shows "DecodeUtf8CodePoint c (bs @ rest) = Some (cp, rest)"
proof -
  define n where "n = unat cp"
  have n: "n \<le> 1114111" "of_nat n = cp" using sc by (auto simp: n_def scalar_nat)
  have codes: "code c # map code bs = utf8_codes n"
    using AppendUtf8_codes [of cp] n(1) bs by (simp add: n_def)
  have m: "n mod 64 < 64" "n div 64 mod 64 < 64" "n div 4096 mod 64 < 64" by simp_all
  consider "n \<le> 127" | "127 < n" "n \<le> 2047" | "2047 < n" "n \<le> 65535" | "65535 < n" by linarith
  then show ?thesis
  proof cases
    case 1
    with codes have "code c = n" "bs = []" by (auto simp: utf8_codes_def)
    with 1 n(2) show ?thesis by (simp add: Decode_cases)
  next
    case 2
    with codes obtain c1 where c: "code c = 192 + n div 64" "bs = [c1]" "code c1 = 128 + n mod 64"
      by (auto simp: utf8_codes_def)
    have p: "2 \<le> n div 64" "n div 64 < 32" using 2 div_le_mono [of 128 n 64] by (simp_all add: less_mult_imp_div_less)
    then have l: "code c mod 32 = n div 64" using c(1) lead_value(1) by simp
    have "continuation (Suc 0) (of_nat (n div 64)) (c1 # rest) = Some (cp, rest)"
      using continuation_do [OF _ c(3) m(1), of "n div 64" 0 rest] p compose64(1) [of n] n(2) by simp
    then show ?thesis using c p l sc 2 by (simp add: Decode_cases finish_def n_def [symmetric] del: continuation.simps)
  next
    case 3
    with codes obtain c1 c2 where c: "code c = 224 + n div 4096" "bs = [c1, c2]" "code c1 = 128 + n div 64 mod 64"
      "code c2 = 128 + n mod 64"
      by (auto simp: utf8_codes_def)
    have p: "n div 4096 < 16" using 3 by (simp add: less_mult_imp_div_less)
    then have l: "code c mod 16 = n div 4096" using c(1) lead_value(2) by simp
    have "continuation (Suc (Suc 0)) (of_nat (n div 4096)) (c1 # c2 # rest) = Some (cp, rest)"
      by (subst continuation_do [OF _ c(3) m(2)], use p in simp, subst continuation_do [OF _ c(4) m(1)], use p m in simp)
        (simp only: compose64(2) n(2) continuation.simps(1))
    then show ?thesis using c p l sc 3
      by (simp add: Decode_cases finish_def n_def [symmetric] numeral_2_eq_2 del: continuation.simps)
  next
    case 4
    with codes obtain c1 c2 c3 where c: "code c = 240 + n div 262144" "bs = [c1, c2, c3]" "code c1 = 128 + n div 4096 mod 64"
      "code c2 = 128 + n div 64 mod 64" "code c3 = 128 + n mod 64"
      by (auto simp: utf8_codes_def)
    have p: "n div 262144 < 5" using n(1) by (simp add: less_mult_imp_div_less)
    then have l: "code c mod 8 = n div 262144" using c(1) lead_value(3) by simp
    have "continuation (Suc (Suc (Suc 0))) (of_nat (n div 262144)) (c1 # c2 # c3 # rest) = Some (cp, rest)"
      by (subst continuation_do [OF _ c(3) m(3)], use p in simp, subst continuation_do [OF _ c(4) m(2)], use p m in simp,
          subst continuation_do [OF _ c(5) m(1)], use p m in simp)
        (simp only: compose64(3) n(2) continuation.simps(1))
    then show ?thesis using c p l sc 4
      by (simp add: Decode_cases finish_def n_def [symmetric] numeral_3_eq_3 del: continuation.simps)
  qed
qed

lemma AppendUtf8_nonempty: "AppendUtf8 cp \<noteq> []"
  by (simp add: AppendUtf8_def)

text \<open>The encoder, where \<open>wchar_t\<close> has 32 bits.\<close>

lemma encoder_exact: "WStringToString False ws = (if list_all scalar ws then Some (concat (map AppendUtf8 ws)) else None)"
  by (induction ws) (auto simp: scalar_def)

text \<open>C33: The UTF-8 decoder accepts exactly the encodings: on a system with 32-bit wide characters it
  turns a byte string into a wide string when the bytes are the concatenated encodings of its code
  points and every one of them is a Unicode scalar value, and fails on every other string (overlong
  forms, surrogates, values past U+10FFFF, cut or stray bytes).\<close>
theorem utf8_decoder_exact:
  "StringToWString False s = Some ws \<longleftrightarrow> s = concat (map AppendUtf8 ws) \<and> list_all scalar ws"
proof (induction ws arbitrary: s)
  case Nil
  have "StringToWString False s = Some [] \<longrightarrow> s = []"
    by (cases s) (auto simp: wide_units_def split: option.splits)
  then show ?case by auto
next
  case (Cons w ws)
  show ?case
  proof
    assume r: "StringToWString False s = Some (w # ws)"
    then obtain c s1 where s: "s = c # s1" by (cases s) auto
    with r obtain rest where d: "DecodeUtf8CodePoint c s1 = Some (w, rest)" "StringToWString False rest = Some ws"
      by (auto simp: wide_units_def split: option.splits)
    with decode_sound [OF d(1)] Cons.IH s show "s = concat (map AppendUtf8 (w # ws)) \<and> list_all scalar (w # ws)" by simp
  next
    assume a: "s = concat (map AppendUtf8 (w # ws)) \<and> list_all scalar (w # ws)"
    obtain c bs where b: "AppendUtf8 w = c # bs" using AppendUtf8_nonempty by (meson list.exhaust)
    have "DecodeUtf8CodePoint c (bs @ concat (map AppendUtf8 ws)) = Some (w, concat (map AppendUtf8 ws))"
      using a b by (intro decode_complete) auto
    with a b Cons.IH show "StringToWString False s = Some (w # ws)" by (simp add: wide_units_def)
  qed
qed

end
