(* ===== verification/Fiber.thy ===== *)
theory Fiber
  imports Prelude
begin

text \<open>
  Fibers (include/droplet/fiber/fiber.h, src/fiber/fiber.cc): creation and stack sizes, reset, and the
  switches between a fiber and the one that resumed it.  The state is one thread with the fibers it
  runs, by address.  A fiber context is the point where a stack was left: the entry laid out by
  \<open>make_fcontext\<close>, a fiber waiting inside \<open>resume\<close> or inside \<open>yield_to\<close>, or the end of \<open>run\<close>;
  \<open>jump_fcontext\<close> saves the running stack as such a point, hands it to the target and continues there.
  \<open>None\<close> is a failed assertion (or \<open>std::abort\<close>).  The code a fiber runs is the environment: it
  chooses the next call.
\<close>

section \<open>Fibers and threads\<close>

datatype fiber_state = INIT | HOLD | EXEC | TERM' | READY | EXCEPT

datatype fcontext =
    Entry nat
  | In_resume nat nat
  | In_yield nat
  | Finished nat

primrec owner :: "fcontext \<Rightarrow> nat" where
  "owner (Entry p) = p"
| "owner (In_resume q p) = q"
| "owner (In_yield p) = p"
| "owner (Finished p) = p"

record ('c, 'e) fiber =
  fb_id :: u64
  fb_stack_size :: u32
  fb_stack :: bool
  fb_cb :: "'c option"
  fb_state :: fiber_state
  fb_ctx :: "fcontext option"
  fb_back_ctx :: "fcontext option"
  fb_exception :: "'e option"

text \<open>\<open>th_running\<close> is the fiber whose stack the processor is on (\<open>None\<close>: the thread's own stack, before
  it has a main fiber); the code does not store it.  A destroyed fiber leaves \<open>None\<close> at its address.\<close>

record ('c, 'e) thread =
  th_fibers :: "('c, 'e) fiber option list"
  th_cur :: "nat option"
  th_cur_holder :: "nat option"
  th_running :: "nat option"
  s_fiber_id :: u64
  s_fiber_count :: u64

definition kDefaultStackSize :: u32 where "kDefaultStackSize = 128 * 1024"
definition kMinStackSize :: u32 where "kMinStackSize = 16 * 1024"
definition kStackAlign :: u32 where "kStackAlign = 64"

definition new_thread :: "('c, 'e) thread" where
  "new_thread = \<lparr> th_fibers = [], th_cur = None, th_cur_holder = None, th_running = None,
     s_fiber_id = 0, s_fiber_count = 0 \<rparr>"

definition the_fiber :: "('c, 'e) thread \<Rightarrow> nat \<Rightarrow> ('c, 'e) fiber" where
  "the_fiber s p = the (th_fibers s ! p)"

definition alive :: "('c, 'e) thread \<Rightarrow> nat \<Rightarrow> bool" where
  "alive s p \<longleftrightarrow> p < length (th_fibers s) \<and> th_fibers s ! p \<noteq> None"

definition set_fiber :: "nat \<Rightarrow> ('c, 'e) fiber \<Rightarrow> ('c, 'e) thread \<Rightarrow> ('c, 'e) thread" where
  "set_fiber p f s = s\<lparr> th_fibers := (th_fibers s)[p := Some f] \<rparr>"

abbreviation state_of :: "('c, 'e) thread \<Rightarrow> nat \<Rightarrow> fiber_state" where
  "state_of s p \<equiv> fb_state (the_fiber s p)"

section \<open>Creation and reset\<close>

text \<open>The constructor of the main fiber.\<close>

definition main_fiber :: "('c, 'e) fiber" where
  "main_fiber = \<lparr> fb_id = 0, fb_stack_size = 0, fb_stack = False, fb_cb = None, fb_state = EXEC,
     fb_ctx = None, fb_back_ctx = None, fb_exception = None \<rparr>"

definition GetThis :: "('c, 'e) thread \<Rightarrow> nat \<times> ('c, 'e) thread" where
  "GetThis s =
     (case th_cur s of
        Some p \<Rightarrow> (p, s)
      | None \<Rightarrow> let p = length (th_fibers s)
                in (p, s\<lparr> th_fibers := th_fibers s @ [Some main_fiber], th_cur := Some p,
                          th_cur_holder := Some p, th_running := Some p,
                          s_fiber_count := s_fiber_count s + 1 \<rparr>))"

definition GetFiberId :: "('c, 'e) thread \<Rightarrow> u64" where
  "GetFiberId s = (case th_cur s of Some p \<Rightarrow> fb_id (the_fiber s p) | None \<Rightarrow> 0)"

text \<open>\<open>configured\<close> is the value of the variable fiber.stack_size, when it is registered.\<close>

definition stack_size_for :: "u32 option \<Rightarrow> u32 \<Rightarrow> u32" where
  "stack_size_for configured stack_size =
     (let size = (if stack_size \<noteq> 0 then stack_size
                  else case configured of Some v \<Rightarrow> v | None \<Rightarrow> kDefaultStackSize);
          size = (if size < kMinStackSize then kMinStackSize else size)
      in (size + kStackAlign - 1) AND NOT (kStackAlign - 1))"

text \<open>The constructor: \<open>alloc\<close> tells whether \<open>std::aligned_alloc\<close> returns a stack.  \<open>None\<close> is
  \<open>std::bad_alloc\<close>, thrown after both counters have moved.\<close>

definition Create ::
  "u32 option \<Rightarrow> (u32 \<Rightarrow> bool) \<Rightarrow> 'c option \<Rightarrow> u32 \<Rightarrow> ('c, 'e) thread \<Rightarrow> nat option \<times> ('c, 'e) thread" where
  "Create configured alloc cb stack_size s =
     (let s1 = s\<lparr> s_fiber_id := s_fiber_id s + 1, s_fiber_count := s_fiber_count s + 1 \<rparr>;
          size = stack_size_for configured stack_size;
          p = length (th_fibers s)
      in if \<not> alloc size then (None, s1)
         else (Some p, s1\<lparr> th_fibers := th_fibers s @
                [Some \<lparr> fb_id = s_fiber_id s + 1, fb_stack_size = size, fb_stack = True, fb_cb = cb,
                        fb_state = INIT, fb_ctx = Some (Entry p), fb_back_ctx = None,
                        fb_exception = None \<rparr>] \<rparr>))"

definition Fiber_reset :: "'c option \<Rightarrow> nat \<Rightarrow> ('c, 'e) thread \<Rightarrow> ('c, 'e) thread option" where
  "Fiber_reset cb p s =
     (let f = the_fiber s p
      in if \<not> fb_stack f then None
         else if fb_state f \<notin> {INIT, TERM', EXCEPT} then None
         else Some (set_fiber p (f\<lparr> fb_cb := cb, fb_exception := None, fb_ctx := Some (Entry p),
                                    fb_state := INIT \<rparr>) s))"

text \<open>The destructor.\<close>

definition Fiber_destroy :: "nat \<Rightarrow> ('c, 'e) thread \<Rightarrow> ('c, 'e) thread option" where
  "Fiber_destroy p s =
     (let f = the_fiber s p;
          s1 = s\<lparr> s_fiber_count := s_fiber_count s - 1 \<rparr>;
          gone = (\<lambda>s. s\<lparr> th_fibers := (th_fibers s)[p := None] \<rparr>)
      in if fb_stack f
         then if fb_state f \<in> {TERM', EXCEPT, INIT} then Some (gone s1) else None
         else if th_cur s = Some p then Some (gone (s1\<lparr> th_cur := None \<rparr>))
         else Some (gone s1))"

section \<open>Switching\<close>

definition SetThis :: "nat \<Rightarrow> ('c, 'e) thread \<Rightarrow> ('c, 'e) thread" where
  "SetThis p s = s\<lparr> th_cur_holder := Some p, th_cur := Some p \<rparr>"

text \<open>\<open>jump from to s\<close>: the running stack is left at \<open>from\<close> and \<open>to\<close> goes on with the code after its
  own jump: \<open>entry\<close> and the first line of \<open>run\<close> on a fresh stack, the last two lines of \<open>resume\<close>, the
  last line of \<open>yield_to\<close>; a jump back into a finished \<open>run\<close> reaches \<open>std::abort\<close>.\<close>

definition jump :: "fcontext \<Rightarrow> fcontext \<Rightarrow> ('c, 'e) thread \<Rightarrow> ('c, 'e) thread option" where
  "jump from_ctx to_ctx s =
     (let s = s\<lparr> th_running := Some (owner to_ctx) \<rparr>
      in case to_ctx of
           Entry p \<Rightarrow> Some (set_fiber p ((the_fiber s p)\<lparr> fb_back_ctx := Some from_ctx, fb_state := EXEC \<rparr>) s)
         | In_resume q p \<Rightarrow> Some (SetThis q (set_fiber p ((the_fiber s p)\<lparr> fb_ctx := Some from_ctx \<rparr>) s))
         | In_yield p \<Rightarrow> Some (set_fiber p ((the_fiber s p)\<lparr> fb_back_ctx := Some from_ctx \<rparr>) s)
         | Finished p \<Rightarrow> None)"

definition resume :: "nat \<Rightarrow> ('c, 'e) thread \<Rightarrow> ('c, 'e) thread option" where
  "resume p s =
     (let (prev, s) = GetThis s
      in if prev = p then None
         else if state_of s p = EXEC then None
         else if state_of s p = TERM' \<or> state_of s p = EXCEPT then None
         else let s = SetThis p s;
                  s = set_fiber p ((the_fiber s p)\<lparr> fb_state := EXEC \<rparr>) s
              in case fb_ctx (the_fiber s p) of
                   None \<Rightarrow> None
                 | Some ctx \<Rightarrow> jump (In_resume prev p) ctx s)"

definition yield_to :: "fiber_state \<Rightarrow> ('c, 'e) thread \<Rightarrow> ('c, 'e) thread option" where
  "yield_to state s =
     (let (curr, s) = GetThis s
      in if \<not> fb_stack (the_fiber s curr) then None
         else if state_of s curr \<noteq> EXEC then None
         else let s = set_fiber curr ((the_fiber s curr)\<lparr> fb_state := state \<rparr>) s
              in case fb_back_ctx (the_fiber s curr) of
                   None \<Rightarrow> None
                 | Some ctx \<Rightarrow> jump (In_yield curr) ctx s)"

definition yield_to_hold :: "('c, 'e) thread \<Rightarrow> ('c, 'e) thread option" where
  "yield_to_hold = yield_to HOLD"

definition yield_to_ready :: "('c, 'e) thread \<Rightarrow> ('c, 'e) thread option" where
  "yield_to_ready = yield_to READY"

text \<open>The end of \<open>run\<close> of fiber \<open>p\<close>: \<open>thrown\<close> is the exception the callback ended with, if any.\<close>

definition run_end :: "'e option \<Rightarrow> nat \<Rightarrow> ('c, 'e) thread \<Rightarrow> ('c, 'e) thread option" where
  "run_end thrown p s =
     (let f = the_fiber s p;
          f = (case thrown of
                 None \<Rightarrow> f
               | Some e \<Rightarrow> f\<lparr> fb_exception := Some e, fb_state := EXCEPT \<rparr>);
          f = f\<lparr> fb_cb := None \<rparr>;
          f = (if fb_state f = EXEC then f\<lparr> fb_state := TERM' \<rparr> else f)
      in case fb_back_ctx f of
           None \<Rightarrow> None
         | Some ctx \<Rightarrow> jump (Finished p) ctx (set_fiber p f s))"

section \<open>Stack sizes\<close>

lemma u32_less: "unat (w :: u32) < 4294967296"
proof -
  have "unat w < 2 ^ LENGTH(32)" by (rule unsigned_less)
  then show ?thesis by simp
qed

lemma mask_off_low:
  fixes w :: u32
  shows "unat (w AND - 64) = unat w div 64 * 64"
proof -
  have "w AND - 64 = w AND NOT 63" by simp
  moreover have "w AND NOT 63 = push_bit 6 (drop_bit 6 w)"
    by (rule bit_word_eqI)
       (auto simp: bit_simps mask_eq_exp_minus_1 [of 6, where 'a = "32 word", simplified, symmetric])
  moreover have "unat (push_bit 6 (drop_bit 6 w)) = unat w div 64 * 64"
  proof -
    have "unat (drop_bit 6 w) = unat w div 64" 
      unfolding unat_drop_bit_eq by (simp add: drop_bit_eq_div)
    moreover have "unat w div 64 * 64 < 2 ^ 32"
      using order_le_less_trans [OF div_times_less_eq_dividend [of "unat w" 64] u32_less [of w]] by simp
    ultimately show ?thesis by (simp add: push_bit_eq_mult unat_word_ariths)
  qed
  ultimately show ?thesis by simp
qed

lemma stack_size_for_unat:
  fixes n :: u32 and configured :: "u32 option"
  defines "z \<equiv> max (unat (if n \<noteq> 0 then n else case configured of Some v \<Rightarrow> v | None \<Rightarrow> 128 * 1024)) 16384"
  shows "unat (stack_size_for configured n) = (if z + 63 < 2 ^ 32 then (z + 63) div 64 * 64 else 0)"
proof -
  define w where "w = (if n \<noteq> 0 then n else case configured of Some v \<Rightarrow> v | None \<Rightarrow> 128 * 1024)"
  define v where "v = (if w < 16 * 1024 then 16 * 1024 else w)"
  have v: "unat v = z"
    by (auto simp: v_def z_def w_def [symmetric] word_less_nat_alt max_def)
  have "stack_size_for configured n = (v + 63) AND NOT 63"
    by (auto simp: stack_size_for_def Let_def v_def w_def kDefaultStackSize_def kMinStackSize_def
        kStackAlign_def add.commute split: option.splits)
  moreover have "unat (v + 63) = (z + 63) mod 2 ^ 32" by (simp add: unat_word_ariths v)
  moreover have "z < 2 ^ 32" using v u32_less [of v] by simp
  moreover have "(z + 63) mod 2 ^ 32 div 64 = 0" if "\<not> z + 63 < 2 ^ 32" "z < 2 ^ 32"
  proof -
    have "(z + 63) mod 2 ^ 32 = z + 63 - 2 ^ 32"
      using that by (simp add: mod_if)
    then show ?thesis using that by simp
  qed
  ultimately show ?thesis by (simp add: mask_off_low)
qed

section \<open>Steps of a thread\<close>

lemma set_fiber_simps [simp]:
  "th_cur (set_fiber p f s) = th_cur s" "th_cur_holder (set_fiber p f s) = th_cur_holder s"
  "th_running (set_fiber p f s) = th_running s" "length (th_fibers (set_fiber p f s)) = length (th_fibers s)"
  "alive s p \<Longrightarrow> alive (set_fiber p f s) q = alive s q"
  "alive s p \<Longrightarrow> the_fiber (set_fiber p f s) q = (if q = p then f else the_fiber s q)"
  by (auto simp: set_fiber_def the_fiber_def alive_def nth_list_update)

lemma thread_update_simps [simp]:
  "alive (th_running_update g s) = alive s" "the_fiber (th_running_update g s) = the_fiber s"
  "alive (SetThis q s) = alive s" "the_fiber (SetThis q s) = the_fiber s"
  "th_cur (SetThis q s) = Some q" "th_cur_holder (SetThis q s) = Some q" "th_running (SetThis q s) = th_running s"
  by (auto simp: alive_def the_fiber_def SetThis_def fun_eq_iff)

text \<open>A fiber some frame or the thread itself keeps alive: the current one, and each one waiting in
  \<open>resume\<close> of a fiber that is executing.\<close>

definition held :: "('c, 'e) thread \<Rightarrow> nat \<Rightarrow> bool" where
  "held s p \<longleftrightarrow> th_cur_holder s = Some p \<or>
     (\<exists>r < length (th_fibers s). alive s r \<and> state_of s r = EXEC \<and> fb_back_ctx (the_fiber s r) = Some (In_resume p r))"

inductive fiber_step :: "('c, 'e) thread \<Rightarrow> ('c, 'e) thread \<Rightarrow> bool" where
  get_this: "fiber_step s (snd (GetThis s))"
| create: "fiber_step s (snd (Create configured alloc cb n s))"
| reset: "alive s p \<Longrightarrow> Fiber_reset cb p s = Some s' \<Longrightarrow> fiber_step s s'"
| destroy: "alive s p \<Longrightarrow> \<not> held s p \<Longrightarrow> Fiber_destroy p s = Some s' \<Longrightarrow> fiber_step s s'"
| resume: "alive s p \<Longrightarrow> resume p s = Some s' \<Longrightarrow> fiber_step s s'"
| yield: "st = HOLD \<or> st = READY \<Longrightarrow> yield_to st s = Some s' \<Longrightarrow> fiber_step s s'"
| finish: "th_running s = Some p \<Longrightarrow> fb_stack (the_fiber s p) \<Longrightarrow> run_end thrown p s = Some s' \<Longrightarrow> fiber_step s s'"

inductive fiber_reach :: "('c, 'e) thread \<Rightarrow> bool" where
  "fiber_reach new_thread"
| "fiber_reach s \<Longrightarrow> fiber_step s s' \<Longrightarrow> fiber_reach s'"

text \<open>The fibers below the current one: each was resumed by the next, down to the main fiber.\<close>

primrec resume_chain :: "('c, 'e) thread \<Rightarrow> nat \<Rightarrow> nat list \<Rightarrow> bool" where
  "resume_chain s p [] \<longleftrightarrow> \<not> fb_stack (the_fiber s p)"
| "resume_chain s p (q # qs) \<longleftrightarrow> fb_stack (the_fiber s p) \<and>
     fb_back_ctx (the_fiber s p) = Some (In_resume q p) \<and> resume_chain s q qs"

definition parked :: "nat \<Rightarrow> ('c, 'e) fiber \<Rightarrow> bool" where
  "parked p f \<longleftrightarrow> fb_stack f \<and>
     (case fb_state f of
        INIT \<Rightarrow> fb_ctx f = Some (Entry p)
      | HOLD \<Rightarrow> fb_ctx f = Some (In_yield p)
      | READY \<Rightarrow> fb_ctx f = Some (In_yield p)
      | TERM' \<Rightarrow> fb_ctx f = Some (Finished p)
      | EXCEPT \<Rightarrow> fb_ctx f = Some (Finished p)
      | EXEC \<Rightarrow> False)"

definition on_chain :: "('c, 'e) thread \<Rightarrow> nat list \<Rightarrow> bool" where
  "on_chain s ps \<longleftrightarrow> distinct ps \<and> (\<forall>p \<in> set ps. alive s p \<and> state_of s p = EXEC) \<and>
     (\<forall>p. alive s p \<longrightarrow> p \<notin> set ps \<longrightarrow> parked p (the_fiber s p)) \<and>
     (case ps of
        [] \<Rightarrow> th_cur s = None \<and> th_cur_holder s = None \<and> th_running s = None
      | p # qs \<Rightarrow> th_cur s = Some p \<and> th_cur_holder s = Some p \<and> th_running s = Some p \<and> resume_chain s p qs)"

definition fiber_inv :: "('c, 'e) thread \<Rightarrow> bool" where
  "fiber_inv s \<longleftrightarrow> (\<exists>ps. on_chain s ps)"

lemma resume_chain_cong:
  "(\<And>q. q \<in> set (p # qs) \<Longrightarrow> the_fiber s' q = the_fiber s q) \<Longrightarrow> resume_chain s' p qs = resume_chain s p qs"
  by (induction qs arbitrary: p) simp_all

lemma on_chain_transfer:
  assumes "on_chain s ps" "th_cur s' = th_cur s" "th_cur_holder s' = th_cur_holder s" "th_running s' = th_running s"
    and same: "\<And>q. q \<in> set ps \<Longrightarrow> alive s' q \<and> the_fiber s' q = the_fiber s q"
    and parked: "\<And>q. alive s' q \<Longrightarrow> q \<notin> set ps \<Longrightarrow> parked q (the_fiber s' q)"
  shows "on_chain s' ps"
proof -
  have "resume_chain s' q qs = resume_chain s q qs" if "ps = q # qs" for q qs
    using same that by (intro resume_chain_cong) auto
  with assms(1-4) same parked show ?thesis
    unfolding on_chain_def by (auto split: list.splits)
qed

lemma parked_state: "parked p f \<Longrightarrow> fb_stack f \<and> fb_state f \<noteq> EXEC"
  by (auto simp: parked_def)

lemma GetThis_alive:
  "alive s q \<Longrightarrow> alive (snd (GetThis s)) q \<and> the_fiber (snd (GetThis s)) q = the_fiber s q"
  by (auto simp: GetThis_def Let_def alive_def the_fiber_def nth_append split: option.splits)

lemma GetThis_chain:
  assumes "on_chain s ps" "GetThis s = (p, s')"
  obtains qs where "on_chain s' (p # qs)" "ps \<noteq> [] \<Longrightarrow> s' = s \<and> ps = p # qs"
    "ps = [] \<Longrightarrow> qs = [] \<and> p = length (th_fibers s)"
proof (cases ps)
  case Nil
  with assms have cur: "th_cur s = None" and pk: "\<And>q. alive s q \<Longrightarrow> parked q (the_fiber s q)"
    by (auto simp: on_chain_def)
  from cur assms(2) have s': "p = length (th_fibers s)" "th_fibers s' = th_fibers s @ [Some main_fiber]"
      "th_cur s' = Some p" "th_cur_holder s' = Some p" "th_running s' = Some p"
    by (auto simp: GetThis_def Let_def)
  then have p: "alive s' p" "the_fiber s' p = main_fiber"
    by (simp_all add: alive_def the_fiber_def)
  have "alive s q \<and> the_fiber s' q = the_fiber s q" if "alive s' q" "q \<noteq> p" for q
    using that s' by (auto simp: alive_def the_fiber_def nth_append split: if_splits)
  with pk have "parked q (the_fiber s' q)" if "alive s' q" "q \<noteq> p" for q
    using that by simp
  then have "on_chain s' [p]"
    using s' p by (auto simp: on_chain_def main_fiber_def)
  with Nil s'(1) that show thesis by blast
next
  case (Cons r qs)
  with assms have "p = r" "s' = s" by (auto simp: on_chain_def GetThis_def)
  with Cons assms(1) that show thesis by blast
qed

lemma fiber_update_swap: "f\<lparr> fb_back_ctx := b, fb_state := st \<rparr> = f\<lparr> fb_state := st, fb_back_ctx := b \<rparr>"
  by (cases f) simp

lemma resume_cases:
  assumes inv: "on_chain s ps" and p: "alive s p" and r: "resume p s = Some s'"
  obtains c qs s1 f where "GetThis s = (c, s1)" "on_chain s1 (c # qs)" "p \<notin> set (c # qs)" "alive s1 p"
    "the_fiber s1 p = the_fiber s p" "state_of s p \<in> {INIT, HOLD, READY}"
    "s' = (SetThis p s1)\<lparr> th_running := Some p, th_fibers := (th_fibers s1)[p := Some f] \<rparr>"
    "f = (the_fiber s p)\<lparr> fb_state := EXEC, fb_back_ctx := Some (In_resume c p) \<rparr>"
proof -
  obtain c s1 where g: "GetThis s = (c, s1)" by fastforce
  obtain qs where ch: "on_chain s1 (c # qs)" using GetThis_chain [OF inv g] by blast
  have a: "alive s1 p" "the_fiber s1 p = the_fiber s p" using GetThis_alive [OF p] g by auto
  have st: "state_of s1 p \<noteq> EXEC" "state_of s1 p \<noteq> TERM'" "state_of s1 p \<noteq> EXCEPT"
    using r g by (auto simp: resume_def split: if_splits)
  have off: "p \<notin> set (c # qs)" using ch st unfolding on_chain_def by auto
  have pk: "parked p (the_fiber s1 p)" using ch a off by (auto simp: on_chain_def)
  have "s' = (SetThis p s1)\<lparr> th_running := Some p, th_fibers := (th_fibers s1)[p := Some
      ((the_fiber s p)\<lparr> fb_state := EXEC, fb_back_ctx := Some (In_resume c p) \<rparr>)] \<rparr>"
    using r g a pk st
    by (cases "state_of s1 p")
       (auto simp: resume_def jump_def parked_def set_fiber_def SetThis_def the_fiber_def alive_def fiber_update_swap
         split: if_splits)
  moreover have "state_of s p \<in> {INIT, HOLD, READY}" using st a by (cases "state_of s p") auto
  ultimately show thesis using that g ch off a by blast
qed

lemma fiber_updates_alive:
  assumes "alive s p" "s' = (SetThis q s)\<lparr> th_running := r, th_fibers := (th_fibers s)[p := Some f] \<rparr>"
  shows "alive s' x = alive s x" "the_fiber s' x = (if x = p then f else the_fiber s x)"
    "th_cur s' = Some q" "th_cur_holder s' = Some q" "th_running s' = r"
  using assms by (auto simp: alive_def the_fiber_def nth_list_update SetThis_def)

lemma resume_keeps:
  assumes inv: "on_chain s ps" and p: "alive s p" and r: "resume p s = Some s'"
  obtains c qs where "on_chain s' (p # c # qs)" "fst (GetThis s) = c"
proof -
  obtain c qs s1 f where g: "GetThis s = (c, s1)" and ch: "on_chain s1 (c # qs)" and off: "p \<notin> set (c # qs)"
    and a: "alive s1 p" "the_fiber s1 p = the_fiber s p"
    and s': "s' = (SetThis p s1)\<lparr> th_running := Some p, th_fibers := (th_fibers s1)[p := Some f] \<rparr>"
    and f: "f = (the_fiber s p)\<lparr> fb_state := EXEC, fb_back_ctx := Some (In_resume c p) \<rparr>"
    by (rule resume_cases [OF inv p r])
  note u = fiber_updates_alive [OF a(1) s']
  have st: "fb_stack (the_fiber s1 p)" using ch a off by (auto simp: on_chain_def parked_def)
  have "resume_chain s' c qs = resume_chain s1 c qs"
    using off by (intro resume_chain_cong) (auto simp: u(2))
  with ch off a st f have "on_chain s' (p # c # qs)"
    unfolding on_chain_def by (auto simp: u)
  with g show thesis using that by simp
qed

text \<open>Leaving the current fiber, by a yield or at its end: control goes back into \<open>resume\<close> of the
  fiber that resumed it.\<close>

lemma leave_keeps:
  assumes ch: "on_chain s (p # qs)" and st: "fb_stack (the_fiber s p)" "fb_back_ctx f = fb_back_ctx (the_fiber s p)"
    and park: "parked p (f\<lparr> fb_ctx := Some from_ctx \<rparr>)"
  obtains q qs' where "qs = q # qs'" "fb_back_ctx f = Some (In_resume q p)"
    "jump from_ctx (In_resume q p) (set_fiber p f s) =
       Some ((SetThis q s)\<lparr> th_running := Some q, th_fibers := (th_fibers s)[p := Some (f\<lparr> fb_ctx := Some from_ctx \<rparr>)] \<rparr>)"
    "on_chain ((SetThis q s)\<lparr> th_running := Some q, th_fibers := (th_fibers s)[p := Some (f\<lparr> fb_ctx := Some from_ctx \<rparr>)] \<rparr>) (q # qs')"
proof -
  obtain q qs' where q: "qs = q # qs'" "fb_back_ctx (the_fiber s p) = Some (In_resume q p)"
    using ch st(1) by (cases qs) (auto simp: on_chain_def)
  have a: "alive s p" using ch by (simp add: on_chain_def)
  define s' where "s' = (SetThis q s)\<lparr> th_running := Some q, th_fibers := (th_fibers s)[p := Some (f\<lparr> fb_ctx := Some from_ctx \<rparr>)] \<rparr>"
  note u = fiber_updates_alive [OF a s'_def]
  have off: "p \<notin> set (q # qs')" using ch q by (simp add: on_chain_def)
  have "resume_chain s' q qs' = resume_chain s q qs'"
    using off by (intro resume_chain_cong) (auto simp: u(2))
  with ch q off park have "on_chain s' (q # qs')"
    unfolding on_chain_def by (auto simp: u)
  moreover have "jump from_ctx (In_resume q p) (set_fiber p f s) = Some s'"
    using a by (auto simp: jump_def s'_def SetThis_def set_fiber_def the_fiber_def alive_def)
  ultimately show thesis using that q st(2) unfolding s'_def by simp
qed

lemma yield_keeps:
  assumes ch: "on_chain s ps" and y: "yield_to st s = Some s'" and st: "st = HOLD \<or> st = READY"
  obtains p q qs f where "ps = p # q # qs" "on_chain s' (q # qs)" "state_of s p = EXEC"
    "f = (the_fiber s p)\<lparr> fb_state := st, fb_ctx := Some (In_yield p) \<rparr>"
    "s' = (SetThis q s)\<lparr> th_running := Some q, th_fibers := (th_fibers s)[p := Some f] \<rparr>"
proof -
  obtain p s1 where g: "GetThis s = (p, s1)" by fastforce
  obtain rs where ch1: "on_chain s1 (p # rs)" and e: "ps \<noteq> [] \<Longrightarrow> s1 = s \<and> ps = p # rs"
    and n: "ps = [] \<Longrightarrow> rs = []"
    using GetThis_chain [OF ch g] by metis
  have stk: "fb_stack (the_fiber s1 p)" using y g by (auto simp: yield_to_def split: if_splits)
  then have ne: "ps \<noteq> []" using n ch1 by (auto simp: on_chain_def)
  then have s1: "s1 = s" "ps = p # rs" using e by auto
  have a: "alive s p" "state_of s p = EXEC" using ch s1 by (auto simp: on_chain_def)
  define f where "f = (the_fiber s p)\<lparr> fb_state := st \<rparr>"
  have "parked p (f\<lparr> fb_ctx := Some (In_yield p) \<rparr>)" using st stk s1 by (auto simp: parked_def f_def)
  then obtain q qs where q: "rs = q # qs" "fb_back_ctx f = Some (In_resume q p)"
    "jump (In_yield p) (In_resume q p) (set_fiber p f s) =
       Some ((SetThis q s)\<lparr> th_running := Some q, th_fibers := (th_fibers s)[p := Some (f\<lparr> fb_ctx := Some (In_yield p) \<rparr>)] \<rparr>)"
    "on_chain ((SetThis q s)\<lparr> th_running := Some q, th_fibers := (th_fibers s)[p := Some (f\<lparr> fb_ctx := Some (In_yield p) \<rparr>)] \<rparr>) (q # qs)"
    using leave_keeps [OF ch [unfolded s1(2)], of f "In_yield p"] stk s1 by (auto simp: f_def)
  have "s' = (SetThis q s)\<lparr> th_running := Some q, th_fibers := (th_fibers s)[p := Some (f\<lparr> fb_ctx := Some (In_yield p) \<rparr>)] \<rparr>"
    using y g s1 a q(2,3) stk by (simp add: yield_to_def f_def [symmetric])
  with that s1 q a show thesis by (simp add: f_def)
qed

lemma finish_keeps:
  assumes ch: "on_chain s ps" and p: "th_running s = Some p" "fb_stack (the_fiber s p)"
    and e: "run_end thrown p s = Some s'"
  obtains q qs f where "ps = p # q # qs" "on_chain s' (q # qs)" "state_of s p = EXEC"
    "fb_state f = (if thrown = None then TERM' else EXCEPT)" "fb_cb f = None" "fb_ctx f = Some (Finished p)"
    "s' = (SetThis q s)\<lparr> th_running := Some q, th_fibers := (th_fibers s)[p := Some f] \<rparr>"
proof -
  obtain rs where ps: "ps = p # rs" using ch p by (cases ps) (auto simp: on_chain_def)
  have a: "alive s p" "state_of s p = EXEC" using ch ps by (auto simp: on_chain_def)
  define f where "f = (case thrown of
      None \<Rightarrow> (the_fiber s p)\<lparr> fb_cb := None, fb_state := TERM' \<rparr>
    | Some x \<Rightarrow> (the_fiber s p)\<lparr> fb_exception := Some x, fb_state := EXCEPT, fb_cb := None \<rparr>)"
  have f: "fb_back_ctx f = fb_back_ctx (the_fiber s p)" "fb_stack f = fb_stack (the_fiber s p)"
    "fb_state f = (if thrown = None then TERM' else EXCEPT)" "fb_cb f = None"
    by (auto simp: f_def split: option.splits)
  have r: "run_end thrown p s = (case fb_back_ctx f of None \<Rightarrow> None | Some ctx \<Rightarrow> jump (Finished p) ctx (set_fiber p f s))"
    using a by (auto simp: run_end_def Let_def f_def split: option.splits)
  have "parked p (f\<lparr> fb_ctx := Some (Finished p) \<rparr>)" using f p by (simp add: parked_def)
  then obtain q qs where q: "rs = q # qs" "fb_back_ctx f = Some (In_resume q p)"
    "jump (Finished p) (In_resume q p) (set_fiber p f s) =
       Some ((SetThis q s)\<lparr> th_running := Some q, th_fibers := (th_fibers s)[p := Some (f\<lparr> fb_ctx := Some (Finished p) \<rparr>)] \<rparr>)"
    "on_chain ((SetThis q s)\<lparr> th_running := Some q, th_fibers := (th_fibers s)[p := Some (f\<lparr> fb_ctx := Some (Finished p) \<rparr>)] \<rparr>) (q # qs)"
    using leave_keeps [OF ch [unfolded ps] p(2) f(1)] by metis
  with e r have "s' = (SetThis q s)\<lparr> th_running := Some q, th_fibers := (th_fibers s)[p := Some (f\<lparr> fb_ctx := Some (Finished p) \<rparr>)] \<rparr>"
    by simp
  then show thesis using that [of q qs "f\<lparr> fb_ctx := Some (Finished p) \<rparr>"] ps q f a by simp
qed

lemma chain_held:
  "resume_chain s p qs \<Longrightarrow> \<forall>q \<in> set (p # qs). alive s q \<and> state_of s q = EXEC \<Longrightarrow> q \<in> set qs \<Longrightarrow> held s q"
proof (induction qs arbitrary: p)
  case (Cons r qs)
  then show ?case
  proof (cases "q = r")
    case True
    with Cons.prems show ?thesis unfolding held_def by (auto simp: alive_def intro!: exI [of _ p])
  qed (use Cons in auto)
qed simp

lemma destroy_keeps:
  assumes ch: "on_chain s ps" and p: "alive s p" "\<not> held s p" and d: "Fiber_destroy p s = Some s'"
  shows "on_chain s' ps \<and> state_of s p \<in> {INIT, TERM', EXCEPT} \<and> (\<forall>q. q \<noteq> p \<longrightarrow> the_fiber s' q = the_fiber s q)"
proof -
  have off: "p \<notin> set ps"
    using ch p chain_held [of s "hd ps" "tl ps" p] by (cases ps) (auto simp: on_chain_def held_def)
  then have pk: "parked p (the_fiber s p)" using ch p by (simp add: on_chain_def)
  then have st: "state_of s p \<in> {INIT, TERM', EXCEPT}"
    and s': "s' = s\<lparr> s_fiber_count := s_fiber_count s - 1, th_fibers := (th_fibers s)[p := None] \<rparr>"
    using d by (auto simp: Fiber_destroy_def Let_def parked_def split: if_splits)
  have u: "alive s' x = (alive s x \<and> x \<noteq> p)" "x \<noteq> p \<Longrightarrow> the_fiber s' x = the_fiber s x" for x
    using p s' by (auto simp: alive_def the_fiber_def nth_list_update)
  have "alive s q \<and> q \<noteq> p" if "q \<in> set ps" for q using ch off that by (auto simp: on_chain_def)
  with ch s' u have "on_chain s' ps"
    by (intro on_chain_transfer [OF ch]) (auto simp: on_chain_def)
  with st u show ?thesis by simp
qed

lemma reset_keeps:
  assumes ch: "on_chain s ps" and p: "alive s p" and r: "Fiber_reset cb p s = Some s'"
  shows "on_chain s' ps \<and> state_of s p \<in> {INIT, TERM', EXCEPT} \<and> alive s' = alive s \<and>
    (\<forall>q. the_fiber s' q = (if q = p then (the_fiber s p)\<lparr> fb_cb := cb, fb_exception := None,
       fb_ctx := Some (Entry p), fb_state := INIT \<rparr> else the_fiber s q))"
proof -
  define f where "f = (the_fiber s p)\<lparr> fb_cb := cb, fb_exception := None, fb_ctx := Some (Entry p), fb_state := INIT \<rparr>"
  have s': "s' = set_fiber p f s" and st: "state_of s p \<in> {INIT, TERM', EXCEPT}" "fb_stack (the_fiber s p)"
    using r by (auto simp: Fiber_reset_def Let_def f_def split: if_splits)
  have u: "alive s' = alive s" "the_fiber s' q = (if q = p then f else the_fiber s q)" for q
    using p by (auto simp: s' fun_eq_iff)
  have off: "p \<notin> set ps" using ch st(1) by (auto simp: on_chain_def)
  have "parked p f" using st by (simp add: parked_def f_def)
  with ch off have "on_chain s' ps"
    by (intro on_chain_transfer [OF ch]) (auto simp: u, auto simp: s' on_chain_def)
  with u st show ?thesis by (simp add: f_def)
qed

lemma Create_facts:
  assumes "s' = snd (Create configured alloc cb n s)"
  shows "alive s q \<Longrightarrow> alive s' q \<and> the_fiber s' q = the_fiber s q"
    and "alive s' q \<Longrightarrow> \<not> alive s q \<Longrightarrow> fb_state (the_fiber s' q) = INIT \<and> parked q (the_fiber s' q)"
    and "th_cur s' = th_cur s" "th_cur_holder s' = th_cur_holder s" "th_running s' = th_running s"
  using assms
  by (auto simp: Create_def Let_def alive_def the_fiber_def nth_append parked_def less_Suc_eq)

lemma Create_keeps:
  assumes ch: "on_chain s ps"
  shows "on_chain (snd (Create configured alloc cb n s)) ps"
proof -
  note f = Create_facts [OF refl, where s = s and configured = configured and alloc = alloc and cb = cb and n = n]
  have "alive s q" if "q \<in> set ps" for q using ch that by (simp add: on_chain_def)
  moreover have "parked q (the_fiber (snd (Create configured alloc cb n s)) q)"
    if "alive (snd (Create configured alloc cb n s)) q" "q \<notin> set ps" for q
    using ch that f(1,2) [of q] by (cases "alive s q") (auto simp: on_chain_def)
  ultimately show ?thesis by (intro on_chain_transfer [OF ch]) (auto simp: f)
qed

lemma fiber_step_keeps: "fiber_step s s' \<Longrightarrow> fiber_inv s \<Longrightarrow> fiber_inv s'"
proof (induction rule: fiber_step.induct)
  case (get_this s)
  then show ?case by (metis GetThis_chain fiber_inv_def prod.collapse)
next
  case (create s configured alloc cb n)
  then show ?case by (metis Create_keeps fiber_inv_def)
next
  case (reset s p cb s')
  then show ?case by (metis reset_keeps fiber_inv_def)
next
  case (destroy s p s')
  then show ?case by (metis destroy_keeps fiber_inv_def)
next
  case (resume s p s')
  then show ?case by (metis resume_keeps fiber_inv_def)
next
  case (yield st s s')
  then show ?case by (metis yield_keeps fiber_inv_def)
next
  case (finish s p thrown s')
  then show ?case by (metis finish_keeps fiber_inv_def)
qed

lemma fiber_reach_inv: "fiber_reach s \<Longrightarrow> fiber_inv s"
proof (induction rule: fiber_reach.induct)
  case 1
  show ?case by (auto simp: fiber_inv_def on_chain_def new_thread_def alive_def intro!: exI [of _ "[]"])
next
  case (2 s s')
  then show ?case by (blast intro: fiber_step_keeps)
qed

text \<open>The edges of the diagram in fiber.h.\<close>

definition documented_edge :: "fiber_state \<Rightarrow> fiber_state \<Rightarrow> bool" where
  "documented_edge a b \<longleftrightarrow>
     (b = EXEC \<and> a \<in> {INIT, HOLD, READY}) \<or> (a = EXEC \<and> b \<in> {HOLD, READY, TERM', EXCEPT}) \<or>
     (b = INIT \<and> a \<in> {INIT, TERM', EXCEPT})"

lemma step_state:
  assumes inv: "fiber_inv s" and step: "fiber_step s s'" and a: "alive s p"
  shows "if alive s' p then state_of s' p = state_of s p \<or> documented_edge (state_of s p) (state_of s' p)
         else state_of s p \<in> {INIT, TERM', EXCEPT}"
proof -
  obtain ps where ch: "on_chain s ps" using inv by (auto simp: fiber_inv_def)
  from step show ?thesis
  proof cases
    case get_this
    then show ?thesis using GetThis_alive [OF a] by simp
  next
    case (create configured alloc cb n)
    then show ?thesis using Create_facts(1) [OF create a] by simp
  next
    case (reset r cb)
    then show ?thesis using reset_keeps [OF ch reset] a by (auto simp: documented_edge_def)
  next
    case (destroy r)
    then have "alive s' p = (p \<noteq> r)"
      using a by (auto simp: Fiber_destroy_def Let_def alive_def nth_list_update split: if_splits)
    then show ?thesis using destroy_keeps [OF ch destroy] by auto
  next
    case (resume r)
    show ?thesis
    proof (rule resume_cases [OF ch resume])
      fix c qs s1 f
      assume g: "GetThis s = (c, s1)" and s1: "alive s1 r" and st: "state_of s r \<in> {INIT, HOLD, READY}"
        and s': "s' = (SetThis r s1)\<lparr> th_running := Some r, th_fibers := (th_fibers s1)[r := Some f] \<rparr>"
        and f: "f = (the_fiber s r)\<lparr> fb_state := EXEC, fb_back_ctx := Some (In_resume c r) \<rparr>"
      show ?thesis
        using GetThis_alive [OF a] g st f by (auto simp: fiber_updates_alive [OF s1 s'] documented_edge_def)
    qed
  next
    case (yield st)
    show ?thesis
    proof (rule yield_keeps [OF ch yield(2,1)])
      fix r q qs f
      assume ps: "ps = r # q # qs" and r: "state_of s r = EXEC"
        and f: "f = (the_fiber s r)\<lparr> fb_state := st, fb_ctx := Some (In_yield r) \<rparr>"
        and s': "s' = (SetThis q s)\<lparr> th_running := Some q, th_fibers := (th_fibers s)[r := Some f] \<rparr>"
      have "alive s r" using ch ps by (simp add: on_chain_def)
      from fiber_updates_alive [OF this s'] show ?thesis
        using a r f yield(1) by (auto simp: documented_edge_def)
    qed
  next
    case (finish r thrown)
    show ?thesis
    proof (rule finish_keeps [OF ch finish])
      fix q qs f
      assume ps: "ps = r # q # qs" and r: "state_of s r = EXEC"
        and f: "fb_state f = (if thrown = None then TERM' else EXCEPT)"
        and s': "s' = (SetThis q s)\<lparr> th_running := Some q, th_fibers := (th_fibers s)[r := Some f] \<rparr>"
      have "alive s r" using ch ps by (simp add: on_chain_def)
      from fiber_updates_alive [OF this s'] show ?thesis
        using a r f by (auto simp: documented_edge_def)
    qed
  qed
qed

lemma resume_defined:
  assumes ch: "on_chain s ps" and a: "alive s p"
  shows "(resume p s \<noteq> None) = (state_of s p \<in> {INIT, HOLD, READY})"
proof
  assume "resume p s \<noteq> None"
  then show "state_of s p \<in> {INIT, HOLD, READY}" using resume_cases [OF ch a] by (metis option.exhaust)
next
  assume st: "state_of s p \<in> {INIT, HOLD, READY}"
  obtain c s1 where g: "GetThis s = (c, s1)" by fastforce
  then obtain qs where ch1: "on_chain s1 (c # qs)" using GetThis_chain [OF ch] by metis
  have a1: "alive s1 p" "the_fiber s1 p = the_fiber s p" using GetThis_alive [OF a] g by auto
  have off: "p \<notin> set (c # qs)" using ch1 st a1 unfolding on_chain_def by auto
  then have "parked p (the_fiber s p)" using ch1 a1 by (auto simp: on_chain_def)
  then show "resume p s \<noteq> None"
    using g a1 off st by (auto simp: resume_def jump_def parked_def)
qed

section \<open>Properties\<close>

text \<open>C24: In every state a thread can reach, the current fiber GetThis names is the one whose stack is
  running; the fibers in state EXEC are exactly the current one and those below it, each waiting in
  resume of the one above, down to the main fiber; and no fiber appears there twice.\<close>
theorem executing_fibers:
  assumes "fiber_reach s"
  shows "th_running s = th_cur s \<and>
    (\<exists>ps. distinct ps \<and> (\<forall>p. alive s p \<longrightarrow> (state_of s p = EXEC \<longleftrightarrow> p \<in> set ps)) \<and>
       (case ps of [] \<Rightarrow> th_cur s = None | p # qs \<Rightarrow> th_cur s = Some p \<and> resume_chain s p qs))"
proof -
  obtain ps where "on_chain s ps" using fiber_reach_inv [OF assms] by (auto simp: fiber_inv_def)
  then show ?thesis
    by (intro conjI exI [of _ ps]) (auto simp: on_chain_def dest: parked_state split: list.splits)
qed

text \<open>Whatever a thread does, a fiber changes state only along the edges of the diagram in
  fiber.h, and a fiber that is suspended or executing is never destroyed.\<close>
theorem fiber_state_diagram:
  assumes "fiber_reach s" "fiber_step s s'" "alive s p"
  shows "if alive s' p then state_of s' p = state_of s p \<or> documented_edge (state_of s p) (state_of s' p)
         else state_of s p \<in> {INIT, TERM', EXCEPT}"
  using step_state [OF fiber_reach_inv [OF assms(1)] assms(2,3)] .

text \<open>resume is refused exactly on a fiber that is executing or has ended; otherwise the fiber
  runs, its next yield_to_hold gives control back to the fiber that resumed it, nothing else has
  changed, and a later resume goes on after the yield and not at the entry.\<close>
theorem resume_then_yield:
  assumes "fiber_reach s" "alive s p" "th_cur s = Some c"
  shows "(resume p s \<noteq> None) = (state_of s p \<in> {INIT, HOLD, READY}) \<and>
    (\<forall>s1. resume p s = Some s1 \<longrightarrow> th_running s1 = Some p \<and>
      (\<exists>s2. yield_to_hold s1 = Some s2 \<and> th_running s2 = Some c \<and> th_cur s2 = Some c \<and>
         state_of s2 p = HOLD \<and> fb_ctx (the_fiber s2 p) = Some (In_yield p) \<and>
         fb_cb (the_fiber s2 p) = fb_cb (the_fiber s p) \<and>
         (\<forall>q. q \<noteq> p \<longrightarrow> the_fiber s2 q = the_fiber s q) \<and> resume p s2 \<noteq> None))"
proof -
  obtain ps where ch: "on_chain s ps" using fiber_reach_inv [OF assms(1)] by (auto simp: fiber_inv_def)
  from ch have A: "(resume p s \<noteq> None) = (state_of s p \<in> {INIT, HOLD, READY})"
    by (rule resume_defined [OF _ assms(2)])
  have B: "th_running s1 = Some p \<and>
      (\<exists>s2. yield_to_hold s1 = Some s2 \<and> th_running s2 = Some c \<and> th_cur s2 = Some c \<and>
         state_of s2 p = HOLD \<and> fb_ctx (the_fiber s2 p) = Some (In_yield p) \<and>
         fb_cb (the_fiber s2 p) = fb_cb (the_fiber s p) \<and>
         (\<forall>q. q \<noteq> p \<longrightarrow> the_fiber s2 q = the_fiber s q) \<and> resume p s2 \<noteq> None)"
    if r: "resume p s = Some s1" for s1
  proof -
  have g: "GetThis s = (c, s)" using assms(3) by (simp add: GetThis_def)
  obtain qs f where off: "p \<notin> set (c # qs)"
    and s1: "s1 = (SetThis p s)\<lparr> th_running := Some p, th_fibers := (th_fibers s)[p := Some f] \<rparr>"
    and f: "f = (the_fiber s p)\<lparr> fb_state := EXEC, fb_back_ctx := Some (In_resume c p) \<rparr>"
    using resume_cases [OF ch assms(2) r] g by (metis prod.inject)
  obtain rs where ch1: "on_chain s1 (p # c # rs)" using resume_keeps [OF ch assms(2) r] g by fastforce
  note u = fiber_updates_alive [OF assms(2) s1]
  have stk: "fb_stack f" using ch1 by (simp add: on_chain_def u)
  then obtain s2 where y: "yield_to HOLD s1 = Some s2"
    using u f assms(2) by (auto simp: yield_to_def GetThis_def jump_def)
  obtain q qs' f2 where q: "p # c # rs = p # q # qs'" "on_chain s2 (q # qs')"
    and f2: "f2 = (the_fiber s1 p)\<lparr> fb_state := HOLD, fb_ctx := Some (In_yield p) \<rparr>"
    and s2: "s2 = (SetThis q s1)\<lparr> th_running := Some q, th_fibers := (th_fibers s1)[p := Some f2] \<rparr>"
    using yield_keeps [OF ch1 y] by (metis list.inject)
  have a1: "alive s1 p" using u(1) assms(2) by simp
  note u2 = fiber_updates_alive [OF a1 s2]
  have "resume p s2 \<noteq> None"
    using resume_defined [OF q(2), of p] f2 a1 u2 by simp
  then show ?thesis
    using y q(1) f2 u u2 f unfolding yield_to_hold_def by auto
  qed
  from A B show ?thesis by blast
qed

text \<open>C32: The stack a fiber gets is a multiple of 64 bytes, at least 16 KiB and at least the size
  asked for (or configured, when none is), and less than 64 bytes larger than needed; except within 64
  bytes of 4 GiB, where the rounding wraps to an empty stack.\<close>
theorem stack_size_bounds:
  fixes requested :: u32 and configured :: "u32 option"
  defines "asked \<equiv> unat (if requested \<noteq> 0 then requested
                          else case configured of Some v \<Rightarrow> v | None \<Rightarrow> kDefaultStackSize)"
  shows "if asked \<le> 2 ^ 32 - 64
    then 64 dvd unat (stack_size_for configured requested) \<and>
         max asked 16384 \<le> unat (stack_size_for configured requested) \<and>
         unat (stack_size_for configured requested) < max asked 16384 + 64
    else stack_size_for configured requested = 0"
proof -
  have e: "unat (stack_size_for configured requested) =
      (if max asked 16384 + 63 < 2 ^ 32 then (max asked 16384 + 63) div 64 * 64 else 0)"
    unfolding stack_size_for_unat asked_def kDefaultStackSize_def by (simp split: option.split)
  show ?thesis
  proof (cases "asked \<le> 2 ^ 32 - 64")
    case True
    then have "max asked 16384 + 63 < 2 ^ 32" by simp
    then have v: "unat (stack_size_for configured requested) = (max asked 16384 + 63) div 64 * 64"
      using e by simp
    have "m \<le> (m + 63) div 64 * 64 \<and> (m + 63) div 64 * 64 < m + 64" for m :: nat by presburger
    with True v show ?thesis by simp
  next
    case False
    then have "unat (stack_size_for configured requested) = 0" using e by simp
    then have "stack_size_for configured requested = 0" by (simp add: unat_eq_zero)
    with False show ?thesis by simp
  qed
qed

text \<open>A constructor that throws has already counted the fiber it never made.\<close>

lemma failed_create_counts:
  assumes "\<not> alloc (stack_size_for configured n)"
  shows "fst (Create configured alloc cb n s) = None"
    and "th_fibers (snd (Create configured alloc cb n s)) = th_fibers s"
    and "s_fiber_count (snd (Create configured alloc cb n s)) = s_fiber_count s + 1"
  using assms by (simp_all add: Create_def)

text \<open>A thread that has created a fiber, resumed it and been given control back.\<close>

definition demo_thread :: "(nat, nat) thread" where
  "demo_thread = the (yield_to_hold (the (resume 0 (snd (Create None (\<lambda>_. True) (Some 7) 0 new_thread)))))"

lemma demo_thread_reach: "fiber_reach demo_thread"
proof -
  let ?s = "snd (Create None (\<lambda>_. True) (Some 7) 0 new_thread) :: (nat, nat) thread"
  have r: "fiber_reach ?s" by (rule fiber_reach.intros(2) [OF fiber_reach.intros(1) create])
  have a: "alive ?s 0" and r1: "resume 0 ?s \<noteq> None" by (code_simp, code_simp)
  have r2: "fiber_reach (the (resume 0 ?s))"
    by (rule fiber_reach.intros(2) [OF r fiber_step.resume [OF a option.collapse [OF r1, symmetric]]])
  have y: "yield_to HOLD (the (resume 0 ?s)) \<noteq> None" by code_simp
  show ?thesis
    unfolding demo_thread_def yield_to_hold_def
    by (rule fiber_reach.intros(2) [OF r2 fiber_step.yield [OF _ option.collapse [OF y, symmetric]]]) simp
qed

theorem executing_fibers_witness: "th_running demo_thread = th_cur demo_thread \<and> th_cur demo_thread = Some 1"
proof -
  have "th_cur demo_thread = Some 1" by code_simp
  with executing_fibers [OF demo_thread_reach] show ?thesis by simp
qed

theorem fiber_state_diagram_witness:
  "documented_edge (state_of demo_thread 0) (state_of (the (resume 0 demo_thread)) 0)"
proof -
  have a: "alive demo_thread 0" "resume 0 demo_thread = Some (the (resume 0 demo_thread))"
    "alive (the (resume 0 demo_thread)) 0" "state_of demo_thread 0 = HOLD" "state_of (the (resume 0 demo_thread)) 0 = EXEC"
    by (code_simp, code_simp, code_simp, code_simp, code_simp)
  from fiber_state_diagram [OF demo_thread_reach fiber_step.resume [OF a(1,2)] a(1)] a(3-5)
  show ?thesis by simp
qed

theorem resume_then_yield_witness:
  "resume 0 demo_thread \<noteq> None \<and> th_running (the (resume 0 demo_thread)) = Some 0"
proof -
  have a: "alive demo_thread 0" "th_cur demo_thread = Some 1" "state_of demo_thread 0 = HOLD"
    by (code_simp, code_simp, code_simp)
  from resume_then_yield [OF demo_thread_reach a(1,2)] a(3) show ?thesis by fastforce
qed

end
