(* ===== verification/Scheduler.thy ===== *)
theory Scheduler
  imports Fiber "HOL-Library.Multiset"
begin

text \<open>
  The fiber scheduler (include/droplet/scheduler/scheduler.h, src/scheduler/scheduler*.cc): the task
  queue with its pinned tasks, the loop \<open>run\<close> of a scheduling thread, the idle fiber, start and stop.
  Fibers appear by address with the state of Fiber.thy; what they do while they run is the
  environment's choice.  A locked section is one step; between the steps of a thread every other thread
  may move, in particular between taking a task and resuming its fiber, and between a fiber's yield and
  the loop's look at its state.  The virtual \<open>tickle\<close> and \<open>idle\<close> are arguments, so that the IO manager
  runs the same loop.
\<close>

section \<open>Tasks, loops and the scheduler\<close>

text \<open>A thread id is the 64-bit pattern both of the unsigned id and of the signed \<open>thread_id\<close>;
  \<open>- 1\<close> is any thread.\<close>

record 'c schedule_task =
  tk_fiber :: "nat option"
  tk_cb :: "'c option"
  tk_thread_id :: u64

text \<open>Where a thread is in \<open>run\<close>: at the head of its loop, with a fiber task it has taken, inside that
  fiber, just back from it, inside the function fiber, just back from it, in the idle fiber, or out of
  the loop.\<close>

datatype 'c loop_pc =
    At_head
  | Has_fiber "'c schedule_task"
  | In_fiber "'c schedule_task"
  | After_fiber "'c schedule_task"
  | In_cb
  | After_cb
  | In_idle
  | Left_loop

record 'c run_loop =
  lp_pc :: "'c loop_pc"
  lp_cb_fiber :: "nat option"

record 'c scheduler =
  sc_tasks :: "'c schedule_task list"
  sc_worker_count :: nat
  sc_threads :: nat
  sc_thread_ids :: "u64 list"
  sc_registered :: nat
  sc_use_caller :: bool
  sc_started :: bool
  sc_caller_thread_id :: u64
  sc_stopping :: bool
  sc_fibers :: "fiber_state list"
  sc_loops :: "u64 \<Rightarrow> 'c run_loop option"

text \<open>The constructor, on the thread \<open>self\<close>; \<open>None\<close> is the assertion.\<close>

definition Scheduler_init :: "nat \<Rightarrow> bool \<Rightarrow> u64 \<Rightarrow> 'c scheduler option" where
  "Scheduler_init thread_count use_caller self =
     (if thread_count = 0 then None
      else Some \<lparr> sc_tasks = [], sc_worker_count = (if use_caller then thread_count - 1 else thread_count),
                  sc_threads = 0, sc_thread_ids = (if use_caller then [self] else []),
                  sc_registered = (if use_caller then 1 else 0), sc_use_caller = use_caller,
                  sc_started = False, sc_caller_thread_id = (if use_caller then self else 0),
                  sc_stopping = False, sc_fibers = [], sc_loops = (\<lambda>_. None) \<rparr>)"

section \<open>Posting and taking tasks\<close>

definition post ::
  "(('c, 'z) scheduler_scheme \<Rightarrow> ('c, 'z) scheduler_scheme) \<Rightarrow> 'c schedule_task list \<Rightarrow>
   ('c, 'z) scheduler_scheme \<Rightarrow> ('c, 'z) scheduler_scheme" where
  "post tickle ts s = (if ts = [] then s else tickle (s\<lparr> sc_tasks := sc_tasks s @ ts \<rparr>))"

definition fiber_task :: "nat \<Rightarrow> u64 \<Rightarrow> 'c schedule_task" where
  "fiber_task p tid = \<lparr> tk_fiber = Some p, tk_cb = None, tk_thread_id = tid \<rparr>"

definition cb_task :: "'c \<Rightarrow> u64 \<Rightarrow> 'c schedule_task" where
  "cb_task cb tid = \<lparr> tk_fiber = None, tk_cb = Some cb, tk_thread_id = tid \<rparr>"

definition schedule_fiber ::
  "(('c, 'z) scheduler_scheme \<Rightarrow> ('c, 'z) scheduler_scheme) \<Rightarrow> nat \<Rightarrow> u64 \<Rightarrow>
   ('c, 'z) scheduler_scheme \<Rightarrow> ('c, 'z) scheduler_scheme" where
  "schedule_fiber tickle p tid = post tickle [fiber_task p tid]"

definition schedule_cb ::
  "(('c, 'z) scheduler_scheme \<Rightarrow> ('c, 'z) scheduler_scheme) \<Rightarrow> 'c \<Rightarrow> u64 \<Rightarrow>
   ('c, 'z) scheduler_scheme \<Rightarrow> ('c, 'z) scheduler_scheme" where
  "schedule_cb tickle cb tid = post tickle [cb_task cb tid]"

text \<open>The batch overload: every element for any thread, one wake-up.\<close>

definition schedule_all ::
  "(('c, 'z) scheduler_scheme \<Rightarrow> ('c, 'z) scheduler_scheme) \<Rightarrow> (nat + 'c) list \<Rightarrow>
   ('c, 'z) scheduler_scheme \<Rightarrow> ('c, 'z) scheduler_scheme" where
  "schedule_all tickle xs =
     post tickle (map (\<lambda>x. case x of Inl p \<Rightarrow> fiber_task p (- 1) | Inr cb \<Rightarrow> cb_task cb (- 1)) xs)"

fun find_task :: "fiber_state list \<Rightarrow> u64 \<Rightarrow> 'c schedule_task list \<Rightarrow>
    ('c schedule_task \<times> 'c schedule_task list) option" where
  "find_task fs self [] = None"
| "find_task fs self (x # xs) =
     (if (tk_thread_id x \<noteq> - 1 \<and> tk_thread_id x \<noteq> self) \<or>
         (case tk_fiber x of Some p \<Rightarrow> fs ! p = EXEC | None \<Rightarrow> False)
      then map_option (\<lambda>(y, ys). (y, x # ys)) (find_task fs self xs)
      else Some (x, xs))"

definition getNextTask ::
  "u64 \<Rightarrow> ('c, 'z) scheduler_scheme \<Rightarrow> ('c schedule_task \<times> ('c, 'z) scheduler_scheme) option" where
  "getNextTask self s =
     map_option (\<lambda>(x, xs). (x, s\<lparr> sc_tasks := xs \<rparr>)) (find_task (sc_fibers s) self (sc_tasks s))"

section \<open>The loop of a scheduling thread\<close>

definition set_loop :: "u64 \<Rightarrow> 'c run_loop \<Rightarrow> ('c, 'z) scheduler_scheme \<Rightarrow> ('c, 'z) scheduler_scheme" where
  "set_loop t l s = s\<lparr> sc_loops := (sc_loops s)(t := Some l) \<rparr>"

definition goto :: "u64 \<Rightarrow> 'c loop_pc \<Rightarrow> ('c, 'z) scheduler_scheme \<Rightarrow> ('c, 'z) scheduler_scheme" where
  "goto t pc s = set_loop t ((the (sc_loops s t))\<lparr> lp_pc := pc \<rparr>) s"

definition pc_of :: "u64 \<Rightarrow> ('c, 'z) scheduler_scheme \<Rightarrow> 'c loop_pc option" where
  "pc_of t s = map_option lp_pc (sc_loops s t)"

definition set_state :: "nat \<Rightarrow> fiber_state \<Rightarrow> ('c, 'z) scheduler_scheme \<Rightarrow> ('c, 'z) scheduler_scheme" where
  "set_state p st s = s\<lparr> sc_fibers := (sc_fibers s)[p := st] \<rparr>"

text \<open>The head of the loop of \<open>run\<close>.\<close>

definition enter_run :: "u64 \<Rightarrow> ('c, 'z) scheduler_scheme \<Rightarrow> ('c, 'z) scheduler_scheme" where
  "enter_run t = set_loop t \<lparr> lp_pc = At_head, lp_cb_fiber = None \<rparr>"

text \<open>The fiber a function task runs in: the loop's own one when it has ended, else a new one.\<close>

definition wrap_cb :: "nat option \<Rightarrow> fiber_state list \<Rightarrow> nat \<times> fiber_state list" where
  "wrap_cb cb_fiber fs =
     (let (q, fs) = (case cb_fiber of None \<Rightarrow> (length fs, fs @ [INIT]) | Some q \<Rightarrow> (q, fs))
      in if fs ! q = TERM' then (q, fs[q := INIT]) else (length fs, fs @ [INIT]))"

definition run_head :: "u64 \<Rightarrow> ('c, 'z) scheduler_scheme \<Rightarrow> 'c schedule_task option \<times> ('c, 'z) scheduler_scheme" where
  "run_head t s =
     (case getNextTask t s of
        None \<Rightarrow> (None, goto t In_idle s)
      | Some (task, s) \<Rightarrow>
          (Some task,
           if tk_fiber task \<noteq> None then goto t (Has_fiber task) s
           else let (q, fs) = wrap_cb (lp_cb_fiber (the (sc_loops s t))) (sc_fibers s)
                in set_loop t \<lparr> lp_pc = In_cb, lp_cb_fiber = Some q \<rparr> (s\<lparr> sc_fibers := fs[q := EXEC] \<rparr>)))"

text \<open>\<open>task.fiber->resume()\<close>; the assertions of \<open>Fiber::resume\<close> hold or there is no step.\<close>

definition run_resume :: "u64 \<Rightarrow> 'c schedule_task \<Rightarrow> ('c, 'z) scheduler_scheme \<Rightarrow> ('c, 'z) scheduler_scheme option" where
  "run_resume t task s =
     (case tk_fiber task of
        None \<Rightarrow> None
      | Some p \<Rightarrow> if sc_fibers s ! p \<in> {INIT, HOLD, READY}
                  then Some (goto t (In_fiber task) (set_state p EXEC s)) else None)"

text \<open>What \<open>run\<close> does once a fiber task has come back.  The first component is what it re-queues.\<close>

definition run_after_fiber ::
  "(('c, 'z) scheduler_scheme \<Rightarrow> ('c, 'z) scheduler_scheme) \<Rightarrow> u64 \<Rightarrow> 'c schedule_task \<Rightarrow>
   ('c, 'z) scheduler_scheme \<Rightarrow> 'c schedule_task list \<times> ('c, 'z) scheduler_scheme" where
  "run_after_fiber tickle t task s =
     (let p = the (tk_fiber task);
          again = (if sc_fibers s ! p = READY then [fiber_task p (tk_thread_id task)] else [])
      in (again, goto t At_head (post tickle again s)))"

definition run_after_cb ::
  "(('c, 'z) scheduler_scheme \<Rightarrow> ('c, 'z) scheduler_scheme) \<Rightarrow> u64 \<Rightarrow>
   ('c, 'z) scheduler_scheme \<Rightarrow> 'c schedule_task list \<times> ('c, 'z) scheduler_scheme" where
  "run_after_cb tickle t s =
     (let l = the (sc_loops s t);
          q = the (lp_cb_fiber l);
          again = (if sc_fibers s ! q = READY then [fiber_task q (- 1)] else []);
          keep = (if sc_fibers s ! q = READY \<or> sc_fibers s ! q = HOLD then None else Some q)
      in (again, set_loop t \<lparr> lp_pc = At_head, lp_cb_fiber = keep \<rparr> (post tickle again s)))"

text \<open>The idle fiber of the base class: \<open>None\<close> while it waits, else whether it returns (the loop is
  left) or yields.\<close>

definition Scheduler_idle :: "('c, 'z) scheduler_scheme \<Rightarrow> bool option" where
  "Scheduler_idle s =
     (if sc_stopping s \<or> sc_tasks s \<noteq> [] then Some (sc_stopping s \<and> sc_tasks s = []) else None)"

definition Scheduler_tickle :: "('c, 'z) scheduler_scheme \<Rightarrow> ('c, 'z) scheduler_scheme" where
  "Scheduler_tickle s = s"

section \<open>Start and stop\<close>

text \<open>\<open>start\<close> on the thread \<open>self\<close>: the workers are created and register later; a caller that
  takes part enters its loop.\<close>

definition start :: "u64 \<Rightarrow> ('c, 'z) scheduler_scheme \<Rightarrow> ('c, 'z) scheduler_scheme option" where
  "start self s =
     (if sc_started s then None
      else let s = s\<lparr> sc_started := True, sc_stopping := False, sc_threads := sc_worker_count s \<rparr>
           in Some (if sc_use_caller s then enter_run self s else s))"

text \<open>What a worker \<open>t\<close> does first.\<close>

definition worker_register :: "u64 \<Rightarrow> ('c, 'z) scheduler_scheme \<Rightarrow> ('c, 'z) scheduler_scheme" where
  "worker_register t s =
     enter_run t (s\<lparr> sc_thread_ids := sc_thread_ids s @ [t], sc_registered := sc_registered s + 1 \<rparr>)"

text \<open>\<open>stop\<close> up to the joins; \<open>None\<close> is the assertion.\<close>

definition stop ::
  "(('c, 'z) scheduler_scheme \<Rightarrow> ('c, 'z) scheduler_scheme) \<Rightarrow> u64 \<Rightarrow>
   ('c, 'z) scheduler_scheme \<Rightarrow> ('c, 'z) scheduler_scheme option" where
  "stop tickle self s =
     (if sc_stopping s then Some s
      else let s = s\<lparr> sc_stopping := True \<rparr>
           in if self \<noteq> sc_caller_thread_id s \<and> self \<in> set (sc_thread_ids s) then None
              else Some (tickle s))"

text \<open>The joins of \<open>stop\<close> return once every worker has left its loop.\<close>

definition all_joined :: "('c, 'z) scheduler_scheme \<Rightarrow> bool" where
  "all_joined s \<longleftrightarrow> sc_threads s = 0 \<or>
     sc_registered s = sc_threads s + (if sc_use_caller s then 1 else 0) \<and>
     (\<forall>t \<in> set (sc_thread_ids s). t \<noteq> sc_caller_thread_id s \<longrightarrow> pc_of t s = Some Left_loop)"

definition join_all :: "('c, 'z) scheduler_scheme \<Rightarrow> ('c, 'z) scheduler_scheme option" where
  "join_all s = (if all_joined s then Some (s\<lparr> sc_threads := 0 \<rparr>) else None)"

section \<open>The queue as a specification\<close>

text \<open>What happens to the queue: tasks are posted, or a thread takes one.  A thread may pass over a
  task only when it is pinned elsewhere or is a fiber.\<close>

datatype 'c queue_event = Posted "'c schedule_task list" | Taken u64 "'c schedule_task"

definition may_take :: "u64 \<Rightarrow> 'c schedule_task \<Rightarrow> bool" where
  "may_take t x \<longleftrightarrow> tk_thread_id x = - 1 \<or> tk_thread_id x = t"

definition must_take :: "u64 \<Rightarrow> 'c schedule_task \<Rightarrow> bool" where
  "must_take t x \<longleftrightarrow> may_take t x \<and> tk_fiber x = None"

inductive queue_step :: "'c schedule_task list \<Rightarrow> 'c queue_event \<Rightarrow> 'c schedule_task list \<Rightarrow> bool" where
  posted: "queue_step q (Posted ts) (q @ ts)"
| taken: "may_take t x \<Longrightarrow> \<forall>a \<in> set as. \<not> must_take t a \<Longrightarrow> queue_step (as @ x # bs) (Taken t x) (as @ bs)"

inductive queue_run :: "'c schedule_task list \<Rightarrow> 'c queue_event list \<Rightarrow> 'c schedule_task list \<Rightarrow> bool" where
  "queue_run q [] q"
| "queue_run q tr q' \<Longrightarrow> queue_step q' e q'' \<Longrightarrow> queue_run q (tr @ [e]) q''"

inductive_cases queue_stepE [elim]: "queue_step q e q'"

definition posts :: "'c queue_event list \<Rightarrow> 'c schedule_task list" where
  "posts tr = concat (map (\<lambda>e. case e of Posted ts \<Rightarrow> ts | Taken _ _ \<Rightarrow> []) tr)"

definition takes :: "'c queue_event list \<Rightarrow> (u64 \<times> 'c schedule_task) list" where
  "takes tr = concat (map (\<lambda>e. case e of Posted _ \<Rightarrow> [] | Taken t x \<Rightarrow> [(t, x)]) tr)"

lemma posts_takes_simps [simp]:
  "posts [] = []" "posts (tr @ tr') = posts tr @ posts tr'" "posts [Posted ts] = ts" "posts [Taken t x] = []"
  "takes [] = []" "takes (tr @ tr') = takes tr @ takes tr'" "takes [Posted ts] = []" "takes [Taken t x] = [(t, x)]"
  by (simp_all add: posts_def takes_def)

lemma queue_run_conserves:
  "queue_run q tr q' \<Longrightarrow> mset (q @ posts tr) = mset (map snd (takes tr) @ q')"
  by (induction rule: queue_run.induct) auto

lemma queue_run_pinned: "queue_run q tr q' \<Longrightarrow> (t, x) \<in> set (takes tr) \<Longrightarrow> may_take t x"
  by (induction rule: queue_run.induct) auto

text \<open>Tasks no thread may pass over keep their order.\<close>

lemma queue_run_fifo:
  assumes "queue_run q tr q'"
    and "\<And>t x y. may_take t x \<Longrightarrow> P x \<Longrightarrow> P y \<Longrightarrow> must_take t y"
  shows "filter P (q @ posts tr) = filter P (map snd (takes tr) @ q')"
  using assms(1)
proof (induction rule: queue_run.induct)
  case (2 q tr q' e q'')
  from 2(2) show ?case
  proof cases
    case (posted ts)
    with 2(3) show ?thesis by simp
  next
    case (taken t x as bs)
    have "filter P as = []" if "P x"
      using taken(4,5) assms(2) [of t x] that by (auto simp: filter_empty_conv)
    with 2(3) taken show ?thesis by (cases "P x") auto
  qed
qed simp

text \<open>A function task for any thread is overtaken by nothing posted later.\<close>

lemma queue_run_position:
  assumes "queue_run q tr q'" "i < length q" "\<And>t. must_take t (q ! i)"
  shows "(\<exists>k \<le> i. k < length (takes tr) \<and> snd (takes tr ! k) = q ! i) \<or>
    (\<exists>j < length q'. q' ! j = q ! i \<and> j + length (takes tr) = i)"
  using assms
proof (induction rule: queue_run.induct)
  case (2 q tr q' e q'')
  then consider (gone) k where "k \<le> i" "k < length (takes tr)" "snd (takes tr ! k) = q ! i"
    | (there) j where "j < length q'" "q' ! j = q ! i" "j + length (takes tr) = i" by blast
  then show ?case
  proof cases
    case gone
    then show ?thesis by (auto simp: nth_append intro!: disjI1 exI [of _ k])
  next
    case there
    from 2(2) show ?thesis
    proof cases
      case (posted ts)
      with there show ?thesis by (auto simp: nth_append intro!: disjI2 exI [of _ j])
    next
      case (taken t x as bs)
      have ge: "length as \<le> j"
      proof (rule ccontr)
        assume "\<not> length as \<le> j"
        then have "q' ! j \<in> set as" using taken by (simp add: nth_append)
        with taken there 2(5) show False by metis
      qed
      show ?thesis
      proof (cases "j = length as")
        case True
        then have "snd (takes (tr @ [e]) ! length (takes tr)) = q ! i"
          using taken there by (simp add: nth_append)
        then show ?thesis using there taken True by (auto intro!: disjI1 exI [of _ "length (takes tr)"])
      next
        case False
        with ge obtain j' where j: "j = Suc j'" "length as \<le> j'" by (cases j) auto
        then have "q'' ! j' = q ! i" using taken there by (simp add: nth_append Suc_diff_le)
        then show ?thesis using j taken there by (auto intro!: disjI2 exI [of _ j'])
      qed
    qed
  qed
qed auto

lemma queue_run_bounded:
  assumes "queue_run q tr q'" "i < length q" "\<And>t. must_take t (q ! i)" "i < length (takes tr)"
  shows "q ! i \<in> set (map snd (take (Suc i) (takes tr)))"
proof -
  obtain k where k: "k \<le> i" "k < length (takes tr)" "snd (takes tr ! k) = q ! i"
    using queue_run_position [OF assms(1-3)] assms(4) by auto
  then have "takes tr ! k \<in> set (take (Suc i) (takes tr))"
    by (auto simp: in_set_conv_nth intro!: exI [of _ k])
  with k(3) show ?thesis by (metis image_eqI list.set_map)
qed

section \<open>Steps of the scheduler\<close>

text \<open>One step, with what it does to the queue.  Besides the threads' loops: tasks posted from
  anywhere, fibers created and reset by their owners, start and stop.\<close>

inductive sched_step ::
  "(('c, 'z) scheduler_scheme \<Rightarrow> ('c, 'z) scheduler_scheme) \<Rightarrow> (('c, 'z) scheduler_scheme \<Rightarrow> bool option) \<Rightarrow>
   ('c, 'z) scheduler_scheme \<Rightarrow> 'c queue_event list \<Rightarrow> ('c, 'z) scheduler_scheme \<Rightarrow> bool"
  for tickle idle where
  post: "(\<And>x p. x \<in> set ts \<Longrightarrow> tk_fiber x = Some p \<Longrightarrow> p < length (sc_fibers s)) \<Longrightarrow>
     sched_step tickle idle s [Posted ts] (post tickle ts s)"
| new_fiber: "sched_step tickle idle s [] (s\<lparr> sc_fibers := sc_fibers s @ [INIT] \<rparr>)"
| reset: "p < length (sc_fibers s) \<Longrightarrow> sc_fibers s ! p \<in> {INIT, TERM', EXCEPT} \<Longrightarrow>
     sched_step tickle idle s [] (set_state p INIT s)"
| started: "sc_loops s self = None \<Longrightarrow> start self s = Some s' \<Longrightarrow> sched_step tickle idle s [] s'"
| register: "sc_started s \<Longrightarrow> sc_loops s t = None \<Longrightarrow>
     sc_registered s < sc_threads s + (if sc_use_caller s then 1 else 0) \<Longrightarrow>
     sched_step tickle idle s [] (worker_register t s)"
| take: "pc_of t s = Some At_head \<Longrightarrow> run_head t s = (Some x, s') \<Longrightarrow> sched_step tickle idle s [Taken t x] s'"
| none: "pc_of t s = Some At_head \<Longrightarrow> run_head t s = (None, s') \<Longrightarrow> sched_step tickle idle s [] s'"
| resume: "pc_of t s = Some (Has_fiber x) \<Longrightarrow> run_resume t x s = Some s' \<Longrightarrow> sched_step tickle idle s [] s'"
| leave_fiber: "pc_of t s = Some (In_fiber x) \<Longrightarrow> st \<in> {HOLD, READY, TERM', EXCEPT} \<Longrightarrow>
     sched_step tickle idle s [] (goto t (After_fiber x) (set_state (the (tk_fiber x)) st s))"
| after_fiber: "pc_of t s = Some (After_fiber x) \<Longrightarrow> run_after_fiber tickle t x s = (ts, s') \<Longrightarrow>
     sched_step tickle idle s [Posted ts] s'"
| leave_cb: "pc_of t s = Some In_cb \<Longrightarrow> st \<in> {HOLD, READY, TERM', EXCEPT} \<Longrightarrow>
     sched_step tickle idle s [] (goto t After_cb (set_state (the (lp_cb_fiber (the (sc_loops s t)))) st s))"
| after_cb: "pc_of t s = Some After_cb \<Longrightarrow> run_after_cb tickle t s = (ts, s') \<Longrightarrow>
     sched_step tickle idle s [Posted ts] s'"
| idle: "pc_of t s = Some In_idle \<Longrightarrow> idle s = Some leave \<Longrightarrow>
     sched_step tickle idle s [] (goto t (if leave then Left_loop else At_head) s)"
| stopped: "stop tickle self s = Some s' \<Longrightarrow> sched_step tickle idle s [] s'"
| joined: "join_all s = Some s' \<Longrightarrow> sched_step tickle idle s [] s'"

inductive_cases sched_stepE: "sched_step tickle idle s es s'"

inductive sched_run ::
  "(('c, 'z) scheduler_scheme \<Rightarrow> ('c, 'z) scheduler_scheme) \<Rightarrow> (('c, 'z) scheduler_scheme \<Rightarrow> bool option) \<Rightarrow>
   ('c, 'z) scheduler_scheme \<Rightarrow> 'c queue_event list \<Rightarrow> ('c, 'z) scheduler_scheme \<Rightarrow> bool"
  for tickle idle where
  "sched_run tickle idle s [] s"
| "sched_run tickle idle s tr s' \<Longrightarrow> sched_step tickle idle s' es s'' \<Longrightarrow> sched_run tickle idle s (tr @ es) s''"

text \<open>The contract of a \<open>tickle\<close>: it leaves the scheduler's own state alone.\<close>

locale scheduler_hooks =
  fixes tickle :: "('c, 'z) scheduler_scheme \<Rightarrow> ('c, 'z) scheduler_scheme"
  assumes tickle_state: "sc_tasks (tickle s) = sc_tasks s" "sc_fibers (tickle s) = sc_fibers s"
    "sc_loops (tickle s) = sc_loops s" "sc_thread_ids (tickle s) = sc_thread_ids s"
    "sc_stopping (tickle s) = sc_stopping s"
begin

lemma post_state [simp]:
  "sc_tasks (post tickle ts s) = sc_tasks s @ ts" "sc_fibers (post tickle ts s) = sc_fibers s"
  "sc_loops (post tickle ts s) = sc_loops s" "sc_thread_ids (post tickle ts s) = sc_thread_ids s"
  "sc_stopping (post tickle ts s) = sc_stopping s"
  by (simp_all add: post_def tickle_state)

end

lemma loop_update_simps [simp]:
  "sc_tasks (set_loop t l s) = sc_tasks s" "sc_fibers (set_loop t l s) = sc_fibers s"
  "sc_thread_ids (set_loop t l s) = sc_thread_ids s" "sc_stopping (set_loop t l s) = sc_stopping s"
  "sc_tasks (goto t pc s) = sc_tasks s" "sc_fibers (goto t pc s) = sc_fibers s"
  "sc_thread_ids (goto t pc s) = sc_thread_ids s" "sc_stopping (goto t pc s) = sc_stopping s"
  "sc_tasks (set_state p st s) = sc_tasks s" "sc_loops (set_state p st s) = sc_loops s"
  "sc_thread_ids (set_state p st s) = sc_thread_ids s" "sc_stopping (set_state p st s) = sc_stopping s"
  by (simp_all add: set_loop_def goto_def set_state_def)

lemma find_task_split:
  "find_task fs t q = Some (x, q') \<Longrightarrow> \<exists>as bs. q = as @ x # bs \<and> q' = as @ bs \<and> may_take t x \<and>
     (\<forall>a \<in> set as. \<not> must_take t a) \<and> (\<forall>p. tk_fiber x = Some p \<longrightarrow> fs ! p \<noteq> EXEC)"
proof (induction q arbitrary: q')
  case (Cons a q)
  show ?case
  proof (cases "(tk_thread_id a \<noteq> - 1 \<and> tk_thread_id a \<noteq> t) \<or> (case tk_fiber a of Some p \<Rightarrow> fs ! p = EXEC | None \<Rightarrow> False)")
    case True
    with Cons.prems obtain q1 where q1: "find_task fs t q = Some (x, q1)" "q' = a # q1" by auto
    from Cons.IH [OF q1(1)] obtain as bs where ab: "q = as @ x # bs" "q1 = as @ bs" "may_take t x"
      "\<forall>a \<in> set as. \<not> must_take t a" "\<forall>p. tk_fiber x = Some p \<longrightarrow> fs ! p \<noteq> EXEC" by blast
    have "\<not> must_take t a" using True by (auto simp: must_take_def may_take_def split: option.splits)
    with ab q1(2) show ?thesis by (intro exI [of _ "a # as"] exI [of _ bs]) auto
  next
    case False
    with Cons.prems show ?thesis
      by (intro exI [of _ "[]"] exI [of _ q]) (auto simp: may_take_def split: option.splits)
  qed
qed simp

lemma run_head_queue:
  assumes "run_head t s = (r, s')"
  shows "case r of None \<Rightarrow> sc_tasks s' = sc_tasks s
    | Some x \<Rightarrow> queue_step (sc_tasks s) (Taken t x) (sc_tasks s')"
proof (cases r)
  case None
  with assms show ?thesis by (auto simp: run_head_def split: option.splits if_splits prod.splits)
next
  case (Some x)
  with assms obtain q where "find_task (sc_fibers s) t (sc_tasks s) = Some (x, q)" "sc_tasks s' = q"
    by (auto simp: run_head_def getNextTask_def split: option.splits if_splits prod.splits)
  with find_task_split [of "sc_fibers s" t "sc_tasks s" x q] Some show ?thesis
    by (auto intro: queue_step.taken)
qed

context scheduler_hooks
begin

lemma sched_step_queue:
  "sched_step tickle idle s es s' \<Longrightarrow> es = [] \<and> sc_tasks s' = sc_tasks s \<or>
     (\<exists>e. es = [e] \<and> queue_step (sc_tasks s) e (sc_tasks s'))"
proof (induction rule: sched_step.induct)
  case (take t s x s')
  then show ?case using run_head_queue [OF take(2)] by simp
next
  case (none t s s')
  then show ?case using run_head_queue [OF none(2)] by simp
qed (auto simp: start_def enter_run_def worker_register_def run_resume_def run_after_fiber_def run_after_cb_def
       stop_def join_all_def tickle_state Let_def set_state_def queue_step.simps split: if_splits option.splits)

lemma sched_run_queue: "sched_run tickle idle s tr s' \<Longrightarrow> queue_run (sc_tasks s) tr (sc_tasks s')"
proof (induction rule: sched_run.induct)
  case (2 s tr s' es s'')
  from sched_step_queue [OF 2(2)] 2(3) show ?case by (metis queue_run.intros(2) append_Nil2)
qed (rule queue_run.intros(1))

end

section \<open>Fibers and the threads that run them\<close>

definition loop_runs :: "'c run_loop \<Rightarrow> nat option" where
  "loop_runs l = (case lp_pc l of In_fiber x \<Rightarrow> tk_fiber x | In_cb \<Rightarrow> lp_cb_fiber l | _ \<Rightarrow> None)"

definition runs :: "('c, 'z) scheduler_scheme \<Rightarrow> u64 \<Rightarrow> nat \<Rightarrow> bool" where
  "runs s t p \<longleftrightarrow> (\<exists>l. sc_loops s t = Some l \<and> loop_runs l = Some p)"

text \<open>What holds of the loop of one thread.\<close>

definition pc_ok :: "fiber_state list \<Rightarrow> 'c run_loop \<Rightarrow> bool" where
  "pc_ok fs l \<longleftrightarrow>
     (case lp_pc l of
        Has_fiber x \<Rightarrow> (\<exists>p < length fs. tk_fiber x = Some p)
      | In_fiber x \<Rightarrow> tk_fiber x \<noteq> None
      | After_fiber x \<Rightarrow> (\<exists>p < length fs. tk_fiber x = Some p)
      | In_cb \<Rightarrow> lp_cb_fiber l \<noteq> None
      | After_cb \<Rightarrow> lp_cb_fiber l \<noteq> None
      | _ \<Rightarrow> True)"

definition loop_ok :: "fiber_state list \<Rightarrow> 'c run_loop \<Rightarrow> bool" where
  "loop_ok fs l \<longleftrightarrow> pc_ok fs l \<and> (\<forall>q. lp_cb_fiber l = Some q \<longrightarrow> q < length fs) \<and>
     (\<forall>p. loop_runs l = Some p \<longrightarrow> p < length fs \<and> fs ! p = EXEC)"

definition tasks_ok :: "fiber_state list \<Rightarrow> 'c schedule_task list \<Rightarrow> bool" where
  "tasks_ok fs ts \<longleftrightarrow> (\<forall>x \<in> set ts. \<forall>p. tk_fiber x = Some p \<longrightarrow> p < length fs)"

definition sched_inv :: "('c, 'z) scheduler_scheme \<Rightarrow> bool" where
  "sched_inv s \<longleftrightarrow> tasks_ok (sc_fibers s) (sc_tasks s) \<and>
     (\<forall>t l. sc_loops s t = Some l \<longrightarrow> loop_ok (sc_fibers s) l) \<and>
     (\<forall>t u p. runs s t p \<longrightarrow> runs s u p \<longrightarrow> t = u)"

text \<open>A change that touches the loop of one thread and at most the fiber this thread may touch.\<close>

lemma runs_loop: "sc_loops s' t = sc_loops s t \<Longrightarrow> runs s' t p = runs s t p"
  by (simp add: runs_def)

lemma runs_exec: "sched_inv s \<Longrightarrow> runs s t p \<Longrightarrow> p < length (sc_fibers s) \<and> sc_fibers s ! p = EXEC"
  by (auto simp: sched_inv_def runs_def loop_ok_def)

definition extends :: "fiber_state list \<Rightarrow> fiber_state list \<Rightarrow> nat option \<Rightarrow> bool" where
  "extends fs fs' r \<longleftrightarrow> length fs \<le> length fs' \<and>
     (\<forall>p < length fs. fs ! p = EXEC \<longrightarrow> r \<noteq> Some p \<longrightarrow> fs' ! p = EXEC)"

lemma tasks_ok_extends: "tasks_ok fs ts \<Longrightarrow> extends fs fs' r \<Longrightarrow> tasks_ok fs' ts"
  by (fastforce simp: tasks_ok_def extends_def)

lemma loop_ok_extends:
  assumes "loop_ok fs l" "extends fs fs' r" "\<And>p. loop_runs l = Some p \<Longrightarrow> r \<noteq> Some p"
  shows "loop_ok fs' l"
proof -
  have "length fs \<le> length fs'" using assms(2) by (simp add: extends_def)
  then have "pc_ok fs' l" "\<forall>q. lp_cb_fiber l = Some q \<longrightarrow> q < length fs'"
    using assms(1) by (auto simp: loop_ok_def pc_ok_def intro: order_less_le_trans split: loop_pc.splits)
  moreover have "p < length fs' \<and> fs' ! p = EXEC" if "loop_runs l = Some p" for p
    using assms that by (fastforce simp: loop_ok_def extends_def)
  ultimately show ?thesis by (simp add: loop_ok_def)
qed

lemma sched_inv_change:
  assumes inv: "sched_inv s" and ext: "extends (sc_fibers s) (sc_fibers s') r"
    and mine: "\<And>p. r = Some p \<Longrightarrow> runs s t p"
    and loops: "\<And>u. u \<noteq> t \<Longrightarrow> sc_loops s' u = sc_loops s u"
    and ok: "\<And>l. sc_loops s' t = Some l \<Longrightarrow> loop_ok (sc_fibers s') l"
    and tasks: "tasks_ok (sc_fibers s') (sc_tasks s')"
    and fresh: "\<And>p u. runs s' t p \<Longrightarrow> u \<noteq> t \<Longrightarrow> \<not> runs s u p"
  shows "sched_inv s'"
proof -
  have other: "runs s' u p = runs s u p" if "u \<noteq> t" for u p
    using runs_loop [OF loops [OF that]] .
  have excl: "u = v" if "runs s u p" "runs s v p" for u v p using inv that by (auto simp: sched_inv_def)
  have "loop_ok (sc_fibers s') l" if l: "sc_loops s' u = Some l" for u l
  proof (cases "u = t")
    case False
    with l loops have l': "sc_loops s u = Some l" by simp
    then have "loop_ok (sc_fibers s) l" using inv by (auto simp: sched_inv_def)
    moreover have "r \<noteq> Some p" if "runs s u p" for p
      using mine [of p] excl that False by metis
    ultimately show ?thesis
      using l' by (intro loop_ok_extends [OF _ ext]) (auto simp: runs_def)
  qed (use l ok in simp)
  moreover have "u = v" if "runs s' u p" "runs s' v p" for u v p
    using that fresh excl by (metis other)
  ultimately show ?thesis using tasks by (auto simp: sched_inv_def)
qed

lemma extends_refl [simp]: "extends fs fs r"
  by (simp add: extends_def)

lemma extends_append [simp]: "extends fs (fs @ gs) r"
  by (simp add: extends_def nth_append)

lemma extends_update: "p < length fs \<Longrightarrow> fs ! p \<noteq> EXEC \<or> st = EXEC \<or> r = Some p \<Longrightarrow> extends fs (fs[p := st]) r"
  by (auto simp: extends_def nth_list_update)

lemma wrap_cb_facts:
  assumes "wrap_cb c fs = (q, fs')" "\<forall>p. c = Some p \<longrightarrow> p < length fs"
  shows "q < length fs'" "fs' ! q = INIT" "extends fs fs' r" "q < length fs \<longrightarrow> fs ! q \<noteq> EXEC"
  using assms by (auto simp: wrap_cb_def Let_def extends_def nth_append nth_list_update split: option.splits if_splits)

lemma extends_trans: "extends fs fs' r \<Longrightarrow> extends fs' fs'' r \<Longrightarrow> extends fs fs'' r"
  by (auto simp: extends_def)

lemma set_loop_at [simp]:
  "sc_loops (set_loop t l s) u = (if u = t then Some l else sc_loops s u)"
  "sc_loops (goto t pc s) u = (if u = t then Some ((the (sc_loops s t))\<lparr> lp_pc := pc \<rparr>) else sc_loops s u)"
  by (simp_all add: set_loop_def goto_def)

lemma pc_ofE: "pc_of t s = Some pc \<Longrightarrow> (\<And>l. sc_loops s t = Some l \<Longrightarrow> lp_pc l = pc \<Longrightarrow> thesis) \<Longrightarrow> thesis"
  by (auto simp: pc_of_def)

text \<open>A step of thread \<open>t\<close> that moves its program counter and runs nothing afterwards.\<close>

lemma sched_inv_move:
  assumes inv: "sched_inv s" and loop: "sc_loops s' = (sc_loops s)(t := Some l)" and quiet: "loop_runs l = None"
    and ok: "pc_ok (sc_fibers s') l" "\<forall>q. lp_cb_fiber l = Some q \<longrightarrow> q < length (sc_fibers s')"
    and ext: "extends (sc_fibers s) (sc_fibers s') r" and mine: "\<And>p. r = Some p \<Longrightarrow> runs s t p"
    and tasks: "tasks_ok (sc_fibers s') (sc_tasks s')"
  shows "sched_inv s'"
proof (rule sched_inv_change [OF inv ext, where t = t])
  show "runs s t p" if "r = Some p" for p using that by (rule mine)
qed (use loop quiet ok tasks in \<open>auto simp: loop_ok_def runs_def\<close>)

lemma sched_inv_start:
  assumes inv: "sched_inv s" and loop: "sc_loops s' = (sc_loops s)(t := Some l)"
    and p: "loop_runs l = Some p" "p < length (sc_fibers s')" "sc_fibers s' ! p = EXEC"
      "p < length (sc_fibers s) \<longrightarrow> sc_fibers s ! p \<noteq> EXEC"
    and ok: "pc_ok (sc_fibers s') l" "\<forall>q. lp_cb_fiber l = Some q \<longrightarrow> q < length (sc_fibers s')"
    and ext: "extends (sc_fibers s) (sc_fibers s') None" and tasks: "tasks_ok (sc_fibers s') (sc_tasks s')"
  shows "sched_inv s'"
proof (rule sched_inv_change [OF inv ext, where t = t])
  fix q u
  assume "runs s' t q" "u \<noteq> t"
  then have "q = p" using loop p(1) by (simp add: runs_def)
  then show "\<not> runs s u q" using runs_exec [OF inv, of u p] p(4) by metis
qed (use loop p ok tasks in \<open>auto simp: loop_ok_def\<close>)

lemma sched_inv_same:
  assumes inv: "sched_inv s" and ext: "extends (sc_fibers s) (sc_fibers s') None"
    and loops: "sc_loops s' = sc_loops s" and tasks: "tasks_ok (sc_fibers s') (sc_tasks s')"
  shows "sched_inv s'"
proof -
  have "loop_ok (sc_fibers s') l" if "sc_loops s t = Some l" for t l
    using inv that by (intro loop_ok_extends [OF _ ext]) (auto simp: sched_inv_def)
  moreover have "runs s' t p = runs s t p" for t p using loops by (simp add: runs_def)
  ultimately show ?thesis using inv loops tasks by (simp add: sched_inv_def)
qed

lemma sched_invD:
  assumes "sched_inv s"
  shows "tasks_ok (sc_fibers s) (sc_tasks s)" "sc_loops s t = Some l \<Longrightarrow> loop_ok (sc_fibers s) l"
  using assms by (auto simp: sched_inv_def)

lemma run_head_inv:
  assumes inv: "sched_inv s" and pc: "pc_of t s = Some At_head" and h: "run_head t s = (r, s')"
  shows "sched_inv s'"
proof -
  obtain l where l: "sc_loops s t = Some l" "lp_pc l = At_head" using pc by (rule pc_ofE)
  have lok: "loop_ok (sc_fibers s) l" using sched_invD(2) [OF inv l(1)] .
  show ?thesis
  proof (cases r)
    case None
    with h l have s': "s' = goto t In_idle s" by (auto simp: run_head_def split: option.splits if_splits prod.splits)
    show ?thesis
      by (rule sched_inv_move [OF inv, where t = t and l = "l\<lparr> lp_pc := In_idle \<rparr>" and r = None])
         (use s' l lok sched_invD(1) [OF inv] in \<open>auto simp: loop_runs_def pc_ok_def loop_ok_def\<close>)
  next
    case (Some x)
    with h obtain q where q: "find_task (sc_fibers s) t (sc_tasks s) = Some (x, q)"
      by (auto simp: run_head_def getNextTask_def split: option.splits if_splits prod.splits)
    obtain as bs where ab: "sc_tasks s = as @ x # bs" "q = as @ bs" using find_task_split [OF q] by blast
    have tok: "tasks_ok (sc_fibers s) q" "\<forall>p. tk_fiber x = Some p \<longrightarrow> p < length (sc_fibers s)"
      using sched_invD(1) [OF inv] ab by (auto simp: tasks_ok_def)
    show ?thesis
    proof (cases "tk_fiber x")
      case (Some p)
      have s': "s' = goto t (Has_fiber x) (s\<lparr> sc_tasks := q \<rparr>)"
        using h q Some \<open>r = Some x\<close> by (simp add: run_head_def getNextTask_def)
      show ?thesis
        by (rule sched_inv_move [OF inv, where t = t and l = "l\<lparr> lp_pc := Has_fiber x \<rparr>" and r = None])
           (use s' l lok tok Some in \<open>auto simp: loop_runs_def pc_ok_def loop_ok_def\<close>)
    next
      case None
      obtain c fs where w: "wrap_cb (lp_cb_fiber l) (sc_fibers s) = (c, fs)" by fastforce
      have s': "s' = set_loop t \<lparr> lp_pc = In_cb, lp_cb_fiber = Some c \<rparr> (s\<lparr> sc_tasks := q, sc_fibers := fs[c := EXEC] \<rparr>)"
        using h q None \<open>r = Some x\<close> w l by (simp add: run_head_def getNextTask_def)
      have wf: "c < length fs" "fs ! c = INIT" "extends (sc_fibers s) fs None" "c < length (sc_fibers s) \<longrightarrow> sc_fibers s ! c \<noteq> EXEC"
        using wrap_cb_facts [OF w] lok by (auto simp: loop_ok_def)
      have ext: "extends (sc_fibers s) (fs[c := EXEC]) None"
        using wf by (intro extends_trans [OF wf(3)] extends_update) auto
      show ?thesis
        by (rule sched_inv_start [OF inv, where t = t and l = "\<lparr> lp_pc = In_cb, lp_cb_fiber = Some c \<rparr>" and p = c])
           (use s' wf ext tasks_ok_extends [OF tok(1) ext] in \<open>auto simp: loop_runs_def pc_ok_def\<close>)
    qed
  qed
qed

lemma run_resume_inv:
  assumes inv: "sched_inv s" and pc: "pc_of t s = Some (Has_fiber x)" and r: "run_resume t x s = Some s'"
  shows "sched_inv s'"
proof -
  obtain l where l: "sc_loops s t = Some l" "lp_pc l = Has_fiber x" using pc by (rule pc_ofE)
  have lok: "loop_ok (sc_fibers s) l" using sched_invD(2) [OF inv l(1)] .
  then obtain p where p: "tk_fiber x = Some p" "p < length (sc_fibers s)" using l by (auto simp: loop_ok_def pc_ok_def)
  have st: "sc_fibers s ! p \<noteq> EXEC" and s': "s' = goto t (In_fiber x) (set_state p EXEC s)"
    using r p by (auto simp: run_resume_def split: if_splits)
  have ext: "extends (sc_fibers s) ((sc_fibers s)[p := EXEC]) None" by (intro extends_update) (use p in auto)
  show ?thesis
    by (rule sched_inv_start [OF inv, where t = t and l = "l\<lparr> lp_pc := In_fiber x \<rparr>" and p = p])
       (use s' p st l lok ext tasks_ok_extends [OF sched_invD(1) [OF inv] ext] in
         \<open>auto simp: loop_runs_def pc_ok_def loop_ok_def set_state_def\<close>)
qed

text \<open>A fiber leaves its thread: by a yield or at its end.\<close>

lemma leave_inv:
  assumes inv: "sched_inv s" and l: "sc_loops s t = Some l" "loop_runs l = Some p"
    and s': "s' = goto t pc (set_state p st s)"
    and pc: "loop_runs (l\<lparr> lp_pc := pc \<rparr>) = None" "pc_ok ((sc_fibers s)[p := st]) (l\<lparr> lp_pc := pc \<rparr>)"
  shows "sched_inv s'"
proof -
  have lok: "loop_ok (sc_fibers s) l" using sched_invD(2) [OF inv l(1)] .
  then have p: "p < length (sc_fibers s)" using l by (auto simp: loop_ok_def)
  have ext: "extends (sc_fibers s) ((sc_fibers s)[p := st]) (Some p)" by (intro extends_update) (use p in auto)
  show ?thesis
    by (rule sched_inv_move [OF inv, where t = t and l = "l\<lparr> lp_pc := pc \<rparr>" and r = "Some p"])
       (use s' l pc lok ext tasks_ok_extends [OF sched_invD(1) [OF inv] ext] in
         \<open>auto simp: loop_ok_def set_state_def runs_def goto_def set_loop_def\<close>)
qed

lemma tasks_ok_append [simp]: "tasks_ok fs (xs @ ys) = (tasks_ok fs xs \<and> tasks_ok fs ys)"
  by (auto simp: tasks_ok_def)

lemma tasks_ok_task [simp]: "tasks_ok fs []" "tasks_ok fs [fiber_task p t] \<longleftrightarrow> p < length fs"
  by (simp_all add: tasks_ok_def fiber_task_def)

context scheduler_hooks
begin

lemma after_fiber_inv:
  assumes inv: "sched_inv s" and pc: "pc_of t s = Some (After_fiber x)" and r: "run_after_fiber tickle t x s = (ts, s')"
  shows "sched_inv s'"
proof -
  obtain l where l: "sc_loops s t = Some l" "lp_pc l = After_fiber x" using pc by (rule pc_ofE)
  have lok: "loop_ok (sc_fibers s) l" using sched_invD(2) [OF inv l(1)] .
  then obtain p where p: "tk_fiber x = Some p" "p < length (sc_fibers s)" using l by (auto simp: loop_ok_def pc_ok_def)
  have s': "s' = goto t At_head (post tickle ts s)"
    and "ts = (if sc_fibers s ! p = READY then [fiber_task p (tk_thread_id x)] else [])"
    using r p(1) unfolding run_after_fiber_def Let_def by auto
  then have ts: "tasks_ok (sc_fibers s) ts" using p(2) by simp
  show ?thesis
    by (rule sched_inv_move [OF inv, where t = t and l = "l\<lparr> lp_pc := At_head \<rparr>" and r = None])
       (use s' ts l lok sched_invD(1) [OF inv] in \<open>auto simp: loop_runs_def pc_ok_def loop_ok_def goto_def set_loop_def\<close>)
qed

lemma after_cb_inv:
  assumes inv: "sched_inv s" and pc: "pc_of t s = Some After_cb" and r: "run_after_cb tickle t s = (ts, s')"
  shows "sched_inv s'"
proof -
  obtain l where l: "sc_loops s t = Some l" "lp_pc l = After_cb" using pc by (rule pc_ofE)
  have lok: "loop_ok (sc_fibers s) l" using sched_invD(2) [OF inv l(1)] .
  then obtain q where q: "lp_cb_fiber l = Some q" "q < length (sc_fibers s)" using l by (auto simp: loop_ok_def pc_ok_def)
  obtain keep where s': "s' = set_loop t \<lparr> lp_pc = At_head, lp_cb_fiber = keep \<rparr> (post tickle ts s)"
    and keep: "keep = None \<or> keep = Some q" and ts: "tasks_ok (sc_fibers s) ts"
    using r q l by (auto simp: run_after_cb_def Let_def split: if_splits)
  show ?thesis
    by (rule sched_inv_move [OF inv, where t = t and l = "\<lparr> lp_pc = At_head, lp_cb_fiber = keep \<rparr>" and r = None])
       (use s' ts keep q sched_invD(1) [OF inv] in \<open>auto simp: loop_runs_def pc_ok_def loop_ok_def set_loop_def\<close>)
qed

lemma enter_run_inv:
  assumes inv: "sched_inv s" and same: "sc_fibers s1 = sc_fibers s" "sc_tasks s1 = sc_tasks s" "sc_loops s1 = sc_loops s"
  shows "sched_inv (enter_run t s1)"
  by (rule sched_inv_move [OF inv, where t = t and l = "\<lparr> lp_pc = At_head, lp_cb_fiber = None \<rparr>" and r = None])
     (use same sched_invD(1) [OF inv] in \<open>auto simp: enter_run_def loop_runs_def pc_ok_def set_loop_def\<close>)

lemma sched_step_inv: "sched_step tickle idle s es s' \<Longrightarrow> sched_inv s \<Longrightarrow> sched_inv s'"
proof (induction rule: sched_step.induct)
  case (post ts s)
  then show ?case by (intro sched_inv_same [OF post(2)]) (auto simp: tasks_ok_def dest: sched_invD(1))
next
  case (new_fiber s)
  show ?case
    by (rule sched_inv_same [OF new_fiber]) (use tasks_ok_extends [OF sched_invD(1) [OF new_fiber]] in auto)
next
  case (reset p s)
  have "extends (sc_fibers s) ((sc_fibers s)[p := INIT]) None" using reset(1,2) by (intro extends_update) auto
  then show ?case
    by (intro sched_inv_same [OF reset(3)]) (use tasks_ok_extends [OF sched_invD(1) [OF reset(3)]] in \<open>auto simp: set_state_def\<close>)
next
  case (started s self s')
  from started(3) have "sched_inv (s\<lparr> sc_started := True, sc_stopping := False, sc_threads := sc_worker_count s \<rparr>)"
    by (rule sched_inv_same) (use sched_invD(1) [OF started(3)] in auto)
  then show ?case using started by (auto simp: start_def Let_def split: if_splits intro: enter_run_inv)
next
  case (register s t)
  then show ?case by (simp add: worker_register_def enter_run_inv)
next
  case (take t s x s')
  then show ?case by (blast intro: run_head_inv)
next
  case (none t s s')
  then show ?case by (blast intro: run_head_inv)
next
  case (resume t s x s')
  then show ?case by (blast intro: run_resume_inv)
next
  case (leave_fiber t s x st)
  obtain l where l: "sc_loops s t = Some l" "lp_pc l = In_fiber x" using leave_fiber(1) by (rule pc_ofE)
  have lok: "loop_ok (sc_fibers s) l" using sched_invD(2) [OF leave_fiber(3) l(1)] .
  then obtain p where p: "tk_fiber x = Some p" "p < length (sc_fibers s)"
    using l by (auto simp: loop_ok_def pc_ok_def loop_runs_def)
  show ?case
    by (rule leave_inv [OF leave_fiber(3) l(1), where p = p and pc = "After_fiber x" and st = st])
       (use l p in \<open>auto simp: loop_runs_def pc_ok_def\<close>)
next
  case (after_fiber t s x ts s')
  then show ?case by (blast intro: after_fiber_inv)
next
  case (leave_cb t s st)
  obtain l where l: "sc_loops s t = Some l" "lp_pc l = In_cb" using leave_cb(1) by (rule pc_ofE)
  have lok: "loop_ok (sc_fibers s) l" using sched_invD(2) [OF leave_cb(3) l(1)] .
  then obtain p where p: "lp_cb_fiber l = Some p" using l by (auto simp: loop_ok_def pc_ok_def)
  show ?case
    by (rule leave_inv [OF leave_cb(3) l(1), where p = p and pc = After_cb and st = st])
       (use l p in \<open>auto simp: loop_runs_def pc_ok_def\<close>)
next
  case (after_cb t s ts s')
  then show ?case by (blast intro: after_cb_inv)
next
  case (idle t s leave)
  obtain l where l: "sc_loops s t = Some l" "lp_pc l = In_idle" using idle(1) by (rule pc_ofE)
  have lok: "loop_ok (sc_fibers s) l" using sched_invD(2) [OF idle(3) l(1)] .
  show ?case
    by (rule sched_inv_move [OF idle(3), where t = t and r = None and
          l = "l\<lparr> lp_pc := (if leave then Left_loop else At_head) \<rparr>"])
       (use l lok sched_invD(1) [OF idle(3)] in \<open>auto simp: loop_runs_def pc_ok_def loop_ok_def goto_def set_loop_def\<close>)
next
  case (stopped self s s')
  then show ?case
    by (intro sched_inv_same [OF stopped(2)])
       (auto simp: stop_def Let_def tickle_state split: if_splits dest: sched_invD(1))
next
  case (joined s s')
  then show ?case
    by (intro sched_inv_same [OF joined(2)]) (auto simp: join_all_def split: if_splits dest: sched_invD(1))
qed

text \<open>A thread leaves its loop only through the idle fiber.\<close>

lemma leaves_idle:
  assumes "sched_step tickle idle s es s'"
    and "pc_of t s \<noteq> Some Left_loop" "pc_of t s' = Some Left_loop"
  shows "idle s = Some True"
  using assms
proof cases
  case (idle u leave)
  then show ?thesis using assms(2,3) by (auto simp: pc_of_def split: if_splits)
next
  case (take u x)
  then show ?thesis using assms(2,3)
    by (auto simp: run_head_def getNextTask_def pc_of_def split: if_splits option.splits prod.splits)
next
  case (none u)
  then show ?thesis using assms(2,3)
    by (auto simp: run_head_def getNextTask_def pc_of_def split: if_splits option.splits prod.splits)
qed (auto simp: pc_of_def set_state_def start_def enter_run_def worker_register_def tickle_state
       run_resume_def run_after_fiber_def run_after_cb_def stop_def join_all_def Let_def split: if_splits option.splits)

lemma sched_run_inv: "sched_run tickle idle s tr s' \<Longrightarrow> sched_inv s \<Longrightarrow> sched_inv s'"
  by (induction rule: sched_run.induct) (auto intro: sched_step_inv)

end

lemma Scheduler_init_inv: "Scheduler_init n c self = Some s \<Longrightarrow> sched_inv s \<and> sc_tasks s = []"
  by (auto simp: Scheduler_init_def sched_inv_def tasks_ok_def runs_def split: if_splits)

interpretation base: scheduler_hooks Scheduler_tickle
  by unfold_locales (simp_all add: Scheduler_tickle_def)

lemma base_leaves:
  assumes "sched_step Scheduler_tickle Scheduler_idle s es s'"
    and "pc_of t s \<noteq> Some Left_loop" "pc_of t s' = Some Left_loop"
  shows "sc_stopping s \<and> sc_tasks s = []"
  using base.leaves_idle [OF assms] by (auto simp: Scheduler_idle_def split: if_splits)

section \<open>Properties\<close>

text \<open>C15: Whatever the threads do, the tasks posted so far are exactly those taken and those still
  queued; a thread never takes a task pinned to another; and callbacks for any thread, as well as those
  pinned to one thread, are taken in the order they were posted.\<close>
theorem tasks_in_order:
  assumes "Scheduler_init n use_caller self = Some s0" "sched_run Scheduler_tickle Scheduler_idle s0 tr s"
  shows "mset (posts tr) = mset (map snd (takes tr) @ sc_tasks s) \<and>
    (\<forall>(t, x) \<in> set (takes tr). tk_thread_id x = - 1 \<or> tk_thread_id x = t) \<and>
    (\<forall>u. filter (\<lambda>x. tk_fiber x = None \<and> tk_thread_id x = u) (posts tr) =
         filter (\<lambda>x. tk_fiber x = None \<and> tk_thread_id x = u) (map snd (takes tr) @ sc_tasks s))"
proof -
  have q: "queue_run [] tr (sc_tasks s)"
    using base.sched_run_queue [OF assms(2)] Scheduler_init_inv [OF assms(1)] by simp
  have "filter (\<lambda>x. tk_fiber x = None \<and> tk_thread_id x = u) ([] @ posts tr) =
      filter (\<lambda>x. tk_fiber x = None \<and> tk_thread_id x = u) (map snd (takes tr) @ sc_tasks s)" for u
    by (rule queue_run_fifo [OF q]) (auto simp: must_take_def may_take_def)
  with queue_run_conserves [OF q] queue_run_pinned [OF q] show ?thesis
    unfolding may_take_def by auto
qed



text \<open>A thread leaves the loop of the scheduler only after stop, and only when every task posted
  until then has been taken.\<close>
theorem stop_drains_queue:
  assumes "Scheduler_init n use_caller self = Some s0" "sched_run Scheduler_tickle Scheduler_idle s0 tr s"
    and "sched_step Scheduler_tickle Scheduler_idle s es s'"
    and "pc_of t s \<noteq> Some Left_loop" "pc_of t s' = Some Left_loop"
  shows "sc_stopping s \<and> mset (posts tr) = mset (map snd (takes tr))"
proof -
  have "queue_run [] tr (sc_tasks s)"
    using base.sched_run_queue [OF assms(2)] Scheduler_init_inv [OF assms(1)] by simp
  with queue_run_conserves [OF this] base_leaves [OF assms(3-5)] show ?thesis by simp
qed

text \<open>A task pinned to a thread that takes nothing keeps every thread in the loop, stopping or not.\<close>

lemma foreign_pin_blocks:
  assumes run: "sched_run Scheduler_tickle Scheduler_idle s tr s'" and x: "x \<in> set (sc_tasks s)"
    and pin: "tk_thread_id x \<noteq> - 1" "tk_thread_id x \<notin> fst ` set (takes tr)"
  shows "x \<in> set (sc_tasks s') \<and> Scheduler_idle s' = Some False"
proof -
  have q: "queue_run (sc_tasks s) tr (sc_tasks s')" by (rule base.sched_run_queue [OF run])
  have "x \<in># mset (map snd (takes tr) @ sc_tasks s')"
    unfolding queue_run_conserves [OF q, symmetric] using x by simp
  moreover have "x \<notin> snd ` set (takes tr)"
    using queue_run_pinned [OF q] pin by (force simp: may_take_def)
  ultimately have "x \<in> set (sc_tasks s')" by simp
  then show ?thesis by (auto simp: Scheduler_idle_def)
qed

section \<open>A run\<close>

text \<open>A caller thread runs one callback to its end, finds nothing else and is stopped.\<close>

definition demo_start :: "nat scheduler" where "demo_start = the (Scheduler_init 1 True 7)"

definition demo_posted :: "nat scheduler" where
  "demo_posted = the (start 7 (post Scheduler_tickle [cb_task 5 (- 1)] demo_start))"

definition demo_taken :: "nat scheduler" where "demo_taken = snd (run_head 7 demo_posted)"

definition demo_idle :: "nat scheduler" where
  "demo_idle = (let s = snd (run_after_cb Scheduler_tickle 7 (goto 7 After_cb (set_state 1 TERM' demo_taken)))
                in the (stop Scheduler_tickle 7 (snd (run_head 7 s))))"

lemma demo_init: "Scheduler_init 1 True 7 = Some demo_start"
  by (simp add: demo_start_def Scheduler_init_def)

lemma demo_posted_run: "sched_run Scheduler_tickle Scheduler_idle demo_start [Posted [cb_task 5 (- 1)]] demo_posted"
proof -
  let ?s = "post Scheduler_tickle [cb_task 5 (- 1)] demo_start"
  have a: "sched_run Scheduler_tickle Scheduler_idle demo_start ([] @ [Posted [cb_task 5 (- 1)]]) ?s"
    by (rule sched_run.intros(2) [OF sched_run.intros(1) sched_step.post]) (simp add: cb_task_def)
  have "sc_loops ?s 7 = None" "start 7 ?s = Some demo_posted"
    by (simp_all add: demo_posted_def demo_start_def Scheduler_init_def post_def Scheduler_tickle_def start_def Let_def)
  from sched_run.intros(2) [OF a sched_step.started [OF this]] show ?thesis by simp
qed

lemmas demo_eval = demo_posted_def demo_start_def demo_taken_def demo_idle_def Scheduler_init_def post_def
  Scheduler_tickle_def start_def run_head_def getNextTask_def cb_task_def wrap_cb_def set_loop_def enter_run_def
  pc_of_def goto_def set_state_def run_after_cb_def stop_def Let_def

lemma demo_taken_step: "pc_of 7 demo_posted = Some At_head \<and> run_head 7 demo_posted = (Some (cb_task 5 (- 1)), demo_taken)"
  by (simp add: demo_eval)

lemma demo_taken_run: "sched_run Scheduler_tickle Scheduler_idle demo_start
    [Posted [cb_task 5 (- 1)], Taken 7 (cb_task 5 (- 1))] demo_taken"
  using sched_run.intros(2) [OF demo_posted_run sched_step.take] demo_taken_step by fastforce

lemma demo_idle_run: "sched_run Scheduler_tickle Scheduler_idle demo_start
    [Posted [cb_task 5 (- 1)], Taken 7 (cb_task 5 (- 1)), Posted []] demo_idle"
proof -
  let ?s1 = "goto 7 After_cb (set_state 1 TERM' demo_taken)"
  let ?s2 = "snd (run_after_cb Scheduler_tickle 7 ?s1)"
  let ?s3 = "snd (run_head 7 ?s2)"
  have 1: "pc_of 7 demo_taken = Some In_cb" "the (lp_cb_fiber (the (sc_loops demo_taken 7))) = 1"
    "pc_of 7 ?s1 = Some After_cb" "run_after_cb Scheduler_tickle 7 ?s1 = ([], ?s2)"
    "pc_of 7 ?s2 = Some At_head" "run_head 7 ?s2 = (None, ?s3)" "stop Scheduler_tickle 7 ?s3 = Some demo_idle"
    by (simp_all add: demo_eval)
  have "sched_step Scheduler_tickle Scheduler_idle demo_taken [] ?s1"
    using sched_step.leave_cb [OF 1(1), of "TERM'"] 1(2) by simp
  from sched_run.intros(2) [OF sched_run.intros(2) [OF sched_run.intros(2) [OF sched_run.intros(2)
      [OF demo_taken_run this] sched_step.after_cb [OF 1(3,4)]] sched_step.none [OF 1(5,6)]] sched_step.stopped [OF 1(7)]]
  show ?thesis by simp
qed

theorem tasks_in_order_witness: "mset (posts [Posted [cb_task (5 :: nat) (- 1)], Taken 7 (cb_task 5 (- 1))]) =
    mset (map snd (takes [Posted [cb_task 5 (- 1)], Taken 7 (cb_task 5 (- 1))]) @ sc_tasks demo_taken)"
  using tasks_in_order [OF demo_init demo_taken_run] by blast



theorem stop_drains_queue_witness: "sc_stopping demo_idle \<and> pc_of 7 (goto 7 Left_loop demo_idle) = Some Left_loop"
proof -
  have a: "pc_of 7 demo_idle = Some In_idle" "Scheduler_idle demo_idle = Some True"
    by (simp_all add: demo_eval Scheduler_idle_def)
  have b: "pc_of 7 (goto 7 Left_loop demo_idle) = Some Left_loop" by (simp add: pc_of_def)
  have "sched_step Scheduler_tickle Scheduler_idle demo_idle [] (goto 7 Left_loop demo_idle)"
    using sched_step.idle [of 7 demo_idle Scheduler_idle True] a by simp
  from stop_drains_queue [OF demo_init demo_idle_run this _ b] a(1) b show ?thesis by simp
qed

end
