(* ===== verification/Timer.thy ===== *)
theory Timer
  imports Std_Map
begin

text \<open>
  Timers and the timer manager (include/droplet/scheduler/timer.h, src/scheduler/timer.cc).  A
  \<open>Timer\<close> is a shared object: the record holds every timer created, by address, and the
  manager's \<open>std::set\<close> holds addresses ordered by the timers' expiry and sequence.  The clock is an
  argument of the operations that read it.  Each operation runs under the manager's mutex and is one
  step; the atomics of a timer are fields.
\<close>

section \<open>Timers and the manager\<close>

text \<open>A callback, or one that runs only while its condition is alive.\<close>

datatype ('k, 'c) timer_fn = Direct 'c | Guarded 'k 'c

definition run_timer_fn :: "('k \<Rightarrow> bool) \<Rightarrow> ('k, 'c) timer_fn \<Rightarrow> 'c option" where
  "run_timer_fn alive f =
     (case f of Direct c \<Rightarrow> Some c | Guarded k c \<Rightarrow> if alive k then Some c else None)"

record 'f timer =
  tm_managed :: bool
  tm_ms :: u64
  tm_next :: u64
  tm_sequence :: u64
  tm_recurring :: bool
  tm_canceled :: bool
  tm_cb :: "'f option"

record 'f timer_manager =
  tm_heap :: "'f timer list"
  tm_timers :: "(nat, unit) std_map"
  tm_next_sequence :: u64
  tm_front_notices :: nat

definition TimerManager :: "'f timer_manager" where
  "TimerManager = \<lparr> tm_heap = [], tm_timers = [], tm_next_sequence = 0, tm_front_notices = 0 \<rparr>"

definition timer_less :: "'f timer list \<Rightarrow> nat \<Rightarrow> nat \<Rightarrow> bool" where
  "timer_less h a b =
     (if tm_next (h ! a) \<noteq> tm_next (h ! b) then tm_next (h ! a) < tm_next (h ! b)
      else tm_sequence (h ! a) < tm_sequence (h ! b))"

text \<open>\<open>std::set::insert\<close> and \<open>find\<close> through the comparator.\<close>

abbreviation set_insert :: "'f timer list \<Rightarrow> nat \<Rightarrow> (nat, unit) std_map \<Rightarrow> (nat, unit) std_map" where
  "set_insert h p s \<equiv> try_emplace (timer_less h) p () s"

abbreviation set_find :: "'f timer list \<Rightarrow> nat \<Rightarrow> (nat, unit) std_map \<Rightarrow> unit option" where
  "set_find h p s \<equiv> map_find (timer_less h) p s"

abbreviation set_erase :: "'f timer list \<Rightarrow> nat \<Rightarrow> (nat, unit) std_map \<Rightarrow> (nat, unit) std_map" where
  "set_erase h p s \<equiv> map_erase (timer_less h) p s"

definition at_front :: "'f timer list \<Rightarrow> nat \<Rightarrow> (nat, unit) std_map \<Rightarrow> bool" where
  "at_front h p s \<longleftrightarrow> s = [] \<or> timer_less h p (fst (hd s))"

definition onTimerInsertedAtFront :: "bool \<Rightarrow> 'f timer_manager \<Rightarrow> 'f timer_manager" where
  "onTimerInsertedAtFront front m =
     (if front then m\<lparr> tm_front_notices := tm_front_notices m + 1 \<rparr> else m)"

section \<open>Operations\<close>

definition addTimer ::
  "u64 \<Rightarrow> u64 \<Rightarrow> 'f option \<Rightarrow> bool \<Rightarrow> 'f timer_manager \<Rightarrow> nat option \<times> 'f timer_manager" where
  "addTimer now ms cb recurring m =
     (if cb = None then (None, m)
      else let p = length (tm_heap m);
               t = \<lparr> tm_managed = True, tm_ms = ms, tm_next = now + ms, tm_sequence = tm_next_sequence m,
                     tm_recurring = recurring, tm_canceled = False, tm_cb = cb \<rparr>;
               h = tm_heap m @ [t]
           in (Some p, onTimerInsertedAtFront (at_front h p (tm_timers m))
                 (m\<lparr> tm_heap := h, tm_timers := set_insert h p (tm_timers m),
                     tm_next_sequence := tm_next_sequence m + 1 \<rparr>)))"

definition addConditionTimer ::
  "u64 \<Rightarrow> u64 \<Rightarrow> 'c option \<Rightarrow> 'k \<Rightarrow> bool \<Rightarrow> ('k, 'c) timer_fn timer_manager \<Rightarrow>
   nat option \<times> ('k, 'c) timer_fn timer_manager" where
  "addConditionTimer now ms cb condition recurring m =
     (case cb of
        None \<Rightarrow> (None, m)
      | Some c \<Rightarrow> addTimer now ms (Some (Guarded condition c)) recurring m)"

definition getNextTimer :: "u64 \<Rightarrow> 'f timer_manager \<Rightarrow> u64" where
  "getNextTimer now m =
     (case tm_timers m of
        [] \<Rightarrow> - 1
      | (p, _) # _ \<Rightarrow> let n = tm_next (tm_heap m ! p) in if n \<le> now then 0 else n - now)"

definition hasTimer :: "'f timer_manager \<Rightarrow> bool" where
  "hasTimer m \<longleftrightarrow> tm_timers m \<noteq> []"

text \<open>The body of the scan for the timer at the front, and the scan.  It has no bound of its own, so
  it is a partial function: \<open>None\<close> is a scan that never ends.\<close>

definition expire_front :: "u64 \<Rightarrow> nat \<Rightarrow> 'f timer_manager \<times> 'f option list \<Rightarrow> 'f timer_manager \<times> 'f option list" where
  "expire_front now p = (\<lambda>(m, cbs).
     let t = tm_heap m ! p;
         s = tl (tm_timers m)
     in if tm_canceled t then (m\<lparr> tm_timers := s \<rparr>, cbs)
        else if tm_recurring t
        then let h = (tm_heap m)[p := t\<lparr> tm_next := now + max (tm_ms t) 1 \<rparr>]
             in (m\<lparr> tm_heap := h, tm_timers := set_insert h p s \<rparr>, cbs @ [tm_cb t])
        else (m\<lparr> tm_heap := (tm_heap m)[p := t\<lparr> tm_canceled := True, tm_managed := False, tm_cb := None \<rparr>],
                 tm_timers := s \<rparr>, cbs @ [tm_cb t]))"

partial_function (option) expire_loop ::
  "u64 \<Rightarrow> 'f timer_manager \<times> 'f option list \<Rightarrow> ('f timer_manager \<times> 'f option list) option" where
  "expire_loop now s =
     (case tm_timers (fst s) of
        [] \<Rightarrow> Some s
      | e # _ \<Rightarrow>
          if tm_next (tm_heap (fst s) ! fst e) > now then Some s
          else expire_loop now (expire_front now (fst e) s))"

definition listExpiredCallbacks ::
  "u64 \<Rightarrow> 'f option list \<Rightarrow> 'f timer_manager \<Rightarrow> ('f timer_manager \<times> 'f option list) option" where
  "listExpiredCallbacks now cbs m = expire_loop now (m, cbs)"

definition clear_timer :: "'f timer \<Rightarrow> 'f timer" where
  "clear_timer t = t\<lparr> tm_canceled := True, tm_managed := False, tm_cb := None \<rparr>"

definition clearTimers :: "'f timer_manager \<Rightarrow> 'f timer_manager" where
  "clearTimers m = m\<lparr> tm_heap := fold (\<lambda>(p, _) h. h[p := clear_timer (h ! p)]) (tm_timers m) (tm_heap m),
                     tm_timers := [] \<rparr>"

definition cancelTimer :: "nat \<Rightarrow> 'f timer_manager \<Rightarrow> bool \<times> 'f timer_manager" where
  "cancelTimer p m =
     (let t = tm_heap m ! p
      in if \<not> tm_managed t \<or> tm_canceled t then (False, m)
         else if set_find (tm_heap m) p (tm_timers m) = None then (False, m)
         else (True, m\<lparr> tm_heap := (tm_heap m)[p := clear_timer t],
                        tm_timers := set_erase (tm_heap m) p (tm_timers m) \<rparr>))"

text \<open>\<open>refreshTimer\<close> and \<open>resetTimer\<close> take the timer out, change it and put it back.\<close>

definition reinsert :: "nat \<Rightarrow> 'f timer \<Rightarrow> 'f timer_manager \<Rightarrow> bool \<times> 'f timer_manager" where
  "reinsert p t' m =
     (let s = set_erase (tm_heap m) p (tm_timers m);
          h = (tm_heap m)[p := t']
      in (True, onTimerInsertedAtFront (at_front h p s)
                  (m\<lparr> tm_heap := h, tm_timers := set_insert h p s \<rparr>)))"

definition refreshTimer :: "u64 \<Rightarrow> nat \<Rightarrow> 'f timer_manager \<Rightarrow> bool \<times> 'f timer_manager" where
  "refreshTimer now p m =
     (let t = tm_heap m ! p
      in if \<not> tm_managed t \<or> tm_canceled t then (False, m)
         else if set_find (tm_heap m) p (tm_timers m) = None then (False, m)
         else reinsert p (t\<lparr> tm_next := now + tm_ms t \<rparr>) m)"

definition resetTimer :: "u64 \<Rightarrow> u64 \<Rightarrow> bool \<Rightarrow> nat \<Rightarrow> 'f timer_manager \<Rightarrow> bool \<times> 'f timer_manager" where
  "resetTimer now ms from_now p m =
     (let t = tm_heap m ! p
      in if \<not> tm_managed t \<or> tm_canceled t then (False, m)
         else if set_find (tm_heap m) p (tm_timers m) = None then (False, m)
         else let start = (if from_now then now else tm_next t - tm_ms t)
              in reinsert p (t\<lparr> tm_ms := ms, tm_next := start + ms \<rparr>) m)"

text \<open>The methods of \<open>Timer\<close>: nothing once the timer has left its manager.\<close>

definition timer_cancel :: "nat \<Rightarrow> 'f timer_manager \<Rightarrow> bool \<times> 'f timer_manager" where
  "timer_cancel p m = (if tm_managed (tm_heap m ! p) then cancelTimer p m else (False, m))"

definition timer_refresh :: "u64 \<Rightarrow> nat \<Rightarrow> 'f timer_manager \<Rightarrow> bool \<times> 'f timer_manager" where
  "timer_refresh now p m = (if tm_managed (tm_heap m ! p) then refreshTimer now p m else (False, m))"

definition timer_reset :: "u64 \<Rightarrow> u64 \<Rightarrow> bool \<Rightarrow> nat \<Rightarrow> 'f timer_manager \<Rightarrow> bool \<times> 'f timer_manager" where
  "timer_reset now ms from_now p m =
     (if tm_managed (tm_heap m ! p) then resetTimer now ms from_now p m else (False, m))"

section \<open>The comparator is a strict weak order\<close>

interpretation tl: strict_weak_order "timer_less h" for h
  by unfold_locales (auto simp: timer_less_def split: if_splits)

lemma timer_less_update:
  "a \<noteq> p \<Longrightarrow> b \<noteq> p \<Longrightarrow> timer_less (h[p := t]) a b = timer_less h a b"
  by (simp add: timer_less_def)

lemma timer_less_append:
  "a < length h \<Longrightarrow> b < length h \<Longrightarrow> timer_less (h @ x) a b = timer_less h a b"
  by (simp add: timer_less_def nth_append)

section \<open>The invariant\<close>

text \<open>The armed timers: those the set holds.  They are exactly the timers that are not canceled, they
  belong to the manager and have a callback, and the set is ordered.\<close>

definition timer_ids :: "'f timer_manager \<Rightarrow> nat list" where
  "timer_ids m = map fst (tm_timers m)"

definition timer_ok :: "nat \<Rightarrow> bool \<Rightarrow> 'f timer \<Rightarrow> bool" where
  "timer_ok p armed t \<longleftrightarrow> tm_sequence t = of_nat p \<and> tm_canceled t = (\<not> armed) \<and>
     tm_managed t = armed \<and> (tm_cb t \<noteq> None) = armed"

definition timers_inv :: "'f timer_manager \<Rightarrow> bool" where
  "timers_inv m \<longleftrightarrow>
     length (tm_heap m) < 2 ^ 64 \<and> tm_next_sequence m = of_nat (length (tm_heap m)) \<and>
     (\<forall>p < length (tm_heap m). timer_ok p (p \<in> fst ` set (tm_timers m)) (tm_heap m ! p)) \<and>
     (\<forall>p \<in> fst ` set (tm_timers m). p < length (tm_heap m)) \<and>
     map_inv (timer_less (tm_heap m)) (tm_timers m)"

definition sequenced :: "'f timer list \<Rightarrow> bool" where
  "sequenced h \<longleftrightarrow> length h \<le> 2 ^ 64 \<and> (\<forall>p < length h. tm_sequence (h ! p) = of_nat p)"

lemma sequence_inj: "p < 2 ^ 64 \<Longrightarrow> q < 2 ^ 64 \<Longrightarrow> (of_nat p :: u64) = of_nat q \<longleftrightarrow> p = q"
  by (auto dest!: arg_cong [where f = unat] simp: unat_of_nat)

lemma equiv_same: "sequenced h \<Longrightarrow> p < length h \<Longrightarrow> q < length h \<Longrightarrow> strict_weak_order.equiv (timer_less h) p q \<longleftrightarrow> p = q"
  using sequence_inj [of p q] by (auto simp: tl.equiv_def timer_less_def sequenced_def)

lemma ordered_update:
  "p \<notin> fst ` set s \<Longrightarrow> map_inv (timer_less (h[p := t])) s = map_inv (timer_less h) s"
  by (rule map_inv_cong) (metis timer_less_update)

lemma set_insert_facts:
  assumes "sequenced h" "map_inv (timer_less h) s" "\<forall>q \<in> fst ` set s. q < length h" "p < length h" "p \<notin> fst ` set s"
  shows "map_inv (timer_less h) (set_insert h p s)"
    and "\<exists>xs ys. s = xs @ ys \<and> set_insert h p s = xs @ (p, ()) # ys"
proof -
  show "map_inv (timer_less h) (set_insert h p s)" by (rule tl.try_emplace_inv [OF assms(2)])
  have "\<forall>e \<in> set s. \<not> strict_weak_order.equiv (timer_less h) (fst e) p"
    using equiv_same [OF assms(1)] assms(3-5) by (metis imageI)
  then have "set_find h p s = None" using tl.find_None_iff [OF assms(2)] by blast
  from tl.emplace_split [OF this] show "\<exists>xs ys. s = xs @ ys \<and> set_insert h p s = xs @ (p, ()) # ys" .
qed

lemma set_insert_ids:
  assumes "sequenced h" "map_inv (timer_less h) s" "\<forall>q \<in> fst ` set s. q < length h" "p < length h" "p \<notin> fst ` set s"
  shows "fst ` set (set_insert h p s) = insert p (fst ` set s)"
proof -
  obtain xs ys where "s = xs @ ys" "set_insert h p s = xs @ (p, ()) # ys"
    using set_insert_facts(2) [OF assms] by blast
  then show ?thesis by auto
qed

lemma set_erase_ids:
  assumes "sequenced h" "map_inv (timer_less h) s" "\<forall>q \<in> fst ` set s. q < length h" "p < length h"
  shows "fst ` set (set_erase h p s) = fst ` set s - {p}"
proof -
  have "\<forall>e \<in> set s. strict_weak_order.equiv (timer_less h) (fst e) p = (fst e = p)"
    using equiv_same [OF assms(1)] assms(3,4) by blast
  then show ?thesis using tl.erase_set [OF assms(2), of p] by auto
qed

lemma set_find_ids:
  assumes "sequenced h" "map_inv (timer_less h) s" "\<forall>q \<in> fst ` set s. q < length h" "p < length h"
  shows "set_find h p s = None \<longleftrightarrow> p \<notin> fst ` set s"
proof -
  have "\<forall>e \<in> set s. strict_weak_order.equiv (timer_less h) (fst e) p = (fst e = p)"
    using equiv_same [OF assms(1)] assms(3,4) by blast
  then show ?thesis using tl.find_None_iff [OF assms(2), of p] by auto
qed

lemma timers_invD:
  assumes "timers_inv m"
  shows "sequenced (tm_heap m)" "map_inv (timer_less (tm_heap m)) (tm_timers m)"
    "\<forall>q \<in> fst ` set (tm_timers m). q < length (tm_heap m)"
    "p < length (tm_heap m) \<Longrightarrow> timer_ok p (p \<in> fst ` set (tm_timers m)) (tm_heap m ! p)"
  using assms by (auto simp: timers_inv_def sequenced_def timer_ok_def)

text \<open>Changing one timer that is out of the set, and putting it back or leaving it out.\<close>

lemma put_timer_inv:
  assumes inv: "timers_inv m" and p: "p < length (tm_heap m)"
    and s: "map_inv (timer_less (tm_heap m)) s" "fst ` set s = fst ` set (tm_timers m) - {p}"
    and t: "timer_ok p True t"
  shows "timers_inv (m\<lparr> tm_heap := (tm_heap m)[p := t], tm_timers := set_insert ((tm_heap m)[p := t]) p s \<rparr>)"
    (is "timers_inv ?m")
proof -
  let ?h = "(tm_heap m)[p := t]"
  have "tm_sequence (?h ! q) = of_nat q" if "q < length (tm_heap m)" for q
    using timers_invD(1) [OF inv] t that by (cases "q = p") (simp_all add: sequenced_def timer_ok_def)
  then have seq: "sequenced ?h" using timers_invD(1) [OF inv] by (simp add: sequenced_def)
  have ord: "map_inv (timer_less ?h) s" using s by (simp add: ordered_update)
  have ids: "\<forall>q \<in> fst ` set s. q < length ?h" using timers_invD(3) [OF inv] unfolding s(2) length_list_update by blast
  have p': "p < length ?h" "p \<notin> fst ` set s" using p s(2) by simp_all
  have "fst ` set (set_insert ?h p s) = insert p (fst ` set s)" by (rule set_insert_ids [OF seq ord ids p'])
  then have ids': "fst ` set (set_insert ?h p s) = insert p (fst ` set (tm_timers m))" using s(2) by auto
  have "timer_ok q (q \<in> fst ` set (set_insert ?h p s)) (?h ! q)" if "q < length ?h" for q
    using timers_invD(4) [OF inv, of q] that t unfolding ids' by (cases "q = p") auto
  then show ?thesis
    using inv set_insert_facts(1) [OF seq ord ids p'] ids' p
    by (auto simp: timers_inv_def)
qed

lemma drop_timer_inv:
  assumes inv: "timers_inv m" and p: "p < length (tm_heap m)"
    and s: "map_inv (timer_less (tm_heap m)) s" "fst ` set s = fst ` set (tm_timers m) - {p}"
    and t: "timer_ok p False t"
  shows "timers_inv (m\<lparr> tm_heap := (tm_heap m)[p := t], tm_timers := s \<rparr>)"
proof -
  let ?h = "(tm_heap m)[p := t]"
  have "map_inv (timer_less ?h) s" using s by (simp add: ordered_update)
  moreover have "timer_ok q (q \<in> fst ` set s) (?h ! q)" if "q < length ?h" for q
    using timers_invD(4) [OF inv, of q] that t unfolding s(2) by (cases "q = p") auto
  ultimately show ?thesis using inv s(2) by (auto simp: timers_inv_def)
qed

lemma front_facts:
  assumes inv: "timers_inv m" and s: "tm_timers m = (p, u) # s"
  shows "p < length (tm_heap m)" "timer_ok p True (tm_heap m ! p)"
    "map_inv (timer_less (tm_heap m)) s" "fst ` set s = fst ` set (tm_timers m) - {p}"
    "\<forall>q \<in> fst ` set s. tm_next (tm_heap m ! p) \<le> tm_next (tm_heap m ! q)"
proof -
  show p: "p < length (tm_heap m)" using timers_invD(3) [OF inv] s by simp
  show "timer_ok p True (tm_heap m ! p)" using timers_invD(4) [OF inv p] s by simp
  have o: "\<forall>e \<in> set s. timer_less (tm_heap m) p (fst e)" "map_inv (timer_less (tm_heap m)) s"
    using timers_invD(2) [OF inv] s by simp_all
  show "map_inv (timer_less (tm_heap m)) s" by (rule o(2))
  have "p \<notin> fst ` set s" using o(1) tl.irrefl by blast
  then show "fst ` set s = fst ` set (tm_timers m) - {p}" using s by auto
  show "\<forall>q \<in> fst ` set s. tm_next (tm_heap m ! p) \<le> tm_next (tm_heap m ! q)"
    using o(1) by (auto simp: timer_less_def less_imp_le split: if_splits)
qed

lemma onTimerInsertedAtFront_same [simp]:
  "tm_heap (onTimerInsertedAtFront b m) = tm_heap m" "tm_timers (onTimerInsertedAtFront b m) = tm_timers m"
  "tm_next_sequence (onTimerInsertedAtFront b m) = tm_next_sequence m"
  "timers_inv (onTimerInsertedAtFront b m) = timers_inv m" "timer_ids (onTimerInsertedAtFront b m) = timer_ids m"
  by (auto simp: onTimerInsertedAtFront_def timers_inv_def timer_ids_def)

lemma expire_front_inv:
  assumes inv: "timers_inv m" and s: "tm_timers m = e # s" and c: "expire_front now (fst e) (m, cbs) = (m', cbs')"
  shows "timers_inv m'"
proof -
  obtain p u where e: "e = (p, u)" by (cases e)
  note f = front_facts [OF inv s [unfolded e]]
  have "\<not> tm_canceled (tm_heap m ! p)" using f(2) by (simp add: timer_ok_def)
  then show ?thesis
    using c put_timer_inv [OF inv f(1,3,4)] drop_timer_inv [OF inv f(1,3,4)] f(2) s e
    by (auto simp: expire_front_def Let_def timer_ok_def split: if_splits)
qed

lemma add_timer_inv:
  assumes inv: "timers_inv m" and room: "length (tm_heap m) + 1 < 2 ^ 64" and cb: "cb \<noteq> None"
  shows "timers_inv (snd (addTimer now ms cb recurring m))"
    and "fst ` set (tm_timers (snd (addTimer now ms cb recurring m))) = insert (length (tm_heap m)) (fst ` set (tm_timers m))"
proof -
  define t where "t = \<lparr> tm_managed = True, tm_ms = ms, tm_next = now + ms, tm_sequence = tm_next_sequence m,
                     tm_recurring = recurring, tm_canceled = False, tm_cb = cb \<rparr>"
  let ?p = "length (tm_heap m)" and ?h = "tm_heap m @ [t]" and ?s = "tm_timers m"
  have ns: "tm_next_sequence m = of_nat ?p" using inv by (simp add: timers_inv_def)
  have seq: "sequenced ?h" using timers_invD(1) [OF inv] room ns
    by (auto simp: sequenced_def nth_append t_def less_Suc_eq)
  have ids: "\<forall>q \<in> fst ` set ?s. q < length ?h" using timers_invD(3) [OF inv] by auto
  have "map_inv (timer_less ?h) ?s = map_inv (timer_less (tm_heap m)) ?s"
    by (rule map_inv_cong) (use timers_invD(3) [OF inv] timer_less_append in blast)
  then have ord: "map_inv (timer_less ?h) ?s" using timers_invD(2) [OF inv] by simp
  have p: "?p < length ?h" "?p \<notin> fst ` set ?s" using timers_invD(3) [OF inv] by auto
  have ids': "fst ` set (set_insert ?h ?p ?s) = insert ?p (fst ` set ?s)" by (rule set_insert_ids [OF seq ord ids p])
  have e: "snd (addTimer now ms cb recurring m) = onTimerInsertedAtFront (at_front ?h ?p ?s)
      (m\<lparr> tm_heap := ?h, tm_timers := set_insert ?h ?p ?s, tm_next_sequence := tm_next_sequence m + 1 \<rparr>)"
    using cb by (auto simp: addTimer_def Let_def simp flip: t_def)
  have "timer_ok q (q \<in> insert ?p (fst ` set ?s)) (?h ! q)" if "q < length ?h" for q
    using timers_invD(4) [OF inv, of q] that cb ns
    by (cases "q = ?p") (auto simp: nth_append timer_ok_def t_def)
  then show "timers_inv (snd (addTimer now ms cb recurring m))"
    using inv room set_insert_facts(1) [OF seq ord ids p] ids ids' ns unfolding e
    by (auto simp: timers_inv_def)
  show "fst ` set (tm_timers (snd (addTimer now ms cb recurring m))) = insert ?p (fst ` set ?s)"
    unfolding e using ids' by simp
qed

lemma erased_facts:
  assumes inv: "timers_inv m" and p: "p < length (tm_heap m)"
  shows "map_inv (timer_less (tm_heap m)) (set_erase (tm_heap m) p (tm_timers m))"
    "fst ` set (set_erase (tm_heap m) p (tm_timers m)) = fst ` set (tm_timers m) - {p}"
  using tl.erase_inv [OF timers_invD(2) [OF inv]] set_erase_ids [OF timers_invD(1-3) [OF inv] p] by auto

lemma reinsert_inv:
  "timers_inv m \<Longrightarrow> p < length (tm_heap m) \<Longrightarrow> timer_ok p True t \<Longrightarrow> timers_inv (snd (reinsert p t m))"
  using put_timer_inv [OF _ _ erased_facts] by (simp add: reinsert_def Let_def)

lemma timer_ok_updates:
  "timer_ok p b t \<Longrightarrow> timer_ok p b (t\<lparr> tm_next := n \<rparr>)" "timer_ok p b t \<Longrightarrow> timer_ok p b (t\<lparr> tm_ms := k, tm_next := n \<rparr>)"
  "timer_ok p b t \<Longrightarrow> timer_ok p False (clear_timer t)"
  by (auto simp: timer_ok_def clear_timer_def)

lemma armed_iff:
  assumes "timers_inv m" "p < length (tm_heap m)"
  shows "tm_managed (tm_heap m ! p) = (p \<in> fst ` set (tm_timers m))"
    "tm_canceled (tm_heap m ! p) = (p \<notin> fst ` set (tm_timers m))"
    "set_find (tm_heap m) p (tm_timers m) = None \<longleftrightarrow> p \<notin> fst ` set (tm_timers m)"
  using timers_invD(4) [OF assms] set_find_ids [OF timers_invD(1-3) [OF assms(1)] assms(2)]
  by (auto simp: timer_ok_def)

lemma cancel_inv:
  "timers_inv m \<Longrightarrow> p < length (tm_heap m) \<Longrightarrow> timers_inv (snd (timer_cancel p m))"
  using drop_timer_inv [OF _ _ erased_facts, of m p "clear_timer (tm_heap m ! p)"]
    timers_invD(4) [of m p] timer_ok_updates(3) [of p _ "tm_heap m ! p"]
  by (auto simp: timer_cancel_def cancelTimer_def Let_def)

lemma armed_ok:
  "timers_inv m \<Longrightarrow> p < length (tm_heap m) \<Longrightarrow> tm_managed (tm_heap m ! p) \<Longrightarrow> timer_ok p True (tm_heap m ! p)"
  using timers_invD(4) [of m p] by (auto simp: timer_ok_def)

lemma refresh_inv:
  "timers_inv m \<Longrightarrow> p < length (tm_heap m) \<Longrightarrow> timers_inv (snd (timer_refresh now p m))"
  by (auto simp: timer_refresh_def refreshTimer_def Let_def intro!: reinsert_inv timer_ok_updates(1) armed_ok)

lemma reset_inv:
  "timers_inv m \<Longrightarrow> p < length (tm_heap m) \<Longrightarrow> timers_inv (snd (timer_reset now ms from_now p m))"
  by (auto simp: timer_reset_def resetTimer_def Let_def intro!: reinsert_inv timer_ok_updates(2) armed_ok)

section \<open>The scan\<close>

text \<open>The timers a scan at \<open>now\<close> fires, in order, and what it makes of each.\<close>

definition due :: "u64 \<Rightarrow> 'f timer_manager \<Rightarrow> nat list" where
  "due now m = filter (\<lambda>p. tm_next (tm_heap m ! p) \<le> now) (timer_ids m)"

definition fired :: "u64 \<Rightarrow> 'f timer \<Rightarrow> 'f timer" where
  "fired now t = (if tm_recurring t then t\<lparr> tm_next := now + max (tm_ms t) 1 \<rparr> else clear_timer t)"

text \<open>A recurring timer whose next expiry does not fit in 64 bits.\<close>

definition overflows :: "u64 \<Rightarrow> 'f timer \<Rightarrow> bool" where
  "overflows now t \<longleftrightarrow> tm_recurring t \<and> unat now + max (unat (tm_ms t)) 1 \<ge> 2 ^ 64"

lemma max_one_unat: "unat (max w 1 :: u64) = max (unat w) 1"
  by (simp add: max_def word_le_nat_alt)

lemma next_expiry:
  "unat now + max (unat ms) 1 < 2 ^ 64 \<longleftrightarrow> now < now + max ms (1 :: u64)"
proof -
  have "now < now + max ms 1 \<longleftrightarrow> unat now + unat (max ms 1) < 2 ^ 64"
  proof (cases "unat now + unat (max ms 1) < 2 ^ 64")
    case True
    then have "unat (now + max ms 1) = unat now + unat (max ms 1)" by (simp add: unat_word_ariths)
    then show ?thesis using True by (simp add: word_less_nat_alt max_one_unat)
  next
    case False
    have b: "unat w < 2 ^ 64" for w :: u64 using unsigned_less [of w] by simp
    have "unat (now + max ms 1) = (unat now + unat (max ms 1)) mod 2 ^ 64"
      by (simp add: unat_word_ariths)
    also have "\<dots> = unat now + unat (max ms 1) - 2 ^ 64"
      using False b [of now] b [of "max ms 1"] by (simp add: mod_if)
    also have "\<dots> < unat now" using False b [of "max ms 1"] by linarith
    finally show ?thesis using False by (simp add: word_less_nat_alt)
  qed
  then show ?thesis by (simp add: max_one_unat)
qed

lemma overflows_iff: "overflows now t \<longleftrightarrow> tm_recurring t \<and> \<not> now < now + max (tm_ms t) 1"
  using next_expiry [of now "tm_ms t"] by (auto simp: overflows_def not_less)

lemma due_empty:
  assumes inv: "timers_inv m" and s: "tm_timers m = e # s" "\<not> tm_next (tm_heap m ! fst e) \<le> now"
  shows "due now m = []"
proof -
  obtain p u where e: "e = (p, u)" by (cases e)
  have "\<forall>q \<in> fst ` set s. \<not> tm_next (tm_heap m ! q) \<le> now"
    using front_facts(5) [OF inv s(1) [unfolded e]] s(2) e by auto
  then show ?thesis using s e by (auto simp: due_def timer_ids_def filter_empty_conv)
qed

lemma expire_front_step:
  assumes inv: "timers_inv m" and s: "tm_timers m = e # s" and d: "tm_next (tm_heap m ! fst e) \<le> now"
  defines "p \<equiv> fst e"
  shows "\<exists>m1. expire_front now p (m, cbs) = (m1, cbs @ [tm_cb (tm_heap m ! p)]) \<and> timers_inv m1 \<and>
     tm_heap m1 = (tm_heap m)[p := fired now (tm_heap m ! p)] \<and> p < length (tm_heap m) \<and>
     due now m = p # filter (\<lambda>q. q \<noteq> p) (due now m) \<and>
     (\<not> overflows now (tm_heap m ! p) \<longrightarrow> due now m1 = filter (\<lambda>q. q \<noteq> p) (due now m)) \<and>
     (overflows now (tm_heap m ! p) \<longrightarrow> p \<in> set (due now m1)) \<and>
     (\<forall>q \<in> set (due now m). q \<noteq> p \<longrightarrow> q \<in> set (due now m1))"
proof -
  have e: "e = (p, ())" by (cases e) (simp add: p_def)
  let ?t = "tm_heap m ! p" and ?h = "tm_heap m"
  note f = front_facts [OF inv s [unfolded e]]
  have act: "\<not> tm_canceled ?t" using f(2) by (simp add: timer_ok_def)
  have np: "p \<notin> fst ` set s" using f(4) by simp
  have nps: "\<forall>q \<in> set (map fst s). q \<noteq> p" using np by auto
  let ?late = "\<lambda>h q. tm_next (h ! q) \<le> now"
  have due_m: "due now m = p # filter (?late ?h) (map fst s)"
    using d by (simp add: due_def timer_ids_def s e)
  have rest: "filter (\<lambda>q. q \<noteq> p) (due now m) = filter (?late ?h) (map fst s)"
  proof -
    have "filter (\<lambda>q. q \<noteq> p) (filter (?late ?h) (map fst s)) = filter (?late ?h) (map fst s)"
      by (rule filter_True) (use nps in auto)
    then show ?thesis unfolding due_m by (simp only: filter.simps simp_thms if_False)
  qed
  have same: "filter (?late (?h[p := t'])) (map fst zs) = filter (?late ?h) (map fst zs)"
    if "set zs \<subseteq> set s" for t' zs
  proof (rule filter_cong [OF refl])
    fix q assume "q \<in> set (map fst zs)"
    then have "q \<noteq> p" using nps that by auto
    then show "?late (?h[p := t']) q = ?late ?h q" by simp
  qed
  show ?thesis
  proof (cases "tm_recurring ?t")
    case False
    let ?m1 = "m\<lparr> tm_heap := ?h[p := fired now ?t], tm_timers := s \<rparr>"
    have run: "expire_front now p (m, cbs) = (?m1, cbs @ [tm_cb ?t])"
      using act False s by (simp add: expire_front_def fired_def clear_timer_def Let_def)
    have "due now ?m1 = filter (?late ?h) (map fst s)" by (simp add: due_def timer_ids_def same)
    moreover have "timers_inv ?m1"
      by (rule expire_front_inv [OF inv s, of now cbs]) (use run in \<open>simp add: e\<close>)
    moreover have "\<not> overflows now ?t" using False by (simp add: overflows_def)
    ultimately show ?thesis using run rest due_m f(1) by (intro exI [of _ ?m1]) simp
  next
    case True
    let ?n = "now + max (tm_ms ?t) 1"
    let ?h1 = "?h[p := fired now ?t]"
    let ?m1 = "m\<lparr> tm_heap := ?h1, tm_timers := set_insert ?h1 p s \<rparr>"
    have run: "expire_front now p (m, cbs) = (?m1, cbs @ [tm_cb ?t])"
      using act True s by (simp add: expire_front_def fired_def Let_def)
    have inv1: "timers_inv ?m1"
      by (rule expire_front_inv [OF inv s, of now cbs]) (use run in \<open>simp add: e\<close>)
    have seq: "sequenced ?h1" "map_inv (timer_less ?h1) s" "\<forall>q \<in> fst ` set s. q < length ?h1"
      using timers_invD(1) [OF inv1] f(3,4) np timers_invD(3) [OF inv] by (auto simp: ordered_update)
    obtain xs ys where xy: "s = xs @ ys" "set_insert ?h1 p s = xs @ (p, ()) # ys"
      using set_insert_facts(2) [OF seq _ np] f(1) by auto
    have next1: "tm_next (?h1 ! p) = ?n" using True f(1) by (simp add: fired_def)
    have split1: "due now ?m1 = filter (?late ?h) (map fst xs) @
        (if ?n \<le> now then [p] else []) @ filter (?late ?h) (map fst ys)"
    proof -
      have "set xs \<subseteq> set s" "set ys \<subseteq> set s" using xy(1) by auto
      then show ?thesis by (simp add: due_def timer_ids_def xy(2) same next1)
    qed
    have "overflows now ?t \<longleftrightarrow> ?n \<le> now" using True by (simp add: overflows_iff not_less)
    then show ?thesis using run inv1 rest due_m f(1) split1 xy(1)
      by (intro exI [of _ ?m1]) auto
  qed
qed

lemma expire_loop_exact:
  "timers_inv m \<Longrightarrow> \<forall>p \<in> set (due now m). \<not> overflows now (tm_heap m ! p) \<Longrightarrow>
   \<exists>m'. expire_loop now (m, cbs) = Some (m', cbs @ map (\<lambda>p. tm_cb (tm_heap m ! p)) (due now m)) \<and> timers_inv m' \<and>
     length (tm_heap m') = length (tm_heap m) \<and> due now m' = [] \<and>
     (\<forall>p < length (tm_heap m). tm_heap m' ! p =
        (if p \<in> set (due now m) then fired now (tm_heap m ! p) else tm_heap m ! p))"
proof (induction "length (due now m)" arbitrary: m cbs rule: less_induct)
  case less
  show ?case
  proof (cases "tm_timers m")
    case Nil
    then have "due now m = []" by (simp add: due_def timer_ids_def)
    then show ?thesis using Nil less.prems by (subst expire_loop.simps) simp
  next
    case (Cons e s)
    show ?thesis
    proof (cases "tm_next (tm_heap m ! fst e) \<le> now")
      case False
      then show ?thesis using Cons less.prems due_empty [OF less.prems(1) Cons False]
        by (subst expire_loop.simps) (simp add: not_le)
    next
      case True
      let ?p = "fst e"
      from expire_front_step [OF less.prems(1) Cons True, of cbs] obtain m1 where
        m1: "expire_front now ?p (m, cbs) = (m1, cbs @ [tm_cb (tm_heap m ! ?p)])" "timers_inv m1"
        "tm_heap m1 = (tm_heap m)[?p := fired now (tm_heap m ! ?p)]" "?p < length (tm_heap m)"
        "due now m = ?p # filter (\<lambda>q. q \<noteq> ?p) (due now m)"
        "\<not> overflows now (tm_heap m ! ?p) \<longrightarrow> due now m1 = filter (\<lambda>q. q \<noteq> ?p) (due now m)" by blast
      have pin: "?p \<in> set (due now m)" by (subst m1(5)) simp
      then have d1: "due now m1 = filter (\<lambda>q. q \<noteq> ?p) (due now m)" using m1(6) less.prems(2) by blast
      have "length (due now m) = Suc (length (due now m1))" by (subst m1(5)) (simp add: d1)
      then have "length (due now m1) < length (due now m)" by simp
      moreover have "\<forall>q \<in> set (due now m1). \<not> overflows now (tm_heap m1 ! q)"
        using less.prems(2) m1(3) by (auto simp: d1)
      ultimately obtain m' where m': "expire_loop now (m1, cbs @ [tm_cb (tm_heap m ! ?p)]) =
          Some (m', (cbs @ [tm_cb (tm_heap m ! ?p)]) @ map (\<lambda>p. tm_cb (tm_heap m1 ! p)) (due now m1))"
        "timers_inv m'" "length (tm_heap m') = length (tm_heap m1)" "due now m' = []"
        "\<forall>p < length (tm_heap m1). tm_heap m' ! p =
           (if p \<in> set (due now m1) then fired now (tm_heap m1 ! p) else tm_heap m1 ! p)"
        using less.hyps m1(2) by blast
      have "map (\<lambda>p. tm_cb (tm_heap m1 ! p)) (due now m1) = map (\<lambda>p. tm_cb (tm_heap m ! p)) (due now m1)"
        by (rule map_cong) (auto simp: d1 m1(3))
      moreover have "map (\<lambda>p. tm_cb (tm_heap m ! p)) (due now m) =
          tm_cb (tm_heap m ! ?p) # map (\<lambda>p. tm_cb (tm_heap m ! p)) (due now m1)"
        by (subst m1(5)) (simp add: d1)
      moreover have "expire_loop now (m, cbs) = expire_loop now (m1, cbs @ [tm_cb (tm_heap m ! ?p)])"
        using Cons linorder_not_less [THEN iffD2, OF True] m1(1) by (subst expire_loop.simps) simp
      moreover have "tm_heap m' ! p = (if p \<in> set (due now m) then fired now (tm_heap m ! p) else tm_heap m ! p)"
        if "p < length (tm_heap m)" for p
        using m'(5) that pin m1(3,4) by (cases "p = ?p") (auto simp: d1)
      ultimately show ?thesis using m' m1(3) by (intro exI [of _ m']) simp
    qed
  qed
qed

text \<open>A due timer whose next expiry overflows comes back due: the scan never ends.\<close>

definition doomed :: "u64 \<Rightarrow> 'f timer_manager \<Rightarrow> bool" where
  "doomed now m \<longleftrightarrow> timers_inv m \<and> (\<exists>p \<in> set (due now m). overflows now (tm_heap m ! p))"

lemma doomed_step:
  assumes "doomed now m"
  obtains e s m1 cbs1 where "tm_timers m = e # s" "\<not> now < tm_next (tm_heap m ! fst e)"
    "expire_front now (fst e) (m, cbs) = (m1, cbs1)" "doomed now m1"
proof -
  obtain p where inv: "timers_inv m" and p: "p \<in> set (due now m)" "overflows now (tm_heap m ! p)"
    using assms by (auto simp: doomed_def)
  then obtain e rest where t: "tm_timers m = e # rest"
    by (cases "tm_timers m") (auto simp: due_def timer_ids_def)
  have late: "tm_next (tm_heap m ! fst e) \<le> now" using due_empty [OF inv t] p by fastforce
  from expire_front_step [OF inv t late, of cbs] obtain m1 where
    m1: "expire_front now (fst e) (m, cbs) = (m1, cbs @ [tm_cb (tm_heap m ! fst e)])" "timers_inv m1"
    "tm_heap m1 = (tm_heap m)[fst e := fired now (tm_heap m ! fst e)]" "fst e < length (tm_heap m)"
    "overflows now (tm_heap m ! fst e) \<longrightarrow> fst e \<in> set (due now m1)"
    "\<forall>q \<in> set (due now m). q \<noteq> fst e \<longrightarrow> q \<in> set (due now m1)" by blast
  have "p \<in> set (due now m1)" using p m1(5,6) by (cases "p = fst e") auto
  moreover have "overflows now (tm_heap m1 ! p)"
    using p(2) m1(3,4) by (cases "p = fst e") (auto simp: overflows_def fired_def)
  ultimately have "doomed now m1" using m1(2) by (auto simp: doomed_def)
  then show thesis using that t linorder_not_less [THEN iffD2, OF late] m1(1) by blast
qed

lemma expire_loop_hangs:
  assumes "expire_loop now s = Some r"
  shows "\<not> doomed now (fst s)"
proof (rule expire_loop.raw_induct [where P = "\<lambda>now s r. \<not> doomed now (fst s)", OF _ assms])
  fix loop :: "u64 \<Rightarrow> 'a timer_manager \<times> 'a option list \<Rightarrow> ('a timer_manager \<times> 'a option list) option"
  fix now s r
  assume IH: "\<And>now s r. loop now s = Some r \<Longrightarrow> \<not> doomed now (fst s)"
    and body: "(case tm_timers (fst s) of [] \<Rightarrow> Some s
      | e # _ \<Rightarrow> if now < tm_next (tm_heap (fst s) ! fst e) then Some s
                  else loop now (expire_front now (fst e) s)) = Some r"
  obtain m cbs where s: "s = (m, cbs)" by (cases s)
  show "\<not> doomed now (fst s)"
  proof
    assume "doomed now (fst s)"
    then have d: "doomed now m" by (simp add: s)
    obtain e rest m1 cbs1 where "tm_timers m = e # rest" "\<not> now < tm_next (tm_heap m ! fst e)"
      "expire_front now (fst e) (m, cbs) = (m1, cbs1)" "doomed now m1"
      by (rule doomed_step [OF d])
    with IH [of now "(m1, cbs1)" r] body s show False by simp
  qed
qed

section \<open>Runs of a manager\<close>

text \<open>One operation of a manager; \<open>fs\<close> are the callbacks it hands out to run.\<close>

inductive timer_step :: "'f timer_manager \<Rightarrow> 'f option list \<Rightarrow> 'f timer_manager \<Rightarrow> bool" where
  add: "length (tm_heap m) + 1 < 2 ^ 64 \<Longrightarrow> timer_step m [] (snd (addTimer now ms cb recurring m))"
| cancel: "p < length (tm_heap m) \<Longrightarrow> timer_step m [] (snd (timer_cancel p m))"
| refresh: "p < length (tm_heap m) \<Longrightarrow> timer_step m [] (snd (timer_refresh now p m))"
| reset: "p < length (tm_heap m) \<Longrightarrow> timer_step m [] (snd (timer_reset now ms from_now p m))"
| expire: "listExpiredCallbacks now [] m = Some (m', fs) \<Longrightarrow> timer_step m fs m'"
| clear: "timer_step m [] (clearTimers m)"

inductive timer_reach :: "'f timer_manager \<Rightarrow> bool" where
  "timer_reach TimerManager"
| "timer_reach m \<Longrightarrow> timer_step m fs m' \<Longrightarrow> timer_reach m'"

inductive_cases timer_stepE: "timer_step m fs m'"

lemma clear_heap:
  "distinct (map fst s) \<Longrightarrow> \<forall>q \<in> fst ` set s. q < length h \<Longrightarrow>
   length (fold (\<lambda>(p, _) h. h[p := clear_timer (h ! p)]) s h) = length h \<and>
   (\<forall>q < length h. fold (\<lambda>(p, _) h. h[p := clear_timer (h ! p)]) s h ! q =
      (if q \<in> fst ` set s then clear_timer (h ! q) else h ! q))"
proof (induction s arbitrary: h)
  case (Cons e s)
  obtain p u where e: "e = (p, u)" by (cases e)
  from Cons.IH [of "h[p := clear_timer (h ! p)]"] Cons.prems show ?case
    by (auto simp: e nth_list_update)
qed simp

lemma timers_distinct: "timers_inv m \<Longrightarrow> distinct (timer_ids m)"
proof -
  assume "timers_inv m"
  then have "map_inv (timer_less (tm_heap m)) (tm_timers m)" by (rule timers_invD)
  then have "distinct (map fst s)" if "map_inv (timer_less (tm_heap m)) s" for s
    using that
  proof (induction s)
    case (Cons e s)
    then show ?case using tl.irrefl by fastforce
  qed simp
  then show "distinct (timer_ids m)"
    using \<open>map_inv (timer_less (tm_heap m)) (tm_timers m)\<close> by (simp add: timer_ids_def)
qed

lemma clearTimers_facts:
  assumes inv: "timers_inv m"
  shows "timers_inv (clearTimers m)" "length (tm_heap (clearTimers m)) = length (tm_heap m)"
    "q < length (tm_heap m) \<Longrightarrow> tm_heap (clearTimers m) ! q =
       (if q \<in> fst ` set (tm_timers m) then clear_timer (tm_heap m ! q) else tm_heap m ! q)"
proof -
  have h: "length (tm_heap (clearTimers m)) = length (tm_heap m) \<and> (\<forall>q < length (tm_heap m).
      tm_heap (clearTimers m) ! q =
       (if q \<in> fst ` set (tm_timers m) then clear_timer (tm_heap m ! q) else tm_heap m ! q))"
    using clear_heap [OF timers_distinct [OF inv, unfolded timer_ids_def] timers_invD(3) [OF inv]]
    by (simp add: clearTimers_def)
  then show "length (tm_heap (clearTimers m)) = length (tm_heap m)"
    "q < length (tm_heap m) \<Longrightarrow> tm_heap (clearTimers m) ! q =
       (if q \<in> fst ` set (tm_timers m) then clear_timer (tm_heap m ! q) else tm_heap m ! q)" by auto
  have "timer_ok q False (tm_heap (clearTimers m) ! q)" if "q < length (tm_heap m)" for q
    using h that timers_invD(4) [OF inv that] by (auto simp: timer_ok_def clear_timer_def)
  moreover have "tm_timers (clearTimers m) = []" "tm_next_sequence (clearTimers m) = tm_next_sequence m"
    by (simp_all add: clearTimers_def)
  ultimately show "timers_inv (clearTimers m)" using inv h by (simp add: timers_inv_def)
qed

lemma expires_terminate:
  assumes "timers_inv m" "listExpiredCallbacks now cbs m = Some r"
  shows "\<forall>p \<in> set (due now m). \<not> overflows now (tm_heap m ! p)"
  using expire_loop_hangs [of now "(m, cbs)" r] assms by (auto simp: listExpiredCallbacks_def doomed_def)

lemma timer_step_facts:
  assumes "timer_step m fs m'" "timers_inv m"
  shows "timers_inv m' \<and> length (tm_heap m) \<le> length (tm_heap m') \<and>
    (\<forall>p < length (tm_heap m). tm_canceled (tm_heap m ! p) \<longrightarrow> tm_canceled (tm_heap m' ! p))"
  using assms
proof (cases rule: timer_step.cases)
  case (add now ms cb recurring)
  show ?thesis
  proof (cases "cb = None")
    case True
    then show ?thesis using add assms(2) by (simp add: addTimer_def)
  next
    case False
    have "length (tm_heap m) \<le> length (tm_heap m') \<and>
        (\<forall>p < length (tm_heap m). tm_canceled (tm_heap m ! p) \<longrightarrow> tm_canceled (tm_heap m' ! p))"
      using add False by (auto simp: addTimer_def Let_def nth_append)
    then show ?thesis using add_timer_inv(1) [OF assms(2) add(3) False] add by simp
  qed
next
  case (cancel p)
  have "tm_heap m' = tm_heap m \<or> tm_heap m' = (tm_heap m)[p := clear_timer (tm_heap m ! p)]"
    using cancel by (auto simp: timer_cancel_def cancelTimer_def Let_def)
  then show ?thesis using cancel_inv [OF assms(2) cancel(3)] cancel
    by (auto simp: nth_list_update clear_timer_def)
next
  case (refresh p now)
  have "tm_heap m' = tm_heap m \<or> (\<exists>n. tm_heap m' = (tm_heap m)[p := (tm_heap m ! p)\<lparr> tm_next := n \<rparr>])"
    using refresh by (auto simp: timer_refresh_def refreshTimer_def reinsert_def Let_def)
  then show ?thesis using refresh_inv [OF assms(2) refresh(3)] refresh
    by (auto simp: nth_list_update)
next
  case (reset p now ms from_now)
  have "tm_heap m' = tm_heap m \<or> (\<exists>k n. tm_heap m' = (tm_heap m)[p := (tm_heap m ! p)\<lparr> tm_ms := k, tm_next := n \<rparr>])"
    using reset by (auto simp: timer_reset_def resetTimer_def reinsert_def Let_def)
  then show ?thesis using reset_inv [OF assms(2) reset(3)] reset
    by (auto simp: nth_list_update)
next
  case (expire now)
  note no = expires_terminate [OF assms(2) expire]
  from expire_loop_exact [OF assms(2) no, of "[]"] expire obtain
    "timers_inv m'" "length (tm_heap m') = length (tm_heap m)"
    "\<forall>p < length (tm_heap m). tm_heap m' ! p =
        (if p \<in> set (due now m) then fired now (tm_heap m ! p) else tm_heap m ! p)"
    by (auto simp: listExpiredCallbacks_def)
  then show ?thesis by (auto simp: fired_def clear_timer_def)
next
  case clear
  then show ?thesis using clearTimers_facts [OF assms(2)] by (auto simp: clear_timer_def)
qed

lemma TimerManager_inv: "timers_inv TimerManager"
  by (simp add: timers_inv_def TimerManager_def)

lemma timer_reach_inv: "timer_reach m \<Longrightarrow> timers_inv m"
  by (induction rule: timer_reach.induct) (auto simp: TimerManager_inv dest: timer_step_facts)

section \<open>Properties\<close>

definition demo_manager :: "nat timer_manager" where
  "demo_manager = snd (addTimer 0 3 (Some 30) True (snd (addTimer 0 3 (Some 31) False
     (snd (addTimer 0 9 (Some 90) False TimerManager)))))"

lemma demo_manager_reach: "timer_reach demo_manager"
proof -
  have l: "length (tm_heap (snd (addTimer now ms cb r m))) \<le> Suc (length (tm_heap m))"
    for now ms cb r and m :: "nat timer_manager"
    by (simp add: addTimer_def Let_def)
  have len: "length (tm_heap (TimerManager :: nat timer_manager)) = 0" by (simp add: TimerManager_def)
  show ?thesis unfolding demo_manager_def
    using l [of 0 3 "Some 31" False "snd (addTimer 0 9 (Some 90) False TimerManager)"]
      l [of 0 9 "Some 90" False TimerManager] len
    by (intro timer_reach.intros(2) [OF _ timer_step.add] timer_reach.intros(1)) simp_all
qed

lemma demo_due: "due 5 demo_manager = [1, 2] \<and> map (\<lambda>p. tm_cb (tm_heap demo_manager ! p)) [1, 2] = [Some 31, Some 30]"
  by code_simp

lemma demo_ends: "\<forall>p \<in> set (due 5 demo_manager). \<not> overflows 5 (tm_heap demo_manager ! p)"
proof -
  have "map (\<lambda>p. tm_ms (tm_heap demo_manager ! p)) [1, 2] = [3, 3]" by code_simp
  then show ?thesis by (auto simp: demo_due overflows_def)
qed

text \<open>C17: A scan for expired timers fires each timer that is due exactly once, in the order of expiry and
  then of creation, and no other; a recurring timer is armed again at one interval (at least a
  millisecond) from now, a one-shot timer is spent, every other timer is as it was, and no due timer
  is left.\<close>

theorem expired_callbacks_exact:
  assumes "timer_reach m" "\<forall>p \<in> set (due now m). \<not> overflows now (tm_heap m ! p)"
  shows "\<exists>m'. listExpiredCallbacks now cbs m =
       Some (m', cbs @ map (\<lambda>p. tm_cb (tm_heap m ! p)) (due now m)) \<and>
     distinct (due now m) \<and> due now m' = [] \<and>
     (\<forall>p < length (tm_heap m). tm_heap m' ! p =
        (if p \<in> set (due now m) then fired now (tm_heap m ! p) else tm_heap m ! p))"
proof -
  have inv: "timers_inv m" by (rule timer_reach_inv [OF assms(1)])
  have "distinct (due now m)" using timers_distinct [OF inv] by (simp add: due_def)
  then show ?thesis using expire_loop_exact [OF inv assms(2), of cbs]
    by (auto simp: listExpiredCallbacks_def)
qed

theorem expired_callbacks_exact_witness:
  "\<exists>m'. listExpiredCallbacks 5 [] demo_manager = Some (m', [Some 31, Some 30]) \<and> due 5 m' = []"
  using expired_callbacks_exact [OF demo_manager_reach demo_ends, of "[]"] demo_due by auto

text \<open>C29: The scan ends exactly when no due recurring timer has an interval that, added to the clock,
  overflows 64 bits: the code guards against an interval of 0 but such a timer is put back already
  due, and the scan, which holds the manager's mutex, fires it for ever.\<close>

theorem expired_callbacks_terminates:
  assumes "timer_reach m"
  shows "listExpiredCallbacks now cbs m \<noteq> None \<longleftrightarrow> (\<forall>p \<in> set (due now m). \<not> overflows now (tm_heap m ! p))"
  using expires_terminate [OF timer_reach_inv [OF assms], of now cbs]
    expire_loop_exact [OF timer_reach_inv [OF assms], of now cbs]
  by (auto simp: listExpiredCallbacks_def)

definition hanging_manager :: "nat timer_manager" where
  "hanging_manager = snd (timer_reset 5 (- 1) True 0 (snd (addTimer 0 3 (Some 7) True TimerManager)))"

lemma hanging_manager_reach: "timer_reach hanging_manager"
  unfolding hanging_manager_def
  by (rule timer_reach.intros(2) [OF timer_reach.intros(2) [OF timer_reach.intros(1) timer_step.add] timer_step.reset])
     (simp_all add: TimerManager_def addTimer_def Let_def)

theorem expired_callbacks_terminates_witness:
  "listExpiredCallbacks 6 [] hanging_manager = None"
proof -
  have "due 6 hanging_manager = [0] \<and> tm_recurring (tm_heap hanging_manager ! 0) \<and>
      tm_ms (tm_heap hanging_manager ! 0) = - 1 \<and> \<not> (6 :: u64) < 6 + max (- 1) 1" by code_simp
  then have "\<not> (\<forall>p \<in> set (due 6 hanging_manager). \<not> overflows 6 (tm_heap hanging_manager ! p))"
    by (auto simp: overflows_iff)
  then show ?thesis using expired_callbacks_terminates [OF hanging_manager_reach, of 6 "[]"] by blast
qed

text \<open>C31: In every state the operations reach, the ordered set holds exactly the timers that are neither
  spent nor canceled, each once and in order, all belonging to the manager and with their callback;
  and no operation brings a spent or canceled timer back.\<close>

theorem timer_manager_invariant:
  assumes "timer_reach m" "timer_step m fs m'"
  shows "distinct (timer_ids m') \<and> map_inv (timer_less (tm_heap m')) (tm_timers m') \<and>
     (\<forall>p < length (tm_heap m'). (p \<in> set (timer_ids m') \<longleftrightarrow> \<not> tm_canceled (tm_heap m' ! p)) \<and>
        (tm_managed (tm_heap m' ! p) \<longleftrightarrow> \<not> tm_canceled (tm_heap m' ! p)) \<and>
        (tm_cb (tm_heap m' ! p) \<noteq> None \<longleftrightarrow> \<not> tm_canceled (tm_heap m' ! p))) \<and>
     (\<forall>p < length (tm_heap m). tm_canceled (tm_heap m ! p) \<longrightarrow> tm_canceled (tm_heap m' ! p))"
proof -
  note f = timer_step_facts [OF assms(2) timer_reach_inv [OF assms(1)]]
  then have inv: "timers_inv m'" by blast
  have "\<forall>p < length (tm_heap m'). (p \<in> set (timer_ids m') \<longleftrightarrow> \<not> tm_canceled (tm_heap m' ! p)) \<and>
        (tm_managed (tm_heap m' ! p) \<longleftrightarrow> \<not> tm_canceled (tm_heap m' ! p)) \<and>
        (tm_cb (tm_heap m' ! p) \<noteq> None \<longleftrightarrow> \<not> tm_canceled (tm_heap m' ! p))"
    using timers_invD(4) [OF inv] by (auto simp: timer_ok_def timer_ids_def)
  then show ?thesis using timers_distinct [OF inv] timers_invD(2) [OF inv] f by blast
qed

theorem timer_manager_invariant_witness:
  "distinct (timer_ids (snd (timer_cancel 1 demo_manager)))"
proof -
  have "length (tm_heap demo_manager) = 3" by code_simp
  then have "timer_step demo_manager [] (snd (timer_cancel 1 demo_manager))" by (intro timer_step.cancel) simp
  from timer_manager_invariant [OF demo_manager_reach this] show ?thesis by blast
qed

text \<open>Canceling, refreshing or resetting reports success exactly for an armed timer; after a
  successful cancel the timer is out of the set for good, and a refresh or reset leaves it armed with
  the expiry asked for.\<close>

theorem timer_handle_operations:
  assumes "timer_reach m" "p < length (tm_heap m)"
  shows "fst (timer_cancel p m) = (p \<in> set (timer_ids m)) \<and>
     fst (timer_refresh now p m) = (p \<in> set (timer_ids m)) \<and>
     fst (timer_reset now ms from_now p m) = (p \<in> set (timer_ids m)) \<and>
     p \<notin> set (timer_ids (snd (timer_cancel p m))) \<and>
     (p \<in> set (timer_ids m) \<longrightarrow>
        p \<in> set (timer_ids (snd (timer_refresh now p m))) \<and>
        tm_next (tm_heap (snd (timer_refresh now p m)) ! p) = now + tm_ms (tm_heap m ! p) \<and>
        p \<in> set (timer_ids (snd (timer_reset now ms from_now p m))) \<and>
        tm_next (tm_heap (snd (timer_reset now ms from_now p m)) ! p) =
          (if from_now then now else tm_next (tm_heap m ! p) - tm_ms (tm_heap m ! p)) + ms)"
proof -
  have inv: "timers_inv m" by (rule timer_reach_inv [OF assms(1)])
  note armed = armed_iff [OF inv assms(2)]
  have c: "timers_inv (snd (timer_cancel p m))" by (rule cancel_inv [OF inv assms(2)])
  have r: "timers_inv (snd (timer_refresh now p m))" by (rule refresh_inv [OF inv assms(2)])
  have s: "timers_inv (snd (timer_reset now ms from_now p m))" by (rule reset_inv [OF inv assms(2)])
  show ?thesis
  proof (cases "p \<in> fst ` set (tm_timers m)")
    case False
    then show ?thesis using armed
      by (simp add: timer_cancel_def timer_refresh_def timer_reset_def timer_ids_def)
  next
    case True
    have hc: "tm_heap (snd (timer_cancel p m)) = (tm_heap m)[p := clear_timer (tm_heap m ! p)]"
      and fc: "fst (timer_cancel p m)"
      using True armed by (simp_all add: timer_cancel_def cancelTimer_def Let_def)
    have hr: "tm_heap (snd (timer_refresh now p m)) =
        (tm_heap m)[p := (tm_heap m ! p)\<lparr> tm_next := now + tm_ms (tm_heap m ! p) \<rparr>]"
      and fr: "fst (timer_refresh now p m)"
      using True armed by (simp_all add: timer_refresh_def refreshTimer_def reinsert_def Let_def)
    have hs: "tm_heap (snd (timer_reset now ms from_now p m)) = (tm_heap m)[p := (tm_heap m ! p)\<lparr> tm_ms := ms,
        tm_next := (if from_now then now else tm_next (tm_heap m ! p) - tm_ms (tm_heap m ! p)) + ms \<rparr>]"
      and fs: "fst (timer_reset now ms from_now p m)"
      using True armed by (simp_all add: timer_reset_def resetTimer_def reinsert_def Let_def)
    have "p \<notin> set (timer_ids (snd (timer_cancel p m)))"
      using armed_iff(2) [OF c, of p] assms(2) by (simp add: hc timer_ids_def clear_timer_def)
    moreover have "p \<in> set (timer_ids (snd (timer_refresh now p m)))"
      using armed_iff(2) [OF r, of p] assms(2) armed(2) True by (simp add: hr timer_ids_def)
    moreover have "p \<in> set (timer_ids (snd (timer_reset now ms from_now p m)))"
      using armed_iff(2) [OF s, of p] assms(2) armed(2) True by (simp add: hs timer_ids_def)
    ultimately show ?thesis using True fc fr fs hr hs assms(2) by (simp add: timer_ids_def)
  qed
qed

theorem timer_handle_operations_witness:
  "fst (timer_cancel 1 demo_manager) \<and> 1 \<notin> set (timer_ids (snd (timer_cancel 1 demo_manager)))"
proof -
  have "length (tm_heap demo_manager) = 3 \<and> 1 \<in> set (timer_ids demo_manager)" by code_simp
  then show ?thesis using timer_handle_operations [OF demo_manager_reach, of 1] by simp
qed

text \<open>The wait the event loop is given is right: it is the largest 64-bit value exactly when no timer
  is armed or the first is that far, 0 exactly when a timer is due, and otherwise the time to the
  earliest expiry, so that sleeping that long makes that timer due and no timer is due before.\<close>

theorem next_timer_exact:
  assumes "timer_reach m"
  shows "(timer_ids m = [] \<longrightarrow> getNextTimer now m = - 1) \<and>
     (timer_ids m \<noteq> [] \<longrightarrow> (getNextTimer now m = 0 \<longleftrightarrow> due now m \<noteq> []) \<and>
        (\<exists>p \<in> set (timer_ids m). (\<forall>q \<in> set (timer_ids m). tm_next (tm_heap m ! p) \<le> tm_next (tm_heap m ! q)) \<and>
           (now \<le> tm_next (tm_heap m ! p) \<longrightarrow> now + getNextTimer now m = tm_next (tm_heap m ! p))))"
proof (cases "tm_timers m")
  case Nil
  then show ?thesis by (simp add: timer_ids_def getNextTimer_def)
next
  case (Cons e s)
  have inv: "timers_inv m" by (rule timer_reach_inv [OF assms])
  obtain p u where e: "e = (p, u)" by (cases e)
  have first: "\<forall>q \<in> set (timer_ids m). tm_next (tm_heap m ! p) \<le> tm_next (tm_heap m ! q)"
    using front_facts(5) [OF inv Cons [unfolded e]] Cons e by (auto simp: timer_ids_def)
  have zero: "getNextTimer now m = 0 \<longleftrightarrow> tm_next (tm_heap m ! p) \<le> now"
    using Cons e by (auto simp: getNextTimer_def Let_def)
  have "due now m \<noteq> [] \<longleftrightarrow> tm_next (tm_heap m ! p) \<le> now"
  proof (cases "tm_next (tm_heap m ! p) \<le> now")
    case True
    then show ?thesis using Cons e by (simp add: due_def timer_ids_def)
  next
    case False
    then show ?thesis using due_empty [OF inv Cons] e by simp
  qed
  moreover have "p \<in> set (timer_ids m)" "timer_ids m \<noteq> []" using Cons e by (simp_all add: timer_ids_def)
  moreover have "now \<le> tm_next (tm_heap m ! p) \<longrightarrow> now + getNextTimer now m = tm_next (tm_heap m ! p)"
    using Cons e by (auto simp: getNextTimer_def Let_def)
  ultimately show ?thesis using first zero by blast
qed

theorem next_timer_exact_witness:
  "getNextTimer 5 demo_manager = 0"
proof -
  have "timer_ids demo_manager \<noteq> []" by code_simp
  then show ?thesis using next_timer_exact [OF demo_manager_reach, of 5] by (simp add: demo_due)
qed

end
