(* ===== verification/Io_Manager.thy ===== *)
theory Io_Manager
  imports Scheduler Timer
begin

text \<open>
  The IO manager (include/droplet/scheduler/iomanager.h, src/scheduler/iomanager*.cc): fd events on top
  of the scheduler's queue and the timers.  The epoll instance is a parameter: \<open>ctl\<close> is \<open>epoll_ctl\<close> on
  a state \<open>'k\<close> of the kernel, and what \<open>epoll_wait\<close> returns is an argument of the idle round.  A
  context is named by its fd, its index in \<open>fd_contexts_\<close>.  Each operation holds the lock of its context
  for its whole effect and is one step.
\<close>

section \<open>Events and contexts\<close>

definition NONE :: u32 where "NONE = 0"
definition READ :: u32 where "READ = 1"
definition WRITE :: u32 where "WRITE = 4"
definition kAllEvents :: u32 where "kAllEvents = READ OR WRITE"
definition kMaxTrackedFd :: int where "kMaxTrackedFd = 2 ^ 20"

definition EPOLLIN :: u32 where "EPOLLIN = 1"
definition EPOLLOUT :: u32 where "EPOLLOUT = 4"
definition EPOLLERR :: u32 where "EPOLLERR = 8"
definition EPOLLHUP :: u32 where "EPOLLHUP = 16"
definition EPOLLRDHUP :: u32 where "EPOLLRDHUP = 8192"

datatype epoll_op = EPOLL_CTL_ADD | EPOLL_CTL_MOD | EPOLL_CTL_DEL

datatype errno = EINVAL | EPERM | EEXIST | ENOENT | Sys int

type_synonym 'k epoll_ctl = "epoll_op \<Rightarrow> nat \<Rightarrow> u32 \<Rightarrow> 'k \<Rightarrow> errno option \<times> 'k"

record 'c event_context =
  ec_fiber :: "nat option"
  ec_cb :: "'c option"

definition ec_empty :: "'c event_context" where
  "ec_empty = \<lparr> ec_fiber = None, ec_cb = None \<rparr>"

definition event_empty :: "'c event_context \<Rightarrow> bool" where
  "event_empty h \<longleftrightarrow> ec_fiber h = None \<and> ec_cb h = None"

record 'c fd_context =
  fc_fd :: nat
  fc_events :: u32
  fc_read :: "'c event_context"
  fc_write :: "'c event_context"

definition FdContext :: "nat \<Rightarrow> 'c fd_context" where
  "FdContext fd = \<lparr> fc_fd = fd, fc_events = NONE, fc_read = ec_empty, fc_write = ec_empty \<rparr>"

record ('c, 'k) iomanager = "'c scheduler" +
  io_tickle_open :: bool
  io_wake_count :: u64
  io_tickles :: "u64 list"
  io_contexts :: "'c fd_context option list"
  io_pending :: u64
  io_force_stop :: bool
  io_epoll :: 'k
  io_timers :: "'c timer_manager"

definition IOManager_init :: "nat \<Rightarrow> bool \<Rightarrow> u64 \<Rightarrow> 'k \<Rightarrow> ('c, 'k) iomanager option" where
  "IOManager_init thread_count use_caller self k =
     map_option (\<lambda>s. scheduler.extend s
       \<lparr> io_tickle_open = True, io_wake_count = of_nat (max thread_count 1), io_tickles = [],
         io_contexts = [], io_pending = 0, io_force_stop = False, io_epoll = k,
         io_timers = TimerManager \<rparr>)
     (Scheduler_init thread_count use_caller self)"

definition validEvent :: "u32 \<Rightarrow> bool" where
  "validEvent event \<longleftrightarrow> event = READ \<or> event = WRITE"

definition toEpollEvents :: "u32 \<Rightarrow> u32" where
  "toEpollEvents events =
     (if events AND READ \<noteq> 0 then EPOLLIN else 0) OR (if events AND WRITE \<noteq> 0 then EPOLLOUT else 0)"

section \<open>Waking up and stopping\<close>

text \<open>The eventfd write; \<open>io_tickles\<close> collects the values written.\<close>

definition io_tickle :: "('c, 'k) iomanager \<Rightarrow> ('c, 'k) iomanager" where
  "io_tickle s =
     (if \<not> io_tickle_open s then s
      else s\<lparr> io_tickles := io_tickles s @ [if sc_stopping s then io_wake_count s else 1] \<rparr>)"

definition io_stopping :: "('c, 'k) iomanager \<Rightarrow> bool" where
  "io_stopping s =
     (if \<not> sc_stopping s then False
      else if io_force_stop s then True
      else if io_pending s \<noteq> 0 \<or> hasTimer (io_timers s) then False
      else sc_tasks s = [])"

definition trigger :: "'c event_context \<Rightarrow> ('c, 'k) iomanager \<Rightarrow> ('c, 'k) iomanager" where
  "trigger h s =
     (case ec_cb h of
        Some cb \<Rightarrow> schedule_cb io_tickle cb (- 1) s
      | None \<Rightarrow> (case ec_fiber h of
          Some p \<Rightarrow> schedule_fiber io_tickle p (- 1) s
        | None \<Rightarrow> s))"

section \<open>Registering and removing events\<close>

definition getFdContext :: "int \<Rightarrow> bool \<Rightarrow> ('c, 'k) iomanager \<Rightarrow> (errno + nat) option \<times> ('c, 'k) iomanager" where
  "getFdContext fd auto_create s =
     (if fd < 0 \<or> fd > kMaxTrackedFd then (Some (Inl EINVAL), s)
      else let i = nat fd
           in if length (io_contexts s) \<le> i \<and> \<not> auto_create then (None, s)
              else let cs = (if length (io_contexts s) \<le> i
                             then io_contexts s @ replicate (i + 1 - length (io_contexts s)) None
                             else io_contexts s);
                       cs = (if cs ! i = None \<and> auto_create then cs[i := Some (FdContext i)] else cs)
                   in (if cs ! i = None then None else Some (Inr i), s\<lparr> io_contexts := cs \<rparr>))"

abbreviation ctx_at :: "('c, 'k) iomanager \<Rightarrow> nat \<Rightarrow> 'c fd_context" where
  "ctx_at s i \<equiv> the (io_contexts s ! i)"

definition set_ctx :: "nat \<Rightarrow> 'c fd_context \<Rightarrow> ('c, 'k) iomanager \<Rightarrow> ('c, 'k) iomanager" where
  "set_ctx i c s = s\<lparr> io_contexts := (io_contexts s)[i := Some c] \<rparr>"

definition updateEpoll :: "'k epoll_ctl \<Rightarrow> 'c fd_context \<Rightarrow> u32 \<Rightarrow> ('c, 'k) iomanager \<Rightarrow> errno option \<times> ('c, 'k) iomanager" where
  "updateEpoll ctl c events s =
     (let operation = (if events = NONE then EPOLL_CTL_DEL
                       else if fc_events c = NONE then EPOLL_CTL_ADD else EPOLL_CTL_MOD);
          (e, k) = ctl operation (fc_fd c) (toEpollEvents events) (io_epoll s)
      in (e, s\<lparr> io_epoll := k \<rparr>))"

text \<open>\<open>current\<close> is the fiber that calls, with its stack size.  The result is the errno of a failure.\<close>

definition addEvent ::
  "'k epoll_ctl \<Rightarrow> nat \<times> u32 \<Rightarrow> int \<Rightarrow> u32 \<Rightarrow> 'c option \<Rightarrow> ('c, 'k) iomanager \<Rightarrow> errno option \<times> ('c, 'k) iomanager" where
  "addEvent ctl current fd event cb s =
     (if \<not> validEvent event then (Some EINVAL, s)
      else if cb = None \<and> snd current = 0 then (Some EPERM, s)
      else let handler = (case cb of
                            Some f \<Rightarrow> ec_empty\<lparr> ec_cb := Some f \<rparr>
                          | None \<Rightarrow> ec_empty\<lparr> ec_fiber := Some (fst current) \<rparr>)
           in case getFdContext fd True s of
                (Some (Inr i), s) \<Rightarrow>
                  let c = ctx_at s i
                  in if fc_events c AND event \<noteq> 0 then (Some EEXIST, s)
                     else let new_events = fc_events c OR event
                          in (case updateEpoll ctl c new_events s of
                               (Some e, s) \<Rightarrow> (Some e, s)
                             | (None, s) \<Rightarrow>
                                 let c = (if event = READ then c\<lparr> fc_read := handler \<rparr> else c\<lparr> fc_write := handler \<rparr>);
                                     c = c\<lparr> fc_events := new_events \<rparr>;
                                     s = (set_ctx i c s)\<lparr> io_pending := io_pending s + 1 \<rparr>
                                 in (None, io_tickle s))
              | (Some (Inl e), s) \<Rightarrow> (Some e, s)
              | (None, s) \<Rightarrow> (Some ENOENT, s))"

text \<open>Taking the events \<open>actual\<close> out of a context: the handlers that were there, and how many.\<close>

definition take_events :: "u32 \<Rightarrow> 'c fd_context \<Rightarrow> 'c event_context \<times> 'c event_context \<times> u64 \<times> 'c fd_context" where
  "take_events actual c =
     (let (r, n, c) = (if actual AND READ \<noteq> 0 then (fc_read c, 1, c\<lparr> fc_read := ec_empty \<rparr>) else (ec_empty, 0, c));
          (w, n, c) = (if actual AND WRITE \<noteq> 0 then (fc_write c, n + 1, c\<lparr> fc_write := ec_empty \<rparr>) else (ec_empty, n, c))
      in (r, w, n, c\<lparr> fc_events := fc_events c AND NOT actual \<rparr>))"

text \<open>What \<open>delEvent\<close> and \<open>cancelEvent\<close> share, up to the handlers they have taken out.\<close>

definition removeEvents ::
  "'k epoll_ctl \<Rightarrow> int \<Rightarrow> u32 \<Rightarrow> ('c, 'k) iomanager \<Rightarrow>
   (errno + 'c event_context \<times> 'c event_context) \<times> ('c, 'k) iomanager" where
  "removeEvents ctl fd event s =
     (if event = NONE \<or> event AND NOT kAllEvents \<noteq> 0 then (Inl EINVAL, s)
      else case getFdContext fd False s of
             (Some (Inr i), s) \<Rightarrow>
               let c = ctx_at s i; actual = fc_events c AND event
               in if actual = NONE then (Inl ENOENT, s)
                  else let new_events = fc_events c AND NOT event
                       in (case updateEpoll ctl c new_events s of
                            (Some e, s) \<Rightarrow> (Inl e, s)
                          | (None, s) \<Rightarrow>
                              let (r, w, removed, c) = take_events actual c
                              in (Inr (r, w), (set_ctx i (c\<lparr> fc_events := new_events \<rparr>) s)
                                                \<lparr> io_pending := io_pending s - removed \<rparr>))
           | (_, s) \<Rightarrow> (Inl ENOENT, s))"

definition delEvent :: "'k epoll_ctl \<Rightarrow> int \<Rightarrow> u32 \<Rightarrow> ('c, 'k) iomanager \<Rightarrow> errno option \<times> ('c, 'k) iomanager" where
  "delEvent ctl fd event s =
     (case removeEvents ctl fd event s of
        (Inl e, s) \<Rightarrow> (Some e, s)
      | (Inr _, s) \<Rightarrow> (None, io_tickle s))"

definition cancelEvent :: "'k epoll_ctl \<Rightarrow> int \<Rightarrow> u32 \<Rightarrow> ('c, 'k) iomanager \<Rightarrow> errno option \<times> ('c, 'k) iomanager" where
  "cancelEvent ctl fd event s =
     (case removeEvents ctl fd event s of
        (Inl e, s) \<Rightarrow> (Some e, s)
      | (Inr (r, w), s) \<Rightarrow> (None, io_tickle (trigger w (trigger r s))))"

definition cancelAll :: "'k epoll_ctl \<Rightarrow> int \<Rightarrow> ('c, 'k) iomanager \<Rightarrow> errno option \<times> ('c, 'k) iomanager" where
  "cancelAll ctl fd = cancelEvent ctl fd kAllEvents"

section \<open>Ready events\<close>

definition ready_mask :: "u32 \<Rightarrow> u32" where
  "ready_mask epoll_events =
     (let epoll_events = (if epoll_events AND (EPOLLERR OR EPOLLHUP OR EPOLLRDHUP) \<noteq> 0
                          then epoll_events OR (EPOLLIN OR EPOLLOUT) else epoll_events)
      in (if epoll_events AND EPOLLIN \<noteq> 0 then READ else NONE) OR
         (if epoll_events AND EPOLLOUT \<noteq> 0 then WRITE else NONE))"

definition processEvent :: "'k epoll_ctl \<Rightarrow> nat option \<Rightarrow> u32 \<Rightarrow> ('c, 'k) iomanager \<Rightarrow> bool \<times> ('c, 'k) iomanager" where
  "processEvent ctl data epoll_events s =
     (case data of
        None \<Rightarrow> (False, s)
      | Some i \<Rightarrow>
          let c = ctx_at s i; ready = ready_mask epoll_events AND fc_events c
          in if ready = NONE then (False, s)
             else let (_, s) = updateEpoll ctl c (fc_events c AND NOT ready) s;
                      (r, w, removed, c) = take_events ready c;
                      s = (set_ctx i c s)\<lparr> io_pending := io_pending s - removed \<rparr>
                  in (True, trigger w (trigger r s)))"

text \<open>The batch \<open>epoll_wait\<close> returned: the tickle tag, or a context.\<close>

datatype epoll_data = Tickle | Ctx "nat option"

fun process_ready :: "'k epoll_ctl \<Rightarrow> (epoll_data \<times> u32) list \<Rightarrow> bool \<Rightarrow> ('c, 'k) iomanager \<Rightarrow> bool \<times> ('c, 'k) iomanager" where
  "process_ready ctl [] ready s = (ready, s)"
| "process_ready ctl ((Tickle, _) # evs) ready s = process_ready ctl evs True s"
| "process_ready ctl ((Ctx d, e) # evs) ready s =
     (let (r, s) = processEvent ctl d e s in process_ready ctl evs (ready \<or> r) s)"

text \<open>The timeout of \<open>epoll_wait\<close>.\<close>

definition epoll_timeout :: "u64 \<Rightarrow> ('c, 'k) iomanager \<Rightarrow> int" where
  "epoll_timeout now s =
     (let next_timer = getNextTimer now (io_timers s)
      in if next_timer = - 1 then - 1
         else if unat next_timer > 2 ^ 31 - 1 then 2 ^ 31 - 1 else uint next_timer)"

text \<open>One round of \<open>idle\<close> after \<open>epoll_wait\<close> has returned a batch: its events, the expired timers,
  then whether the fiber returns (\<open>Some True\<close>), yields (\<open>Some False\<close>) or goes round again.  The outer
  \<open>None\<close> is the timer scan that does not end.\<close>

definition idle_round ::
  "'k epoll_ctl \<Rightarrow> u64 \<Rightarrow> (epoll_data \<times> u32) list \<Rightarrow> ('c, 'k) iomanager \<Rightarrow> (bool option \<times> ('c, 'k) iomanager) option" where
  "idle_round ctl now evs s =
     (let (ready, s) = process_ready ctl evs False s
      in case listExpiredCallbacks now [] (io_timers s) of
           None \<Rightarrow> None
         | Some (m, expired) \<Rightarrow>
             let s = s\<lparr> io_timers := m \<rparr>;
                 s = fold (\<lambda>cb s. schedule_cb io_tickle (the cb) (- 1) s) expired s
             in Some (if io_stopping s then Some True
                      else if ready \<or> expired \<noteq> [] then Some False else None, s))"

section \<open>Timers and tear-down\<close>

text \<open>A timer operation, with \<open>onTimerInsertedAtFront\<close> overridden by \<open>tickle\<close>.\<close>

definition with_timers :: "'c timer_manager \<Rightarrow> ('c, 'k) iomanager \<Rightarrow> ('c, 'k) iomanager" where
  "with_timers m s =
     (let s' = s\<lparr> io_timers := m \<rparr>
      in if tm_front_notices m \<noteq> tm_front_notices (io_timers s) then io_tickle s' else s')"

definition io_timer_op :: "('c timer_manager \<Rightarrow> 'r \<times> 'c timer_manager) \<Rightarrow> ('c, 'k) iomanager \<Rightarrow> 'r \<times> ('c, 'k) iomanager" where
  "io_timer_op f s = (let (r, m) = f (io_timers s) in (r, with_timers m s))"

definition clear_context :: "'k epoll_ctl \<Rightarrow> 'c fd_context \<Rightarrow> 'k \<Rightarrow> 'c fd_context \<times> 'k" where
  "clear_context ctl c k =
     (c\<lparr> fc_events := NONE, fc_read := ec_empty, fc_write := ec_empty \<rparr>,
      if fc_events c \<noteq> NONE then snd (ctl EPOLL_CTL_DEL (fc_fd c) 0 k) else k)"

fun clear_contexts :: "'k epoll_ctl \<Rightarrow> 'c fd_context option list \<Rightarrow> 'k \<Rightarrow> 'c fd_context option list \<times> 'k" where
  "clear_contexts ctl [] k = ([], k)"
| "clear_contexts ctl (None # cs) k = (let (cs', k) = clear_contexts ctl cs k in (None # cs', k))"
| "clear_contexts ctl (Some c # cs) k =
     (let (c', k) = clear_context ctl c k; (cs', k) = clear_contexts ctl cs k in (Some c' # cs', k))"

definition clearAllEventsWithoutResume :: "'k epoll_ctl \<Rightarrow> ('c, 'k) iomanager \<Rightarrow> ('c, 'k) iomanager" where
  "clearAllEventsWithoutResume ctl s =
     (let (cs, k) = clear_contexts ctl (io_contexts s) (io_epoll s)
      in s\<lparr> io_contexts := cs, io_epoll := k, io_pending := 0 \<rparr>)"

text \<open>The destructor: force the loops out, then (once they have been joined) drop what is left.\<close>

definition destroy_begin :: "u64 \<Rightarrow> ('c, 'k) iomanager \<Rightarrow> ('c, 'k) iomanager option" where
  "destroy_begin self s = stop io_tickle self (s\<lparr> io_force_stop := True \<rparr>)"

definition destroy_end :: "'k epoll_ctl \<Rightarrow> ('c, 'k) iomanager \<Rightarrow> ('c, 'k) iomanager" where
  "destroy_end ctl s =
     (let s = clearAllEventsWithoutResume ctl s
      in s\<lparr> io_timers := clearTimers (io_timers s), io_tickle_open := False \<rparr>)"

interpretation io: scheduler_hooks io_tickle
  by unfold_locales (simp_all add: io_tickle_def)

section \<open>The registered handlers\<close>

definition event_sets :: "u32 set" where "event_sets = {0, 1, 4, 5}"

lemmas event_bits = NONE_def READ_def WRITE_def kAllEvents_def EPOLLIN_def EPOLLOUT_def

lemma within_mask:
  fixes w :: u32
  assumes "w AND NOT 5 = 0"
  shows "w \<in> event_sets"
proof -
  have "w = w AND 5"
  proof (rule bit_eqI)
    fix n
    have "\<not> bit (w AND NOT 5) n" by (simp only: assms bit_0_eq bot_apply bot_bool_def not_False_eq_True)
    then show "bit w n = bit (w AND 5) n" if "possible_bit TYPE(u32) n"
      using that by (auto simp only: bit_and_iff bit_not_iff)
  qed
  then have "w \<le> 5" using word_and_le1 [of w 5] by (rule forw_subst)
  then have "unat w \<le> 5" by (simp add: word_le_nat_alt)
  then have "unat w \<in> {0, 1, 2, 3, 4, 5}" by auto
  then have "w \<in> {0, 1, 2, 3, 4, 5}"
    using word_unat_eq_iff [of w] by simp
  with assms show ?thesis by (auto simp: event_sets_def)
qed

lemma ready_mask_in: "ready_mask e \<in> event_sets"
  by (simp add: ready_mask_def Let_def event_sets_def event_bits)

lemma valid_in: "validEvent event \<Longrightarrow> event = 1 \<or> event = 4"
  by (auto simp: validEvent_def event_bits)

definition handler_task :: "'c event_context \<Rightarrow> 'c schedule_task" where
  "handler_task h = (case ec_cb h of
     Some cb \<Rightarrow> cb_task cb (- 1) | None \<Rightarrow> fiber_task (the (ec_fiber h)) (- 1))"

definition handler_tasks :: "'c event_context list \<Rightarrow> 'c schedule_task list" where
  "handler_tasks hs = map handler_task (filter (\<lambda>h. \<not> event_empty h) hs)"

definition ctx_tasks :: "'c fd_context option \<Rightarrow> 'c schedule_task list" where
  "ctx_tasks oc = (case oc of None \<Rightarrow> [] | Some c \<Rightarrow> handler_tasks [fc_read c, fc_write c])"

definition registered :: "('c, 'k) iomanager \<Rightarrow> 'c schedule_task list" where
  "registered s = concat (map ctx_tasks (io_contexts s))"

definition ctx_ok :: "nat \<Rightarrow> 'c fd_context \<Rightarrow> bool" where
  "ctx_ok i c \<longleftrightarrow> fc_fd c = i \<and> fc_events c \<in> event_sets \<and>
     (event_empty (fc_read c) \<longleftrightarrow> fc_events c AND READ = 0) \<and>
     (event_empty (fc_write c) \<longleftrightarrow> fc_events c AND WRITE = 0)"

definition ctxs_ok :: "'c fd_context option list \<Rightarrow> bool" where
  "ctxs_ok cs \<longleftrightarrow> length cs \<le> 2 ^ 20 + 1 \<and> (\<forall>i < length cs. \<forall>c. cs ! i = Some c \<longrightarrow> ctx_ok i c)"

lemma handler_tasks_simps [simp]:
  "handler_tasks [] = []" "handler_tasks (h # hs) = (if event_empty h then handler_tasks hs else handler_task h # handler_tasks hs)"
  by (simp_all add: handler_tasks_def)

lemma event_empty_simps [simp]:
  "event_empty ec_empty" "\<not> event_empty (h\<lparr> ec_cb := Some f \<rparr>)" "\<not> event_empty (h\<lparr> ec_fiber := Some p \<rparr>)"
  by (simp_all add: event_empty_def ec_empty_def)

lemma mset_concat_update:
  "i < length xs \<Longrightarrow> mset (concat (map f (xs[i := y]))) + mset (f (xs ! i)) = mset (concat (map f xs)) + mset (f y)"
  by (induction xs arbitrary: i) (auto split: nat.splits)

lemma registered_set_ctx:
  "i < length (io_contexts s) \<Longrightarrow> mset (registered (set_ctx i c s)) + mset (ctx_tasks (io_contexts s ! i)) =
     mset (registered s) + mset (ctx_tasks (Some c))"
  by (simp add: registered_def set_ctx_def mset_concat_update)

lemma registered_length:
  shows "length (concat (map ctx_tasks cs)) \<le> 2 * length cs"
proof -
  have "length (ctx_tasks oc) \<le> 2" for oc :: "'a fd_context option"
    by (auto simp: ctx_tasks_def split: option.splits)
  note two = this
  show ?thesis
  proof (induction cs)
    case (Cons c cs)
    with two [of c] show ?case by simp
  qed simp
qed

text \<open>Posting the handlers that were taken out.\<close>

lemma trigger_state:
  "sc_tasks (trigger h s) = sc_tasks s @ handler_tasks [h]" "io_contexts (trigger h s) = io_contexts s"
  "io_pending (trigger h s) = io_pending s" "io_timers (trigger h s) = io_timers s" "io_epoll (trigger h s) = io_epoll s"
  "sc_fibers (trigger h s) = sc_fibers s" "sc_loops (trigger h s) = sc_loops s" "sc_stopping (trigger h s) = sc_stopping s"
  "io_force_stop (trigger h s) = io_force_stop s"
  by (auto simp: trigger_def schedule_cb_def schedule_fiber_def post_def io_tickle_def handler_task_def
      event_empty_def split: option.splits)

text \<open>Taking events out of a context.\<close>

lemma take_events_facts:
  assumes ok: "ctx_ok i c" and a: "actual \<in> event_sets" and t: "take_events actual c = (r, w, n, c')"
    and sub: "actual AND fc_events c = actual"
  shows "ctx_ok i c' \<and> fc_events c' = fc_events c AND NOT actual \<and>
    mset (ctx_tasks (Some c)) = mset (handler_tasks [r, w]) + mset (ctx_tasks (Some c')) \<and>
    n = of_nat (length (handler_tasks [r, w])) \<and> (actual \<noteq> 0 \<longrightarrow> handler_tasks [r, w] \<noteq> [])"
proof -
  have e: "fc_events c \<in> {0, 1, 4, 5}" and "actual \<in> {0, 1, 4, 5}" using ok a by (auto simp: ctx_ok_def event_sets_def)
  then consider "actual = 0" | "actual = 1" | "actual = 4" | "actual = 5" by blast
  then show ?thesis
  proof cases
    case 1
    with ok t show ?thesis by (simp add: take_events_def ctx_ok_def event_bits)
  next
    case 2
    then have "fc_events c = 1 \<or> fc_events c = 5" using e sub by auto
    with 2 ok t show ?thesis
      by (elim disjE) (auto simp: take_events_def ctx_ok_def event_bits ctx_tasks_def event_sets_def)
  next
    case 3
    then have "fc_events c = 4 \<or> fc_events c = 5" using e sub by auto
    with 3 ok t show ?thesis
      by (elim disjE) (auto simp: take_events_def ctx_ok_def event_bits ctx_tasks_def event_sets_def)
  next
    case 4
    then have "fc_events c = 5" using e sub by auto
    with 4 ok t show ?thesis
      by (auto simp: take_events_def ctx_ok_def event_bits ctx_tasks_def event_sets_def)
  qed
qed

text \<open>The context of an fd, a fresh one where none has been made yet.\<close>

definition ctx_of :: "('c, 'k) iomanager \<Rightarrow> nat \<Rightarrow> 'c fd_context" where
  "ctx_of s i = (if i < length (io_contexts s)
                 then (case io_contexts s ! i of Some c \<Rightarrow> c | None \<Rightarrow> FdContext i) else FdContext i)"

definition core_inv :: "('c, 'k) iomanager \<Rightarrow> bool" where
  "core_inv s \<longleftrightarrow> ctxs_ok (io_contexts s) \<and> io_pending s = of_nat (length (registered s))"

lemma FdContext_ok [simp]: "ctx_ok i (FdContext i)" "ctx_tasks (Some (FdContext i)) = []" "fc_fd (FdContext i) = i"
  "fc_events (FdContext i) = 0"
  by (simp_all add: ctx_ok_def FdContext_def ctx_tasks_def event_sets_def event_bits)

lemma ctx_of_ok: "ctxs_ok (io_contexts s) \<Longrightarrow> ctx_ok i (ctx_of s i)"
  by (auto simp: ctx_of_def ctxs_ok_def split: option.splits)

lemma getFdContext_facts:
  assumes ok: "ctxs_ok (io_contexts s)" and g: "getFdContext fd auto s = (r, s')"
  obtains cs where "s' = s\<lparr> io_contexts := cs \<rparr>" "ctxs_ok cs" "registered s' = registered s"
    "ctx_of s' = ctx_of s" "fd < 0 \<or> fd > 2 ^ 20 \<longrightarrow> r = Some (Inl EINVAL)"
    "0 \<le> fd \<and> fd \<le> 2 ^ 20 \<longrightarrow> r = Some (Inr (nat fd)) \<or> r = None \<and> \<not> auto \<and> ctx_of s (nat fd) = FdContext (nat fd)"
    "\<forall>i. r = Some (Inr i) \<longrightarrow> fd = int i \<and> i < length cs \<and> io_contexts s' ! i = Some (ctx_of s i)"
proof (cases "fd < 0 \<or> fd > 2 ^ 20")
  case True
  then have "r = Some (Inl EINVAL)" "s' = s" using g by (auto simp: getFdContext_def kMaxTrackedFd_def)
  with ok True that [of "io_contexts s"] show thesis by auto
next
  case False
  define i where "i = nat fd"
  have fd: "fd = int i" "i \<le> 2 ^ 20" using False by (auto simp: i_def)
  show thesis
  proof (cases "length (io_contexts s) \<le> i \<and> \<not> auto")
    case True
    then have "r = None" "s' = s" using g False by (auto simp: getFdContext_def Let_def kMaxTrackedFd_def i_def)
    with ok True False fd that [of "io_contexts s"] show thesis by (auto simp: ctx_of_def)
  next
    case grown: False
    define cs where "cs = (if length (io_contexts s) \<le> i
        then io_contexts s @ replicate (i + 1 - length (io_contexts s)) None else io_contexts s)"
    define cs' where "cs' = (if cs ! i = None \<and> auto then cs[i := Some (FdContext i)] else cs)"
    have g': "r = (if cs' ! i = None then None else Some (Inr i))" "s' = s\<lparr> io_contexts := cs' \<rparr>"
      using g grown False by (auto simp: getFdContext_def Let_def kMaxTrackedFd_def i_def [symmetric] cs_def cs'_def)
    have len: "i < length cs" "length cs \<le> 2 ^ 20 + 1" "length (io_contexts s) \<le> length cs" "length cs' = length cs"
      using ok fd by (auto simp: cs_def cs'_def ctxs_ok_def)
    have at: "cs ! j = (if j < length (io_contexts s) then io_contexts s ! j else None)" if "j < length cs" for j
      using that by (auto simp: cs_def nth_append)
    have at': "cs' ! j = (if j = i \<and> cs ! i = None \<and> auto then Some (FdContext i) else cs ! j)" if "j < length cs" for j
      using that len by (auto simp: cs'_def nth_list_update)
    have ok': "ctxs_ok cs'"
      unfolding ctxs_ok_def
    proof (intro conjI allI impI)
      fix j c
      assume "j < length cs'" "cs' ! j = Some c"
      then show "ctx_ok j c" using ok at [of j] at' [of j] len by (auto simp: ctxs_ok_def split: if_splits)
    qed (use len in simp)
    have none: "ctx_tasks None = []" by (simp add: ctx_tasks_def)
    have reg: "concat (map ctx_tasks cs) = registered s"
      by (auto simp: cs_def registered_def none)
    have reg': "concat (map ctx_tasks cs') = registered s"
    proof (cases "cs ! i = None \<and> auto")
      case True
      then have "map ctx_tasks cs' = (map ctx_tasks cs)[i := ctx_tasks (cs ! i)]"
        by (simp add: cs'_def map_update none)
      then have "map ctx_tasks cs' = map ctx_tasks cs" using len by (simp add: list_update_same_conv)
      with reg show ?thesis by simp
    next
      case False
      then have "cs' = cs" by (simp only: cs'_def if_False)
      with reg show ?thesis by simp
    qed
    have ctx: "ctx_of s' j = ctx_of s j" for j
      using at at' len g'(2) by (auto simp: ctx_of_def split: option.splits)
    have have_i: "cs' ! i = Some (ctx_of s i) \<or> cs' ! i = None \<and> \<not> auto \<and> ctx_of s i = FdContext i"
      using at [of i] at' [of i] len grown by (auto simp: ctx_of_def split: option.splits)
    have 1: "registered s' = registered s" using g'(2) reg' by (simp add: registered_def)
    have 2: "ctx_of s' = ctx_of s" using ctx by auto
    have 3: "r = Some (Inr (nat fd)) \<or> r = None \<and> \<not> auto \<and> ctx_of s (nat fd) = FdContext (nat fd)"
      using g'(1) have_i by (auto simp: i_def)
    have 4: "fd = int k \<and> k < length cs' \<and> io_contexts s' ! k = Some (ctx_of s k)" if "r = Some (Inr k)" for k
      using that g' have_i len fd by (auto split: if_splits)
    show thesis
      by (rule that [OF g'(2) ok' 1 2]) (use False 3 4 in auto)
  qed
qed

lemma getFdContext_core:
  assumes "core_inv s" and g: "getFdContext fd auto s = (r, s')"
  shows "core_inv s'"
proof -
  have ok: "ctxs_ok (io_contexts s)" using assms(1) by (simp add: core_inv_def)
  obtain cs where "s' = s\<lparr> io_contexts := cs \<rparr>" "ctxs_ok cs" "registered s' = registered s"
    by (rule getFdContext_facts [OF ok g])
  with assms(1) show ?thesis by (simp add: core_inv_def)
qed

text \<open>Replacing one context.\<close>

lemma ctx_of_existing: "i < length (io_contexts s) \<Longrightarrow> io_contexts s ! i = Some c \<Longrightarrow> ctx_of s i = c"
  by (simp add: ctx_of_def)

lemma ctx_of_set_ctx:
  "i < length (io_contexts s) \<Longrightarrow> ctx_of (set_ctx i c s) j = (if j = i then c else ctx_of s j)"
  by (auto simp: ctx_of_def set_ctx_def nth_list_update)

lemma ctxs_ok_set: "ctxs_ok cs \<Longrightarrow> ctx_ok i c \<Longrightarrow> ctxs_ok (cs[i := Some c])"
  by (cases "i < length cs") (auto simp: ctxs_ok_def nth_list_update)

lemma small_sum: "ctxs_ok cs \<Longrightarrow> length (concat (map ctx_tasks cs)) < 2 ^ 64"
  using registered_length [of cs] by (auto simp: ctxs_ok_def)

lemma updateEpoll_frame:
  assumes "updateEpoll ctl c ev s = (e, s')"
  obtains k where "s' = s\<lparr> io_epoll := k \<rparr>"
  using assms by (auto simp: updateEpoll_def Let_def split: prod.splits)

definition new_handler :: "nat \<Rightarrow> 'c option \<Rightarrow> 'c event_context" where
  "new_handler current cb = (case cb of Some f \<Rightarrow> ec_empty\<lparr> ec_cb := Some f \<rparr> | None \<Rightarrow> ec_empty\<lparr> ec_fiber := Some current \<rparr>)"

definition with_handler :: "u32 \<Rightarrow> 'c event_context \<Rightarrow> 'c fd_context \<Rightarrow> 'c fd_context" where
  "with_handler event h c =
     (if event = READ then c\<lparr> fc_read := h, fc_events := fc_events c OR event \<rparr>
      else c\<lparr> fc_write := h, fc_events := fc_events c OR event \<rparr>)"

lemma new_handler_task: "\<not> event_empty (new_handler p cb)"
  by (simp add: new_handler_def split: option.split)

lemma with_handler_ok:
  assumes "ctx_ok i c" "validEvent event" "fc_events c AND event = 0" "\<not> event_empty h"
  shows "ctx_ok i (with_handler event h c)"
    "mset (ctx_tasks (Some (with_handler event h c))) = add_mset (handler_task h) (mset (ctx_tasks (Some c)))"
proof -
  have "fc_events c \<in> {0, 1, 4, 5}" using assms(1) by (auto simp: ctx_ok_def event_sets_def)
  moreover have "event = 1 \<or> event = 4" using assms(2) by (rule valid_in)
  ultimately show "ctx_ok i (with_handler event h c)"
    "mset (ctx_tasks (Some (with_handler event h c))) = add_mset (handler_task h) (mset (ctx_tasks (Some c)))"
    using assms by (auto simp: with_handler_def ctx_ok_def event_bits ctx_tasks_def event_sets_def)
qed

text \<open>What a call of \<open>addEvent\<close> does, on every branch.\<close>

lemma addEvent_result:
  assumes good: "ctxs_ok (io_contexts s)" and a: "addEvent ctl current fd event cb s = (e, s')"
  obtains (invalid) "\<not> validEvent event" "e = Some EINVAL" "s' = s"
  | (no_stack) "validEvent event" "cb = None" "snd current = 0" "e = Some EPERM" "s' = s"
  | (range) "validEvent event" "cb \<noteq> None \<or> snd current \<noteq> 0" "fd < 0 \<or> fd > 2 ^ 20" "e = Some EINVAL" "s' = s"
  | (twice) i s1 where "validEvent event" "cb \<noteq> None \<or> snd current \<noteq> 0" "fd = int i" "i \<le> 2 ^ 20" "fc_events (ctx_of s i) AND event \<noteq> 0" "e = Some EEXIST"
      "getFdContext fd True s = (Some (Inr i), s1)" "s' = s1"
  | (kernel) i s1 x where "validEvent event" "cb \<noteq> None \<or> snd current \<noteq> 0" "fd = int i" "i \<le> 2 ^ 20" "fc_events (ctx_of s i) AND event = 0"
      "getFdContext fd True s = (Some (Inr i), s1)"
      "updateEpoll ctl (ctx_of s i) (fc_events (ctx_of s i) OR event) s1 = (Some x, s')" "e = Some x"
  | (added) i s1 s2 where "validEvent event" "fd = int i" "i \<le> 2 ^ 20" "cb \<noteq> None \<or> snd current \<noteq> 0" "fc_events (ctx_of s i) AND event = 0"
      "getFdContext fd True s = (Some (Inr i), s1)"
      "updateEpoll ctl (ctx_of s i) (fc_events (ctx_of s i) OR event) s1 = (None, s2)" "e = None"
      "s' = io_tickle ((set_ctx i (with_handler event (new_handler (fst current) cb) (ctx_of s i)) s2)\<lparr> io_pending := io_pending s2 + 1 \<rparr>)"
proof -
  consider "\<not> validEvent event" | "validEvent event" "cb = None \<and> snd current = 0"
    | "validEvent event" "\<not> (cb = None \<and> snd current = 0)" by blast
  then show thesis
  proof cases
    case 1
    then show ?thesis using a invalid by (simp add: addEvent_def)
  next
    case 2
    then show ?thesis using a no_stack by (simp add: addEvent_def)
  next
    case 3
    obtain r s1 where g: "getFdContext fd True s = (r, s1)" by fastforce
    obtain cs where f: "s1 = s\<lparr> io_contexts := cs \<rparr>" "fd < 0 \<or> fd > 2 ^ 20 \<longrightarrow> r = Some (Inl EINVAL)"
      "0 \<le> fd \<and> fd \<le> 2 ^ 20 \<longrightarrow> r = Some (Inr (nat fd)) \<or> r = None \<and> \<not> True \<and> ctx_of s (nat fd) = FdContext (nat fd)"
      "\<forall>i. r = Some (Inr i) \<longrightarrow> fd = int i \<and> i < length cs \<and> io_contexts s1 ! i = Some (ctx_of s i)"
      by (rule getFdContext_facts [OF good g])
    show ?thesis
    proof (cases "fd < 0 \<or> fd > 2 ^ 20")
      case True
      then have "s1 = s" using g by (auto simp: getFdContext_def kMaxTrackedFd_def)
      with True 3 f(2) g a range show ?thesis by (auto simp: addEvent_def)
    next
      case False
      define i where "i = nat fd"
      have r: "r = Some (Inr i)" "fd = int i" "i \<le> 2 ^ 20" using f(3) False by (auto simp: i_def)
      have c: "ctx_at s1 i = ctx_of s i" using f(4) r by simp
      show ?thesis
      proof (cases "fc_events (ctx_of s i) AND event = 0")
        case False
        then have "e = Some EEXIST" "s' = s1" using a 3 g r c by (auto simp: addEvent_def Let_def)
        with twice [of i s1] False g r 3 show ?thesis by simp
      next
        case True
        obtain x s2 where u: "updateEpoll ctl (ctx_of s i) (fc_events (ctx_of s i) OR event) s1 = (x, s2)" by fastforce
        have w: "addEvent ctl current fd event cb s = (case x of Some e \<Rightarrow> (Some e, s2)
           | None \<Rightarrow> (None, io_tickle ((set_ctx i (with_handler event (new_handler (fst current) cb) (ctx_of s i)) s2)
                \<lparr> io_pending := io_pending s2 + 1 \<rparr>)))"
          using 3 g r c True u
          by (auto simp: addEvent_def Let_def with_handler_def new_handler_def split: option.splits)
        show ?thesis
        proof (cases x)
          case None
          with added [of i s1 s2] w a u r g True 3 show ?thesis by auto
        next
          case (Some y)
          with kernel [of i s1 y] w a u r g True 3 show ?thesis by auto
        qed
      qed
    qed
  qed
qed

text \<open>What every event operation leaves alone.\<close>

definition frame :: "('c, 'k) iomanager \<Rightarrow> ('c, 'k) iomanager \<Rightarrow> bool" where
  "frame s s' \<longleftrightarrow> sc_fibers s' = sc_fibers s \<and> sc_loops s' = sc_loops s \<and> sc_stopping s' = sc_stopping s \<and>
     io_timers s' = io_timers s \<and> io_force_stop s' = io_force_stop s"

lemma frame_refl [simp]: "frame s s"
  by (simp add: frame_def)

lemma registered_simps [simp]:
  "registered (io_tickle s) = registered s" "registered (s\<lparr> io_pending := n \<rparr>) = registered s"
  "registered (s\<lparr> io_epoll := k \<rparr>) = registered s" "registered (trigger h s) = registered s"
  "registered (s\<lparr> io_timers := m \<rparr>) = registered s" "registered (s\<lparr> sc_tasks := ts \<rparr>) = registered s"
  by (simp_all add: registered_def io_tickle_def trigger_state)

lemma io_tickle_simps [simp]:
  "io_contexts (io_tickle s) = io_contexts s" "io_pending (io_tickle s) = io_pending s" "io_epoll (io_tickle s) = io_epoll s"
  "io_timers (io_tickle s) = io_timers s" "io_force_stop (io_tickle s) = io_force_stop s"
  "sc_tasks (io_tickle s) = sc_tasks s" "sc_fibers (io_tickle s) = sc_fibers s" "sc_loops (io_tickle s) = sc_loops s"
  "sc_stopping (io_tickle s) = sc_stopping s"
  by (simp_all add: io_tickle_def)

lemma set_ctx_simps [simp]:
  "io_pending (set_ctx i c s) = io_pending s" "io_timers (set_ctx i c s) = io_timers s" "io_epoll (set_ctx i c s) = io_epoll s"
  "io_force_stop (set_ctx i c s) = io_force_stop s" "sc_tasks (set_ctx i c s) = sc_tasks s"
  "sc_fibers (set_ctx i c s) = sc_fibers s" "sc_loops (set_ctx i c s) = sc_loops s" "sc_stopping (set_ctx i c s) = sc_stopping s"
  "io_contexts (set_ctx i c s) = (io_contexts s)[i := Some c]"
  by (simp_all add: set_ctx_def)

lemma put_in:
  assumes core: "core_inv s" and i: "i < length (io_contexts s)" "io_contexts s ! i = Some c"
    and c': "ctx_ok i c'" "mset (ctx_tasks (Some c')) = add_mset x (mset (ctx_tasks (Some c)))"
  shows "core_inv ((set_ctx i c' s)\<lparr> io_pending := io_pending s + 1 \<rparr>)"
    "mset (registered (set_ctx i c' s)) = add_mset x (mset (registered s))"
proof -
  show r: "mset (registered (set_ctx i c' s)) = add_mset x (mset (registered s))"
    using registered_set_ctx [OF i(1), of c'] i c' by simp
  then have "length (registered (set_ctx i c' s)) = Suc (length (registered s))"
    by (metis size_add_mset size_mset)
  with core c' show "core_inv ((set_ctx i c' s)\<lparr> io_pending := io_pending s + 1 \<rparr>)"
    by (simp add: core_inv_def ctxs_ok_set add.commute)
qed

lemma taken_out:
  assumes core: "core_inv s" and i: "i < length (io_contexts s)" "io_contexts s ! i = Some c"
    and t: "take_events actual c = (r, w, n, c')" "actual \<in> event_sets" "actual AND fc_events c = actual"
  shows "core_inv ((set_ctx i c' s)\<lparr> io_pending := io_pending s - n \<rparr>)"
    "mset (registered s) = mset (handler_tasks [r, w]) + mset (registered (set_ctx i c' s))"
    "fc_events c' = fc_events c AND NOT actual" "actual \<noteq> 0 \<longrightarrow> handler_tasks [r, w] \<noteq> []"
proof -
  have ok: "ctx_ok i c" using core i by (auto simp: core_inv_def ctxs_ok_def)
  note f = take_events_facts [OF ok t(2,1,3)]
  show "fc_events c' = fc_events c AND NOT actual" "actual \<noteq> 0 \<longrightarrow> handler_tasks [r, w] \<noteq> []" using f by auto
  show m: "mset (registered s) = mset (handler_tasks [r, w]) + mset (registered (set_ctx i c' s))"
    using registered_set_ctx [OF i(1), of c'] f i by (simp del: handler_tasks_simps add: ac_simps)
  then have "length (registered s) = length (handler_tasks [r, w]) + length (registered (set_ctx i c' s))"
    by (metis size_mset size_union)
  with core f show "core_inv ((set_ctx i c' s)\<lparr> io_pending := io_pending s - n \<rparr>)"
    by (simp del: handler_tasks_simps add: core_inv_def ctxs_ok_set)
qed

lemma addEvent_keeps:
  assumes core: "core_inv s" and a: "addEvent ctl current fd event cb s = (e, s')"
  shows "core_inv s' \<and> frame s s' \<and> sc_tasks s' = sc_tasks s \<and>
    mset (registered s') = mset (registered s) +
      (if e = None then {# handler_task (new_handler (fst current) cb) #} else {#})"
proof -
  have good: "ctxs_ok (io_contexts s)" using core by (simp add: core_inv_def)
  show ?thesis
  proof (rule addEvent_result [OF good a])
    fix i s1
    assume g: "getFdContext fd True s = (Some (Inr i), s1)" and e: "e = Some EEXIST" "s' = s1"
    have "core_inv s1" by (rule getFdContext_core [OF core g])
    moreover obtain cs where "s1 = s\<lparr> io_contexts := cs \<rparr>" "registered s1 = registered s"
      by (rule getFdContext_facts [OF good g])
    ultimately show ?thesis using e by (simp add: frame_def)
  next
    fix i s1 x
    assume g: "getFdContext fd True s = (Some (Inr i), s1)" and e: "e = Some x"
      and u: "updateEpoll ctl (ctx_of s i) (fc_events (ctx_of s i) OR event) s1 = (Some x, s')"
    have c1: "core_inv s1" by (rule getFdContext_core [OF core g])
    obtain cs where s1: "s1 = s\<lparr> io_contexts := cs \<rparr>" "registered s1 = registered s"
      by (rule getFdContext_facts [OF good g])
    obtain k where "s' = s1\<lparr> io_epoll := k \<rparr>" by (rule updateEpoll_frame [OF u])
    with s1 c1 e show ?thesis by (simp add: frame_def core_inv_def)
  next
    fix i s1 s2
    assume g: "getFdContext fd True s = (Some (Inr i), s1)" and e: "e = None" and v: "validEvent event"
      and free: "fc_events (ctx_of s i) AND event = 0"
      and u: "updateEpoll ctl (ctx_of s i) (fc_events (ctx_of s i) OR event) s1 = (None, s2)"
      and s': "s' = io_tickle ((set_ctx i (with_handler event (new_handler (fst current) cb) (ctx_of s i)) s2)
                 \<lparr> io_pending := io_pending s2 + 1 \<rparr>)"
    have c1: "core_inv s1" by (rule getFdContext_core [OF core g])
    obtain cs where s1: "s1 = s\<lparr> io_contexts := cs \<rparr>" "registered s1 = registered s" and i: "i < length cs" "io_contexts s1 ! i = Some (ctx_of s i)"
      using getFdContext_facts [OF good g] by metis
    obtain k where s2: "s2 = s1\<lparr> io_epoll := k \<rparr>" by (rule updateEpoll_frame [OF u])
    have c2: "core_inv s2" using c1 by (simp add: s2 core_inv_def)
    note w = with_handler_ok [OF ctx_of_ok [OF good] v free new_handler_task]
    have i2: "i < length (io_contexts s2)" "io_contexts s2 ! i = Some (ctx_of s i)" using i s1 s2 by simp_all
    from put_in [OF c2 i2 w] s' e s1 s2 show ?thesis by (simp add: frame_def core_inv_def)
  qed (use core in auto)
qed

lemma getFdContext_read: "getFdContext fd False s = (r, s') \<Longrightarrow> s' = s"
  by (auto simp: getFdContext_def Let_def split: if_splits)

lemma removeEvents_result:
  assumes good: "ctxs_ok (io_contexts s)" and d: "removeEvents ctl fd event s = (res, s')"
  obtains (invalid) "event = 0 \<or> event AND NOT 5 \<noteq> 0" "res = Inl EINVAL" "s' = s"
  | (absent) "event \<in> event_sets" "event \<noteq> 0"
      "fd < 0 \<or> fd > 2 ^ 20 \<or> fc_events (ctx_of s (nat fd)) AND event = 0" "res = Inl ENOENT" "s' = s"
  | (kernel) i x where "event \<in> event_sets" "fd = int i" "i \<le> 2 ^ 20" "fc_events (ctx_of s i) AND event \<noteq> 0"
      "updateEpoll ctl (ctx_of s i) (fc_events (ctx_of s i) AND NOT event) s = (Some x, s')" "res = Inl x"
  | (removed) i s2 r w n c where "event \<in> event_sets" "fd = int i" "i \<le> 2 ^ 20" "fc_events (ctx_of s i) AND event \<noteq> 0"
      "i < length (io_contexts s)" "io_contexts s ! i = Some (ctx_of s i)"
      "updateEpoll ctl (ctx_of s i) (fc_events (ctx_of s i) AND NOT event) s = (None, s2)"
      "take_events (fc_events (ctx_of s i) AND event) (ctx_of s i) = (r, w, n, c)" "res = Inr (r, w)"
      "s' = (set_ctx i (c\<lparr> fc_events := fc_events (ctx_of s i) AND NOT event \<rparr>) s2)\<lparr> io_pending := io_pending s2 - n \<rparr>"
proof (cases "event = 0 \<or> event AND NOT 5 \<noteq> 0")
  case True
  then have "removeEvents ctl fd event s = (Inl EINVAL, s)" by (simp add: removeEvents_def event_bits)
  with d True invalid show ?thesis by simp
next
  case False
  then have ev: "event \<in> event_sets" "event \<noteq> 0" using within_mask by auto
  have start: "removeEvents ctl fd event s = (case getFdContext fd False s of
      (Some (Inr i), s) \<Rightarrow>
        let c = ctx_at s i; actual = fc_events c AND event
        in if actual = NONE then (Inl ENOENT, s)
           else let new_events = fc_events c AND NOT event
                in (case updateEpoll ctl c new_events s of
                     (Some e, s) \<Rightarrow> (Inl e, s)
                   | (None, s) \<Rightarrow>
                       let (r, w, removed, c) = take_events actual c
                       in (Inr (r, w), (set_ctx i (c\<lparr> fc_events := new_events \<rparr>) s)\<lparr> io_pending := io_pending s - removed \<rparr>))
    | (_, s) \<Rightarrow> (Inl ENOENT, s))"
  proof -
    have "\<not> (event = NONE \<or> event AND NOT kAllEvents \<noteq> 0)" using False by (simp add: event_bits)
    then show ?thesis by (simp only: removeEvents_def if_False)
  qed
  obtain g s1 where g: "getFdContext fd False s = (g, s1)" by fastforce
  then have s1: "s1 = s" by (rule getFdContext_read)
  obtain cs where f: "s1 = s\<lparr> io_contexts := cs \<rparr>" "fd < 0 \<or> fd > 2 ^ 20 \<longrightarrow> g = Some (Inl EINVAL)"
    "0 \<le> fd \<and> fd \<le> 2 ^ 20 \<longrightarrow> g = Some (Inr (nat fd)) \<or> g = None \<and> \<not> False \<and> ctx_of s (nat fd) = FdContext (nat fd)"
    "\<forall>i. g = Some (Inr i) \<longrightarrow> fd = int i \<and> i < length cs \<and> io_contexts s1 ! i = Some (ctx_of s i)"
    by (rule getFdContext_facts [OF good g])
  show ?thesis
  proof (cases "\<exists>i. g = Some (Inr i)")
    case False
    then have "res = Inl ENOENT" "s' = s" using d start g s1 by (auto split: option.splits sum.splits)
    moreover have "fd < 0 \<or> fd > 2 ^ 20 \<or> fc_events (ctx_of s (nat fd)) AND event = 0" using f(2,3) False by auto
    ultimately show ?thesis using absent ev by blast
  next
    case True
    then obtain i where gi: "g = Some (Inr i)" by blast
    have "io_contexts s1 = cs" using f(1) by simp
    then have len: "i < length (io_contexts s)" "io_contexts s ! i = Some (ctx_of s i)" "fd = int i"
      using f(4) gi s1 by auto
    have "\<not> fd > 2 ^ 20" using f(2) gi by auto
    with len(3) have "i \<le> 2 ^ 20" by simp
    note len = len this
    define c where "c = ctx_of s i"
    obtain x s2 where u: "updateEpoll ctl c (fc_events c AND NOT event) s = (x, s2)" by fastforce
    obtain r w n c' where t: "take_events (fc_events c AND event) c = (r, w, n, c')" by (metis prod_cases4)
    show ?thesis
    proof (cases "fc_events c AND event = 0")
      case True
      then have "res = Inl ENOENT" "s' = s" using d start g gi s1 len by (auto simp: c_def NONE_def)
      with True absent ev len show ?thesis by (auto simp: c_def)
    next
      case False
      then have w: "(res, s') = (case x of Some e \<Rightarrow> (Inl e, s2) | None \<Rightarrow>
          (Inr (r, w), (set_ctx i (c'\<lparr> fc_events := fc_events c AND NOT event \<rparr>) s2)\<lparr> io_pending := io_pending s2 - n \<rparr>))"
        using d start g gi s1 len u t by (auto simp: c_def NONE_def Let_def split: option.splits)
      show ?thesis
      proof (cases x)
        case None
        with w removed [of i s2 r w n c'] u t False ev len show ?thesis by (simp add: c_def)
      next
        case (Some y)
        with w kernel [of i y] u False ev len show ?thesis by (simp add: c_def)
      qed
    qed
  qed
qed

lemma event_and:
  "a \<in> event_sets \<Longrightarrow> b \<in> event_sets \<Longrightarrow> a AND b \<in> event_sets"
  by (auto simp: event_sets_def)

lemma and_not_and: "(a :: u32) AND NOT (a AND b) = a AND NOT b" "((a :: u32) AND b) AND a = a AND b"
  by (rule bit_word_eqI, auto simp: bit_simps)+

lemma fc_events_same: "fc_events c = e \<Longrightarrow> c\<lparr> fc_events := e \<rparr> = c"
  by (cases c) simp

lemma removeEvents_keeps:
  assumes core: "core_inv s" and d: "removeEvents ctl fd event s = (res, s')"
  shows "core_inv s' \<and> frame s s' \<and> sc_tasks s' = sc_tasks s \<and>
    (case res of Inl e \<Rightarrow> registered s' = registered s
     | Inr (r, w) \<Rightarrow> mset (registered s) = mset (handler_tasks [r, w]) + mset (registered s') \<and> handler_tasks [r, w] \<noteq> [])"
proof -
  have good: "ctxs_ok (io_contexts s)" using core by (simp add: core_inv_def)
  show ?thesis
  proof (rule removeEvents_result [OF good d])
    fix i x
    assume u: "updateEpoll ctl (ctx_of s i) (fc_events (ctx_of s i) AND NOT event) s = (Some x, s')" and r: "res = Inl x"
    obtain k where "s' = s\<lparr> io_epoll := k \<rparr>" by (rule updateEpoll_frame [OF u])
    with core r show ?thesis by (simp add: frame_def core_inv_def)
  next
    fix i s2 r w n c
    assume ev: "event \<in> event_sets" and some: "fc_events (ctx_of s i) AND event \<noteq> 0"
      and i: "i < length (io_contexts s)" "io_contexts s ! i = Some (ctx_of s i)"
      and u: "updateEpoll ctl (ctx_of s i) (fc_events (ctx_of s i) AND NOT event) s = (None, s2)"
      and t: "take_events (fc_events (ctx_of s i) AND event) (ctx_of s i) = (r, w, n, c)" and res: "res = Inr (r, w)"
      and s': "s' = (set_ctx i (c\<lparr> fc_events := fc_events (ctx_of s i) AND NOT event \<rparr>) s2)\<lparr> io_pending := io_pending s2 - n \<rparr>"
    obtain k where s2: "s2 = s\<lparr> io_epoll := k \<rparr>" by (rule updateEpoll_frame [OF u])
    have c2: "core_inv s2" using core by (simp add: s2 core_inv_def)
    have i2: "i < length (io_contexts s2)" "io_contexts s2 ! i = Some (ctx_of s i)" using i s2 by simp_all
    have "fc_events (ctx_of s i) \<in> event_sets" using ctx_of_ok [OF good] by (simp add: ctx_ok_def)
    note f = taken_out [OF c2 i2 t event_and [OF this ev] and_not_and(2)]
    have "c\<lparr> fc_events := fc_events (ctx_of s i) AND NOT event \<rparr> = c"
      using f(3) and_not_and(1) by (intro fc_events_same) simp
    then have s'': "s' = (set_ctx i c s2)\<lparr> io_pending := io_pending s2 - n \<rparr>" using s' by simp
    have "core_inv s'" using f(1) s'' by simp
    moreover have "frame s s'" "sc_tasks s' = sc_tasks s" by (simp_all add: s'' s2 frame_def)
    moreover have "mset (registered s) = mset (handler_tasks [r, w]) + mset (registered s')"
      using f(2) by (simp del: handler_tasks_simps add: s'' s2)
    ultimately show ?thesis using f(4) some res by (simp del: handler_tasks_simps)
  qed (use core in auto)
qed

lemma delEvent_keeps:
  assumes core: "core_inv s" and d: "delEvent ctl fd event s = (e, s')"
  obtains ts where "core_inv s'" "frame s s'" "sc_tasks s' = sc_tasks s"
    "mset (registered s) = mset ts + mset (registered s')" "(e = None) = (ts \<noteq> [])"
proof -
  obtain res s1 where r: "removeEvents ctl fd event s = (res, s1)" by fastforce
  note k = removeEvents_keeps [OF core r]
  show thesis
  proof (cases res)
    case (Inl x)
    with d r have "s' = s1" "e = Some x" by (simp_all add: delEvent_def)
    with k Inl that [of "[]"] show thesis by simp
  next
    case (Inr p)
    obtain a b where p: "p = (a, b)" by fastforce
    from d r Inr have "s' = io_tickle s1" "e = None" by (simp_all add: delEvent_def)
    with k Inr p that [of "handler_tasks [a, b]"] show thesis
      by (simp del: handler_tasks_simps add: core_inv_def frame_def)
  qed
qed

lemma trigger_both:
  "sc_tasks (trigger w (trigger r s)) = sc_tasks s @ handler_tasks [r, w]"
  "core_inv (trigger w (trigger r s)) = core_inv s" "frame s (trigger w (trigger r s))"
  "registered (trigger w (trigger r s)) = registered s"
  by (simp_all add: trigger_state core_inv_def frame_def)

lemma frame_trans: "frame a b \<Longrightarrow> frame b c \<Longrightarrow> frame a c"
  by (simp add: frame_def)

lemma cancelEvent_keeps:
  assumes core: "core_inv s" and d: "cancelEvent ctl fd event s = (e, s')"
  obtains ts where "core_inv s'" "frame s s'" "sc_tasks s' = sc_tasks s @ ts"
    "mset (registered s) = mset ts + mset (registered s')" "(e = None) = (ts \<noteq> [])"
proof -
  obtain res s1 where r: "removeEvents ctl fd event s = (res, s1)" by fastforce
  note k = removeEvents_keeps [OF core r]
  show thesis
  proof (cases res)
    case (Inl x)
    with d r have "s' = s1" "e = Some x" by (simp_all add: cancelEvent_def)
    with k Inl that [of "[]"] show thesis by simp
  next
    case (Inr p)
    obtain a b where p: "p = (a, b)" by fastforce
    from d r Inr p have s': "s' = io_tickle (trigger b (trigger a s1))" and "e = None" by (simp_all add: cancelEvent_def)
    have "core_inv s'" "frame s s'" "sc_tasks s' = sc_tasks s @ handler_tasks [a, b]" "registered s' = registered s1"
      using k s' trigger_both [where w = b and r = a and s = s1]
      by (simp_all del: handler_tasks_simps add: core_inv_def frame_def)
    with k Inr p \<open>e = None\<close> that [of "handler_tasks [a, b]"] show thesis
      by (simp del: handler_tasks_simps)
  qed
qed

lemma processEvent_keeps:
  assumes core: "core_inv s" and d: "processEvent ctl data ev s = (b, s')"
    and valid: "\<forall>i. data = Some i \<longrightarrow> i < length (io_contexts s) \<and> io_contexts s ! i \<noteq> None"
  obtains ts where "core_inv s'" "frame s s'" "sc_tasks s' = sc_tasks s @ ts"
    "mset (registered s) = mset ts + mset (registered s')" "b = (ts \<noteq> [])"
    "length (io_contexts s') = length (io_contexts s)" "\<forall>i. (io_contexts s' ! i = None) = (io_contexts s ! i = None)"
proof (cases "data = None \<or> ready_mask ev AND fc_events (ctx_at s (the data)) = NONE")
  case True
  then have "b = False" "s' = s" using d by (auto simp: processEvent_def Let_def split: option.splits)
  with core that [of "[]"] show thesis by simp
next
  case False
  then obtain i where i: "data = Some i" and some: "ready_mask ev AND fc_events (ctx_at s i) \<noteq> 0" by (auto simp: NONE_def)
  obtain c where c: "i < length (io_contexts s)" "io_contexts s ! i = Some c" using valid i by auto
  obtain e s2 where u: "updateEpoll ctl c (fc_events c AND NOT (ready_mask ev AND fc_events c)) s = (e, s2)" by fastforce
  obtain k where s2: "s2 = s\<lparr> io_epoll := k \<rparr>" by (rule updateEpoll_frame [OF u])
  obtain r w n c' where t: "take_events (ready_mask ev AND fc_events c) c = (r, w, n, c')" by (metis prod_cases4)
  have d': "b = True" "s' = trigger w (trigger r ((set_ctx i c' s2)\<lparr> io_pending := io_pending s2 - n \<rparr>))"
    using d i some c u t by (auto simp: processEvent_def Let_def NONE_def)
  have c2: "core_inv s2" using core by (simp add: s2 core_inv_def)
  have i2: "i < length (io_contexts s2)" "io_contexts s2 ! i = Some c" using c s2 by simp_all
  have "fc_events c \<in> event_sets" using core c by (auto simp: core_inv_def ctxs_ok_def ctx_ok_def)
  then have "ready_mask ev AND fc_events c \<in> event_sets" "(ready_mask ev AND fc_events c) AND fc_events c = ready_mask ev AND fc_events c"
    using event_and [OF ready_mask_in] by (auto simp: and.assoc)
  note f = taken_out [OF c2 i2 t this]
  have "core_inv s'" unfolding d'(2) trigger_both(2) by (rule f(1))
  moreover have "frame s s'" using d' trigger_both(3) [where s = "(set_ctx i c' s2)\<lparr> io_pending := io_pending s2 - n \<rparr>" and w = w and r = r]
    by (simp add: frame_def s2)
  moreover have "sc_tasks s' = sc_tasks s @ handler_tasks [r, w]"
    unfolding d'(2) trigger_both(1) by (simp add: s2)
  moreover have "mset (registered s) = mset (handler_tasks [r, w]) + mset (registered s')"
    using f(2) unfolding d'(2) trigger_both(4) by (simp del: handler_tasks_simps add: s2)
  moreover have "handler_tasks [r, w] \<noteq> []" using f(4) some c by (simp del: handler_tasks_simps)
  moreover have "length (io_contexts s') = length (io_contexts s)" "\<forall>j. (io_contexts s' ! j = None) = (io_contexts s ! j = None)"
    using c by (auto simp: d'(2) trigger_state s2 nth_list_update)
  ultimately show thesis using that d'(1) by simp
qed

section \<open>Runs of an IO manager\<close>

text \<open>What a step does to handlers and to the queue.\<close>

datatype 'c io_event =
    Registered "'c schedule_task"
  | Dropped "'c schedule_task list"
  | Triggered "'c schedule_task list"
  | Queue "'c queue_event"

definition io_idle :: "('c, 'k) iomanager \<Rightarrow> bool option" where
  "io_idle s = Some (io_stopping s)"

definition expired_tasks :: "'c option list \<Rightarrow> 'c schedule_task list" where
  "expired_tasks cbs = map (\<lambda>cb. cb_task (the cb) (- 1)) cbs"

definition post_expired :: "'c option list \<Rightarrow> ('c, 'k) iomanager \<Rightarrow> ('c, 'k) iomanager" where
  "post_expired cbs s = fold (\<lambda>cb s. schedule_cb io_tickle (the cb) (- 1) s) cbs s"

text \<open>The scheduler's steps with the overridden \<open>tickle\<close> and \<open>idle\<close>; the event operations, whether
  they succeed or not; the idle fiber handling one ready event or the expired timers; operations on
  timers; the two halves of the destructor.\<close>

inductive io_step :: "'k epoll_ctl \<Rightarrow> ('c, 'k) iomanager \<Rightarrow> 'c io_event list \<Rightarrow> ('c, 'k) iomanager \<Rightarrow> bool"
  for ctl where
  sched: "sched_step io_tickle io_idle s es s' \<Longrightarrow> io_step ctl s (map Queue es) s'"
| add: "cb = None \<longrightarrow> fst current < length (sc_fibers s) \<Longrightarrow> addEvent ctl current fd event cb s = (e, s') \<Longrightarrow>
    io_step ctl s (if e = None then [Registered (handler_task (new_handler (fst current) cb))] else []) s'"
| del: "delEvent ctl fd event s = (e, s') \<Longrightarrow> mset (registered s) = mset ts + mset (registered s') \<Longrightarrow> io_step ctl s [Dropped ts] s'"
| cancel: "cancelEvent ctl fd event s = (e, s') \<Longrightarrow> sc_tasks s' = sc_tasks s @ ts \<Longrightarrow> io_step ctl s [Triggered ts] s'"
| ready: "pc_of t s = Some In_idle \<Longrightarrow> \<forall>i. data = Some i \<longrightarrow> i < length (io_contexts s) \<and> io_contexts s ! i \<noteq> None \<Longrightarrow>
    processEvent ctl data ev s = (b, s') \<Longrightarrow> sc_tasks s' = sc_tasks s @ ts \<Longrightarrow> io_step ctl s [Triggered ts] s'"
| expire: "pc_of t s = Some In_idle \<Longrightarrow> listExpiredCallbacks now [] (io_timers s) = Some (m, cbs) \<Longrightarrow>
    io_step ctl s [Queue (Posted (expired_tasks cbs))] (post_expired cbs (s\<lparr> io_timers := m \<rparr>))"
| timer: "timer_step (io_timers s) [] m \<Longrightarrow> io_step ctl s [] (with_timers m s)"
| destroy: "destroy_begin self s = Some s' \<Longrightarrow> io_step ctl s [] s'"
| destroyed: "io_step ctl s [Dropped (registered s)] (destroy_end ctl s)"

inductive io_run :: "'k epoll_ctl \<Rightarrow> ('c, 'k) iomanager \<Rightarrow> 'c io_event list \<Rightarrow> ('c, 'k) iomanager \<Rightarrow> bool"
  for ctl where
  "io_run ctl s [] s"
| "io_run ctl s tr s' \<Longrightarrow> io_step ctl s' es s'' \<Longrightarrow> io_run ctl s (tr @ es) s''"

definition ev_registered :: "'c io_event list \<Rightarrow> 'c schedule_task list" where
  "ev_registered tr = concat (map (\<lambda>e. case e of Registered x \<Rightarrow> [x] | _ \<Rightarrow> []) tr)"

definition ev_dropped :: "'c io_event list \<Rightarrow> 'c schedule_task list" where
  "ev_dropped tr = concat (map (\<lambda>e. case e of Dropped ts \<Rightarrow> ts | _ \<Rightarrow> []) tr)"

definition ev_triggered :: "'c io_event list \<Rightarrow> 'c schedule_task list" where
  "ev_triggered tr = concat (map (\<lambda>e. case e of Triggered ts \<Rightarrow> ts | _ \<Rightarrow> []) tr)"

text \<open>The events the queue sees: a triggered handler is posted.\<close>

definition ev_queue :: "'c io_event list \<Rightarrow> 'c queue_event list" where
  "ev_queue tr = concat (map (\<lambda>e. case e of Triggered ts \<Rightarrow> [Posted ts] | Queue q \<Rightarrow> [q] | _ \<Rightarrow> []) tr)"

lemma ev_simps [simp]:
  "ev_registered [] = []" "ev_registered (a @ b) = ev_registered a @ ev_registered b" "ev_registered [Registered x] = [x]"
  "ev_registered [Dropped ts] = []" "ev_registered [Triggered ts] = []" "ev_registered [Queue q] = []"
  "ev_dropped [] = []" "ev_dropped (a @ b) = ev_dropped a @ ev_dropped b" "ev_dropped [Registered x] = []"
  "ev_dropped [Dropped ts] = ts" "ev_dropped [Triggered ts] = []" "ev_dropped [Queue q] = []"
  "ev_triggered [] = []" "ev_triggered (a @ b) = ev_triggered a @ ev_triggered b" "ev_triggered [Registered x] = []"
  "ev_triggered [Dropped ts] = []" "ev_triggered [Triggered ts] = ts" "ev_triggered [Queue q] = []"
  "ev_queue [] = []" "ev_queue (a @ b) = ev_queue a @ ev_queue b" "ev_queue [Registered x] = []"
  "ev_queue [Dropped ts] = []" "ev_queue [Triggered ts] = [Posted ts]" "ev_queue [Queue q] = [q]"
  by (simp_all add: ev_registered_def ev_dropped_def ev_triggered_def ev_queue_def)

lemma ev_map_queue [simp]:
  "ev_registered (map Queue es) = []" "ev_dropped (map Queue es) = []" "ev_triggered (map Queue es) = []"
  "ev_queue (map Queue es) = es"
  by (simp_all add: ev_registered_def ev_dropped_def ev_triggered_def ev_queue_def comp_def)

text \<open>The scheduler's own steps leave the events and timers alone.\<close>

lemma post_io:
  "io_contexts (post io_tickle ts s) = io_contexts s" "io_pending (post io_tickle ts s) = io_pending s"
  "io_timers (post io_tickle ts s) = io_timers s" "io_force_stop (post io_tickle ts s) = io_force_stop s"
  by (simp_all add: post_def)

lemma loop_io [simp]:
  "io_contexts (set_loop t l s) = io_contexts s" "io_pending (set_loop t l s) = io_pending s"
  "io_timers (set_loop t l s) = io_timers s" "io_contexts (goto t pc s) = io_contexts s"
  "io_pending (goto t pc s) = io_pending s" "io_timers (goto t pc s) = io_timers s"
  "io_contexts (set_state p st s) = io_contexts s" "io_pending (set_state p st s) = io_pending s"
  "io_timers (set_state p st s) = io_timers s"
  by (simp_all add: set_loop_def goto_def set_state_def)

definition io_same :: "('c, 'k) iomanager \<Rightarrow> ('c, 'k) iomanager \<Rightarrow> bool" where
  "io_same s s' \<longleftrightarrow> io_contexts s' = io_contexts s \<and> io_pending s' = io_pending s \<and> io_timers s' = io_timers s \<and>
     length (sc_fibers s) \<le> length (sc_fibers s')"

lemma wrap_cb_length: "wrap_cb c fs = (q, fs') \<Longrightarrow> length fs \<le> length fs'"
  by (auto simp: wrap_cb_def Let_def split: option.splits if_splits)

lemma run_head_io: "run_head t s = (r, s') \<Longrightarrow> io_same s s'"
  by (auto simp: run_head_def getNextTask_def io_same_def dest!: wrap_cb_length split: option.splits if_splits prod.splits)

lemma sched_step_io: "sched_step io_tickle idle s es s' \<Longrightarrow> io_same s s'"
proof (induction rule: sched_step.induct)
  case (take t s x s')
  show ?case by (rule run_head_io [OF take(2)])
next
  case (none t s s')
  show ?case by (rule run_head_io [OF none(2)])
qed (auto simp: io_same_def post_io start_def enter_run_def worker_register_def run_resume_def run_after_fiber_def
       run_after_cb_def stop_def join_all_def Let_def set_state_def split: if_splits option.splits)

definition io_inv :: "('c, 'k) iomanager \<Rightarrow> bool" where
  "io_inv s \<longleftrightarrow> core_inv s \<and> timers_inv (io_timers s) \<and> sched_inv s \<and> tasks_ok (sc_fibers s) (registered s)"

lemma frame_sched_inv:
  assumes "sched_inv s" "frame s s'" "sc_tasks s' = sc_tasks s @ ts" "tasks_ok (sc_fibers s) ts"
  shows "sched_inv s'"
  by (rule sched_inv_same [OF assms(1)]) (use assms sched_invD(1) [OF assms(1)] in \<open>auto simp: frame_def\<close>)

lemma tasks_ok_mset: "mset xs = mset ys + mset zs \<Longrightarrow> tasks_ok fs xs = (tasks_ok fs ys \<and> tasks_ok fs zs)"
proof -
  assume "mset xs = mset ys + mset zs"
  then have "set xs = set ys \<union> set zs" by (metis set_mset_mset set_mset_union)
  then show ?thesis by (auto simp: tasks_ok_def)
qed

text \<open>A step that takes handlers \<open>ts\<close> out of the contexts and may post them.\<close>

lemma io_inv_removed:
  assumes inv: "io_inv s" and c: "core_inv s'" "frame s s'" "mset (registered s) = mset ts + mset (registered s')"
    and q: "sc_tasks s' = sc_tasks s @ ts \<or> sc_tasks s' = sc_tasks s"
  shows "io_inv s'"
proof -
  have t: "tasks_ok (sc_fibers s) ts \<and> tasks_ok (sc_fibers s) (registered s')"
    using inv tasks_ok_mset [OF c(3)] by (simp add: io_inv_def)
  have "sched_inv s" using inv by (simp add: io_inv_def)
  then have "sched_inv s'"
    using frame_sched_inv [OF _ c(2), of ts] frame_sched_inv [OF _ c(2), of "[]"] t q by auto
  with inv c t show ?thesis by (simp add: io_inv_def frame_def)
qed

lemma queue_run_posted [simp]: "queue_run q [Posted ts] (q @ ts)"
  using queue_run.intros(2) [OF queue_run.intros(1) queue_step.posted] by simp

lemma queue_run_none [simp]: "queue_run q [] q"
  by (rule queue_run.intros(1))

lemma queue_run_trans: "queue_run b tr' c \<Longrightarrow> queue_run a tr b \<Longrightarrow> queue_run a (tr @ tr') c"
  by (induction rule: queue_run.induct) (auto intro: queue_run.intros(2) simp flip: append_assoc)

lemma post_expired_facts:
  "sc_tasks (post_expired cbs s) = sc_tasks s @ expired_tasks cbs \<and> registered (post_expired cbs s) = registered s \<and>
   core_inv (post_expired cbs s) = core_inv s \<and> io_timers (post_expired cbs s) = io_timers s \<and> frame s (post_expired cbs s)"
proof (induction cbs arbitrary: s)
  case (Cons cb cbs)
  let ?s = "schedule_cb io_tickle (the cb) (- 1) s"
  have s: "sc_tasks ?s = sc_tasks s @ [cb_task (the cb) (- 1)]" "registered ?s = registered s" "core_inv ?s = core_inv s"
    "io_timers ?s = io_timers s" "frame s ?s"
    by (simp_all add: schedule_cb_def post_def core_inv_def frame_def)
  have "post_expired (cb # cbs) s = post_expired cbs ?s" by (simp add: post_expired_def)
  then show ?case using Cons.IH [of ?s] s frame_trans [of s ?s] by (simp add: expired_tasks_def)
qed (simp add: post_expired_def expired_tasks_def)

lemma expired_tasks_ok [simp]: "tasks_ok fs (expired_tasks cbs)"
  by (auto simp: tasks_ok_def expired_tasks_def cb_task_def)

lemma clear_contexts_facts:
  "length (fst (clear_contexts ctl cs k)) = length cs \<and> concat (map ctx_tasks (fst (clear_contexts ctl cs k))) = [] \<and>
   (\<forall>i < length cs. \<forall>c. fst (clear_contexts ctl cs k) ! i = Some c \<longrightarrow>
      (\<exists>c0. cs ! i = Some c0 \<and> c = c0\<lparr> fc_events := NONE, fc_read := ec_empty, fc_write := ec_empty \<rparr>))"
proof (induction ctl cs k rule: clear_contexts.induct)
  case (2 ctl cs k)
  then show ?case
    by (auto simp: ctx_tasks_def nth_Cons split: prod.splits nat.splits)
next
  case (3 ctl c cs k)
  then show ?case
    by (auto simp: ctx_tasks_def clear_context_def nth_Cons split: prod.splits nat.splits)
qed simp

lemma cleared_ok:
  assumes "ctxs_ok cs"
  shows "ctxs_ok (fst (clear_contexts ctl cs k))"
proof -
  have "ctx_ok i (c0\<lparr> fc_events := NONE, fc_read := ec_empty, fc_write := ec_empty \<rparr>)" if "ctx_ok i c0" for i and c0 :: "'a fd_context"
    using that by (simp add: ctx_ok_def event_bits event_sets_def)
  then show ?thesis
    using assms clear_contexts_facts [of ctl cs k] unfolding ctxs_ok_def by metis
qed

lemma destroy_end_facts:
  assumes inv: "io_inv s"
  shows "io_inv (destroy_end ctl s)" "registered (destroy_end ctl s) = []" "sc_tasks (destroy_end ctl s) = sc_tasks s"
proof -
  obtain cs k where c: "clear_contexts ctl (io_contexts s) (io_epoll s) = (cs, k)" by fastforce
  have s': "destroy_end ctl s = s\<lparr> io_contexts := cs, io_epoll := k, io_pending := 0,
      io_timers := clearTimers (io_timers s), io_tickle_open := False \<rparr>"
    by (simp add: destroy_end_def clearAllEventsWithoutResume_def c)
  show r: "registered (destroy_end ctl s) = []" "sc_tasks (destroy_end ctl s) = sc_tasks s"
    using clear_contexts_facts [of ctl "io_contexts s" "io_epoll s"] by (simp_all add: s' registered_def c)
  have "ctxs_ok cs" using cleared_ok [of "io_contexts s" ctl "io_epoll s"] inv by (simp add: c io_inv_def core_inv_def)
  then have "core_inv (destroy_end ctl s)" using r(1) by (simp add: core_inv_def s')
  moreover have "sched_inv s" using inv by (simp add: io_inv_def)
  then have "sched_inv (destroy_end ctl s)"
    by (rule sched_inv_same) (use sched_invD(1) [OF \<open>sched_inv s\<close>] in \<open>auto simp: s'\<close>)
  moreover have "timers_inv (io_timers (destroy_end ctl s))"
    using inv by (simp add: s' io_inv_def clearTimers_facts)
  ultimately show "io_inv (destroy_end ctl s)" using r by (simp add: io_inv_def)
qed

lemma destroy_begin_facts:
  assumes "destroy_begin self s = Some s'"
  shows "io_contexts s' = io_contexts s \<and> io_pending s' = io_pending s \<and> io_timers s' = io_timers s \<and>
    sc_fibers s' = sc_fibers s \<and> sc_loops s' = sc_loops s \<and> sc_tasks s' = sc_tasks s"
  using assms by (auto simp: destroy_begin_def stop_def Let_def split: if_splits)

lemma with_timers_facts:
  "io_contexts (with_timers m s) = io_contexts s \<and> io_pending (with_timers m s) = io_pending s \<and>
   io_timers (with_timers m s) = m \<and> sc_fibers (with_timers m s) = sc_fibers s \<and>
   sc_loops (with_timers m s) = sc_loops s \<and> sc_tasks (with_timers m s) = sc_tasks s"
  by (simp add: with_timers_def Let_def)

lemma io_inv_other:
  assumes inv: "io_inv s"
    and same: "io_contexts s' = io_contexts s \<and> io_pending s' = io_pending s \<and> io_timers s' = m \<and>
      sc_fibers s' = sc_fibers s \<and> sc_loops s' = sc_loops s \<and> sc_tasks s' = sc_tasks s"
    and m: "timers_inv m"
  shows "io_inv s'" "registered s' = registered s"
proof -
  show r: "registered s' = registered s" using same by (simp add: registered_def)
  have "sched_inv s" using inv by (simp add: io_inv_def)
  then have "sched_inv s'"
    by (rule sched_inv_same) (use same sched_invD(1) [OF \<open>sched_inv s\<close>] in auto)
  then show "io_inv s'" using inv r same m by (simp add: io_inv_def core_inv_def)
qed

definition accounts :: "('c, 'k) iomanager \<Rightarrow> 'c io_event list \<Rightarrow> ('c, 'k) iomanager \<Rightarrow> bool" where
  "accounts s es s' \<longleftrightarrow>
     mset (registered s) + mset (ev_registered es) = mset (registered s') + mset (ev_dropped es) + mset (ev_triggered es) \<and>
     queue_run (sc_tasks s) (ev_queue es) (sc_tasks s')"

lemma new_handler_ok:
  "cb = None \<longrightarrow> p < length fs \<Longrightarrow> tasks_ok fs [handler_task (new_handler p cb)]"
  by (auto simp: tasks_ok_def handler_task_def new_handler_def cb_task_def fiber_task_def ec_empty_def split: option.splits)

lemma io_step_facts:
  assumes "io_step ctl s es s'" and inv: "io_inv s"
  shows "io_inv s' \<and> accounts s es s'"
  using assms(1)
proof cases
  case (sched qs)
  have same: "io_same s s'" by (rule sched_step_io [OF sched(2)])
  then have r: "registered s' = registered s" by (simp add: io_same_def registered_def)
  have "sched_inv s'" using io.sched_step_inv [OF sched(2)] inv by (simp add: io_inv_def)
  moreover have "tasks_ok (sc_fibers s') (registered s)"
    using inv same by (fastforce simp: io_inv_def tasks_ok_def io_same_def)
  ultimately have "io_inv s'" using inv same r by (simp add: io_inv_def core_inv_def io_same_def)
  moreover have "queue_run (sc_tasks s) qs (sc_tasks s')"
    using io.sched_step_queue [OF sched(2)] queue_run.intros(2) [OF queue_run_none, of "sc_tasks s"] by fastforce
  ultimately show ?thesis using r sched(1) by (simp add: accounts_def)
next
  case (add cb current fd event e)
  have core: "core_inv s" using inv by (simp add: io_inv_def)
  note k = addEvent_keeps [OF core add(3)]
  have "sched_inv s" using inv by (simp add: io_inv_def)
  then have "sched_inv s'" using frame_sched_inv [of s s' "[]"] k by simp
  moreover have "tasks_ok (sc_fibers s) (registered s')"
  proof (cases "e = None")
    case True
    then have "mset (registered s') = mset (registered s) + mset [handler_task (new_handler (fst current) cb)]"
      using k by simp
    then show ?thesis using tasks_ok_mset inv new_handler_ok [OF add(2)] by (fastforce simp: io_inv_def)
  next
    case False
    then have "mset (registered s') = mset (registered s) + mset []" using k by simp
    then show ?thesis using tasks_ok_mset [of "registered s'" "registered s" "[]"] inv by (simp add: io_inv_def)
  qed
  ultimately have "io_inv s'" using inv k by (simp add: io_inv_def frame_def)
  then show ?thesis using k add(1) by (simp add: accounts_def)
next
  case (del fd event e ts)
  have core: "core_inv s" using inv by (simp add: io_inv_def)
  obtain ts' where k: "core_inv s'" "frame s s'" "sc_tasks s' = sc_tasks s" by (rule delEvent_keeps [OF core del(2)])
  then have "io_inv s'" using io_inv_removed [OF inv k(1,2) del(3)] by simp
  then show ?thesis using k del by (simp add: accounts_def)
next
  case (cancel fd event e ts)
  have core: "core_inv s" using inv by (simp add: io_inv_def)
  obtain ts' where k: "core_inv s'" "frame s s'" "sc_tasks s' = sc_tasks s @ ts'"
    "mset (registered s) = mset ts' + mset (registered s')" by (rule cancelEvent_keeps [OF core cancel(2)])
  have ts: "ts' = ts" using k(3) cancel(3) by simp
  have "io_inv s'" by (rule io_inv_removed [OF inv k(1,2,4)]) (simp add: k(3))
  then show ?thesis using k cancel ts by (simp add: accounts_def)
next
  case (ready t data ev b ts)
  have core: "core_inv s" using inv by (simp add: io_inv_def)
  obtain ts' where k: "core_inv s'" "frame s s'" "sc_tasks s' = sc_tasks s @ ts'"
    "mset (registered s) = mset ts' + mset (registered s')" by (rule processEvent_keeps [OF core ready(4,3)])
  have ts: "ts' = ts" using k(3) ready(5) by simp
  have "io_inv s'" by (rule io_inv_removed [OF inv k(1,2,4)]) (simp add: k(3))
  then show ?thesis using k ready ts by (simp add: accounts_def)
next
  case (expire t now m cbs)
  let ?s = "s\<lparr> io_timers := m \<rparr>"
  have m: "timers_inv m" using timer_step_facts [OF timer_step.expire [OF expire(4)]] inv by (simp add: io_inv_def)
  have i: "io_inv ?s" by (rule io_inv_other [OF inv _ m]) simp
  note f = post_expired_facts [of cbs ?s]
  have "sched_inv ?s" using i by (simp add: io_inv_def)
  then have "sched_inv (post_expired cbs ?s)" by (rule frame_sched_inv) (use f in auto)
  then have "io_inv (post_expired cbs ?s)" using i f by (simp add: io_inv_def frame_def)
  then show ?thesis using f expire(1,2) by (simp add: accounts_def)
next
  case (timer m)
  have "timers_inv m" using timer_step_facts [OF timer(3)] inv by (simp add: io_inv_def)
  from io_inv_other [OF inv with_timers_facts this] show ?thesis
    using timer with_timers_facts [of m s] by (simp add: accounts_def)
next
  case (destroy self)
  have "timers_inv (io_timers s)" using inv by (simp add: io_inv_def)
  from io_inv_other [OF inv destroy_begin_facts [OF destroy(2)] this] show ?thesis
    using destroy destroy_begin_facts [OF destroy(2)] by (simp add: accounts_def)
next
  case destroyed
  with destroy_end_facts [OF inv] show ?thesis by (simp add: accounts_def)
qed

lemma io_run_facts: "io_run ctl s tr s' \<Longrightarrow> io_inv s \<Longrightarrow> io_inv s' \<and> accounts s tr s'"
proof (induction rule: io_run.induct)
  case (2 s tr s' es s'')
  then have 1: "io_inv s'" "accounts s tr s'" by auto
  from io_step_facts [OF 2(2) 1(1)] have 3: "io_inv s''" "accounts s' es s''" by auto
  have "mset (registered s) + mset (ev_registered (tr @ es)) =
      mset (registered s'') + mset (ev_dropped (tr @ es)) + mset (ev_triggered (tr @ es))"
    using 1(2) 3(2) by (simp add: accounts_def ac_simps)
  then show ?case using 1 3 by (auto simp: accounts_def intro: queue_run_trans)
qed (simp add: accounts_def)

lemma IOManager_init_inv:
  assumes "IOManager_init n uc self k = Some s"
  shows "io_inv s" "sc_tasks s = []" "registered s = []"
proof -
  obtain s0 where s0: "Scheduler_init n uc self = Some s0" and s: "s = scheduler.extend s0
       \<lparr> io_tickle_open = True, io_wake_count = of_nat (max n 1), io_tickles = [],
         io_contexts = [], io_pending = 0, io_force_stop = False, io_epoll = k, io_timers = TimerManager \<rparr>"
    using assms by (auto simp: IOManager_init_def)
  show r: "sc_tasks s = []" "registered s = []"
    using Scheduler_init_inv [OF s0] by (simp_all add: s scheduler.extend_def registered_def)
  have "sc_loops s = (\<lambda>_. None)" using s0 by (auto simp: s scheduler.extend_def Scheduler_init_def split: if_splits)
  then have "sched_inv s" using r by (simp add: sched_inv_def runs_def)
  then show "io_inv s"
    using r by (simp add: io_inv_def core_inv_def ctxs_ok_def s scheduler.extend_def TimerManager_inv)
qed

text \<open>A batch of ready events.\<close>

definition valid_data :: "'c fd_context option list \<Rightarrow> epoll_data \<Rightarrow> bool" where
  "valid_data cs d \<longleftrightarrow> (\<forall>i. d = Ctx (Some i) \<longrightarrow> i < length cs \<and> cs ! i \<noteq> None)"

lemma process_ready_keeps:
  assumes "process_ready ctl evs b s = (b', s')" "core_inv s" "\<forall>(d, e) \<in> set evs. valid_data (io_contexts s) d"
  shows "\<exists>ts. core_inv s' \<and> frame s s' \<and> sc_tasks s' = sc_tasks s @ ts \<and>
    mset (registered s) = mset ts + mset (registered s') \<and> b' = (b \<or> Tickle \<in> fst ` set evs \<or> ts \<noteq> [])"
  using assms
proof (induction ctl evs b s arbitrary: b' s' rule: process_ready.induct)
  case (2 ctl e evs ready s)
  from 2(1) [of b' s'] 2(2-) show ?case by auto
next
  case (3 ctl d e evs ready s)
  obtain r s1 where p: "processEvent ctl d e s = (r, s1)" by fastforce
  have v: "\<forall>i. d = Some i \<longrightarrow> i < length (io_contexts s) \<and> io_contexts s ! i \<noteq> None"
    using 3(4) by (simp add: valid_data_def)
  obtain ts where ts: "core_inv s1" "frame s s1" "sc_tasks s1 = sc_tasks s @ ts"
    "mset (registered s) = mset ts + mset (registered s1)" "r = (ts \<noteq> [])"
    "length (io_contexts s1) = length (io_contexts s)" "\<forall>i. (io_contexts s1 ! i = None) = (io_contexts s ! i = None)"
    by (rule processEvent_keeps [OF 3(3) p v])
  have "\<forall>(d, e) \<in> set evs. valid_data (io_contexts s1) d" using 3(4) ts(6,7) by (auto simp: valid_data_def)
  moreover have "process_ready ctl evs (ready \<or> r) s1 = (b', s')" using 3(2) p by simp
  ultimately obtain us where us: "core_inv s'" "frame s1 s'" "sc_tasks s' = sc_tasks s1 @ us"
    "mset (registered s1) = mset us + mset (registered s')" "b' = ((ready \<or> r) \<or> Tickle \<in> fst ` set evs \<or> us \<noteq> [])"
    using 3(1) [OF p [symmetric] refl _ ts(1)] by blast
  have "frame s s'" by (rule frame_trans [OF ts(2) us(2)])
  with ts us show ?case by (intro exI [of _ "ts @ us"]) auto
qed auto

section \<open>Properties\<close>


text \<open>C3: Every handler registered with addEvent is accounted for exactly once: it is still waiting, or
  was dropped by delEvent or the destructor, or was triggered by a ready event or a cancel; and each
  triggered handler was posted to the scheduler's queue once, where every post (handlers, timers, other
  tasks) is either still queued or has been taken by exactly one thread.\<close>
theorem handlers_exactly_once:
  assumes "IOManager_init n use_caller self k = Some s0" "io_run ctl s0 tr s"
  shows "mset (ev_registered tr) = mset (registered s) + mset (ev_dropped tr) + mset (ev_triggered tr) \<and>
    mset (posts (ev_queue tr)) = mset (map snd (takes (ev_queue tr))) + mset (sc_tasks s) \<and>
    mset (ev_triggered tr) \<subseteq># mset (posts (ev_queue tr))"
proof -
  have a: "accounts s0 tr s" using io_run_facts [OF assms(2) IOManager_init_inv(1) [OF assms(1)]] by simp
  then have q: "queue_run [] (ev_queue tr) (sc_tasks s)"
    using IOManager_init_inv(2) [OF assms(1)] by (simp add: accounts_def)
  have "mset (ev_triggered es) \<subseteq># mset (posts (ev_queue es))" for es :: "'a io_event list"
  proof (induction es rule: rev_induct)
    case (snoc e es)
    then show ?case by (cases e) (auto intro: subset_mset.order_trans mset_subset_eq_mono_add)
  qed simp
  moreover have "mset (posts (ev_queue tr)) = mset (map snd (takes (ev_queue tr))) + mset (sc_tasks s)"
    using queue_run_conserves [OF q] by simp
  moreover have "mset (ev_registered tr) = mset (registered s) + mset (ev_dropped tr) + mset (ev_triggered tr)"
    using a IOManager_init_inv(3) [OF assms(1)] by (simp add: accounts_def)
  ultimately show ?thesis by blast
qed

text \<open>A thread of a reachable IO manager leaves its loop only once stop has been called and, unless
  the destructor forces it, only when no handler waits, no timer is armed and no task is queued.\<close>
theorem io_manager_leaves:
  assumes "IOManager_init n use_caller self k = Some s0" "io_run ctl s0 tr s" "io_step ctl s es s'"
    and "pc_of t s \<noteq> Some Left_loop" "pc_of t s' = Some Left_loop"
  shows "sc_stopping s \<and> (io_force_stop s \<or> registered s = [] \<and> \<not> hasTimer (io_timers s) \<and> sc_tasks s = [])"
proof -
  have inv: "io_inv s" using io_run_facts [OF assms(2) IOManager_init_inv(1) [OF assms(1)]] by simp
  then have core: "core_inv s" by (simp add: io_inv_def)
  have same: "sc_loops s' \<noteq> sc_loops s" using assms(4,5) by (auto simp: pc_of_def)
  from assms(3) have "io_idle s = Some True"
  proof cases
    case (sched qs)
    show ?thesis by (rule io.leaves_idle [OF sched(2) assms(4,5)])
  next
    case (add cb current fd event e)
    then show ?thesis using addEvent_keeps [OF core add(3)] same by (simp add: frame_def)
  next
    case (del fd event e ts)
    then show ?thesis using delEvent_keeps [OF core del(2)] same unfolding frame_def by metis
  next
    case (cancel fd event e ts)
    then show ?thesis using cancelEvent_keeps [OF core cancel(2)] same unfolding frame_def by metis
  next
    case (ready u data ev b ts)
    then show ?thesis using processEvent_keeps [OF core ready(4,3)] same unfolding frame_def by metis
  next
    case (expire u now m cbs)
    then show ?thesis using post_expired_facts [of cbs "s\<lparr> io_timers := m \<rparr>"] same by (simp add: frame_def)
  next
    case (timer m)
    then show ?thesis using with_timers_facts [of m s] same by simp
  next
    case (destroy self)
    then show ?thesis using destroy_begin_facts [OF destroy(2)] same by simp
  next
    case destroyed
    then show ?thesis using same
      by (simp add: destroy_end_def clearAllEventsWithoutResume_def Let_def split: prod.splits)
  qed
  then have st: "io_stopping s" by (simp add: io_idle_def)
  have "io_pending s = of_nat (length (registered s))" "length (registered s) < 2 ^ 64"
    using core small_sum by (auto simp: core_inv_def registered_def)
  then have "unat (io_pending s) = length (registered s)" by (simp add: unat_of_nat)
  then have "io_pending s = 0 \<longrightarrow> registered s = []" by auto
  with st show ?thesis by (auto simp: io_stopping_def split: if_splits)
qed


text \<open>The answer a registration should get, checks in their order.\<close>

definition registration_result :: "'k epoll_ctl \<Rightarrow> nat \<times> u32 \<Rightarrow> int \<Rightarrow> u32 \<Rightarrow> 'c option \<Rightarrow> ('c, 'k) iomanager \<Rightarrow> errno option" where
  "registration_result ctl current fd event cb s =
     (if event \<noteq> READ \<and> event \<noteq> WRITE then Some EINVAL
      else if cb = None \<and> snd current = 0 then Some EPERM
      else if fd < 0 \<or> fd > 2 ^ 20 then Some EINVAL
      else let i = nat fd; old = fc_events (ctx_of s i)
           in if old AND event \<noteq> 0 then Some EEXIST
              else fst (ctl (if old = NONE then EPOLL_CTL_ADD else EPOLL_CTL_MOD) i (toEpollEvents (old OR event)) (io_epoll s)))"

text \<open>The result of addEvent, checks in this order: an event that is not READ or WRITE is EINVAL; no
  callback on a thread without a fiber is EPERM; an fd outside the table is EINVAL; an event already
  registered is EEXIST; else whatever epoll_ctl answers, asked to ADD the first event of an fd and to MOD
  afterwards.  On any error no handler is registered, no task is posted and nobody is woken.\<close>
theorem add_event_errors:
  assumes "IOManager_init n use_caller self k = Some s0" "io_run ctl s0 tr s"
    and "addEvent ctl current fd event cb s = (e, s')"
  shows "e = registration_result ctl current fd event cb s \<and>
    (e \<noteq> None \<longrightarrow> mset (registered s') = mset (registered s) \<and> sc_tasks s' = sc_tasks s \<and> io_tickles s' = io_tickles s)"
proof -
  have core: "core_inv s" using io_run_facts [OF assms(2) IOManager_init_inv(1) [OF assms(1)]] by (simp add: io_inv_def)
  then have good: "ctxs_ok (io_contexts s)" by (simp add: core_inv_def)
  have upd: "x = fst (ctl (if fc_events (ctx_of s i) = NONE then EPOLL_CTL_ADD else EPOLL_CTL_MOD) i
        (toEpollEvents (fc_events (ctx_of s i) OR event)) (io_epoll s)) \<and> io_tickles s2 = io_tickles s"
    if g: "getFdContext fd True s = (Some (Inr i), s1)" and v: "validEvent event"
      and u: "updateEpoll ctl (ctx_of s i) (fc_events (ctx_of s i) OR event) s1 = (x, s2)" for i s1 s2 x
  proof -
    obtain cs where s1: "s1 = s\<lparr> io_contexts := cs \<rparr>" by (rule getFdContext_facts [OF good g])
    have c: "fc_fd (ctx_of s i) = i" "fc_events (ctx_of s i) \<in> event_sets" using ctx_of_ok [OF good] by (auto simp: ctx_ok_def)
    then have "fc_events (ctx_of s i) OR event \<noteq> NONE" using valid_in [OF v] by (auto simp: event_sets_def NONE_def)
    with u c s1 show ?thesis by (auto simp: updateEpoll_def Let_def split: prod.splits)
  qed
  have first: "io_tickles s1 = io_tickles s" if g: "getFdContext fd True s = (r, s1)" for r s1
  proof -
    obtain cs where "s1 = s\<lparr> io_contexts := cs \<rparr>" by (rule getFdContext_facts [OF good g])
    then show ?thesis by simp
  qed
  have v: "validEvent event \<longleftrightarrow> \<not> (event \<noteq> READ \<and> event \<noteq> WRITE)" by (auto simp: validEvent_def)
  have "e = registration_result ctl current fd event cb s \<and> (e \<noteq> None \<longrightarrow> io_tickles s' = io_tickles s)"
  proof (rule addEvent_result [OF good assms(3)])
    fix i s1
    assume a: "validEvent event" "cb \<noteq> None \<or> snd current \<noteq> 0" "fd = int i" "i \<le> 2 ^ 20" "fc_events (ctx_of s i) AND event \<noteq> 0"
      "e = Some EEXIST" "getFdContext fd True s = (Some (Inr i), s1)" "s' = s1"
    then show ?thesis using first [OF a(7)] by (auto simp: registration_result_def v Let_def)
  next
    fix i s1 x
    assume a: "validEvent event" "cb \<noteq> None \<or> snd current \<noteq> 0" "fd = int i" "i \<le> 2 ^ 20" "fc_events (ctx_of s i) AND event = 0"
      "getFdContext fd True s = (Some (Inr i), s1)"
      "updateEpoll ctl (ctx_of s i) (fc_events (ctx_of s i) OR event) s1 = (Some x, s')" "e = Some x"
    then show ?thesis using upd [OF a(6,1,7)] by (auto simp: registration_result_def v Let_def)
  next
    fix i s1 s2
    assume a: "validEvent event" "fd = int i" "i \<le> 2 ^ 20" "cb \<noteq> None \<or> snd current \<noteq> 0" "fc_events (ctx_of s i) AND event = 0"
      "getFdContext fd True s = (Some (Inr i), s1)"
      "updateEpoll ctl (ctx_of s i) (fc_events (ctx_of s i) OR event) s1 = (None, s2)" "e = None"
    then show ?thesis using upd [OF a(6,1,7)] by (auto simp: registration_result_def v Let_def)
  qed (auto simp: registration_result_def v)
  then show ?thesis using addEvent_keeps [OF core assms(3)] by auto
qed

section \<open>A run\<close>

text \<open>A kernel that accepts everything; one thread that finds nothing to do, waits for READ on fd 3 with
  a callback and sees it become ready.\<close>

definition demo_ctl :: "unit epoll_ctl" where "demo_ctl = (\<lambda>_ _ _ k. (None, k))"

definition demo_io :: "(nat, unit) iomanager" where "demo_io = the (IOManager_init 1 True 7 ())"

definition demo_waiting :: "(nat, unit) iomanager" where
  "demo_waiting = snd (run_head 7 (the (start 7 demo_io)))"

definition demo_event :: "(nat, unit) iomanager" where
  "demo_event = snd (addEvent demo_ctl (0, 0) 3 READ (Some 42) demo_waiting)"

lemma demo_io_init: "IOManager_init 1 True 7 () = Some demo_io"
  by (simp add: demo_io_def IOManager_init_def Scheduler_init_def)

lemmas demo_io_eval = demo_io_def IOManager_init_def Scheduler_init_def scheduler.extend_def start_def
  run_head_def getNextTask_def enter_run_def pc_of_def goto_def set_loop_def demo_waiting_def Let_def

lemma demo_waiting_run: "io_run demo_ctl demo_io [] demo_waiting"
proof -
  have 1: "sc_loops demo_io 7 = None" "start 7 demo_io = Some (the (start 7 demo_io))"
    "pc_of 7 (the (start 7 demo_io)) = Some At_head" "run_head 7 (the (start 7 demo_io)) = (None, demo_waiting)"
    by (simp_all add: demo_io_eval)
  have "io_step demo_ctl demo_io (map Queue []) (the (start 7 demo_io))"
    by (rule io_step.sched [OF sched_step.started [OF 1(1,2)]])
  moreover have "io_step demo_ctl (the (start 7 demo_io)) (map Queue []) demo_waiting"
    by (rule io_step.sched [OF sched_step.none [OF 1(3,4)]])
  ultimately show ?thesis
    using io_run.intros(2) [OF io_run.intros(2) [OF io_run.intros(1)]] by fastforce
qed

lemma demo_add: "addEvent demo_ctl (0, 0) 3 READ (Some 42) demo_waiting = (None, demo_event)"
proof -
  have "fst (addEvent demo_ctl (0, 0) 3 READ (Some 42) demo_waiting) = None"
    by (simp add: demo_io_eval addEvent_def validEvent_def getFdContext_def kMaxTrackedFd_def updateEpoll_def
        demo_ctl_def FdContext_def event_bits numeral_eq_Suc)
  then show ?thesis by (metis demo_event_def prod.collapse)
qed

lemma demo_event_run: "io_run demo_ctl demo_io [Registered (cb_task 42 (- 1))] demo_event"
  using io_run.intros(2) [OF demo_waiting_run io_step.add [OF _ demo_add]]
  by (simp add: handler_task_def new_handler_def)


theorem handlers_exactly_once_witness: "mset (registered demo_event) = {# cb_task 42 (- 1) #}"
  using handlers_exactly_once [OF demo_io_init demo_event_run] by simp

theorem add_event_errors_witness:
  "fst (addEvent demo_ctl (0, 0) 3 READ (Some 43) demo_event) = Some EEXIST"
proof -
  have "registration_result demo_ctl (0, 0) 3 READ (Some 43) demo_event = Some EEXIST"
    by (simp add: registration_result_def demo_event_def demo_io_eval addEvent_def validEvent_def getFdContext_def
        kMaxTrackedFd_def updateEpoll_def demo_ctl_def FdContext_def event_bits numeral_eq_Suc ctx_of_def set_ctx_def)
  then show ?thesis
    using add_event_errors [OF demo_io_init demo_event_run, of "(0, 0)" 3 READ "Some 43"] by (metis prod.collapse)
qed


definition demo_stopped :: "(nat, unit) iomanager" where
  "demo_stopped = the (stop io_tickle 7 demo_waiting)"

theorem io_manager_leaves_witness:
  "pc_of 7 (goto 7 Left_loop demo_stopped) = Some Left_loop \<and> sc_stopping demo_stopped \<and> registered demo_stopped = []"
proof -
  have a: "stop io_tickle 7 demo_waiting = Some demo_stopped"
    by (simp add: demo_stopped_def stop_def demo_io_eval)
  have r: "io_run demo_ctl demo_io [] demo_stopped"
    using io_run.intros(2) [OF demo_waiting_run io_step.sched [OF sched_step.stopped [OF a]]] by simp
  have b: "pc_of 7 demo_stopped = Some In_idle" "io_idle demo_stopped = Some True" "io_force_stop demo_stopped = False"
    by (simp_all add: demo_stopped_def stop_def demo_io_eval io_tickle_def io_idle_def io_stopping_def hasTimer_def TimerManager_def)
  have c: "pc_of 7 (goto 7 Left_loop demo_stopped) = Some Left_loop" by (simp add: pc_of_def)
  have "sched_step io_tickle io_idle demo_stopped [] (goto 7 Left_loop demo_stopped)"
    using sched_step.idle [of 7 demo_stopped io_idle True] b by simp
  then have "io_step demo_ctl demo_stopped (map Queue []) (goto 7 Left_loop demo_stopped)" by (rule io_step.sched)
  from io_manager_leaves [OF demo_io_init r this _ c] b c show ?thesis by simp
qed

end
