(* ===== verification/Fd_Manager.thy ===== *)
theory Fd_Manager
  imports Prelude
begin

text \<open>
  The process-wide table of file descriptors (include/droplet/socket/fd_manager.h,
  src/socket/fd_manager.cc).  An \<open>FdCtx\<close> is shared: the table, a suspended hooked call and a socket may
  hold the same object, so the contexts are a heap \<open>fm_heap\<close> and a \<open>shared_ptr\<close> is an index of it; the
  table \<open>data_\<close> is a list of such pointers, by fd.  Each atomic access and each locked section is one
  step.  The kernel is a parameter: \<open>'k os\<close> are the raw system calls of the constructor on a state \<open>'k\<close>;
  a flag word is \<open>None\<close> when \<open>F_GETFL\<close> fails, a result of \<open>F_SETFL\<close> is the errno of its failure.
\<close>

section \<open>Contexts\<close>

definition O_NONBLOCK :: u32 where "O_NONBLOCK = 2048"
definition SO_RCVTIMEO :: int where "SO_RCVTIMEO = 20"
definition SO_SNDTIMEO :: int where "SO_SNDTIMEO = 21"
definition fd_kMaxTrackedFd :: int where "fd_kMaxTrackedFd = 2 ^ 20"

record 'k os =
  os_fstat :: "int \<Rightarrow> 'k \<Rightarrow> bool option"
  os_getfl :: "int \<Rightarrow> 'k \<Rightarrow> u32 option"
  os_setfl :: "int \<Rightarrow> u32 \<Rightarrow> 'k \<Rightarrow> int option \<times> 'k"
  os_timeo :: "int \<Rightarrow> int \<Rightarrow> 'k \<Rightarrow> (int \<times> int) option"

record fd_ctx =
  fd_fd :: int
  fd_initialized :: bool
  fd_socket :: bool
  fd_sys_nonblock :: bool
  fd_user_nonblock :: bool
  fd_closed :: bool
  fd_recv_timeout :: u64
  fd_send_timeout :: u64

definition fd_fresh :: "int \<Rightarrow> fd_ctx" where
  "fd_fresh fd = \<lparr> fd_fd = fd, fd_initialized = False, fd_socket = False, fd_sys_nonblock = False,
     fd_user_nonblock = False, fd_closed = False, fd_recv_timeout = UINT64_MAX,
     fd_send_timeout = UINT64_MAX \<rparr>"

definition fd_setTimeout :: "int \<Rightarrow> u64 \<Rightarrow> fd_ctx \<Rightarrow> fd_ctx" where
  "fd_setTimeout option milliseconds c =
     (if option = SO_RCVTIMEO then c\<lparr> fd_recv_timeout := milliseconds \<rparr>
      else if option = SO_SNDTIMEO then c\<lparr> fd_send_timeout := milliseconds \<rparr>
      else c)"

definition fd_getTimeout :: "int \<Rightarrow> fd_ctx \<Rightarrow> u64" where
  "fd_getTimeout option c =
     (if option = SO_RCVTIMEO then fd_recv_timeout c
      else if option = SO_SNDTIMEO then fd_send_timeout c
      else UINT64_MAX)"

text \<open>A \<open>timeval\<close> as the context keeps it: milliseconds, rounded up, and no timeout for zero.\<close>

definition timeval_ms :: "int \<times> int \<Rightarrow> u64" where
  "timeval_ms = (\<lambda>(sec, usec).
     if sec = 0 \<and> usec = 0 then UINT64_MAX
     else of_int sec * 1000 + of_int (usec + 999) div 1000)"

definition init_nonblock :: "'k os \<Rightarrow> fd_ctx \<Rightarrow> 'k \<Rightarrow> fd_ctx \<times> 'k" where
  "init_nonblock os c k =
     (case os_getfl os (fd_fd c) k of
        None \<Rightarrow> (c, k)
      | Some flags \<Rightarrow>
          if flags AND O_NONBLOCK \<noteq> 0 then (c\<lparr> fd_sys_nonblock := True \<rparr>, k)
          else let (e, k) = os_setfl os (fd_fd c) (flags OR O_NONBLOCK) k
               in (if e = None then c\<lparr> fd_sys_nonblock := True \<rparr> else c, k))"

definition init_timeout :: "'k os \<Rightarrow> 'k \<Rightarrow> int \<Rightarrow> fd_ctx \<Rightarrow> fd_ctx" where
  "init_timeout os k option c =
     (case os_timeo os (fd_fd c) option k of
        None \<Rightarrow> c
      | Some timeout \<Rightarrow> fd_setTimeout option (timeval_ms timeout) c)"

definition fd_init :: "'k os \<Rightarrow> fd_ctx \<Rightarrow> 'k \<Rightarrow> bool \<times> fd_ctx \<times> 'k" where
  "fd_init os c k =
     (case os_fstat os (fd_fd c) k of
        None \<Rightarrow> (False, c, k)
      | Some is_socket \<Rightarrow>
          let c = c\<lparr> fd_socket := is_socket \<rparr>;
              (c, k) = (if is_socket
                        then let (c, k) = init_nonblock os c k
                             in (init_timeout os k SO_SNDTIMEO (init_timeout os k SO_RCVTIMEO c), k)
                        else (c, k))
          in (True, c\<lparr> fd_initialized := True \<rparr>, k))"

definition FdCtx :: "'k os \<Rightarrow> int \<Rightarrow> 'k \<Rightarrow> fd_ctx \<times> 'k" where
  "FdCtx os fd k = snd (fd_init os (fd_fresh fd) k)"

section \<open>The table\<close>

record fd_manager =
  fm_heap :: "fd_ctx list"
  fm_data :: "nat option list"

definition FdManager :: fd_manager where
  "FdManager = \<lparr> fm_heap = [], fm_data = [] \<rparr>"

definition fm_ctx :: "fd_manager \<Rightarrow> nat \<Rightarrow> fd_ctx" where
  "fm_ctx m p = fm_heap m ! p"

definition fm_update :: "(fd_ctx \<Rightarrow> fd_ctx) \<Rightarrow> nat \<Rightarrow> fd_manager \<Rightarrow> fd_manager" where
  "fm_update f p m = m\<lparr> fm_heap := (fm_heap m)[p := f (fm_heap m ! p)] \<rparr>"

definition markClosed :: "nat \<Rightarrow> fd_manager \<Rightarrow> fd_manager" where
  "markClosed = fm_update (\<lambda>c. c\<lparr> fd_closed := True \<rparr>)"

definition setUserNonblock :: "bool \<Rightarrow> nat \<Rightarrow> fd_manager \<Rightarrow> fd_manager" where
  "setUserNonblock v = fm_update (\<lambda>c. c\<lparr> fd_user_nonblock := v \<rparr>)"

definition setSysNonblock :: "bool \<Rightarrow> nat \<Rightarrow> fd_manager \<Rightarrow> fd_manager" where
  "setSysNonblock v = fm_update (\<lambda>c. c\<lparr> fd_sys_nonblock := v \<rparr>)"

definition setTimeout :: "int \<Rightarrow> u64 \<Rightarrow> nat \<Rightarrow> fd_manager \<Rightarrow> fd_manager" where
  "setTimeout option milliseconds = fm_update (fd_setTimeout option milliseconds)"

text \<open>The result is a pointer or null, with \<open>EINVAL\<close> in errno when the fd is out of range
  (\<open>Some ()\<close> in the second place).\<close>

definition FdManager_get ::
  "'k os \<Rightarrow> int \<Rightarrow> bool \<Rightarrow> fd_manager \<Rightarrow> 'k \<Rightarrow> (nat option \<times> unit option) \<times> fd_manager \<times> 'k" where
  "FdManager_get os fd auto_create m k =
     (if fd < 0 \<or> fd > fd_kMaxTrackedFd then ((None, Some ()), m, k)
      else let i = nat fd
           in if length (fm_data m) \<le> i \<and> \<not> auto_create then ((None, None), m, k)
              else let d = (if length (fm_data m) \<le> i
                            then fm_data m @ replicate (i + 1 - length (fm_data m)) None
                            else fm_data m)
                   in if d ! i = None \<and> auto_create
                      then let (c, k) = FdCtx os fd k; p = length (fm_heap m)
                           in ((Some p, None), \<lparr> fm_heap = fm_heap m @ [c], fm_data = d[i := Some p] \<rparr>, k)
                      else ((d ! i, None), m\<lparr> fm_data := d \<rparr>, k))"

definition FdManager_del :: "int \<Rightarrow> fd_manager \<Rightarrow> fd_manager" where
  "FdManager_del fd m =
     (if fd < 0 \<or> length (fm_data m) \<le> nat fd then m
      else case fm_data m ! nat fd of
             None \<Rightarrow> m
           | Some p \<Rightarrow> (markClosed p m)\<lparr> fm_data := (fm_data m)[nat fd := None] \<rparr>)"

section \<open>The table as a map\<close>

text \<open>What the users of the table see: which context an fd has.\<close>

definition fm_lookup :: "fd_manager \<Rightarrow> int \<Rightarrow> nat option" where
  "fm_lookup m fd = (if 0 \<le> fd \<and> nat fd < length (fm_data m) then fm_data m ! nat fd else None)"

definition fm_trackable :: "int \<Rightarrow> bool" where
  "fm_trackable fd \<longleftrightarrow> 0 \<le> fd \<and> fd \<le> fd_kMaxTrackedFd"

lemma fm_update_simps [simp]:
  "fm_data (fm_update f p m) = fm_data m"
  "length (fm_heap (fm_update f p m)) = length (fm_heap m)"
  "fm_lookup (fm_update f p m) = fm_lookup m"
  by (simp_all add: fm_update_def fm_lookup_def fun_eq_iff)

lemma fm_ctx_update:
  "p < length (fm_heap m) \<Longrightarrow> fm_ctx (fm_update f p m) q = (if q = p then f (fm_ctx m p) else fm_ctx m q)"
  by (simp add: fm_update_def fm_ctx_def nth_list_update)

lemma fd_setTimeout_keeps [simp]:
  "fd_fd (fd_setTimeout opt ms c) = fd_fd c" "fd_closed (fd_setTimeout opt ms c) = fd_closed c"
  "fd_user_nonblock (fd_setTimeout opt ms c) = fd_user_nonblock c"
  "fd_socket (fd_setTimeout opt ms c) = fd_socket c"
  by (simp_all add: fd_setTimeout_def)

lemma init_nonblock_keeps [simp]:
  "fd_fd (fst (init_nonblock os c k)) = fd_fd c" "fd_closed (fst (init_nonblock os c k)) = fd_closed c"
  "fd_user_nonblock (fst (init_nonblock os c k)) = fd_user_nonblock c"
  by (simp_all add: init_nonblock_def split: option.split prod.split)

lemma init_timeout_keeps [simp]:
  "fd_fd (init_timeout os k opt c) = fd_fd c" "fd_closed (init_timeout os k opt c) = fd_closed c"
  "fd_user_nonblock (init_timeout os k opt c) = fd_user_nonblock c"
  by (simp_all add: init_timeout_def split: option.split)

lemma fd_init_keeps:
  "fd_fd (fst (snd (fd_init os c k))) = fd_fd c" "fd_closed (fst (snd (fd_init os c k))) = fd_closed c"
  "fd_user_nonblock (fst (snd (fd_init os c k))) = fd_user_nonblock c"
  by (simp_all add: fd_init_def Let_def case_prod_beta split: option.split)

lemma FdCtx_open [simp]: "fd_fd (fst (FdCtx os fd k)) = fd" "\<not> fd_closed (fst (FdCtx os fd k))"
  "\<not> fd_user_nonblock (fst (FdCtx os fd k))"
  by (simp_all add: FdCtx_def fd_init_keeps fd_fresh_def)

lemma get_found:
  assumes "fm_lookup m fd = Some p" and "fm_trackable fd"
  shows "FdManager_get os fd b m k = ((Some p, None), m, k)"
  using assms by (auto simp: FdManager_get_def fm_lookup_def fm_trackable_def Let_def split: if_splits)

lemma get_out_of_range:
  "\<not> fm_trackable fd \<Longrightarrow> FdManager_get os fd b m k = ((None, Some ()), m, k)"
  by (auto simp: FdManager_get_def fm_trackable_def)

lemma get_absent:
  assumes "fm_lookup m fd = None" and "fm_trackable fd"
  shows "FdManager_get os fd False m k = ((None, None), m, k)"
  using assms by (auto simp: FdManager_get_def fm_lookup_def fm_trackable_def Let_def)

lemma get_creates:
  assumes l: "fm_lookup m fd = None" and t: "fm_trackable fd"
  shows "\<exists>m'. FdManager_get os fd True m k = ((Some (length (fm_heap m)), None), m', snd (FdCtx os fd k)) \<and>
    fm_heap m' = fm_heap m @ [fst (FdCtx os fd k)] \<and>
    fm_lookup m' = (fm_lookup m)(fd := Some (length (fm_heap m)))"
proof -
  define d where "d = (if length (fm_data m) \<le> nat fd
      then fm_data m @ replicate (nat fd + 1 - length (fm_data m)) None else fm_data m)"
  have len: "nat fd < length d" by (simp add: d_def)
  have old: "i < length d \<Longrightarrow> d ! i = (if i < length (fm_data m) then fm_data m ! i else None)" for i
    by (simp add: d_def nth_append split: if_splits)
  have none: "d ! nat fd = None"
    using l t old [OF len] by (auto simp: fm_lookup_def fm_trackable_def split: if_splits)
  let ?m = "\<lparr> fm_heap = fm_heap m @ [fst (FdCtx os fd k)], fm_data = d[nat fd := Some (length (fm_heap m))] \<rparr>"
  have "FdManager_get os fd True m k = ((Some (length (fm_heap m)), None), ?m, snd (FdCtx os fd k))"
    using t none by (simp add: FdManager_get_def fm_trackable_def d_def [symmetric] Let_def split: prod.split)
  moreover have "fm_lookup ?m = (fm_lookup m)(fd := Some (length (fm_heap m)))"
  proof
    fix x
    show "fm_lookup ?m x = ((fm_lookup m)(fd := Some (length (fm_heap m)))) x"
    proof (cases "0 \<le> x \<and> nat x < length d")
      case True
      then show ?thesis
        using t old [of "nat x"] by (auto simp: fm_lookup_def fm_trackable_def nth_list_update)
    next
      case False
      moreover have "length (fm_data m) \<le> length d" by (simp add: d_def)
      ultimately show ?thesis using len t by (auto simp: fm_lookup_def fm_trackable_def)
    qed
  qed
  ultimately show ?thesis by auto
qed

lemma del_lookup: "fm_lookup (FdManager_del fd m) = (fm_lookup m)(fd := None)"
  by (auto simp: FdManager_del_def fm_lookup_def markClosed_def fun_eq_iff nth_list_update split: option.split)

section \<open>The invariant\<close>

text \<open>An fd in the table has an object made for it; an object no fd has is closed, so whoever still
  holds it will not use its descriptor, whose number the kernel may have given out again.\<close>

definition fm_inv :: "fd_manager \<Rightarrow> bool" where
  "fm_inv m \<longleftrightarrow>
     (\<forall>fd p. fm_lookup m fd = Some p \<longrightarrow> p < length (fm_heap m) \<and> fd_fd (fm_ctx m p) = fd) \<and>
     (\<forall>p < length (fm_heap m). fm_lookup m (fd_fd (fm_ctx m p)) \<noteq> Some p \<longrightarrow> fd_closed (fm_ctx m p))"

definition keeps_identity :: "(fd_ctx \<Rightarrow> fd_ctx) \<Rightarrow> bool" where
  "keeps_identity f \<longleftrightarrow> (\<forall>c. fd_fd (f c) = fd_fd c \<and> (fd_closed c \<longrightarrow> fd_closed (f c)))"

lemma fm_inv_init: "fm_inv FdManager"
  by (simp add: fm_inv_def FdManager_def fm_lookup_def)

lemma fm_inv_update:
  assumes "fm_inv m" and "keeps_identity f" and "p < length (fm_heap m)"
  shows "fm_inv (fm_update f p m)"
  using assms unfolding fm_inv_def keeps_identity_def by (auto simp: fm_ctx_update)

lemma fm_inv_get:
  assumes "fm_inv m" and "FdManager_get os fd b m k = (r, m', k')"
  shows "fm_inv m'"
proof (cases "fm_trackable fd")
  case False
  with assms show ?thesis by (simp add: get_out_of_range)
next
  case t: True
  show ?thesis
  proof (cases "fm_lookup m fd")
    case (Some p)
    with assms t show ?thesis by (simp add: get_found)
  next
    case l: None
    show ?thesis
    proof (cases b)
      case False
      with assms t l show ?thesis by (simp add: get_absent)
    next
      case True
      with get_creates [OF l t, of os k] assms(2)
      have h: "fm_heap m' = fm_heap m @ [fst (FdCtx os fd k)]"
        and u: "fm_lookup m' = (fm_lookup m)(fd := Some (length (fm_heap m)))" by auto
      have c: "fm_ctx m' q = (if q < length (fm_heap m) then fm_ctx m q else fst (FdCtx os fd k))"
        if "q < length (fm_heap m')" for q
        using that by (auto simp: fm_ctx_def h nth_append less_Suc_eq)
      have inv1: "fm_lookup m x = Some p \<Longrightarrow> p < length (fm_heap m) \<and> fd_fd (fm_ctx m p) = x" for x p
        using assms(1) by (auto simp: fm_inv_def)
      have inv2: "p < length (fm_heap m) \<Longrightarrow> fm_lookup m (fd_fd (fm_ctx m p)) \<noteq> Some p \<Longrightarrow> fd_closed (fm_ctx m p)" for p
        using assms(1) by (auto simp: fm_inv_def)
      show ?thesis
        unfolding fm_inv_def
      proof (intro conjI allI impI)
        fix fd' p assume "fm_lookup m' fd' = Some p"
        then show "p < length (fm_heap m')" and "fd_fd (fm_ctx m' p) = fd'"
          using inv1 [of fd' p] by (auto simp: u h c split: if_splits)
      next
        fix p assume "p < length (fm_heap m')" and "fm_lookup m' (fd_fd (fm_ctx m' p)) \<noteq> Some p"
        then show "fd_closed (fm_ctx m' p)"
          using inv2 [of p] l by (auto simp: u h c less_Suc_eq split: if_splits)
      qed
    qed
  qed
qed

lemma fm_inv_del:
  assumes inv: "fm_inv m"
  shows "fm_inv (FdManager_del fd m)"
proof (cases "fm_lookup m fd")
  case None
  then have "FdManager_del fd m = m"
    by (auto simp: FdManager_del_def fm_lookup_def split: if_splits)
  with inv show ?thesis by simp
next
  case (Some p)
  then have p: "p < length (fm_heap m)" and f: "fd_fd (fm_ctx m p) = fd" using inv by (auto simp: fm_inv_def)
  have h: "fm_heap (FdManager_del fd m) = fm_heap (markClosed p m)"
    using Some by (auto simp: FdManager_del_def fm_lookup_def split: if_splits)
  then have c: "fm_ctx (FdManager_del fd m) q =
      (if q = p then (fm_ctx m p)\<lparr> fd_closed := True \<rparr> else fm_ctx m q)" for q
    using fm_ctx_update [OF p] by (simp add: fm_ctx_def markClosed_def)
  show ?thesis
    unfolding fm_inv_def
  proof (intro conjI allI impI)
    fix x q assume "fm_lookup (FdManager_del fd m) x = Some q"
    then have "fm_lookup m x = Some q" by (simp add: del_lookup split: if_splits)
    then show "q < length (fm_heap (FdManager_del fd m))" and "fd_fd (fm_ctx (FdManager_del fd m) q) = x"
      using inv unfolding fm_inv_def by (simp_all add: h c markClosed_def)
  next
    fix q assume q: "q < length (fm_heap (FdManager_del fd m))"
      and l: "fm_lookup (FdManager_del fd m) (fd_fd (fm_ctx (FdManager_del fd m) q)) \<noteq> Some q"
    show "fd_closed (fm_ctx (FdManager_del fd m) q)"
    proof (cases "q = p")
      case False
      with l Some have "fm_lookup m (fd_fd (fm_ctx m q)) \<noteq> Some q"
        by (auto simp: del_lookup c split: if_splits)
      with False q inv show ?thesis unfolding fm_inv_def by (simp add: h c markClosed_def)
    qed (simp add: c)
  qed
qed

lemma del_closes:
  assumes "fm_inv m" and "fm_lookup m fd = Some p"
  shows "fd_closed (fm_ctx (FdManager_del fd m) p)"
proof -
  have p: "p < length (fm_heap m)" using assms by (auto simp: fm_inv_def)
  show ?thesis
    using assms(2) p
    by (auto simp: FdManager_del_def fm_lookup_def markClosed_def fm_update_def fm_ctx_def split: if_splits)
qed

section \<open>The contract of the table\<close>

text \<open>What the hooks and the sockets rely on: \<open>get\<close> finds the object of an fd or makes one nobody
  holds, \<open>del\<close> forgets it.  \<open>used\<close> are the objects that have ever been made.\<close>

locale fd_table =
  fixes lookup :: "'s \<Rightarrow> int \<Rightarrow> nat option"
    and get :: "int \<Rightarrow> 's \<Rightarrow> nat option \<times> 's"
    and del :: "int \<Rightarrow> 's \<Rightarrow> 's"
    and used :: "'s \<Rightarrow> nat set"
    and ok :: "int \<Rightarrow> bool"
  assumes hit: "ok fd \<Longrightarrow> lookup s fd = Some p \<Longrightarrow> get fd s = (Some p, s)"
    and miss: "ok fd \<Longrightarrow> lookup s fd = None \<Longrightarrow>
      \<exists>p s'. get fd s = (Some p, s') \<and> p \<notin> used s \<and> used s' = insert p (used s) \<and> lookup s' = (lookup s)(fd := Some p)"
    and refused: "\<not> ok fd \<Longrightarrow> get fd s = (None, s)"
    and del_lookup: "lookup (del fd s) = (lookup s)(fd := None)"
    and del_used: "used (del fd s) = used s"
begin

lemma get_gives: "ok fd \<Longrightarrow> get fd s = (r, s') \<Longrightarrow> \<exists>p. r = Some p \<and> lookup s' fd = Some p"
  by (metis hit miss fun_upd_same option.exhaust prod.inject)

lemma get_again:
  assumes g: "get fd s = (r, s')"
  shows "get fd s' = (r, s')"
proof (cases "ok fd")
  case True
  from get_gives [OF True g] obtain p where "r = Some p" "lookup s' fd = Some p" by blast
  with hit [OF True] show ?thesis by blast
next
  case False
  from g refused [OF this] show ?thesis by auto
qed

lemma get_others: "get fd s = (r, s') \<Longrightarrow> fd' \<noteq> fd \<Longrightarrow> lookup s' fd' = lookup s fd'"
  using hit [of fd s] miss [of fd s] refused [of fd s] by (cases "ok fd"; cases "lookup s fd") auto

lemma reopened:
  assumes "ok fd" and "q \<in> used s" and "get fd (del fd s) = (Some p, s')"
  shows "p \<noteq> q"
  using miss [OF assms(1), of "del fd s"] assms(2,3) by (auto simp: del_lookup del_used)

end

definition table_get :: "'k os \<Rightarrow> int \<Rightarrow> fd_manager \<times> 'k \<Rightarrow> nat option \<times> fd_manager \<times> 'k" where
  "table_get os fd s = (let (r, m, k) = FdManager_get os fd True (fst s) (snd s) in (fst r, m, k))"

interpretation ft: fd_table "\<lambda>s. fm_lookup (fst s)" "table_get os" "\<lambda>fd s. (FdManager_del fd (fst s), snd s)"
  "\<lambda>s. {..< length (fm_heap (fst s))}" fm_trackable for os
proof
  fix fd p and s :: "fd_manager \<times> 'a"
  show "fm_trackable fd \<Longrightarrow> fm_lookup (fst s) fd = Some p \<Longrightarrow> table_get os fd s = (Some p, s)"
    by (simp add: table_get_def get_found)
  show "\<not> fm_trackable fd \<Longrightarrow> table_get os fd s = (None, s)"
    by (simp add: table_get_def get_out_of_range)
  show "fm_lookup (fst (FdManager_del fd (fst s), snd s)) = (fm_lookup (fst s))(fd := None)"
    by (simp add: del_lookup)
  show "{..<length (fm_heap (fst (FdManager_del fd (fst s), snd s)))} = {..<length (fm_heap (fst s))}"
    by (simp add: FdManager_del_def markClosed_def fm_update_def split: option.split)
next
  fix fd and s :: "fd_manager \<times> 'a"
  assume "fm_trackable fd" and "fm_lookup (fst s) fd = None"
  from get_creates [OF this(2,1), of os "snd s"]
  show "\<exists>p s'. table_get os fd s = (Some p, s') \<and> p \<notin> {..<length (fm_heap (fst s))} \<and>
      {..<length (fm_heap (fst s'))} = insert p {..<length (fm_heap (fst s))} \<and>
      fm_lookup (fst s') = (fm_lookup (fst s))(fd := Some p)"
    by (auto simp: table_get_def lessThan_Suc)
qed

section \<open>What threads do with the table\<close>

text \<open>The kernel moves on its own between the steps.\<close>

inductive fd_step :: "'k os \<Rightarrow> fd_manager \<times> 'k \<Rightarrow> fd_manager \<times> 'k \<Rightarrow> bool" for os where
  get: "FdManager_get os fd b m k = (r, m', k') \<Longrightarrow> fd_step os (m, k) (m', k')"
| del: "fd_step os (m, k) (FdManager_del fd m, k)"
| closed: "p < length (fm_heap m) \<Longrightarrow> fd_step os (m, k) (markClosed p m, k)"
| user: "p < length (fm_heap m) \<Longrightarrow> fd_step os (m, k) (setUserNonblock v p m, k)"
| sys: "p < length (fm_heap m) \<Longrightarrow> fd_step os (m, k) (setSysNonblock v p m, k)"
| timeout: "p < length (fm_heap m) \<Longrightarrow> fd_step os (m, k) (setTimeout opt ms p m, k)"
| kernel: "fd_step os (m, k) (m, k')"

inductive fd_reach :: "'k os \<Rightarrow> fd_manager \<times> 'k \<Rightarrow> bool" for os where
  start: "fd_reach os (FdManager, k)"
| step: "fd_reach os s \<Longrightarrow> fd_step os s s' \<Longrightarrow> fd_reach os s'"

inductive_cases fd_stepE: "fd_step os s s'"

lemma fm_inv_step: "fd_step os s s' \<Longrightarrow> fm_inv (fst s) \<Longrightarrow> fm_inv (fst s')"
  by (erule fd_stepE)
     (auto intro: fm_inv_get fm_inv_del fm_inv_update
       simp: markClosed_def setUserNonblock_def setSysNonblock_def setTimeout_def keeps_identity_def)

lemma fm_inv_reach: "fd_reach os s \<Longrightarrow> fm_inv (fst s)"
  by (induction rule: fd_reach.induct) (auto intro: fm_inv_init fm_inv_step)

section \<open>Properties\<close>

text \<open>Whatever threads do with the table, an fd is given the object that was made for it, two fds
  never share an object, and an object that no fd has any more is closed.\<close>

theorem fd_table_invariant:
  assumes "fd_reach os (m, k)"
  shows "(\<forall>fd p. fm_lookup m fd = Some p \<longrightarrow> fd_fd (fm_ctx m p) = fd) \<and>
    inj_on (fm_lookup m) {fd. fm_lookup m fd \<noteq> None} \<and>
    (\<forall>p < length (fm_heap m). fm_lookup m (fd_fd (fm_ctx m p)) \<noteq> Some p \<longrightarrow> fd_closed (fm_ctx m p))"
  using fm_inv_reach [OF assms] unfolding fm_inv_def inj_on_def by (auto, metis)

definition demo_os :: "u32 os" where
  "demo_os = \<lparr> os_fstat = (\<lambda>fd k. if fd < 8 then Some (fd \<noteq> 0) else None), os_getfl = (\<lambda>_ k. Some k),
     os_setfl = (\<lambda>_ v k. (None, v)), os_timeo = (\<lambda>_ option _. Some (0, if option = SO_RCVTIMEO then 1500 else 0)) \<rparr>"

definition demo_table :: "fd_manager \<times> u32" where
  "demo_table = snd (FdManager_get demo_os 2 True FdManager 1)"

lemma demo_table_reach: "fd_reach demo_os demo_table"
proof -
  obtain r m k where g: "FdManager_get demo_os 2 True FdManager 1 = (r, m, k)" by (metis prod_cases3)
  from fd_step.get [OF this] have "fd_step demo_os (FdManager, 1) (m, k)" .
  from fd_reach.step [OF fd_reach.start this] show ?thesis by (simp add: demo_table_def g)
qed

theorem fd_table_invariant_witness:
  "fd_closed (fm_ctx (FdManager_del 2 (fst demo_table)) 0)"
proof -
  have r: "fd_reach demo_os (FdManager_del 2 (fst demo_table), snd demo_table)"
    using fd_reach.step [OF demo_table_reach, of "(FdManager_del 2 (fst demo_table), snd demo_table)"]
      fd_step.del [of demo_os "fst demo_table" "snd demo_table" 2] by simp
  have e: "length (fm_heap (FdManager_del 2 (fst demo_table))) = 1"
    and l: "fm_lookup (FdManager_del 2 (fst demo_table)) 2 = None"
    and f: "fd_fd (fm_ctx (FdManager_del 2 (fst demo_table)) 0) = 2"
    by code_simp+
  from fd_table_invariant [OF r] e l f show ?thesis by auto
qed

text \<open>Getting the context of an fd in range gives an open object made for that fd and leaves every
  other fd's alone; asking again gives the same object; and after the fd has been deleted it gets an
  object that nobody held before, while the one it had stays closed.\<close>

theorem fd_reopened:
  assumes "fd_reach os s" and "fm_trackable fd" and "table_get os fd s = (r, s1)"
    and "table_get os fd (FdManager_del fd (fst s1), snd s1) = (r', s2)"
  shows "\<exists>p q. r = Some p \<and> r' = Some q \<and> table_get os fd s1 = (r, s1) \<and> p \<noteq> q \<and>
    fm_lookup (fst s2) = (fm_lookup (fst s))(fd := Some q) \<and> fd_fd (fm_ctx (fst s1) p) = fd \<and>
    fd_closed (fm_ctx (FdManager_del fd (fst s1)) p) \<and> \<not> fd_closed (fm_ctx (fst s2) q)"
proof -
  obtain p where p: "r = Some p" "fm_lookup (fst s1) fd = Some p"
    using ft.get_gives [OF assms(2,3)] by auto
  obtain q where q: "r' = Some q" "fm_lookup (fst s2) fd = Some q"
    using ft.get_gives [OF assms(2,4)] by auto
  have i1: "fm_inv (fst s1)"
    using assms(3) fm_inv_get [OF fm_inv_reach [OF assms(1)], of os fd True "snd s"]
    by (cases "FdManager_get os fd True (fst s) (snd s)") (auto simp: table_get_def split: prod.splits)
  then have "p < length (fm_heap (fst s1))" and fd: "fd_fd (fm_ctx (fst s1) p) = fd"
    using p(2) by (auto simp: fm_inv_def)
  then have "q \<noteq> p" using ft.reopened [of fd p s1 os q s2] assms(2,4) q(1) by auto
  moreover have "fm_lookup (fst s2) = (fm_lookup (fst s))(fd := Some q)"
    using ft.get_others [OF assms(3)] ft.get_others [OF assms(4)] q(2)
    by (auto simp: fun_eq_iff del_lookup)
  moreover have "fm_lookup (FdManager_del fd (fst s1)) fd = None" by (simp add: del_lookup)
  from get_creates [OF this assms(2), of os "snd s1"] assms(4) q(1)
  have "\<not> fd_closed (fm_ctx (fst s2) q)"
    by (auto simp: table_get_def fm_ctx_def)
  ultimately show ?thesis
    using p q fd del_closes [OF i1 p(2)] ft.get_again [OF assms(3)] by auto
qed

theorem fd_reopened_witness:
  "fst (table_get demo_os 2 (FdManager_del 2 (fst demo_table), snd demo_table)) \<noteq> Some 0"
proof -
  have g: "table_get demo_os 2 demo_table = (Some 0, demo_table)"
    by (rule ft.hit) code_simp+
  obtain r s where h: "table_get demo_os 2 (FdManager_del 2 (fst demo_table), snd demo_table) = (r, s)"
    by (cases "table_get demo_os 2 (FdManager_del 2 (fst demo_table), snd demo_table)") auto
  have "fm_trackable 2" by code_simp
  from fd_reopened [OF demo_table_reach this g h] h show ?thesis by auto
qed

lemma uint_plus_eq: "uint (a + b :: u64) = (uint a + uint b) mod 2 ^ 64"
  by (simp add: uint_word_ariths)

text \<open>A timeout kept by a context is the \<open>timeval\<close> it came from in milliseconds, rounded up, for
  every \<open>timeval\<close> whose milliseconds fit 64 bits; a zero \<open>timeval\<close> is the absence of a timeout, and
  no other becomes one.\<close>

theorem timeout_rounded_up:
  assumes "0 \<le> sec" and "0 \<le> usec" and "usec < 1000000" and "sec * 1000 + 1000 < 2 ^ 64"
  shows "if sec = 0 \<and> usec = 0 then timeval_ms (sec, usec) = UINT64_MAX
    else sec * 1000000 + usec \<le> uint (timeval_ms (sec, usec)) * 1000 \<and>
         uint (timeval_ms (sec, usec)) * 1000 < sec * 1000000 + usec + 1000 \<and>
         timeval_ms (sec, usec) \<noteq> UINT64_MAX"
proof (cases "sec = 0 \<and> usec = 0")
  case False
  have s: "uint (of_int sec * 1000 :: u64) = sec * 1000"
    using assms by (simp add: uint_word_ariths uint_word_of_int_eq take_bit_eq_mod)
  have "uint (of_int (usec + 999) :: u64) = usec + 999"
    using assms by (simp add: uint_word_of_int_eq take_bit_eq_mod del: of_int_add)
  then have u: "uint (of_int (usec + 999) div 1000 :: u64) = (usec + 999) div 1000"
    by (simp add: uint_div)
  define q where "q = (usec + 999) div 1000"
  have "0 \<le> q" "q \<le> 1000" using assms(2,3) by (simp_all add: q_def)
  moreover have "q * 1000 + (usec + 999) mod 1000 = usec + 999" unfolding q_def by simp
  then have "usec \<le> q * 1000" "q * 1000 < usec + 1000"
    using pos_mod_bound [of 1000 "usec + 999"] pos_mod_sign [of 1000 "usec + 999"] by linarith+
  ultimately have q: "0 \<le> q" "q \<le> 1000" "usec \<le> q * 1000" "q * 1000 < usec + 1000" .
  have "timeval_ms (sec, usec) = of_int sec * 1000 + of_int (usec + 999) div 1000"
    using False by (auto simp: timeval_ms_def)
  then have "uint (timeval_ms (sec, usec)) = (sec * 1000 + q) mod 2 ^ 64"
    by (simp only: uint_plus_eq s u q_def)
  then have v: "uint (timeval_ms (sec, usec)) = sec * 1000 + q" using assms q by simp
  then have "timeval_ms (sec, usec) \<noteq> UINT64_MAX"
    using assms q by (auto simp: UINT64_MAX_def unsigned_minus_1_eq_mask mask_eq_exp_minus_1)
  with q show ?thesis unfolding if_not_P [OF False] v by (simp add: algebra_simps)
qed (simp add: timeval_ms_def)

theorem timeout_rounded_up_witness: "uint (timeval_ms (2, 1)) * 1000 \<ge> 2000001"
  using timeout_rounded_up [of 2 1] by simp

end
