(* ===== verification/Hook.thy ===== *)
theory Hook
  imports Io_Manager Fd_Manager
begin

text \<open>
  The system calls the library interposes (include/droplet/hook/hook.h, src/hook/hook.cc): inside an IO
  manager a blocking call on a socket tries the real call, registers the fd, and gives up the fiber
  until the event, the timeout or a close wakes it.

  The real calls are parameters on a state \<open>'k\<close>, which is the kernel together with the memory the
  calls fill; a call returns \<open>Inr\<close> its value, or \<open>Inl\<close> the errno when it returns -1.  The arguments a
  hook only passes on are one value of type \<open>'a\<close>.  Where the fiber is given up, the model has a list of
  transitions \<open>envs\<close>: what the rest of the program did to the state until the fiber was resumed, once
  per suspension; a call whose list is used up is still \<open>Held\<close>.  The outer \<open>None\<close> is a call that is
  interrupted for ever.  \<open>hk_enabled\<close> and \<open>hk_iom\<close> are the thread's; \<open>current\<close> is the running fiber with
  its stack size.
\<close>

section \<open>Errors, callbacks and the state\<close>

definition E_INTR :: int where "E_INTR = 4"
definition E_BADF :: int where "E_BADF = 9"
definition E_AGAIN :: int where "E_AGAIN = 11"
definition E_NOSYS :: int where "E_NOSYS = 38"
definition E_TIMEDOUT :: int where "E_TIMEDOUT = 110"
definition E_INPROGRESS :: int where "E_INPROGRESS = 115"

fun errno_of :: "errno \<Rightarrow> int" where
  "errno_of EINVAL = 22"
| "errno_of EPERM = 1"
| "errno_of EEXIST = 17"
| "errno_of ENOENT = 2"
| "errno_of (Sys e) = e"

type_synonym 'k sys_call = "'k \<Rightarrow> (int + int) \<times> 'k"

text \<open>The callbacks the hooks hand to timers, beside those of the program: a timeout of a waiting call
  (its \<open>TimerInfo\<close>, fd and event) and the end of a sleep.\<close>

datatype 'u hook_cb = TimedOut nat int u32 | ScheduleFiber nat | User 'u

type_synonym ('u, 'e) hook_iom = "((nat, 'u hook_cb) timer_fn, 'e) iomanager"

text \<open>A \<open>TimerInfo\<close> is \<open>None\<close> once the call that owns it has returned.\<close>

record ('u, 'e, 'k) hook_state =
  hk_enabled :: bool
  hk_iom :: "('u, 'e) hook_iom option"
  hk_fds :: fd_manager
  hk_infos :: "int option list"
  hk_kernel :: 'k
  hk_now :: u64

type_synonym ('u, 'e, 'k) hook_env = "('u, 'e, 'k) hook_state \<Rightarrow> ('u, 'e, 'k) hook_state"

datatype 's io_turn = Returned "int + int" 's | Held "nat option" 's

text \<open>The original functions the dynamic linker gave; those the hooks test for null are options.\<close>

datatype fcntl_cmd =
    F_SETFL | F_GETFL | F_DUPFD | F_DUPFD_CLOEXEC | F_SETFD | F_SETOWN | F_SETSIG | F_SETLEASE | F_NOTIFY
  | F_SETPIPE_SZ | F_GETFD | F_GETOWN | F_GETSIG | F_GETLEASE | F_GETPIPE_SZ | F_other int

record ('a, 'k) originals =
  sleep_f :: "u32 \<Rightarrow> 'k sys_call"
  usleep_f :: "u32 \<Rightarrow> 'k sys_call"
  nanosleep_f :: "(int \<times> int) option \<Rightarrow> ('k \<Rightarrow> 'k) option \<Rightarrow> 'k sys_call"
  socket_f :: "int \<Rightarrow> u32 \<Rightarrow> int \<Rightarrow> 'k sys_call"
  socketpair_f :: "int \<Rightarrow> u32 \<Rightarrow> int \<Rightarrow> 'k \<Rightarrow> (int + int \<times> int) \<times> 'k"
  connect_f :: "int \<Rightarrow> 'a \<Rightarrow> 'k sys_call"
  accept_f :: "(int \<Rightarrow> 'a \<Rightarrow> 'k sys_call) option"
  accept4_f :: "(int \<Rightarrow> 'a \<Rightarrow> u32 \<Rightarrow> 'k sys_call) option"
  read_f :: "(int \<Rightarrow> 'a \<Rightarrow> 'k sys_call) option"
  readv_f :: "(int \<Rightarrow> 'a \<Rightarrow> 'k sys_call) option"
  recv_f :: "(int \<Rightarrow> 'a \<Rightarrow> u32 \<Rightarrow> 'k sys_call) option"
  recvfrom_f :: "(int \<Rightarrow> 'a \<Rightarrow> u32 \<Rightarrow> 'k sys_call) option"
  recvmsg_f :: "(int \<Rightarrow> 'a \<Rightarrow> u32 \<Rightarrow> 'k sys_call) option"
  write_f :: "(int \<Rightarrow> 'a \<Rightarrow> 'k sys_call) option"
  writev_f :: "(int \<Rightarrow> 'a \<Rightarrow> 'k sys_call) option"
  send_f :: "(int \<Rightarrow> 'a \<Rightarrow> u32 \<Rightarrow> 'k sys_call) option"
  sendto_f :: "(int \<Rightarrow> 'a \<Rightarrow> u32 \<Rightarrow> 'k sys_call) option"
  sendmsg_f :: "(int \<Rightarrow> 'a \<Rightarrow> u32 \<Rightarrow> 'k sys_call) option"
  close_f :: "int \<Rightarrow> 'k sys_call"
  fcntl_f :: "int \<Rightarrow> fcntl_cmd \<Rightarrow> u32 option \<Rightarrow> 'k \<Rightarrow> (int + u32) \<times> 'k"
  ioctl_f :: "int \<Rightarrow> u64 \<Rightarrow> int option \<Rightarrow> 'k sys_call"
  getsockopt_f :: "int \<Rightarrow> int \<Rightarrow> int \<Rightarrow> 'k sys_call"
  setsockopt_f :: "int \<Rightarrow> int \<Rightarrow> int \<Rightarrow> 'a option \<Rightarrow> nat \<Rightarrow> 'k sys_call"
  as_timeval :: "'a \<Rightarrow> int \<times> int"

definition setHookEnabled :: "bool \<Rightarrow> ('u, 'e, 'k) hook_state \<Rightarrow> ('u, 'e, 'k) hook_state" where
  "setHookEnabled enabled s = s\<lparr> hk_enabled := enabled \<rparr>"

definition on_kernel :: "'k sys_call \<Rightarrow> ('u, 'e, 'k) hook_state \<Rightarrow> (int + int) \<times> ('u, 'e, 'k) hook_state" where
  "on_kernel f s = (let (r, k) = f (hk_kernel s) in (r, s\<lparr> hk_kernel := k \<rparr>))"

definition hk_get :: "'k os \<Rightarrow> int \<Rightarrow> bool \<Rightarrow> ('u, 'e, 'k) hook_state \<Rightarrow> nat option \<times> ('u, 'e, 'k) hook_state" where
  "hk_get os fd auto_create s =
     (let (r, m, k) = FdManager_get os fd auto_create (hk_fds s) (hk_kernel s)
      in (fst r, s\<lparr> hk_fds := m, hk_kernel := k \<rparr>))"

abbreviation hk_ctx :: "('u, 'e, 'k) hook_state \<Rightarrow> nat \<Rightarrow> fd_ctx" where
  "hk_ctx s p \<equiv> fm_ctx (hk_fds s) p"

definition hk_nonblock :: "bool \<Rightarrow> nat option \<Rightarrow> ('u, 'e, 'k) hook_state \<Rightarrow> ('u, 'e, 'k) hook_state" where
  "hk_nonblock v context s =
     (case context of None \<Rightarrow> s | Some p \<Rightarrow> s\<lparr> hk_fds := setUserNonblock v p (hk_fds s) \<rparr>)"

section \<open>Waiting calls\<close>

text \<open>The call, again while a signal interrupts it.\<close>

partial_function (option) call_retry :: "'k sys_call \<Rightarrow> 'k \<Rightarrow> ((int + int) \<times> 'k) option" where
  "call_retry f k =
     (if fst (f k) = Inl E_INTR then call_retry f (snd (f k)) else Some (f k))"

declare call_retry.simps [code]

definition cancel_wait_timer :: "nat option \<Rightarrow> ('u, 'e) hook_iom \<Rightarrow> ('u, 'e) hook_iom" where
  "cancel_wait_timer timer iom =
     (case timer of None \<Rightarrow> iom | Some t \<Rightarrow> snd (io_timer_op (timer_cancel t) iom))"

text \<open>Arm the timer, register the running fiber for the event and give it up.  \<open>timed\<close> is the
  caller's test of the timeout.\<close>

definition wait_event ::
  "'e epoll_ctl \<Rightarrow> nat \<times> u32 \<Rightarrow> int \<Rightarrow> u32 \<Rightarrow> bool \<Rightarrow> u64 \<Rightarrow> nat \<Rightarrow> ('u, 'e) hook_iom \<Rightarrow>
   ('u, 'e, 'k) hook_state \<Rightarrow> ('u, 'e, 'k) hook_state io_turn" where
  "wait_event ctl current fd event timed timeout info iom s =
     (let (timer, iom) =
            (if timed
             then io_timer_op (addConditionTimer (hk_now s) timeout (Some (TimedOut info fd event)) info False) iom
             else (None, iom))
      in case addEvent ctl current fd event None iom of
           (Some e, iom) \<Rightarrow> Returned (Inl (errno_of e)) (s\<lparr> hk_iom := Some (cancel_wait_timer timer iom) \<rparr>)
         | (None, iom) \<Rightarrow> Held timer (s\<lparr> hk_iom := Some iom \<rparr>))"

text \<open>What the call does when it is resumed: \<open>Some\<close> is the error that cancelled it.\<close>

definition wait_over :: "nat option \<Rightarrow> nat \<Rightarrow> ('u, 'e, 'k) hook_state \<Rightarrow> int option \<times> ('u, 'e, 'k) hook_state" where
  "wait_over timer info s =
     (let s = s\<lparr> hk_iom := map_option (cancel_wait_timer timer) (hk_iom s) \<rparr>;
          cancellation = the (hk_infos s ! info)
      in (if cancellation \<noteq> 0 then Some cancellation else None, s))"

text \<open>One pass of the loop of \<open>DoIo\<close>, up to the point where the fiber is given up.\<close>

definition do_io_turn ::
  "'e epoll_ctl \<Rightarrow> 'k sys_call \<Rightarrow> int \<Rightarrow> u32 \<Rightarrow> u64 \<Rightarrow> nat \<Rightarrow> nat \<Rightarrow> nat \<times> u32 \<Rightarrow>
   ('u, 'e, 'k) hook_state \<Rightarrow> ('u, 'e, 'k) hook_state io_turn option" where
  "do_io_turn ctl function fd event timeout context info current s =
     (if fd_closed (hk_ctx s context) then Some (Returned (Inl E_BADF) s)
      else case call_retry function (hk_kernel s) of
             None \<Rightarrow> None
           | Some (result, k) \<Rightarrow>
               let s = s\<lparr> hk_kernel := k \<rparr>
               in Some (if result \<noteq> Inl E_AGAIN then Returned result s
                        else case hk_iom s of
                               None \<Rightarrow> Returned result s
                             | Some iom \<Rightarrow>
                                 if snd current = 0 then Returned result s
                                 else wait_event ctl current fd event (timeout \<noteq> UINT64_MAX \<and> timeout \<noteq> 0)
                                        timeout info iom s))"

fun do_io_loop ::
  "(('u, 'e, 'k) hook_state \<Rightarrow> ('u, 'e, 'k) hook_state io_turn option) \<Rightarrow> nat \<Rightarrow> ('u, 'e, 'k) hook_env list \<Rightarrow>
   ('u, 'e, 'k) hook_state \<Rightarrow> ('u, 'e, 'k) hook_state io_turn option" where
  "do_io_loop turn info [] s = turn s"
| "do_io_loop turn info (env # envs) s =
     (case turn s of
        Some (Held timer s) \<Rightarrow>
          (case wait_over timer info (env s) of
             (Some e, s) \<Rightarrow> Some (Returned (Inl e) s)
           | (None, s) \<Rightarrow> do_io_loop turn info envs s)
      | r \<Rightarrow> r)"

text \<open>The \<open>TimerInfo\<close> dies with the call that made it.\<close>

definition new_info :: "('u, 'e, 'k) hook_state \<Rightarrow> nat \<times> ('u, 'e, 'k) hook_state" where
  "new_info s = (length (hk_infos s), s\<lparr> hk_infos := hk_infos s @ [Some 0] \<rparr>)"

definition drop_info :: "nat \<Rightarrow> ('u, 'e, 'k) hook_state io_turn \<Rightarrow> ('u, 'e, 'k) hook_state io_turn" where
  "drop_info info r =
     (case r of Returned v s \<Rightarrow> Returned v (s\<lparr> hk_infos := (hk_infos s)[info := None] \<rparr>) | Held t s \<Rightarrow> Held t s)"

definition DoIo ::
  "'k os \<Rightarrow> 'e epoll_ctl \<Rightarrow> int \<Rightarrow> 'k sys_call option \<Rightarrow> u32 \<Rightarrow> int \<Rightarrow> nat \<times> u32 \<Rightarrow>
   ('u, 'e, 'k) hook_env list \<Rightarrow> ('u, 'e, 'k) hook_state \<Rightarrow> ('u, 'e, 'k) hook_state io_turn option" where
  "DoIo os ctl fd function event timeout_option current envs s =
     (case function of
        None \<Rightarrow> Some (Returned (Inl E_NOSYS) s)
      | Some f \<Rightarrow>
          if \<not> hk_enabled s then Some (case_prod Returned (on_kernel f s))
          else let (context, s) = hk_get os fd True s
               in case context of
                    None \<Rightarrow> Some (case_prod Returned (on_kernel f s))
                  | Some p \<Rightarrow>
                      let c = hk_ctx s p
                      in if fd_closed c then Some (Returned (Inl E_BADF) s)
                         else if \<not> fd_socket c \<or> fd_user_nonblock c then Some (case_prod Returned (on_kernel f s))
                         else let timeout = fd_getTimeout timeout_option c;
                                  (info, s) = new_info s
                              in map_option (drop_info info)
                                   (do_io_loop (do_io_turn ctl f fd event timeout p info current) info envs s))"

section \<open>The callbacks\<close>

text \<open>A timeout marks the call as timed out, unless it has been cancelled already, and wakes its fiber.
  The program's own callbacks are the argument \<open>user\<close>.\<close>

definition timed_out :: "'e epoll_ctl \<Rightarrow> nat \<Rightarrow> int \<Rightarrow> u32 \<Rightarrow> ('u, 'e, 'k) hook_env" where
  "timed_out ctl info fd event s =
     (case hk_infos s ! info of
        None \<Rightarrow> s
      | Some cancelled \<Rightarrow>
          if cancelled \<noteq> 0 then s
          else s\<lparr> hk_infos := (hk_infos s)[info := Some E_TIMEDOUT],
                  hk_iom := map_option (snd \<circ> cancelEvent ctl fd event) (hk_iom s) \<rparr>)"

definition schedule_sleeper :: "nat \<Rightarrow> ('u, 'e, 'k) hook_env" where
  "schedule_sleeper fiber s = s\<lparr> hk_iom := map_option (schedule_fiber io_tickle fiber (- 1)) (hk_iom s) \<rparr>"

fun run_hook_cb :: "'e epoll_ctl \<Rightarrow> ('u \<Rightarrow> ('u, 'e, 'k) hook_env) \<Rightarrow> 'u hook_cb \<Rightarrow> ('u, 'e, 'k) hook_env" where
  "run_hook_cb ctl user (TimedOut info fd event) = timed_out ctl info fd event"
| "run_hook_cb ctl user (ScheduleFiber fiber) = schedule_sleeper fiber"
| "run_hook_cb ctl user (User u) = user u"

definition run_timer_cb :: "'e epoll_ctl \<Rightarrow> ('u \<Rightarrow> ('u, 'e, 'k) hook_env) \<Rightarrow> (nat, 'u hook_cb) timer_fn \<Rightarrow> ('u, 'e, 'k) hook_env" where
  "run_timer_cb ctl user f s =
     (case run_timer_fn (\<lambda>info. hk_infos s ! info \<noteq> None) f of
        None \<Rightarrow> s
      | Some cb \<Rightarrow> run_hook_cb ctl user cb s)"

section \<open>Sleeping\<close>

definition hooked_fiber :: "nat \<times> u32 \<Rightarrow> ('u, 'e, 'k) hook_state \<Rightarrow> bool" where
  "hooked_fiber current s \<longleftrightarrow> hk_enabled s \<and> hk_iom s \<noteq> None \<and> snd current \<noteq> 0"

text \<open>Arm a timer that schedules the running fiber, give the fiber up, and finish with \<open>done\<close>.\<close>

definition sleep_fiber ::
  "u64 \<Rightarrow> nat \<times> u32 \<Rightarrow> ('u, 'e, 'k) hook_env \<Rightarrow> ('u, 'e, 'k) hook_env list \<Rightarrow>
   ('u, 'e, 'k) hook_state \<Rightarrow> ('u, 'e, 'k) hook_state io_turn" where
  "sleep_fiber milliseconds current finish envs s =
     (let (timer, iom) = io_timer_op (addTimer (hk_now s) milliseconds (Some (Direct (ScheduleFiber (fst current)))) False)
                           (the (hk_iom s));
          s = s\<lparr> hk_iom := Some iom \<rparr>
      in case envs of [] \<Rightarrow> Held timer s | env # _ \<Rightarrow> Returned (Inr 0) (finish (env s)))"

definition hook_sleep ::
  "('a, 'k) originals \<Rightarrow> u32 \<Rightarrow> nat \<times> u32 \<Rightarrow> ('u, 'e, 'k) hook_env list \<Rightarrow>
   ('u, 'e, 'k) hook_state \<Rightarrow> ('u, 'e, 'k) hook_state io_turn" where
  "hook_sleep orig seconds current envs s =
     (if \<not> hooked_fiber current s then case_prod Returned (on_kernel (sleep_f orig seconds) s)
      else sleep_fiber (ucast seconds * 1000) current id envs s)"

definition usleep_ms :: "u32 \<Rightarrow> u64" where
  "usleep_ms usec = (ucast usec + 999) div 1000"

definition hook_usleep ::
  "('a, 'k) originals \<Rightarrow> u32 \<Rightarrow> nat \<times> u32 \<Rightarrow> ('u, 'e, 'k) hook_env list \<Rightarrow>
   ('u, 'e, 'k) hook_state \<Rightarrow> ('u, 'e, 'k) hook_state io_turn" where
  "hook_usleep orig usec current envs s =
     (if \<not> hooked_fiber current s \<or> usec = 0 then case_prod Returned (on_kernel (usleep_f orig usec) s)
      else sleep_fiber (usleep_ms usec) current id envs s)"

definition nanosleep_ms :: "int \<times> int \<Rightarrow> u64" where
  "nanosleep_ms request = of_int (fst request) * 1000 + (of_int (snd request) + 999999) div 1000000"

text \<open>\<open>remainder\<close> is what storing a zero \<open>timespec\<close> at the pointer does, or null.\<close>

definition hook_nanosleep ::
  "('a, 'k) originals \<Rightarrow> (int \<times> int) option \<Rightarrow> ('k \<Rightarrow> 'k) option \<Rightarrow> nat \<times> u32 \<Rightarrow> ('u, 'e, 'k) hook_env list \<Rightarrow>
   ('u, 'e, 'k) hook_state \<Rightarrow> ('u, 'e, 'k) hook_state io_turn" where
  "hook_nanosleep orig request remainder current envs s =
     (case request of
        None \<Rightarrow> case_prod Returned (on_kernel (nanosleep_f orig request remainder) s)
      | Some r \<Rightarrow>
          if \<not> hooked_fiber current s then case_prod Returned (on_kernel (nanosleep_f orig request remainder) s)
          else sleep_fiber (nanosleep_ms r) current
                 (\<lambda>s. case remainder of None \<Rightarrow> s | Some zero \<Rightarrow> s\<lparr> hk_kernel := zero (hk_kernel s) \<rparr>) envs s)"

section \<open>Sockets\<close>

definition SOCK_NONBLOCK :: u32 where "SOCK_NONBLOCK = 2048"
definition MSG_DONTWAIT :: u32 where "MSG_DONTWAIT = 64"
definition SOL_SOCKET :: int where "SOL_SOCKET = 1"
definition SO_ERROR :: int where "SO_ERROR = 4"
definition FIONBIO :: u64 where "FIONBIO = 0x5421"

definition track_nonblock ::
  "'k os \<Rightarrow> u32 \<Rightarrow> int \<Rightarrow> ('u, 'e, 'k) hook_state \<Rightarrow> ('u, 'e, 'k) hook_state" where
  "track_nonblock os flags fd s =
     (let (context, s) = hk_get os fd True s in hk_nonblock (flags AND SOCK_NONBLOCK \<noteq> 0) context s)"

definition hook_socket ::
  "'k os \<Rightarrow> ('a, 'k) originals \<Rightarrow> int \<Rightarrow> u32 \<Rightarrow> int \<Rightarrow> ('u, 'e, 'k) hook_state \<Rightarrow> (int + int) \<times> ('u, 'e, 'k) hook_state" where
  "hook_socket os orig domain type protocol s =
     (let (fd, s) = on_kernel (socket_f orig domain type protocol) s
      in (fd, case fd of
                Inl _ \<Rightarrow> s
              | Inr fd \<Rightarrow> if hk_enabled s then track_nonblock os type fd s else s))"

definition hook_socketpair ::
  "'k os \<Rightarrow> ('a, 'k) originals \<Rightarrow> int \<Rightarrow> u32 \<Rightarrow> int \<Rightarrow> ('u, 'e, 'k) hook_state \<Rightarrow>
   (int + int \<times> int) \<times> ('u, 'e, 'k) hook_state" where
  "hook_socketpair os orig domain type protocol s =
     (let (r, k) = socketpair_f orig domain type protocol (hk_kernel s); s = s\<lparr> hk_kernel := k \<rparr>
      in (r, case r of
               Inl _ \<Rightarrow> s
             | Inr (a, b) \<Rightarrow>
                 if hk_enabled s
                 then let (first, s) = hk_get os a True s; (second, s) = hk_get os b True s
                      in hk_nonblock (type AND SOCK_NONBLOCK \<noteq> 0) second (hk_nonblock (type AND SOCK_NONBLOCK \<noteq> 0) first s)
                 else s))"

text \<open>The end of a connection attempt, once the fiber has been resumed.\<close>

definition connect_result ::
  "('a, 'k) originals \<Rightarrow> int \<Rightarrow> nat \<Rightarrow> ('u, 'e, 'k) hook_state \<Rightarrow> (int + int) \<times> ('u, 'e, 'k) hook_state" where
  "connect_result orig fd context s =
     (if fd_closed (hk_ctx s context) then (Inl E_BADF, s)
      else let (r, s) = on_kernel (getsockopt_f orig fd SOL_SOCKET SO_ERROR) s
           in (case r of
                 Inl e \<Rightarrow> Inl e
               | Inr error \<Rightarrow> if error \<noteq> 0 then Inl error else Inr 0, s))"

definition connect_with_timeout ::
  "'k os \<Rightarrow> ('a, 'k) originals \<Rightarrow> 'e epoll_ctl \<Rightarrow> int \<Rightarrow> 'a \<Rightarrow> u64 \<Rightarrow> nat \<times> u32 \<Rightarrow> ('u, 'e, 'k) hook_env list \<Rightarrow>
   ('u, 'e, 'k) hook_state \<Rightarrow> ('u, 'e, 'k) hook_state io_turn" where
  "connect_with_timeout os orig ctl fd address timeout_ms current envs s =
     (if \<not> hk_enabled s then case_prod Returned (on_kernel (connect_f orig fd address) s)
      else let (context, s) = hk_get os fd True s
           in case context of
                None \<Rightarrow> case_prod Returned (on_kernel (connect_f orig fd address) s)
              | Some p \<Rightarrow>
                  let c = hk_ctx s p
                  in if fd_closed c then Returned (Inl E_BADF) s
                     else let (result, s) = on_kernel (connect_f orig fd address) s
                          in if \<not> fd_socket c \<or> fd_user_nonblock c \<or> result \<noteq> Inl E_INPROGRESS \<or>
                                hk_iom s = None \<or> snd current = 0
                             then Returned result s
                             else let (info, s) = new_info s
                                  in drop_info info
                                       (case wait_event ctl current fd WRITE (timeout_ms \<noteq> UINT64_MAX) timeout_ms info
                                               (the (hk_iom s)) s of
                                          Returned v s \<Rightarrow> Returned v s
                                        | Held timer s \<Rightarrow>
                                            (case envs of
                                               [] \<Rightarrow> Held timer s
                                             | env # _ \<Rightarrow>
                                                 (case wait_over timer info (env s) of
                                                    (Some e, s) \<Rightarrow> Returned (Inl e) s
                                                  | (None, s) \<Rightarrow> case_prod Returned (connect_result orig fd p s)))))"

definition g_connect_timeout :: u64 where "g_connect_timeout = 5000"

definition hook_connect ::
  "'k os \<Rightarrow> ('a, 'k) originals \<Rightarrow> 'e epoll_ctl \<Rightarrow> int \<Rightarrow> 'a \<Rightarrow> nat \<times> u32 \<Rightarrow> ('u, 'e, 'k) hook_env list \<Rightarrow>
   ('u, 'e, 'k) hook_state \<Rightarrow> ('u, 'e, 'k) hook_state io_turn" where
  "hook_connect os orig ctl fd address = connect_with_timeout os orig ctl fd address g_connect_timeout"

text \<open>A new connection is tracked at once.\<close>

definition accepted ::
  "(int \<Rightarrow> ('u, 'e, 'k) hook_env) \<Rightarrow> ('u, 'e, 'k) hook_state io_turn \<Rightarrow> ('u, 'e, 'k) hook_state io_turn" where
  "accepted track r =
     (case r of
        Returned (Inr fd) s \<Rightarrow> Returned (Inr fd) (if fd \<ge> 0 \<and> hk_enabled s then track fd s else s)
      | r \<Rightarrow> r)"

definition hook_accept ::
  "'k os \<Rightarrow> ('a, 'k) originals \<Rightarrow> 'e epoll_ctl \<Rightarrow> int \<Rightarrow> 'a \<Rightarrow> nat \<times> u32 \<Rightarrow> ('u, 'e, 'k) hook_env list \<Rightarrow>
   ('u, 'e, 'k) hook_state \<Rightarrow> ('u, 'e, 'k) hook_state io_turn option" where
  "hook_accept os orig ctl fd args current envs s =
     map_option (accepted (\<lambda>fd s. snd (hk_get os fd True s)))
       (DoIo os ctl fd (map_option (\<lambda>f. f fd args) (accept_f orig)) READ SO_RCVTIMEO current envs s)"

definition hook_accept4 ::
  "'k os \<Rightarrow> ('a, 'k) originals \<Rightarrow> 'e epoll_ctl \<Rightarrow> int \<Rightarrow> 'a \<Rightarrow> u32 \<Rightarrow> nat \<times> u32 \<Rightarrow> ('u, 'e, 'k) hook_env list \<Rightarrow>
   ('u, 'e, 'k) hook_state \<Rightarrow> ('u, 'e, 'k) hook_state io_turn option" where
  "hook_accept4 os orig ctl fd args flags current envs s =
     (case accept4_f orig of
        None \<Rightarrow> Some (Returned (Inl E_NOSYS) s)
      | Some f \<Rightarrow>
          map_option (accepted (track_nonblock os flags))
            (DoIo os ctl fd (Some (f fd args flags)) READ SO_RCVTIMEO current envs s))"

section \<open>Reading and writing\<close>

definition hook_read ::
  "'k os \<Rightarrow> ('a, 'k) originals \<Rightarrow> 'e epoll_ctl \<Rightarrow> int \<Rightarrow> 'a \<Rightarrow> nat \<times> u32 \<Rightarrow> ('u, 'e, 'k) hook_env list \<Rightarrow>
   ('u, 'e, 'k) hook_state \<Rightarrow> ('u, 'e, 'k) hook_state io_turn option" where
  "hook_read os orig ctl fd args =
     DoIo os ctl fd (map_option (\<lambda>f. f fd args) (read_f orig)) READ SO_RCVTIMEO"

definition hook_readv ::
  "'k os \<Rightarrow> ('a, 'k) originals \<Rightarrow> 'e epoll_ctl \<Rightarrow> int \<Rightarrow> 'a \<Rightarrow> nat \<times> u32 \<Rightarrow> ('u, 'e, 'k) hook_env list \<Rightarrow>
   ('u, 'e, 'k) hook_state \<Rightarrow> ('u, 'e, 'k) hook_state io_turn option" where
  "hook_readv os orig ctl fd args =
     DoIo os ctl fd (map_option (\<lambda>f. f fd args) (readv_f orig)) READ SO_RCVTIMEO"

definition hook_write ::
  "'k os \<Rightarrow> ('a, 'k) originals \<Rightarrow> 'e epoll_ctl \<Rightarrow> int \<Rightarrow> 'a \<Rightarrow> nat \<times> u32 \<Rightarrow> ('u, 'e, 'k) hook_env list \<Rightarrow>
   ('u, 'e, 'k) hook_state \<Rightarrow> ('u, 'e, 'k) hook_state io_turn option" where
  "hook_write os orig ctl fd args =
     DoIo os ctl fd (map_option (\<lambda>f. f fd args) (write_f orig)) WRITE SO_SNDTIMEO"

definition hook_writev ::
  "'k os \<Rightarrow> ('a, 'k) originals \<Rightarrow> 'e epoll_ctl \<Rightarrow> int \<Rightarrow> 'a \<Rightarrow> nat \<times> u32 \<Rightarrow> ('u, 'e, 'k) hook_env list \<Rightarrow>
   ('u, 'e, 'k) hook_state \<Rightarrow> ('u, 'e, 'k) hook_state io_turn option" where
  "hook_writev os orig ctl fd args =
     DoIo os ctl fd (map_option (\<lambda>f. f fd args) (writev_f orig)) WRITE SO_SNDTIMEO"

text \<open>With \<open>MSG_DONTWAIT\<close> the real call is made whether the hooks are on or not; it is not tested for
  null there.\<close>

definition flagged_io ::
  "'k os \<Rightarrow> 'e epoll_ctl \<Rightarrow> int \<Rightarrow> (int \<Rightarrow> 'a \<Rightarrow> u32 \<Rightarrow> 'k sys_call) option \<Rightarrow> u32 \<Rightarrow> int \<Rightarrow> 'a \<Rightarrow> u32 \<Rightarrow>
   nat \<times> u32 \<Rightarrow> ('u, 'e, 'k) hook_env list \<Rightarrow> ('u, 'e, 'k) hook_state \<Rightarrow> ('u, 'e, 'k) hook_state io_turn option" where
  "flagged_io os ctl fd function event timeout_option args flags current envs s =
     (if flags AND MSG_DONTWAIT \<noteq> 0 then Some (case_prod Returned (on_kernel (the function fd args flags) s))
      else DoIo os ctl fd (map_option (\<lambda>f. f fd args flags) function) event timeout_option current envs s)"

definition hook_recv ::
  "'k os \<Rightarrow> ('a, 'k) originals \<Rightarrow> 'e epoll_ctl \<Rightarrow> int \<Rightarrow> 'a \<Rightarrow> u32 \<Rightarrow> nat \<times> u32 \<Rightarrow> ('u, 'e, 'k) hook_env list \<Rightarrow>
   ('u, 'e, 'k) hook_state \<Rightarrow> ('u, 'e, 'k) hook_state io_turn option" where
  "hook_recv os orig ctl fd = flagged_io os ctl fd (recv_f orig) READ SO_RCVTIMEO"

definition hook_recvfrom ::
  "'k os \<Rightarrow> ('a, 'k) originals \<Rightarrow> 'e epoll_ctl \<Rightarrow> int \<Rightarrow> 'a \<Rightarrow> u32 \<Rightarrow> nat \<times> u32 \<Rightarrow> ('u, 'e, 'k) hook_env list \<Rightarrow>
   ('u, 'e, 'k) hook_state \<Rightarrow> ('u, 'e, 'k) hook_state io_turn option" where
  "hook_recvfrom os orig ctl fd = flagged_io os ctl fd (recvfrom_f orig) READ SO_RCVTIMEO"

definition hook_recvmsg ::
  "'k os \<Rightarrow> ('a, 'k) originals \<Rightarrow> 'e epoll_ctl \<Rightarrow> int \<Rightarrow> 'a \<Rightarrow> u32 \<Rightarrow> nat \<times> u32 \<Rightarrow> ('u, 'e, 'k) hook_env list \<Rightarrow>
   ('u, 'e, 'k) hook_state \<Rightarrow> ('u, 'e, 'k) hook_state io_turn option" where
  "hook_recvmsg os orig ctl fd = flagged_io os ctl fd (recvmsg_f orig) READ SO_RCVTIMEO"

definition hook_send ::
  "'k os \<Rightarrow> ('a, 'k) originals \<Rightarrow> 'e epoll_ctl \<Rightarrow> int \<Rightarrow> 'a \<Rightarrow> u32 \<Rightarrow> nat \<times> u32 \<Rightarrow> ('u, 'e, 'k) hook_env list \<Rightarrow>
   ('u, 'e, 'k) hook_state \<Rightarrow> ('u, 'e, 'k) hook_state io_turn option" where
  "hook_send os orig ctl fd = flagged_io os ctl fd (send_f orig) WRITE SO_SNDTIMEO"

definition hook_sendto ::
  "'k os \<Rightarrow> ('a, 'k) originals \<Rightarrow> 'e epoll_ctl \<Rightarrow> int \<Rightarrow> 'a \<Rightarrow> u32 \<Rightarrow> nat \<times> u32 \<Rightarrow> ('u, 'e, 'k) hook_env list \<Rightarrow>
   ('u, 'e, 'k) hook_state \<Rightarrow> ('u, 'e, 'k) hook_state io_turn option" where
  "hook_sendto os orig ctl fd = flagged_io os ctl fd (sendto_f orig) WRITE SO_SNDTIMEO"

definition hook_sendmsg ::
  "'k os \<Rightarrow> ('a, 'k) originals \<Rightarrow> 'e epoll_ctl \<Rightarrow> int \<Rightarrow> 'a \<Rightarrow> u32 \<Rightarrow> nat \<times> u32 \<Rightarrow> ('u, 'e, 'k) hook_env list \<Rightarrow>
   ('u, 'e, 'k) hook_state \<Rightarrow> ('u, 'e, 'k) hook_state io_turn option" where
  "hook_sendmsg os orig ctl fd = flagged_io os ctl fd (sendmsg_f orig) WRITE SO_SNDTIMEO"

section \<open>Closing and options\<close>

text \<open>The object is marked before the waiting fibers are woken, so that they cannot call again.\<close>

definition untrack ::
  "'k os \<Rightarrow> 'e epoll_ctl \<Rightarrow> int \<Rightarrow> ('u, 'e, 'k) hook_env" where
  "untrack os ctl fd s =
     (let (context, s) = hk_get os fd False s
      in case context of
           None \<Rightarrow> s
         | Some p \<Rightarrow>
             let s = s\<lparr> hk_fds := markClosed p (hk_fds s) \<rparr>;
                 s = s\<lparr> hk_iom := map_option (snd \<circ> cancelAll ctl fd) (hk_iom s) \<rparr>
             in s\<lparr> hk_fds := FdManager_del fd (hk_fds s) \<rparr>)"

definition hook_close ::
  "'k os \<Rightarrow> ('a, 'k) originals \<Rightarrow> 'e epoll_ctl \<Rightarrow> int \<Rightarrow> ('u, 'e, 'k) hook_state \<Rightarrow> (int + int) \<times> ('u, 'e, 'k) hook_state" where
  "hook_close os orig ctl fd s = on_kernel (close_f orig fd) (untrack os ctl fd s)"

definition on_fcntl ::
  "('a, 'k) originals \<Rightarrow> int \<Rightarrow> fcntl_cmd \<Rightarrow> u32 option \<Rightarrow> ('u, 'e, 'k) hook_state \<Rightarrow> (int + u32) \<times> ('u, 'e, 'k) hook_state" where
  "on_fcntl orig fd command arg s =
     (let (r, k) = fcntl_f orig fd command arg (hk_kernel s) in (r, s\<lparr> hk_kernel := k \<rparr>))"

definition takes_int :: "fcntl_cmd \<Rightarrow> bool" where
  "takes_int command \<longleftrightarrow>
     command \<in> {F_DUPFD, F_DUPFD_CLOEXEC, F_SETFD, F_SETOWN, F_SETSIG, F_SETLEASE, F_NOTIFY, F_SETPIPE_SZ}"

text \<open>\<open>value\<close> is the third argument of the caller, which the commands without one do not read.\<close>

definition hook_fcntl ::
  "'k os \<Rightarrow> ('a, 'k) originals \<Rightarrow> int \<Rightarrow> fcntl_cmd \<Rightarrow> u32 \<Rightarrow> ('u, 'e, 'k) hook_state \<Rightarrow>
   (int + u32) \<times> ('u, 'e, 'k) hook_state" where
  "hook_fcntl os orig fd command val s =
     (let (context, s) = hk_get os fd False s
      in if command = F_SETFL
         then (case context of
                 Some p \<Rightarrow>
                   if fd_socket (hk_ctx s p) \<and> \<not> fd_closed (hk_ctx s p)
                   then let s = hk_nonblock (val AND O_NONBLOCK \<noteq> 0) context s
                        in on_fcntl orig fd command
                             (Some (if fd_sys_nonblock (hk_ctx s p) then val OR O_NONBLOCK else val)) s
                   else on_fcntl orig fd command (Some val) s
               | None \<Rightarrow> on_fcntl orig fd command (Some val) s)
         else if command = F_GETFL
         then (case on_fcntl orig fd command None s of
                 (Inr flags, s) \<Rightarrow>
                   (Inr (case context of
                           Some p \<Rightarrow> if fd_socket (hk_ctx s p) \<and> \<not> fd_user_nonblock (hk_ctx s p)
                                     then flags AND NOT O_NONBLOCK else flags
                         | None \<Rightarrow> flags), s)
               | r \<Rightarrow> r)
         else if takes_int command then on_fcntl orig fd command (Some val) s
         else on_fcntl orig fd command None s)"

text \<open>\<open>argument\<close> is the integer at the pointer, or null.\<close>

definition hook_ioctl ::
  "'k os \<Rightarrow> ('a, 'k) originals \<Rightarrow> int \<Rightarrow> u64 \<Rightarrow> int option \<Rightarrow> ('u, 'e, 'k) hook_state \<Rightarrow>
   (int + int) \<times> ('u, 'e, 'k) hook_state" where
  "hook_ioctl os orig fd request argument s =
     (let (result, s) = on_kernel (ioctl_f orig fd request argument) s
      in (result,
          if request \<noteq> FIONBIO \<or> argument = None then s
          else let (context, s) = hk_get os fd False s
               in case context of
                    None \<Rightarrow> s
                  | Some p \<Rightarrow>
                      let s = hk_nonblock (the argument \<noteq> 0) context s
                      in if fd_socket (hk_ctx s p) \<and> fd_sys_nonblock (hk_ctx s p) \<and> result = Inr 0
                         then (case on_fcntl orig fd F_GETFL None s of
                                 (Inr flags, s) \<Rightarrow> snd (on_fcntl orig fd F_SETFL (Some (flags OR O_NONBLOCK)) s)
                               | (Inl _, s) \<Rightarrow> s)
                         else s))"

definition hook_getsockopt ::
  "('a, 'k) originals \<Rightarrow> int \<Rightarrow> int \<Rightarrow> int \<Rightarrow> ('u, 'e, 'k) hook_state \<Rightarrow> (int + int) \<times> ('u, 'e, 'k) hook_state" where
  "hook_getsockopt orig fd level option = on_kernel (getsockopt_f orig fd level option)"

text \<open>16 is the size of a \<open>timeval\<close>.\<close>

definition hook_setsockopt ::
  "'k os \<Rightarrow> ('a, 'k) originals \<Rightarrow> int \<Rightarrow> int \<Rightarrow> int \<Rightarrow> 'a option \<Rightarrow> nat \<Rightarrow> ('u, 'e, 'k) hook_state \<Rightarrow>
   (int + int) \<times> ('u, 'e, 'k) hook_state" where
  "hook_setsockopt os orig fd level option val len s =
     (let (result, s) = on_kernel (setsockopt_f orig fd level option val len) s
      in (result,
          case val of
            None \<Rightarrow> s
          | Some v \<Rightarrow>
              if result = Inr 0 \<and> level = SOL_SOCKET \<and> (option = SO_RCVTIMEO \<or> option = SO_SNDTIMEO) \<and> 16 \<le> len
              then let (context, s) = hk_get os fd False s
                   in case context of
                        None \<Rightarrow> s
                      | Some p \<Rightarrow> s\<lparr> hk_fds := setTimeout option (timeval_ms (as_timeval orig v)) p (hk_fds s) \<rparr>
              else s))"

section \<open>Facts about waiting calls\<close>

lemma call_retry_result:
  assumes "call_retry f k = Some r"
  shows "fst r \<noteq> Inl E_INTR \<and> (\<exists>k'. f k' = r)"
proof (rule call_retry.raw_induct [OF _ assms, where P = "\<lambda>f k r. fst r \<noteq> Inl E_INTR \<and> (\<exists>k'. f k' = r)"])
  fix retry :: "'a sys_call \<Rightarrow> 'a \<Rightarrow> ((int + int) \<times> 'a) option" and f k r
  assume "\<And>f k r. retry f k = Some r \<Longrightarrow> fst r \<noteq> Inl E_INTR \<and> (\<exists>k'. f k' = r)"
    and "(if fst (f k) = Inl E_INTR then retry f (snd (f k)) else Some (f k)) = Some r"
  then show "fst r \<noteq> Inl E_INTR \<and> (\<exists>k'. f k' = r)" by (auto split: if_splits)
qed

text \<open>A call that is not interrupted is made once.\<close>

lemma call_retry_once: "fst (f k) \<noteq> Inl E_INTR \<Longrightarrow> call_retry f k = Some (f k)"
  by (simp add: call_retry.simps)

lemma cancel_wait_timer_keeps:
  "hk_kernel (snd (wait_over timer info s)) = hk_kernel s"
  "hk_fds (snd (wait_over timer info s)) = hk_fds s"
  "hk_infos (snd (wait_over timer info s)) = hk_infos s"
  by (simp_all add: wait_over_def Let_def)

lemma wait_event_keeps:
  fixes s :: "('u, 'e, 'k) hook_state"
  assumes "wait_event ctl current fd event timed timeout info iom s = r"
  shows "case r of
      Returned v s' \<Rightarrow> (\<exists>e (iom' :: ('u, 'e) hook_iom) iom''. addEvent ctl current fd event None iom' = (Some e, iom'') \<and> v = Inl (errno_of e)) \<and>
        hk_kernel s' = hk_kernel s \<and> hk_fds s' = hk_fds s \<and> hk_infos s' = hk_infos s
    | Held t s' \<Rightarrow> hk_kernel s' = hk_kernel s \<and> hk_fds s' = hk_fds s \<and> hk_infos s' = hk_infos s \<and> hk_iom s' \<noteq> None"
proof -
  obtain timer iom1 where t: "(if timed
      then io_timer_op (addConditionTimer (hk_now s) timeout (Some (TimedOut info fd event)) info False) iom
      else (None, iom)) = (timer, iom1)" by fastforce
  obtain e iom2 where a: "addEvent ctl current fd event None iom1 = (e, iom2)" by fastforce
  have "r = (case e of Some e \<Rightarrow> Returned (Inl (errno_of e)) (s\<lparr> hk_iom := Some (cancel_wait_timer timer iom2) \<rparr>)
      | None \<Rightarrow> Held timer (s\<lparr> hk_iom := Some iom2 \<rparr>))"
    unfolding assms [symmetric] wait_event_def t a by (simp add: a split: option.split)
  with a show ?thesis
  proof (cases e)
    case (Some x)
    with a have "\<exists>e (iom' :: ('u, 'e) hook_iom) iom''. addEvent ctl current fd event None iom' = (Some e, iom'') \<and> Inl (errno_of x) = Inl (errno_of e)"
      by blast
    with Some \<open>r = _\<close> show ?thesis by simp
  qed simp
qed

text \<open>What the rest of the program may do to a waiting call: its \<open>TimerInfo\<close> is only ever set by its
  own timeout, and the thread it is resumed on has an IO manager.\<close>

definition fair :: "nat \<Rightarrow> ('u, 'e, 'k) hook_env \<Rightarrow> bool" where
  "fair info env \<longleftrightarrow> (\<forall>s. hk_infos s ! info = Some 0 \<longrightarrow>
     hk_infos (env s) ! info \<in> {Some 0, Some E_TIMEDOUT} \<and> (hk_iom s \<noteq> None \<longrightarrow> hk_iom (env s) \<noteq> None))"

text \<open>The reasons a call may return with for the state it leaves.\<close>

definition call_outcome ::
  "'e epoll_ctl \<Rightarrow> 'k sys_call \<Rightarrow> int \<Rightarrow> u32 \<Rightarrow> nat \<Rightarrow> nat \<times> u32 \<Rightarrow> (int + int) \<Rightarrow> fd_manager \<Rightarrow> 'k \<Rightarrow> 'u itself \<Rightarrow> bool" where
  "call_outcome ctl f fd event p current r m k T \<longleftrightarrow>
     (\<exists>k'. f k' = (r, k)) \<and> r \<noteq> Inl E_INTR \<and> r \<noteq> Inl E_AGAIN \<or>
     r = Inl E_BADF \<and> fd_closed (fm_ctx m p) \<or>
     (\<exists>e (iom :: ('u, 'e) hook_iom) iom'. addEvent ctl current fd event None iom = (Some e, iom') \<and> r = Inl (errno_of e))"

lemma turn_outcome:
  fixes s :: "('u, 'e, 'k) hook_state"
  assumes t: "do_io_turn ctl f fd event timeout p info current s = Some r"
    and h: "hk_iom s \<noteq> None" "snd current \<noteq> 0"
  shows "case r of
      Returned v s' \<Rightarrow> call_outcome ctl f fd event p current v (hk_fds s') (hk_kernel s') TYPE('u)
    | Held t s' \<Rightarrow> hk_infos s' = hk_infos s \<and> hk_iom s' \<noteq> None"
proof (cases "fd_closed (hk_ctx s p)")
  case True
  with t show ?thesis by (auto simp: do_io_turn_def call_outcome_def)
next
  case open_fd: False
  with t obtain v k where c: "call_retry f (hk_kernel s) = Some (v, k)"
    by (auto simp: do_io_turn_def split: option.splits)
  obtain iom where i: "hk_iom s = Some iom" using h by auto
  show ?thesis
  proof (cases "v = Inl E_AGAIN")
    case False
    with t open_fd c have "r = Returned v (s\<lparr> hk_kernel := k \<rparr>)" by (simp add: do_io_turn_def)
    with False call_retry_result [OF c] show ?thesis by (auto simp: call_outcome_def)
  next
    case True
    with t open_fd c i h
    have "wait_event ctl current fd event (timeout \<noteq> UINT64_MAX \<and> timeout \<noteq> 0) timeout info iom (s\<lparr> hk_kernel := k \<rparr>) = r"
      by (simp add: do_io_turn_def)
    from wait_event_keeps [OF this] show ?thesis
      by (auto simp: call_outcome_def split: io_turn.splits)
  qed
qed

lemma loop_outcome:
  fixes s :: "('u, 'e, 'k) hook_state"
  assumes "do_io_loop (do_io_turn ctl f fd event timeout p info current) info envs s = Some (Returned v s')"
    and "hk_iom s \<noteq> None" and "snd current \<noteq> 0" and "hk_infos s ! info = Some 0"
    and "\<forall>env \<in> set envs. fair info env"
  shows "call_outcome ctl f fd event p current v (hk_fds s') (hk_kernel s') TYPE('u) \<or>
    v = Inl E_TIMEDOUT \<and> (\<exists>env \<in> set envs. \<exists>s. hk_infos s ! info = Some 0 \<and> hk_infos (env s) ! info = Some E_TIMEDOUT)"
  using assms
proof (induction envs arbitrary: s)
  case Nil
  then show ?case using turn_outcome [of ctl f fd event timeout p info current s] by auto
next
  case (Cons env envs)
  let ?turn = "do_io_turn ctl f fd event timeout p info current"
  show ?case
  proof (cases "?turn s")
    case (Some r)
    note t = turn_outcome [OF Some Cons.prems(2,3)]
    show ?thesis
    proof (cases r)
      case (Returned w s1)
      with Some Cons.prems(1) t show ?thesis by simp
    next
      case (Held timer s1)
      with t Cons.prems(4) have s1: "hk_infos s1 ! info = Some 0" "hk_iom s1 \<noteq> None" by auto
      then have e: "hk_infos (env s1) ! info \<in> {Some 0, Some E_TIMEDOUT}" "hk_iom (env s1) \<noteq> None"
        using Cons.prems(5) by (auto simp: fair_def)
      obtain c s2 where w: "wait_over timer info (env s1) = (c, s2)" by fastforce
      then have s2: "hk_infos s2 = hk_infos (env s1)" "hk_iom s2 \<noteq> None"
        "c = None \<and> hk_infos s2 ! info = Some 0 \<or> c = Some E_TIMEDOUT \<and> hk_infos (env s1) ! info = Some E_TIMEDOUT"
        using e by (auto simp: wait_over_def Let_def E_TIMEDOUT_def split: if_splits)
      show ?thesis
      proof (cases c)
        case None
        with Some Held Cons.prems(1) w
        have "do_io_loop ?turn info envs s2 = Some (Returned v s')" by simp
        from Cons.IH [OF this] s2 None Cons.prems(3,5) show ?thesis by auto
      next
        case (Some x)
        with \<open>?turn s = Some r\<close> Held Cons.prems(1) w s2(3) have "v = Inl E_TIMEDOUT" by simp
        with Some s1 s2(3) show ?thesis by auto
      qed
    qed
  qed (use Cons.prems(1) in simp)
qed

section \<open>A fiber that waits for an event\<close>

definition waits :: "('c, 'e) iomanager \<Rightarrow> int \<Rightarrow> u32 \<Rightarrow> nat \<Rightarrow> bool" where
  "waits iom fd event q \<longleftrightarrow>
     0 \<le> fd \<and> fd \<le> 2 ^ 20 \<and> (event = READ \<or> event = WRITE) \<and> fc_events (ctx_of iom (nat fd)) AND event \<noteq> 0 \<and>
     (if event = READ then fc_read else fc_write) (ctx_of iom (nat fd)) = new_handler q None"

lemma valid_read_write: "validEvent event \<Longrightarrow> event = READ \<or> event = WRITE"
  using valid_in by (auto simp: READ_def WRITE_def)

lemma ctx_of_tickle [simp]: "ctx_of (io_tickle s) = ctx_of s" "ctx_of (s\<lparr> io_pending := n \<rparr>) = ctx_of s"
  "ctx_of (s\<lparr> io_epoll := k \<rparr>) = ctx_of s"
  by (simp_all add: ctx_of_def fun_eq_iff)

lemma addEvent_waits:
  assumes good: "ctxs_ok (io_contexts iom)" and a: "addEvent ctl current fd event None iom = (None, iom')"
  shows "waits iom' fd event (fst current)"
proof (rule addEvent_result [OF good a])
  fix i s1 s2
  assume v: "validEvent event" and i: "fd = int i" "i \<le> 2 ^ 20" and g: "getFdContext fd True iom = (Some (Inr i), s1)"
    and u: "updateEpoll ctl (ctx_of iom i) (fc_events (ctx_of iom i) OR event) s1 = (None, s2)"
    and s': "iom' = io_tickle ((set_ctx i (with_handler event (new_handler (fst current) None) (ctx_of iom i)) s2)
        \<lparr> io_pending := io_pending s2 + 1 \<rparr>)"
  obtain cs where "s1 = iom\<lparr> io_contexts := cs \<rparr>" and "\<forall>j. (Some (Inr i) :: (errno + nat) option) = Some (Inr j) \<longrightarrow>
      fd = int j \<and> j < length cs \<and> io_contexts s1 ! j = Some (ctx_of iom j)"
    by (rule getFdContext_facts [OF good g])
  moreover obtain k where "s2 = s1\<lparr> io_epoll := k \<rparr>" by (rule updateEpoll_frame [OF u])
  ultimately have "i < length (io_contexts s2)" by simp
  from ctx_of_set_ctx [OF this] s' i
  have c: "ctx_of iom' i = with_handler event (new_handler (fst current) None) (ctx_of iom i)" by simp
  have "event = READ \<or> event = WRITE" by (rule valid_read_write [OF v])
  then show ?thesis
    using i by (auto simp: waits_def c with_handler_def READ_def WRITE_def bit.conj_disj_distrib2)
qed auto

text \<open>Cancelling the event, or all events of the fd, posts the waiting fiber.\<close>

lemma cancel_wakes:
  assumes good: "ctxs_ok (io_contexts iom)" and w: "waits iom fd event q" and ctl: "\<forall>op events. fst (ctl op (nat fd) events (io_epoll iom)) = None"
    and e: "e = event \<or> e = kAllEvents"
  shows "\<exists>iom' ts. cancelEvent ctl fd e iom = (None, iom') \<and> sc_tasks iom' = sc_tasks iom @ ts \<and>
    fiber_task q (- 1) \<in> set ts"
proof -
  let ?c = "ctx_of iom (nat fd)"
  have ok: "ctx_ok (nat fd) ?c" by (rule ctx_of_ok [OF good])
  have ev: "fc_events ?c \<in> {0, 1, 4, 5}" using ok by (auto simp: ctx_ok_def event_sets_def)
  have u: "updateEpoll ctl ?c ev iom \<noteq> (Some x, s')" for ev x s'
    using ctl ok by (auto simp: updateEpoll_def Let_def ctx_ok_def split: prod.splits) (metis fst_conv option.distinct(1))+
  have hit: "fc_events ?c AND e \<noteq> 0" "0 \<le> fd" "fd \<le> 2 ^ 20" "e \<noteq> 0" "e AND NOT 5 = 0"
    using w e ev by (auto simp: waits_def event_bits)
  obtain res s1 where r: "removeEvents ctl fd e iom = (res, s1)" by fastforce
  show ?thesis
  proof (rule removeEvents_result [OF good r])
    fix i s2 r1 w1 n c
    assume i: "fd = int i"
      and u2: "updateEpoll ctl (ctx_of iom i) (fc_events (ctx_of iom i) AND NOT e) iom = (None, s2)"
      and t: "take_events (fc_events (ctx_of iom i) AND e) (ctx_of iom i) = (r1, w1, n, c)"
      and res: "res = Inr (r1, w1)"
      and s1: "s1 = (set_ctx i (c\<lparr> fc_events := fc_events (ctx_of iom i) AND NOT e \<rparr>) s2)\<lparr> io_pending := io_pending s2 - n \<rparr>"
    obtain k where "s2 = iom\<lparr> io_epoll := k \<rparr>" by (rule updateEpoll_frame [OF u2])
    then have ts: "sc_tasks s1 = sc_tasks iom" using s1 by simp
    have "fc_events (ctx_of iom i) \<in> {0, 1, 4, 5}" using ev i by simp
    then have "(if event = READ then r1 else w1) = new_handler q None"
      using w e t i by (elim insertE) (auto simp: waits_def take_events_def Let_def event_bits split: if_splits)
    then have "fiber_task q (- 1) \<in> set (handler_tasks [r1, w1])"
      using new_handler_task [of q None] by (auto simp: handler_task_def new_handler_def ec_empty_def split: if_splits)
    moreover have "cancelEvent ctl fd e iom = (None, io_tickle (trigger w1 (trigger r1 s1)))"
      by (simp add: cancelEvent_def r res)
    ultimately show ?thesis using ts by (auto simp: trigger_both)
  qed (use hit u in auto)
qed

section \<open>The timer of a wait\<close>

lemma io_timer_op_timers:
  "io_timer_op f iom = (r, iom') \<Longrightarrow> io_timers iom' = snd (f (io_timers iom)) \<and> io_contexts iom' = io_contexts iom \<and>
    io_pending iom' = io_pending iom \<and> sc_fibers iom' = sc_fibers iom \<and> sc_loops iom' = sc_loops iom \<and>
    sc_tasks iom' = sc_tasks iom \<and> fst (f (io_timers iom)) = r"
  using with_timers_facts [of "snd (f (io_timers iom))" iom] by (auto simp: io_timer_op_def split: prod.splits)

definition wait_timer :: "u64 \<Rightarrow> u64 \<Rightarrow> nat \<Rightarrow> int \<Rightarrow> u32 \<Rightarrow> nat \<Rightarrow> (nat, 'u hook_cb) timer_fn timer_manager \<Rightarrow> bool" where
  "wait_timer now ms info fd event t m \<longleftrightarrow> t \<in> set (timer_ids m) \<and> tm_next (tm_heap m ! t) = now + ms \<and>
     tm_cb (tm_heap m ! t) = Some (Guarded info (TimedOut info fd event))"

lemma condition_timer_armed:
  assumes "timers_inv m" and "length (tm_heap m) + 1 < 2 ^ 64"
    and "addConditionTimer now ms (Some (TimedOut info fd event)) info False m = (t, m')"
  shows "t = Some (length (tm_heap m)) \<and> timers_inv m' \<and> wait_timer now ms info fd event (length (tm_heap m)) m'"
proof -
  have m': "m' = snd (addTimer now ms (Some (Guarded info (TimedOut info fd event))) False m)"
    and t: "t = Some (length (tm_heap m))"
    using assms(3) by (auto simp: addConditionTimer_def addTimer_def Let_def)
  have "timers_inv m'" and ids: "fst ` set (tm_timers m') = insert (length (tm_heap m)) (fst ` set (tm_timers m))"
    unfolding m' by (rule add_timer_inv [OF assms(1,2)], simp)+
  moreover have "tm_heap m' ! length (tm_heap m) = \<lparr> tm_managed = True, tm_ms = ms, tm_next = now + ms,
      tm_sequence = tm_next_sequence m, tm_recurring = False, tm_canceled = False,
      tm_cb = Some (Guarded info (TimedOut info fd event)) \<rparr>"
    by (simp add: m' addTimer_def Let_def)
  ultimately show ?thesis using t by (simp add: wait_timer_def timer_ids_def)
qed

text \<open>A call that gives the fiber up has registered it and, when it has a timeout, armed the timer.\<close>

lemma wait_event_held:
  assumes inv: "io_inv iom" and room: "length (tm_heap (io_timers iom)) + 1 < 2 ^ 64"
    and h: "wait_event ctl current fd event timed ms info iom s = Held timer s'"
  shows "\<exists>iom'. s' = s\<lparr> hk_iom := Some iom' \<rparr> \<and> waits iom' fd event (fst current) \<and> core_inv iom' \<and>
    timers_inv (io_timers iom') \<and>
    (timed \<longrightarrow> (\<exists>t. timer = Some t \<and> wait_timer (hk_now s) ms info fd event t (io_timers iom')))"
proof -
  obtain t iom1 where t: "(if timed
      then io_timer_op (addConditionTimer (hk_now s) ms (Some (TimedOut info fd event)) info False) iom
      else (None, iom)) = (t, iom1)" by fastforce
  obtain e iom2 where a: "addEvent ctl current fd event None iom1 = (e, iom2)" by fastforce
  have r: "Held timer s' = (case e of Some e \<Rightarrow> Returned (Inl (errno_of e)) (s\<lparr> hk_iom := Some (cancel_wait_timer t iom2) \<rparr>)
      | None \<Rightarrow> Held t (s\<lparr> hk_iom := Some iom2 \<rparr>))"
    unfolding h [symmetric] wait_event_def t a by (simp add: a split: option.split)
  then have e: "e = None" and s': "s' = s\<lparr> hk_iom := Some iom2 \<rparr>" and timer: "timer = t"
    by (auto split: option.splits)
  have tinv: "timers_inv (io_timers iom)" using inv by (simp add: io_inv_def)
  have one: "core_inv iom1 \<and> timers_inv (io_timers iom1) \<and>
      (timed \<longrightarrow> (\<exists>q. t = Some q \<and> wait_timer (hk_now s) ms info fd event q (io_timers iom1)))"
  proof (cases timed)
    case True
    with t have op: "io_timer_op (addConditionTimer (hk_now s) ms (Some (TimedOut info fd event)) info False) iom = (t, iom1)"
      by simp
    note f = io_timer_op_timers [OF op]
    obtain r m' where am: "addConditionTimer (hk_now s) ms (Some (TimedOut info fd event)) info False (io_timers iom) = (r, m')"
      by fastforce
    note armed = condition_timer_armed [OF tinv room am]
    have "core_inv iom1" using f inv by (simp add: io_inv_def core_inv_def registered_def)
    with armed f am True show ?thesis by auto
  qed (use t inv in \<open>auto simp: io_inv_def\<close>)
  then have "ctxs_ok (io_contexts iom1)" by (simp add: core_inv_def)
  note w = addEvent_waits [OF this a [unfolded e]]
  have "core_inv iom2" "frame iom1 iom2" using addEvent_keeps [of iom1 ctl current fd event None e iom2] one a by simp_all
  then have "io_timers iom2 = io_timers iom1" by (simp add: frame_def)
  with w one s' timer \<open>core_inv iom2\<close> show ?thesis by (intro exI [of _ iom2]) auto
qed

lemma post_io_epoll [simp]: "io_epoll (post io_tickle ts s) = io_epoll s"
  by (simp add: post_def)

lemma post_expired_epoll: "io_epoll (post_expired cbs s) = io_epoll s \<and> io_contexts (post_expired cbs s) = io_contexts s"
proof (induction cbs arbitrary: s)
  case (Cons cb cbs)
  have "post_expired (cb # cbs) s = post_expired cbs (schedule_cb io_tickle (the cb) (- 1) s)"
    by (simp add: post_expired_def)
  with Cons.IH show ?case by (simp add: schedule_cb_def post_io)
qed (simp add: post_expired_def)

text \<open>The scan that finds the deadline passed hands out the callback, and the callback wakes the fiber.\<close>

lemma wait_timer_fires:
  assumes "timers_inv m" and "wait_timer began ms info fd event t m" and "began + ms \<le> now"
    and "listExpiredCallbacks now [] m = Some (m', cbs)"
  shows "Some (Guarded info (TimedOut info fd event)) \<in> set cbs"
proof -
  have "\<forall>p \<in> set (due now m). \<not> overflows now (tm_heap m ! p)" by (rule expires_terminate [OF assms(1,4)])
  from expire_loop_exact [OF assms(1) this, of "[]"] assms(4)
  have "cbs = map (\<lambda>p. tm_cb (tm_heap m ! p)) (due now m)" by (auto simp: listExpiredCallbacks_def)
  moreover have "t \<in> set (due now m)" using assms(2,3) by (simp add: due_def wait_timer_def)
  ultimately show ?thesis using assms(2) by (force simp: wait_timer_def)
qed

lemma timeout_wakes:
  assumes "hk_iom s = Some iom" and "ctxs_ok (io_contexts iom)" and "waits iom fd event q"
    and "hk_infos s ! info = Some 0" and "info < length (hk_infos s)"
    and "\<forall>op events. fst (ctl op (nat fd) events (io_epoll iom)) = None"
  shows "\<exists>iom'. run_timer_cb ctl user (Guarded info (TimedOut info fd event)) s =
      s\<lparr> hk_infos := (hk_infos s)[info := Some E_TIMEDOUT], hk_iom := Some iom' \<rparr> \<and>
    fiber_task q (- 1) \<in> set (sc_tasks iom')"
  using cancel_wakes [where ctl = ctl and e = event, OF assms(2,3,6)] assms(1,4)
  by (auto simp: run_timer_cb_def run_timer_fn_def timed_out_def)

section \<open>Properties\<close>

text \<open>C9: A fiber that makes a blocking call on a tracked socket sees the socket as blocking.  The call
  never fails with \<open>EINTR\<close> or with the \<open>EAGAIN\<close> of the underlying descriptor: it returns what the real
  call gave the last time it was made, or \<open>EBADF\<close> when the socket has been closed meanwhile, or
  \<open>ETIMEDOUT\<close> when its own timeout ran while it waited, or the error with which the IO manager
  refused to register it.\<close>

theorem blocking_call_result:
  fixes s :: "('u, 'e, 'k) hook_state"
  assumes call: "DoIo os ctl fd (Some f) event opt current envs s = Some (Returned r s')"
    and fiber: "hooked_fiber current s" and fd: "fm_trackable fd" "fm_lookup (hk_fds s) fd = Some p"
    and ctx: "\<not> fd_closed (hk_ctx s p)" "fd_socket (hk_ctx s p)" "\<not> fd_user_nonblock (hk_ctx s p)"
    and env: "\<forall>env \<in> set envs. fair (length (hk_infos s)) env"
  shows "(\<exists>k. f k = (r, hk_kernel s')) \<and> r \<noteq> Inl E_INTR \<and> r \<noteq> Inl E_AGAIN \<or>
    r = Inl E_BADF \<and> fd_closed (hk_ctx s' p) \<or>
    r = Inl E_TIMEDOUT \<and> (\<exists>env \<in> set envs. \<exists>s1. hk_infos s1 ! length (hk_infos s) = Some 0 \<and>
      hk_infos (env s1) ! length (hk_infos s) = Some E_TIMEDOUT) \<or>
    (\<exists>e (iom :: ('u, 'e) hook_iom) iom'. addEvent ctl current fd event None iom = (Some e, iom') \<and> r = Inl (errno_of e))"
proof -
  let ?i = "length (hk_infos s)" and ?s = "s\<lparr> hk_infos := hk_infos s @ [Some 0] \<rparr>"
  let ?turn = "do_io_turn ctl f fd event (fd_getTimeout opt (hk_ctx s p)) p ?i current"
  have "map_option (drop_info ?i) (do_io_loop ?turn ?i envs ?s) = Some (Returned r s')"
    using call fiber fd ctx by (simp add: DoIo_def hk_get_def get_found hooked_fiber_def new_info_def)
  then obtain s1 where l: "do_io_loop ?turn ?i envs ?s = Some (Returned r s1)"
    and s1: "hk_fds s' = hk_fds s1" "hk_kernel s' = hk_kernel s1"
  proof -
    assume a: "map_option (drop_info ?i) (do_io_loop ?turn ?i envs ?s) = Some (Returned r s')"
    then obtain z where z: "do_io_loop ?turn ?i envs ?s = Some z" "drop_info ?i z = Returned r s'" by auto
    then show thesis using that by (cases z) (auto simp: drop_info_def)
  qed
  have "hk_iom ?s \<noteq> None" "snd current \<noteq> 0" "hk_infos ?s ! ?i = Some 0"
    using fiber by (simp_all add: hooked_fiber_def)
  from loop_outcome [OF l this env] show ?thesis unfolding s1 call_outcome_def by blast
qed



lemma nonblock_bit: "v AND O_NONBLOCK = (if bit v 11 then O_NONBLOCK else 0)"
proof (rule bit_eqI)
  fix n
  have "(2048 :: u32) = push_bit 11 1" by simp
  then have "bit O_NONBLOCK n \<longleftrightarrow> n = 11" unfolding O_NONBLOCK_def
    by (simp only: bit_push_bit_iff bit_1_iff) auto
  then show "bit (v AND O_NONBLOCK) n = bit (if bit v 11 then O_NONBLOCK else 0) n"
    by (auto simp: bit_and_iff)
qed

text \<open>C26: The program sees the \<open>O_NONBLOCK\<close> it set and the library keeps its own: on a tracked socket
  that the library has made non-blocking, \<open>F_GETFL\<close> after a successful \<open>F_SETFL\<close> reports the flag
  exactly when it was asked for, while the descriptor itself stays non-blocking.  The hypothesis on
  the kernel is that \<open>F_GETFL\<close> reports the flag that was set last.\<close>

theorem nonblock_flag_view:
  fixes s :: "('u, 'e, 'k) hook_state"
  assumes kernel: "\<forall>v k k'. fcntl_f orig fd F_SETFL (Some v) k = (Inr 0, k') \<longrightarrow>
      (\<exists>flags. fcntl_f orig fd F_GETFL None k' = (Inr flags, k') \<and> flags AND O_NONBLOCK = v AND O_NONBLOCK)"
    and fd: "fm_trackable fd" "fm_lookup (hk_fds s) fd = Some p" "p < length (fm_heap (hk_fds s))"
    and ctx: "\<not> fd_closed (hk_ctx s p)" "fd_socket (hk_ctx s p)" "fd_sys_nonblock (hk_ctx s p)"
    and set: "hook_fcntl os orig fd F_SETFL v s = (Inr 0, s1)"
  shows "\<exists>user_flags flags. fst (hook_fcntl os orig fd F_GETFL w s1) = Inr user_flags \<and>
    user_flags AND O_NONBLOCK = v AND O_NONBLOCK \<and>
    fst (fcntl_f orig fd F_GETFL None (hk_kernel s1)) = Inr flags \<and> flags AND O_NONBLOCK = O_NONBLOCK"
proof -
  have g: "hk_get os fd False s = (Some p, s)" if "fm_lookup (hk_fds s) fd = Some p" for s :: "('u, 'e, 'k) hook_state"
    by (simp add: hk_get_def get_found [OF that fd(1)])
  let ?m = "setUserNonblock (v AND O_NONBLOCK \<noteq> 0) p (hk_fds s)"
  have c: "fm_ctx ?m p = (hk_ctx s p)\<lparr> fd_user_nonblock := v AND O_NONBLOCK \<noteq> 0 \<rparr>"
    using fm_ctx_update [OF fd(3)] by (simp add: setUserNonblock_def)
  obtain k where k: "fcntl_f orig fd F_SETFL (Some (v OR O_NONBLOCK)) (hk_kernel s) = (Inr 0, k)"
    and s1: "s1 = s\<lparr> hk_fds := ?m, hk_kernel := k \<rparr>"
    using set g [OF fd(2)] ctx c
    by (auto simp: hook_fcntl_def Let_def hk_nonblock_def on_fcntl_def split: prod.splits)
  from kernel k obtain flags where f: "fcntl_f orig fd F_GETFL None k = (Inr flags, k)"
    and set_flag: "flags AND O_NONBLOCK = (v OR O_NONBLOCK) AND O_NONBLOCK" by blast
  have n: "flags AND O_NONBLOCK = O_NONBLOCK" using set_flag by (simp add: bit.conj_disj_distrib2)
  have one: "v AND O_NONBLOCK = 0 \<or> v AND O_NONBLOCK = O_NONBLOCK"
    by (simp add: nonblock_bit)
  have "fm_lookup (hk_fds s1) fd = Some p" using fd(2) s1 by (simp add: setUserNonblock_def)
  note g1 = g [OF this]
  have "fst (hook_fcntl os orig fd F_GETFL w s1) =
      Inr (if v AND O_NONBLOCK \<noteq> 0 then flags else flags AND NOT O_NONBLOCK)"
    using f g1 s1 c ctx by (simp add: hook_fcntl_def on_fcntl_def)
  moreover have "(flags AND NOT O_NONBLOCK) AND O_NONBLOCK = 0"
    by (rule bit_eqI) (simp add: bit_and_iff bit_not_iff)
  ultimately show ?thesis using n f s1 one by auto
qed

text \<open>A hooked sleep never ends early: its timer is armed for at least the time asked, and for less
  than a millisecond more, for every \<open>sleep\<close>, every \<open>usleep\<close> and every valid \<open>nanosleep\<close> whose
  milliseconds fit 64 bits.\<close>

theorem sleeps_long_enough:
  fixes seconds usec :: u32
  shows "uint (ucast seconds * 1000 :: u64) = uint seconds * 1000 \<and>
    uint usec \<le> uint (usleep_ms usec) * 1000 \<and> uint (usleep_ms usec) * 1000 < uint usec + 1000 \<and>
    (0 \<le> sec \<and> 0 \<le> nsec \<and> nsec < 1000000000 \<and> sec * 1000 + 1000 < 2 ^ 64 \<longrightarrow>
      sec * 1000000000 + nsec \<le> uint (nanosleep_ms (sec, nsec)) * 1000000 \<and>
      uint (nanosleep_ms (sec, nsec)) * 1000000 < sec * 1000000000 + nsec + 1000000)"
proof -
  have b: "0 \<le> uint w \<and> uint w < 2 ^ 32" for w :: u32 using uint_lt2p [of w] by simp
  have u: "uint (ucast w :: u64) = uint w" for w :: u32 by (simp add: uint_up_ucast is_up_def source_size_def target_size_def word_size)
  have s: "uint (ucast seconds * 1000 :: u64) = uint seconds * 1000"
    using b [of seconds] by (simp add: uint_word_ariths u)
  have "uint (ucast usec + 999 :: u64) = uint usec + 999" using b [of usec] by (simp add: uint_plus_eq u)
  then have m: "uint (usleep_ms usec) = (uint usec + 999) div 1000" by (simp add: usleep_ms_def uint_div)
  have m2: "(uint usec + 999) div 1000 * 1000 + (uint usec + 999) mod 1000 = uint usec + 999" by simp
  have n: "sec * 1000000000 + nsec \<le> uint (nanosleep_ms (sec, nsec)) * 1000000 \<and>
      uint (nanosleep_ms (sec, nsec)) * 1000000 < sec * 1000000000 + nsec + 1000000"
    if r: "0 \<le> sec" "0 \<le> nsec" "nsec < 1000000000" "sec * 1000 + 1000 < 2 ^ 64"
  proof -
    have a: "uint (of_int sec * 1000 :: u64) = sec * 1000"
      using r by (simp add: uint_word_ariths uint_word_of_int_eq take_bit_eq_mod)
    have "uint (of_int nsec + 999999 :: u64) = nsec + 999999"
      using r by (simp add: uint_plus_eq uint_word_of_int_eq take_bit_eq_mod)
    then have q: "uint ((of_int nsec + 999999) div 1000000 :: u64) = (nsec + 999999) div 1000000"
      by (simp add: uint_div)
    define d where "d = (nsec + 999999) div 1000000"
    have d: "0 \<le> d" "d \<le> 1000" using r(2,3) by (simp_all add: d_def)
    have "uint (nanosleep_ms (sec, nsec)) = (sec * 1000 + d) mod 2 ^ 64"
      by (simp add: nanosleep_ms_def uint_plus_eq a q d_def)
    then have v: "uint (nanosleep_ms (sec, nsec)) = sec * 1000 + d" using r d by simp
    have "d * 1000000 + (nsec + 999999) mod 1000000 = nsec + 999999" unfolding d_def by simp
    moreover have "(sec * 1000 + d) * 1000000 = sec * 1000000000 + d * 1000000" by simp
    ultimately show ?thesis unfolding v
      using pos_mod_bound [of 1000000 "nsec + 999999"] pos_mod_sign [of 1000000 "nsec + 999999"] by linarith
  qed
  show ?thesis
    using s n m2 pos_mod_bound [of 1000 "uint usec + 999"] pos_mod_sign [of 1000 "uint usec + 999"] unfolding m by auto
qed

theorem sleeps_long_enough_witness: "2000000001 \<le> uint (nanosleep_ms (2, 1)) * 1000000"
  using sleeps_long_enough [of 0 0 2 1] by simp

section \<open>Witnesses\<close>

text \<open>A thread of an IO manager with one tracked socket, 2, whose first \<open>read\<close> finds nothing.\<close>

definition demo_hiom :: "(unit, unit) hook_iom" where "demo_hiom = the (IOManager_init 1 True 7 ())"

definition demo_hctl :: "unit epoll_ctl" where "demo_hctl = (\<lambda>_ _ _ k. (None, k))"

definition demo_hook :: "(unit, unit, u32) hook_state" where
  "demo_hook = \<lparr> hk_enabled = True, hk_iom = Some demo_hiom, hk_fds = fst demo_table, hk_infos = [Some 0],
     hk_kernel = snd demo_table, hk_now = 100 \<rparr>"

definition demo_read :: "u32 sys_call" where
  "demo_read k = (if k < 5000 then Inl E_AGAIN else Inr 9, k + 4096)"

definition demo_ready :: "(unit, unit, u32) hook_env" where
  "demo_ready s = s\<lparr> hk_iom := map_option (snd \<circ> processEvent demo_hctl (Some 2) EPOLLIN) (hk_iom s) \<rparr>"

definition turn_value :: "'s io_turn \<Rightarrow> (int + int) option" where
  "turn_value r = (case r of Returned v _ \<Rightarrow> Some v | Held _ _ \<Rightarrow> None)"

lemma demo_hiom_inv: "io_inv demo_hiom"
proof -
  have "IOManager_init 1 True 7 () = Some demo_hiom" by (simp add: demo_hiom_def IOManager_init_def Scheduler_init_def Let_def)
  then show ?thesis by (rule IOManager_init_inv)
qed

lemma demo_reads: "map_option turn_value (DoIo demo_os demo_hctl 2 (Some demo_read) READ SO_RCVTIMEO (0, 4096) [demo_ready] demo_hook) =
  Some (Some (Inr 9))"
  by code_simp

theorem blocking_call_result_witness: "\<exists>k. demo_read k = (Inr 9, k + 4096)"
proof -
  obtain s' where c: "DoIo demo_os demo_hctl 2 (Some demo_read) READ SO_RCVTIMEO (0, 4096) [demo_ready] demo_hook =
      Some (Returned (Inr 9) s')"
  proof -
    obtain z where z: "DoIo demo_os demo_hctl 2 (Some demo_read) READ SO_RCVTIMEO (0, 4096) [demo_ready] demo_hook = Some z"
      "turn_value z = Some (Inr 9)" using demo_reads by auto
    then show thesis using that by (cases z) (auto simp: turn_value_def)
  qed
  have "hooked_fiber (0, 4096) demo_hook" by (simp add: hooked_fiber_def demo_hook_def)
  moreover have "fm_trackable 2" "fm_lookup (hk_fds demo_hook) 2 = Some 0" "\<not> fd_closed (hk_ctx demo_hook 0)"
    "fd_socket (hk_ctx demo_hook 0)" "\<not> fd_user_nonblock (hk_ctx demo_hook 0)"
    by code_simp+
  moreover have "\<forall>env \<in> set [demo_ready]. fair (length (hk_infos demo_hook)) env"
    by (simp add: fair_def demo_ready_def)
  ultimately have "\<exists>k. demo_read k = (Inr 9, hk_kernel s')"
    using blocking_call_result [OF c] by auto
  then show ?thesis by (auto simp: demo_read_def)
qed

text \<open>The same thread once the reading fiber has been given up.\<close>

definition demo_held :: "(unit, unit, u32) hook_state" where
  "demo_held = (case wait_event demo_hctl (0, 4096) 2 READ True 1500 0 demo_hiom demo_hook of
     Held _ s \<Rightarrow> s | Returned _ s \<Rightarrow> s)"

lemma demo_wait: "wait_event demo_hctl (0, 4096) 2 READ True 1500 0 demo_hiom demo_hook = Held (Some 0) demo_held"
proof -
  have "(case wait_event demo_hctl (0, 4096) 2 READ True 1500 0 demo_hiom demo_hook of Held t _ \<Rightarrow> t = Some 0 | Returned _ _ \<Rightarrow> False)"
    by code_simp
  then show ?thesis by (auto simp: demo_held_def split: io_turn.splits)
qed

lemma demo_lookup: "fm_lookup (fst demo_table) 2 = Some 0"
  by code_simp

lemma demo_hiom_room: "length (tm_heap (io_timers demo_hiom)) + 1 < 2 ^ 64"
  by (simp add: demo_hiom_def IOManager_init_def Scheduler_init_def Let_def scheduler.extend_def TimerManager_def)



text \<open>A kernel with one flag word.\<close>

definition demo_orig :: "(unit, u32) originals" where
  "demo_orig = undefined\<lparr> fcntl_f := \<lambda>_ command arg k.
     (case arg of None \<Rightarrow> (Inr k, k) | Some v \<Rightarrow> (Inr 0, v)) \<rparr>"

theorem nonblock_flag_view_witness:
  "\<exists>flags. fst (hook_fcntl demo_os demo_orig 2 F_GETFL 0 (snd (hook_fcntl demo_os demo_orig 2 F_SETFL 1024 demo_hook))) =
     Inr flags \<and> flags AND O_NONBLOCK = 0"
proof -
  have k: "\<forall>v k k'. fcntl_f demo_orig 2 F_SETFL (Some v) k = (Inr 0, k') \<longrightarrow>
      (\<exists>flags. fcntl_f demo_orig 2 F_GETFL None k' = (Inr flags, k') \<and> flags AND O_NONBLOCK = v AND O_NONBLOCK)"
    by (simp add: demo_orig_def)
  have t: "fm_trackable 2" "fm_lookup (hk_fds demo_hook) 2 = Some 0" "0 < length (fm_heap (hk_fds demo_hook))"
    "\<not> fd_closed (hk_ctx demo_hook 0)" "fd_socket (hk_ctx demo_hook 0)" "fd_sys_nonblock (hk_ctx demo_hook 0)"
    by code_simp+
  obtain r s1 where f: "hook_fcntl demo_os demo_orig 2 F_SETFL 1024 demo_hook = (r, s1)" by fastforce
  moreover have "r = Inr 0"
    using f t get_found [OF t(2,1)]
    by (auto simp: hook_fcntl_def on_fcntl_def demo_orig_def hk_get_def Let_def split: prod.splits option.splits if_splits)
  ultimately have "hook_fcntl demo_os demo_orig 2 F_SETFL 1024 demo_hook = (Inr 0, s1)" by simp
  from nonblock_flag_view [OF k t this, of 0] f show ?thesis by (auto simp: O_NONBLOCK_def)
qed
end
