(* ===== verification/Address.thy ===== *)
theory Address
  imports Std_Map
begin

text \<open>
  Socket addresses (include/droplet/socket/address.h, src/socket/address.cc).  A \<open>sockaddr\<close> is the list
  of its bytes in memory, as the code copies and compares it: the family in the first two bytes, in the
  order of the host, which is little-endian; an integer in network order is a list of bytes, so \<open>htonl\<close>
  and \<open>ntohl\<close> relate a word and its four bytes.  The path of a Unix socket is the list of its bytes.

  \<open>inet_pton\<close>, \<open>inet_ntop\<close>, \<open>getaddrinfo\<close> and \<open>getifaddrs\<close> are parameters.
\<close>

type_synonym bytes = "u8 list"

section \<open>Memory\<close>

definition AF_UNSPEC :: int where "AF_UNSPEC = 0"
definition AF_UNIX :: int where "AF_UNIX = 1"
definition AF_INET :: int where "AF_INET = 2"
definition AF_INET6 :: int where "AF_INET6 = 10"

definition sa_family :: "bytes \<Rightarrow> int" where
  "sa_family b = uint (b ! 0) + 256 * uint (b ! 1)"

definition family_bytes :: "int \<Rightarrow> bytes" where
  "family_bytes family = [of_int family, of_int (family div 256)]"

definition zeros :: "nat \<Rightarrow> bytes" where
  "zeros n = replicate n 0"

text \<open>\<open>memcpy\<close> of \<open>n\<close> bytes into a zeroed object of \<open>sz\<close> bytes.\<close>

definition copied :: "nat \<Rightarrow> nat \<Rightarrow> bytes \<Rightarrow> bytes" where
  "copied sz n b = take n b @ zeros (sz - n)"

definition htons :: "u16 \<Rightarrow> bytes" where
  "htons w = [ucast (drop_bit 8 w), ucast w]"

definition htonl :: "u32 \<Rightarrow> bytes" where
  "htonl w = [ucast (drop_bit 24 w), ucast (drop_bit 16 w), ucast (drop_bit 8 w), ucast w]"

text \<open>The number whose bytes, the most significant first, are given.\<close>

fun be_value :: "bytes \<Rightarrow> nat" where
  "be_value [] = 0"
| "be_value (b # bs) = unat b * 256 ^ length bs + be_value bs"

definition ntohs :: "bytes \<Rightarrow> u16" where
  "ntohs b = of_nat (be_value b)"

definition ntohl :: "bytes \<Rightarrow> u32" where
  "ntohl b = of_nat (be_value b)"

text \<open>The order of \<open>memcmp\<close>, for two ranges of one length; a range that is a prefix of the other comes
  first, as \<open>std::string\<close> compares.\<close>

fun memcmp_less :: "bytes \<Rightarrow> bytes \<Rightarrow> bool" where
  "memcmp_less _ [] = False"
| "memcmp_less [] (b # bs) = True"
| "memcmp_less (a # as) (b # bs) = (if a < b then True else if b < a then False else memcmp_less as bs)"

section \<open>Addresses\<close>

text \<open>The concrete classes: the \<open>sockaddr\<close> each keeps, for a Unix socket its length and path, for an
  unknown family the family and the length.\<close>

datatype address =
    IPv4Address bytes
  | IPv6Address bytes
  | UnixAddress bytes nat bytes
  | UnknownAddress int bytes nat

definition SOCKADDR_IN :: nat where "SOCKADDR_IN = 16"
definition SOCKADDR_IN6 :: nat where "SOCKADDR_IN6 = 28"
definition SOCKADDR_UN :: nat where "SOCKADDR_UN = 110"
definition SUN_PATH :: nat where "SUN_PATH = 108"
definition SUN_OFFSET :: nat where "SUN_OFFSET = 2"
definition SOCKADDR_STORAGE :: nat where "SOCKADDR_STORAGE = 128"

definition sin_port :: "bytes \<Rightarrow> bytes" where "sin_port b = take 2 (drop 2 b)"
definition sin_addr :: "bytes \<Rightarrow> bytes" where "sin_addr b = take 4 (drop 4 b)"
definition sin6_addr :: "bytes \<Rightarrow> bytes" where "sin6_addr b = take 16 (drop 8 b)"

definition set_port :: "u16 \<Rightarrow> bytes \<Rightarrow> bytes" where
  "set_port port b = take 2 b @ htons port @ drop 4 b"

definition set_sin6_addr :: "bytes \<Rightarrow> bytes \<Rightarrow> bytes" where
  "set_sin6_addr v b = take 8 b @ v @ drop 24 b"

definition sockaddr_in :: "bytes \<Rightarrow> bytes \<Rightarrow> bytes" where
  "sockaddr_in port addr = family_bytes AF_INET @ port @ addr @ zeros 8"

definition sockaddr_in6 :: "bytes \<Rightarrow> bytes \<Rightarrow> bytes" where
  "sockaddr_in6 port addr = family_bytes AF_INET6 @ port @ zeros 4 @ addr @ zeros 4"

definition IPv4Address_host :: "u32 \<Rightarrow> u16 \<Rightarrow> address" where
  "IPv4Address_host addr port = IPv4Address (sockaddr_in (htons port) (htonl addr))"

definition IPv6Address_default :: address where
  "IPv6Address_default = IPv6Address (sockaddr_in6 (zeros 2) (zeros 16))"

definition IPv6Address_bytes :: "bytes \<Rightarrow> u16 \<Rightarrow> address" where
  "IPv6Address_bytes addr port = IPv6Address (sockaddr_in6 (htons port) addr)"

definition UnixAddress_default :: address where
  "UnixAddress_default = UnixAddress (family_bytes AF_UNIX @ zeros SUN_PATH) SOCKADDR_UN []"

text \<open>The constructor from a path throws when the path does not fit; a path that begins with a zero
  byte is in the abstract namespace and has no terminator.\<close>

definition UnixAddress_path :: "bytes \<Rightarrow> std_exception + address" where
  "UnixAddress_path path =
     (let is_abstract = (path \<noteq> [] \<and> hd path = 0)
      in if \<not> is_abstract \<and> length path \<ge> SUN_PATH \<or> is_abstract \<and> length path > SUN_PATH
         then Inl (Length_error ''Unix socket path is too long'')
         else Inr (UnixAddress (family_bytes AF_UNIX @ copied SUN_PATH (length path) path)
                     (if is_abstract then SUN_OFFSET + length path else SUN_OFFSET + length path + 1) path))"

definition UnixAddress_raw :: "bytes \<Rightarrow> nat \<Rightarrow> address" where
  "UnixAddress_raw b len =
     (let len = min len SOCKADDR_UN;
          available = (if len > SUN_OFFSET then len - SUN_OFFSET else 0);
          used = min available SUN_PATH;
          sun_path = drop SUN_OFFSET b;
          used = (if used > 0 \<and> sun_path ! 0 \<noteq> 0 \<and> sun_path ! (used - 1) = 0 then used - 1 else used)
      in UnixAddress b len (take used sun_path))"

definition UnknownAddress_raw :: "bytes \<Rightarrow> nat \<Rightarrow> address" where
  "UnknownAddress_raw b len =
     (let n = min len SOCKADDR_STORAGE in UnknownAddress (sa_family b) (copied SOCKADDR_STORAGE n b) n)"

definition UnknownAddress_family :: "int \<Rightarrow> address" where
  "UnknownAddress_family family =
     UnknownAddress family (family_bytes family @ zeros (SOCKADDR_STORAGE - 2)) SOCKADDR_IN"

fun getFamily :: "address \<Rightarrow> int" where
  "getFamily (IPv4Address _) = AF_INET"
| "getFamily (IPv6Address _) = AF_INET6"
| "getFamily (UnixAddress _ _ _) = AF_UNIX"
| "getFamily (UnknownAddress family _ _) = family"

fun getAddr :: "address \<Rightarrow> bytes" where
  "getAddr (IPv4Address b) = b"
| "getAddr (IPv6Address b) = b"
| "getAddr (UnixAddress b _ _) = b"
| "getAddr (UnknownAddress _ b _) = b"

fun getAddrLen :: "address \<Rightarrow> nat" where
  "getAddrLen (IPv4Address _) = SOCKADDR_IN"
| "getAddrLen (IPv6Address _) = SOCKADDR_IN6"
| "getAddrLen (UnixAddress _ len _) = len"
| "getAddrLen (UnknownAddress _ _ len) = len"

text \<open>\<open>Address::Create\<close>: \<open>b\<close> are the bytes at the pointer, at least \<open>len\<close> of them, or null.\<close>

definition Address_Create :: "bytes option \<Rightarrow> nat \<Rightarrow> address option" where
  "Address_Create address len =
     (case address of
        None \<Rightarrow> None
      | Some b \<Rightarrow>
          if len < 2 then None
          else if sa_family b = AF_INET \<and> len \<ge> SOCKADDR_IN then Some (IPv4Address (take SOCKADDR_IN b))
          else if sa_family b = AF_INET6 \<and> len \<ge> SOCKADDR_IN6 then Some (IPv6Address (take SOCKADDR_IN6 b))
          else if sa_family b = AF_UNIX
          then Some (UnixAddress_raw (copied SOCKADDR_UN (min len SOCKADDR_UN) b) len)
          else Some (UnknownAddress_raw b len))"

text \<open>A Unix address filled in place is given its length afterwards; the path stays.\<close>

fun setAddrLen :: "nat \<Rightarrow> address \<Rightarrow> address" where
  "setAddrLen len (UnixAddress b _ path) = UnixAddress b len path"
| "setAddrLen len a = a"

section \<open>Comparison\<close>

definition address_less :: "address \<Rightarrow> address \<Rightarrow> bool" where
  "address_less lhs rhs =
     (if getFamily lhs \<noteq> getFamily rhs then getFamily lhs < getFamily rhs
      else if getAddrLen lhs \<noteq> getAddrLen rhs then getAddrLen lhs < getAddrLen rhs
      else memcmp_less (take (getAddrLen lhs) (getAddr lhs)) (take (getAddrLen lhs) (getAddr rhs)))"

definition address_equal :: "address \<Rightarrow> address \<Rightarrow> bool" where
  "address_equal lhs rhs \<longleftrightarrow>
     getFamily lhs = getFamily rhs \<and> getAddrLen lhs = getAddrLen rhs \<and>
     take (getAddrLen lhs) (getAddr lhs) = take (getAddrLen lhs) (getAddr rhs)"

section \<open>Ports, networks and masks\<close>

definition getPort :: "address \<Rightarrow> u32" where
  "getPort a = ucast (ntohs (sin_port (getAddr a)))"

fun setPort :: "u16 \<Rightarrow> address \<Rightarrow> address" where
  "setPort port (IPv4Address b) = IPv4Address (set_port port b)"
| "setPort port (IPv6Address b) = IPv6Address (set_port port b)"
| "setPort port a = a"

definition v4_mask :: "u32 \<Rightarrow> u32" where
  "v4_mask prefix_length = (if prefix_length = 0 then 0 else push_bit (unat (32 - prefix_length)) 0xffffffff)"

definition v4_broadcast :: "u32 \<Rightarrow> bytes \<Rightarrow> address option" where
  "v4_broadcast prefix_length b =
     (if prefix_length > 32 then None
      else let host = ntohl (sin_addr b)
           in Some (IPv4Address_host (host OR NOT (v4_mask prefix_length)) (ntohs (sin_port b))))"

definition v4_network :: "u32 \<Rightarrow> bytes \<Rightarrow> address option" where
  "v4_network prefix_length b =
     (if prefix_length > 32 then None
      else let host = ntohl (sin_addr b)
           in Some (IPv4Address_host (host AND v4_mask prefix_length) (ntohs (sin_port b))))"

definition v4_subnetMask :: "u32 \<Rightarrow> address option" where
  "v4_subnetMask prefix_length =
     (if prefix_length > 32 then None
      else Some (IPv4Address (sockaddr_in (zeros 2) (htonl (v4_mask prefix_length)))))"

text \<open>The bytes of an IPv6 address are treated one by one; \<open>bit\<close> is the first bit of byte \<open>i\<close>.  The
  shifts are those of 32-bit integers, then truncated.\<close>

definition v6_broadcast_byte :: "u32 \<Rightarrow> nat \<times> u8 \<Rightarrow> u8" where
  "v6_broadcast_byte prefix_length = (\<lambda>(i, value).
     let bit = of_nat (i * 8)
     in if bit + 8 \<le> prefix_length then value
        else if bit \<ge> prefix_length then 0xff
        else value OR ucast (drop_bit (unat (prefix_length - bit)) (0xff :: u32)))"

definition v6_network_byte :: "u32 \<Rightarrow> nat \<times> u8 \<Rightarrow> u8" where
  "v6_network_byte prefix_length = (\<lambda>(i, value).
     let bit = of_nat (i * 8)
     in if bit + 8 \<le> prefix_length then value
        else if bit \<ge> prefix_length then 0
        else value AND ucast (push_bit (unat (8 - (prefix_length - bit))) (0xff :: u32)))"

definition v6_mask_byte :: "u32 \<Rightarrow> nat \<Rightarrow> u8" where
  "v6_mask_byte prefix_length i =
     (let bit = of_nat (i * 8)
      in if bit + 8 \<le> prefix_length then 0xff
         else if bit < prefix_length then ucast (push_bit (unat (8 - (prefix_length - bit))) (0xff :: u32))
         else 0)"

definition v6_broadcast :: "u32 \<Rightarrow> bytes \<Rightarrow> address option" where
  "v6_broadcast prefix_length b =
     (if prefix_length > 128 then None
      else Some (IPv6Address (set_sin6_addr (map (v6_broadcast_byte prefix_length) (enumerate 0 (sin6_addr b))) b)))"

definition v6_network :: "u32 \<Rightarrow> bytes \<Rightarrow> address option" where
  "v6_network prefix_length b =
     (if prefix_length > 128 then None
      else Some (IPv6Address (set_sin6_addr (map (v6_network_byte prefix_length) (enumerate 0 (sin6_addr b))) b)))"

definition v6_subnetMask :: "u32 \<Rightarrow> address option" where
  "v6_subnetMask prefix_length =
     (if prefix_length > 128 then None
      else Some (IPv6Address_bytes (map (v6_mask_byte prefix_length) [0..<16]) 0))"

text \<open>The virtual functions of \<open>IPAddress\<close>; the other classes do not have them.\<close>

fun networkAddress :: "u32 \<Rightarrow> address \<Rightarrow> address option" where
  "networkAddress p (IPv4Address b) = v4_network p b"
| "networkAddress p (IPv6Address b) = v6_network p b"
| "networkAddress p _ = None"

fun broadcastAddress :: "u32 \<Rightarrow> address \<Rightarrow> address option" where
  "broadcastAddress p (IPv4Address b) = v4_broadcast p b"
| "broadcastAddress p (IPv6Address b) = v6_broadcast p b"
| "broadcastAddress p _ = None"

fun subnetMask :: "u32 \<Rightarrow> address \<Rightarrow> address option" where
  "subnetMask p (IPv4Address b) = v4_subnetMask p"
| "subnetMask p (IPv6Address b) = v6_subnetMask p"
| "subnetMask p _ = None"

text \<open>The bits of one byte from the top: \<open>Inl\<close> is the early return.\<close>

fun count_bits :: "u8 \<Rightarrow> nat list \<Rightarrow> u32 \<times> bool \<Rightarrow> u32 + u32 \<times> bool" where
  "count_bits byte [] s = Inr s"
| "count_bits byte (b # bs) (result, zero_seen) =
     (if byte AND push_bit b 1 \<noteq> 0
      then if zero_seen then Inl result else count_bits byte bs (result + 1, zero_seen)
      else count_bits byte bs (result, True))"

definition bit_positions :: "nat list" where
  "bit_positions = [7, 6, 5, 4, 3, 2, 1, 0]"

fun count_bytes :: "bytes \<Rightarrow> u32 \<times> bool \<Rightarrow> u32" where
  "count_bytes [] s = fst s"
| "count_bytes (byte # data) s =
     (case count_bits byte bit_positions s of Inl result \<Rightarrow> result | Inr s \<Rightarrow> count_bytes data s)"

definition CountMaskBits :: "bytes \<Rightarrow> u32" where
  "CountMaskBits data = count_bytes data (0, False)"

section \<open>Text\<close>

definition bytes_string :: "bytes \<Rightarrow> string" where
  "bytes_string b = map (\<lambda>w. char_of (unat w)) b"

definition v4_insert :: "(int \<Rightarrow> bytes \<Rightarrow> string option) \<Rightarrow> bytes \<Rightarrow> string" where
  "v4_insert inet_ntop b =
     (case inet_ntop AF_INET (sin_addr b) of
        None \<Rightarrow> ''<invalid-ipv4>''
      | Some buffer \<Rightarrow> buffer @ '':'' @ show_nat (unat (ntohs (sin_port b))))"

definition v6_insert :: "(int \<Rightarrow> bytes \<Rightarrow> string option) \<Rightarrow> bytes \<Rightarrow> string" where
  "v6_insert inet_ntop b =
     (case inet_ntop AF_INET6 (sin6_addr b) of
        None \<Rightarrow> ''<invalid-ipv6>''
      | Some buffer \<Rightarrow> ''['' @ buffer @ '']:'' @ show_nat (unat (ntohs (sin_port b))))"

definition unix_insert :: "bytes \<Rightarrow> string" where
  "unix_insert path =
     (if path \<noteq> [] \<and> hd path = 0 then [CHR 0x5C, CHR ''0''] @ bytes_string (tl path) else bytes_string path)"

definition unknown_insert :: "int \<Rightarrow> string" where
  "unknown_insert family = ''[UnknownAddress family='' @ show_int family @ '']''"

fun address_insert :: "(int \<Rightarrow> bytes \<Rightarrow> string option) \<Rightarrow> address \<Rightarrow> string" where
  "address_insert inet_ntop (IPv4Address b) = v4_insert inet_ntop b"
| "address_insert inet_ntop (IPv6Address b) = v6_insert inet_ntop b"
| "address_insert inet_ntop (UnixAddress _ _ path) = unix_insert path"
| "address_insert inet_ntop (UnknownAddress family _ _) = unknown_insert family"

definition IPv4Address_Create :: "(int \<Rightarrow> string \<Rightarrow> bytes option) \<Rightarrow> string \<Rightarrow> u16 \<Rightarrow> address option" where
  "IPv4Address_Create inet_pton address port =
     (case inet_pton AF_INET address of
        None \<Rightarrow> None
      | Some addr \<Rightarrow> Some (IPv4Address (sockaddr_in (htons port) addr)))"

definition IPv6Address_Create :: "(int \<Rightarrow> string \<Rightarrow> bytes option) \<Rightarrow> string \<Rightarrow> u16 \<Rightarrow> address option" where
  "IPv6Address_Create inet_pton address port =
     (case inet_pton AF_INET6 address of
        None \<Rightarrow> None
      | Some addr \<Rightarrow> Some (IPv6Address (sockaddr_in6 (htons port) addr)))"

definition IPAddress_Create :: "(int \<Rightarrow> string \<Rightarrow> bytes option) \<Rightarrow> string option \<Rightarrow> u16 \<Rightarrow> address option" where
  "IPAddress_Create inet_pton address port =
     (case address of
        None \<Rightarrow> None
      | Some a \<Rightarrow>
          (case IPv4Address_Create inet_pton a port of
             Some ipv4 \<Rightarrow> Some ipv4
           | None \<Rightarrow> IPv6Address_Create inet_pton a port))"

section \<open>Lookup\<close>

definition split_colon :: "string \<Rightarrow> string \<times> string" where
  "split_colon host =
     (case find_char (CHR '':'') host of
        Some first \<Rightarrow>
          if rfind_char (CHR '':'') host = Some first then (take first host, drop (first + 1) host) else (host, [])
      | None \<Rightarrow> (host, []))"

definition SplitHostService :: "string \<Rightarrow> string \<times> string" where
  "SplitHostService host =
     (if host \<noteq> [] \<and> hd host = CHR ''[''
      then (case find_char (CHR '']'') host of
              Some close \<Rightarrow>
                (substr host 1 (close - 1),
                 if close + 1 < length host \<and> host ! (close + 1) = CHR '':'' then drop (close + 2) host else [])
            | None \<Rightarrow> split_colon host)
      else split_colon host)"

text \<open>The resolver gives a list of a \<open>sockaddr\<close>, or null, and its length.  A C string ends at the first
  zero byte.\<close>

type_synonym resolver =
  "string option \<Rightarrow> string option \<Rightarrow> int \<Rightarrow> int \<Rightarrow> int \<Rightarrow> (bytes option \<times> nat) list option"

definition c_str :: "string \<Rightarrow> string" where
  "c_str s = takeWhile (\<lambda>c. c \<noteq> CHR 0x00) s"

definition or_null :: "string \<Rightarrow> string option" where
  "or_null s = (if s = [] then None else Some (c_str s))"

definition Lookup :: "resolver \<Rightarrow> string \<Rightarrow> int \<Rightarrow> int \<Rightarrow> int \<Rightarrow> address list \<Rightarrow> bool \<times> address list" where
  "Lookup getaddrinfo host family type protocol result =
     (let (node, service) = SplitHostService host
      in case getaddrinfo (or_null node) (or_null service) family type protocol of
           None \<Rightarrow> (False, result)
         | Some results \<Rightarrow>
             let result = result @ List.map_filter (\<lambda>(addr, len). if addr \<noteq> None \<and> len > 0 then Address_Create addr len else None) results
             in (result \<noteq> [], result))"

definition LookupAny :: "resolver \<Rightarrow> string \<Rightarrow> int \<Rightarrow> int \<Rightarrow> int \<Rightarrow> address option" where
  "LookupAny getaddrinfo host family type protocol =
     (case Lookup getaddrinfo host family type protocol [] of
        (True, result) \<Rightarrow> Some (hd result)
      | (False, _) \<Rightarrow> None)"

fun is_ip :: "address \<Rightarrow> bool" where
  "is_ip (IPv4Address _) = True"
| "is_ip (IPv6Address _) = True"
| "is_ip _ = False"

definition LookupAnyIPAddress :: "resolver \<Rightarrow> string \<Rightarrow> int \<Rightarrow> int \<Rightarrow> int \<Rightarrow> address option" where
  "LookupAnyIPAddress getaddrinfo host family type protocol =
     (case Lookup getaddrinfo host family type protocol [] of
        (True, result) \<Rightarrow> find is_ip result
      | (False, _) \<Rightarrow> None)"

text \<open>An interface: its name, address and mask, each possibly null.  The multimap is its list in order.\<close>

type_synonym interfaces = "(string option \<times> bytes option \<times> bytes option) list option"

definition string_less :: "string \<Rightarrow> string \<Rightarrow> bool" where
  "string_less a b = memcmp_less (map of_char a) (map of_char b)"

definition multimap_emplace :: "string \<Rightarrow> 'v \<Rightarrow> (string \<times> 'v) list \<Rightarrow> (string \<times> 'v) list" where
  "multimap_emplace key val m =
     takeWhile (\<lambda>e. \<not> string_less key (fst e)) m @ (key, val) # dropWhile (\<lambda>e. \<not> string_less key (fst e)) m"

definition equal_range :: "string \<Rightarrow> (string \<times> 'v) list \<Rightarrow> (string \<times> 'v) list" where
  "equal_range key m = takeWhile (\<lambda>e. \<not> string_less key (fst e)) (dropWhile (\<lambda>e. string_less (fst e) key) m)"

definition add_interface ::
  "int \<Rightarrow> string option \<times> bytes option \<times> bytes option \<Rightarrow> (string \<times> address \<times> u32) list \<Rightarrow> (string \<times> address \<times> u32) list" where
  "add_interface family it result =
     (case it of
        (name, Some addr, Some netmask) \<Rightarrow>
          if family \<noteq> AF_UNSPEC \<and> family \<noteq> sa_family addr then result
          else if sa_family addr \<noteq> AF_INET \<and> sa_family addr \<noteq> AF_INET6 then result
          else let (len, prefix) = (if sa_family addr = AF_INET then (SOCKADDR_IN, CountMaskBits (sin_addr netmask))
                                    else (SOCKADDR_IN6, CountMaskBits (sin6_addr netmask)))
               in (case Address_Create (Some addr) len of
                     None \<Rightarrow> result
                   | Some address \<Rightarrow>
                       multimap_emplace (case name of Some n \<Rightarrow> n | None \<Rightarrow> []) (address, prefix) result)
      | _ \<Rightarrow> result)"

definition GetInterfaceAddresses ::
  "interfaces \<Rightarrow> int \<Rightarrow> (string \<times> address \<times> u32) list \<Rightarrow> bool \<times> (string \<times> address \<times> u32) list" where
  "GetInterfaceAddresses getifaddrs family result =
     (case getifaddrs of
        None \<Rightarrow> (False, result)
      | Some its \<Rightarrow> (True, fold (add_interface family) its result))"

definition GetInterfaceAddresses_named ::
  "interfaces \<Rightarrow> string \<Rightarrow> int \<Rightarrow> (address \<times> u32) list \<Rightarrow> bool \<times> (address \<times> u32) list" where
  "GetInterfaceAddresses_named getifaddrs iface family result =
     (case GetInterfaceAddresses getifaddrs family [] of
        (False, _) \<Rightarrow> (False, result)
      | (True, all) \<Rightarrow>
          let result = result @ map snd (equal_range iface all) in (result \<noteq> [], result))"

section \<open>Byte order\<close>

lemma be_value_append: "be_value (xs @ ys) = be_value xs * 256 ^ length ys + be_value ys"
  by (induction xs) (simp_all add: power_add algebra_simps)

lemma byte_less [simp]: "unat (b :: u8) < 256"
proof -
  have "unat b < 2 ^ LENGTH(8)" by (rule unsigned_less)
  then show ?thesis by simp
qed

lemma be_value_less: "be_value bs < 256 ^ length bs"
proof (induction bs)
  case (Cons b bs)
  have "unat b \<le> 255" using byte_less [of b] by linarith
  then have "unat b * 256 ^ length bs \<le> 255 * 256 ^ length bs" by (rule mult_right_mono) simp
  with Cons have "unat b * 256 ^ length bs + be_value bs < 256 * 256 ^ length bs" by linarith
  then show ?case by simp
qed simp

lemma be_value_inject: "be_value xs = be_value ys \<Longrightarrow> length xs = length ys \<Longrightarrow> xs = ys"
proof (induction xs arbitrary: ys)
  case (Cons x xs)
  then obtain y zs where ys: "ys = y # zs" and l: "length xs = length zs" by (cases ys) auto
  let ?m = "256 ^ length zs :: nat"
  have b: "be_value xs < ?m" "be_value zs < ?m" using be_value_less [of xs] be_value_less [of zs] l by simp_all
  have e: "unat x * ?m + be_value xs = unat y * ?m + be_value zs" using Cons.prems ys l by simp
  have "(unat x * ?m + be_value xs) div ?m = unat x" "(unat y * ?m + be_value zs) div ?m = unat y" using b by simp_all
  with e have "unat x = unat y" by simp
  with e Cons.IH l ys show ?case by (simp add: word_unat_eq_iff)
qed simp

lemma be_value_zeros [simp]: "be_value (zeros n) = 0" "be_value (replicate n 0) = 0"
  by (induction n) (simp_all add: zeros_def)

lemma low_byte: "unat (ucast (drop_bit n w) :: u8) = unat (w :: 'a::len word) div 2 ^ n mod 256"
  by (simp add: unsigned_ucast_eq unat_drop_bit_eq take_bit_eq_mod) (simp add: drop_bit_eq_div)

lemma htonl_value [simp]: "be_value (htonl w) = unat w"
proof -
  define n where "n = unat w"
  have "n < 2 ^ LENGTH(32)" unfolding n_def by (rule unsigned_less)
  then have n: "n div 256 div 256 div 256 < 256" by (simp add: div_mult2_eq [symmetric])
  have d: "n div 16777216 = n div 256 div 256 div 256" "n div 65536 = n div 256 div 256"
    by (simp_all add: div_mult2_eq [symmetric])
  have b: "unat (ucast w :: u8) = n mod 256" using low_byte [of 0 w] by (simp add: n_def)
  define x y z where "x = n div 256" and "y = x div 256" and "z = y div 256"
  have "be_value (htonl w) = z * 16777216 + (y mod 256 * 65536 + (x mod 256 * 256 + n mod 256))"
    using n by (simp add: htonl_def low_byte b d n_def [symmetric] x_def y_def z_def)
  moreover have "x * 256 + n mod 256 = n" "y * 256 + x mod 256 = x" "z * 256 + y mod 256 = y"
    by (simp_all add: x_def y_def z_def)
  ultimately have "be_value (htonl w) = n" by linarith
  then show ?thesis by (simp add: n_def)
qed

lemma htons_value [simp]: "be_value (htons w) = unat w"
proof -
  define n where "n = unat w"
  have "n < 2 ^ LENGTH(16)" unfolding n_def by (rule unsigned_less)
  then have n: "n div 256 < 256" by simp
  have b: "unat (ucast w :: u8) = n mod 256" using low_byte [of 0 w] by (simp add: n_def)
  have "be_value (htons w) = (n div 256) * 256 + n mod 256"
    using n by (simp add: htons_def low_byte b n_def [symmetric])
  then show ?thesis by (simp add: n_def)
qed

lemma ntoh_hton [simp]: "ntohl (htonl w) = w" "ntohs (htons p) = p"
  by (simp_all add: ntohl_def ntohs_def)

lemma hton_length [simp]: "length (htonl w) = 4" "length (htons p) = 2"
  by (simp_all add: htonl_def htons_def)

section \<open>Networks as arithmetic\<close>

text \<open>The first address of the block of \<open>2 ^ k\<close> that holds \<open>n\<close>, and the last.\<close>

definition block_first :: "nat \<Rightarrow> nat \<Rightarrow> nat" where
  "block_first k n = n div 2 ^ k * 2 ^ k"

definition block_last :: "nat \<Rightarrow> nat \<Rightarrow> nat" where
  "block_last k n = block_first k n + (2 ^ k - 1)"

abbreviation high_mask :: "nat \<Rightarrow> 'a::len word" where
  "high_mask k \<equiv> NOT (mask k)"

lemma and_high_mask: "unat (w AND high_mask k) = block_first k (unat w)"
proof -
  have "w AND high_mask k = push_bit k (drop_bit k w)"
    by (rule bit_word_eqI) (auto simp: bit_and_iff bit_push_bit_iff bit_drop_bit_eq bit_not_iff bit_mask_iff)
  then have "unat (w AND high_mask k) = take_bit LENGTH('a) (push_bit k (drop_bit k (unat w)))"
    by (simp only: unsigned_push_bit_eq unat_drop_bit_eq)
  then have "unat (w AND high_mask k) = (unat w div 2 ^ k * 2 ^ k) mod 2 ^ LENGTH('a)"
    by (simp add: take_bit_eq_mod push_bit_eq_mult drop_bit_eq_div)
  moreover have "unat w div 2 ^ k * 2 ^ k \<le> unat w" by simp
  moreover have "unat w < 2 ^ LENGTH('a)" by (rule unsigned_less)
  ultimately show ?thesis by (simp add: block_first_def)
qed

lemma or_low_mask:
  fixes w :: "'a::len word"
  assumes "k \<le> LENGTH('a)"
  shows "unat (w OR mask k) = block_last k (unat w)"
proof -
  let ?h = "w AND high_mask k" and ?l = "mask k :: 'a word"
  have "unat ?l = take_bit k (mask LENGTH('a))"
    by (metis take_bit_minus_one_eq_mask unsigned_minus_1_eq_mask unsigned_take_bit_eq)
  then have "unat ?l = mask k" using assms by (simp only: take_bit_of_mask min.absorb1)
  then have l: "unat ?l = 2 ^ k - 1" by (simp only: mask_eq_exp_minus_1)
  have "w OR mask k = ?h OR ?l" "?h AND ?l = 0"
    by (rule bit_word_eqI, auto simp: bit_and_iff bit_or_iff bit_not_iff bit_mask_iff)+
  then have e: "w OR mask k = ?h + ?l" using word_plus_and_or [of ?h ?l] by simp
  have "block_first k (unat w) + 2 ^ k \<le> 2 ^ LENGTH('a)"
  proof -
    have "unat w < 2 ^ k * 2 ^ (LENGTH('a) - k)"
      using unsigned_less [of w, where 'a = nat] assms by (simp add: power_add [symmetric])
    then have "unat w div 2 ^ k < 2 ^ (LENGTH('a) - k)" by (simp add: less_mult_imp_div_less mult.commute)
    then have "(unat w div 2 ^ k + 1) * 2 ^ k \<le> 2 ^ (LENGTH('a) - k) * 2 ^ k" by (intro mult_right_mono) auto
    then show ?thesis using assms by (simp add: block_first_def power_add [symmetric])
  qed
  then have "unat ?h + unat ?l < 2 ^ LENGTH('a)" unfolding and_high_mask l by (cases "(2 :: nat) ^ k") simp_all
  then have "unat (?h + ?l) = unat ?h + unat ?l" by (simp add: unat_word_ariths)
  then show ?thesis unfolding e and_high_mask l by (simp add: block_last_def)
qed

lemma v4_mask_high:
  assumes "p \<le> 32"
  shows "v4_mask p = high_mask (32 - unat p)"
proof -
  have "unat p \<le> 32" using assms by (simp add: word_le_nat_alt)
  then have "unat (32 - p) = 32 - unat p" using assms by (simp add: unat_sub)
  moreover have "(0xffffffff :: u32) = - 1" by simp
  moreover have "NOT (mask 32 :: u32) = 0" by (rule bit_word_eqI) (simp add: bit_not_iff bit_mask_iff)
  ultimately show ?thesis unfolding v4_mask_def \<open>0xffffffff = - 1\<close> by simp
qed

text \<open>The same byte by byte: a recursion on the bytes that consumes the prefix.\<close>

fun first_bytes :: "nat \<Rightarrow> bytes \<Rightarrow> bytes" where
  "first_bytes p [] = []"
| "first_bytes p (x # xs) = (if 8 \<le> p then x # first_bytes (p - 8) xs else (x AND high_mask (8 - p)) # first_bytes 0 xs)"

fun last_bytes :: "nat \<Rightarrow> bytes \<Rightarrow> bytes" where
  "last_bytes p [] = []"
| "last_bytes p (x # xs) = (if 8 \<le> p then x # last_bytes (p - 8) xs else (x OR mask (8 - p)) # last_bytes 0 xs)"

lemma bytes_length [simp]: "length (first_bytes p xs) = length xs" "length (last_bytes p xs) = length xs"
  by (induction xs arbitrary: p) simp_all

lemma pow8: "(256 :: nat) ^ n = 2 ^ (8 * n)"
  by (simp add: power_mult)

lemma block_first_split:
  assumes "k \<le> 8 * m" "v < 256 ^ m"
  shows "block_first k (x * 256 ^ m + v) = x * 256 ^ m + block_first k v"
proof -
  have "(256 :: nat) ^ m = 2 ^ (8 * m - k) * 2 ^ k" using assms(1) by (simp add: pow8 power_add [symmetric])
  then have "x * 256 ^ m + v = v + x * 2 ^ (8 * m - k) * 2 ^ k" by simp
  then have "(x * 256 ^ m + v) div 2 ^ k = (v + x * 2 ^ (8 * m - k) * 2 ^ k) div 2 ^ k" by (rule arg_cong)
  then have "(x * 256 ^ m + v) div 2 ^ k = x * 2 ^ (8 * m - k) + v div 2 ^ k" by simp
  then show ?thesis using \<open>(256 :: nat) ^ m = _\<close> by (simp add: block_first_def algebra_simps)
qed

lemma block_first_high:
  assumes "v < 256 ^ m"
  shows "block_first (8 * m + k) (x * 256 ^ m + v) = block_first k x * 256 ^ m"
proof -
  have "(x * 256 ^ m + v) div 2 ^ (8 * m + k) = (x * 256 ^ m + v) div 256 ^ m div 2 ^ k"
    by (simp add: pow8 power_add div_mult2_eq)
  also have "(x * 256 ^ m + v) div 256 ^ m = x" using assms by simp
  finally show ?thesis by (simp add: block_first_def pow8 power_add mult.commute mult.left_commute)
qed

lemma first_bytes_value:
  "p \<le> 8 * length xs \<Longrightarrow> be_value (first_bytes p xs) = block_first (8 * length xs - p) (be_value xs)"
proof (induction xs arbitrary: p)
  case (Cons x xs)
  let ?m = "length xs"
  have v: "be_value xs < 256 ^ ?m" by (rule be_value_less)
  show ?case
  proof (cases "8 \<le> p")
    case True
    then have "8 * length (x # xs) - p = 8 * ?m - (p - 8)" "p - 8 \<le> 8 * ?m" using Cons.prems by auto
    with True Cons.IH [of "p - 8"] show ?thesis using block_first_split [OF _ v, of "8 * ?m - (p - 8)" "unat x"] by simp
  next
    case False
    then have "8 * length (x # xs) - p = 8 * ?m + (8 - p)" by simp
    moreover have "block_first (8 * ?m) (be_value xs) = 0" using v by (simp add: block_first_def pow8)
    ultimately show ?thesis
      using False Cons.IH [of 0] block_first_high [OF v, of "8 - p" "unat x"] by (simp add: and_high_mask)
  qed
qed (simp add: block_first_def)

lemma blocks_nat: "1 \<le> C \<Longrightarrow> 1 \<le> A \<Longrightarrow> (B + (C - 1)) * A + (A - 1) = B * A + (C * A - 1)" for A B C :: nat
  by (cases C; cases A) (auto simp: algebra_simps)

lemma last_bytes_value:
  "p \<le> 8 * length xs \<Longrightarrow> be_value (last_bytes p xs) = block_last (8 * length xs - p) (be_value xs)"
proof (induction xs arbitrary: p)
  case (Cons x xs)
  let ?m = "length xs"
  have v: "be_value xs < 256 ^ ?m" by (rule be_value_less)
  show ?case
  proof (cases "8 \<le> p")
    case True
    then have "8 * length (x # xs) - p = 8 * ?m - (p - 8)" "p - 8 \<le> 8 * ?m" using Cons.prems by auto
    with True Cons.IH [of "p - 8"] show ?thesis
      using block_first_split [OF _ v, of "8 * ?m - (p - 8)" "unat x"]
      by (simp only: block_last_def last_bytes.simps be_value.simps bytes_length if_True add.assoc diff_le_self)
  next
    case False
    then have k: "8 * length (x # xs) - p = 8 * ?m + (8 - p)" by simp
    have "block_last (8 * ?m) (be_value xs) = 256 ^ ?m - 1" using v by (simp add: block_last_def block_first_def pow8)
    moreover have "unat (x OR mask (8 - p)) = block_last (8 - p) (unat x)" by (rule or_low_mask) simp
    ultimately have "be_value (last_bytes p (x # xs)) = block_last (8 - p) (unat x) * 256 ^ ?m + (256 ^ ?m - 1)"
      using False Cons.IH [of 0] by simp
    also have "\<dots> = block_first (8 - p) (unat x) * 256 ^ ?m + (2 ^ (8 - p) * 256 ^ ?m - 1)"
      unfolding block_last_def by (rule blocks_nat) simp_all
    also have "\<dots> = block_last (8 * ?m + (8 - p)) (unat x * 256 ^ ?m + be_value xs)"
      using block_first_high [OF v, of "8 - p" "unat x"] by (simp add: block_last_def pow8 power_add mult.commute)
    finally show ?thesis unfolding k by simp
  qed
qed (simp add: block_last_def block_first_def)

section \<open>The code's bytes are the arithmetic\<close>

lemma shifted_ff:
  assumes "0 < k" "k < 8"
  shows "(ucast (push_bit k (0xff :: u32)) :: u8) = high_mask k"
    and "(ucast (drop_bit k (0xff :: u32)) :: u8) = mask (8 - k)"
proof -
  have e: "(0xff :: u32) = mask 8" by (simp add: mask_eq_exp_minus_1)
  show "(ucast (push_bit k (0xff :: u32)) :: u8) = high_mask k"
    unfolding e by (rule bit_word_eqI) (auto simp: bit_ucast_iff bit_push_bit_iff bit_mask_iff bit_not_iff)
  show "(ucast (drop_bit k (0xff :: u32)) :: u8) = mask (8 - k)"
    unfolding e using assms
    by (intro bit_word_eqI) (auto simp: bit_ucast_iff bit_drop_bit_eq bit_mask_iff)
qed

lemma v6_positions:
  fixes p :: u32
  assumes "i < 16" "p \<le> 128"
  shows "(of_nat (i * 8) + 8 \<le> p) = (8 * i + 8 \<le> unat p)" "(of_nat (i * 8) \<ge> p) = (unat p \<le> 8 * i)"
    "8 * i < unat p \<Longrightarrow> unat (p - of_nat (i * 8)) = unat p - 8 * i"
    "8 * i < unat p \<Longrightarrow> unat p < 8 * i + 8 \<Longrightarrow> unat (8 - (p - of_nat (i * 8))) = 8 * i + 8 - unat p"
proof -
  have "unat (of_nat (i * 8) :: u32) = i * 8 mod 2 ^ LENGTH(32)" by (rule unat_of_nat)
  then have b: "unat (of_nat (i * 8) :: u32) = 8 * i" using assms(1) by (simp del: of_nat_mult)
  then have c: "unat (of_nat (i * 8) + 8 :: u32) = 8 * i + 8"
    using assms(1) by (simp add: unat_word_ariths)
  show "(of_nat (i * 8) + 8 \<le> p) = (8 * i + 8 \<le> unat p)" unfolding word_le_nat_alt c ..
  show g: "(of_nat (i * 8) \<ge> p) = (unat p \<le> 8 * i)" unfolding word_le_nat_alt b ..
  show d: "unat (p - of_nat (i * 8)) = unat p - 8 * i" if "8 * i < unat p"
    using that b by (simp add: unat_sub word_le_nat_alt)
  show "unat (8 - (p - of_nat (i * 8))) = 8 * i + 8 - unat p" if "8 * i < unat p" "unat p < 8 * i + 8"
    using that d [OF that(1)] by (simp add: unat_sub word_le_nat_alt)
qed

lemma first_bytes_0: "first_bytes 0 xs = replicate (length xs) 0"
proof (induction xs)
  case (Cons x xs)
  have "x AND high_mask 8 = 0" by (rule bit_word_eqI) (simp add: bit_and_iff bit_not_iff bit_mask_iff)
  with Cons show ?case by simp
qed simp

lemma last_bytes_0: "last_bytes 0 xs = replicate (length xs) 0xff"
proof (induction xs)
  case (Cons x xs)
  have "x OR mask 8 = mask 8" by (intro bit_word_eqI) (simp add: bit_or_iff bit_mask_iff)
  also have "(mask 8 :: u8) = 0xff" by (simp add: mask_eq_exp_minus_1)
  finally show ?case using Cons by simp
qed simp

lemma v6_network_bytes:
  assumes p: "p \<le> 128"
  shows "j + length xs \<le> 16 \<Longrightarrow>
    map (v6_network_byte p) (enumerate j xs) = first_bytes (unat p - 8 * j) xs"
proof (induction xs arbitrary: j)
  case (Cons x xs)
  then have j: "j < 16" by simp
  note pos = v6_positions [OF j p]
  have "map (v6_network_byte p) (enumerate (Suc j) xs) = first_bytes (unat p - 8 * Suc j) xs"
    using Cons by simp
  moreover have "unat p - 8 * Suc j = unat p - 8 * j - 8" by simp
  ultimately have r: "map (v6_network_byte p) (enumerate (Suc j) xs) = first_bytes (unat p - 8 * j - 8) xs" by metis
  consider "8 * j + 8 \<le> unat p" | "unat p \<le> 8 * j" | "8 * j < unat p" "unat p < 8 * j + 8" by linarith
  then show ?case
  proof cases
    case 1
    then have "8 \<le> unat p - 8 * j" "v6_network_byte p (j, x) = x" using pos(1) by (simp_all add: v6_network_byte_def Let_def)
    then show ?thesis using r by simp
  next
    case 2
    then have "v6_network_byte p (j, x) = 0" using pos(1,2) by (simp add: v6_network_byte_def Let_def)
    then show ?thesis using 2 r first_bytes_0 [of "x # xs"] first_bytes_0 [of xs] by simp
  next
    case 3
    then have k: "unat p - 8 * j - 8 = 0" "\<not> 8 \<le> unat p - 8 * j" "8 * j + 8 - unat p = 8 - (unat p - 8 * j)"
      "0 < unat p - 8 * j" by auto
    have "v6_network_byte p (j, x) = x AND high_mask (8 - (unat p - 8 * j))"
      using 3 pos k shifted_ff(1) [of "8 * j + 8 - unat p"] by (simp add: v6_network_byte_def Let_def)
    then show ?thesis using r k by simp
  qed
qed simp

lemma v6_broadcast_bytes:
  assumes p: "p \<le> 128"
  shows "j + length xs \<le> 16 \<Longrightarrow>
    map (v6_broadcast_byte p) (enumerate j xs) = last_bytes (unat p - 8 * j) xs"
proof (induction xs arbitrary: j)
  case (Cons x xs)
  then have j: "j < 16" by simp
  note pos = v6_positions [OF j p]
  have "map (v6_broadcast_byte p) (enumerate (Suc j) xs) = last_bytes (unat p - 8 * Suc j) xs"
    using Cons by simp
  moreover have "unat p - 8 * Suc j = unat p - 8 * j - 8" by simp
  ultimately have r: "map (v6_broadcast_byte p) (enumerate (Suc j) xs) = last_bytes (unat p - 8 * j - 8) xs" by metis
  consider "8 * j + 8 \<le> unat p" | "unat p \<le> 8 * j" | "8 * j < unat p" "unat p < 8 * j + 8" by linarith
  then show ?case
  proof cases
    case 1
    then have "8 \<le> unat p - 8 * j" "v6_broadcast_byte p (j, x) = x" using pos(1) by (simp_all add: v6_broadcast_byte_def Let_def)
    then show ?thesis using r by simp
  next
    case 2
    then have "v6_broadcast_byte p (j, x) = 0xff" using pos(1,2) by (simp add: v6_broadcast_byte_def Let_def)
    then show ?thesis using 2 r last_bytes_0 [of "x # xs"] last_bytes_0 [of xs] by simp
  next
    case 3
    then have k: "unat p - 8 * j - 8 = 0" "\<not> 8 \<le> unat p - 8 * j" "8 * j + 8 - unat p = 8 - (unat p - 8 * j)"
      "0 < unat p - 8 * j" by auto
    have "v6_broadcast_byte p (j, x) = x OR mask (8 - (unat p - 8 * j))"
      using 3 pos k shifted_ff(2) [of "unat p - 8 * j"] by (simp add: v6_broadcast_byte_def Let_def)
    then show ?thesis using r k by simp
  qed
qed simp

lemma v6_mask_bytes:
  assumes p: "p \<le> 128"
  shows "map (v6_mask_byte p) [0..<16] = first_bytes (unat p) (replicate 16 0xff)"
proof -
  have "v6_mask_byte p i = v6_network_byte p (i, 0xff)" if "i < 16" for i
  proof -
    note pos = v6_positions [OF that p]
    consider "8 * i + 8 \<le> unat p" | "unat p \<le> 8 * i" | "8 * i < unat p" "unat p < 8 * i + 8" by linarith
    then show ?thesis
    proof cases
      case 3
      have "0xff AND w = w" for w :: u8
      proof -
        have "(0xff :: u8) = - 1" by simp
        then show ?thesis by (simp only: and.left_neutral)
      qed
      with 3 pos show ?thesis by (simp add: v6_mask_byte_def v6_network_byte_def Let_def not_le [symmetric])
    qed (use pos in \<open>simp_all add: v6_mask_byte_def v6_network_byte_def Let_def not_le [symmetric]\<close>)
  qed
  then have "map (v6_mask_byte p) [0..<16] = map (v6_network_byte p) (map (\<lambda>i. (i, 0xff)) [0..<16])" by simp
  also have "map (\<lambda>i. (i, 0xff)) [0..<16] = enumerate 0 (replicate 16 (0xff :: u8))"
    by (simp add: enumerate_eq_zip zip_replicate2)
  finally show ?thesis using v6_network_bytes [OF p, of 0 "replicate 16 0xff"] by simp
qed

text \<open>An address of an IP class as the constructors make it, the number of its bits and its value.\<close>

fun wf_ip :: "address \<Rightarrow> bool" where
  "wf_ip (IPv4Address b) \<longleftrightarrow> length b = SOCKADDR_IN \<and> take 2 b = family_bytes AF_INET"
| "wf_ip (IPv6Address b) \<longleftrightarrow> length b = SOCKADDR_IN6 \<and> take 2 b = family_bytes AF_INET6"
| "wf_ip _ \<longleftrightarrow> False"

fun ip_bytes :: "address \<Rightarrow> bytes" where
  "ip_bytes (IPv4Address b) = sin_addr b"
| "ip_bytes (IPv6Address b) = sin6_addr b"
| "ip_bytes _ = []"

definition ip_bits :: "address \<Rightarrow> nat" where
  "ip_bits a = 8 * length (ip_bytes a)"

definition ip_value :: "address \<Rightarrow> nat" where
  "ip_value a = be_value (ip_bytes a)"

lemmas sizes = SOCKADDR_IN_def SOCKADDR_IN6_def SOCKADDR_UN_def SUN_PATH_def SUN_OFFSET_def SOCKADDR_STORAGE_def

lemma family_length [simp]: "length (family_bytes f) = 2"
  by (simp add: family_bytes_def)

lemma host_address [simp]:
  "wf_ip (IPv4Address_host w port)" "ip_bytes (IPv4Address_host w port) = htonl w"
  "getPort (IPv4Address_host w port) = ucast port" "getFamily (IPv4Address_host w port) = AF_INET"
  by (simp_all add: IPv4Address_host_def sockaddr_in_def sin_addr_def sin_port_def getPort_def sizes zeros_def)

lemma mask_address [simp]:
  "wf_ip (IPv4Address (sockaddr_in (zeros 2) (htonl w)))"
  "ip_bytes (IPv4Address (sockaddr_in (zeros 2) (htonl w))) = htonl w"
  "getPort (IPv4Address (sockaddr_in (zeros 2) (htonl w))) = 0"
  by (simp_all add: sockaddr_in_def sin_addr_def sin_port_def getPort_def sizes zeros_def ntohs_def numeral_2_eq_2)

lemma bytes_address [simp]:
  assumes "length v = 16"
  shows "wf_ip (IPv6Address_bytes v port)" "ip_bytes (IPv6Address_bytes v port) = v"
    "getPort (IPv6Address_bytes v port) = ucast port"
  using assms
  by (simp_all add: IPv6Address_bytes_def sockaddr_in6_def sin6_addr_def sin_port_def getPort_def sizes zeros_def)

lemma new_address [simp]:
  assumes "wf_ip (IPv6Address b)" "length v = 16"
  shows "wf_ip (IPv6Address (set_sin6_addr v b))" "ip_bytes (IPv6Address (set_sin6_addr v b)) = v"
    "getPort (IPv6Address (set_sin6_addr v b)) = getPort (IPv6Address b)"
  using assms by (simp_all add: set_sin6_addr_def sin6_addr_def sin_port_def getPort_def sizes take_drop)

lemma sin_addr_value: "length b = SOCKADDR_IN \<Longrightarrow> unat (ntohl (sin_addr b)) = be_value (sin_addr b)"
proof -
  assume "length b = SOCKADDR_IN"
  then have "be_value (sin_addr b) < 256 ^ 4"
    using be_value_less [of "sin_addr b"] by (simp add: sin_addr_def sizes)
  then show ?thesis unfolding ntohl_def by (subst unat_of_nat) simp
qed

lemma ip_lengths:
  "wf_ip (IPv4Address b) \<Longrightarrow> length (sin_addr b) = 4" "wf_ip (IPv6Address b) \<Longrightarrow> length (sin6_addr b) = 16"
  by (simp_all add: sin_addr_def sin6_addr_def sizes)

lemma v4_results:
  assumes w: "wf_ip (IPv4Address b)" and p: "p \<le> 32"
  shows "be_value (htonl (ntohl (sin_addr b) AND v4_mask p)) = block_first (32 - unat p) (be_value (sin_addr b))"
    "be_value (htonl (ntohl (sin_addr b) OR NOT (v4_mask p))) = block_last (32 - unat p) (be_value (sin_addr b))"
proof -
  have v: "unat (ntohl (sin_addr b)) = be_value (sin_addr b)" using w by (simp add: sin_addr_value)
  show "be_value (htonl (ntohl (sin_addr b) AND v4_mask p)) = block_first (32 - unat p) (be_value (sin_addr b))"
    unfolding htonl_value v4_mask_high [OF p] and_high_mask v ..
  have "NOT (v4_mask p) = mask (32 - unat p)" unfolding v4_mask_high [OF p] by simp
  then show "be_value (htonl (ntohl (sin_addr b) OR NOT (v4_mask p))) = block_last (32 - unat p) (be_value (sin_addr b))"
    unfolding htonl_value by (simp add: or_low_mask v)
qed

lemma v6_results:
  assumes w: "wf_ip (IPv6Address b)" and p: "p \<le> 128"
  defines "n \<equiv> map (v6_network_byte p) (enumerate 0 (sin6_addr b))"
    and "l \<equiv> map (v6_broadcast_byte p) (enumerate 0 (sin6_addr b))"
  shows "be_value n = block_first (128 - unat p) (be_value (sin6_addr b))" "length n = 16"
    "be_value l = block_last (128 - unat p) (be_value (sin6_addr b))" "length l = 16"
proof -
  have len: "length (sin6_addr b) = 16" using ip_lengths w by blast
  have u: "unat p \<le> 128" using p by (simp add: word_le_nat_alt)
  have "n = first_bytes (unat p) (sin6_addr b)" "l = last_bytes (unat p) (sin6_addr b)"
    using v6_network_bytes [OF p, of 0 "sin6_addr b"] v6_broadcast_bytes [OF p, of 0 "sin6_addr b"] len
    by (simp_all add: n_def l_def)
  then show "be_value n = block_first (128 - unat p) (be_value (sin6_addr b))" "length n = 16"
    "be_value l = block_last (128 - unat p) (be_value (sin6_addr b))" "length l = 16"
    using first_bytes_value [of "unat p" "sin6_addr b"] last_bytes_value [of "unat p" "sin6_addr b"] u len by simp_all
qed

lemma too_long: "wf_ip a \<Longrightarrow> (ip_bits a < unat p) = (case a of IPv4Address _ \<Rightarrow> p > 32 | _ \<Rightarrow> p > (128 :: u32))"
  by (cases a) (auto simp: ip_bits_def ip_lengths word_less_nat_alt sin_addr_def sin6_addr_def sizes)

text \<open>C22: an IP address's network and broadcast addresses are exact as arithmetic: for a prefix of at
  most the address's bits they are the first and the last number of the block of 2 ^ (bits - prefix)
  numbers the address lies in, of the same class, with the port kept; for a longer prefix all of
  \<open>networkAddress\<close>, \<open>broadcastAddress\<close> and \<open>subnetMask\<close> give no address.  The IPv4 code masks one
  word, the IPv6 code sixteen bytes with shifts.\<close>

theorem network_exact:
  assumes "wf_ip a"
  shows "(if ip_bits a < unat p
          then networkAddress p a = None \<and> broadcastAddress p a = None \<and> subnetMask p a = None
          else \<exists>n b. networkAddress p a = Some n \<and> broadcastAddress p a = Some b \<and> wf_ip n \<and> wf_ip b \<and>
            getFamily n = getFamily a \<and> getFamily b = getFamily a \<and> getPort n = getPort a \<and> getPort b = getPort a \<and>
            ip_value n = block_first (ip_bits a - unat p) (ip_value a) \<and>
            ip_value b = block_last (ip_bits a - unat p) (ip_value a))"
proof (cases a)
  case [simp]: (IPv4Address b)
  have [simp]: "ip_bits (IPv4Address b) = 32" using assms by (simp_all add: ip_bits_def ip_lengths)
  show ?thesis
  proof (cases "p > 32")
    case False
    then have p: "p \<le> 32" by simp
    with too_long [OF assms, of p] have "\<not> ip_bits a < unat p" by simp
    moreover have "getPort a = ucast (ntohs (sin_port b))" by (simp add: getPort_def)
    ultimately show ?thesis
      using p v4_results [OF _ p, of b] assms
      by (simp add: v4_network_def v4_broadcast_def Let_def not_less [symmetric] ip_value_def)
  qed (use too_long [OF assms, of p] in \<open>simp add: v4_network_def v4_broadcast_def v4_subnetMask_def\<close>)
next
  case [simp]: (IPv6Address b)
  have [simp]: "ip_bits (IPv6Address b) = 128" using assms by (simp_all add: ip_bits_def ip_lengths)
  show ?thesis
  proof (cases "p > 128")
    case False
    then have p: "p \<le> 128" by simp
    with too_long [OF assms, of p] have "\<not> ip_bits a < unat p" by simp
    then show ?thesis
      using p v6_results [OF _ p, of b] new_address [of b] assms
      by (simp add: v6_network_def v6_broadcast_def not_less [symmetric] ip_value_def)
  qed (use too_long [OF assms, of p] in \<open>simp add: v6_network_def v6_broadcast_def v6_subnetMask_def\<close>)
qed (use assms in simp_all)

theorem network_exact_witness:
  "\<exists>n b. networkAddress 20 (IPv4Address_host 0xC0A81F05 80) = Some n \<and> ip_value n = 0xC0A81000 \<and>
     broadcastAddress 20 (IPv4Address_host 0xC0A81F05 80) = Some b \<and> ip_value b = 0xC0A81FFF \<and> getPort b = 80"
proof -
  have "ip_bits (IPv4Address_host 0xC0A81F05 80) = 32" "ip_value (IPv4Address_host 0xC0A81F05 80) = 0xC0A81F05"
    by (simp_all add: ip_bits_def ip_value_def)
  then show ?thesis
    using network_exact [of "IPv4Address_host 0xC0A81F05 80" 20] by (auto simp: block_first_def block_last_def)
qed

section \<open>Masks\<close>

lemma count_zero_byte: "count_bits 0 bs s = Inr (fst s, snd s \<or> bs \<noteq> [])"
  by (induction bs arbitrary: s) (auto split: prod.splits)

lemma count_zero_bytes: "count_bytes (replicate n 0) s = fst s"
  by (induction n arbitrary: s) (auto simp: count_zero_byte)

lemma count_full_byte: "count_bits 0xff bit_positions (r, False) = Inr (r + 8, False)"
  by (simp add: push_bit_eq_mult bit_positions_def)

lemma count_part_byte:
  assumes "k < 8"
  shows "count_bits (0xff AND high_mask (8 - k)) bit_positions (r, False) = Inr (r + of_nat k, True)"
proof -
  have "k \<in> {0, 1, 2, 3, 4, 5, 6, 7}" using assms by auto
  then show ?thesis by (auto simp: push_bit_eq_mult mask_eq_exp_minus_1 bit_positions_def)
qed

lemma count_mask:
  "p \<le> 8 * n \<Longrightarrow> count_bytes (first_bytes p (replicate n 0xff)) (r, False) = r + of_nat p"
proof (induction n arbitrary: p r)
  case (Suc n)
  show ?case
  proof (cases "8 \<le> p")
    case True
    then have e: "of_nat p = (8 :: u32) + of_nat (p - 8)" by simp
    have "p - 8 \<le> 8 * n" using Suc.prems by simp
    with True Suc.IH show ?thesis unfolding e by (simp add: count_full_byte)
  next
    case False
    then show ?thesis
      by (simp add: count_part_byte first_bytes_0 count_zero_bytes)
  qed
qed simp

lemma numeral_4_ff: "replicate 4 (0xff :: u8) = [0xff, 0xff, 0xff, 0xff]"
proof -
  have "(4 :: nat) = Suc (Suc (Suc (Suc 0)))" by simp
  then show ?thesis by (simp only: replicate_Suc replicate_0)
qed

lemma high_mask_bytes:
  assumes "p \<le> 32"
  shows "htonl (v4_mask p) = first_bytes (unat p) (replicate 4 0xff)"
proof -
  have "be_value (htonl (v4_mask p)) = block_first (32 - unat p) (unat (0xffffffff :: u32))"
  proof -
    have "v4_mask p = - 1 AND high_mask (32 - unat p)" using v4_mask_high [OF assms] by simp
    moreover have "(- 1 :: u32) = 0xffffffff" by simp
    ultimately show ?thesis unfolding htonl_value by (simp only: and_high_mask)
  qed
  also have "unat (0xffffffff :: u32) = be_value (replicate 4 0xff)" unfolding numeral_4_ff by simp
  also have "block_first (32 - unat p) (be_value (replicate 4 0xff)) =
      be_value (first_bytes (unat p) (replicate 4 0xff))"
    using first_bytes_value [of "unat p" "replicate 4 0xff"] assms by (simp add: word_le_nat_alt)
  finally show ?thesis by (rule be_value_inject) simp_all
qed

text \<open>an interface's prefix length is recovered exactly: counting the bits of the mask that
  \<open>subnetMask\<close> makes for a prefix length gives that prefix length back, for both classes and every
  length the class allows; the mask has port 0.\<close>

theorem mask_bits_round_trip:
  assumes "wf_ip a" and "unat p \<le> ip_bits a"
  shows "\<exists>m. subnetMask p a = Some m \<and> wf_ip m \<and> getPort m = 0 \<and> CountMaskBits (ip_bytes m) = p"
proof (cases a)
  case [simp]: (IPv4Address b)
  from too_long [OF assms(1), of p] assms(2) have p: "p \<le> 32" by simp
  then have "CountMaskBits (htonl (v4_mask p)) = p"
    using count_mask [of "unat p" 4 0] by (simp add: high_mask_bytes CountMaskBits_def word_le_nat_alt)
  then show ?thesis using p by (simp add: v4_subnetMask_def not_less [symmetric] del: wf_ip.simps ip_bytes.simps)
next
  case [simp]: (IPv6Address b)
  from too_long [OF assms(1), of p] assms(2) have p: "p \<le> 128" by simp
  then have "CountMaskBits (map (v6_mask_byte p) [0..<16]) = p"
    using count_mask [of "unat p" 16 0] by (simp only: v6_mask_bytes CountMaskBits_def) (simp add: word_le_nat_alt)
  then show ?thesis using p by (simp add: v6_subnetMask_def not_less [symmetric] del: upt.simps upt_conv_Cons upt_rec_numeral)
qed (use assms(1) in simp_all)

theorem mask_bits_round_trip_witness:
  "\<exists>m. subnetMask 61 IPv6Address_default = Some m \<and> CountMaskBits (ip_bytes m) = 61"
proof -
  have "wf_ip IPv6Address_default" "ip_bits IPv6Address_default = 128"
    by (simp_all add: IPv6Address_default_def sockaddr_in6_def sizes zeros_def ip_bits_def sin6_addr_def)
  then show ?thesis using mask_bits_round_trip [of IPv6Address_default 61] by auto
qed

section \<open>Unix paths\<close>

lemma AF_values: "AF_UNIX \<noteq> AF_INET" "AF_UNIX \<noteq> AF_INET6" "AF_INET \<noteq> AF_INET6"
  by (simp_all add: AF_UNIX_def AF_INET_def AF_INET6_def)

lemma unix_family: "sa_family (family_bytes AF_UNIX @ b) = AF_UNIX"
  by (simp add: sa_family_def family_bytes_def AF_UNIX_def)

lemma copied_length [simp]: "n \<le> sz \<Longrightarrow> n \<le> length b \<Longrightarrow> length (copied sz n b) = sz"
  by (simp add: copied_def zeros_def)

text \<open>a Unix address survives the system: reading back the first \<open>getAddrLen\<close> bytes of an address
  made from a nonempty path, as \<open>getsockname\<close> returns them, gives the same address, whether the path is
  a file name, with a terminator, or an abstract name, with inner zero bytes and none; the length always
  fits the structure.\<close>

theorem unix_path_round_trip:
  assumes "UnixAddress_path path = Inr a" and "path \<noteq> []"
  shows "Address_Create (Some (take (getAddrLen a) (getAddr a))) (getAddrLen a) = Some a \<and>
    getAddrLen a \<le> SOCKADDR_UN \<and> length (getAddr a) = SOCKADDR_UN"
proof -
  obtain c cs where path [simp]: "path = c # cs" using assms(2) by (cases path) auto
  let ?n = "length path" and ?abstract = "c = 0"
  let ?len = "if ?abstract then 2 + ?n else 2 + ?n + 1"
  let ?b = "family_bytes AF_UNIX @ copied SUN_PATH ?n path"
  from assms(1) have fits: "if ?abstract then ?n \<le> SUN_PATH else ?n < SUN_PATH"
    and a: "a = UnixAddress ?b ?len path"
    by (auto simp: UnixAddress_path_def Let_def sizes split: if_splits)
  have lens: "?len \<le> SOCKADDR_UN" "?n \<le> SUN_PATH" using fits by (auto simp: sizes split: if_splits)
  have lb: "length ?b = SOCKADDR_UN" using lens(2) by (simp add: sizes copied_def zeros_def)
  have rest: "drop ?n (copied SUN_PATH ?n path) = zeros (SUN_PATH - ?n)" "take ?n (copied SUN_PATH ?n path) = path"
    by (simp_all add: copied_def)
  have "copied SOCKADDR_UN ?len (take ?len ?b) = ?b"
  proof -
    have "drop ?len ?b = zeros (SOCKADDR_UN - ?len)"
      using rest(1) fits by (auto simp: copied_def zeros_def sizes)
    moreover have "copied SOCKADDR_UN ?len (take ?len ?b) = take ?len ?b @ zeros (SOCKADDR_UN - ?len)"
      by (simp add: copied_def)
    ultimately show ?thesis by (metis append_take_drop_id)
  qed
  moreover have "sa_family (take ?len ?b) = AF_UNIX" by (simp add: sa_family_def family_bytes_def AF_UNIX_def)
  moreover have "UnixAddress_raw ?b ?len = UnixAddress ?b ?len path"
  proof (cases ?abstract)
    case True
    then show ?thesis using lens rest(2) fits by (simp add: UnixAddress_raw_def Let_def sizes copied_def)
  next
    case False
    have "copied SUN_PATH ?n path ! 0 = c" by (simp add: copied_def)
    moreover have "copied SUN_PATH ?n path ! ?n = 0"
      using False fits by (simp add: copied_def zeros_def nth_append)
    ultimately show ?thesis using False lens rest(2) fits by (simp add: UnixAddress_raw_def Let_def sizes)
  qed
  ultimately show ?thesis
    using lens lb by (simp add: a Address_Create_def AF_values min.absorb1)
qed

theorem unix_path_round_trip_witness:
  "\<exists>a. UnixAddress_path [0, 97, 0] = Inr a \<and>
     Address_Create (Some (take (getAddrLen a) (getAddr a))) (getAddrLen a) = Some a"
proof -
  obtain a where "UnixAddress_path [0, 97, 0] = Inr a" by (auto simp: UnixAddress_path_def sizes)
  then show ?thesis using unix_path_round_trip [of "[0, 97, 0]" a] by blast
qed

text \<open>The empty path is the exception: it comes back as the path of one zero byte.\<close>

lemma empty_path_changes:
  "\<exists>a b. UnixAddress_path [] = Inr a \<and> Address_Create (Some (take (getAddrLen a) (getAddr a))) (getAddrLen a) = Some b \<and>
     (\<exists>s l. a = UnixAddress s l [] \<and> b = UnixAddress s l [0])"
  by (simp add: UnixAddress_path_def Address_Create_def sa_family_def family_bytes_def AF_UNIX_def AF_INET_def AF_INET6_def
      UnixAddress_raw_def copied_def zeros_def sizes Let_def numeral_eq_Suc)

section \<open>Order\<close>

lemma memcmp_irrefl [simp]: "\<not> memcmp_less a a"
  by (induction a) auto

lemma memcmp_trans: "memcmp_less a b \<Longrightarrow> memcmp_less b c \<Longrightarrow> memcmp_less a c"
proof (induction a b arbitrary: c rule: memcmp_less.induct)
  case (2 y ys)
  then show ?case by (cases c) auto
next
  case (3 x xs y ys)
  then show ?case by (cases c) (auto split: if_splits)
qed simp

lemma memcmp_total: "memcmp_less a b \<or> memcmp_less b a \<or> a = b"
proof (induction a b rule: memcmp_less.induct)
  case (1 a)
  then show ?case by (cases a) auto
qed (auto simp: not_less_iff_gr_or_eq)

lemma memcmp_incomparable: "\<not> memcmp_less a b \<Longrightarrow> \<not> memcmp_less b c \<Longrightarrow> \<not> memcmp_less a c"
  using memcmp_total [of a b] memcmp_total [of b c] memcmp_trans by metis

interpretation addr: strict_weak_order address_less
proof
  show "\<not> address_less a a" for a by (simp add: address_less_def)
  show "address_less a b \<Longrightarrow> address_less b c \<Longrightarrow> address_less a c" for a b c
    by (auto simp: address_less_def split: if_splits intro: memcmp_trans)
  show "\<not> address_less a b \<Longrightarrow> \<not> address_less b c \<Longrightarrow> \<not> address_less a c" for a b c
    by (auto simp: address_less_def split: if_splits dest: memcmp_incomparable)
qed

interpretation names: strict_weak_order string_less
  by unfold_locales (auto simp: string_less_def intro: memcmp_trans dest: memcmp_incomparable)

text \<open>the comparison of addresses is a strict weak order, so addresses can be the keys of a set or a
  map, and two addresses neither of which is smaller are exactly those \<open>operator==\<close> calls equal.\<close>

theorem address_order:
  assumes "address_less a b"
  shows "\<not> address_less b a \<and> (address_less b c \<longrightarrow> address_less a c) \<and>
    (address_less a c \<or> address_less c b \<or> address_equal a c) \<and>
    (address_equal a c \<longleftrightarrow> \<not> address_less a c \<and> \<not> address_less c a)"
proof -
  have e: "address_equal x y \<longleftrightarrow> \<not> address_less x y \<and> \<not> address_less y x" for x y
    by (auto simp: address_equal_def address_less_def split: if_splits) (metis memcmp_total)
  have "address_less a c \<or> address_less c b" using assms addr.incomparable_trans by blast
  then show ?thesis using assms addr.asym addr.trans e by blast
qed

theorem address_order_witness:
  "address_less (IPv4Address_host 1 80) (IPv4Address_host 2 80) \<and>
   \<not> address_less (IPv4Address_host 2 80) (IPv4Address_host 1 80) \<and>
   address_less (IPv4Address_host 1 80) IPv6Address_default"
proof -
  have a: "address_less (IPv4Address_host 1 80) (IPv4Address_host 2 80)"
    and b: "address_less (IPv4Address_host 2 80) IPv6Address_default" by code_simp+
  from address_order [OF a, of IPv6Address_default] a b show ?thesis by blast
qed

section \<open>Text and lookup\<close>

lemma port_number: "unat (getPort a) = unat (ntohs (sin_port (getAddr a)))"
proof -
  have "unat (ntohs (sin_port (getAddr a))) < 2 ^ LENGTH(16)" by (rule unsigned_less)
  then show ?thesis by (simp add: getPort_def unsigned_ucast_eq take_bit_nat_eq_self_iff)
qed

text \<open>what \<open>toString\<close> prints for an IP address, \<open>SplitHostService\<close> takes apart again into the text of
  the address and its port in decimal, so that a printed address can be looked up.  The texts of
  \<open>inet_ntop\<close> have no bracket, and those of IPv4 no colon.\<close>

theorem host_service_round_trip:
  assumes "wf_ip a" and ntop: "inet_ntop (getFamily a) (ip_bytes a) = Some t"
    and "t \<noteq> []" "CHR ''['' \<notin> set t" "CHR '']'' \<notin> set t" "getFamily a = AF_INET \<Longrightarrow> CHR '':'' \<notin> set t"
  shows "SplitHostService (address_insert inet_ntop a) = (t, show_nat (unat (getPort a)))"
proof -
  have digits: "x \<notin> set (show_nat n)" if "\<not> is_digit x" for x n using show_nat_digits that by blast
  have colon: "CHR '':'' \<notin> set (show_nat n)" for n by (rule digits) (simp add: is_digit_def)
  have t: "hd (t @ s) = hd t" "hd t \<noteq> CHR ''[''" for s using assms(3,4) by (auto simp: neq_Nil_conv)
  show ?thesis
  proof (cases a)
    case [simp]: (IPv4Address b)
    have "split_colon (t @ CHR '':'' # show_nat n) = (t, show_nat n)" for n
      using assms(6) colon [of n] by (simp add: split_colon_def find_char_app rfind_char_app)
    then show ?thesis using ntop t by (simp add: port_number SplitHostService_def v4_insert_def)
  next
    case [simp]: (IPv6Address b)
    have "find_char (CHR '']'') (CHR ''['' # t @ CHR '']'' # s) = Some (Suc (length t))" for s
      using assms(5) find_char_app [of "CHR '']''" "CHR ''['' # t" s] by simp
    then show ?thesis using ntop by (simp add: port_number SplitHostService_def v6_insert_def substr_def nth_append)
  qed (use assms(1) in simp_all)
qed

definition ntop_example :: "int \<Rightarrow> bytes \<Rightarrow> string option" where
  "ntop_example family b = (if family = AF_INET6 \<and> b = zeros 16 then Some ''::'' else None)"

lemma example_address:
  "wf_ip (IPv6Address_bytes (zeros 16) 8080)" "ip_bytes (IPv6Address_bytes (zeros 16) 8080) = zeros 16"
  "getPort (IPv6Address_bytes (zeros 16) 8080) = 8080" "getFamily (IPv6Address_bytes (zeros 16) 8080) = AF_INET6"
  by (simp_all add: zeros_def) (simp add: IPv6Address_bytes_def)

theorem host_service_round_trip_witness:
  "SplitHostService (address_insert ntop_example (IPv6Address_bytes (zeros 16) 8080)) = (''::'', ''8080'')"
proof -
  have n: "ntop_example (getFamily (IPv6Address_bytes (zeros 16) 8080)) (ip_bytes (IPv6Address_bytes (zeros 16) 8080)) = Some ''::''"
    by (simp only: example_address ntop_example_def simp_thms if_True)
  have p: "show_nat (unat (getPort (IPv6Address_bytes (zeros 16) 8080))) = ''8080''"
    unfolding example_address by (simp add: show_nat.simps digit_char_def) (simp add: char_of_def bit_0)
  have "getFamily (IPv6Address_bytes (zeros 16) 8080) \<noteq> AF_INET" using AF_values by (simp add: example_address)
  moreover have "''::'' \<noteq> []" "CHR ''['' \<notin> set ''::''" "CHR '']'' \<notin> set ''::''" by simp_all
  ultimately have "SplitHostService (address_insert ntop_example (IPv6Address_bytes (zeros 16) 8080)) =
      (''::'', show_nat (unat (getPort (IPv6Address_bytes (zeros 16) 8080))))"
    using host_service_round_trip [of "IPv6Address_bytes (zeros 16) 8080" ntop_example "''::''"] example_address(1) n
    by blast
  then show ?thesis unfolding p .
qed
end
