(* ===== verification/Socket.thy ===== *)
theory Socket
  imports Hook Address
begin

text \<open>
  The \<open>Socket\<close> class (include/droplet/socket/socket.h, src/socket/socket.cc): the object that owns one
  descriptor, creates it on first use and reaches the kernel through the hooks.

  A \<open>Socket::Ptr\<close> is an index into the list of socket objects, which is part of the memory beside the
  kernel: so what the rest of the program does while a call waits (the \<open>envs\<close> of the hooks) may change
  the object the call belongs to.  \<open>mm_errno\<close> is errno; it is set by every call that fails, and a call
  that succeeds leaves it.  An address is a value: no operation changes an address that a socket
  keeps.  The calls that are not hooked are parameters, like those of the hooks.  A buffer with its
  length is one value of type \<open>'b\<close>, and so is the storage that \<open>recvFrom\<close> fills.
\<close>

section \<open>Objects, memory and calls\<close>

definition TCP :: u32 where "TCP = 1"
definition UDP :: u32 where "UDP = 2"

definition SO_REUSEADDR :: int where "SO_REUSEADDR = 2"
definition IPPROTO_TCP :: int where "IPPROTO_TCP = 6"
definition TCP_NODELAY :: int where "TCP_NODELAY = 1"

definition E_INVAL :: int where "E_INVAL = 22"
definition E_AFNOSUPPORT :: int where "E_AFNOSUPPORT = 97"
definition E_NOTCONN :: int where "E_NOTCONN = 107"

record socket =
  sk_fd :: int
  sk_family :: int
  sk_type :: u32
  sk_protocol :: int
  sk_connected :: bool
  sk_local :: "address option"
  sk_remote :: "address option"

record 'w memory =
  mm_kernel :: 'w
  mm_sockets :: "socket list"
  mm_errno :: int

type_synonym ('u, 'e, 'w, 'z) sock_state = "('u, 'e, ('w, 'z) memory_scheme) hook_state"

type_synonym ('u, 'e, 'w, 'z) sock_env = "('u, 'e, ('w, 'z) memory_scheme) hook_env"

datatype 'b sock_arg =
    NoAddress
  | ToAddress bytes nat
  | IntValue int
  | TimeValue int int
  | Buffers 'b
  | BuffersTo 'b bytes nat
  | BuffersFrom 'b 'b nat

record ('b, 'e, 'k) calls =
  c_os :: "'k os"
  c_orig :: "('b sock_arg, 'k) originals"
  c_ctl :: "'e epoll_ctl"
  bind_f :: "int \<Rightarrow> bytes \<Rightarrow> nat \<Rightarrow> 'k sys_call"
  listen_f :: "int \<Rightarrow> int \<Rightarrow> 'k sys_call"
  unlink_f :: "bytes \<Rightarrow> 'k sys_call"
  getsockname_f :: "int \<Rightarrow> 'k \<Rightarrow> (int + bytes \<times> nat) \<times> 'k"
  getpeername_f :: "int \<Rightarrow> 'k \<Rightarrow> (int + bytes \<times> nat) \<times> 'k"
  gettimeo_f :: "int \<Rightarrow> int \<Rightarrow> 'k \<Rightarrow> (int + int \<times> int) \<times> 'k"

type_synonym ('b, 'e, 'w, 'z) sock_calls = "('b, 'e, ('w, 'z) memory_scheme) calls"

definition the_sock :: "nat \<Rightarrow> ('u, 'e, 'w, 'z) sock_state \<Rightarrow> socket" where
  "the_sock p s = mm_sockets (hk_kernel s) ! p"

definition on_sock :: "nat \<Rightarrow> (socket \<Rightarrow> socket) \<Rightarrow> ('u, 'e, 'w, 'z) sock_env" where
  "on_sock p f s = s\<lparr> hk_kernel := (hk_kernel s)\<lparr> mm_sockets := (mm_sockets (hk_kernel s))[p := f (the_sock p s)] \<rparr> \<rparr>"

definition set_errno :: "int \<Rightarrow> ('u, 'e, 'w, 'z) sock_env" where
  "set_errno e s = s\<lparr> hk_kernel := (hk_kernel s)\<lparr> mm_errno := e \<rparr> \<rparr>"

text \<open>What a call returns in C: -1 and errno, or its value.\<close>

definition c_result :: "int + int \<Rightarrow> ('u, 'e, 'w, 'z) sock_state \<Rightarrow> int \<times> ('u, 'e, 'w, 'z) sock_state" where
  "c_result r s = (case r of Inl e \<Rightarrow> (- 1, set_errno e s) | Inr v \<Rightarrow> (v, s))"

text \<open>A method that may give up the fiber: it is done, or it still waits.  The outer \<open>None\<close> is a call
  that is interrupted for ever.\<close>

datatype ('r, 's) turn = Done 'r 's | Waits 's

definition after :: "('s io_turn) option \<Rightarrow> (int + int \<Rightarrow> 's \<Rightarrow> 'r \<times> 's) \<Rightarrow> ('r, 's) turn option" where
  "after call f =
     map_option (\<lambda>t. case t of Returned r s \<Rightarrow> case_prod Done (f r s) | Held _ s \<Rightarrow> Waits s) call"

section \<open>Options\<close>

text \<open>\<open>FdMgr::GetInstance().get\<close>, which sets errno when the fd is out of range.\<close>

definition FdMgr_get ::
  "('b, 'e, 'w, 'z) sock_calls \<Rightarrow> int \<Rightarrow> bool \<Rightarrow> ('u, 'e, 'w, 'z) sock_state \<Rightarrow> nat option \<times> ('u, 'e, 'w, 'z) sock_state" where
  "FdMgr_get c fd auto_create s =
     (let (r, m, k) = FdManager_get (c_os c) fd auto_create (hk_fds s) (hk_kernel s);
          s = s\<lparr> hk_fds := m, hk_kernel := k \<rparr>
      in (fst r, if snd r = None then s else set_errno E_INVAL s))"

definition getOption ::
  "(int \<Rightarrow> ('u, 'e, 'w, 'z) sock_state \<Rightarrow> (int + 'r) \<times> ('u, 'e, 'w, 'z) sock_state) \<Rightarrow> nat \<Rightarrow>
   ('u, 'e, 'w, 'z) sock_state \<Rightarrow> 'r option \<times> ('u, 'e, 'w, 'z) sock_state" where
  "getOption call p s =
     (let fd = sk_fd (the_sock p s)
      in if fd = - 1 then (None, s)
         else case call fd s of (Inl e, s) \<Rightarrow> (None, set_errno e s) | (Inr v, s) \<Rightarrow> (Some v, s))"

definition setOption ::
  "('b, 'e, 'w, 'z) sock_calls \<Rightarrow> int \<Rightarrow> int \<Rightarrow> 'b sock_arg option \<Rightarrow> nat \<Rightarrow> nat \<Rightarrow> ('u, 'e, 'w, 'z) sock_state \<Rightarrow>
   bool \<times> ('u, 'e, 'w, 'z) sock_state" where
  "setOption c level option result len p s =
     (let fd = sk_fd (the_sock p s)
      in if fd = - 1 \<or> result = None then (False, s)
         else let (r, s) = hook_setsockopt (c_os c) (c_orig c) fd level option result len s;
                  (v, s) = c_result r s
              in (v = 0, s))"

text \<open>A timeout in milliseconds, -1 when there is none: from the fd table, else from the kernel, which
  reports microseconds between 0 and 999999.\<close>

definition socket_timeout ::
  "('b, 'e, 'w, 'z) sock_calls \<Rightarrow> int \<Rightarrow> nat \<Rightarrow> ('u, 'e, 'w, 'z) sock_state \<Rightarrow> int \<times> ('u, 'e, 'w, 'z) sock_state" where
  "socket_timeout c option p s =
     (case FdMgr_get c (sk_fd (the_sock p s)) False s of
        (Some x, s) \<Rightarrow>
          let timeout = fd_getTimeout option (hk_ctx s x)
          in (if timeout = UINT64_MAX then - 1 else sint timeout, s)
      | (None, s) \<Rightarrow>
          (case getOption (\<lambda>fd s. let (r, k) = gettimeo_f c fd option (hk_kernel s) in (r, s\<lparr> hk_kernel := k \<rparr>)) p s of
             (None, s) \<Rightarrow> (- 1, s)
           | (Some (sec, usec), s) \<Rightarrow> (if sec = 0 \<and> usec = 0 then - 1 else sec * 1000 + usec div 1000, s)))"

definition set_socket_timeout ::
  "('b, 'e, 'w, 'z) sock_calls \<Rightarrow> int \<Rightarrow> int \<Rightarrow> nat \<Rightarrow> ('u, 'e, 'w, 'z) sock_env" where
  "set_socket_timeout c option milliseconds p s =
     (let milliseconds = (if milliseconds < 0 then 0 else milliseconds)
      in snd (setOption c SOL_SOCKET option
           (Some (TimeValue (milliseconds div 1000) (milliseconds mod 1000 * 1000))) 16 p s))"

definition getSendTimeout ::
  "('b, 'e, 'w, 'z) sock_calls \<Rightarrow> nat \<Rightarrow> ('u, 'e, 'w, 'z) sock_state \<Rightarrow> int \<times> ('u, 'e, 'w, 'z) sock_state" where
  "getSendTimeout c = socket_timeout c SO_SNDTIMEO"

definition setSendTimeout :: "('b, 'e, 'w, 'z) sock_calls \<Rightarrow> int \<Rightarrow> nat \<Rightarrow> ('u, 'e, 'w, 'z) sock_env" where
  "setSendTimeout c = set_socket_timeout c SO_SNDTIMEO"

definition getRecvTimeout ::
  "('b, 'e, 'w, 'z) sock_calls \<Rightarrow> nat \<Rightarrow> ('u, 'e, 'w, 'z) sock_state \<Rightarrow> int \<times> ('u, 'e, 'w, 'z) sock_state" where
  "getRecvTimeout c = socket_timeout c SO_RCVTIMEO"

definition setRecvTimeout :: "('b, 'e, 'w, 'z) sock_calls \<Rightarrow> int \<Rightarrow> nat \<Rightarrow> ('u, 'e, 'w, 'z) sock_env" where
  "setRecvTimeout c = set_socket_timeout c SO_RCVTIMEO"

definition getError ::
  "('b, 'e, 'w, 'z) sock_calls \<Rightarrow> nat \<Rightarrow> ('u, 'e, 'w, 'z) sock_state \<Rightarrow> int \<times> ('u, 'e, 'w, 'z) sock_state" where
  "getError c p s =
     (case getOption (\<lambda>fd. hook_getsockopt (c_orig c) fd SOL_SOCKET SO_ERROR) p s of
        (None, s) \<Rightarrow> (mm_errno (hk_kernel s), s)
      | (Some e, s) \<Rightarrow> (e, s))"

section \<open>Creation\<close>

definition Socket_new ::
  "int \<Rightarrow> u32 \<Rightarrow> int \<Rightarrow> ('u, 'e, 'w, 'z) sock_state \<Rightarrow> nat \<times> ('u, 'e, 'w, 'z) sock_state" where
  "Socket_new family type protocol s =
     (length (mm_sockets (hk_kernel s)),
      s\<lparr> hk_kernel := (hk_kernel s)\<lparr> mm_sockets := mm_sockets (hk_kernel s) @
        [\<lparr> sk_fd = - 1, sk_family = family, sk_type = type, sk_protocol = protocol, sk_connected = False,
           sk_local = None, sk_remote = None \<rparr>] \<rparr> \<rparr>)"

definition initSock :: "('b, 'e, 'w, 'z) sock_calls \<Rightarrow> nat \<Rightarrow> ('u, 'e, 'w, 'z) sock_env" where
  "initSock c p s =
     (let s = snd (setOption c SOL_SOCKET SO_REUSEADDR (Some (IntValue 1)) 4 p s)
      in if sk_type (the_sock p s) = TCP
         then snd (setOption c IPPROTO_TCP TCP_NODELAY (Some (IntValue 1)) 4 p s)
         else s)"

definition newSock :: "('b, 'e, 'w, 'z) sock_calls \<Rightarrow> nat \<Rightarrow> ('u, 'e, 'w, 'z) sock_env" where
  "newSock c p s =
     (let k = the_sock p s
      in if sk_fd k \<noteq> - 1 then s
         else let (r, s) = hook_socket (c_os c) (c_orig c) (sk_family k) (sk_type k) (sk_protocol k) s;
                  (fd, s) = c_result r s;
                  s = on_sock p (sk_fd_update (\<lambda>_. fd)) s
              in if fd \<noteq> - 1 then initSock c p s else s)"

definition CreateTCP :: "address option \<Rightarrow> ('u, 'e, 'w, 'z) sock_state \<Rightarrow> nat option \<times> ('u, 'e, 'w, 'z) sock_state" where
  "CreateTCP address s =
     (case address of
        None \<Rightarrow> (None, s)
      | Some a \<Rightarrow> let (p, s) = Socket_new (getFamily a) TCP 0 s in (Some p, s))"

definition CreateUDP ::
  "('b, 'e, 'w, 'z) sock_calls \<Rightarrow> address option \<Rightarrow> ('u, 'e, 'w, 'z) sock_state \<Rightarrow> nat option \<times> ('u, 'e, 'w, 'z) sock_state" where
  "CreateUDP c address s =
     (case address of
        None \<Rightarrow> (None, s)
      | Some a \<Rightarrow>
          let (p, s) = Socket_new (getFamily a) UDP 0 s;
              s = newSock c p s
          in (Some p, on_sock p (sk_connected_update (\<lambda>_. sk_fd (the_sock p s) \<noteq> - 1)) s))"

definition CreateTCPSocket :: "('u, 'e, 'w, 'z) sock_state \<Rightarrow> nat \<times> ('u, 'e, 'w, 'z) sock_state" where
  "CreateTCPSocket = Socket_new AF_INET TCP 0"

definition CreateUDPSocket ::
  "('b, 'e, 'w, 'z) sock_calls \<Rightarrow> ('u, 'e, 'w, 'z) sock_state \<Rightarrow> nat option \<times> ('u, 'e, 'w, 'z) sock_state" where
  "CreateUDPSocket c = CreateUDP c (Some (IPv4Address_host 0 0))"

definition CreateTCPSocket6 :: "('u, 'e, 'w, 'z) sock_state \<Rightarrow> nat \<times> ('u, 'e, 'w, 'z) sock_state" where
  "CreateTCPSocket6 = Socket_new AF_INET6 TCP 0"

definition CreateUDPSocket6 ::
  "('b, 'e, 'w, 'z) sock_calls \<Rightarrow> ('u, 'e, 'w, 'z) sock_state \<Rightarrow> nat option \<times> ('u, 'e, 'w, 'z) sock_state" where
  "CreateUDPSocket6 c = CreateUDP c (Some IPv6Address_default)"

definition CreateUnixTCPSocket :: "('u, 'e, 'w, 'z) sock_state \<Rightarrow> nat \<times> ('u, 'e, 'w, 'z) sock_state" where
  "CreateUnixTCPSocket = Socket_new AF_UNIX TCP 0"

definition CreateUnixUDPSocket :: "('u, 'e, 'w, 'z) sock_state \<Rightarrow> nat \<times> ('u, 'e, 'w, 'z) sock_state" where
  "CreateUnixUDPSocket = Socket_new AF_UNIX UDP 0"

section \<open>Addresses\<close>

text \<open>The address is asked for once and kept; when the kernel has none, the answer is an unknown
  address that is not kept.\<close>

definition named_address ::
  "(int \<Rightarrow> ('w, 'z) memory_scheme \<Rightarrow> (int + bytes \<times> nat) \<times> ('w, 'z) memory_scheme) \<Rightarrow> (socket \<Rightarrow> address option) \<Rightarrow>
   (address option \<Rightarrow> socket \<Rightarrow> socket) \<Rightarrow> nat \<Rightarrow> ('u, 'e, 'w, 'z) sock_state \<Rightarrow> address option \<times> ('u, 'e, 'w, 'z) sock_state" where
  "named_address call kept keep p s =
     (let k = the_sock p s
      in if kept k \<noteq> None then (kept k, s)
         else if sk_fd k = - 1 then (None, s)
         else let (r, m) = call (sk_fd k) (hk_kernel s); s = s\<lparr> hk_kernel := m \<rparr>
              in case r of
                   Inl e \<Rightarrow> (Some (UnknownAddress_family (sk_family k)), set_errno e s)
                 | Inr (b, len) \<Rightarrow> let a = Address_Create (Some b) len in (a, on_sock p (keep a) s))"

definition getRemoteAddress ::
  "('b, 'e, 'w, 'z) sock_calls \<Rightarrow> nat \<Rightarrow> ('u, 'e, 'w, 'z) sock_state \<Rightarrow> address option \<times> ('u, 'e, 'w, 'z) sock_state" where
  "getRemoteAddress c = named_address (getpeername_f c) sk_remote (\<lambda>a. sk_remote_update (\<lambda>_. a))"

definition getLocalAddress ::
  "('b, 'e, 'w, 'z) sock_calls \<Rightarrow> nat \<Rightarrow> ('u, 'e, 'w, 'z) sock_state \<Rightarrow> address option \<times> ('u, 'e, 'w, 'z) sock_state" where
  "getLocalAddress c = named_address (getsockname_f c) sk_local (\<lambda>a. sk_local_update (\<lambda>_. a))"

definition keep_local :: "('b, 'e, 'w, 'z) sock_calls \<Rightarrow> nat \<Rightarrow> ('u, 'e, 'w, 'z) sock_env" where
  "keep_local c p s = (let (a, s) = getLocalAddress c p s in on_sock p (sk_local_update (\<lambda>_. a)) s)"

definition keep_remote :: "('b, 'e, 'w, 'z) sock_calls \<Rightarrow> nat \<Rightarrow> ('u, 'e, 'w, 'z) sock_env" where
  "keep_remote c p s = (let (a, s) = getRemoteAddress c p s in on_sock p (sk_remote_update (\<lambda>_. a)) s)"

section \<open>Life of a connection\<close>

definition Socket_close ::
  "('b, 'e, 'w, 'z) sock_calls \<Rightarrow> nat \<Rightarrow> ('u, 'e, 'w, 'z) sock_state \<Rightarrow> bool \<times> ('u, 'e, 'w, 'z) sock_state" where
  "Socket_close c p s =
     (let fd = sk_fd (the_sock p s)
      in if fd = - 1 then (True, on_sock p (sk_connected_update (\<lambda>_. False)) s)
         else let (r, s) = hook_close (c_os c) (c_orig c) (c_ctl c) fd s;
                  (result, s) = c_result r s
              in (result = 0, on_sock p (\<lambda>k. k\<lparr> sk_fd := - 1, sk_connected := False \<rparr>) s))"

definition Socket_destroy :: "('b, 'e, 'w, 'z) sock_calls \<Rightarrow> nat \<Rightarrow> ('u, 'e, 'w, 'z) sock_env" where
  "Socket_destroy c p s = snd (Socket_close c p s)"

definition Socket_init ::
  "('b, 'e, 'w, 'z) sock_calls \<Rightarrow> int \<Rightarrow> nat \<Rightarrow> ('u, 'e, 'w, 'z) sock_state \<Rightarrow> bool \<times> ('u, 'e, 'w, 'z) sock_state" where
  "Socket_init c fd p s =
     (if fd < 0 then (False, s)
      else let s = on_sock p (\<lambda>k. k\<lparr> sk_fd := fd, sk_connected := True \<rparr>) s;
               s = (if hk_enabled s then snd (FdMgr_get c fd True s) else s)
           in (True, keep_remote c p (keep_local c p (initSock c p s))))"

definition accept_done ::
  "('b, 'e, 'w, 'z) sock_calls \<Rightarrow> nat \<Rightarrow> int + int \<Rightarrow> ('u, 'e, 'w, 'z) sock_state \<Rightarrow> nat option \<times> ('u, 'e, 'w, 'z) sock_state" where
  "accept_done c p r s =
     (let (fd, s) = c_result r s
      in if fd = - 1 then (None, s)
         else let k = the_sock p s;
                  (q, s) = Socket_new (sk_family k) (sk_type k) (sk_protocol k) s;
                  (ok, s) = Socket_init c fd q s
              in if ok then (Some q, s)
                 else (None, let (r, s) = hook_close (c_os c) (c_orig c) (c_ctl c) fd s in snd (c_result r s)))"

definition Socket_accept ::
  "('b, 'e, 'w, 'z) sock_calls \<Rightarrow> nat \<times> u32 \<Rightarrow> ('u, 'e, 'w, 'z) sock_env list \<Rightarrow> nat \<Rightarrow> ('u, 'e, 'w, 'z) sock_state \<Rightarrow>
   (nat option, ('u, 'e, 'w, 'z) sock_state) turn option" where
  "Socket_accept c current envs p s =
     (let fd = sk_fd (the_sock p s)
      in if fd = - 1 then Some (Done None (set_errno E_BADF s))
         else after (hook_accept (c_os c) (c_orig c) (c_ctl c) fd NoAddress current envs s) (accept_done c p))"

text \<open>The file of a Unix address that an earlier process left; the path ends at its first zero byte.\<close>

definition unlink_stale :: "('b, 'e, 'w, 'z) sock_calls \<Rightarrow> address \<Rightarrow> ('u, 'e, 'w, 'z) sock_env" where
  "unlink_stale c a s =
     (case a of
        UnixAddress b len path \<Rightarrow>
          let sun_path = drop SUN_OFFSET b
          in if hd sun_path \<noteq> 0
             then let (r, s) = on_kernel (unlink_f c (takeWhile (\<lambda>x. x \<noteq> 0) sun_path)) s in snd (c_result r s)
             else s
      | _ \<Rightarrow> s)"

definition Socket_bind ::
  "('b, 'e, 'w, 'z) sock_calls \<Rightarrow> address option \<Rightarrow> nat \<Rightarrow> ('u, 'e, 'w, 'z) sock_state \<Rightarrow> bool \<times> ('u, 'e, 'w, 'z) sock_state" where
  "Socket_bind c address p s =
     (case address of
        None \<Rightarrow> (False, set_errno E_AFNOSUPPORT s)
      | Some a \<Rightarrow>
          if getFamily a \<noteq> sk_family (the_sock p s) then (False, set_errno E_AFNOSUPPORT s)
          else let s = newSock c p s
               in if sk_fd (the_sock p s) = - 1 then (False, s)
                  else let s = (if sk_family (the_sock p s) = AF_UNIX then unlink_stale c a s else s);
                           (r, s) = on_kernel (bind_f c (sk_fd (the_sock p s)) (getAddr a) (getAddrLen a)) s;
                           (v, s) = c_result r s
                       in if v \<noteq> 0 then (False, s) else (True, keep_local c p s))"

definition Socket_listen ::
  "('b, 'e, 'w, 'z) sock_calls \<Rightarrow> int \<Rightarrow> nat \<Rightarrow> ('u, 'e, 'w, 'z) sock_state \<Rightarrow> bool \<times> ('u, 'e, 'w, 'z) sock_state" where
  "Socket_listen c backlog p s =
     (let fd = sk_fd (the_sock p s)
      in if fd = - 1 then (False, set_errno E_BADF s)
         else let (r, s) = on_kernel (listen_f c fd backlog) s; (v, s) = c_result r s in (v = 0, s))"

definition connect_done ::
  "('b, 'e, 'w, 'z) sock_calls \<Rightarrow> nat \<Rightarrow> int + int \<Rightarrow> ('u, 'e, 'w, 'z) sock_state \<Rightarrow> bool \<times> ('u, 'e, 'w, 'z) sock_state" where
  "connect_done c p r s =
     (let (v, s) = c_result r s
      in if v \<noteq> 0 then (False, snd (Socket_close c p s))
         else (True, keep_local c p (keep_remote c p (on_sock p (sk_connected_update (\<lambda>_. True)) s))))"

definition Socket_connect ::
  "('b, 'e, 'w, 'z) sock_calls \<Rightarrow> address option \<Rightarrow> u64 \<Rightarrow> nat \<times> u32 \<Rightarrow> ('u, 'e, 'w, 'z) sock_env list \<Rightarrow> nat \<Rightarrow>
   ('u, 'e, 'w, 'z) sock_state \<Rightarrow> (bool, ('u, 'e, 'w, 'z) sock_state) turn option" where
  "Socket_connect c address timeout_ms current envs p s =
     (case address of
        None \<Rightarrow> Some (Done False (set_errno E_INVAL s))
      | Some a \<Rightarrow>
          let s = on_sock p (sk_remote_update (\<lambda>_. Some a)) s
          in if getFamily a \<noteq> sk_family (the_sock p s) then Some (Done False (set_errno E_AFNOSUPPORT s))
             else let s = newSock c p s
                  in if sk_fd (the_sock p s) = - 1 then Some (Done False s)
                     else after (Some (connect_with_timeout (c_os c) (c_orig c) (c_ctl c) (sk_fd (the_sock p s))
                                   (ToAddress (getAddr a) (getAddrLen a)) timeout_ms current envs s))
                            (connect_done c p))"

definition Socket_reconnect ::
  "('b, 'e, 'w, 'z) sock_calls \<Rightarrow> u64 \<Rightarrow> nat \<times> u32 \<Rightarrow> ('u, 'e, 'w, 'z) sock_env list \<Rightarrow> nat \<Rightarrow>
   ('u, 'e, 'w, 'z) sock_state \<Rightarrow> (bool, ('u, 'e, 'w, 'z) sock_state) turn option" where
  "Socket_reconnect c timeout_ms current envs p s =
     (case sk_remote (the_sock p s) of
        None \<Rightarrow> Some (Done False (set_errno E_NOTCONN s))
      | Some a \<Rightarrow>
          Socket_connect c (Some a) timeout_ms current envs p
            (on_sock p (\<lambda>k. k\<lparr> sk_local := None, sk_connected := False \<rparr>) s))"

section \<open>Sending and receiving\<close>

text \<open>The methods that check for null set errno; the plain \<open>send\<close> and \<open>recv\<close> on a closed socket do
  not.  The vectors, and the addresses of \<open>sendTo\<close> and \<open>recvFrom\<close>, may be null.\<close>

definition Socket_send ::
  "('b, 'e, 'w, 'z) sock_calls \<Rightarrow> 'b \<Rightarrow> u32 \<Rightarrow> nat \<times> u32 \<Rightarrow> ('u, 'e, 'w, 'z) sock_env list \<Rightarrow> nat \<Rightarrow>
   ('u, 'e, 'w, 'z) sock_state \<Rightarrow> (int, ('u, 'e, 'w, 'z) sock_state) turn option" where
  "Socket_send c buffer flags current envs p s =
     (let fd = sk_fd (the_sock p s)
      in if fd = - 1 then Some (Done (- 1) s)
         else after (hook_send (c_os c) (c_orig c) (c_ctl c) fd (Buffers buffer) flags current envs s) c_result)"

definition Socket_send_vector ::
  "('b, 'e, 'w, 'z) sock_calls \<Rightarrow> 'b option \<Rightarrow> u32 \<Rightarrow> nat \<times> u32 \<Rightarrow> ('u, 'e, 'w, 'z) sock_env list \<Rightarrow> nat \<Rightarrow>
   ('u, 'e, 'w, 'z) sock_state \<Rightarrow> (int, ('u, 'e, 'w, 'z) sock_state) turn option" where
  "Socket_send_vector c buffers flags current envs p s =
     (let fd = sk_fd (the_sock p s)
      in case buffers of
           Some b \<Rightarrow>
             if fd = - 1 then Some (Done (- 1) (set_errno E_BADF s))
             else after (hook_sendmsg (c_os c) (c_orig c) (c_ctl c) fd (Buffers b) flags current envs s) c_result
         | None \<Rightarrow> Some (Done (- 1) (set_errno E_BADF s)))"

definition Socket_sendTo ::
  "('b, 'e, 'w, 'z) sock_calls \<Rightarrow> 'b \<Rightarrow> address option \<Rightarrow> u32 \<Rightarrow> nat \<times> u32 \<Rightarrow> ('u, 'e, 'w, 'z) sock_env list \<Rightarrow> nat \<Rightarrow>
   ('u, 'e, 'w, 'z) sock_state \<Rightarrow> (int, ('u, 'e, 'w, 'z) sock_state) turn option" where
  "Socket_sendTo c buffer to flags current envs p s =
     (let fd = sk_fd (the_sock p s)
      in case to of
           Some a \<Rightarrow>
             if fd = - 1 then Some (Done (- 1) (set_errno E_BADF s))
             else after (hook_sendto (c_os c) (c_orig c) (c_ctl c) fd (BuffersTo buffer (getAddr a) (getAddrLen a))
                           flags current envs s) c_result
         | None \<Rightarrow> Some (Done (- 1) (set_errno E_BADF s)))"

definition Socket_sendTo_vector ::
  "('b, 'e, 'w, 'z) sock_calls \<Rightarrow> 'b option \<Rightarrow> address option \<Rightarrow> u32 \<Rightarrow> nat \<times> u32 \<Rightarrow> ('u, 'e, 'w, 'z) sock_env list \<Rightarrow> nat \<Rightarrow>
   ('u, 'e, 'w, 'z) sock_state \<Rightarrow> (int, ('u, 'e, 'w, 'z) sock_state) turn option" where
  "Socket_sendTo_vector c buffers to flags current envs p s =
     (let fd = sk_fd (the_sock p s)
      in case (buffers, to) of
           (Some b, Some a) \<Rightarrow>
             if fd = - 1 then Some (Done (- 1) (set_errno E_BADF s))
             else after (hook_sendmsg (c_os c) (c_orig c) (c_ctl c) fd (BuffersTo b (getAddr a) (getAddrLen a))
                           flags current envs s) c_result
         | _ \<Rightarrow> Some (Done (- 1) (set_errno E_BADF s)))"

definition Socket_recv ::
  "('b, 'e, 'w, 'z) sock_calls \<Rightarrow> 'b \<Rightarrow> u32 \<Rightarrow> nat \<times> u32 \<Rightarrow> ('u, 'e, 'w, 'z) sock_env list \<Rightarrow> nat \<Rightarrow>
   ('u, 'e, 'w, 'z) sock_state \<Rightarrow> (int, ('u, 'e, 'w, 'z) sock_state) turn option" where
  "Socket_recv c buffer flags current envs p s =
     (let fd = sk_fd (the_sock p s)
      in if fd = - 1 then Some (Done (- 1) s)
         else after (hook_recv (c_os c) (c_orig c) (c_ctl c) fd (Buffers buffer) flags current envs s) c_result)"

definition Socket_recv_vector ::
  "('b, 'e, 'w, 'z) sock_calls \<Rightarrow> 'b option \<Rightarrow> u32 \<Rightarrow> nat \<times> u32 \<Rightarrow> ('u, 'e, 'w, 'z) sock_env list \<Rightarrow> nat \<Rightarrow>
   ('u, 'e, 'w, 'z) sock_state \<Rightarrow> (int, ('u, 'e, 'w, 'z) sock_state) turn option" where
  "Socket_recv_vector c buffers flags current envs p s =
     (let fd = sk_fd (the_sock p s)
      in case buffers of
           Some b \<Rightarrow>
             if fd = - 1 then Some (Done (- 1) (set_errno E_BADF s))
             else after (hook_recvmsg (c_os c) (c_orig c) (c_ctl c) fd (Buffers b) flags current envs s) c_result
         | None \<Rightarrow> Some (Done (- 1) (set_errno E_BADF s)))"

text \<open>\<open>from\<close> is the address object: its storage and its value.\<close>

definition Socket_recvFrom ::
  "('b, 'e, 'w, 'z) sock_calls \<Rightarrow> 'b \<Rightarrow> ('b \<times> address) option \<Rightarrow> u32 \<Rightarrow> nat \<times> u32 \<Rightarrow> ('u, 'e, 'w, 'z) sock_env list \<Rightarrow> nat \<Rightarrow>
   ('u, 'e, 'w, 'z) sock_state \<Rightarrow> (int, ('u, 'e, 'w, 'z) sock_state) turn option" where
  "Socket_recvFrom c buffer sender flags current envs p s =
     (let fd = sk_fd (the_sock p s)
      in case sender of
           Some (at, a) \<Rightarrow>
             if fd = - 1 then Some (Done (- 1) (set_errno E_BADF s))
             else after (hook_recvfrom (c_os c) (c_orig c) (c_ctl c) fd (BuffersFrom buffer at (getAddrLen a))
                           flags current envs s) c_result
         | None \<Rightarrow> Some (Done (- 1) (set_errno E_BADF s)))"

definition Socket_recvFrom_vector ::
  "('b, 'e, 'w, 'z) sock_calls \<Rightarrow> 'b option \<Rightarrow> ('b \<times> address) option \<Rightarrow> u32 \<Rightarrow> nat \<times> u32 \<Rightarrow> ('u, 'e, 'w, 'z) sock_env list \<Rightarrow> nat \<Rightarrow>
   ('u, 'e, 'w, 'z) sock_state \<Rightarrow> (int, ('u, 'e, 'w, 'z) sock_state) turn option" where
  "Socket_recvFrom_vector c buffers sender flags current envs p s =
     (let fd = sk_fd (the_sock p s)
      in case (buffers, sender) of
           (Some b, Some (at, a)) \<Rightarrow>
             if fd = - 1 then Some (Done (- 1) (set_errno E_BADF s))
             else after (hook_recvmsg (c_os c) (c_orig c) (c_ctl c) fd (BuffersFrom b at (getAddrLen a))
                           flags current envs s) c_result
         | _ \<Rightarrow> Some (Done (- 1) (set_errno E_BADF s)))"

section \<open>Cancelling and printing\<close>

text \<open>\<open>IOManager::GetThis()\<close> is the IO manager of the thread.\<close>

definition cancel_on ::
  "(('u, 'e) hook_iom \<Rightarrow> errno option \<times> ('u, 'e) hook_iom) \<Rightarrow> ('u, 'e, 'w, 'z) sock_state \<Rightarrow> bool \<times> ('u, 'e, 'w, 'z) sock_state" where
  "cancel_on cancel s =
     (case hk_iom s of
        None \<Rightarrow> (False, s)
      | Some iom \<Rightarrow>
          let (e, iom) = cancel iom; s = s\<lparr> hk_iom := Some iom \<rparr>
          in (case e of None \<Rightarrow> (True, s) | Some e \<Rightarrow> (False, set_errno (errno_of e) s)))"

definition cancelRead ::
  "('b, 'e, 'w, 'z) sock_calls \<Rightarrow> nat \<Rightarrow> ('u, 'e, 'w, 'z) sock_state \<Rightarrow> bool \<times> ('u, 'e, 'w, 'z) sock_state" where
  "cancelRead c p s = cancel_on (cancelEvent (c_ctl c) (sk_fd (the_sock p s)) READ) s"

definition cancelWrite ::
  "('b, 'e, 'w, 'z) sock_calls \<Rightarrow> nat \<Rightarrow> ('u, 'e, 'w, 'z) sock_state \<Rightarrow> bool \<times> ('u, 'e, 'w, 'z) sock_state" where
  "cancelWrite c p s = cancel_on (cancelEvent (c_ctl c) (sk_fd (the_sock p s)) WRITE) s"

definition cancelAccept ::
  "('b, 'e, 'w, 'z) sock_calls \<Rightarrow> nat \<Rightarrow> ('u, 'e, 'w, 'z) sock_state \<Rightarrow> bool \<times> ('u, 'e, 'w, 'z) sock_state" where
  "cancelAccept = cancelRead"

definition socket_cancelAll ::
  "('b, 'e, 'w, 'z) sock_calls \<Rightarrow> nat \<Rightarrow> ('u, 'e, 'w, 'z) sock_state \<Rightarrow> bool \<times> ('u, 'e, 'w, 'z) sock_state" where
  "socket_cancelAll c p s = cancel_on (cancelAll (c_ctl c) (sk_fd (the_sock p s))) s"

text \<open>\<open>ntop\<close> is \<open>inet_ntop\<close>.\<close>

definition socket_dump :: "(int \<Rightarrow> bytes \<Rightarrow> string option) \<Rightarrow> socket \<Rightarrow> string" where
  "socket_dump ntop k =
     ''[Socket fd='' @ show_int (sk_fd k) @ '' connected='' @ (if sk_connected k then ''1'' else ''0'') @
     '' family='' @ show_int (sk_family k) @ '' type='' @ show_int (sint (sk_type k)) @
     '' protocol='' @ show_int (sk_protocol k) @
     (case sk_local k of None \<Rightarrow> [] | Some a \<Rightarrow> '' local='' @ address_insert ntop a) @
     (case sk_remote k of None \<Rightarrow> [] | Some a \<Rightarrow> '' remote='' @ address_insert ntop a) @ '']''"

section \<open>What the hooks keep\<close>

text \<open>A property \<open>I\<close> of the memory that every call and the rest of the program keep is kept by a
  waiting call, and its value has the property \<open>J\<close> that the real call gives it.\<close>

definition keeps_os :: "('k \<Rightarrow> bool) \<Rightarrow> 'k os \<Rightarrow> bool" where
  "keeps_os I os \<longleftrightarrow> (\<forall>fd flags k. I k \<longrightarrow> I (snd (os_setfl os fd flags k)))"

definition keeps_call :: "('k \<Rightarrow> bool) \<Rightarrow> (int \<Rightarrow> 'k \<Rightarrow> bool) \<Rightarrow> 'k sys_call \<Rightarrow> bool" where
  "keeps_call I J f \<longleftrightarrow> (\<forall>k. I k \<longrightarrow> I (snd (f k)) \<and> (\<forall>v. fst (f k) = Inr v \<longrightarrow> J v (snd (f k))))"

definition keeps_env :: "('k \<Rightarrow> bool) \<Rightarrow> ('u, 'e, 'k) hook_env \<Rightarrow> bool" where
  "keeps_env I env \<longleftrightarrow> (\<forall>s. I (hk_kernel s) \<longrightarrow> I (hk_kernel (env s)))"

fun turn_keeps :: "('k \<Rightarrow> bool) \<Rightarrow> (int \<Rightarrow> 'k \<Rightarrow> bool) \<Rightarrow> ('u, 'e, 'k) hook_state io_turn \<Rightarrow> bool" where
  "turn_keeps I J (Returned r s) \<longleftrightarrow> I (hk_kernel s) \<and> (\<forall>v. r = Inr v \<longrightarrow> J v (hk_kernel s))"
| "turn_keeps I J (Held t s) \<longleftrightarrow> I (hk_kernel s)"

lemma FdCtx_kept: "keeps_os I os \<Longrightarrow> I k \<Longrightarrow> I (snd (FdCtx os fd k))"
  by (auto simp: FdCtx_def fd_init_def init_nonblock_def keeps_os_def Let_def split: option.splits prod.splits)
    (metis snd_conv)+

lemma FdManager_get_kept: "keeps_os I os \<Longrightarrow> I k \<Longrightarrow> I (snd (snd (FdManager_get os fd b m k)))"
  using FdCtx_kept [of I os k fd] by (auto simp: FdManager_get_def Let_def split: prod.splits)

lemma hk_get_kept: "keeps_os I os \<Longrightarrow> I (hk_kernel s) \<Longrightarrow> I (hk_kernel (snd (hk_get os fd b s)))"
  using FdManager_get_kept [of I os "hk_kernel s" fd b "hk_fds s"] by (auto simp: hk_get_def split: prod.splits)

lemma hk_get_frame: "hk_get os fd b s = (r, s') \<Longrightarrow> hk_enabled s' = hk_enabled s \<and> hk_iom s' = hk_iom s \<and> hk_infos s' = hk_infos s"
  by (auto simp: hk_get_def split: prod.splits)

lemma on_kernel_kept: "keeps_call I J f \<Longrightarrow> I (hk_kernel s) \<Longrightarrow> turn_keeps I J (case_prod Returned (on_kernel f s))"
  by (auto simp: keeps_call_def on_kernel_def Let_def split: prod.splits)

lemma call_retry_kept:
  assumes "call_retry f k = Some r" and "keeps_call I J f" and "I k"
  shows "I (snd r) \<and> (\<forall>v. fst r = Inr v \<longrightarrow> J v (snd r))"
proof -
  have "keeps_call I J f \<longrightarrow> I k \<longrightarrow> I (snd r) \<and> (\<forall>v. fst r = Inr v \<longrightarrow> J v (snd r))"
  proof (rule call_retry.raw_induct [OF _ assms(1), where P = "\<lambda>f k r. keeps_call I J f \<longrightarrow> I k \<longrightarrow> I (snd r) \<and> (\<forall>v. fst r = Inr v \<longrightarrow> J v (snd r))"])
    fix retry :: "'a sys_call \<Rightarrow> 'a \<Rightarrow> ((int + int) \<times> 'a) option" and f k r
    assume "\<And>f k r. retry f k = Some r \<Longrightarrow> keeps_call I J f \<longrightarrow> I k \<longrightarrow> I (snd r) \<and> (\<forall>v. fst r = Inr v \<longrightarrow> J v (snd r))"
      and "(if fst (f k) = Inl E_INTR then retry f (snd (f k)) else Some (f k)) = Some r"
    then show "keeps_call I J f \<longrightarrow> I k \<longrightarrow> I (snd r) \<and> (\<forall>v. fst r = Inr v \<longrightarrow> J v (snd r))"
      by (auto simp: keeps_call_def split: if_splits)
  qed
  with assms show ?thesis by blast
qed

lemma wait_event_kept: "I (hk_kernel s) \<Longrightarrow> turn_keeps I J (wait_event ctl current fd event timed timeout info iom s)"
  using wait_event_keeps [where s = s and ctl = ctl and current = current and fd = fd and event = event and timed = timed
    and timeout = timeout and info = info and iom = iom, OF refl]
  by (auto split: io_turn.splits)

lemma do_io_turn_kept:
  assumes "keeps_call I J f" and "I (hk_kernel s)" and "do_io_turn ctl f fd event timeout p info current s = Some t"
  shows "turn_keeps I J t"
proof (cases "fd_closed (hk_ctx s p)")
  case True
  then show ?thesis using assms by (auto simp: do_io_turn_def)
next
  case False
  then obtain v k where c: "call_retry f (hk_kernel s) = Some (v, k)"
    using assms(3) by (auto simp: do_io_turn_def split: option.splits)
  note k = call_retry_kept [OF c assms(1,2)]
  then have "turn_keeps I J (wait_event ctl current fd event timed ms info iom (s\<lparr> hk_kernel := k \<rparr>))" for timed ms iom
    by (intro wait_event_kept) simp
  then show ?thesis using assms(3) False c k by (auto simp: do_io_turn_def Let_def split: if_splits option.splits)
qed

lemma do_io_loop_kept:
  assumes f: "keeps_call I J f" and "\<forall>env \<in> set envs. keeps_env I env" and "I (hk_kernel s)"
    and "do_io_loop (do_io_turn ctl f fd event timeout p info current) info envs s = Some t"
  shows "turn_keeps I J t"
  using assms(2-)
proof (induction envs arbitrary: s)
  case Nil
  then show ?case using do_io_turn_kept [OF f] by simp
next
  case (Cons env envs)
  obtain u where u: "do_io_turn ctl f fd event timeout p info current s = Some u"
    using Cons.prems(3) by (auto split: option.splits)
  note k = do_io_turn_kept [OF f Cons.prems(2) u]
  show ?case
  proof (cases u)
    case (Returned r s')
    then show ?thesis using Cons.prems(3) u k by simp
  next
    case (Held timer s')
    then have "I (hk_kernel (env s'))" using k Cons.prems(1) by (simp add: keeps_env_def)
    then have e: "I (hk_kernel (snd (wait_over timer info (env s'))))" by (simp add: cancel_wait_timer_keeps)
    obtain x s2 where w: "wait_over timer info (env s') = (x, s2)" by fastforce
    then show ?thesis
    proof (cases x)
      case None
      then have "do_io_loop (do_io_turn ctl f fd event timeout p info current) info envs s2 = Some t"
        using Cons.prems(3) u Held w by simp
      then show ?thesis using Cons.IH [of s2] Cons.prems(1) e w by simp
    qed (use Cons.prems(3) u Held w e in auto)
  qed
qed

lemma drop_info_kept [simp]: "turn_keeps I J (drop_info info t) = turn_keeps I J t"
  by (cases t) (simp_all add: drop_info_def)

lemma DoIo_kept:
  assumes os: "keeps_os I os" and f: "\<And>g. f = Some g \<Longrightarrow> keeps_call I J g" and envs: "\<forall>env \<in> set envs. keeps_env I env"
    and i: "I (hk_kernel s)" and t: "DoIo os ctl fd f event opt current envs s = Some t"
  shows "turn_keeps I J t"
proof (cases f)
  case None
  then show ?thesis using i t by (auto simp: DoIo_def)
next
  case (Some g)
  note g = f [OF Some] and case_prod_unfold [simp]
  obtain x s1 where h: "hk_get os fd True s = (x, s1)" by fastforce
  then have i1: "I (hk_kernel s1)" using hk_get_kept [OF os i, of fd True] by simp
  have k: "turn_keeps I J (case_prod Returned (on_kernel g s))" "turn_keeps I J (case_prod Returned (on_kernel g s1))"
    using on_kernel_kept [OF g] i i1 by blast+
  show ?thesis
  proof (cases "hk_enabled s \<and> x \<noteq> None")
    case False
    then show ?thesis using t Some h k by (auto simp: DoIo_def split: if_splits)
  next
    case True
    then obtain p where p: "hk_enabled s" "x = Some p" by auto
    have l: "turn_keeps I J u" if "do_io_loop (do_io_turn ctl g fd event timeout p info current) info envs
        (s1\<lparr> hk_infos := is \<rparr>) = Some u" for u timeout info "is"
      using do_io_loop_kept [OF g envs _ that] i1 by simp
    show ?thesis using t Some h p k l i1
      by (auto simp: DoIo_def Let_def new_info_def split: if_splits)
  qed
qed

lemma flagged_io_kept:
  assumes "keeps_os I os" and "\<And>g. f = Some g \<Longrightarrow> keeps_call I J (g fd args flags)" and "\<forall>env \<in> set envs. keeps_env I env"
    and "I (hk_kernel s)" and "flagged_io os ctl fd f event opt args flags current envs s = Some t" and "f \<noteq> None"
  shows "turn_keeps I J t"
  using assms DoIo_kept [OF assms(1) _ assms(3,4), of "map_option (\<lambda>g. g fd args flags) f" J ctl fd event opt current t]
    on_kernel_kept [of I J "the f fd args flags" s]
  by (auto simp: flagged_io_def split: if_splits)

lemma hook_accept_kept:
  assumes os: "keeps_os (\<lambda>k. I k) os" "\<And>v. keeps_os (J v) os" and f: "\<And>g. accept_f orig = Some g \<Longrightarrow> keeps_call I J (g fd args)"
    and envs: "\<forall>env \<in> set envs. keeps_env I env" and i: "I (hk_kernel s)"
    and t: "hook_accept os orig ctl fd args current envs s = Some t"
  shows "turn_keeps I J t"
proof -
  obtain u where u: "DoIo os ctl fd (map_option (\<lambda>g. g fd args) (accept_f orig)) READ SO_RCVTIMEO current envs s = Some u"
    "t = accepted (\<lambda>fd s. snd (hk_get os fd True s)) u" using t by (auto simp: hook_accept_def)
  have "turn_keeps I J u" by (rule DoIo_kept [OF os(1) _ envs i u(1)]) (use f in auto)
  then show ?thesis unfolding u(2) using hk_get_kept [OF os(1)] hk_get_kept [OF os(2)]
    by (cases u) (auto simp: accepted_def split: sum.splits)
qed

lemma connect_kept:
  fixes s :: "('u, 'e, 'k) hook_state"
  assumes os: "keeps_os I os" and f: "keeps_call I J (connect_f orig fd a)" "keeps_call I (\<lambda>_ _. True) (getsockopt_f orig fd SOL_SOCKET SO_ERROR)"
    and j: "\<And>k. I k \<Longrightarrow> J 0 k"
    and envs: "\<forall>env \<in> set envs. keeps_env I env" and i: "I (hk_kernel s)"
  shows "turn_keeps I J (connect_with_timeout os orig ctl fd a timeout current envs s)"
proof -
  obtain x s1 where h: "hk_get os fd True s = (x, s1)" by fastforce
  then have i1: "I (hk_kernel s1)" using hk_get_kept [OF os i, of fd True] by simp
  have r: "turn_keeps I J (case_prod Returned (connect_result orig fd p s'))" if "I (hk_kernel s')" for s' :: "('u, 'e, 'k) hook_state" and p
    using that f(2) j by (auto simp: connect_result_def on_kernel_def keeps_call_def Let_def split: prod.splits sum.splits)
  have w: "turn_keeps I J (case wait_event ctl current fd WRITE timed timeout info iom s' of
      Returned v s \<Rightarrow> Returned v s
    | Held timer s \<Rightarrow> (case envs of [] \<Rightarrow> Held timer s
      | env # _ \<Rightarrow> (case wait_over timer info (env s) of (Some e, s) \<Rightarrow> Returned (Inl e) s
         | (None, s) \<Rightarrow> case_prod Returned (connect_result orig fd p s))))" if "I (hk_kernel s')" for timed info iom p and s' :: "('u, 'e, 'k) hook_state"
  proof (cases "wait_event ctl current fd WRITE timed timeout info iom s'")
    case (Returned v s2)
    then show ?thesis using wait_event_kept [of I s' J ctl current fd WRITE timed timeout info iom] that by simp
  next
    case (Held timer s2)
    then have k: "I (hk_kernel s2)" using wait_event_kept [of I s' J ctl current fd WRITE timed timeout info iom] that by simp
    show ?thesis
    proof (cases envs)
      case (Cons env rest)
      then have "I (hk_kernel (env s2))" using k envs by (simp add: keeps_env_def)
      then have "I (hk_kernel (snd (wait_over timer info (env s2))))" by (simp add: cancel_wait_timer_keeps)
      then show ?thesis using Held Cons r by (cases "wait_over timer info (env s2)") (auto split: option.splits)
    qed (use Held k in simp)
  qed
  have o: "turn_keeps I J (case_prod Returned (on_kernel (connect_f orig fd a) s'))" if "I (hk_kernel s')" for s' :: "('u, 'e, 'k) hook_state"
    by (rule on_kernel_kept [OF f(1) that])
  show ?thesis
  proof (cases "hk_enabled s \<and> x \<noteq> None")
    case False
    then show ?thesis using h o [OF i] o [OF i1] by (auto simp: connect_with_timeout_def)
  next
    case True
    then obtain p where p: "hk_enabled s" "x = Some p" by auto
    obtain v s2 where v: "on_kernel (connect_f orig fd a) s1 = (v, s2)" by fastforce
    then have "turn_keeps I J (Returned v s2)" using o [OF i1] by simp
    then have "I (hk_kernel s2)" "turn_keeps I J (Returned v s2)" by simp_all
    then show ?thesis using h p v i1 w [where s' = "s2\<lparr> hk_infos := hk_infos s2 @ [Some 0] \<rparr>"]
      by (auto simp: connect_with_timeout_def new_info_def Let_def)
  qed
qed

section \<open>Steps\<close>

text \<open>Most of an operation on the object \<open>p\<close> is made of calls that neither open nor close a descriptor, of
  errno, and of updates of the object that leave its descriptor.  A relation between memories that
  holds across each of these holds across every operation made of them.\<close>

inductive_set plain_calls :: "('b, 'e, 'w, 'z) sock_calls \<Rightarrow> (('w, 'z) memory_scheme \<Rightarrow> ('w, 'z) memory_scheme) set"
  for c :: "('b, 'e, 'w, 'z) sock_calls" where
  setfl: "(\<lambda>k. snd (os_setfl (c_os c) fd flags k)) \<in> plain_calls c"
| setsockopt: "(\<lambda>k. snd (setsockopt_f (c_orig c) fd l opt v n k)) \<in> plain_calls c"
| getsockopt: "(\<lambda>k. snd (getsockopt_f (c_orig c) fd l opt k)) \<in> plain_calls c"
| bound: "(\<lambda>k. snd (bind_f c fd b n k)) \<in> plain_calls c"
| listening: "(\<lambda>k. snd (listen_f c fd n k)) \<in> plain_calls c"
| unlinked: "(\<lambda>k. snd (unlink_f c b k)) \<in> plain_calls c"
| sockname: "(\<lambda>k. snd (getsockname_f c fd k)) \<in> plain_calls c"
| peername: "(\<lambda>k. snd (getpeername_f c fd k)) \<in> plain_calls c"
| timeo: "(\<lambda>k. snd (gettimeo_f c fd opt k)) \<in> plain_calls c"

definition steps ::
  "(('w, 'z) memory_scheme \<Rightarrow> ('w, 'z) memory_scheme \<Rightarrow> bool) \<Rightarrow> ('b, 'e, 'w, 'z) sock_calls \<Rightarrow> nat \<Rightarrow> bool" where
  "steps R c p \<longleftrightarrow>
     (\<forall>k. R k k) \<and> (\<forall>k1 k2 k3. R k1 k2 \<longrightarrow> R k2 k3 \<longrightarrow> R k1 k3) \<and> (\<forall>k e. R k (k\<lparr> mm_errno := e \<rparr>)) \<and>
     (\<forall>k f. (\<forall>x. sk_fd (f x) = sk_fd x) \<longrightarrow> R k (k\<lparr> mm_sockets := (mm_sockets k)[p := f (mm_sockets k ! p)] \<rparr>)) \<and>
     (\<forall>g \<in> plain_calls c. \<forall>k. R k (g k))"

lemma step_refl: "steps R c p \<Longrightarrow> R k k"
  by (simp add: steps_def)

lemma step_trans: "steps R c p \<Longrightarrow> R k1 k2 \<Longrightarrow> R k2 k3 \<Longrightarrow> R k1 k3"
  unfolding steps_def by blast

lemma errno_step: "steps R c p \<Longrightarrow> R (hk_kernel s) (hk_kernel (set_errno e s))"
  by (simp add: steps_def set_errno_def)

lemma c_result_step: "steps R c p \<Longrightarrow> R (hk_kernel s) (hk_kernel (snd (c_result r s)))"
  by (cases r) (simp_all add: c_result_def errno_step step_refl)

lemma on_sock_step: "steps R c p \<Longrightarrow> (\<And>x. sk_fd (f x) = sk_fd x) \<Longrightarrow> R (hk_kernel s) (hk_kernel (on_sock p f s))"
  by (simp add: steps_def on_sock_def the_sock_def)

lemma plain_step: "steps R c p \<Longrightarrow> (\<lambda>k. snd (f k)) \<in> plain_calls c \<Longrightarrow> R k (snd (f k))"
  unfolding steps_def by fastforce

lemma call_step: "steps R c p \<Longrightarrow> (\<lambda>k. snd (f k)) \<in> plain_calls c \<Longrightarrow> R (hk_kernel s) (hk_kernel (snd (on_kernel f s)))"
  using plain_step [of R c p f "hk_kernel s"] by (simp add: on_kernel_def Let_def case_prod_unfold)

lemma c_call_step:
  assumes "steps R c p" and "(\<lambda>k. snd (f k)) \<in> plain_calls c"
  shows "R (hk_kernel s) (hk_kernel (snd (c_result (fst (on_kernel f s)) (snd (on_kernel f s)))))"
  by (rule step_trans [OF assms(1) call_step [OF assms] c_result_step [OF assms(1)]])

lemma keeps_os_step: "steps R c p \<Longrightarrow> keeps_os (R k) (c_os c)"
proof (unfold keeps_os_def, intro allI impI)
  fix fd flags k'
  assume st: "steps R c p" and k: "R k k'"
  have "(\<lambda>k. snd (os_setfl (c_os c) fd flags k)) \<in> plain_calls c" by (rule plain_calls.intros)
  from step_trans [OF st k plain_step [OF st this]] show "R k (snd (os_setfl (c_os c) fd flags k'))" .
qed

lemma hk_get_step: "steps R c p \<Longrightarrow> R (hk_kernel s) (hk_kernel (snd (hk_get (c_os c) fd b s)))"
  by (rule hk_get_kept [OF keeps_os_step step_refl])

lemma FdMgr_get_step: assumes "steps R c p" shows "R (hk_kernel s) (hk_kernel (snd (FdMgr_get c fd b s)))"
proof -
  obtain r m k where g: "FdManager_get (c_os c) fd b (hk_fds s) (hk_kernel s) = (r, m, k)" by (metis surj_pair)
  have "R (hk_kernel s) k"
    using FdManager_get_kept [OF keeps_os_step [OF assms] step_refl [OF assms], of "hk_kernel s" fd b "hk_fds s"] g by simp
  then have "R (hk_kernel s) (hk_kernel (s\<lparr> hk_fds := m, hk_kernel := k \<rparr>))" by simp
  from this step_trans [OF assms this errno_step [OF assms]] show ?thesis using g by (auto simp: FdMgr_get_def Let_def)
qed

lemma setsockopt_step:
  assumes "steps R c p"
  shows "R (hk_kernel s) (hk_kernel (snd (hook_setsockopt (c_os c) (c_orig c) fd level opt v n s)))"
proof -
  obtain r s1 where r: "on_kernel (setsockopt_f (c_orig c) fd level opt v n) s = (r, s1)" by fastforce
  have "(\<lambda>k. snd (setsockopt_f (c_orig c) fd level opt v n k)) \<in> plain_calls c" by (rule plain_calls.intros)
  then have one: "R (hk_kernel s) (hk_kernel s1)" using call_step [OF assms] r by (metis snd_conv)
  obtain x s2 where g: "hk_get (c_os c) fd False s1 = (x, s2)" by fastforce
  have "R (hk_kernel s) (hk_kernel s2)" using step_trans [OF assms one hk_get_step [OF assms, of s1 fd False]] g by simp
  then show ?thesis using one r g by (auto simp: hook_setsockopt_def split: option.splits)
qed

lemma setOption_step: assumes "steps R c p" shows "R (hk_kernel s) (hk_kernel (snd (setOption c level opt v n q s)))"
  using step_trans [OF assms setsockopt_step [OF assms, of s "sk_fd (the_sock q s)" level opt v n] c_result_step [OF assms]]
  by (auto simp: setOption_def Let_def step_refl [OF assms] case_prod_unfold)

lemma initSock_step: assumes "steps R c p" shows "R (hk_kernel s) (hk_kernel (initSock c q s))"
  unfolding initSock_def Let_def
  by (simp add: setOption_step [OF assms] step_trans [OF assms setOption_step [OF assms] setOption_step [OF assms]])

lemma named_address_step:
  assumes st: "steps R c p" and "\<And>fd. (\<lambda>k. snd (call fd k)) \<in> plain_calls c" and "\<And>a k. sk_fd (keep a k) = sk_fd k"
  shows "R (hk_kernel s) (hk_kernel (snd (named_address call kept keep p s)))"
proof -
  obtain r m where c: "call (sk_fd (the_sock p s)) (hk_kernel s) = (r, m)" by fastforce
  have one: "R (hk_kernel s) (hk_kernel (s\<lparr> hk_kernel := m \<rparr>))" using plain_step [OF st assms(2), of "hk_kernel s"] c by (metis hook_state.select_convs(5) hook_state.surjective hook_state.update_convs(5) snd_conv)
  have "R (hk_kernel s) (hk_kernel (set_errno e (s\<lparr> hk_kernel := m \<rparr>)))" for e by (rule step_trans [OF st one errno_step [OF st]])
  moreover have "R (hk_kernel s) (hk_kernel (on_sock p (keep a) (s\<lparr> hk_kernel := m \<rparr>)))" for a
    by (rule step_trans [OF st one on_sock_step [OF st]]) (rule assms(3))
  ultimately show ?thesis by (auto simp: named_address_def Let_def c step_refl [OF st] split: sum.splits)
qed

lemma getLocalAddress_step: "steps R c p \<Longrightarrow> R (hk_kernel s) (hk_kernel (snd (getLocalAddress c p s)))"
  unfolding getLocalAddress_def by (rule named_address_step) (assumption, rule plain_calls.intros, simp)

lemma getRemoteAddress_step: "steps R c p \<Longrightarrow> R (hk_kernel s) (hk_kernel (snd (getRemoteAddress c p s)))"
  unfolding getRemoteAddress_def by (rule named_address_step) (assumption, rule plain_calls.intros, simp)

lemma keep_local_step: "steps R c p \<Longrightarrow> R (hk_kernel s) (hk_kernel (keep_local c p s))"
  unfolding keep_local_def case_prod_unfold Let_def by (rule step_trans [OF _ getLocalAddress_step on_sock_step]) simp_all

lemma keep_remote_step: "steps R c p \<Longrightarrow> R (hk_kernel s) (hk_kernel (keep_remote c p s))"
  unfolding keep_remote_def case_prod_unfold Let_def by (rule step_trans [OF _ getRemoteAddress_step on_sock_step]) simp_all

lemma unlink_stale_step: assumes "steps R c p" shows "R (hk_kernel s) (hk_kernel (unlink_stale c a s))"
proof -
  have "(\<lambda>k. snd (unlink_f c b k)) \<in> plain_calls c" for b by (rule plain_calls.intros)
  from c_call_step [OF assms this] show ?thesis
    by (auto simp: unlink_stale_def Let_def case_prod_unfold step_refl [OF assms] split: address.splits)
qed

lemma listen_step: assumes "steps R c p" shows "R (hk_kernel s) (hk_kernel (snd (Socket_listen c n p s)))"
proof -
  have "(\<lambda>k. snd (listen_f c fd n k)) \<in> plain_calls c" for fd by (rule plain_calls.intros)
  from c_call_step [OF assms this, of s] errno_step [OF assms, of s] show ?thesis by (simp add: Socket_listen_def Let_def case_prod_unfold)
qed

text \<open>What follows the creation of the socket in \<open>bind\<close>.\<close>

lemma bind_rest_step:
  assumes st: "steps R c p" and b: "Socket_bind c (Some x) p s = (ok, s')" and f: "getFamily x = sk_family (the_sock p s)"
  shows "R (hk_kernel (newSock c p s)) (hk_kernel s') \<and> (ok \<longrightarrow> sk_fd (the_sock p (newSock c p s)) \<noteq> - 1)"
proof (cases "sk_fd (the_sock p (newSock c p s)) = - 1")
  case True
  then show ?thesis using b f by (auto simp: Socket_bind_def step_refl [OF st])
next
  case False
  let ?s = "newSock c p s"
  let ?t = "if sk_family (the_sock p ?s) = AF_UNIX then unlink_stale c x ?s else ?s"
  let ?f = "bind_f c (sk_fd (the_sock p ?t)) (getAddr x) (getAddrLen x)"
  let ?u = "c_result (fst (on_kernel ?f ?t)) (snd (on_kernel ?f ?t))"
  have t: "R (hk_kernel ?s) (hk_kernel ?t)" by (simp add: step_refl [OF st] unlink_stale_step [OF st])
  have "(\<lambda>k. snd (?f k)) \<in> plain_calls c" by (rule plain_calls.intros)
  from step_trans [OF st t c_call_step [OF st this]] have u: "R (hk_kernel ?s) (hk_kernel (snd ?u))" .
  from step_trans [OF st this keep_local_step [OF st]] have k: "R (hk_kernel ?s) (hk_kernel (keep_local c p (snd ?u)))" .
  have "s' = (if fst ?u \<noteq> 0 then snd ?u else keep_local c p (snd ?u))"
    using b f False by (simp add: Socket_bind_def Let_def case_prod_unfold split: if_splits)
  then show ?thesis using u k False by simp
qed

section \<open>Who owns a descriptor\<close>

text \<open>\<open>fds\<close> are the descriptors the kernel has open.  Every descriptor that a socket object holds is
  open, and no two objects hold the same.\<close>

definition held_fds :: "('w, 'z) memory_scheme \<Rightarrow> int list" where
  "held_fds k = filter (\<lambda>fd. fd \<noteq> - 1) (map sk_fd (mm_sockets k))"

definition exclusive :: "('w \<Rightarrow> int set) \<Rightarrow> ('w, 'z) memory_scheme \<Rightarrow> bool" where
  "exclusive fds k \<longleftrightarrow> distinct (held_fds k) \<and> set (held_fds k) \<subseteq> fds (mm_kernel k)"

text \<open>What one step may do: objects are only added, and the ownership is kept.\<close>

definition safe :: "('w \<Rightarrow> int set) \<Rightarrow> ('w, 'z) memory_scheme \<Rightarrow> ('w, 'z) memory_scheme \<Rightarrow> bool" where
  "safe fds k k' \<longleftrightarrow> length (mm_sockets k) \<le> length (mm_sockets k') \<and> (exclusive fds k \<longrightarrow> exclusive fds k')"

text \<open>The documented behaviour of the kernel: no call touches a socket object; only \<open>socket\<close> and
  \<open>accept\<close> open a descriptor, which was not open, and only \<open>close\<close> closes one, its argument.\<close>

definition quiet :: "('w \<Rightarrow> int set) \<Rightarrow> (('w, 'z) memory_scheme \<Rightarrow> 'r \<times> ('w, 'z) memory_scheme) \<Rightarrow> bool" where
  "quiet fds f \<longleftrightarrow> (\<forall>k. mm_sockets (snd (f k)) = mm_sockets k \<and> fds (mm_kernel (snd (f k))) = fds (mm_kernel k))"

definition opens :: "('w \<Rightarrow> int set) \<Rightarrow> ('w, 'z) memory_scheme sys_call \<Rightarrow> bool" where
  "opens fds f \<longleftrightarrow> (\<forall>k. mm_sockets (snd (f k)) = mm_sockets k \<and>
     (case fst (f k) of
        Inl e \<Rightarrow> fds (mm_kernel (snd (f k))) = fds (mm_kernel k)
      | Inr fd \<Rightarrow> 0 \<le> fd \<and> fd \<notin> fds (mm_kernel k) \<and> fds (mm_kernel (snd (f k))) = insert fd (fds (mm_kernel k))))"

definition closes :: "('w \<Rightarrow> int set) \<Rightarrow> int \<Rightarrow> ('w, 'z) memory_scheme sys_call \<Rightarrow> bool" where
  "closes fds fd f \<longleftrightarrow> (\<forall>k. mm_sockets (snd (f k)) = mm_sockets k \<and>
     fds (mm_kernel (snd (f k))) = fds (mm_kernel k) - {fd})"

definition quiet_opt :: "('w \<Rightarrow> int set) \<Rightarrow> (int \<Rightarrow> 'a \<Rightarrow> u32 \<Rightarrow> ('w, 'z) memory_scheme sys_call) option \<Rightarrow> bool" where
  "quiet_opt fds f \<longleftrightarrow> f \<noteq> None \<and> (\<forall>fd a flags. quiet fds (the f fd a flags))"

definition kernel_laws :: "('w \<Rightarrow> int set) \<Rightarrow> ('b, 'e, 'w, 'z) sock_calls \<Rightarrow> bool" where
  "kernel_laws fds c \<longleftrightarrow>
     (\<forall>fd flags. quiet fds (os_setfl (c_os c) fd flags)) \<and>
     (\<forall>a b d. opens fds (socket_f (c_orig c) a b d)) \<and>
     (\<forall>g fd a. accept_f (c_orig c) = Some g \<longrightarrow> opens fds (g fd a)) \<and>
     (\<forall>fd. closes fds fd (close_f (c_orig c) fd)) \<and>
     (\<forall>fd a. quiet fds (connect_f (c_orig c) fd a)) \<and>
     (\<forall>fd l opt. quiet fds (getsockopt_f (c_orig c) fd l opt)) \<and>
     (\<forall>fd l opt a n. quiet fds (setsockopt_f (c_orig c) fd l opt a n)) \<and>
     (\<forall>fd b n. quiet fds (bind_f c fd b n)) \<and>
     (\<forall>fd n. quiet fds (listen_f c fd n)) \<and>
     (\<forall>b. quiet fds (unlink_f c b)) \<and>
     (\<forall>fd. quiet fds (getsockname_f c fd)) \<and>
     (\<forall>fd. quiet fds (getpeername_f c fd)) \<and>
     (\<forall>fd opt. quiet fds (gettimeo_f c fd opt)) \<and>
     quiet_opt fds (send_f (c_orig c)) \<and> quiet_opt fds (sendto_f (c_orig c)) \<and> quiet_opt fds (sendmsg_f (c_orig c)) \<and>
     quiet_opt fds (recv_f (c_orig c)) \<and> quiet_opt fds (recvfrom_f (c_orig c)) \<and> quiet_opt fds (recvmsg_f (c_orig c))"

lemma safe_refl [simp]: "safe fds k k"
  by (simp add: safe_def)

lemma safe_trans [trans]: "safe fds k1 k2 \<Longrightarrow> safe fds k2 k3 \<Longrightarrow> safe fds k1 k3"
  by (auto simp: safe_def)

lemma same_view_safe:
  "map sk_fd (mm_sockets k') = map sk_fd (mm_sockets k) \<Longrightarrow> fds (mm_kernel k') = fds (mm_kernel k) \<Longrightarrow> safe fds k k'"
  by (auto simp: safe_def exclusive_def held_fds_def dest: arg_cong [where f = length])

lemma quiet_safe: "quiet fds f \<Longrightarrow> f k = (r, k') \<Longrightarrow> safe fds k k'"
  unfolding quiet_def by (rule same_view_safe) (metis snd_conv)+

abbreviation sock_safe :: "('w \<Rightarrow> int set) \<Rightarrow> ('u, 'e, 'w, 'z) sock_state \<Rightarrow> ('u, 'e, 'w, 'z) sock_state \<Rightarrow> bool" where
  "sock_safe fds s s' \<equiv> safe fds (hk_kernel s) (hk_kernel s')"

lemma set_errno_safe [simp]: "sock_safe fds s (set_errno e s)"
  by (rule same_view_safe) (simp_all add: set_errno_def)

lemma c_result_safe [simp]: "sock_safe fds s (snd (c_result r s))"
  by (cases r) (simp_all add: c_result_def)

lemma on_sock_safe: "(\<And>k. sk_fd (f k) = sk_fd k) \<Longrightarrow> sock_safe fds s (on_sock p f s)"
proof (rule same_view_safe)
  assume f: "\<And>k. sk_fd (f k) = sk_fd k"
  show "map sk_fd (mm_sockets (hk_kernel (on_sock p f s))) = map sk_fd (mm_sockets (hk_kernel s))"
    using f by (cases "p < length (mm_sockets (hk_kernel s))")
      (simp_all add: on_sock_def the_sock_def map_update list_update_same_conv list_update_beyond)
qed (simp add: on_sock_def)

lemma on_kernel_safe: "quiet fds f \<Longrightarrow> sock_safe fds s (snd (on_kernel f s))"
  using quiet_safe [of fds f "hk_kernel s"] by (auto simp: on_kernel_def Let_def split: prod.splits)

text \<open>The properties that the lemmas about the hooks carry through a waiting call.\<close>

lemma quiet_step: "quiet fds f \<Longrightarrow> safe fds k (snd (f k))"
  using quiet_safe [of fds f k "fst (f k)" "snd (f k)"] by simp

lemma safe_steps:
  fixes c :: "('b, 'e, 'w, 'z) sock_calls"
  assumes l: "kernel_laws fds c"
  shows "steps (safe fds) c p"
proof -
  have "safe fds k (k\<lparr> mm_sockets := (mm_sockets k)[p := f (mm_sockets k ! p)] \<rparr>)" if "\<forall>x. sk_fd (f x) = sk_fd x" for k :: "('w, 'z) memory_scheme" and f
    using that by (intro same_view_safe, cases "p < length (mm_sockets k)")
      (simp_all add: map_update list_update_same_conv list_update_beyond)
  moreover have "safe fds k (k\<lparr> mm_errno := e \<rparr>)" for k :: "('w, 'z) memory_scheme" and e by (rule same_view_safe) simp_all
  moreover have "safe fds k (g k)" if "g \<in> plain_calls c" for g k
    using that l by (cases rule: plain_calls.cases) (simp_all add: kernel_laws_def quiet_step)
  ultimately show ?thesis using safe_trans [of fds] by (auto simp: steps_def)
qed

lemmas keeps_os_safe = keeps_os_step [OF safe_steps]
  and hk_get_safe = hk_get_step [OF safe_steps]
  and FdMgr_get_safe = FdMgr_get_step [OF safe_steps]
  and setOption_safe = setOption_step [OF safe_steps]
  and initSock_safe = initSock_step [OF safe_steps]
  and getLocalAddress_safe = getLocalAddress_step [OF safe_steps]
  and getRemoteAddress_safe = getRemoteAddress_step [OF safe_steps]
  and keep_local_safe = keep_local_step [OF safe_steps]
  and keep_remote_safe = keep_remote_step [OF safe_steps]
  and Socket_listen_safe = listen_step [OF safe_steps]

lemma keeps_call_quiet: "quiet fds f \<Longrightarrow> keeps_call (safe fds k) (\<lambda>_ _. True) f"
  unfolding keeps_call_def using quiet_safe [of fds f] by (metis safe_trans prod.collapse)

text \<open>A descriptor that was just opened belongs to no object yet.\<close>

definition fresh_fd :: "('w \<Rightarrow> int set) \<Rightarrow> ('w, 'z) memory_scheme \<Rightarrow> int \<Rightarrow> ('w, 'z) memory_scheme \<Rightarrow> bool" where
  "fresh_fd fds k0 fd k \<longleftrightarrow> safe fds k0 k \<and> 0 \<le> fd \<and> (exclusive fds k0 \<longrightarrow> fd \<in> fds (mm_kernel k) \<and> fd \<notin> set (held_fds k))"

lemma fresh_quiet: "quiet fds f \<Longrightarrow> f k = (r, k') \<Longrightarrow> fresh_fd fds k0 fd k \<Longrightarrow> fresh_fd fds k0 fd k'"
  using quiet_safe [of fds f k r k'] safe_trans [of fds k0 k k'] unfolding fresh_fd_def quiet_def held_fds_def by (metis snd_conv)

lemma opens_fresh:
  assumes "opens fds f" and "safe fds k0 k" and "f k = (r, k')"
  shows "safe fds k0 k' \<and> (\<forall>fd. r = Inr fd \<longrightarrow> fresh_fd fds k0 fd k')"
proof -
  have s: "mm_sockets k' = mm_sockets k" and o: "case r of Inl e \<Rightarrow> fds (mm_kernel k') = fds (mm_kernel k)
      | Inr fd \<Rightarrow> 0 \<le> fd \<and> fd \<notin> fds (mm_kernel k) \<and> fds (mm_kernel k') = insert fd (fds (mm_kernel k))"
    using assms(1) [unfolded opens_def, THEN spec, of k] assms(3) by (simp_all split: sum.splits)
  then have h: "held_fds k' = held_fds k" by (simp add: held_fds_def)
  have "exclusive fds k'" if "exclusive fds k" using that h o by (auto simp: exclusive_def split: sum.splits)
  then have "safe fds k0 k'" using assms(2) s by (simp add: safe_def)
  moreover have "fresh_fd fds k0 fd k'" if "r = Inr fd" for fd
    using calculation o that h assms(2) by (auto simp: fresh_fd_def safe_def exclusive_def)
  ultimately show ?thesis by blast
qed

lemma keeps_call_opens: "opens fds f \<Longrightarrow> keeps_call (safe fds k0) (fresh_fd fds k0) f"
  unfolding keeps_call_def using opens_fresh [of fds f k0] by (metis prod.collapse)

lemma keeps_os_fresh: "kernel_laws fds c \<Longrightarrow> keeps_os (fresh_fd fds k0 fd) (c_os c)"
  unfolding keeps_os_def kernel_laws_def using fresh_quiet [of fds] by (metis prod.collapse)

lemma held_at:
  assumes "p < length socks"
  shows "filter (\<lambda>fd. fd \<noteq> - 1) (map sk_fd (socks[p := x])) =
    filter (\<lambda>fd. fd \<noteq> - 1) (map sk_fd (take p socks)) @ (if sk_fd x \<noteq> - 1 then [sk_fd x] else []) @
    filter (\<lambda>fd. fd \<noteq> - 1) (map sk_fd (drop (Suc p) socks))"
  using assms by (simp add: upd_conv_take_nth_drop)

lemma assign_fd:
  assumes "safe fds k0 (hk_kernel s)" and f: "\<And>k. sk_fd (f k) = fd"
    and fd: "fd \<noteq> - 1 \<Longrightarrow> exclusive fds k0 \<Longrightarrow> fd \<in> fds (mm_kernel (hk_kernel s)) \<and> fd \<notin> set (held_fds (hk_kernel s))"
  shows "safe fds k0 (hk_kernel (on_sock p f s))"
proof (cases "p < length (mm_sockets (hk_kernel s))")
  case True
  let ?k = "hk_kernel s" and ?k' = "hk_kernel (on_sock p f s)"
  let ?a = "filter (\<lambda>fd. fd \<noteq> - 1) (map sk_fd (take p (mm_sockets ?k)))"
    and ?b = "filter (\<lambda>fd. fd \<noteq> - 1) (map sk_fd (drop (Suc p) (mm_sockets ?k)))"
  have h': "held_fds ?k' = ?a @ (if fd \<noteq> - 1 then [fd] else []) @ ?b"
    using held_at [OF True] f by (simp add: held_fds_def on_sock_def)
  have h: "held_fds ?k = ?a @ (if sk_fd (the_sock p s) \<noteq> - 1 then [sk_fd (the_sock p s)] else []) @ ?b"
    using held_at [OF True, of "the_sock p s"] by (simp add: held_fds_def the_sock_def)
  have "mm_kernel ?k' = mm_kernel ?k" by (simp add: on_sock_def)
  then have "exclusive fds ?k'" if "exclusive fds k0"
    using that assms(1) fd h h' by (auto simp: exclusive_def safe_def split: if_splits)
  then show ?thesis using assms(1) by (simp add: safe_def on_sock_def)
next
  case False
  then have "on_sock p f s = s" by (simp add: on_sock_def list_update_beyond)
  then show ?thesis using assms(1) by simp
qed

lemma own_fd: "fresh_fd fds k0 fd (hk_kernel s) \<Longrightarrow> (\<And>k. sk_fd (f k) = fd) \<Longrightarrow> safe fds k0 (hk_kernel (on_sock p f s))"
  by (rule assign_fd) (auto simp: fresh_fd_def)

lemma clear_fd: "safe fds k0 (hk_kernel s) \<Longrightarrow> (\<And>k. sk_fd (f k) = - 1) \<Longrightarrow> safe fds k0 (hk_kernel (on_sock p f s))"
  by (rule assign_fd) auto

text \<open>The object that closes its descriptor gives it up.\<close>

lemma close_fd:
  assumes c: "closes fds (sk_fd (the_sock p s0)) f" and k: "f (hk_kernel s0) = (r, hk_kernel s)"
    and p: "p < length (mm_sockets (hk_kernel s0))" and g: "\<And>k. sk_fd (g k) = - 1"
  shows "sock_safe fds s0 (on_sock p g s)"
proof -
  let ?k = "hk_kernel s0" and ?k' = "hk_kernel (on_sock p g s)"
  have same: "mm_sockets (hk_kernel s) = mm_sockets ?k" and o: "fds (mm_kernel (hk_kernel s)) = fds (mm_kernel ?k) - {sk_fd (the_sock p s0)}"
    using c k by (metis closes_def snd_conv)+
  let ?a = "filter (\<lambda>fd. fd \<noteq> - 1) (map sk_fd (take p (mm_sockets ?k)))"
    and ?b = "filter (\<lambda>fd. fd \<noteq> - 1) (map sk_fd (drop (Suc p) (mm_sockets ?k)))"
  have h': "held_fds ?k' = ?a @ ?b" using held_at [OF p] g same by (simp add: held_fds_def on_sock_def)
  have h: "held_fds ?k = ?a @ (if sk_fd (the_sock p s0) \<noteq> - 1 then [sk_fd (the_sock p s0)] else []) @ ?b"
    using held_at [OF p, of "the_sock p s0"] by (simp add: held_fds_def the_sock_def)
  have o': "fds (mm_kernel ?k') = fds (mm_kernel ?k) - {sk_fd (the_sock p s0)}" using o by (simp add: on_sock_def)
  have "exclusive fds ?k'" if e: "exclusive fds ?k"
  proof -
    have d: "distinct (held_fds ?k)" "set (held_fds ?k) \<subseteq> fds (mm_kernel ?k)" using e by (simp_all add: exclusive_def)
    then have "distinct (?a @ ?b)" "set (?a @ ?b) \<subseteq> fds (mm_kernel ?k)" unfolding h by (simp_all split: if_splits)
    moreover have "sk_fd (the_sock p s0) \<notin> set (?a @ ?b)"
      using d(1) unfolding h by (cases "sk_fd (the_sock p s0) = - 1") simp_all
    ultimately show ?thesis unfolding exclusive_def h' o' by blast
  qed
  then show ?thesis using same by (simp add: safe_def on_sock_def)
qed

section \<open>Every operation keeps the ownership\<close>

lemma initSock_fresh: "kernel_laws fds c \<Longrightarrow> safe fds k0 (hk_kernel s) \<Longrightarrow> safe fds k0 (hk_kernel (initSock c p s))"
  using initSock_safe safe_trans by blast

lemma hk_nonblock_kernel [simp]: "hk_kernel (hk_nonblock v x s) = hk_kernel s"
  by (simp add: hk_nonblock_def split: option.split)

lemma hook_socket_fresh:
  assumes "kernel_laws fds c" and "hook_socket (c_os c) (c_orig c) a b d s = (r, s')"
  shows "sock_safe fds s s' \<and> (\<forall>fd. r = Inr fd \<longrightarrow> fresh_fd fds (hk_kernel s) fd (hk_kernel s'))"
proof -
  obtain k where f: "socket_f (c_orig c) a b d (hk_kernel s) = (r, k)"
    using assms(2) by (auto simp: hook_socket_def on_kernel_def Let_def split: prod.splits)
  have op: "opens fds (socket_f (c_orig c) a b d)" using assms(1) by (simp add: kernel_laws_def)
  have o: "safe fds (hk_kernel s) k \<and> (\<forall>fd. r = Inr fd \<longrightarrow> fresh_fd fds (hk_kernel s) fd k)"
    using opens_fresh [OF op safe_refl f] .
  let ?s = "s\<lparr> hk_kernel := k \<rparr>"
  have "fresh_fd fds (hk_kernel s) fd (hk_kernel (track_nonblock (c_os c) b fd ?s))" if "r = Inr fd" for fd
    using hk_get_kept [OF keeps_os_fresh [OF assms(1)], of "hk_kernel s" fd ?s fd True] o that
    by (auto simp: track_nonblock_def split: prod.splits)
  then show ?thesis using assms(2) f o
    by (auto simp: hook_socket_def on_kernel_def fresh_fd_def split: sum.splits if_splits)
qed

lemma newSock_safe: assumes "kernel_laws fds c" shows "sock_safe fds s (newSock c p s)"
proof (cases "sk_fd (the_sock p s) = - 1")
  case True
  let ?k = "the_sock p s"
  obtain r s1 where h: "hook_socket (c_os c) (c_orig c) (sk_family ?k) (sk_type ?k) (sk_protocol ?k) s = (r, s1)" by fastforce
  note f = hook_socket_fresh [OF assms h]
  show ?thesis
  proof (cases r)
    case (Inl e)
    have "safe fds (hk_kernel s) (hk_kernel (on_sock p (sk_fd_update (\<lambda>_. - 1)) (set_errno e s1)))"
      by (rule clear_fd [OF safe_trans [OF _ set_errno_safe]]) (use f in simp_all)
    then show ?thesis using True h Inl by (simp add: newSock_def Let_def c_result_def)
  next
    case (Inr fd)
    then have "fresh_fd fds (hk_kernel s) fd (hk_kernel s1)" using f by simp
    then have "safe fds (hk_kernel s) (hk_kernel (on_sock p (sk_fd_update (\<lambda>_. fd)) s1))" by (rule own_fd) simp
    then show ?thesis using True h Inr initSock_fresh [OF assms] by (auto simp: newSock_def Let_def c_result_def)
  qed
qed (simp add: newSock_def)

lemma untrack_kernel: "kernel_laws fds c \<Longrightarrow> keeps_os I (c_os c) \<Longrightarrow> I (hk_kernel s) \<Longrightarrow> I (hk_kernel (untrack (c_os c) ctl fd s))"
  using hk_get_kept [of I "c_os c" s fd False] by (auto simp: untrack_def Let_def split: prod.splits option.splits)

lemma untrack_same_sockets:
  assumes "kernel_laws fds c"
  shows "mm_sockets (hk_kernel (untrack (c_os c) ctl fd s)) = mm_sockets (hk_kernel s) \<and>
    fds (mm_kernel (hk_kernel (untrack (c_os c) ctl fd s))) = fds (mm_kernel (hk_kernel s))"
  by (rule untrack_kernel [OF assms, where I = "\<lambda>k. mm_sockets k = mm_sockets (hk_kernel s) \<and> fds (mm_kernel k) = fds (mm_kernel (hk_kernel s))"])
    (use assms in \<open>auto simp: keeps_os_def kernel_laws_def quiet_def\<close>)

lemma Socket_close_safe:
  assumes l: "kernel_laws fds c" and p: "p < length (mm_sockets (hk_kernel s))"
  shows "sock_safe fds s (snd (Socket_close c p s))"
proof (cases "sk_fd (the_sock p s) = - 1")
  case True
  then show ?thesis by (simp add: Socket_close_def on_sock_safe)
next
  case False
  let ?fd = "sk_fd (the_sock p s)" and ?g = "\<lambda>k. k\<lparr> sk_fd := - 1, sk_connected := False \<rparr>"
  let ?s = "untrack (c_os c) (c_ctl c) ?fd s"
  note u = untrack_same_sockets [OF l, of "c_ctl c" ?fd s]
  obtain r k where f: "close_f (c_orig c) ?fd (hk_kernel ?s) = (r, k)" by fastforce
  obtain v s2 where v: "c_result r (?s\<lparr> hk_kernel := k \<rparr>) = (v, s2)" by fastforce
  have fd: "the_sock p ?s = the_sock p s" using u by (simp add: the_sock_def)
  have k2: "mm_sockets (hk_kernel s2) = mm_sockets k" "mm_kernel (hk_kernel s2) = mm_kernel k"
    using v by (auto simp: c_result_def set_errno_def split: sum.splits)
  have "closes fds (sk_fd (the_sock p ?s)) (close_f (c_orig c) ?fd)" using l fd by (simp add: kernel_laws_def)
  then have "sock_safe fds ?s (on_sock p ?g (?s\<lparr> hk_kernel := k \<rparr>))"
    by (rule close_fd [where r = r]) (use f u p in simp_all)
  then have "sock_safe fds ?s (on_sock p ?g s2)"
    using k2 by (simp add: safe_def exclusive_def held_fds_def on_sock_def the_sock_def)
  moreover have "sock_safe fds s ?s" by (rule same_view_safe) (use u in simp_all)
  ultimately have "sock_safe fds s (on_sock p ?g s2)" by (rule safe_trans [rotated])
  then show ?thesis using False f v by (simp add: Socket_close_def hook_close_def on_kernel_def Let_def)
qed

lemma Socket_new_view:
  "held_fds (hk_kernel (snd (Socket_new a b d s))) = held_fds (hk_kernel s)"
  "mm_kernel (hk_kernel (snd (Socket_new a b d s))) = mm_kernel (hk_kernel s)"
  "length (mm_sockets (hk_kernel (snd (Socket_new a b d s)))) = Suc (length (mm_sockets (hk_kernel s)))"
  by (simp_all add: Socket_new_def held_fds_def)

lemma Socket_new_safe: "safe fds k0 (hk_kernel s) \<Longrightarrow> safe fds k0 (hk_kernel (snd (Socket_new a b d s)))"
  "fresh_fd fds k0 fd (hk_kernel s) \<Longrightarrow> fresh_fd fds k0 fd (hk_kernel (snd (Socket_new a b d s)))"
  by (simp_all add: Socket_new_view fresh_fd_def safe_def exclusive_def)

lemma Socket_init_safe:
  assumes l: "kernel_laws fds c" and f: "fresh_fd fds k0 fd (hk_kernel s)"
  shows "fst (Socket_init c fd p s)" "safe fds k0 (hk_kernel (snd (Socket_init c fd p s)))"
proof -
  have "0 \<le> fd" using f by (simp add: fresh_fd_def)
  then show "fst (Socket_init c fd p s)" by (simp add: Socket_init_def Let_def)
  let ?s = "on_sock p (\<lambda>k. k\<lparr> sk_fd := fd, sk_connected := True \<rparr>) s"
  let ?t = "if hk_enabled ?s then snd (FdMgr_get c fd True ?s) else ?s"
  have "safe fds k0 (hk_kernel ?s)" by (rule own_fd [OF f]) simp
  then have "safe fds k0 (hk_kernel ?t)" using safe_trans [OF _ FdMgr_get_safe [OF l]] by auto
  then have "safe fds k0 (hk_kernel (keep_remote c p (keep_local c p (initSock c p ?t))))"
    using safe_trans [OF _ keep_remote_safe [OF l]] safe_trans [OF _ keep_local_safe [OF l]] initSock_fresh [OF l] by blast
  then show "safe fds k0 (hk_kernel (snd (Socket_init c fd p s)))" using \<open>0 \<le> fd\<close> by (simp add: Socket_init_def Let_def)
qed

fun turn_state :: "('r, 's) turn \<Rightarrow> 's" where
  "turn_state (Done r s) = s"
| "turn_state (Waits s) = s"

lemma after_kept:
  assumes "after call f = Some t" and "\<And>u. call = Some u \<Longrightarrow> turn_keeps (safe fds k0) J u"
    and "\<And>r s. safe fds k0 (hk_kernel s) \<Longrightarrow> (\<forall>v. r = Inr v \<longrightarrow> J v (hk_kernel s)) \<Longrightarrow> safe fds k0 (hk_kernel (snd (f r s)))"
  shows "safe fds k0 (hk_kernel (turn_state t))"
proof -
  obtain u where u: "call = Some u" using assms(1) by (auto simp: after_def)
  from assms(2) [OF this] show ?thesis using assms(1,3) u by (cases u) (auto simp: after_def case_prod_unfold)
qed

lemma accept_done_safe:
  assumes l: "kernel_laws fds c" and s: "safe fds k0 (hk_kernel s)" "\<forall>v. r = Inr v \<longrightarrow> fresh_fd fds k0 v (hk_kernel s)"
  shows "safe fds k0 (hk_kernel (snd (accept_done c p r s)))"
proof (cases r)
  case (Inl x)
  then show ?thesis using safe_trans [OF s(1) set_errno_safe] by (simp add: accept_done_def c_result_def)
next
  case (Inr v)
  then have v: "fresh_fd fds k0 v (hk_kernel s)" using s by simp
  then have "v \<noteq> - 1" by (auto simp: fresh_fd_def)
  then show ?thesis using Inr Socket_init_safe [OF l Socket_new_safe(2) [OF v]]
    by (simp add: accept_done_def c_result_def Let_def case_prod_unfold)
qed

lemma Socket_accept_safe:
  assumes l: "kernel_laws fds c" and e: "\<forall>env \<in> set envs. keeps_env (safe fds (hk_kernel s)) env"
    and t: "Socket_accept c current envs p s = Some t"
  shows "sock_safe fds s (turn_state t)"
proof (cases "sk_fd (the_sock p s) = - 1")
  case True
  then show ?thesis using t by (auto simp: Socket_accept_def)
next
  case False
  let ?k0 = "hk_kernel s" and ?fd = "sk_fd (the_sock p s)"
  have call: "after (hook_accept (c_os c) (c_orig c) (c_ctl c) ?fd NoAddress current envs s) (accept_done c p) = Some t"
    using t False by (simp add: Socket_accept_def)
  have k: "turn_keeps (safe fds ?k0) (fresh_fd fds ?k0) u"
    if "hook_accept (c_os c) (c_orig c) (c_ctl c) ?fd NoAddress current envs s = Some u" for u
    by (rule hook_accept_kept [OF keeps_os_safe [OF l] keeps_os_fresh [OF l] keeps_call_opens e safe_refl that])
      (use l in \<open>auto simp: kernel_laws_def\<close>)
  show ?thesis by (rule after_kept [OF call k accept_done_safe [OF l]])
qed

lemma Socket_bind_safe:
  assumes l: "kernel_laws fds c"
  shows "sock_safe fds s (snd (Socket_bind c a p s))"
proof (cases a)
  case (Some x)
  obtain ok s' where b: "Socket_bind c (Some x) p s = (ok, s')" by fastforce
  show ?thesis
  proof (cases "getFamily x = sk_family (the_sock p s)")
    case True
    from safe_trans [OF newSock_safe [OF l] conjunct1 [OF bind_rest_step [OF safe_steps [OF l] b True]]] b Some show ?thesis by simp
  qed (simp add: Socket_bind_def Some)
qed (simp add: Socket_bind_def)

lemma connect_done_safe:
  assumes l: "kernel_laws fds c" and s: "safe fds k0 (hk_kernel s)" and p: "p < length (mm_sockets k0)"
  shows "safe fds k0 (hk_kernel (snd (connect_done c p r s)))"
proof -
  obtain v s1 where v: "c_result r s = (v, s1)" by fastforce
  then have s1: "safe fds k0 (hk_kernel s1)" using safe_trans [OF s c_result_safe, of r] by simp
  then have "p < length (mm_sockets (hk_kernel s1))" using p by (simp add: safe_def)
  from safe_trans [OF s1 Socket_close_safe [OF l this]] have c: "safe fds k0 (hk_kernel (snd (Socket_close c p s1)))" .
  have "safe fds k0 (hk_kernel (on_sock p (sk_connected_update (\<lambda>_. True)) s1))" by (rule safe_trans [OF s1 on_sock_safe]) simp
  from safe_trans [OF safe_trans [OF this keep_remote_safe [OF l]] keep_local_safe [OF l]] c v
  show ?thesis by (simp add: connect_done_def)
qed

lemma Socket_connect_safe:
  assumes l: "kernel_laws fds c" and e: "\<forall>env \<in> set envs. keeps_env (safe fds (hk_kernel s)) env"
    and p: "p < length (mm_sockets (hk_kernel s))" and s0: "sock_safe fds s s0"
    and t: "Socket_connect c a timeout current envs p s0 = Some t"
  shows "sock_safe fds s (turn_state t)"
proof (cases a)
  case None
  then show ?thesis using t safe_trans [OF s0 set_errno_safe] by (auto simp: Socket_connect_def)
next
  case (Some x)
  let ?s1 = "on_sock p (sk_remote_update (\<lambda>_. Some x)) s0"
  let ?s = "newSock c p ?s1"
  have s1: "sock_safe fds s ?s1" by (rule safe_trans [OF s0 on_sock_safe]) simp
  have s: "sock_safe fds s ?s" by (rule safe_trans [OF s1 newSock_safe [OF l]])
  let ?call = "connect_with_timeout (c_os c) (c_orig c) (c_ctl c) (sk_fd (the_sock p ?s))
      (ToAddress (getAddr x) (getAddrLen x)) timeout current envs ?s"
  have k: "turn_keeps (safe fds (hk_kernel s)) (\<lambda>_ _. True) u" if "Some ?call = Some u" for u
  proof -
    have "quiet fds (connect_f (c_orig c) fd y)" "quiet fds (getsockopt_f (c_orig c) fd SOL_SOCKET SO_ERROR)" for fd y
      using l by (simp_all add: kernel_laws_def)
    then have "turn_keeps (safe fds (hk_kernel s)) (\<lambda>_ _. True) ?call"
      by (intro connect_kept [OF keeps_os_safe [OF l] keeps_call_quiet keeps_call_quiet _ e s]) simp_all
    then show ?thesis using that by simp
  qed
  have w: "sock_safe fds s (turn_state t)" if "after (Some ?call) (connect_done c p) = Some t"
    by (rule after_kept [OF that k connect_done_safe [OF l _ p]])
  show ?thesis using t Some w s safe_trans [OF s1 set_errno_safe]
    by (auto simp: Socket_connect_def Let_def split: if_splits)
qed

text \<open>Sending and receiving only pass the call on.\<close>

lemma io_safe:
  assumes l: "kernel_laws fds c" and e: "\<forall>env \<in> set envs. keeps_env (safe fds (hk_kernel s)) env"
    and f: "quiet_opt fds f" and t: "after (flagged_io (c_os c) (c_ctl c) fd f event opt args flags current envs s) c_result = Some t"
  shows "sock_safe fds s (turn_state t)"
proof -
  have q: "keeps_call (safe fds (hk_kernel s)) (\<lambda>_ _. True) (g fd args flags)" if "f = Some g" for g
    by (rule keeps_call_quiet) (use f that in \<open>auto simp: quiet_opt_def\<close>)
  have k: "turn_keeps (safe fds (hk_kernel s)) (\<lambda>_ _. True) u"
    if "flagged_io (c_os c) (c_ctl c) fd f event opt args flags current envs s = Some u" for u
  proof (rule flagged_io_kept [where I = "safe fds (hk_kernel s)" and f = f])
    show "keeps_os (safe fds (hk_kernel s)) (c_os c)" by (rule keeps_os_safe [OF l])
    show "f \<noteq> None" using f by (simp add: quiet_opt_def)
  qed (use q e that in auto)
  show ?thesis by (rule after_kept [OF t k]) (auto intro: safe_trans [OF _ c_result_safe])
qed

lemmas io_defs = Socket_send_def Socket_send_vector_def Socket_sendTo_def Socket_sendTo_vector_def
  Socket_recv_def Socket_recv_vector_def Socket_recvFrom_def Socket_recvFrom_vector_def
  hook_send_def hook_sendmsg_def hook_sendto_def hook_recv_def hook_recvmsg_def hook_recvfrom_def

lemma getOption_safe:
  assumes "\<And>fd. sock_safe fds s (snd (call fd s))"
  shows "sock_safe fds s (snd (getOption call p s))"
proof -
  obtain r s1 where c: "call (sk_fd (the_sock p s)) s = (r, s1)" by fastforce
  then have s1: "sock_safe fds s s1" using assms [of "sk_fd (the_sock p s)"] by simp
  have "sock_safe fds s (set_errno e s1)" for e by (rule safe_trans [OF s1 set_errno_safe])
  then show ?thesis using s1 c by (auto simp: getOption_def Let_def split: sum.splits)
qed

lemma socket_timeout_safe:
  assumes l: "kernel_laws fds c"
  shows "sock_safe fds s (snd (socket_timeout c opt p s))"
proof -
  let ?call = "\<lambda>fd s. let (r, k) = gettimeo_f c fd opt (hk_kernel s) in (r, s\<lparr> hk_kernel := k \<rparr>)"
  obtain x s1 where g: "FdMgr_get c (sk_fd (the_sock p s)) False s = (x, s1)" by fastforce
  have s1: "sock_safe fds s s1" using FdMgr_get_safe [OF l, of s "sk_fd (the_sock p s)" False] g by simp
  have "quiet fds (gettimeo_f c fd opt)" for fd using l by (simp add: kernel_laws_def)
  then have "sock_safe fds s1 (snd (?call fd s1))" for fd using quiet_safe [of fds "gettimeo_f c fd opt" "hk_kernel s1"]
    by (auto split: prod.splits)
  then have "sock_safe fds s1 (snd (getOption ?call p s1))" by (rule getOption_safe)
  from safe_trans [OF s1 this] show ?thesis
    using s1 g by (auto simp: socket_timeout_def Let_def split: option.splits prod.splits)
qed

text \<open>The operations of an object, in one type; \<open>run_op\<close> is the state when the operation is done or has
  given up the fiber.\<close>

datatype 'b sock_op =
    OpNew int u32 int
  | OpUdp "address option"
  | OpBind "address option"
  | OpListen int
  | OpConnect "address option" u64
  | OpReconnect u64
  | OpAccept
  | OpClose
  | OpSetOption int int "'b sock_arg option" nat
  | OpSetTimeout int int
  | OpTimeout int
  | OpError
  | OpLocal
  | OpRemote
  | OpSend 'b u32
  | OpSendVector "'b option" u32
  | OpSendTo 'b "address option" u32
  | OpSendToVector "'b option" "address option" u32
  | OpRecv 'b u32
  | OpRecvVector "'b option" u32
  | OpRecvFrom 'b "('b \<times> address) option" u32
  | OpRecvFromVector "'b option" "('b \<times> address) option" u32
  | OpCancel bool
  | OpCancelAll

fun run_op ::
  "('b, 'e, 'w, 'z) sock_calls \<Rightarrow> 'b sock_op \<Rightarrow> nat \<times> u32 \<Rightarrow> ('u, 'e, 'w, 'z) sock_env list \<Rightarrow> nat \<Rightarrow>
   ('u, 'e, 'w, 'z) sock_state \<Rightarrow> ('u, 'e, 'w, 'z) sock_state option" where
  "run_op c (OpNew family type protocol) current envs p s = Some (snd (Socket_new family type protocol s))"
| "run_op c (OpUdp a) current envs p s = Some (snd (CreateUDP c a s))"
| "run_op c (OpBind a) current envs p s = Some (snd (Socket_bind c a p s))"
| "run_op c (OpListen n) current envs p s = Some (snd (Socket_listen c n p s))"
| "run_op c (OpConnect a timeout) current envs p s = map_option turn_state (Socket_connect c a timeout current envs p s)"
| "run_op c (OpReconnect timeout) current envs p s = map_option turn_state (Socket_reconnect c timeout current envs p s)"
| "run_op c OpAccept current envs p s = map_option turn_state (Socket_accept c current envs p s)"
| "run_op c OpClose current envs p s = Some (snd (Socket_close c p s))"
| "run_op c (OpSetOption level option v n) current envs p s = Some (snd (setOption c level option v n p s))"
| "run_op c (OpSetTimeout option ms) current envs p s = Some (set_socket_timeout c option ms p s)"
| "run_op c (OpTimeout option) current envs p s = Some (snd (socket_timeout c option p s))"
| "run_op c OpError current envs p s = Some (snd (getError c p s))"
| "run_op c OpLocal current envs p s = Some (snd (getLocalAddress c p s))"
| "run_op c OpRemote current envs p s = Some (snd (getRemoteAddress c p s))"
| "run_op c (OpSend b flags) current envs p s = map_option turn_state (Socket_send c b flags current envs p s)"
| "run_op c (OpSendVector b flags) current envs p s = map_option turn_state (Socket_send_vector c b flags current envs p s)"
| "run_op c (OpSendTo b a flags) current envs p s = map_option turn_state (Socket_sendTo c b a flags current envs p s)"
| "run_op c (OpSendToVector b a flags) current envs p s = map_option turn_state (Socket_sendTo_vector c b a flags current envs p s)"
| "run_op c (OpRecv b flags) current envs p s = map_option turn_state (Socket_recv c b flags current envs p s)"
| "run_op c (OpRecvVector b flags) current envs p s = map_option turn_state (Socket_recv_vector c b flags current envs p s)"
| "run_op c (OpRecvFrom b a flags) current envs p s = map_option turn_state (Socket_recvFrom c b a flags current envs p s)"
| "run_op c (OpRecvFromVector b a flags) current envs p s = map_option turn_state (Socket_recvFrom_vector c b a flags current envs p s)"
| "run_op c (OpCancel reading) current envs p s = Some (snd (if reading then cancelRead c p s else cancelWrite c p s))"
| "run_op c OpCancelAll current envs p s = Some (snd (socket_cancelAll c p s))"

lemma cancel_on_safe: "sock_safe fds s (snd (cancel_on f s))"
  by (auto simp: cancel_on_def Let_def case_prod_unfold set_errno_def intro!: same_view_safe split: option.splits)

lemma getError_safe:
  assumes "kernel_laws fds c" shows "sock_safe fds s (snd (getError c p s))"
proof -
  have "quiet fds (getsockopt_f (c_orig c) fd SOL_SOCKET SO_ERROR)" for fd using assms by (simp add: kernel_laws_def)
  then have "sock_safe fds s (snd (hook_getsockopt (c_orig c) fd SOL_SOCKET SO_ERROR s))" for fd
    unfolding hook_getsockopt_def by (rule on_kernel_safe)
  then have "sock_safe fds s (snd (getOption (\<lambda>fd. hook_getsockopt (c_orig c) fd SOL_SOCKET SO_ERROR) p s))"
    by (rule getOption_safe)
  then show ?thesis by (auto simp: getError_def split: option.splits prod.splits)
qed

lemma CreateUDP_safe: "kernel_laws fds c \<Longrightarrow> sock_safe fds s (snd (CreateUDP c a s))"
proof (cases a)
  case (Some x)
  assume l: "kernel_laws fds c"
  obtain p s1 where n: "Socket_new (getFamily x) UDP 0 s = (p, s1)" by fastforce
  have "sock_safe fds s s1" using Socket_new_safe(1) [OF safe_refl, of fds s "getFamily x" UDP 0] n by simp
  from safe_trans [OF this newSock_safe [OF l, of s1 p]] have "sock_safe fds s (newSock c p s1)" .
  then have "sock_safe fds s (on_sock p (sk_connected_update (\<lambda>_. b)) (newSock c p s1))" for b
    using safe_trans [OF _ on_sock_safe [where f = "sk_connected_update (\<lambda>_. b)"]] by fastforce
  then show ?thesis using Some n by (simp add: CreateUDP_def Let_def)
qed (simp add: CreateUDP_def)

lemma run_op_safe:
  assumes l: "kernel_laws fds c" and p: "p < length (mm_sockets (hk_kernel s))"
    and e: "\<forall>env \<in> set envs. keeps_env (safe fds (hk_kernel s)) env" and r: "run_op c op current envs p s = Some s'"
  shows "sock_safe fds s s'"
proof -
  have q: "quiet_opt fds (send_f (c_orig c))" "quiet_opt fds (sendto_f (c_orig c))" "quiet_opt fds (sendmsg_f (c_orig c))"
    "quiet_opt fds (recv_f (c_orig c))" "quiet_opt fds (recvfrom_f (c_orig c))" "quiet_opt fds (recvmsg_f (c_orig c))"
    using l by (simp_all add: kernel_laws_def)
  have io: "sock_safe fds s (turn_state t)"
    if "quiet_opt fds f" "after (flagged_io (c_os c) (c_ctl c) fd f event opt args flags current envs s) c_result = Some t"
    for fd f event opt args flags t by (rule io_safe [OF l e that])
  note io = io [OF q(1)] io [OF q(2)] io [OF q(3)] io [OF q(4)] io [OF q(5)] io [OF q(6)]
  have re: "sock_safe fds s (turn_state t)" if "Socket_reconnect c timeout current envs p s = Some t" for timeout t
  proof (cases "sk_remote (the_sock p s)")
    case None
    then show ?thesis using that by (auto simp: Socket_reconnect_def)
  next
    case (Some a)
    then have "Socket_connect c (Some a) timeout current envs p (on_sock p (\<lambda>k. k\<lparr> sk_local := None, sk_connected := False \<rparr>) s) = Some t"
      using that by (simp add: Socket_reconnect_def)
    moreover have "sock_safe fds s (on_sock p (\<lambda>k. k\<lparr> sk_local := None, sk_connected := False \<rparr>) s)" by (rule on_sock_safe) simp
    ultimately show ?thesis using Socket_connect_safe [OF l e p] by blast
  qed
  have con: "sock_safe fds s (turn_state t)" if "Socket_connect c a timeout current envs p s = Some t" for a timeout t
    by (rule Socket_connect_safe [OF l e p safe_refl that])
  have acc: "sock_safe fds s (turn_state t)" if "Socket_accept c current envs p s = Some t" for t
    by (rule Socket_accept_safe [OF l e that])
  show ?thesis
    using r io re con acc Socket_close_safe [OF l p]
    by (cases op) (auto simp: io_defs Socket_new_safe CreateUDP_safe [OF l] Socket_bind_safe [OF l] Socket_listen_safe [OF l]
        setOption_safe [OF l] set_socket_timeout_def Let_def socket_timeout_safe [OF l] getError_safe [OF l]
        getLocalAddress_safe [OF l] getRemoteAddress_safe [OF l] cancelRead_def cancelWrite_def socket_cancelAll_def cancel_on_safe
        split: if_splits option.splits)
qed

text \<open>C11: No descriptor has two owners.  Whatever operation a socket object is asked for, and however it
  ends, every object still holds a descriptor that the kernel has open and that no other object holds,
  at the end and wherever the operation gives up its fiber; so closing a socket never closes the
  connection of another.  The rest of the program, which runs while the operation waits, is only
  asked to do the same; the hypotheses on the kernel are its documented behaviour.\<close>

theorem sockets_exclusive:
  fixes s :: "('u, 'e, 'w, 'z) sock_state"
  assumes laws: "kernel_laws fds c" and p: "p < length (mm_sockets (hk_kernel s))"
    and good: "exclusive fds (hk_kernel s)"
    and others: "\<forall>env \<in> set envs. \<forall>s1 :: ('u, 'e, 'w, 'z) sock_state. safe fds (hk_kernel s1) (hk_kernel (env s1))"
    and run: "run_op c op current envs p s = Some s'"
  shows "exclusive fds (hk_kernel s') \<and> length (mm_sockets (hk_kernel s)) \<le> length (mm_sockets (hk_kernel s'))"
proof -
  have "\<forall>env \<in> set envs. keeps_env (safe fds (hk_kernel s)) env"
    using others safe_trans unfolding keeps_env_def by blast
  from run_op_safe [OF laws p this run] show ?thesis using good by (simp add: safe_def)
qed

section \<open>Timeouts\<close>

lemma timeval_ms_exact:
  assumes "0 < ms" and "ms < 2 ^ 63"
  shows "timeval_ms (ms div 1000, ms mod 1000 * 1000) = word_of_int ms"
proof -
  let ?r = "ms mod 1000"
  have r: "0 \<le> ?r" "?r < 1000" by simp_all
  have u: "uint (of_int z :: u64) = z" if "0 \<le> z" "z < 2 ^ 64" for z
    using that by (simp add: uint_word_of_int_eq take_bit_eq_mod)
  have "uint (of_int (?r * 1000 + 999) :: u64) = ?r * 1000 + 999" by (rule u) (use r in simp_all)
  then have "uint (of_int (?r * 1000 + 999) div 1000 :: u64) = ?r" using r by (simp add: uint_div)
  then have "of_int (?r * 1000 + 999) div 1000 = (word_of_int ?r :: u64)" by (metis word_of_int_uint)
  moreover have "ms div 1000 = 0 \<Longrightarrow> ?r = 0 \<Longrightarrow> False" using assms(1) div_mult_mod_eq [of ms 1000] by auto
  moreover have "(of_int ms :: u64) = of_int (ms div 1000 * 1000 + ?r)" by simp
  then have "(of_int ms :: u64) = of_int (ms div 1000) * 1000 + of_int ?r"
    by (simp only: of_int_add of_int_mult of_int_numeral)
  ultimately show ?thesis by (auto simp add: timeval_ms_def)
qed

lemma sint_small: "0 < ms \<Longrightarrow> ms < 2 ^ 63 \<Longrightarrow> sint (word_of_int ms :: u64) = ms \<and> (word_of_int ms :: u64) \<noteq> UINT64_MAX"
proof -
  assume m: "0 < ms" "ms < 2 ^ 63"
  then have s: "sint (word_of_int ms :: u64) = ms" by (simp add: sint_sbintrunc' signed_take_bit_int_eq_self)
  have "sint (UINT64_MAX :: u64) = - 1" by (simp add: UINT64_MAX_def)
  with s m show ?thesis by auto
qed

text \<open>A timeout reads back as it was set: after a successful \<open>setRecvTimeout\<close> or \<open>setSendTimeout\<close> on a
  tracked socket the getter of that direction returns the milliseconds, or -1 when they were not
  positive, and the getter of the other direction what it returned before.  The hypotheses on the calls
  are that the kernel accepts the option and leaves the socket objects alone, and that the value
  handed over reads as the \<open>timeval\<close> it is.\<close>

theorem timeout_round_trip:
  fixes s :: "('u, 'e, 'w, 'z) sock_state"
  assumes fd: "sk_fd (the_sock p s) = fd"
    and opt: "option \<in> {SO_RCVTIMEO, SO_SNDTIMEO}" "other \<in> {SO_RCVTIMEO, SO_SNDTIMEO}" and ms: "ms < 2 ^ 63"
    and tracked: "fm_trackable fd" "fm_lookup (hk_fds s) fd = Some x" "x < length (fm_heap (hk_fds s))"
    and accepts: "\<forall>v. fst (setsockopt_f (c_orig c) fd SOL_SOCKET option (Some v) 16 (hk_kernel s)) = Inr 0 \<and>
      mm_sockets (snd (setsockopt_f (c_orig c) fd SOL_SOCKET option (Some v) 16 (hk_kernel s))) = mm_sockets (hk_kernel s)"
    and reads: "\<forall>sec usec. as_timeval (c_orig c) (TimeValue sec usec) = (sec, usec)"
  shows "fst (socket_timeout c other p (set_socket_timeout c option ms p s)) =
    (if other = option then if ms \<le> 0 then - 1 else ms else fst (socket_timeout c other p s))"
proof -
  let ?ms = "if ms < 0 then 0 else ms"
  let ?v = "TimeValue (?ms div 1000) (?ms mod 1000 * 1000)"
  obtain k where k: "setsockopt_f (c_orig c) fd SOL_SOCKET option (Some ?v) 16 (hk_kernel s) = (Inr 0, k)"
    and sk: "mm_sockets k = mm_sockets (hk_kernel s)" using accepts by (metis prod.collapse)
  let ?m = "setTimeout option (timeval_ms (?ms div 1000, ?ms mod 1000 * 1000)) x (hk_fds s)"
  have f: "fd \<noteq> - 1" using tracked(1) by (auto simp: fm_trackable_def)
  have g: "FdManager_get (c_os c) fd b m k' = ((Some x, None), m, k')" if "fm_lookup m fd = Some x" for b m and k' :: "('w, 'z) memory_scheme"
    by (rule get_found [OF that tracked(1)])
  have set: "set_socket_timeout c option ms p s = s\<lparr> hk_fds := ?m, hk_kernel := k \<rparr>"
    using f opt(1) k reads g [OF tracked(2)]
    by (auto simp: set_socket_timeout_def setOption_def hook_setsockopt_def on_kernel_def hk_get_def c_result_def
        Let_def fd)
  have look: "fm_lookup ?m fd = Some x" using tracked(2) by (simp add: setTimeout_def)
  have ctx: "fm_ctx ?m x = fd_setTimeout option (timeval_ms (?ms div 1000, ?ms mod 1000 * 1000)) (fm_ctx (hk_fds s) x)"
    using fm_ctx_update [OF tracked(3)] by (simp add: setTimeout_def)
  have same: "the_sock p (s\<lparr> hk_fds := ?m, hk_kernel := k \<rparr>) = the_sock p s" using sk by (simp add: the_sock_def)
  have read: "fst (socket_timeout c other p s1) =
      (let t = fd_getTimeout other (fm_ctx (hk_fds s1) x) in if t = UINT64_MAX then - 1 else sint t)"
    if "fm_lookup (hk_fds s1) fd = Some x" "the_sock p s1 = the_sock p s" for s1 :: "('u, 'e, 'w, 'z) sock_state"
    using g [OF that(1)] that(2) by (simp add: socket_timeout_def FdMgr_get_def Let_def fd)
  have t: "timeval_ms (?ms div 1000, ?ms mod 1000 * 1000) = (if ms \<le> 0 then UINT64_MAX else word_of_int ms)"
  proof (cases "ms \<le> 0")
    case True
    then show ?thesis by (simp add: timeval_ms_def)
  next
    case False
    then show ?thesis using timeval_ms_exact [OF _ ms] by simp
  qed
  have diff: "SO_RCVTIMEO \<noteq> SO_SNDTIMEO" by (simp add: SO_RCVTIMEO_def SO_SNDTIMEO_def)
  show ?thesis unfolding set
    using read [of s] tracked(2) read [of "s\<lparr> hk_fds := ?m, hk_kernel := k \<rparr>"] look same ctx t opt diff sint_small [OF _ ms]
    by (auto simp: Let_def fd_setTimeout_def fd_getTimeout_def)
qed

section \<open>Witnesses\<close>

text \<open>A kernel that is the list of its open descriptors, with two sockets.\<close>

definition demo_calls :: "(unit, unit, int list, 'z) sock_calls" where
  "demo_calls = (let ok = \<lambda>k. (Inr 0, k); io = Some (\<lambda>_ _ _ k. (Inr 0, k)); rw = Some (\<lambda>_ _ k. (Inr 0, k)) in
     \<lparr> c_os = \<lparr> os_fstat = \<lambda>_ _. Some True, os_getfl = \<lambda>_ _. Some 2048, os_setfl = \<lambda>_ _ k. (None, k), os_timeo = \<lambda>_ _ _. Some (0, 0) \<rparr>,
       c_orig = \<lparr> sleep_f = \<lambda>_. ok, usleep_f = \<lambda>_. ok, nanosleep_f = \<lambda>_ _. ok,
         socket_f = \<lambda>_ _ _ k. let fd = 1 + fold max (mm_kernel k) 0 in (Inr fd, k\<lparr> mm_kernel := fd # mm_kernel k \<rparr>),
         socketpair_f = \<lambda>_ _ _ k. (Inl 95, k), connect_f = \<lambda>_ _. ok, accept_f = Some (\<lambda>_ _ k. (Inl 11, k)), accept4_f = None,
         read_f = rw, readv_f = rw, recv_f = io, recvfrom_f = io, recvmsg_f = io,
         write_f = rw, writev_f = rw, send_f = io, sendto_f = io, sendmsg_f = io,
         close_f = \<lambda>fd k. (Inr 0, k\<lparr> mm_kernel := removeAll fd (mm_kernel k) \<rparr>),
         fcntl_f = \<lambda>_ _ _ k. (Inr 0, k), ioctl_f = \<lambda>_ _ _. ok, getsockopt_f = \<lambda>_ _ _. ok, setsockopt_f = \<lambda>_ _ _ _ _. ok,
         as_timeval = \<lambda>a. case a of TimeValue sec usec \<Rightarrow> (sec, usec) | _ \<Rightarrow> (0, 0) \<rparr>,
       c_ctl = \<lambda>_ _ _ k. (None, k),
       bind_f = \<lambda>_ _ _. ok, listen_f = \<lambda>_ _. ok, unlink_f = \<lambda>_. ok,
       getsockname_f = \<lambda>_ k. (Inl 95, k), getpeername_f = \<lambda>_ k. (Inl 107, k), gettimeo_f = \<lambda>_ _ k. (Inr (0, 0), k) \<rparr>)"

definition demo_socket :: "int \<Rightarrow> socket" where
  "demo_socket fd = \<lparr> sk_fd = fd, sk_family = AF_INET, sk_type = TCP, sk_protocol = 0, sk_connected = True,
     sk_local = None, sk_remote = None \<rparr>"

definition demo_sockets :: "(unit, unit, int list, unit) sock_state" where
  "demo_sockets = \<lparr> hk_enabled = False, hk_iom = None, hk_fds = fst demo_table, hk_infos = [],
     hk_kernel = \<lparr> mm_kernel = [3, 2], mm_sockets = [demo_socket 2, demo_socket 3], mm_errno = 0 \<rparr>, hk_now = 0 \<rparr>"

lemma fold_max_fresh: "1 + fold max xs (0 :: int) \<notin> set xs" "0 \<le> 1 + fold max xs (0 :: int)"
proof -
  have "\<forall>x \<in> set xs. x \<le> fold max xs m" and "m \<le> fold max xs m" for m :: int
    by (induction xs arbitrary: m) (auto intro: order_trans [OF max.cobounded1] order_trans [OF max.cobounded2])
  then have "\<forall>x \<in> set xs. x \<le> fold max xs 0" "0 \<le> fold max xs (0 :: int)" by blast+
  then show "1 + fold max xs (0 :: int) \<notin> set xs" "0 \<le> 1 + fold max xs (0 :: int)" by force+
qed

lemma demo_calls_laws: "kernel_laws set demo_calls"
  using fold_max_fresh by (simp add: kernel_laws_def demo_calls_def Let_def quiet_def opens_def closes_def quiet_opt_def set_eq_iff)

theorem sockets_exclusive_witness:
  "\<exists>s'. run_op demo_calls OpClose (0, 0) [] 0 demo_sockets = Some s' \<and> exclusive set (hk_kernel s')"
proof -
  have "0 < length (mm_sockets (hk_kernel demo_sockets))" by (simp add: demo_sockets_def)
  moreover have "exclusive set (hk_kernel demo_sockets)"
    by (simp add: demo_sockets_def exclusive_def held_fds_def demo_socket_def)
  ultimately show ?thesis using sockets_exclusive [OF demo_calls_laws, of 0 demo_sockets "[]" OpClose "(0, 0)"] by simp
qed

theorem timeout_round_trip_witness:
  "fst (getRecvTimeout demo_calls 0 (setRecvTimeout demo_calls 1500 0 demo_sockets)) = 1500"
proof -
  have fd: "sk_fd (the_sock 0 demo_sockets) = 2" by (simp add: the_sock_def demo_sockets_def demo_socket_def)
  have t: "fm_trackable 2" "fm_lookup (hk_fds demo_sockets) 2 = Some 0" "0 < length (fm_heap (hk_fds demo_sockets))"
    using demo_lookup by (simp_all add: fm_trackable_def fd_kMaxTrackedFd_def demo_sockets_def demo_table_def) code_simp
  have c: "\<forall>v. fst (setsockopt_f (c_orig demo_calls) 2 SOL_SOCKET SO_RCVTIMEO (Some v) 16 (hk_kernel demo_sockets)) = Inr 0 \<and>
      mm_sockets (snd (setsockopt_f (c_orig demo_calls) 2 SOL_SOCKET SO_RCVTIMEO (Some v) 16 (hk_kernel demo_sockets))) =
      mm_sockets (hk_kernel demo_sockets)"
    "\<forall>sec usec. as_timeval (c_orig demo_calls) (TimeValue sec usec) = (sec, usec)"
    by (simp_all add: demo_calls_def Let_def)
  have o: "SO_RCVTIMEO \<in> {SO_RCVTIMEO, SO_SNDTIMEO}" by simp
  have m: "(1500 :: int) < 2 ^ 63" by simp
  show ?thesis unfolding getRecvTimeout_def setRecvTimeout_def using timeout_round_trip [OF fd o o m t c] by simp
qed

end
