(* ===== verification/Tcp_Server.thy ===== *)
theory Tcp_Server
  imports Socket
begin

text \<open>
  The TCP server (include/droplet/tcpserver/tcp_server.h, src/tcpserver/tcp_server.cc) over the sockets of
  \<open>Socket\<close>: binding, starting, stopping, and the loop that accepts connections.

  The server object is part of the memory, like the sockets, because the rest of the program may call
  its methods while one of them waits for the lock or an accept gives up its fiber.  A worker is the
  identity of an IO manager; \<open>mm_posted\<close> are the tasks handed to \<open>schedule\<close>, in order, each with its worker
  (what a scheduler does with a task is modelled in \<open>Scheduler\<close>).  An operation that other threads can
  interrupt takes what they do there as an argument \<open>env\<close>.  Logging is left out; a listener of the server
  is never null.
\<close>

section \<open>The server\<close>

datatype server_task = StartAccept nat | HandleClient nat | CloseListeners "nat list"

record tcp_server =
  ts_worker :: "nat option"
  ts_io_worker :: "nat option"
  ts_accept_worker :: "nat option"
  ts_shared :: bool
  ts_listeners :: "nat list"
  ts_name :: string
  ts_type :: string
  ts_recv_timeout :: u64
  ts_stopped :: bool

record 'w server_memory = "'w memory" +
  mm_server :: tcp_server
  mm_posted :: "(nat \<times> server_task) list"

type_synonym ('u, 'e, 'w, 'z) srv_state = "('u, 'e, ('w, 'z) server_memory_scheme) hook_state"

type_synonym ('u, 'e, 'w, 'z) srv_env = "('u, 'e, ('w, 'z) server_memory_scheme) hook_env"

type_synonym ('b, 'e, 'w, 'z) srv_calls = "('b, 'e, ('w, 'z) server_memory_scheme) calls"

definition kDefaultRecvTimeoutMs :: u64 where "kDefaultRecvTimeoutMs = 120000"
definition E_BUSY :: int where "E_BUSY = 16"
definition SOMAXCONN :: int where "SOMAXCONN = 4096"

text \<open>\<open>configured\<close> is the value of the variable \<open>tcp_server.read_timeout\<close>; \<open>shared\<close> is whether a shared pointer
  owns the object.\<close>

definition TcpServer :: "nat option \<Rightarrow> nat option \<Rightarrow> nat option \<Rightarrow> bool \<Rightarrow> u64 option \<Rightarrow> tcp_server" where
  "TcpServer worker io_worker accept_worker shared configured =
     \<lparr> ts_worker = worker, ts_io_worker = io_worker, ts_accept_worker = accept_worker, ts_shared = shared,
       ts_listeners = [], ts_name = ''droplet/0.1.0'', ts_type = ''tcp'',
       ts_recv_timeout = (case configured of None \<Rightarrow> kDefaultRecvTimeoutMs | Some timeout \<Rightarrow> timeout),
       ts_stopped = True \<rparr>"

abbreviation server :: "('u, 'e, 'w, 'z) srv_state \<Rightarrow> tcp_server" where
  "server s \<equiv> mm_server (hk_kernel s)"

definition on_server :: "(tcp_server \<Rightarrow> tcp_server) \<Rightarrow> ('u, 'e, 'w, 'z) srv_env" where
  "on_server f s = s\<lparr> hk_kernel := (hk_kernel s)\<lparr> mm_server := f (server s) \<rparr> \<rparr>"

definition schedule_on :: "nat \<Rightarrow> server_task \<Rightarrow> ('u, 'e, 'w, 'z) srv_env" where
  "schedule_on worker t s = s\<lparr> hk_kernel := (hk_kernel s)\<lparr> mm_posted := mm_posted (hk_kernel s) @ [(worker, t)] \<rparr> \<rparr>"

definition tcp_setName :: "string \<Rightarrow> ('u, 'e, 'w, 'z) srv_env" where
  "tcp_setName name = on_server (ts_name_update (\<lambda>_. name))"

definition tcp_setType :: "string \<Rightarrow> ('u, 'e, 'w, 'z) srv_env" where
  "tcp_setType type = on_server (ts_type_update (\<lambda>_. type))"

definition tcp_setRecvTimeout :: "u64 \<Rightarrow> ('u, 'e, 'w, 'z) srv_env" where
  "tcp_setRecvTimeout milliseconds = on_server (ts_recv_timeout_update (\<lambda>_. milliseconds))"

section \<open>Binding\<close>

definition closeListeners :: "('b, 'e, 'w, 'z) srv_calls \<Rightarrow> nat list \<Rightarrow> ('u, 'e, 'w, 'z) srv_env" where
  "closeListeners c listeners = fold (\<lambda>p s. snd (Socket_close c p s)) listeners"

text \<open>One address: the listeners, the failures and the last error so far.  A listener that fails is
  destroyed at the end of its turn.\<close>

definition bind_one ::
  "('b, 'e, 'w, 'z) srv_calls \<Rightarrow> address option \<Rightarrow>
   (nat list \<times> address option list \<times> int) \<times> ('u, 'e, 'w, 'z) srv_state \<Rightarrow>
   (nat list \<times> address option list \<times> int) \<times> ('u, 'e, 'w, 'z) srv_state" where
  "bind_one c address r =
     (let ((listeners, failures, last_error), s) = r
      in case address of
           None \<Rightarrow> ((listeners, failures @ [address], E_INVAL), s)
         | Some a \<Rightarrow>
             let (p, s) = Socket_new (getFamily a) TCP 0 s;
                 (bound, s) = Socket_bind c address p s;
                 (ok, s) = (if bound then Socket_listen c SOMAXCONN p s else (False, s))
             in if ok then ((listeners @ [p], failures, last_error), s)
                else ((listeners, failures @ [address], mm_errno (hk_kernel s)), Socket_destroy c p s))"

text \<open>\<open>env\<close> is what other threads do before the lock is taken.  The failures go to the caller's vector.\<close>

definition server_bind ::
  "('b, 'e, 'w, 'z) srv_calls \<Rightarrow> address option list \<Rightarrow> ('u, 'e, 'w, 'z) srv_env \<Rightarrow> ('u, 'e, 'w, 'z) srv_state \<Rightarrow>
   (bool \<times> address option list) \<times> ('u, 'e, 'w, 'z) srv_state" where
  "server_bind c addresses env s =
     (if addresses = [] then ((False, []), set_errno E_INVAL s)
      else if \<not> ts_stopped (server s) then ((False, []), set_errno E_BUSY s)
      else let ((listeners, failures, last_error), s) = fold (bind_one c) addresses (([], [], 0), s)
           in if failures \<noteq> [] then ((False, failures), set_errno last_error (closeListeners c listeners s))
              else let s = env s
                   in if \<not> ts_stopped (server s) then ((False, []), set_errno E_BUSY (closeListeners c listeners s))
                      else ((True, []), on_server (ts_listeners_update (\<lambda>ls. ls @ listeners)) s))"

definition server_bind_one ::
  "('b, 'e, 'w, 'z) srv_calls \<Rightarrow> address option \<Rightarrow> ('u, 'e, 'w, 'z) srv_env \<Rightarrow> ('u, 'e, 'w, 'z) srv_state \<Rightarrow>
   bool \<times> ('u, 'e, 'w, 'z) srv_state" where
  "server_bind_one c address env s = (let ((ok, failures), s) = server_bind c [address] env s in (ok, s))"

section \<open>Starting and stopping\<close>

text \<open>\<open>env\<close> is what other threads do once the lock is released.\<close>

definition server_start ::
  "('u, 'e, 'w, 'z) srv_env \<Rightarrow> ('u, 'e, 'w, 'z) srv_state \<Rightarrow> bool \<times> ('u, 'e, 'w, 'z) srv_state" where
  "server_start env s =
     (let v = server s
      in if ts_worker v = None \<or> ts_io_worker v = None \<or> ts_accept_worker v = None then (False, set_errno E_INVAL s)
         else if \<not> ts_shared v then (False, set_errno E_INVAL s)
         else if \<not> ts_stopped v then (True, s)
         else if ts_listeners v = [] then (False, set_errno E_INVAL s)
         else let s = env (on_server (ts_stopped_update (\<lambda>_. False)) s)
              in (True, fold (\<lambda>p. schedule_on (the (ts_accept_worker v)) (StartAccept p)) (ts_listeners v) s))"

text \<open>\<open>this\<close> is the IO manager of the calling thread; \<open>env\<close> is what other threads do between the exchange
  of \<open>stopped_\<close> and the lock.\<close>

definition server_stop ::
  "('b, 'e, 'w, 'z) srv_calls \<Rightarrow> nat option \<Rightarrow> ('u, 'e, 'w, 'z) srv_env \<Rightarrow> ('u, 'e, 'w, 'z) srv_env" where
  "server_stop c this env s =
     (let was_running = \<not> ts_stopped (server s);
          s = env (on_server (ts_stopped_update (\<lambda>_. True)) s);
          v = server s;
          listeners = ts_listeners v;
          s = on_server (ts_listeners_update (\<lambda>_. [])) s
      in if listeners = [] then s
         else if \<not> was_running \<or> ts_accept_worker v = None then closeListeners c listeners s
         else if \<not> ts_shared v \<or> this = ts_accept_worker v then closeListeners c listeners s
         else schedule_on (the (ts_accept_worker v)) (CloseListeners listeners) s)"

definition server_destroy :: "('b, 'e, 'w, 'z) srv_calls \<Rightarrow> ('u, 'e, 'w, 'z) srv_env" where
  "server_destroy c s =
     closeListeners c (ts_listeners (server s)) (on_server (ts_listeners_update (\<lambda>_. [])) s)"

section \<open>Accepting\<close>

definition client_timeout :: "u64 \<Rightarrow> int" where
  "client_timeout timeout = (if timeout = UINT64_MAX then - 1 else min (uint timeout) (2 ^ 63 - 1))"

text \<open>One turn of the loop: whether there is another.  \<open>others\<close> is what the rest of the program does while
  the accept waits, \<open>naps\<close> while the pause after an error does.\<close>

definition accept_turn ::
  "('b, 'e, 'w, 'z) srv_calls \<Rightarrow> nat \<times> u32 \<Rightarrow> ('u, 'e, 'w, 'z) srv_env list \<Rightarrow> ('u, 'e, 'w, 'z) srv_env list \<Rightarrow> nat \<Rightarrow>
   ('u, 'e, 'w, 'z) srv_state \<Rightarrow> (bool, ('u, 'e, 'w, 'z) srv_state) turn option" where
  "accept_turn c current others naps listener s =
     (case Socket_accept c current others listener s of
        None \<Rightarrow> None
      | Some (Waits s) \<Rightarrow> Some (Waits s)
      | Some (Done (Some client) s) \<Rightarrow>
          let s = setRecvTimeout c (client_timeout (ts_recv_timeout (server s))) client s
          in Some (Done True (schedule_on (the (ts_io_worker (server s))) (HandleClient client) s))
      | Some (Done None s) \<Rightarrow>
          let error = mm_errno (hk_kernel s)
          in if ts_stopped (server s) \<or> error = E_BADF \<or> error = E_INVAL then Some (Done False s)
             else case hook_usleep (c_orig c) 10000 current naps s of
                    Returned _ s \<Rightarrow> Some (Done True s)
                  | Held _ s \<Rightarrow> Some (Waits s))"

definition accepting :: "nat \<Rightarrow> ('u, 'e, 'w, 'z) srv_state \<Rightarrow> bool" where
  "accepting listener s \<longleftrightarrow> \<not> ts_stopped (server s) \<and> sk_fd (the_sock listener s) \<noteq> - 1"

text \<open>\<open>rounds\<close> has one element for each turn; a loop that has used them up has not ended.\<close>

fun startAccept ::
  "('b, 'e, 'w, 'z) srv_calls \<Rightarrow> nat \<times> u32 \<Rightarrow> (('u, 'e, 'w, 'z) srv_env list \<times> ('u, 'e, 'w, 'z) srv_env list) list \<Rightarrow> nat \<Rightarrow>
   ('u, 'e, 'w, 'z) srv_state \<Rightarrow> (unit, ('u, 'e, 'w, 'z) srv_state) turn option" where
  "startAccept c current [] listener s = Some (if accepting listener s then Waits s else Done () s)"
| "startAccept c current ((others, naps) # rounds) listener s =
     (if \<not> accepting listener s then Some (Done () s)
      else case accept_turn c current others naps listener s of
             None \<Rightarrow> None
           | Some (Waits s) \<Rightarrow> Some (Waits s)
           | Some (Done again s) \<Rightarrow> if again then startAccept c current rounds listener s else Some (Done () s))"

section \<open>Printing\<close>

text \<open>\<open>names\<close> are the names of the IO managers, \<open>ntop\<close> is \<open>inet_ntop\<close>.\<close>

definition server_toString :: "(nat \<Rightarrow> string) \<Rightarrow> (int \<Rightarrow> bytes \<Rightarrow> string option) \<Rightarrow> string \<Rightarrow> ('u, 'e, 'w, 'z) srv_state \<Rightarrow> string" where
  "server_toString names ntop prefix s =
     (let v = server s; worker = \<lambda>w. case w of None \<Rightarrow> [] | Some i \<Rightarrow> names i
      in prefix @ ''[type='' @ ts_type v @ '' name='' @ ts_name v @ '' worker='' @ worker (ts_worker v) @
         '' io_worker='' @ worker (ts_io_worker v) @ '' accept_worker='' @ worker (ts_accept_worker v) @
         '' recv_timeout='' @ show_nat (unat (ts_recv_timeout v)) @ '' stopped='' @ (if ts_stopped v then ''1'' else ''0'') @ '']'' @
         concat (map (\<lambda>p. CHR 0x0A # prefix @ ''  '' @ socket_dump ntop (the_sock p s)) (ts_listeners v)))"

section \<open>One socket at a time\<close>

text \<open>The documented behaviour of the kernel: no call touches a socket object or the server.\<close>

definition discreet :: "('b, 'e, 'w, 'z) sock_calls \<Rightarrow> bool" where
  "discreet c \<longleftrightarrow>
     (\<forall>g \<in> plain_calls c. \<forall>k. mm_sockets (g k) = mm_sockets k \<and> memory.more (g k) = memory.more k) \<and>
     (\<forall>a b d k. mm_sockets (snd (socket_f (c_orig c) a b d k)) = mm_sockets k \<and>
        memory.more (snd (socket_f (c_orig c) a b d k)) = memory.more k) \<and>
     (\<forall>fd k. mm_sockets (snd (close_f (c_orig c) fd k)) = mm_sockets k \<and>
        memory.more (snd (close_f (c_orig c) fd k)) = memory.more k) \<and>
     (\<forall>n k. mm_sockets (snd (usleep_f (c_orig c) n k)) = mm_sockets k)"

definition only :: "nat \<Rightarrow> ('w, 'z) memory_scheme \<Rightarrow> ('w, 'z) memory_scheme \<Rightarrow> bool" where
  "only p k k' \<longleftrightarrow> length (mm_sockets k') = length (mm_sockets k) \<and>
     (\<forall>i. i \<noteq> p \<longrightarrow> mm_sockets k' ! i = mm_sockets k ! i) \<and> memory.more k' = memory.more k"

definition only_fd :: "nat \<Rightarrow> ('w, 'z) memory_scheme \<Rightarrow> ('w, 'z) memory_scheme \<Rightarrow> bool" where
  "only_fd p k k' \<longleftrightarrow> only p k k' \<and> sk_fd (mm_sockets k' ! p) = sk_fd (mm_sockets k ! p)"

lemma only_trans: "only p k1 k2 \<Longrightarrow> only p k2 k3 \<Longrightarrow> only p k1 k3"
  by (simp add: only_def)

lemma only_steps: "discreet c \<Longrightarrow> steps (only p) c p"
  by (auto simp: steps_def only_def discreet_def)

lemma only_fd_steps: assumes "discreet c" shows "steps (only_fd p) c p"
proof -
  have "sk_fd ((mm_sockets k)[p := f (mm_sockets k ! p)] ! p) = sk_fd (mm_sockets k ! p)"
    if "\<forall>x. sk_fd (f x) = sk_fd x" for k :: "('c, 'd) memory_scheme" and f
    using that by (cases "p < length (mm_sockets k)") (simp_all add: list_update_beyond)
  then show ?thesis using assms by (auto simp: steps_def only_fd_def only_def discreet_def)
qed

lemma on_sock_only: "only p k (hk_kernel s) \<Longrightarrow> only p k (hk_kernel (on_sock p f s))"
  by (simp add: only_def on_sock_def)

lemma newSock_only: assumes "discreet c" shows "only p (hk_kernel s) (hk_kernel (newSock c p s))"
proof -
  note st = only_steps [OF assms, of p]
  let ?k = "the_sock p s"
  obtain r s1 where h: "hook_socket (c_os c) (c_orig c) (sk_family ?k) (sk_type ?k) (sk_protocol ?k) s = (r, s1)" by fastforce
  obtain v k where f: "socket_f (c_orig c) (sk_family ?k) (sk_type ?k) (sk_protocol ?k) (hk_kernel s) = (v, k)" by fastforce
  have k: "only p (hk_kernel s) k" using assms f unfolding discreet_def only_def by (metis snd_conv)
  have "only p (hk_kernel s) (hk_kernel (track_nonblock (c_os c) b fd (s\<lparr> hk_kernel := k \<rparr>)))" for b fd
    using hk_get_kept [OF keeps_os_step [OF st], of "hk_kernel s" "s\<lparr> hk_kernel := k \<rparr>" fd True] k
    by (auto simp: track_nonblock_def split: prod.splits)
  then have "only p (hk_kernel s) (hk_kernel s1)"
    using h f k by (auto simp: hook_socket_def on_kernel_def split: sum.splits if_splits)
  then have u: "only p (hk_kernel s) (hk_kernel (on_sock p g (snd (c_result r s1))))" for g
    by (intro on_sock_only only_trans [OF _ c_result_step [OF st]])
  have i: "only p (hk_kernel s) (hk_kernel (initSock c p (on_sock p g (snd (c_result r s1)))))" for g
    by (rule only_trans [OF u initSock_step [OF st]])
  show ?thesis using h u i by (auto simp: newSock_def Let_def case_prod_unfold only_def)
qed

lemma untrack_only: "discreet c \<Longrightarrow> only p (hk_kernel s) (hk_kernel (untrack (c_os c) ctl fd s))"
  using hk_get_step [OF only_steps, of c p s fd False] by (auto simp: untrack_def Let_def split: prod.splits option.splits)

text \<open>A closed socket has no descriptor, and no other object is touched.\<close>

lemma Socket_close_only:
  assumes "discreet c"
  shows "only p (hk_kernel s) (hk_kernel (snd (Socket_close c p s)))"
    and "p < length (mm_sockets (hk_kernel s)) \<Longrightarrow> sk_fd (the_sock p (snd (Socket_close c p s))) = - 1"
proof -
  let ?fd = "sk_fd (the_sock p s)" and ?g = "\<lambda>k. k\<lparr> sk_fd := - 1, sk_connected := False \<rparr>"
  let ?s = "untrack (c_os c) (c_ctl c) ?fd s"
  obtain r k where f: "close_f (c_orig c) ?fd (hk_kernel ?s) = (r, k)" by fastforce
  let ?t = "snd (c_result r (?s\<lparr> hk_kernel := k \<rparr>))"
  have "only p (hk_kernel ?s) k" using assms f unfolding discreet_def only_def by (metis snd_conv)
  then have "only p (hk_kernel s) (hk_kernel (?s\<lparr> hk_kernel := k \<rparr>))" using only_trans [OF untrack_only [OF assms]] by simp
  then have t: "only p (hk_kernel s) (hk_kernel ?t)" by (rule only_trans [OF _ c_result_step [OF only_steps [OF assms]]])
  have c: "snd (Socket_close c p s) = (if ?fd = - 1 then on_sock p (sk_connected_update (\<lambda>_. False)) s else on_sock p ?g ?t)"
    using f by (simp add: Socket_close_def hook_close_def on_kernel_def Let_def case_prod_unfold)
  show "only p (hk_kernel s) (hk_kernel (snd (Socket_close c p s)))"
    unfolding c using on_sock_only [OF t] on_sock_only [of p "hk_kernel s" s] by (simp add: only_def)
  assume p: "p < length (mm_sockets (hk_kernel s))"
  then have "p < length (mm_sockets (hk_kernel ?t))" using t by (simp add: only_def)
  then show "sk_fd (the_sock p (snd (Socket_close c p s))) = - 1"
    unfolding c using p by (simp add: the_sock_def on_sock_def)
qed

lemma Socket_bind_only:
  assumes "discreet c" and "Socket_bind c a p s = (ok, s')"
  shows "only p (hk_kernel s) (hk_kernel s')" "ok \<Longrightarrow> sk_fd (the_sock p s') \<noteq> - 1"
proof -
  have "only p (hk_kernel s) (hk_kernel s') \<and> (ok \<longrightarrow> sk_fd (the_sock p s') \<noteq> - 1)"
  proof (cases "\<exists>x. a = Some x \<and> getFamily x = sk_family (the_sock p s)")
    case True
    then obtain x where x: "a = Some x" "getFamily x = sk_family (the_sock p s)" by blast
    note r = bind_rest_step [OF only_fd_steps [OF assms(1)] assms(2) [unfolded x(1)] x(2)]
    then show ?thesis using only_trans [OF newSock_only [OF assms(1), of p s]]
      by (auto simp: only_fd_def the_sock_def)
  next
    case False
    then show ?thesis using assms(2) errno_step [OF only_steps [OF assms(1)]]
      by (auto simp: Socket_bind_def split: option.splits if_splits)
  qed
  then show "only p (hk_kernel s) (hk_kernel s')" "ok \<Longrightarrow> sk_fd (the_sock p s') \<noteq> - 1" by blast+
qed

lemma more_server: "memory.more k' = memory.more k \<Longrightarrow> mm_server k' = mm_server k"
  by (cases k, cases k') simp

lemma closeListeners_effect:
  assumes "discreet c"
  shows "length (mm_sockets (hk_kernel (closeListeners c ls s))) = length (mm_sockets (hk_kernel s)) \<and>
    memory.more (hk_kernel (closeListeners c ls s)) = memory.more (hk_kernel s) \<and>
    (\<forall>i. i \<notin> set ls \<longrightarrow> the_sock i (closeListeners c ls s) = the_sock i s) \<and>
    (\<forall>i \<in> set ls. i < length (mm_sockets (hk_kernel s)) \<longrightarrow> sk_fd (the_sock i (closeListeners c ls s)) = - 1)"
proof (induction ls rule: rev_induct)
  case (snoc p ls)
  let ?s = "closeListeners c ls s"
  have s: "closeListeners c (ls @ [p]) s = snd (Socket_close c p ?s)" by (simp add: closeListeners_def)
  note o = Socket_close_only [OF assms, of p ?s, unfolded only_def]
  show ?case unfolding s using snoc o by (auto simp: the_sock_def) (metis the_sock_def)+
qed (simp add: closeListeners_def)

section \<open>All or nothing\<close>

definition asked :: "address option list \<Rightarrow> nat" where
  "asked addresses = length (filter (\<lambda>a. a \<noteq> None) addresses)"

text \<open>What holds after some of the addresses: there is one new object for each, those of the listeners are
  open and the others closed, and nothing else has changed.\<close>

definition bind_inv ::
  "('w, 'z) server_memory_scheme \<Rightarrow> address option list \<Rightarrow>
   (nat list \<times> address option list \<times> int) \<times> ('u, 'e, 'w, 'z) srv_state \<Rightarrow> bool" where
  "bind_inv k0 finished r \<longleftrightarrow>
     (let ((ls, fs, e), s) = r; n = length (mm_sockets k0); m = asked finished
      in length (mm_sockets (hk_kernel s)) = n + m \<and> memory.more (hk_kernel s) = memory.more k0 \<and>
         (\<forall>i < n. the_sock i s = mm_sockets k0 ! i) \<and>
         (\<forall>i. n \<le> i \<longrightarrow> i < n + m \<longrightarrow> (i \<in> set ls \<longleftrightarrow> sk_fd (the_sock i s) \<noteq> - 1)) \<and>
         set ls \<subseteq> {n..<n + m} \<and> (fs = [] \<longrightarrow> ls = [n..<n + m] \<and> m = length finished))"

lemma bind_one_inv:
  fixes r :: "(nat list \<times> address option list \<times> int) \<times> ('u, 'e, 'w, 'z) srv_state"
  assumes d: "discreet c" and i: "bind_inv k0 finished r"
  shows "bind_inv k0 (finished @ [a]) (bind_one c a r)"
proof -
  obtain ls fs e and s :: "('u, 'e, 'w, 'z) srv_state" where r: "r = ((ls, fs, e), s)" by (metis surj_pair)
  show ?thesis
  proof (cases a)
    case None
    then show ?thesis using i r by (simp add: bind_one_def bind_inv_def asked_def Let_def)
  next
    case (Some x)
    let ?n = "length (mm_sockets k0)" and ?m = "asked finished"
    define s1 where "s1 = snd (Socket_new (getFamily x) TCP 0 s)"
    let ?p = "?n + ?m"
    obtain bound s2 where b: "Socket_bind c (Some x) ?p s1 = (bound, s2)" by fastforce
    obtain ok s3 where l: "(if bound then Socket_listen c SOMAXCONN ?p s2 else (False, s2)) = (ok, s3)" by fastforce
    have inv: "length (mm_sockets (hk_kernel s)) = ?p" "memory.more (hk_kernel s) = memory.more k0"
      "\<forall>i < ?n. the_sock i s = mm_sockets k0 ! i"
      "\<forall>i. ?n \<le> i \<longrightarrow> i < ?p \<longrightarrow> (i \<in> set ls \<longleftrightarrow> sk_fd (the_sock i s) \<noteq> - 1)"
      "set ls \<subseteq> {?n..<?p}" "fs = [] \<longrightarrow> ls = [?n..<?p] \<and> ?m = length finished"
      using i by (simp_all add: r bind_inv_def Let_def)
    then have p: "Socket_new (getFamily x) TCP 0 s = (?p, s1)" by (simp add: s1_def Socket_new_def)
    have s1: "length (mm_sockets (hk_kernel s1)) = Suc ?p" "memory.more (hk_kernel s1) = memory.more k0"
      "i < ?p \<Longrightarrow> mm_sockets (hk_kernel s1) ! i = mm_sockets (hk_kernel s) ! i" for i
      using inv by (simp_all add: s1_def Socket_new_def nth_append)
    note bo = Socket_bind_only [OF d b]
    have lo: "only_fd ?p (hk_kernel s2) (hk_kernel s3)"
      using listen_step [OF only_fd_steps [OF d, of ?p], of s2 SOMAXCONN] l step_refl [OF only_fd_steps [OF d, of ?p]]
      by (auto split: if_splits)
    then have o: "only ?p (hk_kernel s1) (hk_kernel s3)" using only_trans [OF bo(1)] by (simp add: only_fd_def)
    then have s3: "length (mm_sockets (hk_kernel s3)) = Suc ?p" "memory.more (hk_kernel s3) = memory.more k0"
      "i < ?p \<Longrightarrow> mm_sockets (hk_kernel s3) ! i = mm_sockets (hk_kernel s) ! i" for i
      using s1 by (simp_all add: only_def)
    have open_fd: "ok \<Longrightarrow> sk_fd (the_sock ?p s3) \<noteq> - 1"
      using bo(2) lo l by (auto simp: only_fd_def the_sock_def split: if_splits)
    have m: "asked (finished @ [a]) = Suc ?m" using Some by (simp add: asked_def)
    have result: "bind_one c a r = (if ok then ((ls @ [?p], fs, e), s3)
        else ((ls, fs @ [a], mm_errno (hk_kernel s3)), Socket_destroy c ?p s3))"
      using p b l by (simp add: r Some bind_one_def)
    show ?thesis
    proof (cases ok)
      case True
      then show ?thesis
        unfolding result using inv s3 open_fd by (auto simp: bind_inv_def Let_def m the_sock_def less_Suc_eq)
    next
      case False
      note cl = Socket_close_only [OF d, of ?p s3]
      define s4 where "s4 = snd (Socket_close c ?p s3)"
      have s4: "length (mm_sockets (hk_kernel s4)) = Suc ?p" "memory.more (hk_kernel s4) = memory.more k0"
        "i < ?p \<Longrightarrow> mm_sockets (hk_kernel s4) ! i = mm_sockets (hk_kernel s) ! i" for i
        using cl(1) s3 by (simp_all add: s4_def only_def)
      have "sk_fd (mm_sockets (hk_kernel s4) ! ?p) = - 1" using cl(2) s3(1) by (simp add: s4_def the_sock_def)
      moreover have "?p \<notin> set ls" using inv(5) by auto
      ultimately show ?thesis
        unfolding result using False inv s4 by (auto simp: bind_inv_def Let_def m the_sock_def less_Suc_eq Socket_destroy_def s4_def [symmetric])
    qed
  qed
qed

lemma bind_all_inv: "discreet c \<Longrightarrow> bind_inv k0 finished r \<Longrightarrow> bind_inv k0 (finished @ as) (fold (bind_one c) as r)"
proof (induction as arbitrary: finished r)
  case (Cons a as)
  from Cons.IH [OF Cons.prems(1) bind_one_inv [OF Cons.prems, of a]] show ?case by simp
qed simp

text \<open>C18: Binding is all or nothing.  A stopped server that is asked to bind makes one socket for each
  address; when it succeeds every one of them is open, and they become its last listeners, in the
  order of the addresses; when it fails every one of them is closed again and the server is as it was
  (or as another thread left it, when that thread had started it in the meantime).  Other threads may
  do anything before the lock is taken, except touch the sockets of this call, which they do not
  know.\<close>

theorem bind_all_or_nothing:
  fixes s :: "('u, 'e, 'w, 'z) srv_state"
  assumes d: "discreet c" and addresses: "addresses \<noteq> []" "ts_stopped (server s)"
    and env: "\<forall>s1 i. length (mm_sockets (hk_kernel s)) \<le> i \<longrightarrow> i < length (mm_sockets (hk_kernel s1)) \<longrightarrow>
      the_sock i (env s1) = the_sock i s1 \<and> i < length (mm_sockets (hk_kernel (env s1)))"
    and r: "server_bind c addresses env s = ((ok, failures), s')"
  shows "let n = length (mm_sockets (hk_kernel s)); new = [n..<n + asked addresses]
    in if ok
       then failures = [] \<and> length new = length addresses \<and> (\<forall>p \<in> set new. sk_fd (the_sock p s') \<noteq> - 1) \<and>
         (\<exists>s1. ts_stopped (server (env s1)) \<and>
           server s' = (server (env s1))\<lparr> ts_listeners := ts_listeners (server (env s1)) @ new \<rparr>)
       else (\<forall>p \<in> set new. sk_fd (the_sock p s') = - 1) \<and>
         (server s' = server s \<or> (\<exists>s1. \<not> ts_stopped (server (env s1)) \<and> server s' = server (env s1)))"
proof -
  let ?n = "length (mm_sockets (hk_kernel s))" and ?m = "asked addresses"
  obtain ls fs e and s1 :: "('u, 'e, 'w, 'z) srv_state" where f: "fold (bind_one c) addresses (([], [], 0), s) = ((ls, fs, e), s1)"
    by (metis surj_pair)
  have "bind_inv (hk_kernel s) [] (([], [], 0), s)" by (simp add: bind_inv_def Let_def asked_def the_sock_def)
  from bind_all_inv [OF d this, of addresses] have inv: "length (mm_sockets (hk_kernel s1)) = ?n + ?m"
    "memory.more (hk_kernel s1) = memory.more (hk_kernel s)"
    "\<forall>i. ?n \<le> i \<longrightarrow> i < ?n + ?m \<longrightarrow> (i \<in> set ls \<longleftrightarrow> sk_fd (the_sock i s1) \<noteq> - 1)"
    "fs = [] \<longrightarrow> ls = [?n..<?n + ?m] \<and> ?m = length addresses"
    by (simp_all add: f bind_inv_def Let_def)
  have closed: "(\<forall>i. ?n \<le> i \<longrightarrow> i < ?n + ?m \<longrightarrow> sk_fd (the_sock i (set_errno x (closeListeners c ls t))) = - 1) \<and>
      server (set_errno x (closeListeners c ls t)) = server t"
    if same: "\<forall>i. ?n \<le> i \<longrightarrow> i < ?n + ?m \<longrightarrow> the_sock i t = the_sock i s1 \<and> i < length (mm_sockets (hk_kernel t))" for x and t :: "('u, 'e, 'w, 'z) srv_state"
  proof -
    note cl = closeListeners_effect [OF d, of ls t]
    then have "sk_fd (the_sock i (closeListeners c ls t)) = - 1" if "?n \<le> i" "i < ?n + ?m" for i
      using same inv(3) that by (cases "i \<in> set ls") auto
    moreover have "server (closeListeners c ls t) = server t" by (rule more_server) (use cl in blast)
    ultimately show ?thesis by (simp add: set_errno_def the_sock_def)
  qed
  show ?thesis
  proof (cases "fs = []")
    case False
    then have "ok = False" "s' = set_errno e (closeListeners c ls s1)"
      using r addresses f by (auto simp: server_bind_def)
    moreover have "server s1 = server s" by (rule more_server) (rule inv(2))
    ultimately show ?thesis using closed [where x = e and t = s1] inv(1) by (simp add: Let_def)
  next
    case True
    have e: "\<forall>i. ?n \<le> i \<longrightarrow> i < ?n + ?m \<longrightarrow> the_sock i (env s1) = the_sock i s1 \<and> i < length (mm_sockets (hk_kernel (env s1)))"
      using env inv(1) by simp
    show ?thesis
    proof (cases "ts_stopped (server (env s1))")
      case False
      then have "ok = False" "s' = set_errno E_BUSY (closeListeners c ls (env s1))"
        using r addresses f True by (auto simp: server_bind_def Let_def)
      then show ?thesis using closed [where x = E_BUSY, OF e] False by (auto simp: Let_def)
    next
      case stop: True
      then have s': "ok" "failures = []" "s' = on_server (ts_listeners_update (\<lambda>xs. xs @ ls)) (env s1)"
        using r addresses f True by (auto simp: server_bind_def Let_def)
      then have "the_sock i s' = the_sock i (env s1)" for i by (simp add: on_server_def the_sock_def)
      then have "\<forall>p \<in> set [?n..<?n + ?m]. sk_fd (the_sock p s') \<noteq> - 1" using e inv(3,4) True by auto
      moreover have "server s' = (server (env s1))\<lparr> ts_listeners := ts_listeners (server (env s1)) @ [?n..<?n + ?m] \<rparr>"
        using s'(3) inv(4) True by (simp add: on_server_def)
      ultimately show ?thesis using s' inv(4) True stop by (auto simp: Let_def)
    qed
  qed
qed

section \<open>Starting while stopping\<close>

text \<open>The window in \<open>stop\<close>.  A running server is stopped by one thread and started again by another
  between the exchange of \<open>stopped_\<close> and the lock: \<open>start\<close> succeeds and hands every listener to the accept
  worker, and then \<open>stop\<close> takes the listeners away.  The server is left running without a listener,
  a later \<open>start\<close> reports success without doing anything, and a later \<open>bind\<close> fails with \<open>EBUSY\<close>.\<close>

theorem stop_start_race:
  fixes s :: "('u, 'e, 'w, 'z) srv_state"
  assumes d: "discreet c" and up: "\<not> ts_stopped (server s)" "ts_shared (server s)" "ts_listeners (server s) \<noteq> []"
    and workers: "ts_worker (server s) \<noteq> None" "ts_io_worker (server s) \<noteq> None" "ts_accept_worker (server s) = Some w"
  shows "let s' = server_stop c this (\<lambda>s. snd (server_start id s)) s
    in \<not> ts_stopped (server s') \<and> ts_listeners (server s') = [] \<and>
       (\<exists>ts. mm_posted (hk_kernel s') = mm_posted (hk_kernel s) @ map (\<lambda>p. (w, StartAccept p)) (ts_listeners (server s)) @ ts) \<and>
       server_start env s' = (True, s') \<and>
       (addresses \<noteq> [] \<longrightarrow> server_bind c addresses env s' = ((False, []), set_errno E_BUSY s'))"
proof -
  let ?v = "server s" and ?ls = "ts_listeners (server s)"
  have posted: "fold (\<lambda>p. schedule_on w (StartAccept p)) ps x =
      x\<lparr> hk_kernel := (hk_kernel x)\<lparr> mm_posted := mm_posted (hk_kernel x) @ map (\<lambda>p. (w, StartAccept p)) ps \<rparr> \<rparr>"
    for ps and x :: "('u, 'e, 'w, 'z) srv_state"
    by (induction ps arbitrary: x) (simp_all add: schedule_on_def)
  define s1 where "s1 = snd (server_start id (on_server (ts_stopped_update (\<lambda>_. True)) s))"
  have s1: "server s1 = ?v\<lparr> ts_stopped := False \<rparr>"
    "mm_posted (hk_kernel s1) = mm_posted (hk_kernel s) @ map (\<lambda>p. (w, StartAccept p)) ?ls"
    using up workers by (auto simp: s1_def server_start_def on_server_def Let_def posted)
  define s2 where "s2 = on_server (ts_listeners_update (\<lambda>_. [])) s1"
  have s2: "server s2 = ?v\<lparr> ts_stopped := False, ts_listeners := [] \<rparr>" "mm_posted (hk_kernel s2) = mm_posted (hk_kernel s1)"
    using s1 by (simp_all add: s2_def on_server_def)
  define s' where "s' = server_stop c this (\<lambda>s. snd (server_start id s)) s"
  have s': "s' = (if this = Some w then closeListeners c ?ls s2 else schedule_on w (CloseListeners ?ls) s2)"
    using up workers s1 unfolding s'_def server_stop_def Let_def s1_def [symmetric] s2_def [symmetric] by simp
  have more: "memory.more (hk_kernel (closeListeners c ?ls s2)) = memory.more (hk_kernel s2)"
    using closeListeners_effect [OF d] by blast
  have p: "mm_posted k' = mm_posted k" if "memory.more k' = memory.more k" for k k' :: "('w, 'z) server_memory_scheme"
    using that by (cases k, cases k') simp
  have v: "server s' = ?v\<lparr> ts_stopped := False, ts_listeners := [] \<rparr>"
    using s2(1) more_server [OF more] by (simp add: s' schedule_on_def)
  moreover have "\<exists>ts. mm_posted (hk_kernel s') = mm_posted (hk_kernel s) @ map (\<lambda>p. (w, StartAccept p)) ?ls @ ts"
    using s2(2) s1(2) p [OF more] by (auto simp: s' schedule_on_def)
  ultimately show ?thesis
    unfolding Let_def s'_def [symmetric] using up workers by (auto simp: server_start_def server_bind_def Let_def)
qed

section \<open>Closing a listener that accepts\<close>

lemma untrack_fds:
  "hk_fds (untrack os ctl fd s) =
     (case fm_lookup (hk_fds s) fd of
        Some y \<Rightarrow> if fm_trackable fd then FdManager_del fd (markClosed y (hk_fds s)) else hk_fds s
      | None \<Rightarrow> hk_fds s)"
proof (cases "fm_trackable fd")
  case False
  then show ?thesis by (simp add: untrack_def hk_get_def Let_def get_out_of_range split: option.split)
next
  case True
  then show ?thesis
    by (cases "fm_lookup (hk_fds s) fd") (simp_all add: untrack_def hk_get_def get_absent get_found Let_def)
qed

lemma close_fds:
  "hk_fds (snd (Socket_close c q s)) =
     (if sk_fd (the_sock q s) = - 1 then hk_fds s else hk_fds (untrack (c_os c) (c_ctl c) (sk_fd (the_sock q s)) s))"
  by (auto simp: Socket_close_def hook_close_def on_kernel_def c_result_def set_errno_def on_sock_def Let_def case_prod_unfold split: sum.splits)

lemma markClosed_stays: "fd_closed (fm_ctx m x) \<Longrightarrow> fd_closed (fm_ctx (markClosed y m) x)"
  by (cases "y < length (fm_heap m)") (auto simp: markClosed_def fm_update_def fm_ctx_def nth_list_update list_update_beyond)

lemma del_stays: "fd_closed (fm_ctx m x) \<Longrightarrow> fd_closed (fm_ctx (FdManager_del fd m) x)"
  using markClosed_stays by (auto simp: FdManager_del_def fm_ctx_def split: option.split)

lemma markClosed_inv: "fm_inv m \<Longrightarrow> fm_lookup m fd = Some y \<Longrightarrow> fm_inv (markClosed y m)"
  unfolding markClosed_def by (rule fm_inv_update) (auto simp: keeps_identity_def fm_inv_def)

text \<open>The listener \<open>p\<close> has the descriptor \<open>fd\<close>, tracked as \<open>x\<close>, or has been closed.\<close>

definition tracked :: "nat \<Rightarrow> int \<Rightarrow> nat \<Rightarrow> ('u, 'e, 'w, 'z) sock_state \<Rightarrow> bool" where
  "tracked p fd x s \<longleftrightarrow> fm_inv (hk_fds s) \<and> p < length (mm_sockets (hk_kernel s)) \<and>
     (sk_fd (the_sock p s) = fd \<and> fm_lookup (hk_fds s) fd = Some x \<or> sk_fd (the_sock p s) \<in> {fd, - 1} \<and> fd_closed (hk_ctx s x))"

lemma close_tracked:
  assumes d: "discreet c" and fd: "fm_trackable fd" and t: "tracked p fd x s"
  shows "tracked p fd x (snd (Socket_close c q s))"
    and "q = p \<Longrightarrow> sk_fd (the_sock p (snd (Socket_close c q s))) = - 1 \<and> fd_closed (hk_ctx (snd (Socket_close c q s)) x)"
proof -
  let ?s = "snd (Socket_close c q s)" and ?g = "sk_fd (the_sock q s)"
  note o = Socket_close_only [OF d, of q s]
  have len: "length (mm_sockets (hk_kernel ?s)) = length (mm_sockets (hk_kernel s))" using o(1) by (simp add: only_def)
  have p: "p < length (mm_sockets (hk_kernel s))" using t by (simp add: tracked_def)
  have fd': "fd \<noteq> - 1" using fd by (auto simp: fm_trackable_def)
  have inv: "fm_inv (hk_fds ?s)"
    using t fm_inv_del [OF markClosed_inv] by (auto simp: close_fds untrack_fds tracked_def split: option.splits)
  have stays: "fd_closed (hk_ctx ?s x)" if "fd_closed (hk_ctx s x)"
    using that del_stays [OF markClosed_stays] by (auto simp: close_fds untrack_fds split: option.splits)
  have hit: "fd_closed (hk_ctx ?s x)" if "?g = fd" "fm_lookup (hk_fds s) fd = Some x"
  proof -
    have i: "fm_inv (hk_fds s)" using t by (simp add: tracked_def)
    have "fm_lookup (markClosed x (hk_fds s)) fd = Some x" using that by (simp add: markClosed_def)
    from del_closes [OF markClosed_inv [OF i that(2)] this] show ?thesis using that fd fd' by (simp add: close_fds untrack_fds)
  qed
  have look: "fm_lookup (hk_fds ?s) fd = Some x" if "?g \<noteq> fd" "fm_lookup (hk_fds s) fd = Some x"
    using that by (auto simp: close_fds untrack_fds del_lookup markClosed_def split: option.splits)
  have same: "sk_fd (the_sock p ?s) = sk_fd (the_sock p s)" if "q \<noteq> p" using o(1) that by (simp add: only_def the_sock_def)
  show gone: "sk_fd (the_sock p ?s) = - 1 \<and> fd_closed (hk_ctx ?s x)" if "q = p"
    using o(2) p t stays hit that by (auto simp: tracked_def)
  show "tracked p fd x ?s"
    using inv len p t stays hit look same gone by (cases "q = p"; cases "?g = fd") (auto simp: tracked_def)
qed

lemma closeListeners_tracked:
  "discreet c \<Longrightarrow> fm_trackable fd \<Longrightarrow> tracked p fd x s \<Longrightarrow> tracked p fd x (closeListeners c ls s) \<and>
    (p \<in> set ls \<longrightarrow> sk_fd (the_sock p (closeListeners c ls s)) = - 1 \<and> fd_closed (hk_ctx (closeListeners c ls s) x))"
proof (induction ls rule: rev_induct)
  case (snoc q ls)
  let ?s = "closeListeners c ls s"
  have s: "closeListeners c (ls @ [q]) s = snd (Socket_close c q ?s)" by (simp add: closeListeners_def)
  have t: "tracked p fd x ?s" using snoc by blast
  note c = close_tracked [OF snoc.prems(1,2) t, of q]
  have "sk_fd (the_sock p (snd (Socket_close c q ?s))) = - 1 \<and> fd_closed (hk_ctx (snd (Socket_close c q ?s)) x)"
    if "p \<in> set ls" "q \<noteq> p"
  proof -
    have "sk_fd (the_sock p ?s) = - 1" "fd_closed (hk_ctx ?s x)" using snoc that by blast+
    moreover have "sk_fd (the_sock p (snd (Socket_close c q ?s))) = sk_fd (the_sock p ?s)"
      using Socket_close_only(1) [OF snoc.prems(1), of q ?s] that by (simp add: only_def the_sock_def)
    ultimately show ?thesis using del_stays [OF markClosed_stays] by (auto simp: close_fds untrack_fds split: option.splits)
  qed
  then show ?case unfolding s using c by auto
qed (simp add: closeListeners_def)

text \<open>A call that waits has registered the object of its descriptor; once that is closed, the call fails as
  soon as it is resumed.\<close>

lemma DoIo_held:
  assumes h: "DoIo os ctl fd f event opt current [] s = Some (Held t s1)"
    and fd: "fm_trackable fd" "fm_lookup (hk_fds s) fd = Some x"
  shows "\<exists>g timeout info s0. do_io_turn ctl g fd event timeout x info current s0 = Some (Held t s1) \<and>
    (\<forall>envs. DoIo os ctl fd f event opt current envs s =
       map_option (drop_info info) (do_io_loop (do_io_turn ctl g fd event timeout x info current) info envs s0))"
proof -
  obtain g where f: "f = Some g" using h by (auto simp: DoIo_def split: option.splits)
  have k: "hk_get os fd True s = (Some x, s)" by (simp add: hk_get_def get_found [OF fd(2,1)])
  have r: "case_prod Returned y \<noteq> Held t s1" for y by (cases y) simp
  have e: "hk_enabled s" "\<not> fd_closed (hk_ctx s x)" "\<not> (\<not> fd_socket (hk_ctx s x) \<or> fd_user_nonblock (hk_ctx s x))"
    using h f k r by (auto simp: DoIo_def Let_def split: if_splits)
  let ?i = "length (hk_infos s)" and ?s0 = "s\<lparr> hk_infos := hk_infos s @ [Some 0] \<rparr>"
  let ?turn = "do_io_turn ctl g fd event (fd_getTimeout opt (hk_ctx s x)) x ?i current"
  have all: "DoIo os ctl fd f event opt current envs s = map_option (drop_info ?i) (do_io_loop ?turn ?i envs ?s0)" for envs
    using f k e by (simp add: DoIo_def new_info_def)
  have "map_option (drop_info ?i) (?turn ?s0) = Some (Held t s1)" using all [of "[]"] h by simp
  then obtain u where "?turn ?s0 = Some u" "drop_info ?i u = Held t s1" by auto
  then have "?turn ?s0 = Some (Held t s1)" by (cases u) (simp_all add: drop_info_def)
  with all show ?thesis by blast
qed

lemma closed_wait_fails:
  assumes "do_io_turn ctl g fd event timeout x info current s0 = Some (Held t s1)" and "fd_closed (hk_ctx (env s1) x)"
  shows "\<exists>e s2. do_io_loop (do_io_turn ctl g fd event timeout x info current) info (env # envs) s0 = Some (Returned (Inl e) s2) \<and>
    hk_kernel s2 = hk_kernel (env s1)"
proof -
  let ?turn = "do_io_turn ctl g fd event timeout x info current"
  obtain r s2 where w: "wait_over t info (env s1) = (r, s2)" by fastforce
  then have k: "hk_kernel s2 = hk_kernel (env s1)" "hk_fds s2 = hk_fds (env s1)"
    using cancel_wait_timer_keeps [of t info "env s1"] by simp_all
  show ?thesis
  proof (cases r)
    case None
    have "?turn s2 = Some (Returned (Inl E_BADF) s2)" using assms(2) k by (simp add: do_io_turn_def)
    then have "do_io_loop ?turn info envs s2 = Some (Returned (Inl E_BADF) s2)" by (cases envs) simp_all
    then show ?thesis using assms(1) w None k by simp
  qed (use assms(1) w k in simp)
qed

lemma closed_accept_fails:
  assumes h: "Socket_accept c current [] p s = Some (Waits s1)" and fd: "sk_fd (the_sock p s) = fd" "fm_trackable fd"
    and x: "fm_lookup (hk_fds s) fd = Some x" and closed: "fd_closed (hk_ctx (env s1) x)"
  shows "\<exists>s2. Socket_accept c current (env # envs) p s = Some (Done None s2) \<and>
    mm_sockets (hk_kernel s2) = mm_sockets (hk_kernel (env s1))"
proof -
  let ?f = "map_option (\<lambda>f. f fd NoAddress) (accept_f (c_orig c))"
  have "fd \<noteq> - 1" using fd(2) by (auto simp: fm_trackable_def)
  then have all: "Socket_accept c current es p s = after (map_option (accepted (\<lambda>fd s. snd (hk_get (c_os c) fd True s)))
      (DoIo (c_os c) (c_ctl c) fd ?f READ SO_RCVTIMEO current es s)) (accept_done c p)" for es
    using fd by (simp add: Socket_accept_def hook_accept_def)
  obtain u where "DoIo (c_os c) (c_ctl c) fd ?f READ SO_RCVTIMEO current [] s = Some u" and
    "(case accepted (\<lambda>fd s. snd (hk_get (c_os c) fd True s)) u of
       Returned r s \<Rightarrow> case_prod Done (accept_done c p r s) | Held _ s \<Rightarrow> Waits s) = Waits s1"
    using h all [of "[]"] by (auto simp: after_def)
  then obtain t where "DoIo (c_os c) (c_ctl c) fd ?f READ SO_RCVTIMEO current [] s = Some (Held t s1)"
    by (cases u) (auto simp: accepted_def case_prod_unfold split: sum.splits)
  from DoIo_held [OF this fd(2) x] obtain g timeout info s0 where
    t: "do_io_turn (c_ctl c) g fd READ timeout x info current s0 = Some (Held t s1)" and
    d: "\<forall>envs. DoIo (c_os c) (c_ctl c) fd ?f READ SO_RCVTIMEO current envs s =
       map_option (drop_info info) (do_io_loop (do_io_turn (c_ctl c) g fd READ timeout x info current) info envs s0)" by blast
  from closed_wait_fails [where env = env, OF t closed, of envs] obtain e s2 where
    "do_io_loop (do_io_turn (c_ctl c) g fd READ timeout x info current) info (env # envs) s0 = Some (Returned (Inl e) s2)"
    "hk_kernel s2 = hk_kernel (env s1)" by blast
  then show ?thesis using all [of "env # envs"] d
    by (auto simp: after_def accepted_def drop_info_def accept_done_def c_result_def set_errno_def)
qed


section \<open>Witnesses\<close>

text \<open>The kernel of the example of \<open>Socket\<close>, with a server whose listener is socket 0, on a hooked thread.\<close>

definition demo_server :: "bool \<Rightarrow> tcp_server" where
  "demo_server stopped = (TcpServer (Some 0) (Some 0) (Some 1) True None)\<lparr> ts_listeners := [0], ts_stopped := stopped \<rparr>"

definition demo_listening :: "bool \<Rightarrow> (unit, unit, int list, unit) srv_state" where
  "demo_listening stopped = \<lparr> hk_enabled = True, hk_iom = Some demo_hiom, hk_fds = fst demo_table, hk_infos = [],
     hk_kernel = \<lparr> mm_kernel = [2], mm_sockets = [demo_socket 2], mm_errno = 0, mm_server = demo_server stopped,
       mm_posted = [] \<rparr>, hk_now = 100 \<rparr>"

lemma demo_calls_plain: "g \<in> plain_calls demo_calls \<Longrightarrow> mm_sockets (g k) = mm_sockets k \<and> memory.more (g k) = memory.more k"
  by (erule plain_calls.cases) (simp_all add: demo_calls_def Let_def)

lemma demo_calls_discreet: "discreet demo_calls"
proof -
  have "\<forall>a b d k. mm_sockets (snd (socket_f (c_orig demo_calls) a b d k)) = mm_sockets k \<and>
      memory.more (snd (socket_f (c_orig demo_calls) a b d k)) = memory.more k"
    "\<forall>fd k. mm_sockets (snd (close_f (c_orig demo_calls) fd k)) = mm_sockets k \<and>
      memory.more (snd (close_f (c_orig demo_calls) fd k)) = memory.more k"
    "\<forall>n k. mm_sockets (snd (usleep_f (c_orig demo_calls) n k)) = mm_sockets k"
    by (simp_all add: demo_calls_def Let_def)
  then show ?thesis unfolding discreet_def using demo_calls_plain by blast
qed

theorem bind_all_or_nothing_witness:
  "sk_fd (the_sock 1 (snd (server_bind demo_calls [Some (IPv4Address_host 0 80), None] id (demo_listening True)))) = - 1"
proof -
  let ?as = "[Some (IPv4Address_host 0 80), None]"
  obtain ok failures s' where r: "server_bind demo_calls ?as id (demo_listening True) = ((ok, failures), s')" by (metis surj_pair)
  have "fst (fst (server_bind demo_calls ?as id (demo_listening True))) = False" by code_simp
  then have "\<not> ok" using r by simp
  moreover have "?as \<noteq> []" "ts_stopped (server (demo_listening True))" by (simp_all add: demo_listening_def demo_server_def)
  moreover have "length (mm_sockets (hk_kernel (demo_listening True))) = 1" by (simp add: demo_listening_def)
  moreover have "asked ?as = 1" by (simp add: asked_def)
  ultimately show ?thesis
    using bind_all_or_nothing [OF demo_calls_discreet _ _ _ r] by (simp add: Let_def r)
qed

theorem stop_start_race_witness:
  "\<not> ts_stopped (server (server_stop demo_calls None (\<lambda>s. snd (server_start id s)) (demo_listening False)))"
proof -
  have "\<not> ts_stopped (server (demo_listening False))" "ts_shared (server (demo_listening False))"
    "ts_listeners (server (demo_listening False)) \<noteq> []" "ts_worker (server (demo_listening False)) \<noteq> None"
    "ts_io_worker (server (demo_listening False)) \<noteq> None" "ts_accept_worker (server (demo_listening False)) = Some 1"
    by (simp_all add: demo_listening_def demo_server_def TcpServer_def)
  from stop_start_race [OF demo_calls_discreet this] show ?thesis by (simp add: Let_def)
qed


end
