(* ===== verification/Log_Format.thy ===== *)
theory Log_Format
  imports Prelude
begin

text \<open>
  Log levels, records and the formatter (include/droplet/logger/log_level.h, src/logger/log_level.cc,
  log_record.h, buffer.h, buffer_config.h, formatter.h and formatter.cc).  An \<open>InlineBuffer\<close> has an
  array of fixed size and a vector for what does not fit.  A point in time and a duration are their
  count of nanoseconds.

  \<open>localtime_r\<close> and \<open>strftime\<close> are parameters: the first gives the broken-down time or null, the second
  \<open>Inr\<close> the text it wrote, or \<open>Inl\<close> what it left in the array when it returns 0.  The thread-local
  cache of the date is a state of the formatting.  A failed assertion is the early return it stands for
  with \<open>NDEBUG\<close>.
\<close>

section \<open>Levels\<close>

type_synonym level = u8

definition LOG_LV_DEBUG :: level where "LOG_LV_DEBUG = 1"
definition LOG_LV_INFO :: level where "LOG_LV_INFO = 2"
definition LOG_LV_WARN :: level where "LOG_LV_WARN = 3"
definition LOG_LV_ERROR :: level where "LOG_LV_ERROR = 4"
definition LOG_LV_FATAL :: level where "LOG_LV_FATAL = 5"
definition LOG_LV_OFF :: level where "LOG_LV_OFF = 6"

lemmas levels = LOG_LV_DEBUG_def LOG_LV_INFO_def LOG_LV_WARN_def LOG_LV_ERROR_def LOG_LV_FATAL_def LOG_LV_OFF_def

definition LogLevel_ToString :: "level \<Rightarrow> string" where
  "LogLevel_ToString lv =
     (if lv = LOG_LV_DEBUG then ''DEBUG''
      else if lv = LOG_LV_INFO then ''INFO''
      else if lv = LOG_LV_WARN then ''WARN''
      else if lv = LOG_LV_ERROR then ''ERROR''
      else if lv = LOG_LV_FATAL then ''FATAL''
      else if lv = LOG_LV_OFF then ''OFF''
      else ''UNKNOWN'')"

text \<open>\<open>std::toupper\<close> in the "C" locale.\<close>

definition ascii_upper :: "char \<Rightarrow> char" where
  "ascii_upper c = (if is_lower c then char_of (code c - 32) else c)"

text \<open>The text is folded into an array of six characters; \<open>None\<close> is a write past it.\<close>

definition LogLevel_FromString :: "string \<Rightarrow> level option" where
  "LogLevel_FromString val =
     (if length val > 6 then None
      else let upper_value = map ascii_upper val
           in Some (if upper_value = ''DEBUG'' then LOG_LV_DEBUG
                    else if upper_value = ''INFO'' then LOG_LV_INFO
                    else if upper_value = ''WARN'' then LOG_LV_WARN
                    else if upper_value = ''ERROR'' then LOG_LV_ERROR
                    else if upper_value = ''FATAL'' then LOG_LV_FATAL
                    else if upper_value = ''OFF'' then LOG_LV_OFF
                    else LOG_LV_OFF))"

section \<open>Buffers\<close>

record inline_buffer =
  ib_inline :: string
  ib_overflow :: string
  ib_size :: nat

definition InlineBuffer :: "nat \<Rightarrow> inline_buffer" where
  "InlineBuffer INLINE_CAPACITY = \<lparr> ib_inline = replicate INLINE_CAPACITY (CHR 0x00), ib_overflow = [], ib_size = 0 \<rparr>"

definition ib_append :: "nat \<Rightarrow> string \<Rightarrow> inline_buffer \<Rightarrow> inline_buffer" where
  "ib_append INLINE_CAPACITY data b =
     (if length data = 0 then b
      else if ib_overflow b = [] \<and> ib_size b + length data \<le> INLINE_CAPACITY
      then b\<lparr> ib_inline := take (ib_size b) (ib_inline b) @ data @ drop (ib_size b + length data) (ib_inline b),
              ib_size := ib_size b + length data \<rparr>
      else let spilled = (if ib_overflow b = [] then take (ib_size b) (ib_inline b) else ib_overflow b) @ data
           in b\<lparr> ib_overflow := spilled, ib_size := length spilled \<rparr>)"

definition ib_data :: "inline_buffer \<Rightarrow> string" where
  "ib_data b = (if ib_overflow b = [] then ib_inline b else ib_overflow b)"

definition ib_view :: "inline_buffer \<Rightarrow> string" where
  "ib_view b = take (ib_size b) (ib_data b)"

definition ib_inv :: "nat \<Rightarrow> inline_buffer \<Rightarrow> bool" where
  "ib_inv N b \<longleftrightarrow> length (ib_inline b) = N \<and>
     (if ib_overflow b = [] then ib_size b \<le> N else ib_size b = length (ib_overflow b))"

text \<open>The stream writes a range, or one character; the end-of-file mark, \<open>None\<close>, writes nothing.\<close>

definition xsputn :: "nat \<Rightarrow> string \<Rightarrow> int \<Rightarrow> inline_buffer \<Rightarrow> int \<times> inline_buffer" where
  "xsputn N data sz b = (if sz \<le> 0 then (0, b) else (sz, ib_append N (take (nat sz) data) b))"

definition sb_overflow :: "nat \<Rightarrow> char option \<Rightarrow> inline_buffer \<Rightarrow> inline_buffer" where
  "sb_overflow N character b = (case character of None \<Rightarrow> b | Some c \<Rightarrow> ib_append N [c] b)"

lemma InlineBuffer_inv [simp]: "ib_inv N (InlineBuffer N)" "ib_view (InlineBuffer N) = []"
  by (simp_all add: ib_inv_def ib_view_def InlineBuffer_def)

lemma ib_append_inv [simp]: "ib_inv N b \<Longrightarrow> ib_inv N (ib_append N data b)"
  by (auto simp: ib_inv_def ib_append_def Let_def)

text \<open>Whether the text is in the array or has moved to the vector cannot be seen.\<close>

lemma ib_append_view [simp]: "ib_inv N b \<Longrightarrow> ib_view (ib_append N data b) = ib_view b @ data"
  by (auto simp: ib_inv_def ib_append_def Let_def ib_view_def ib_data_def)

section \<open>Records\<close>

record log_record =
  lr_level :: level
  loggerName :: string
  lr_message :: string
  timestamp :: int
  elapsed :: int
  threadId :: u64
  fiberId :: u64
  threadName :: string
  fileName :: string
  lr_line :: u32

text \<open>\<open>duration_cast\<close> rounds toward zero, as the division of the language does; so does the sign of the
  remainder.\<close>

definition cdiv :: "int \<Rightarrow> int \<Rightarrow> int" where
  "cdiv a b = (if a < 0 then - (- a div b) else a div b)"

definition crem :: "int \<Rightarrow> int \<Rightarrow> int" where
  "crem a b = a - cdiv a b * b"

section \<open>Format items\<close>

datatype format_item =
    LiteralFormatItem string
  | MessageFormatItem
  | LevelFormatItem
  | ElapsedFormatItem
  | LoggerNameFormatItem
  | ThreadIdFormatItem
  | NewLineFormatItem
  | DateTimeFormatItem string
  | MicrosecondsFormatItem
  | FileNameFormatItem
  | LineFormatItem
  | TabFormatItem
  | FiberIdFormatItem
  | ThreadNameFormatItem

definition DEFAULT_DATE_FORMAT :: string where
  "DEFAULT_DATE_FORMAT = ''%Y-%m-%d %H:%M:%S''"

definition DateTime_item :: "string \<Rightarrow> format_item" where
  "DateTime_item fmt = DateTimeFormatItem (if fmt = [] then DEFAULT_DATE_FORMAT else fmt)"

definition FORMATTED_RECORD_INLINE_CAPACITY :: nat where "FORMATTED_RECORD_INLINE_CAPACITY = 256"
definition LOG_MESSAGE_INLINE_CAPACITY :: nat where "LOG_MESSAGE_INLINE_CAPACITY = 128"
definition PRINTF_FORMAT_INLINE_CAPACITY :: nat where "PRINTF_FORMAT_INLINE_CAPACITY = 128"

abbreviation put :: "string \<Rightarrow> inline_buffer \<Rightarrow> inline_buffer" where
  "put \<equiv> ib_append FORMATTED_RECORD_INLINE_CAPACITY"

definition AppendInteger :: "int \<Rightarrow> inline_buffer \<Rightarrow> inline_buffer" where
  "AppendInteger val = put (show_int val)"

text \<open>The last second that was formatted on this thread, and its text.\<close>

record date_cache =
  last_second :: int
  cached_date_time :: string

definition fresh_cache :: date_cache where
  "fresh_cache = \<lparr> last_second = 0, cached_date_time = [] \<rparr>"

record 'tm calendar =
  localtime_r :: "int \<Rightarrow> 'tm option"
  strftime :: "nat \<Rightarrow> string \<Rightarrow> 'tm \<Rightarrow> string + string"

definition c_string :: "string \<Rightarrow> string" where
  "c_string s = takeWhile (\<lambda>c. c \<noteq> CHR 0x00) s"

definition DateTime_format ::
  "'tm calendar \<Rightarrow> string \<Rightarrow> log_record \<Rightarrow> date_cache \<times> inline_buffer \<Rightarrow> date_cache \<times> inline_buffer" where
  "DateTime_format cal fmt r = (\<lambda>(cache, out).
     let current_second = cdiv (timestamp r) 1000000000
     in if current_second \<noteq> last_second cache
        then case localtime_r cal current_second of
               None \<Rightarrow> (cache, out)
             | Some tm \<Rightarrow>
                 (case strftime cal 20 (c_string fmt) tm of
                    Inl left \<Rightarrow> (cache\<lparr> cached_date_time := left \<rparr>, out)
                  | Inr text \<Rightarrow> (\<lparr> last_second = current_second, cached_date_time = text \<rparr>, put (c_string text) out))
        else (cache, put (c_string (cached_date_time cache)) out))"

text \<open>The digits, from the last.\<close>

primrec fixed_digits :: "nat \<Rightarrow> nat \<Rightarrow> string" where
  "fixed_digits 0 remaining = []"
| "fixed_digits (Suc index) remaining = fixed_digits index (remaining div 10) @ [digit_char (remaining mod 10)]"

definition MICROSECONDS_WIDTH :: nat where "MICROSECONDS_WIDTH = 6"

definition Microseconds_text :: "log_record \<Rightarrow> string" where
  "Microseconds_text r =
     (let total_microseconds = cdiv (timestamp r) 1000;
          microseconds = crem total_microseconds 1000000;
          microseconds = (if microseconds < 0 then microseconds + 1000000 else microseconds)
      in fixed_digits MICROSECONDS_WIDTH (nat microseconds))"

fun item_format ::
  "'tm calendar \<Rightarrow> format_item \<Rightarrow> log_record \<Rightarrow> date_cache \<times> inline_buffer \<Rightarrow> date_cache \<times> inline_buffer" where
  "item_format cal (LiteralFormatItem val) r (c, out) = (c, put val out)"
| "item_format cal MessageFormatItem r (c, out) = (c, put (lr_message r) out)"
| "item_format cal LevelFormatItem r (c, out) = (c, put (LogLevel_ToString (lr_level r)) out)"
| "item_format cal ElapsedFormatItem r (c, out) = (c, AppendInteger (cdiv (elapsed r) 1000000) out)"
| "item_format cal LoggerNameFormatItem r (c, out) = (c, put (loggerName r) out)"
| "item_format cal ThreadIdFormatItem r (c, out) = (c, AppendInteger (uint (threadId r)) out)"
| "item_format cal NewLineFormatItem r (c, out) = (c, put [CHR 0x0A] out)"
| "item_format cal (DateTimeFormatItem fmt) r (c, out) = DateTime_format cal fmt r (c, out)"
| "item_format cal MicrosecondsFormatItem r (c, out) = (c, put (Microseconds_text r) out)"
| "item_format cal FileNameFormatItem r (c, out) = (c, put (fileName r) out)"
| "item_format cal LineFormatItem r (c, out) = (c, AppendInteger (uint (lr_line r)) out)"
| "item_format cal TabFormatItem r (c, out) = (c, put [CHR 0x09] out)"
| "item_format cal FiberIdFormatItem r (c, out) = (c, AppendInteger (uint (fiberId r)) out)"
| "item_format cal ThreadNameFormatItem r (c, out) = (c, put (threadName r) out)"

section \<open>The formatter\<close>

text \<open>The factory of a directive, or null.\<close>

definition CreateFormatItem :: "char \<Rightarrow> string \<Rightarrow> format_item option" where
  "CreateFormatItem directive fmt =
     (if directive = CHR ''m'' then Some MessageFormatItem
      else if directive = CHR ''p'' then Some LevelFormatItem
      else if directive = CHR ''r'' then Some ElapsedFormatItem
      else if directive = CHR ''c'' then Some LoggerNameFormatItem
      else if directive = CHR ''t'' then Some ThreadIdFormatItem
      else if directive = CHR ''n'' then Some NewLineFormatItem
      else if directive = CHR ''d'' then Some (DateTime_item fmt)
      else if directive = CHR ''u'' then Some MicrosecondsFormatItem
      else if directive = CHR ''f'' then Some FileNameFormatItem
      else if directive = CHR ''l'' then Some LineFormatItem
      else if directive = CHR ''T'' then Some TabFormatItem
      else if directive = CHR ''F'' then Some FiberIdFormatItem
      else if directive = CHR ''N'' then Some ThreadNameFormatItem
      else None)"

definition addLiteral :: "string \<Rightarrow> format_item option list \<Rightarrow> format_item option list" where
  "addLiteral literal items = (if literal = [] then items else items @ [Some (LiteralFormatItem literal)])"

text \<open>The argument in braces after the directive at \<open>index\<close>: the argument and the index to go on from, or
  \<open>None\<close> when it is empty or not closed.\<close>

definition item_argument :: "string \<Rightarrow> nat \<Rightarrow> (string \<times> nat) option" where
  "item_argument pattern index =
     (if index + 1 < length pattern \<and> pattern ! (index + 1) = CHR ''{''
      then (case find_char_from (CHR ''}'') pattern (index + 2) of
              None \<Rightarrow> None
            | Some closing_brace \<Rightarrow>
                if closing_brace = index + 2 then None
                else Some (substr pattern (index + 2) (closing_brace - index - 2), closing_brace))
      else Some ([], index))"

lemma item_argument_forward: "item_argument pattern index = Some (fmt, index') \<Longrightarrow> index \<le> index'"
  by (auto simp: item_argument_def find_char_from_def split: if_splits option.splits)

function parse_loop :: "string \<Rightarrow> nat \<Rightarrow> string \<Rightarrow> format_item option list \<Rightarrow> int + format_item option list" where
  "parse_loop pattern index literal items =
     (if \<not> index < length pattern then Inr (addLiteral literal items)
      else if pattern ! index \<noteq> CHR ''%'' then parse_loop pattern (index + 1) (literal @ [pattern ! index]) items
      else if \<not> index + 1 < length pattern then Inl (- 1)
      else if pattern ! (index + 1) = CHR ''%'' then parse_loop pattern (index + 2) (literal @ ''%'') items
      else case item_argument pattern (index + 1) of
             None \<Rightarrow> Inl (- 2)
           | Some (fmt, index') \<Rightarrow>
               parse_loop pattern (index' + 1) []
                 (addLiteral literal items @ [CreateFormatItem (pattern ! (index + 1)) fmt]))"
  by auto
termination
  by (relation "measure (\<lambda>(pattern, index, _). length pattern - index)")
    (auto dest: item_argument_forward)

declare parse_loop.simps [simp del]

definition Formatter_parse :: "string \<Rightarrow> int + format_item list" where
  "Formatter_parse pattern =
     (case parse_loop pattern 0 [] [] of
        Inl e \<Rightarrow> Inl e
      | Inr items \<Rightarrow> if None \<in> set items then Inl (- 3) else Inr (map the items))"

record formatter =
  fm_pattern :: string
  fm_items :: "format_item list"

definition Formatter :: "string \<Rightarrow> std_exception + formatter" where
  "Formatter pattern =
     (case Formatter_parse pattern of
        Inl _ \<Rightarrow> Inl (Invalid_argument ''invalid logger format pattern'')
      | Inr items \<Rightarrow> Inr \<lparr> fm_pattern = pattern, fm_items = items \<rparr>)"

definition Formatter_format ::
  "'tm calendar \<Rightarrow> formatter \<Rightarrow> log_record \<Rightarrow> date_cache \<times> inline_buffer \<Rightarrow> date_cache \<times> inline_buffer" where
  "Formatter_format cal f r s = fold (\<lambda>item. item_format cal item r) (fm_items f) s"

definition format_record :: "'tm calendar \<Rightarrow> formatter \<Rightarrow> log_record \<Rightarrow> date_cache \<Rightarrow> string \<times> date_cache" where
  "format_record cal f r c =
     (let (c, out) = Formatter_format cal f r (c, InlineBuffer FORMATTED_RECORD_INLINE_CAPACITY) in (ib_view out, c))"

section \<open>Levels and digits\<close>

lemma level_round_trip:
  assumes "lv \<in> {LOG_LV_DEBUG, LOG_LV_INFO, LOG_LV_WARN, LOG_LV_ERROR, LOG_LV_FATAL, LOG_LV_OFF}"
  shows "LogLevel_FromString (LogLevel_ToString lv) = Some lv"
proof -
  have "list_all (\<lambda>lv. LogLevel_FromString (LogLevel_ToString lv) = Some lv)
    [LOG_LV_DEBUG, LOG_LV_INFO, LOG_LV_WARN, LOG_LV_ERROR, LOG_LV_FATAL, LOG_LV_OFF]" by code_simp
  then show ?thesis using assms by auto
qed

lemma fixed_digits_length [simp]: "length (fixed_digits n v) = n"
  by (induction n arbitrary: v) simp_all

lemma fixed_digits_value:
  "v < 10 ^ n \<Longrightarrow> digits_value 10 0 (fixed_digits n v) = v \<and> (\<forall>c \<in> set (fixed_digits n v). digit_value 10 c \<noteq> None)"
proof (induction n arbitrary: v)
  case (Suc n)
  have d: "digit_value 10 (digit_char (v mod 10)) = Some (v mod 10)" by simp
  have "v div 10 < 10 ^ n" using Suc.prems by (simp add: less_mult_imp_div_less mult.commute)
  with Suc.IH [of "v div 10"] show ?case by (auto simp: digits_value_append d)
qed simp

text \<open>The microseconds of a record are always six digits, which read as the microseconds within its
  second, also before the epoch.\<close>

lemma microseconds_exact:
  "length (Microseconds_text r) = 6 \<and> digits_value 10 0 (Microseconds_text r) = nat (cdiv (timestamp r) 1000 mod 1000000)"
proof -
  define t where "t = cdiv (timestamp r) 1000"
  define m where "m = (if crem t 1000000 < 0 then crem t 1000000 + 1000000 else crem t 1000000)"
  have "m = t mod 1000000"
  proof (cases "t < 0")
    case True
    then have c: "crem t 1000000 = - (- t mod 1000000)"
      by (simp add: crem_def cdiv_def minus_div_mult_eq_mod [symmetric])
    show ?thesis
    proof (cases "- t mod 1000000 = 0")
      case True
      moreover from this have "t mod 1000000 = 0" by presburger
      ultimately show ?thesis using c by (simp add: m_def)
    next
      case False
      then have "0 < - t mod 1000000" by (simp add: order_less_le)
      then have "m = 1000000 - (- t mod 1000000)" using c by (simp add: m_def)
      moreover have "t mod 1000000 = 1000000 - (- t mod 1000000)"
        using zmod_zminus1_eq_if [of "- t" 1000000] False by simp
      ultimately show ?thesis by simp
    qed
  qed (simp add: m_def crem_def cdiv_def minus_div_mult_eq_mod)
  moreover have "Microseconds_text r = fixed_digits 6 (nat m)"
    by (simp add: Microseconds_text_def Let_def t_def m_def MICROSECONDS_WIDTH_def)
  moreover have "nat (t mod 1000000) < 10 ^ 6" by (simp add: nat_less_iff)
  ultimately show ?thesis using fixed_digits_value [of "nat m" 6] by (simp add: t_def)
qed

section \<open>Formatting without the cache and the buffer\<close>

definition date_text :: "'tm calendar \<Rightarrow> string \<Rightarrow> int \<Rightarrow> string option" where
  "date_text cal fmt sec =
     (case localtime_r cal sec of
        None \<Rightarrow> None
      | Some tm \<Rightarrow> (case strftime cal 20 (c_string fmt) tm of Inl _ \<Rightarrow> None | Inr text \<Rightarrow> Some (c_string text)))"

fun item_text :: "'tm calendar \<Rightarrow> log_record \<Rightarrow> format_item \<Rightarrow> string" where
  "item_text cal r (LiteralFormatItem val) = val"
| "item_text cal r MessageFormatItem = lr_message r"
| "item_text cal r LevelFormatItem = LogLevel_ToString (lr_level r)"
| "item_text cal r ElapsedFormatItem = show_int (cdiv (elapsed r) 1000000)"
| "item_text cal r LoggerNameFormatItem = loggerName r"
| "item_text cal r ThreadIdFormatItem = show_int (uint (threadId r))"
| "item_text cal r NewLineFormatItem = [CHR 0x0A]"
| "item_text cal r (DateTimeFormatItem fmt) = the (date_text cal fmt (cdiv (timestamp r) 1000000000))"
| "item_text cal r MicrosecondsFormatItem = Microseconds_text r"
| "item_text cal r FileNameFormatItem = fileName r"
| "item_text cal r LineFormatItem = show_int (uint (lr_line r))"
| "item_text cal r TabFormatItem = [CHR 0x09]"
| "item_text cal r FiberIdFormatItem = show_int (uint (fiberId r))"
| "item_text cal r ThreadNameFormatItem = threadName r"

definition uses_date :: "string \<Rightarrow> format_item \<Rightarrow> bool" where
  "uses_date fmt item \<longleftrightarrow> (case item of DateTimeFormatItem f \<Rightarrow> f = fmt | _ \<Rightarrow> True)"

definition cache_ok :: "'tm calendar \<Rightarrow> string \<Rightarrow> date_cache \<Rightarrow> bool" where
  "cache_ok cal fmt c \<longleftrightarrow> last_second c = 0 \<or> date_text cal fmt (last_second c) = Some (c_string (cached_date_time c))"

lemma date_format:
  assumes "date_text cal fmt (cdiv (timestamp r) 1000000000) \<noteq> None" "cdiv (timestamp r) 1000000000 \<noteq> 0"
    "cache_ok cal fmt c" "ib_inv FORMATTED_RECORD_INLINE_CAPACITY out" "DateTime_format cal fmt r (c, out) = (c', out')"
  shows "cache_ok cal fmt c' \<and> ib_inv FORMATTED_RECORD_INLINE_CAPACITY out' \<and>
    ib_view out' = ib_view out @ the (date_text cal fmt (cdiv (timestamp r) 1000000000))"
proof (cases "cdiv (timestamp r) 1000000000 = last_second c")
  case True
  with assms show ?thesis by (auto simp: DateTime_format_def cache_ok_def)
next
  case False
  obtain tm t where t: "localtime_r cal (cdiv (timestamp r) 1000000000) = Some tm" "strftime cal 20 (c_string fmt) tm = Inr t"
    using assms(1) by (auto simp: date_text_def split: option.splits sum.splits)
  with False assms(4,5) show ?thesis by (auto simp: DateTime_format_def cache_ok_def date_text_def)
qed

lemma item_format_text:
  assumes "uses_date fmt item" "date_text cal fmt (cdiv (timestamp r) 1000000000) \<noteq> None" "cdiv (timestamp r) 1000000000 \<noteq> 0"
    "cache_ok cal fmt c" "ib_inv FORMATTED_RECORD_INLINE_CAPACITY out" "item_format cal item r (c, out) = (c', out')"
  shows "cache_ok cal fmt c' \<and> ib_inv FORMATTED_RECORD_INLINE_CAPACITY out' \<and> ib_view out' = ib_view out @ item_text cal r item"
  using assms date_format [OF assms(2-5)] by (cases item) (auto simp: uses_date_def AppendInteger_def)

lemma fold_format_text:
  assumes "date_text cal fmt (cdiv (timestamp r) 1000000000) \<noteq> None" "cdiv (timestamp r) 1000000000 \<noteq> 0"
  shows "list_all (uses_date fmt) items \<Longrightarrow> cache_ok cal fmt c \<Longrightarrow> ib_inv FORMATTED_RECORD_INLINE_CAPACITY out \<Longrightarrow>
    fold (\<lambda>item. item_format cal item r) items (c, out) = (c', out') \<Longrightarrow>
    cache_ok cal fmt c' \<and> ib_view out' = ib_view out @ concat (map (item_text cal r) items)"
proof (induction items arbitrary: c out)
  case (Cons item items)
  obtain c1 out1 where s: "item_format cal item r (c, out) = (c1, out1)" by fastforce
  from Cons.prems have "uses_date fmt item" by simp
  note one = item_format_text [OF this assms Cons.prems(2,3) s]
  from Cons.IH [of c1 out1] Cons.prems one s show ?case by simp
qed simp

text \<open>A run of one thread: each record through its formatter.\<close>

fun format_records :: "'tm calendar \<Rightarrow> (formatter \<times> log_record) list \<Rightarrow> date_cache \<Rightarrow> string list" where
  "format_records cal [] c = []"
| "format_records cal ((f, r) # rs) c = (let (t, c) = format_record cal f r c in t # format_records cal rs c)"

lemma format_records_text:
  assumes "cache_ok cal fmt c"
    and "\<forall>(f, r) \<in> set rs. list_all (uses_date fmt) (fm_items f) \<and> cdiv (timestamp r) 1000000000 \<noteq> 0 \<and>
      date_text cal fmt (cdiv (timestamp r) 1000000000) \<noteq> None"
  shows "format_records cal rs c = map (\<lambda>(f, r). concat (map (item_text cal r) (fm_items f))) rs"
  using assms
proof (induction rs arbitrary: c)
  case (Cons fr rs)
  obtain f r where fr [simp]: "fr = (f, r)" by fastforce
  obtain c' out where s: "Formatter_format cal f r (c, InlineBuffer FORMATTED_RECORD_INLINE_CAPACITY) = (c', out)" by fastforce
  have "cache_ok cal fmt c' \<and> ib_view out = concat (map (item_text cal r) (fm_items f))"
    using fold_format_text [of cal fmt r "fm_items f" c "InlineBuffer FORMATTED_RECORD_INLINE_CAPACITY" c' out]
      Cons.prems s by (simp add: Formatter_format_def)
  with Cons s show ?case by (simp add: format_record_def)
qed simp

text \<open>C37: caching the text of a second and moving long records from the array to the heap cannot be seen:
  whatever a thread logs through formatters with one date format, each record comes out as the plain
  concatenation of the texts of its items, starting from the empty cache.  The seconds are not 0, the
  value the cache starts with, and the date format fits its array.\<close>

theorem formatted_records_exact:
  assumes "\<forall>(f, r) \<in> set rs. list_all (uses_date fmt) (fm_items f) \<and> cdiv (timestamp r) 1000000000 \<noteq> 0 \<and>
      date_text cal fmt (cdiv (timestamp r) 1000000000) \<noteq> None"
  shows "format_records cal rs fresh_cache = map (\<lambda>(f, r). concat (map (item_text cal r) (fm_items f))) rs"
  using assms by (intro format_records_text) (simp_all add: cache_ok_def fresh_cache_def)

definition calendar_example :: "int calendar" where
  "calendar_example = \<lparr> localtime_r = Some, strftime = \<lambda>n fmt tm. Inr (fmt @ show_int tm) \<rparr>"

definition record_example :: "int \<Rightarrow> log_record" where
  "record_example ns = \<lparr> lr_level = LOG_LV_WARN, loggerName = ''system'', lr_message = ''hello'', timestamp = ns, elapsed = 0,
     threadId = 7, fiberId = 0, threadName = ''main'', fileName = ''a.cc'', lr_line = 3 \<rparr>"

definition formatter_example :: formatter where
  "formatter_example = \<lparr> fm_pattern = ''%d{D}[%p] %m'',
     fm_items = [DateTimeFormatItem ''D'', LiteralFormatItem ''['', LevelFormatItem, LiteralFormatItem ''] '', MessageFormatItem] \<rparr>"

theorem formatted_records_exact_witness:
  "format_records calendar_example
     [(formatter_example, record_example 1000000000), (formatter_example, record_example 1999999999),
      (formatter_example, record_example 2000000000)] fresh_cache =
   [''D1[WARN] hello'', ''D1[WARN] hello'', ''D2[WARN] hello'']"
proof -
  have d: "show_int 1 = ''1''" "show_int 2 = ''2''" by code_simp+
  have l: "LogLevel_ToString LOG_LV_WARN = ''WARN''" by code_simp
  let ?rs = "[(formatter_example, record_example 1000000000), (formatter_example, record_example 1999999999),
      (formatter_example, record_example 2000000000)]"
  have "\<forall>(f, r) \<in> set ?rs. list_all (uses_date ''D'') (fm_items f) \<and> cdiv (timestamp r) 1000000000 \<noteq> 0 \<and>
      date_text calendar_example ''D'' (cdiv (timestamp r) 1000000000) \<noteq> None"
    by (simp add: formatter_example_def record_example_def calendar_example_def uses_date_def cdiv_def date_text_def)
  from formatted_records_exact [OF this] show ?thesis
    by (simp add: formatter_example_def record_example_def calendar_example_def cdiv_def date_text_def c_string_def d l)
qed

text \<open>Two date formats on one thread disturb each other: the second formatter prints the first one's date.\<close>

lemma date_formats_mix:
  "format_records calendar_example
     [(formatter_example\<lparr> fm_items := [DateTimeFormatItem ''A''] \<rparr>, record_example 1000000000),
      (formatter_example\<lparr> fm_items := [DateTimeFormatItem ''B''] \<rparr>, record_example 1000000000)] fresh_cache = [''A1'', ''A1'']"
  by code_simp

section \<open>Patterns\<close>

text \<open>How an item is written in a pattern; a literal doubles its percent signs.\<close>

definition escape :: "string \<Rightarrow> string" where
  "escape s = concat (map (\<lambda>c. if c = CHR ''%'' then ''%%'' else [c]) s)"

fun item_pattern :: "format_item \<Rightarrow> string" where
  "item_pattern (LiteralFormatItem val) = escape val"
| "item_pattern MessageFormatItem = ''%m''"
| "item_pattern LevelFormatItem = ''%p''"
| "item_pattern ElapsedFormatItem = ''%r''"
| "item_pattern LoggerNameFormatItem = ''%c''"
| "item_pattern ThreadIdFormatItem = ''%t''"
| "item_pattern NewLineFormatItem = ''%n''"
| "item_pattern (DateTimeFormatItem fmt) = ''%d{'' @ fmt @ ''}''"
| "item_pattern MicrosecondsFormatItem = ''%u''"
| "item_pattern FileNameFormatItem = ''%f''"
| "item_pattern LineFormatItem = ''%l''"
| "item_pattern TabFormatItem = ''%T''"
| "item_pattern FiberIdFormatItem = ''%F''"
| "item_pattern ThreadNameFormatItem = ''%N''"

definition items_pattern :: "format_item list \<Rightarrow> string" where
  "items_pattern items = concat (map item_pattern items)"

text \<open>The lists a pattern can say: literals are not empty and not adjacent, a date format is not empty and
  has no closing brace, and no opening brace follows another directive.\<close>

fun sayable :: "format_item list \<Rightarrow> bool" where
  "sayable [] \<longleftrightarrow> True"
| "sayable (LiteralFormatItem val # items) \<longleftrightarrow>
     val \<noteq> [] \<and> (\<forall>val' items'. items \<noteq> LiteralFormatItem val' # items') \<and> sayable items"
| "sayable (DateTimeFormatItem fmt # items) \<longleftrightarrow> fmt \<noteq> [] \<and> CHR ''}'' \<notin> set fmt \<and> sayable items"
| "sayable (_ # items) \<longleftrightarrow> (\<forall>s items'. items \<noteq> LiteralFormatItem (CHR ''{'' # s) # items') \<and> sayable items"

lemma parse_end: "parse_loop pattern (length pattern) literal items = Inr (addLiteral literal items)"
  by (subst parse_loop.simps) simp

lemma parse_literal:
  "parse_loop (pre @ escape s @ rest) (length pre) literal items =
   parse_loop (pre @ escape s @ rest) (length (pre @ escape s)) (literal @ s) items"
proof (induction s arbitrary: pre literal)
  case (Cons c s)
  let ?e = "if c = CHR ''%'' then ''%%'' else [c]"
  have e: "escape (c # s) = ?e @ escape s" by (simp add: escape_def)
  have "parse_loop (pre @ escape (c # s) @ rest) (length pre) literal items =
      parse_loop ((pre @ ?e) @ escape s @ rest) (length (pre @ ?e)) (literal @ [c]) items"
    unfolding e by (subst parse_loop.simps) (simp add: nth_append)
  with Cons [of "pre @ ?e" "literal @ [c]"] show ?case by (simp add: e)
qed (simp add: escape_def)

lemma parse_directive:
  assumes "d \<noteq> CHR ''%''" "rest = [] \<or> hd rest \<noteq> CHR ''{''"
  shows "parse_loop (pre @ CHR ''%'' # d # rest) (length pre) literal items =
    parse_loop (pre @ CHR ''%'' # d # rest) (length (pre @ [CHR ''%'', d])) [] (addLiteral literal items @ [CreateFormatItem d []])"
proof -
  have "item_argument (pre @ CHR ''%'' # d # rest) (length pre + 1) = Some ([], length pre + 1)"
    using assms(2) by (auto simp: item_argument_def nth_append hd_conv_nth)
  then show ?thesis using assms(1) by (subst parse_loop.simps) (simp add: nth_append)
qed

lemma parse_argument:
  assumes "fmt \<noteq> []" "CHR ''}'' \<notin> set fmt"
  shows "parse_loop (pre @ (''%d{'' @ fmt @ ''}'') @ rest) (length pre) literal items =
    parse_loop (pre @ (''%d{'' @ fmt @ ''}'') @ rest) (length (pre @ ''%d{'' @ fmt @ ''}'')) []
      (addLiteral literal items @ [Some (DateTimeFormatItem fmt)])"
proof -
  let ?p = "pre @ (''%d{'' @ fmt @ ''}'') @ rest"
  have "drop (length pre + 3) ?p = fmt @ CHR ''}'' # rest" by simp
  then have "find_char_from (CHR ''}'') ?p (length pre + 3) = Some (length pre + 3 + length fmt)"
    using find_char_app [of "CHR ''}''" fmt rest] assms(2) by (simp add: find_char_from_def)
  then have "item_argument ?p (length pre + 1) = Some (fmt, length pre + 3 + length fmt)"
    using assms(1) by (simp add: item_argument_def nth_append substr_def numeral_3_eq_3)
  moreover have "CreateFormatItem (CHR ''d'') fmt = Some (DateTimeFormatItem fmt)"
    using assms(1) by (simp add: CreateFormatItem_def DateTime_item_def)
  ultimately show ?thesis by (subst parse_loop.simps) (simp add: nth_append eval_nat_numeral)
qed

definition simple :: "format_item \<Rightarrow> bool" where
  "simple item \<longleftrightarrow> (\<forall>v. item \<noteq> LiteralFormatItem v) \<and> (\<forall>f. item \<noteq> DateTimeFormatItem f)"

lemma simple_directive:
  "simple item \<Longrightarrow> \<exists>d. item_pattern item = [CHR ''%'', d] \<and> d \<noteq> CHR ''%'' \<and> CreateFormatItem d [] = Some item"
  by (cases item) (auto simp: simple_def CreateFormatItem_def)

lemma simple_sayable:
  "simple item \<Longrightarrow> sayable (item # items) \<Longrightarrow> (\<forall>s items'. items \<noteq> LiteralFormatItem (CHR ''{'' # s) # items') \<and> sayable items"
  by (cases item) (auto simp: simple_def)

lemma no_brace:
  assumes "sayable items" "\<forall>s items'. items \<noteq> LiteralFormatItem (CHR ''{'' # s) # items'"
  shows "items_pattern items = [] \<or> hd (items_pattern items) \<noteq> CHR ''{''"
proof (cases items)
  case (Cons item items')
  show ?thesis
  proof (cases "simple item")
    case True
    then show ?thesis using simple_directive [OF True] Cons by (auto simp: items_pattern_def)
  next
    case False
    then consider v where "item = LiteralFormatItem v" | f where "item = DateTimeFormatItem f" by (auto simp: simple_def)
    then show ?thesis
    proof cases
      case (1 v)
      with assms Cons obtain c cs where "v = c # cs" "c \<noteq> CHR ''{''" by (cases v) auto
      with 1 Cons show ?thesis by (simp add: items_pattern_def escape_def)
    qed (use Cons in \<open>simp add: items_pattern_def\<close>)
  qed
qed (simp add: items_pattern_def)

lemma parse_items:
  "sayable items \<Longrightarrow> literal \<noteq> [] \<longrightarrow> (\<forall>v items'. items \<noteq> LiteralFormatItem v # items') \<Longrightarrow>
   parse_loop (pre @ items_pattern items) (length pre) literal acc = Inr (addLiteral literal acc @ map Some items)"
proof (induction items arbitrary: pre literal acc)
  case Nil
  then show ?case using parse_end [of pre] by (simp add: items_pattern_def)
next
  case (Cons item items)
  have pat: "items_pattern (item # items) = item_pattern item @ items_pattern items" by (simp add: items_pattern_def)
  show ?case
  proof (cases "simple item")
    case True
    then obtain d where d: "item_pattern item = [CHR ''%'', d]" "d \<noteq> CHR ''%''" "CreateFormatItem d [] = Some item"
      using simple_directive by blast
    note rest = simple_sayable [OF True Cons.prems(1)]
    show ?thesis
      using parse_directive [OF d(2) no_brace, of items pre literal acc] rest d
        Cons.IH [of "[]" "pre @ [CHR ''%'', d]" "addLiteral literal acc @ [Some item]"]
      by (simp add: pat addLiteral_def)
  next
    case False
    then consider v where "item = LiteralFormatItem v" | f where "item = DateTimeFormatItem f" by (auto simp: simple_def)
    then show ?thesis
    proof cases
      case (1 v)
      then have l: "literal = []" "v \<noteq> []" using Cons.prems by auto
      show ?thesis unfolding pat
        using 1 l Cons.prems parse_literal [of pre v "items_pattern items" literal acc]
          Cons.IH [of v "pre @ escape v" acc] by (simp add: addLiteral_def)
    next
      case (2 f)
      then have f: "f \<noteq> []" "CHR ''}'' \<notin> set f" "sayable items" using Cons.prems by auto
      have e: "item_pattern item = ''%d{'' @ f @ ''}''" using 2 by simp
      show ?thesis
        unfolding pat e parse_argument [OF f(1,2), of pre "items_pattern items" literal acc]
        using Cons.IH [of "[]" "pre @ ''%d{'' @ f @ ''}''" "addLiteral literal acc @ [Some (DateTimeFormatItem f)]"] f 2
        by (simp add: addLiteral_def)
    qed
  qed
qed


end
