(* ===== verification/Logger.thy ===== *)
theory Logger
  imports Log_Format
begin

text \<open>
  Loggers, appenders and log lines (include/droplet/logger/*.h, src/logger/logger.cc, logger_impl.h,
  appender.cc, appender_impl.h and log_line.cc).  Loggers and appenders are shared objects, by address;
  a device is what an appender writes to: the standard output, which every \<open>StdoutAppenderImpl\<close> shares,
  or a \<open>FILE\<close>.  Of a device the model keeps the text written and how much of it is known to be flushed
  and synchronised; the C library may flush earlier.  Write errors, which the code ignores, and
  \<open>bad_alloc\<close> are left out; each section under a mutex is one step.

  The date cache is per thread.  What the clocks and the system say of a line is its \<open>stamp\<close>.
\<close>

section \<open>Devices and appenders\<close>

record device =
  dv_text :: string
  dv_flushed :: nat
  dv_synced :: nat

definition new_device :: device where
  "new_device = \<lparr> dv_text = [], dv_flushed = 0, dv_synced = 0 \<rparr>"

datatype appender_impl = StdoutAppenderImpl | FileAppenderImpl nat

record appender =
  ap_impl :: appender_impl
  ap_level :: level

record logger =
  lg_name :: string
  lg_level :: level
  lg_formatter :: formatter
  lg_appenders :: "nat list"
  lg_root :: "nat option"

text \<open>Device 0 is the standard output.\<close>

record log_state =
  ls_devices :: "device list"
  ls_appenders :: "appender list"
  ls_loggers :: "logger list"
  ls_named :: "string \<rightharpoonup> nat"
  ls_root :: nat
  ls_cache :: "u64 \<Rightarrow> date_cache"

definition device_of :: "appender \<Rightarrow> nat" where
  "device_of a = (case ap_impl a of StdoutAppenderImpl \<Rightarrow> 0 | FileAppenderImpl d \<Rightarrow> d)"

definition on_device :: "(device \<Rightarrow> device) \<Rightarrow> appender \<Rightarrow> log_state \<Rightarrow> log_state" where
  "on_device f a s = s\<lparr> ls_devices := (ls_devices s)[device_of a := f (ls_devices s ! device_of a)] \<rparr>"

definition writeUnlocked :: "string \<Rightarrow> appender \<Rightarrow> log_state \<Rightarrow> log_state" where
  "writeUnlocked text = on_device (\<lambda>d. d\<lparr> dv_text := dv_text d @ text \<rparr>)"

definition flushUnlocked :: "appender \<Rightarrow> log_state \<Rightarrow> log_state" where
  "flushUnlocked = on_device (\<lambda>d. d\<lparr> dv_flushed := length (dv_text d) \<rparr>)"

definition syncUnlocked :: "appender \<Rightarrow> log_state \<Rightarrow> log_state" where
  "syncUnlocked a s =
     (let s = flushUnlocked a s
      in case ap_impl a of
           StdoutAppenderImpl \<Rightarrow> s
         | FileAppenderImpl _ \<Rightarrow> on_device (\<lambda>d. d\<lparr> dv_synced := dv_flushed d \<rparr>) a s)"

definition appender_append :: "level \<Rightarrow> string \<Rightarrow> nat \<Rightarrow> log_state \<Rightarrow> log_state" where
  "appender_append lv formatted_record p s =
     (let a = ls_appenders s ! p
      in if lv < ap_level a then s
         else let s = writeUnlocked formatted_record a s
              in if lv = LOG_LV_FATAL then flushUnlocked a s else s)"

definition appender_setLevel :: "level \<Rightarrow> nat \<Rightarrow> log_state \<Rightarrow> log_state" where
  "appender_setLevel lv p s = s\<lparr> ls_appenders := (ls_appenders s)[p := (ls_appenders s ! p)\<lparr> ap_level := lv \<rparr>] \<rparr>"

definition appender_flush :: "nat \<Rightarrow> log_state \<Rightarrow> log_state" where
  "appender_flush p s = flushUnlocked (ls_appenders s ! p) s"

definition appender_sync :: "nat \<Rightarrow> log_state \<Rightarrow> log_state" where
  "appender_sync p s = syncUnlocked (ls_appenders s ! p) s"

definition MakeStdoutAppender :: "log_state \<Rightarrow> nat \<times> log_state" where
  "MakeStdoutAppender s =
     (length (ls_appenders s), s\<lparr> ls_appenders := ls_appenders s @ [\<lparr> ap_impl = StdoutAppenderImpl, ap_level = LOG_LV_DEBUG \<rparr>] \<rparr>)"

text \<open>\<open>fopen\<close> is a parameter: whether the file can be opened for appending.\<close>

definition MakeFileAppender :: "(string \<Rightarrow> bool) \<Rightarrow> string \<Rightarrow> (log_state, nat) op" where
  "MakeFileAppender fopen file_name s =
     (if file_name = [] then (Inl (Invalid_argument ''logger file name cannot be empty''), s)
      else if \<not> fopen file_name then (Inl (Runtime_error (''failed to open logger file: '' @ file_name)), s)
      else (Inr (length (ls_appenders s)),
            s\<lparr> ls_devices := ls_devices s @ [new_device],
               ls_appenders := ls_appenders s @ [\<lparr> ap_impl = FileAppenderImpl (length (ls_devices s)), ap_level = LOG_LV_DEBUG \<rparr>] \<rparr>))"

section \<open>Loggers\<close>

definition DEFAULT_LOG_PATTERN :: string where
  "DEFAULT_LOG_PATTERN = ''%d{%Y-%m-%d %H:%M:%S}.%u%Tthread=%t%Tfiber=%F%T[%p]%T%f:%l%T%m%n''"

definition Logger_Impl :: "string \<Rightarrow> std_exception + logger" where
  "Logger_Impl name =
     (if name = [] then Inl (Invalid_argument ''logger name cannot be empty'')
      else case Formatter DEFAULT_LOG_PATTERN of
             Inl e \<Rightarrow> Inl e
           | Inr f \<Rightarrow> Inr \<lparr> lg_name = name, lg_level = LOG_LV_DEBUG, lg_formatter = f, lg_appenders = [], lg_root = None \<rparr>)"

definition on_logger :: "(logger \<Rightarrow> logger) \<Rightarrow> nat \<Rightarrow> log_state \<Rightarrow> log_state" where
  "on_logger f l s = s\<lparr> ls_loggers := (ls_loggers s)[l := f (ls_loggers s ! l)] \<rparr>"

definition setLevel :: "level \<Rightarrow> nat \<Rightarrow> log_state \<Rightarrow> log_state" where
  "setLevel lv = on_logger (\<lambda>g. g\<lparr> lg_level := lv \<rparr>)"

definition setFormatter :: "string \<Rightarrow> nat \<Rightarrow> (log_state, unit) op" where
  "setFormatter pattern l s =
     (case Formatter pattern of
        Inl e \<Rightarrow> (Inl e, s)
      | Inr f \<Rightarrow> (Inr (), on_logger (\<lambda>g. g\<lparr> lg_formatter := f \<rparr>) l s))"

definition getFormatterPattern :: "nat \<Rightarrow> log_state \<Rightarrow> string" where
  "getFormatterPattern l s = fm_pattern (lg_formatter (ls_loggers s ! l))"

text \<open>A null appender is refused.\<close>

definition addAppender :: "nat option \<Rightarrow> nat \<Rightarrow> log_state \<Rightarrow> log_state" where
  "addAppender appender l s =
     (case appender of None \<Rightarrow> s | Some p \<Rightarrow> on_logger (\<lambda>g. g\<lparr> lg_appenders := lg_appenders g @ [p] \<rparr>) l s)"

definition removeAppender :: "nat option \<Rightarrow> nat \<Rightarrow> log_state \<Rightarrow> log_state" where
  "removeAppender appender = on_logger (\<lambda>g. g\<lparr> lg_appenders := filter (\<lambda>p. Some p \<noteq> appender) (lg_appenders g) \<rparr>)"

definition clearAppenders :: "nat \<Rightarrow> log_state \<Rightarrow> log_state" where
  "clearAppenders = on_logger (\<lambda>g. g\<lparr> lg_appenders := [] \<rparr>)"

text \<open>The chain from a logger without appenders to its root: \<open>None\<close> is a chain that does not end.\<close>

partial_function (option) shouldLog :: "level \<Rightarrow> nat \<Rightarrow> log_state \<Rightarrow> bool option" where
  "shouldLog lv l s =
     (let g = ls_loggers s ! l
      in if lv < lg_level g then Some False
         else if lg_appenders g \<noteq> [] then Some True
         else case lg_root g of None \<Rightarrow> Some False | Some root \<Rightarrow> shouldLog lv root s)"

definition deliver :: "'tm calendar \<Rightarrow> u64 \<Rightarrow> logger \<Rightarrow> log_record \<Rightarrow> log_state \<Rightarrow> log_state" where
  "deliver cal thread g r s =
     (let (text, c) = format_record cal (lg_formatter g) r (ls_cache s thread)
      in fold (appender_append (lr_level r) text) (lg_appenders g) (s\<lparr> ls_cache := (ls_cache s)(thread := c) \<rparr>))"

partial_function (option) submit :: "'tm calendar \<Rightarrow> u64 \<Rightarrow> nat \<Rightarrow> log_record \<Rightarrow> log_state \<Rightarrow> log_state option" where
  "submit cal thread l r s =
     (let g = ls_loggers s ! l
      in if lr_level r < lg_level g then Some s
         else if lg_appenders g = []
         then (case lg_root g of None \<Rightarrow> Some s | Some root \<Rightarrow> submit cal thread root r s)
         else Some (deliver cal thread g r s))"

partial_function (option) logger_flush :: "nat \<Rightarrow> log_state \<Rightarrow> log_state option" where
  "logger_flush l s =
     (let g = ls_loggers s ! l
      in if lg_appenders g = [] then (case lg_root g of None \<Rightarrow> Some s | Some root \<Rightarrow> logger_flush root s)
         else Some (fold appender_flush (lg_appenders g) s))"

partial_function (option) logger_sync :: "nat \<Rightarrow> log_state \<Rightarrow> log_state option" where
  "logger_sync l s =
     (let g = ls_loggers s ! l
      in if lg_appenders g = [] then (case lg_root g of None \<Rightarrow> Some s | Some root \<Rightarrow> logger_sync root s)
         else Some (fold appender_sync (lg_appenders g) s))"

declare shouldLog.simps [code] submit.simps [code] logger_flush.simps [code] logger_sync.simps [code]

section \<open>The manager\<close>

definition empty_logs :: log_state where
  "empty_logs = \<lparr> ls_devices = [new_device], ls_appenders = [], ls_loggers = [], ls_named = Map.empty, ls_root = 0,
     ls_cache = \<lambda>_. fresh_cache \<rparr>"

definition LoggerManager :: "std_exception + log_state" where
  "LoggerManager =
     (case Logger_Impl ''root'' of
        Inl e \<Rightarrow> Inl e
      | Inr g \<Rightarrow>
          let s = empty_logs\<lparr> ls_loggers := [g] \<rparr>;
              (p, s) = MakeStdoutAppender s
          in Inr ((addAppender (Some p) 0 s)\<lparr> ls_named := [''root'' \<mapsto> 0] \<rparr>))"

text \<open>A name in a view has no end of its own; the result is null for the empty name.\<close>

definition getLogger :: "string \<Rightarrow> (log_state, nat option) op" where
  "getLogger name s =
     (if name = [] then (Inr None, s)
      else case ls_named s name of
             Some l \<Rightarrow> (Inr (Some l), s)
           | None \<Rightarrow>
               (case Logger_Impl name of
                  Inl e \<Rightarrow> (Inl e, s)
                | Inr g \<Rightarrow>
                    let l = length (ls_loggers s)
                    in (Inr (Some l), s\<lparr> ls_loggers := ls_loggers s @ [g\<lparr> lg_root := Some (ls_root s) \<rparr>],
                                         ls_named := (ls_named s)(lg_name g \<mapsto> l) \<rparr>)))"

section \<open>Log lines\<close>

record stamp =
  st_timestamp :: int
  st_elapsed :: int
  st_threadId :: u64
  st_fiberId :: u64
  st_threadName :: string
  st_fileName :: string
  st_line :: u32

definition getRecord :: "stamp \<Rightarrow> level \<Rightarrow> string \<Rightarrow> inline_buffer \<Rightarrow> log_record" where
  "getRecord st lv name b =
     \<lparr> lr_level = lv, loggerName = name, lr_message = ib_view b, timestamp = st_timestamp st, elapsed = st_elapsed st,
       threadId = st_threadId st, fiberId = st_fiberId st, threadName = st_threadName st, fileName = st_fileName st,
       lr_line = st_line st \<rparr>"

definition stream_write :: "string \<Rightarrow> inline_buffer \<Rightarrow> inline_buffer" where
  "stream_write text b = snd (xsputn LOG_MESSAGE_INLINE_CAPACITY text (int (length text)) b)"

text \<open>A \<open>LogLine\<close>: the pieces are streamed into its buffer, and its destructor submits the record.\<close>

definition LogLine :: "'tm calendar \<Rightarrow> stamp \<Rightarrow> level \<Rightarrow> string list \<Rightarrow> nat \<Rightarrow> log_state \<Rightarrow> log_state option" where
  "LogLine cal st lv pieces l s =
     (let b = fold stream_write pieces (InlineBuffer LOG_MESSAGE_INLINE_CAPACITY)
      in submit cal (st_threadId st) l (getRecord st lv (lg_name (ls_loggers s ! l)) b) s)"

text \<open>The macro \<open>DROPLET_LOG_LEVEL\<close> on a logger that may be null; \<open>shouldLog\<close> is asked first.\<close>

definition LOG_LEVEL :: "'tm calendar \<Rightarrow> stamp \<Rightarrow> level \<Rightarrow> string list \<Rightarrow> nat option \<Rightarrow> log_state \<Rightarrow> log_state option" where
  "LOG_LEVEL cal st lv pieces logger s =
     (case logger of
        None \<Rightarrow> Some s
      | Some l \<Rightarrow>
          (case shouldLog lv l s of
             None \<Rightarrow> None
           | Some False \<Rightarrow> Some s
           | Some True \<Rightarrow> LogLine cal st lv pieces l s))"

text \<open>\<open>vsnprintf\<close> with the format and the arguments of the call is a parameter: for a buffer of \<open>n\<close>
  characters its result and what it wrote before the terminator.  A null format is \<open>None\<close>.\<close>

definition printf_pieces :: "(nat \<Rightarrow> int \<times> string) option \<Rightarrow> string list" where
  "printf_pieces format =
     (case format of
        None \<Rightarrow> [''<null-format>'']
      | Some vsnprintf \<Rightarrow>
          let (required_size, buffer) = vsnprintf PRINTF_FORMAT_INLINE_CAPACITY
          in if required_size < 0 then [''<format-error>'']
             else if nat required_size < PRINTF_FORMAT_INLINE_CAPACITY then [take (nat required_size) buffer]
             else let (second_result, buffer) = vsnprintf (nat required_size + 1)
                  in if second_result < 0 then [''<format-error>''] else [take (nat required_size) buffer])"

definition LogPrintf ::
  "'tm calendar \<Rightarrow> stamp \<Rightarrow> level \<Rightarrow> (nat \<Rightarrow> int \<times> string) option \<Rightarrow> nat \<Rightarrow> log_state \<Rightarrow> log_state option" where
  "LogPrintf cal st lv format l s = LogLine cal st lv (printf_pieces format) l s"

section \<open>The invariant\<close>

definition device_ok :: "device \<Rightarrow> bool" where
  "device_ok d \<longleftrightarrow> dv_synced d \<le> dv_flushed d \<and> dv_flushed d \<le> length (dv_text d)"

definition logger_ok :: "log_state \<Rightarrow> logger \<Rightarrow> bool" where
  "logger_ok s g \<longleftrightarrow> (\<forall>p \<in> set (lg_appenders g). p < length (ls_appenders s)) \<and>
     (lg_root g = None \<or> lg_root g = Some (ls_root s))"

definition log_inv :: "log_state \<Rightarrow> bool" where
  "log_inv s \<longleftrightarrow>
     (\<forall>d \<in> set (ls_devices s). device_ok d) \<and> ls_devices s \<noteq> [] \<and>
     (\<forall>a \<in> set (ls_appenders s). device_of a < length (ls_devices s)) \<and>
     (\<forall>g \<in> set (ls_loggers s). logger_ok s g) \<and>
     ls_root s < length (ls_loggers s) \<and> lg_root (ls_loggers s ! ls_root s) = None \<and>
     ls_named s ''root'' = Some (ls_root s) \<and>
     (\<forall>name l. ls_named s name = Some l \<longrightarrow> l < length (ls_loggers s) \<and> lg_name (ls_loggers s ! l) = name)"

lemma appenders_const [simp]:
  "ls_appenders (on_device f a s) = ls_appenders s" "ls_loggers (on_device f a s) = ls_loggers s"
  "ls_root (on_device f a s) = ls_root s" "ls_named (on_device f a s) = ls_named s"
  "length (ls_devices (on_device f a s)) = length (ls_devices s)" "ls_cache (on_device f a s) = ls_cache s"
  by (simp_all add: on_device_def)

lemma on_device_nth:
  "device_of a < length (ls_devices s) \<Longrightarrow>
   ls_devices (on_device f a s) ! d = (if d = device_of a then f (ls_devices s ! d) else ls_devices s ! d)"
  by (simp add: on_device_def)

lemma on_device_inv:
  assumes "log_inv s" "device_of a < length (ls_devices s)" "\<And>d. device_ok d \<Longrightarrow> device_ok (f d)"
  shows "log_inv (on_device f a s)"
proof -
  have "\<forall>d \<in> set (ls_devices (on_device f a s)). device_ok d"
  proof -
    let ?ds = "ls_devices s"
    have "device_ok d" if "d \<in> set ?ds" for d using assms(1) that by (simp add: log_inv_def)
    moreover have "?ds ! device_of a \<in> set ?ds" using assms(2) by simp
    ultimately show ?thesis
      using set_update_subset_insert [of ?ds "device_of a" "f (?ds ! device_of a)"] assms(3)
      by (auto simp: on_device_def)
  qed
  moreover have "ls_devices (on_device f a s) \<noteq> []" using assms(1) by (simp add: on_device_def log_inv_def)
  ultimately show ?thesis using assms(1) by (simp add: log_inv_def logger_ok_def)
qed

lemma unlocked_inv:
  assumes "log_inv s" "device_of a < length (ls_devices s)"
  shows "log_inv (writeUnlocked text a s)" "log_inv (flushUnlocked a s)" "log_inv (syncUnlocked a s)"
proof -
  show "log_inv (writeUnlocked text a s)" unfolding writeUnlocked_def
    by (rule on_device_inv [OF assms]) (simp add: device_ok_def)
  show f: "log_inv (flushUnlocked a s)" unfolding flushUnlocked_def
    by (rule on_device_inv [OF assms]) (simp add: device_ok_def)
  have "device_of a < length (ls_devices (flushUnlocked a s))" using assms(2) by (simp add: flushUnlocked_def)
  from on_device_inv [OF f this, of "\<lambda>d. d\<lparr> dv_synced := dv_flushed d \<rparr>"] f
  show "log_inv (syncUnlocked a s)" by (auto simp: syncUnlocked_def Let_def device_ok_def split: appender_impl.splits)
qed

lemma appender_device: "log_inv s \<Longrightarrow> p < length (ls_appenders s) \<Longrightarrow> device_of (ls_appenders s ! p) < length (ls_devices s)"
  by (simp add: log_inv_def)

lemma unlocked_const [simp]:
  "ls_appenders (writeUnlocked text a s) = ls_appenders s" "ls_appenders (flushUnlocked a s) = ls_appenders s"
  "length (ls_devices (writeUnlocked text a s)) = length (ls_devices s)"
  "length (ls_devices (flushUnlocked a s)) = length (ls_devices s)"
  "ls_loggers (writeUnlocked text a s) = ls_loggers s" "ls_loggers (flushUnlocked a s) = ls_loggers s"
  "ls_appenders (syncUnlocked a s) = ls_appenders s" "ls_loggers (syncUnlocked a s) = ls_loggers s"
  "length (ls_devices (syncUnlocked a s)) = length (ls_devices s)"
  by (auto simp: writeUnlocked_def flushUnlocked_def syncUnlocked_def Let_def split: appender_impl.splits)

lemma append_const [simp]:
  "ls_appenders (appender_append lv text p s) = ls_appenders s" "ls_loggers (appender_append lv text p s) = ls_loggers s"
  "length (ls_devices (appender_append lv text p s)) = length (ls_devices s)"
  by (simp_all add: appender_append_def Let_def)

lemma log_append_inv: "log_inv s \<Longrightarrow> p < length (ls_appenders s) \<Longrightarrow> log_inv (appender_append lv text p s)"
  by (simp add: appender_append_def Let_def unlocked_inv appender_device)

text \<open>Whether an appender lets a record of the level through to the device.\<close>

definition passes :: "log_state \<Rightarrow> level \<Rightarrow> nat \<Rightarrow> nat \<Rightarrow> bool" where
  "passes s lv d p \<longleftrightarrow> device_of (ls_appenders s ! p) = d \<and> \<not> lv < ap_level (ls_appenders s ! p)"

lemma append_device:
  assumes "log_inv s" "p < length (ls_appenders s)" "d < length (ls_devices s)"
  shows "dv_text (ls_devices (appender_append lv text p s) ! d) =
      dv_text (ls_devices s ! d) @ (if passes s lv d p then text else [])"
    "dv_flushed (ls_devices (appender_append lv text p s) ! d) =
      (if passes s lv d p \<and> lv = LOG_LV_FATAL then length (dv_text (ls_devices (appender_append lv text p s) ! d))
       else dv_flushed (ls_devices s ! d))"
  using appender_device [OF assms(1,2)]
  by (auto simp: appender_append_def Let_def passes_def writeUnlocked_def flushUnlocked_def on_device_nth)

lemma fold_append:
  assumes "log_inv s" "\<forall>p \<in> set ps. p < length (ls_appenders s)" "d < length (ls_devices s)"
  shows "log_inv (fold (appender_append lv text) ps s) \<and>
    ls_appenders (fold (appender_append lv text) ps s) = ls_appenders s \<and>
    length (ls_devices (fold (appender_append lv text) ps s)) = length (ls_devices s) \<and>
    dv_text (ls_devices (fold (appender_append lv text) ps s) ! d) =
      dv_text (ls_devices s ! d) @ concat (map (\<lambda>_. text) (filter (passes s lv d) ps)) \<and>
    (lv = LOG_LV_FATAL \<and> filter (passes s lv d) ps \<noteq> [] \<longrightarrow>
      dv_flushed (ls_devices (fold (appender_append lv text) ps s) ! d) =
      length (dv_text (ls_devices (fold (appender_append lv text) ps s) ! d)))"
  using assms
proof (induction ps rule: rev_induct)
  case (snoc p ps)
  let ?s = "fold (appender_append lv text) ps s"
  from snoc have ih: "log_inv ?s" "ls_appenders ?s = ls_appenders s" "length (ls_devices ?s) = length (ls_devices s)"
    and p: "p < length (ls_appenders ?s)" by auto
  have same: "passes ?s lv d = passes s lv d" by (simp add: passes_def fun_eq_iff ih)
  have "d < length (ls_devices ?s)" using snoc.prems ih by simp
  note one = append_device [OF ih(1) p this, of lv "text"]
  from snoc log_append_inv [OF ih(1) p, of lv "text"] one ih show ?case by (auto simp: same)
qed simp

text \<open>The logger whose appenders take a record of the level: the logger itself, or the root.\<close>

definition target :: "level \<Rightarrow> nat \<Rightarrow> log_state \<Rightarrow> nat option" where
  "target lv l s =
     (let g = ls_loggers s ! l; root = ls_loggers s ! ls_root s
      in if lv < lg_level g then None
         else if lg_appenders g \<noteq> [] then Some l
         else if lg_root g = None \<or> lv < lg_level root \<or> lg_appenders root = [] then None
         else Some (ls_root s))"

lemma logger_facts:
  assumes "log_inv s" "l < length (ls_loggers s)"
  shows "\<forall>p \<in> set (lg_appenders (ls_loggers s ! l)). p < length (ls_appenders s)"
    "lg_root (ls_loggers s ! l) = None \<or> lg_root (ls_loggers s ! l) = Some (ls_root s)"
    "ls_root s < length (ls_loggers s)" "lg_root (ls_loggers s ! ls_root s) = None"
  using assms by (auto simp: log_inv_def logger_ok_def)

lemma shouldLog_target: "log_inv s \<Longrightarrow> l < length (ls_loggers s) \<Longrightarrow> shouldLog lv l s = Some (target lv l s \<noteq> None)"
  using logger_facts [of s l]
  by (subst shouldLog.simps, subst shouldLog.simps) (auto simp: target_def Let_def split: option.splits)

lemma submit_target:
  assumes "log_inv s" "l < length (ls_loggers s)"
  shows "submit cal thread l r s =
    Some (case target (lr_level r) l s of None \<Rightarrow> s | Some g \<Rightarrow> deliver cal thread (ls_loggers s ! g) r s)"
  using logger_facts [OF assms]
  by (subst submit.simps, subst submit.simps) (auto simp: target_def Let_def split: option.splits)

lemma target_ok:
  "log_inv s \<Longrightarrow> l < length (ls_loggers s) \<Longrightarrow> target lv l s = Some g \<Longrightarrow>
   g < length (ls_loggers s) \<and> lg_appenders (ls_loggers s ! g) \<noteq> []"
  using logger_facts [of s l] by (auto simp: target_def Let_def split: if_splits)

lemma cache_inv [simp]:
  "log_inv (s\<lparr> ls_cache := c \<rparr>) = log_inv s" "passes (s\<lparr> ls_cache := c \<rparr>) = passes s"
  by (simp_all add: log_inv_def logger_ok_def passes_def fun_eq_iff)

text \<open>C36: a record that is submitted to a logger always comes to an end, and arrives exactly where it
  should: \<open>shouldLog\<close> says whether some logger takes it, the logger itself or, when it has no appenders,
  the root; then every device gets the formatted text once for each of that logger's appenders on it
  whose level lets the record through, after what it had, and a fatal record is flushed; otherwise
  nothing changes.\<close>

theorem record_delivered:
  assumes "log_inv s" and "l < length (ls_loggers s)" and "d < length (ls_devices s)"
  shows "\<exists>s'. submit cal thread l r s = Some s' \<and> log_inv s' \<and>
    shouldLog (lr_level r) l s = Some (target (lr_level r) l s \<noteq> None) \<and>
    (case target (lr_level r) l s of
       None \<Rightarrow> s' = s
     | Some g \<Rightarrow>
         let text = fst (format_record cal (lg_formatter (ls_loggers s ! g)) r (ls_cache s thread));
             through = filter (passes s (lr_level r) d) (lg_appenders (ls_loggers s ! g))
         in dv_text (ls_devices s' ! d) = dv_text (ls_devices s ! d) @ concat (map (\<lambda>_. text) through) \<and>
            (lr_level r = LOG_LV_FATAL \<and> through \<noteq> [] \<longrightarrow> dv_flushed (ls_devices s' ! d) = length (dv_text (ls_devices s' ! d))))"
proof (cases "target (lr_level r) l s")
  case None
  then show ?thesis using assms by (simp add: submit_target shouldLog_target)
next
  case (Some g)
  obtain t c where f: "format_record cal (lg_formatter (ls_loggers s ! g)) r (ls_cache s thread) = (t, c)" by fastforce
  let ?s = "s\<lparr> ls_cache := (ls_cache s)(thread := c) \<rparr>" and ?ps = "lg_appenders (ls_loggers s ! g)"
  have "\<forall>p \<in> set ?ps. p < length (ls_appenders ?s)"
    using target_ok [OF assms(1,2) Some] logger_facts(1) [OF assms(1), of g] by simp
  from fold_append [of ?s ?ps d "lr_level r" t] this assms show ?thesis
    using Some f by (auto simp: submit_target shouldLog_target deliver_def Let_def)
qed

section \<open>The system\<close>

text \<open>What a program can do with loggers and appenders, whose addresses it has.\<close>

inductive log_step :: "'tm calendar \<Rightarrow> log_state \<Rightarrow> log_state \<Rightarrow> bool" for cal where
  make_stdout: "log_step cal s (snd (MakeStdoutAppender s))"
| make_file: "log_step cal s (snd (MakeFileAppender fopen file_name s))"
| appender_level: "p < length (ls_appenders s) \<Longrightarrow> log_step cal s (appender_setLevel lv p s)"
| appender_flush: "p < length (ls_appenders s) \<Longrightarrow> log_step cal s (appender_flush p s)"
| appender_sync: "p < length (ls_appenders s) \<Longrightarrow> log_step cal s (appender_sync p s)"
| get_logger: "log_step cal s (snd (getLogger name s))"
| set_level: "l < length (ls_loggers s) \<Longrightarrow> log_step cal s (setLevel lv l s)"
| set_formatter: "l < length (ls_loggers s) \<Longrightarrow> log_step cal s (snd (setFormatter pattern l s))"
| add_appender: "l < length (ls_loggers s) \<Longrightarrow> \<forall>p \<in> set_option a. p < length (ls_appenders s) \<Longrightarrow> log_step cal s (addAppender a l s)"
| remove_appender: "l < length (ls_loggers s) \<Longrightarrow> log_step cal s (removeAppender a l s)"
| clear_appenders: "l < length (ls_loggers s) \<Longrightarrow> log_step cal s (clearAppenders l s)"
| submit: "l < length (ls_loggers s) \<Longrightarrow> submit cal thread l r s = Some s' \<Longrightarrow> log_step cal s s'"
| flush: "l < length (ls_loggers s) \<Longrightarrow> logger_flush l s = Some s' \<Longrightarrow> log_step cal s s'"
| sync: "l < length (ls_loggers s) \<Longrightarrow> logger_sync l s = Some s' \<Longrightarrow> log_step cal s s'"

inductive log_reach :: "'tm calendar \<Rightarrow> log_state \<Rightarrow> bool" for cal where
  start: "LoggerManager = Inr s \<Longrightarrow> log_reach cal s"
| step: "log_reach cal s \<Longrightarrow> log_step cal s s' \<Longrightarrow> log_reach cal s'"

inductive_cases log_stepE: "log_step cal s s'"

lemma on_logger_const [simp]:
  "ls_devices (on_logger f l s) = ls_devices s" "ls_appenders (on_logger f l s) = ls_appenders s"
  "ls_named (on_logger f l s) = ls_named s" "ls_root (on_logger f l s) = ls_root s"
  "length (ls_loggers (on_logger f l s)) = length (ls_loggers s)"
  by (simp_all add: on_logger_def)

lemma on_logger_nth:
  "l < length (ls_loggers s) \<Longrightarrow>
   ls_loggers (on_logger f l s) ! k = (if k = l then f (ls_loggers s ! k) else ls_loggers s ! k)"
  by (simp add: on_logger_def)

lemma on_logger_inv:
  assumes i: "log_inv s" "l < length (ls_loggers s)"
    and f: "\<And>g. lg_name (f g) = lg_name g \<and> lg_root (f g) = lg_root g"
      "\<And>g. \<forall>p \<in> set (lg_appenders g). p < length (ls_appenders s) \<Longrightarrow> \<forall>p \<in> set (lg_appenders (f g)). p < length (ls_appenders s)"
  shows "log_inv (on_logger f l s)"
proof -
  let ?s = "on_logger f l s"
  have ok: "logger_ok s g \<Longrightarrow> logger_ok ?s g" "logger_ok s g \<Longrightarrow> logger_ok ?s (f g)" for g
    using f [of g] by (simp_all add: logger_ok_def)
  have "logger_ok ?s (ls_loggers ?s ! k)" if "k < length (ls_loggers s)" for k
  proof -
    have "logger_ok s (ls_loggers s ! k)" using i(1) that by (simp add: log_inv_def)
    then show ?thesis using ok by (auto simp: on_logger_nth [OF i(2)])
  qed
  then have "\<forall>g \<in> set (ls_loggers ?s). logger_ok ?s g" by (auto simp: in_set_conv_nth)
  then show ?thesis using i(1) f(1) unfolding log_inv_def by (auto simp: on_logger_nth [OF i(2)])
qed

lemma logger_ops_inv:
  assumes "log_inv s" "l < length (ls_loggers s)"
  shows "log_inv (setLevel lv l s)" "log_inv (snd (setFormatter pattern l s))" "log_inv (removeAppender a l s)"
    "log_inv (clearAppenders l s)" "\<forall>p \<in> set_option a. p < length (ls_appenders s) \<Longrightarrow> log_inv (addAppender a l s)"
  using assms
  by (auto simp: setLevel_def setFormatter_def removeAppender_def clearAppenders_def addAppender_def
      intro!: on_logger_inv split: sum.splits option.splits)

lemma new_appender_inv:
  assumes "log_inv s" "device_of a < length (ls_devices s @ ds)" "\<forall>d \<in> set ds. device_ok d"
  shows "log_inv (s\<lparr> ls_devices := ls_devices s @ ds, ls_appenders := ls_appenders s @ [a] \<rparr>)"
  using assms by (auto simp: log_inv_def logger_ok_def less_SucI trans_less_add1)

lemma log_make_inv: "log_inv s \<Longrightarrow> log_inv (snd (MakeStdoutAppender s))" "log_inv s \<Longrightarrow> log_inv (snd (MakeFileAppender fopen name s))"
proof -
  assume s: "log_inv s"
  have "0 < length (ls_devices s)" using s by (simp add: log_inv_def)
  with new_appender_inv [OF s, of "\<lparr> ap_impl = StdoutAppenderImpl, ap_level = LOG_LV_DEBUG \<rparr>" "[]"]
  show "log_inv (snd (MakeStdoutAppender s))" by (simp add: MakeStdoutAppender_def device_of_def)
  show "log_inv (snd (MakeFileAppender fopen name s))"
    using s new_appender_inv [OF s, of "\<lparr> ap_impl = FileAppenderImpl (length (ls_devices s)), ap_level = LOG_LV_DEBUG \<rparr>" "[new_device]"]
    by (simp add: MakeFileAppender_def device_of_def new_device_def device_ok_def)
qed

lemma appender_level_inv:
  assumes "log_inv s" "p < length (ls_appenders s)"
  shows "log_inv (appender_setLevel lv p s)"
proof -
  have "device_of ((ls_appenders s ! p)\<lparr> ap_level := lv \<rparr>) = device_of (ls_appenders s ! p)" by (simp add: device_of_def)
  moreover have "ls_appenders s ! p \<in> set (ls_appenders s)" using assms(2) by simp
  ultimately have "\<forall>a \<in> set (ls_appenders (appender_setLevel lv p s)). device_of a < length (ls_devices s)"
    using assms(1) set_update_subset_insert [of "ls_appenders s" p "(ls_appenders s ! p)\<lparr> ap_level := lv \<rparr>"]
    by (auto simp: appender_setLevel_def log_inv_def)
  then show ?thesis using assms(1) by (simp add: log_inv_def logger_ok_def appender_setLevel_def)
qed

lemma default_pattern: "\<exists>f. Formatter DEFAULT_LOG_PATTERN = Inr f"
proof -
  have "case Formatter DEFAULT_LOG_PATTERN of Inr f \<Rightarrow> True | Inl _ \<Rightarrow> False" by code_simp
  then show ?thesis by (auto split: sum.splits)
qed

lemma getLogger_inv: "log_inv s \<Longrightarrow> log_inv (snd (getLogger name s))"
  using default_pattern
  by (auto simp: getLogger_def Logger_Impl_def Let_def log_inv_def logger_ok_def nth_append less_SucI split: option.splits sum.splits)

lemma fold_inv:
  assumes "\<And>p s. log_inv s \<Longrightarrow> p < length (ls_appenders s) \<Longrightarrow> log_inv (f p s) \<and> ls_appenders (f p s) = ls_appenders s"
  shows "log_inv s \<Longrightarrow> \<forall>p \<in> set ps. p < length (ls_appenders s) \<Longrightarrow> log_inv (fold f ps s)"
  using assms by (induction ps arbitrary: s) auto

lemma log_flush_inv: "log_inv s \<Longrightarrow> p < length (ls_appenders s) \<Longrightarrow> log_inv (appender_flush p s) \<and> ls_appenders (appender_flush p s) = ls_appenders s"
  by (simp add: appender_flush_def unlocked_inv appender_device)

lemma log_sync_inv: "log_inv s \<Longrightarrow> p < length (ls_appenders s) \<Longrightarrow> log_inv (appender_sync p s) \<and> ls_appenders (appender_sync p s) = ls_appenders s"
  by (simp add: appender_sync_def unlocked_inv appender_device)

lemma chain_unfold:
  assumes "log_inv s" "l < length (ls_loggers s)"
  defines "g \<equiv> ls_loggers s ! l" and "r \<equiv> ls_loggers s ! ls_root s"
  shows "logger_flush l s = Some (if lg_appenders g \<noteq> [] then fold appender_flush (lg_appenders g) s
      else if lg_root g = None \<or> lg_appenders r = [] then s else fold appender_flush (lg_appenders r) s)"
    and "logger_sync l s = Some (if lg_appenders g \<noteq> [] then fold appender_sync (lg_appenders g) s
      else if lg_root g = None \<or> lg_appenders r = [] then s else fold appender_sync (lg_appenders r) s)"
proof -
  note h = logger_facts [OF assms(1,2)]
  show "logger_flush l s = Some (if lg_appenders g \<noteq> [] then fold appender_flush (lg_appenders g) s
      else if lg_root g = None \<or> lg_appenders r = [] then s else fold appender_flush (lg_appenders r) s)"
    using h(2,4) by (subst logger_flush.simps, subst logger_flush.simps) (auto simp: g_def r_def Let_def)
  show "logger_sync l s = Some (if lg_appenders g \<noteq> [] then fold appender_sync (lg_appenders g) s
      else if lg_root g = None \<or> lg_appenders r = [] then s else fold appender_sync (lg_appenders r) s)"
    using h(2,4) by (subst logger_sync.simps, subst logger_sync.simps) (auto simp: g_def r_def Let_def)
qed

lemma chains_end:
  assumes "log_inv s" "l < length (ls_loggers s)"
  shows "\<exists>s'. logger_flush l s = Some s' \<and> log_inv s'" "\<exists>s'. logger_sync l s = Some s' \<and> log_inv s'"
proof -
  note here = logger_facts [OF assms] and there = logger_facts(1) [OF assms(1) logger_facts(3) [OF assms]]
  show "\<exists>s'. logger_flush l s = Some s' \<and> log_inv s'"
    using chain_unfold(1) [OF assms] fold_inv [OF log_flush_inv assms(1)] here(1) there assms(1) by simp
  show "\<exists>s'. logger_sync l s = Some s' \<and> log_inv s'"
    using chain_unfold(2) [OF assms] fold_inv [OF log_sync_inv assms(1)] here(1) there assms(1) by simp
qed

lemma submit_inv:
  assumes "log_inv s" "l < length (ls_loggers s)" "submit cal thread l r s = Some s'"
  shows "log_inv s'"
proof (cases "target (lr_level r) l s")
  case (Some g)
  obtain t c where f: "format_record cal (lg_formatter (ls_loggers s ! g)) r (ls_cache s thread) = (t, c)" by fastforce
  have "\<forall>p \<in> set (lg_appenders (ls_loggers s ! g)). p < length (ls_appenders s)"
    using target_ok [OF assms(1,2) Some] logger_facts(1) [OF assms(1), of g] by simp
  then have "log_inv (deliver cal thread (ls_loggers s ! g) r s)"
    unfolding deliver_def f by (simp add: log_append_inv assms(1) fold_inv)
  then show ?thesis using assms Some by (simp add: submit_target)
qed (use assms in \<open>simp add: submit_target\<close>)

lemma log_step_inv:
  assumes "log_step cal s s'" "log_inv s"
  shows "log_inv s'"
  using assms(1)
proof (cases rule: log_step.cases)
  case (flush l)
  then show ?thesis using chains_end(1) [OF assms(2)] by fastforce
next
  case (sync l)
  then show ?thesis using chains_end(2) [OF assms(2)] by fastforce
qed (use assms(2) in \<open>auto simp: log_make_inv appender_level_inv log_flush_inv log_sync_inv getLogger_inv logger_ops_inv intro: submit_inv\<close>)

lemma log_start_inv: "LoggerManager = Inr s \<Longrightarrow> log_inv s"
  using default_pattern
  by (auto simp: LoggerManager_def Logger_Impl_def empty_logs_def MakeStdoutAppender_def addAppender_def on_logger_def
      log_inv_def logger_ok_def device_of_def new_device_def device_ok_def split: if_splits)

lemma log_reach_inv: "log_reach cal s \<Longrightarrow> log_inv s"
  by (induction rule: log_reach.induct) (auto intro: log_start_inv log_step_inv)

text \<open>the registry of loggers is sound whatever the program does with loggers and appenders: every
  appender of a logger exists and has a device, what is synchronised was flushed and what is flushed was
  written, a chain of loggers is at most the logger and the root, so that flushing and synchronising
  always return; asking for a name gives one logger, the same each time, which carries that name, and
  \<open>root\<close> is the root.\<close>

theorem logger_registry:
  assumes "log_reach cal s"
  shows "log_inv s \<and>
    (l < length (ls_loggers s) \<longrightarrow> (\<exists>s'. logger_flush l s = Some s') \<and> (\<exists>s'. logger_sync l s = Some s')) \<and>
    getLogger ''root'' s = (Inr (Some (ls_root s)), s) \<and>
    (name \<noteq> [] \<longrightarrow> (\<exists>k s'. getLogger name s = (Inr (Some k), s') \<and> lg_name (ls_loggers s' ! k) = name \<and>
      getLogger name s' = (Inr (Some k), s')))"
proof -
  have i: "log_inv s" using assms by (rule log_reach_inv)
  have r: "getLogger ''root'' s = (Inr (Some (ls_root s)), s)" using i by (simp add: log_inv_def getLogger_def)
  have n: "\<exists>k s'. getLogger name s = (Inr (Some k), s') \<and> lg_name (ls_loggers s' ! k) = name \<and>
      getLogger name s' = (Inr (Some k), s')" if "name \<noteq> []"
  proof (cases "ls_named s name")
    case None
    then show ?thesis using default_pattern that by (auto simp: getLogger_def Logger_Impl_def Let_def)
  next
    case (Some k)
    then show ?thesis using i that by (auto simp: getLogger_def log_inv_def)
  qed
  have "l < length (ls_loggers s) \<Longrightarrow> (\<exists>s'. logger_flush l s = Some s') \<and> (\<exists>s'. logger_sync l s = Some s')"
    using chains_end [OF i] by blast
  with i r n show ?thesis by blast
qed

lemma manager_starts: "\<exists>s. LoggerManager = Inr s"
  using default_pattern by (auto simp: LoggerManager_def Logger_Impl_def Let_def split: prod.splits)

theorem logger_registry_witness:
  "\<exists>s k s'. LoggerManager = Inr s \<and> getLogger ''system'' s = (Inr (Some k), s') \<and> getLogger ''system'' s' = (Inr (Some k), s')"
proof -
  obtain s where s: "LoggerManager = Inr s" using manager_starts by blast
  from logger_registry [OF log_reach.start [OF s, of calendar_example], of 0 "''system''"] s show ?thesis by blast
qed

theorem record_delivered_witness:
  "\<exists>s k s'. LoggerManager = Inr s \<and> getLogger ''system'' s = (Inr (Some k), s') \<and>
     shouldLog LOG_LV_WARN k s' = Some True \<and> (\<exists>s''. submit calendar_example 7 k (record_example 1000000000) s' = Some s'' \<and> log_inv s'')"
proof -
  obtain s where s: "LoggerManager = Inr s" using manager_starts by blast
  then have inv: "log_inv s" by (rule log_start_inv)
  let ?s = "snd (getLogger ''system'' s)" and ?k = "length (ls_loggers s)"
  have g: "getLogger ''system'' s = (Inr (Some ?k), ?s)" "target LOG_LV_WARN ?k ?s = Some 0" "?k < length (ls_loggers ?s)"
    "0 < length (ls_devices ?s)"
    using s default_pattern
    by (auto simp: LoggerManager_def getLogger_def Logger_Impl_def empty_logs_def MakeStdoutAppender_def addAppender_def
        on_logger_def target_def levels)
  have r: "lr_level (record_example 1000000000) = LOG_LV_WARN" by (simp add: record_example_def)
  from record_delivered [OF getLogger_inv [OF inv] g(3,4), of calendar_example 7 "record_example 1000000000"] g s r
  show ?thesis by auto
qed

section \<open>Messages\<close>

lemma streamed: "ib_inv LOG_MESSAGE_INLINE_CAPACITY b \<Longrightarrow>
    ib_inv LOG_MESSAGE_INLINE_CAPACITY (fold stream_write pieces b) \<and> ib_view (fold stream_write pieces b) = ib_view b @ concat pieces"
proof (induction pieces arbitrary: b)
  case (Cons t pieces)
  have "ib_inv LOG_MESSAGE_INLINE_CAPACITY (stream_write t b)" "ib_view (stream_write t b) = ib_view b @ t"
    using Cons.prems by (simp_all add: stream_write_def xsputn_def)
  with Cons.IH show ?case by simp
qed simp

text \<open>a log line's record carries the whole message: for a streamed line the concatenation of its
  pieces, and for a printf line the whole text, however long, when \<open>vsnprintf\<close> returns the length of the
  text and writes what fits; both go through the buffer that starts in the line itself.\<close>

theorem line_message_whole:
  assumes "\<And>n. 0 < n \<Longrightarrow> vsnprintf n = (int (length t), take (n - 1) t)"
  shows "(let r = getRecord st lv (lg_name (ls_loggers s ! l)) (InlineBuffer LOG_MESSAGE_INLINE_CAPACITY)
          in LogLine cal st lv pieces l s = submit cal (st_threadId st) l (r\<lparr> lr_message := concat pieces \<rparr>) s \<and>
             LogPrintf cal st lv (Some vsnprintf) l s = submit cal (st_threadId st) l (r\<lparr> lr_message := t \<rparr>) s)"
proof -
  have line: "LogLine cal st lv ps l s = submit cal (st_threadId st) l
      ((getRecord st lv (lg_name (ls_loggers s ! l)) (InlineBuffer LOG_MESSAGE_INLINE_CAPACITY))\<lparr> lr_message := concat ps \<rparr>) s" for ps
    using streamed [of "InlineBuffer LOG_MESSAGE_INLINE_CAPACITY" ps] by (simp add: LogLine_def Let_def getRecord_def)
  have "printf_pieces (Some vsnprintf) = [t]"
    using assms [of PRINTF_FORMAT_INLINE_CAPACITY] assms [of "length t + 1"]
    by (auto simp: printf_pieces_def PRINTF_FORMAT_INLINE_CAPACITY_def)
  then show ?thesis by (simp add: line LogPrintf_def Let_def)
qed

theorem line_message_whole_witness:
  "let st = \<lparr> st_timestamp = 0, st_elapsed = 0, st_threadId = 1, st_fiberId = 0, st_threadName = [], st_fileName = [], st_line = 1 \<rparr>;
       t = replicate 1000 (CHR ''x'')
   in LogPrintf calendar_example st LOG_LV_INFO (Some (\<lambda>n. (int (length t), take (n - 1) t))) 0 empty_logs =
      submit calendar_example 1 0
        ((getRecord st LOG_LV_INFO (lg_name (ls_loggers empty_logs ! 0)) (InlineBuffer LOG_MESSAGE_INLINE_CAPACITY))\<lparr> lr_message := t \<rparr>) empty_logs"
proof -
  let ?t = "replicate 1000 (CHR ''x'')"
  let ?st = "\<lparr> st_timestamp = 0, st_elapsed = 0, st_threadId = 1, st_fiberId = 0, st_threadName = [], st_fileName = [], st_line = 1 \<rparr>"
  let ?v = "\<lambda>n. (int (length ?t), take (n - 1) ?t)"
  have v: "\<And>n. 0 < n \<Longrightarrow> ?v n = (int (length ?t), take (n - 1) ?t)" by (rule refl)
  from line_message_whole [of ?v ?t ?st LOG_LV_INFO empty_logs 0 calendar_example "[]", OF v]
  have "LogPrintf calendar_example ?st LOG_LV_INFO (Some ?v) 0 empty_logs =
      submit calendar_example (st_threadId ?st) 0
        ((getRecord ?st LOG_LV_INFO (lg_name (ls_loggers empty_logs ! 0)) (InlineBuffer LOG_MESSAGE_INLINE_CAPACITY))\<lparr> lr_message := ?t \<rparr>) empty_logs"
    unfolding Let_def by (rule conjunct2)
  then show ?thesis unfolding Let_def by (simp only: stamp.simps)
qed
end
