(* ===== verification/Config_Convert.thy ===== *)
theory Config_Convert
  imports String_Utils
begin

text \<open>
  Conversion between YAML nodes and configuration values (include/droplet/config/convert.h,
  src/config/convert.cc).  A type the template is used at is a description \<open>ctype\<close>: booleans, strings,
  integers by their range (an enumeration is its underlying integer), sequences and string-keyed maps;
  a value is a \<open>cvalue\<close> of that shape.  Floating-point numbers and the types the program specialises the
  template for itself are left out.

  The nodes of yaml-cpp are a parameter: the type \<open>'n\<close> with the observers and constructors the code
  calls.  What the code relies on is \<open>yaml_laws\<close>: a constructed node shows what it was made from.  A
  thrown error is its type, reason and value; the texts of the reasons are not kept.
\<close>

section \<open>Nodes\<close>

text \<open>\<open>sequence_node\<close> is an empty sequence with each node pushed, \<open>map_node\<close> an empty map with each key
  assigned.\<close>

record 'n yaml =
  IsDefined :: "'n \<Rightarrow> bool"
  IsNull :: "'n \<Rightarrow> bool"
  IsScalar :: "'n \<Rightarrow> bool"
  IsSequence :: "'n \<Rightarrow> bool"
  IsMap :: "'n \<Rightarrow> bool"
  Scalar :: "'n \<Rightarrow> string"
  elements :: "'n \<Rightarrow> 'n list"
  entries :: "'n \<Rightarrow> ('n \<times> 'n) list"
  string_node :: "string \<Rightarrow> 'n"
  bool_node :: "bool \<Rightarrow> 'n"
  sequence_node :: "'n list \<Rightarrow> 'n"
  map_node :: "(string \<times> 'n) list \<Rightarrow> 'n"

definition yaml_laws :: "'n yaml \<Rightarrow> bool" where
  "yaml_laws y \<longleftrightarrow>
     (\<forall>s. IsDefined y (string_node y s) \<and> IsScalar y (string_node y s) \<and> Scalar y (string_node y s) = s) \<and>
     (\<forall>b. IsDefined y (bool_node y b) \<and> IsScalar y (bool_node y b) \<and>
       Scalar y (bool_node y b) = (if b then ''true'' else ''false'')) \<and>
     (\<forall>ns. IsSequence y (sequence_node y ns) \<and> elements y (sequence_node y ns) = ns) \<and>
     (\<forall>m. distinct (map fst m) \<longrightarrow>
       IsMap y (map_node y m) \<and> entries y (map_node y m) = map (\<lambda>(k, n). (string_node y k, n)) m)"

section \<open>Errors\<close>

datatype reason =
    EmptyScalar | NotANumber | NotABool | NotDefined | ScalarExpected | SequenceExpected | MapExpected | KeyNotScalar

record convert_error =
  ce_type :: string
  ce_reason :: reason
  ce_value :: string

definition ThrowConvertError :: "string \<Rightarrow> reason \<Rightarrow> string \<Rightarrow> convert_error + 'a" where
  "ThrowConvertError type_name reason val = Inl \<lparr> ce_type = type_name, ce_reason = reason, ce_value = val \<rparr>"

section \<open>Scalars\<close>

definition TrimText :: "string \<Rightarrow> string" where
  "TrimText = Trim_delimiters ASCII_WHITESPACE"

definition TRUE_WORDS :: "string list" where
  "TRUE_WORDS = [''true'', ''yes'', ''on'', ''y'', ''1'', ''t'']"

definition FALSE_WORDS :: "string list" where
  "FALSE_WORDS = [''false'', ''no'', ''off'', ''n'', ''0'', ''f'']"

definition EqualsIgnoreCase :: "string \<Rightarrow> string \<Rightarrow> bool" where
  "EqualsIgnoreCase lhs rhs \<longleftrightarrow>
     length lhs = length rhs \<and> list_all2 (\<lambda>l r. ascii_lower l = ascii_lower r) lhs rhs"

definition ParseBool :: "string \<Rightarrow> bool option" where
  "ParseBool text =
     (let body = TrimText text
      in if \<exists>word \<in> set TRUE_WORDS. EqualsIgnoreCase body word then Some True
         else if \<exists>word \<in> set FALSE_WORDS. EqualsIgnoreCase body word then Some False
         else None)"

definition ScalarText :: "'n yaml \<Rightarrow> 'n \<Rightarrow> string \<Rightarrow> convert_error + string" where
  "ScalarText y node type_name =
     (if \<not> IsDefined y node then ThrowConvertError type_name NotDefined []
      else if \<not> IsScalar y node then ThrowConvertError type_name ScalarExpected []
      else Inr (Scalar y node))"

text \<open>\<open>std::from_chars\<close> for an integer type with values from \<open>lo\<close> to \<open>hi\<close>; only a signed type takes a
  minus sign.\<close>

definition from_chars_int :: "int \<Rightarrow> int \<Rightarrow> nat \<Rightarrow> string \<Rightarrow> (int \<times> string) option" where
  "from_chars_int lo hi base s =
     (if lo < 0 \<and> s \<noteq> [] \<and> hd s = CHR ''-''
      then map_option (\<lambda>(v, rest). (- int v, rest)) (from_chars base (nat (- lo)) (tl s))
      else map_option (\<lambda>(v, rest). (int v, rest)) (from_chars base (nat hi) s))"

definition ParseArithmetic :: "int \<Rightarrow> int \<Rightarrow> string \<Rightarrow> string \<Rightarrow> convert_error + int" where
  "ParseArithmetic lo hi text type_name =
     (let body = TrimText text
      in if body = [] then ThrowConvertError type_name EmptyScalar []
         else let body = (if hd body = CHR ''+'' then tl body else body);
                  hex = (length body > 2 \<and> body ! 0 = CHR ''0'' \<and> (body ! 1 = CHR ''x'' \<or> body ! 1 = CHR ''X''))
              in case from_chars_int lo hi (if hex then 16 else 10) (if hex then drop 2 body else body) of
                   Some (v, []) \<Rightarrow> Inr v
                 | _ \<Rightarrow> ThrowConvertError type_name NotANumber text)"

section \<open>Types and values\<close>

text \<open>A sequence type has \<open>emplace_back\<close>, or an \<open>emplace\<close> of its own (a set); a map type is hashed, or
  sorted by an order.\<close>

datatype cvalue = VBool bool | VString string | VInt int | VSeq "cvalue list" | VMap "(string \<times> cvalue) list"

datatype ctype =
    CBool
  | CString
  | CInt int int
  | CSeq "(cvalue \<Rightarrow> cvalue list \<Rightarrow> cvalue list) option" ctype
  | CMap "(string \<Rightarrow> string \<Rightarrow> bool) option" ctype

text \<open>\<open>TypeName\<close> of a type is a compile-time constant.\<close>

type_synonym type_names = "ctype \<Rightarrow> string"

definition seq_emplace :: "(cvalue \<Rightarrow> cvalue list \<Rightarrow> cvalue list) option \<Rightarrow> cvalue \<Rightarrow> cvalue list \<Rightarrow> cvalue list" where
  "seq_emplace e v vs = (case e of None \<Rightarrow> vs @ [v] | Some f \<Rightarrow> f v vs)"

definition map_emplace ::
  "(string \<Rightarrow> string \<Rightarrow> bool) option \<Rightarrow> string \<Rightarrow> cvalue \<Rightarrow> (string \<times> cvalue) list \<Rightarrow> (string \<times> cvalue) list" where
  "map_emplace ord k v m =
     (if k \<in> fst ` set m then m
      else case ord of
             None \<Rightarrow> m @ [(k, v)]
           | Some lt \<Rightarrow> takeWhile (\<lambda>e. lt (fst e) k) m @ (k, v) # dropWhile (\<lambda>e. lt (fst e) k) m)"

text \<open>The loops of the two container converters, with the conversion of an element; an error ends them.\<close>

fun seq_items ::
  "('n \<Rightarrow> convert_error + cvalue) \<Rightarrow> (cvalue \<Rightarrow> cvalue list \<Rightarrow> cvalue list) option \<Rightarrow> 'n list \<Rightarrow> cvalue list \<Rightarrow>
   convert_error + cvalue list" where
  "seq_items from_node e [] container = Inr container"
| "seq_items from_node e (item # items) container =
     (case from_node item of
        Inl x \<Rightarrow> Inl x
      | Inr v \<Rightarrow> seq_items from_node e items (seq_emplace e v container))"

fun map_items ::
  "'n yaml \<Rightarrow> string \<Rightarrow> ('n \<Rightarrow> convert_error + cvalue) \<Rightarrow> (string \<Rightarrow> string \<Rightarrow> bool) option \<Rightarrow> ('n \<times> 'n) list \<Rightarrow>
   (string \<times> cvalue) list \<Rightarrow> convert_error + (string \<times> cvalue) list" where
  "map_items y type_name from_node ord [] container = Inr container"
| "map_items y type_name from_node ord ((k, n) # items) container =
     (if \<not> IsScalar y k then ThrowConvertError type_name KeyNotScalar []
      else case from_node n of
             Inl x \<Rightarrow> Inl x
           | Inr v \<Rightarrow> map_items y type_name from_node ord items (map_emplace ord (Scalar y k) v container))"

fun FromNode :: "type_names \<Rightarrow> 'n yaml \<Rightarrow> ctype \<Rightarrow> 'n \<Rightarrow> convert_error + cvalue" where
  "FromNode tn y CBool node =
     (case ScalarText y node (tn CBool) of
        Inl x \<Rightarrow> Inl x
      | Inr text \<Rightarrow>
          (case ParseBool text of
             None \<Rightarrow> ThrowConvertError (tn CBool) NotABool text
           | Some b \<Rightarrow> Inr (VBool b)))"
| "FromNode tn y CString node = map_sum id VString (ScalarText y node (tn CString))"
| "FromNode tn y (CInt lo hi) node =
     (case ScalarText y node (tn (CInt lo hi)) of
        Inl x \<Rightarrow> Inl x
      | Inr text \<Rightarrow> map_sum id VInt (ParseArithmetic lo hi text (tn (CInt lo hi))))"
| "FromNode tn y (CSeq e t) node =
     (if \<not> IsSequence y node then ThrowConvertError (tn (CSeq e t)) SequenceExpected []
      else map_sum id VSeq (seq_items (FromNode tn y t) e (elements y node) []))"
| "FromNode tn y (CMap ord t) node =
     (if \<not> IsMap y node then ThrowConvertError (tn (CMap ord t)) MapExpected []
      else map_sum id VMap (map_items y (tn (CMap ord t)) (FromNode tn y t) ord (entries y node) []))"

fun ToNode :: "'n yaml \<Rightarrow> cvalue \<Rightarrow> 'n" where
  "ToNode y (VBool b) = bool_node y b"
| "ToNode y (VString s) = string_node y s"
| "ToNode y (VInt i) = string_node y (show_int i)"
| "ToNode y (VSeq vs) = sequence_node y (map (ToNode y) vs)"
| "ToNode y (VMap m) = map_node y (map (\<lambda>(k, v). (k, ToNode y v)) m)"

section \<open>Values of a type\<close>

definition seq_normal :: "(cvalue \<Rightarrow> cvalue list \<Rightarrow> cvalue list) option \<Rightarrow> cvalue list \<Rightarrow> bool" where
  "seq_normal e vs \<longleftrightarrow> fold (seq_emplace e) vs [] = vs"

definition map_normal :: "(string \<Rightarrow> string \<Rightarrow> bool) option \<Rightarrow> (string \<times> cvalue) list \<Rightarrow> bool" where
  "map_normal ord m \<longleftrightarrow> distinct (map fst m) \<and> (\<forall>lt \<in> set_option ord. sorted_wrt lt (map fst m))"

fun has_type :: "ctype \<Rightarrow> cvalue \<Rightarrow> bool" where
  "has_type CBool (VBool _) = True"
| "has_type CString (VString _) = True"
| "has_type (CInt lo hi) (VInt i) \<longleftrightarrow> lo \<le> i \<and> i \<le> hi \<and> lo \<le> 0"
| "has_type (CSeq e t) (VSeq vs) \<longleftrightarrow> seq_normal e vs \<and> list_all (has_type t) vs"
| "has_type (CMap ord t) (VMap m) \<longleftrightarrow> map_normal ord m \<and> list_all (has_type t) (map snd m)"
| "has_type _ _ = False"

section \<open>Printing and parsing\<close>

lemma TrimText_plain: "set s \<inter> set ASCII_WHITESPACE = {} \<Longrightarrow> TrimText s = s"
proof -
  assume s: "set s \<inter> set ASCII_WHITESPACE = {}"
  have "dropWhile (\<lambda>c. c \<in> set ASCII_WHITESPACE) xs = xs" if "set xs = set s" for xs
    using s that by (cases xs) auto
  then show ?thesis by (simp add: TrimText_def Trim_eq TrimLeft_eq TrimRight_eq)
qed

lemma show_int_chars: "c \<in> set (show_int i) \<Longrightarrow> is_digit c \<or> c = CHR ''-''"
  using show_nat_digits by (auto simp: show_int_def split: if_splits)

lemma show_int_Trim: "TrimText (show_int i) = show_int i"
  by (rule TrimText_plain) (auto dest!: show_int_chars simp: ASCII_WHITESPACE_def is_digit_def)

lemma show_int_not_hex: "\<not> (length (show_int i) > 2 \<and> show_int i ! 0 = CHR ''0'' \<and> (show_int i ! 1 = CHR ''x'' \<or> show_int i ! 1 = CHR ''X''))"
proof
  assume h: "length (show_int i) > 2 \<and> show_int i ! 0 = CHR ''0'' \<and> (show_int i ! 1 = CHR ''x'' \<or> show_int i ! 1 = CHR ''X'')"
  then have "show_int i ! 1 \<in> set (show_int i)" by (intro nth_mem) simp
  then have "is_digit (show_int i ! 1) \<or> show_int i ! 1 = CHR ''-''" by (rule show_int_chars)
  with h show False by (auto simp: is_digit_def)
qed

lemma from_chars_show_int:
  assumes "lo \<le> i" "i \<le> hi" "lo \<le> 0"
  shows "from_chars_int lo hi 10 (show_int i) = Some (i, [])"
proof (cases "i < 0")
  case True
  then have "from_chars 10 (nat (- lo)) (show_nat (nat (- i))) = Some (nat (- i), [])"
    using assms by (intro from_chars_show_nat) simp
  then show ?thesis using True assms by (simp add: from_chars_int_def show_int_def)
next
  case False
  then have "from_chars 10 (nat hi) (show_nat (nat i)) = Some (nat i, [])"
    using assms by (intro from_chars_show_nat) simp
  moreover have "is_digit (hd (show_nat (nat i)))" using show_nat_digits hd_in_set [OF show_nat_nonempty] by blast
  then have "hd (show_nat (nat i)) \<noteq> CHR ''-''" by (auto simp: is_digit_def)
  ultimately show ?thesis using False by (simp add: from_chars_int_def show_int_def)
qed

lemma ParseArithmetic_show:
  assumes "lo \<le> i" "i \<le> hi" "lo \<le> 0"
  shows "ParseArithmetic lo hi (show_int i) tn = Inr i"
proof -
  have n: "show_int i \<noteq> []" by (simp add: show_int_def)
  then have "is_digit (hd (show_int i)) \<or> hd (show_int i) = CHR ''-''" by (rule show_int_chars [OF hd_in_set])
  then have "hd (show_int i) \<noteq> CHR ''+''" by (auto simp: is_digit_def)
  with n show ?thesis unfolding ParseArithmetic_def show_int_Trim Let_def
    using show_int_not_hex [of i] from_chars_show_int [OF assms] by auto
qed

lemma ParseBool_words: "ParseBool ''true'' = Some True" "ParseBool ''false'' = Some False"
  by code_simp+

lemma map_emplace_last:
  "map_normal ord (m @ [(k, v)]) \<Longrightarrow> map_emplace ord k v m = m @ [(k, v)]"
proof -
  assume h: "map_normal ord (m @ [(k, v)])"
  have "takeWhile (\<lambda>e. lt (fst e) k) m = m \<and> dropWhile (\<lambda>e. lt (fst e) k) m = []" if "ord = Some lt" for lt
  proof -
    have "\<forall>e \<in> set m. lt (fst e) k" using h that by (auto simp: map_normal_def sorted_wrt_append)
    then show ?thesis by (simp add: takeWhile_eq_all_conv dropWhile_eq_Nil_conv)
  qed
  then show ?thesis using h by (auto simp: map_emplace_def map_normal_def split: option.splits)
qed

lemma map_emplace_all: "map_normal ord m \<Longrightarrow> fold (\<lambda>(k, v). map_emplace ord k v) m [] = m"
proof (induction m rule: rev_induct)
  case (snoc e m)
  obtain k v where e: "e = (k, v)" by fastforce
  have "map_normal ord m" using snoc.prems by (auto simp: map_normal_def sorted_wrt_append)
  then show ?case using snoc e map_emplace_last [of ord m k v] by simp
qed simp

lemma seq_items_map:
  "(\<forall>v \<in> set vs. from_node (to_node v) = Inr v) \<Longrightarrow>
   seq_items from_node e (map to_node vs) acc = Inr (fold (seq_emplace e) vs acc)"
  by (induction vs arbitrary: acc) auto

lemma map_items_map:
  assumes "yaml_laws y"
  shows "(\<forall>v \<in> set (map snd m). from_node (to_node v) = Inr v) \<Longrightarrow>
   map_items y tn from_node ord (map (\<lambda>(k, v). (string_node y k, to_node v)) m) acc =
   Inr (fold (\<lambda>(k, v). map_emplace ord k v) m acc)"
  using assms by (induction m arbitrary: acc) (auto simp: yaml_laws_def)

text \<open>C40: a configuration value survives being written to YAML and read back: for every type built from
  booleans, strings, integers of any width, sequences, sets and maps, and every value of the type,
  \<open>FromNode\<close> of \<open>ToNode\<close> gives the value, whatever the nodes are as long as they show what they were made
  from.\<close>

theorem config_value_round_trip:
  assumes "yaml_laws y" and "has_type t v"
  shows "FromNode tn y t (ToNode y v) = Inr v"
  using assms(2)
proof (induction t arbitrary: v)
  case CBool
  then show ?case using assms(1) by (cases v) (auto simp: ScalarText_def yaml_laws_def ParseBool_words)
next
  case CString
  then show ?case using assms(1) by (cases v) (auto simp: ScalarText_def yaml_laws_def)
next
  case (CInt lo hi)
  then show ?case using assms(1) ParseArithmetic_show by (cases v) (auto simp: ScalarText_def yaml_laws_def)
next
  case (CSeq e t)
  then obtain vs where v: "v = VSeq vs" "seq_normal e vs" "list_all (has_type t) vs" by (cases v) auto
  have "IsSequence y (sequence_node y ns) \<and> elements y (sequence_node y ns) = ns" for ns
    using assms(1) by (simp add: yaml_laws_def)
  then show ?case
    using v CSeq.IH seq_items_map [of vs "FromNode tn y t" "ToNode y" e "[]"] by (simp add: list_all_iff seq_normal_def)
next
  case (CMap ord t)
  then obtain m where v: "v = VMap m" "map_normal ord m" "list_all (has_type t) (map snd m)" by (cases v) auto
  have d: "distinct (map fst (map (\<lambda>(k, v). (k, ToNode y v)) m))"
    using v(2) by (simp add: map_normal_def comp_def case_prod_beta)
  have e: "map (\<lambda>(k, n). (string_node y k, n)) (map (\<lambda>(k, v). (k, ToNode y v)) m) = map (\<lambda>(k, v). (string_node y k, ToNode y v)) m"
    by (simp add: comp_def case_prod_beta)
  have "IsMap y (ToNode y v) \<and> entries y (ToNode y v) = map (\<lambda>(k, v). (string_node y k, ToNode y v)) m"
    using assms(1) d e unfolding v(1) yaml_laws_def ToNode.simps by metis
  moreover have "\<forall>v \<in> set (map snd m). FromNode tn y t (ToNode y v) = Inr v" using v(3) CMap.IH by (auto simp: list_all_iff)
  note map_items_map [OF assms(1) this, of "tn (CMap ord t)" ord "[]"]
  ultimately show ?case using map_emplace_all [OF v(2)] v(1) by (simp del: ToNode.simps)
qed

text \<open>Nodes as trees, as an instance of the parameter.\<close>

datatype ynode = YNull | YScalar string | YSeq "ynode list" | YMap "(ynode \<times> ynode) list"

definition tree_yaml :: "ynode yaml" where
  "tree_yaml = \<lparr> IsDefined = \<lambda>_. True, IsNull = \<lambda>n. n = YNull, IsScalar = \<lambda>n. case n of YScalar _ \<Rightarrow> True | _ \<Rightarrow> False,
     IsSequence = \<lambda>n. case n of YSeq _ \<Rightarrow> True | _ \<Rightarrow> False, IsMap = \<lambda>n. case n of YMap _ \<Rightarrow> True | _ \<Rightarrow> False,
     Scalar = \<lambda>n. case n of YScalar s \<Rightarrow> s | _ \<Rightarrow> [], elements = \<lambda>n. case n of YSeq ns \<Rightarrow> ns | _ \<Rightarrow> [],
     entries = \<lambda>n. case n of YMap m \<Rightarrow> m | _ \<Rightarrow> [], string_node = YScalar,
     bool_node = \<lambda>b. YScalar (if b then ''true'' else ''false''), sequence_node = YSeq,
     map_node = \<lambda>m. YMap (map (\<lambda>(k, n). (YScalar k, n)) m) \<rparr>"

lemma tree_yaml_laws: "yaml_laws tree_yaml"
  by (simp add: yaml_laws_def tree_yaml_def)

theorem config_value_round_trip_witness:
  "FromNode (\<lambda>_. []) tree_yaml (CMap None (CSeq None (CInt (- 128) 127)))
     (ToNode tree_yaml (VMap [(''a'', VSeq [VInt (- 5), VInt 127]), (''b'', VSeq [])])) =
   Inr (VMap [(''a'', VSeq [VInt (- 5), VInt 127]), (''b'', VSeq [])])"
  by (rule config_value_round_trip [OF tree_yaml_laws]) (simp add: map_normal_def seq_normal_def seq_emplace_def)
end
