(* ===== verification/System_Utils.thy ===== *)
theory System_Utils
  imports Prelude "HOL-Library.List_Lexorder"
begin

text \<open>
  The utilities around the operating system (utils/fs_utils.cc, utils/thread_utils.cc and
  utils/system_utils.cc, as built on Linux).  What the system answers is a parameter: the entries of a directory
  as its iterator gives them, the native name of a thread, the frames of the stack, their symbols and
  source lines, the demangler of the C++ runtime and the readings of the clock.
\<close>

section \<open>Listing a directory\<close>

text \<open>What the recursive iterator gives: an entry, with the answer of \<open>is_regular_file\<close> (\<open>None\<close> for an
  error) and its normalised path, or an exception.\<close>

datatype walk_item = Entry (we_regular: "bool option") (we_path: string) | Walk_throws

datatype dir_status = Not_directory | Status_throws | Directory "walk_item list"

definition ends_with :: "string \<Rightarrow> string \<Rightarrow> bool" where
  "ends_with s suffix \<longleftrightarrow> starts_with (rev s) (rev suffix)"

fun walk_files :: "string \<Rightarrow> walk_item list \<Rightarrow> string list" where
  "walk_files suffix [] = []"
| "walk_files suffix (Walk_throws # rest) = []"
| "walk_files suffix (Entry regular file_name # rest) =
     (if regular = Some True \<and> (suffix = [] \<or> ends_with file_name suffix)
      then file_name # walk_files suffix rest else walk_files suffix rest)"

text \<open>\<open>std::sort\<close> by \<open>operator<\<close> of \<open>std::string\<close>, which compares the bytes.\<close>

definition sort_strings :: "string list \<Rightarrow> string list" where
  "sort_strings = sort_key (map code)"

definition ListAllFile :: "(string \<Rightarrow> dir_status) \<Rightarrow> string list \<Rightarrow> string \<Rightarrow> string \<Rightarrow> string list" where
  "ListAllFile dir files path suffix =
     (if path = [] then files
      else let first_new_file = length files;
               listed = (case dir path of Directory items \<Rightarrow> files @ walk_files suffix items | _ \<Rightarrow> files)
           in if dir path = Not_directory then files
              else take first_new_file listed @ sort_strings (drop first_new_file listed))"

section \<open>The name of a thread\<close>

text \<open>\<open>std::string(data)\<close> of an array: the bytes before the first zero.\<close>

definition until_zero :: "string \<Rightarrow> string" where
  "until_zero = takeWhile (\<lambda>c. c \<noteq> CHR 0x00)"

text \<open>The name the program keeps for the thread and the one the system has; \<open>readable\<close> and \<open>settable\<close> tell
  whether \<open>pthread_getname_np\<close> and \<open>pthread_setname_np\<close> succeed.\<close>

record thread_names =
  t_thread_name :: string
  native_name :: string

definition DEFAULT_THREAD_NAME :: string where
  "DEFAULT_THREAD_NAME = ''UNKNOWN''"

definition native_name_size :: nat where
  "native_name_size = 16"

definition GetNativeThreadName :: "bool \<Rightarrow> thread_names \<Rightarrow> string" where
  "GetNativeThreadName readable t = (if readable then until_zero (native_name t) else [])"

definition SetNativeThreadName :: "bool \<Rightarrow> string \<Rightarrow> thread_names \<Rightarrow> thread_names" where
  "SetNativeThreadName settable name t =
     (let name_size = min (length name) (native_name_size - 1)
      in if settable then t\<lparr> native_name := until_zero (take name_size name) \<rparr> else t)"

definition thread_starts :: "bool \<Rightarrow> string \<Rightarrow> thread_names" where
  "thread_starts readable native =
     (let t = \<lparr> t_thread_name = [], native_name = native \<rparr> in t\<lparr> t_thread_name := GetNativeThreadName readable t \<rparr>)"

definition SetThreadName :: "bool \<Rightarrow> bool \<Rightarrow> string \<Rightarrow> thread_names \<Rightarrow> thread_names" where
  "SetThreadName readable settable name t =
     (if name = [] then
        let native = GetNativeThreadName readable t
        in t\<lparr> t_thread_name := (if native = [] then DEFAULT_THREAD_NAME else native) \<rparr>
      else SetNativeThreadName settable name (t\<lparr> t_thread_name := name \<rparr>))"

definition GetThreadName :: "thread_names \<Rightarrow> string" where
  "GetThreadName t = t_thread_name t"

text \<open>The number of the thread is asked for once and kept.\<close>

definition GetThreadId :: "u64 \<Rightarrow> u64 option \<Rightarrow> u64 \<times> u64 option" where
  "GetThreadId tid cached = (case cached of Some t \<Rightarrow> (t, cached) | None \<Rightarrow> (tid, Some tid))"

section \<open>The time that has passed\<close>

text \<open>The start is read at the first call, \<open>first\<close>; \<open>now\<close> is the reading after it.\<close>

definition GetElapsedTime :: "int \<Rightarrow> int \<Rightarrow> int option \<Rightarrow> int \<times> int option" where
  "GetElapsedTime first now START_TIME =
     (let start = (case START_TIME of None \<Rightarrow> first | Some t \<Rightarrow> t) in (now - start, Some start))"

section \<open>Printing the stack\<close>

text \<open>The runtime: \<open>__cxa_demangle\<close>, and the file and line of an address where libdwfl could be set up; the
  line lookup finds no line, a line without a file, or both.\<close>

record dwarf =
  cxa_demangle :: "string \<Rightarrow> string option"
  dwfl_getsrc :: "(u64 \<Rightarrow> (string option \<times> int) option) option"

definition DemangleBacktraceSymbol :: "dwarf \<Rightarrow> string option \<Rightarrow> string" where
  "DemangleBacktraceSymbol d symbol =
     (let txt = (case symbol of None \<Rightarrow> [] | Some s \<Rightarrow> until_zero s)
      in case find_char (CHR ''('') txt of
           None \<Rightarrow> txt
         | Some name_begin \<Rightarrow>
             let mangled_begin = name_begin + 1;
                 name_end = (case find_char_from (CHR ''+'') txt mangled_begin of
                               None \<Rightarrow> find_char_from (CHR '')'') txt mangled_begin | e \<Rightarrow> e)
             in case name_end of
                  None \<Rightarrow> txt
                | Some e \<Rightarrow>
                    if e = mangled_begin then txt
                    else let mangled_name = substr txt mangled_begin (e - mangled_begin)
                         in case cxa_demangle d mangled_name of Some n \<Rightarrow> n | None \<Rightarrow> mangled_name)"

text \<open>\<open>SourceLocationParser::parse\<close>: a return address lies behind its call, so the byte before it is looked up.\<close>

definition parse_location :: "dwarf \<Rightarrow> u64 \<Rightarrow> bool \<Rightarrow> string" where
  "parse_location d frame is_return_address =
     (case dwfl_getsrc d of
        None \<Rightarrow> []
      | Some getsrc \<Rightarrow>
          let address = (if is_return_address \<and> frame > 0 then frame - 1 else frame)
          in case getsrc address of
               Some (Some file_name, line_number) \<Rightarrow>
                 if line_number \<le> 0 then [] else file_name @ '':'' @ show_int line_number
             | _ \<Rightarrow> [])"

text \<open>The frames \<open>backtrace\<close> found, at most \<open>count\<close> of them, with the symbols of \<open>backtrace_symbols\<close>, which may
  fail as a whole.\<close>

definition frame_line :: "dwarf \<Rightarrow> string \<Rightarrow> nat \<Rightarrow> nat \<Rightarrow> string option \<Rightarrow> u64 \<Rightarrow> string" where
  "frame_line d prefix first_frame i symbol frame =
     (let source_location = parse_location d frame (i > 0)
      in prefix @ ''#'' @ show_nat (i - first_frame) @ '' '' @ DemangleBacktraceSymbol d symbol @
         (if source_location \<noteq> [] then '' at '' @ source_location else []) @ [LF])"

definition GetBacktrace :: "dwarf \<Rightarrow> u64 list \<Rightarrow> (u64 list \<Rightarrow> string option list option) \<Rightarrow> int \<Rightarrow> int \<Rightarrow> string \<Rightarrow> string" where
  "GetBacktrace d stack backtrace_symbols count skip prefix =
     (if count \<le> 0 then []
      else let frames = take (nat count) stack; frame_count = length frames
           in if frame_count = 0 then []
              else case backtrace_symbols frames of
                     None \<Rightarrow> []
                   | Some symbols \<Rightarrow>
                       let first_frame = nat (min (max skip 0) (int frame_count))
                       in concat (map (\<lambda>i. frame_line d prefix first_frame i (symbols ! i) (frames ! i))
                                      [first_frame..<frame_count]))"

section \<open>What the utilities give\<close>

lemma ends_with_append [simp]: "ends_with (s @ suffix) suffix"
  by (simp add: ends_with_def)

lemma ends_with_iff: "ends_with s suffix \<longleftrightarrow> (\<exists>p. s = p @ suffix)"
proof
  assume "ends_with s suffix"
  then have "take (length suffix) (rev s) = rev suffix" by (simp add: ends_with_def starts_with_def)
  then have "rev s = rev suffix @ drop (length suffix) (rev s)" by (metis append_take_drop_id)
  then have "s = rev (rev suffix @ drop (length suffix) (rev s))" by (metis rev_rev_ident)
  then show "\<exists>p. s = p @ suffix" by auto
qed auto

text \<open>The entries before the first exception.\<close>

definition walked :: "walk_item list \<Rightarrow> walk_item list" where
  "walked items = takeWhile (\<lambda>e. e \<noteq> Walk_throws) items"

lemma set_walk_files: "set (walk_files suffix items) =
    {f. Entry (Some True) f \<in> set (walked items) \<and> (\<exists>p. f = p @ suffix)}"
  by (induction suffix items rule: walk_files.induct) (auto simp: walked_def ends_with_iff)

lemma sort_strings_sorted: "sorted (map (map code) (sort_strings xs))"
  by (simp add: sort_strings_def)

lemma set_sort_strings [simp]: "set (sort_strings xs) = set xs"
  by (simp add: sort_strings_def)

text \<open>A listing keeps what the vector held and appends, in the order of their bytes, exactly the regular
  files with the suffix among the entries that came before an exception.\<close>

theorem list_all_file_exact:
  assumes "dir path = Directory items" and "path \<noteq> []"
  obtains found where "ListAllFile dir files path suffix = files @ found" and "sorted (map (map code) found)"
    and "set found = {f. Entry (Some True) f \<in> set (walked items) \<and> (\<exists>p. f = p @ suffix)}"
    and "length found = length (walk_files suffix items)"
proof (rule that)
  show "ListAllFile dir files path suffix = files @ sort_strings (walk_files suffix items)"
    using assms by (simp add: ListAllFile_def)
qed (simp_all add: sort_strings_sorted set_walk_files, simp add: sort_strings_def)

lemma list_all_file_same: "path = [] \<or> dir path \<in> {Not_directory, Status_throws} \<Longrightarrow> ListAllFile dir files path suffix = files"
  by (auto simp: ListAllFile_def sort_strings_def)

text \<open>The program sees the whole name, the system its first 15 bytes; asking for no name shows what the
  system kept.\<close>

theorem thread_name_kept:
  assumes "name \<noteq> []" and "CHR 0x00 \<notin> set name"
  shows "GetThreadName (SetThreadName readable settable name t) = name"
    and "native_name (SetThreadName readable True name t) = take 15 name"
    and "GetThreadName (SetThreadName True True [] (SetThreadName readable True name t)) = take 15 name"
proof -
  have c: "until_zero (take n name) = take n name" for n
    unfolding until_zero_def by (rule takeWhile_eq_all_conv [THEN iffD2]) (use assms(2) in_set_takeD in fastforce)
  have m: "take (min (length name) 15) name = take 15 name" by (simp add: min_def)
  show "GetThreadName (SetThreadName readable settable name t) = name"
    using assms(1) by (simp add: SetThreadName_def GetThreadName_def SetNativeThreadName_def Let_def)
  show n: "native_name (SetThreadName readable True name t) = take 15 name"
    using assms(1) by (simp add: SetThreadName_def SetNativeThreadName_def native_name_size_def Let_def c m)
  show "GetThreadName (SetThreadName True True [] (SetThreadName readable True name t)) = take 15 name"
    using assms(1) n by (subst SetThreadName_def) (simp add: GetThreadName_def GetNativeThreadName_def Let_def c)
qed

text \<open>A symbol of the form \<open>module(name+offset)[address]\<close> is printed as its demangled name, or as the name
  when it is not a mangled one.\<close>

theorem symbol_name_shown:
  assumes "CHR ''('' \<notin> set module" and "name \<noteq> []" and "CHR ''+'' \<notin> set name"
    and "CHR 0x00 \<notin> set (module @ name @ rest)"
  shows "DemangleBacktraceSymbol d (Some (module @ ''('' @ name @ ''+'' @ rest)) =
    (case cxa_demangle d name of Some n \<Rightarrow> n | None \<Rightarrow> name)"
proof -
  let ?t = "module @ CHR ''('' # name @ CHR ''+'' # rest"
  have "until_zero ?t = ?t" unfolding until_zero_def by (rule takeWhile_eq_all_conv [THEN iffD2]) (use assms(4) in auto)
  moreover have "find_char (CHR ''('') ?t = Some (length module)" by (rule find_char_app) (rule assms(1))
  moreover have "find_char_from (CHR ''+'') ?t (length module + 1) = Some (length module + 1 + length name)"
    using find_char_app [OF assms(3), of rest] by (simp add: find_char_from_def)
  moreover have "substr ?t (length module + 1) (length name) = name" by (simp add: substr_def)
  ultimately show ?thesis using assms(2) by (simp add: DemangleBacktraceSymbol_def)
qed

lemma elapsed_from_first_call:
  "GetElapsedTime first now None = (now - first, Some first)"
  "GetElapsedTime first now (Some start) = (now - start, Some start)"
  by (simp_all add: GetElapsedTime_def)

text \<open>No frame is printed when all are skipped, and the numbers start at 0 otherwise.\<close>

lemma backtrace_all_skipped: "int (length stack) \<le> skip \<Longrightarrow> GetBacktrace d stack syms count skip prefix = []"
  by (auto simp: GetBacktrace_def Let_def split: option.splits)

end
