(* ===== verification/Config.thy ===== *)
theory Config
  imports Config_Convert System_Utils
begin

text \<open>
  Configuration variables and their registry (include/droplet/config/config_var.h, config.h,
  src/config/config_var.cc and config.cc).  A variable is a shared object, by address: its name, its type
  (the name of the C++ type, a tag for the type with its converter, and its description), value and
  listeners.  A listener's callback is the program's: a function of the old and the new value on a state
  \<open>'w\<close> of its own, which may throw; callbacks that change the configuration themselves are left out.
  Each section under a mutex is one step; what other threads do between two of them is an argument
  \<open>env\<close>.

  Loading and emitting YAML text, the file system and its clock are parameters.  An error that the code
  reports to the log is an entry of \<open>cf_errors\<close>: the operation and the name.  A failed assertion is the
  early return or \<open>continue\<close> it stands for with \<open>NDEBUG\<close>.
\<close>

section \<open>Names\<close>

definition CONFIG_NAME_CHARSET :: string where
  "CONFIG_NAME_CHARSET = ''abcdefghijklmnopqrstuvwxyz._0123456789''"

definition NormalizeConfigName :: "string \<Rightarrow> string" where
  "NormalizeConfigName name = map ascii_lower name"

definition IsValidConfigName :: "string \<Rightarrow> bool" where
  "IsValidConfigName name \<longleftrightarrow> name \<noteq> [] \<and> find_first_not_of CONFIG_NAME_CHARSET name = None"

section \<open>Variables\<close>

type_synonym 'w on_change = "cvalue \<Rightarrow> cvalue \<Rightarrow> 'w \<Rightarrow> bool \<times> 'w"

record config_type =
  ty_name :: string
  ty_tag :: nat
  ty_desc :: ctype

record 'w config_var =
  cv_name :: string
  cv_description :: string
  cv_type :: config_type
  cv_value :: cvalue
  cv_listeners :: "(u64 \<times> 'w on_change) list"

record 'w config =
  cf_vars :: "'w config_var list"
  cf_datas :: "string \<rightharpoonup> nat"
  cf_next_id :: u64
  cf_errors :: "(string \<times> string) list"
  cf_loaded :: "string \<rightharpoonup> int"
  cf_world :: 'w

definition ReportConfigError :: "string \<Rightarrow> string \<Rightarrow> 'w config \<Rightarrow> 'w config" where
  "ReportConfigError operation name s = s\<lparr> cf_errors := cf_errors s @ [(operation, name)] \<rparr>"

text \<open>The constructor refuses an invalid name.\<close>

definition ConfigVar :: "string \<Rightarrow> cvalue \<Rightarrow> string \<Rightarrow> config_type \<Rightarrow> std_exception + 'w config_var" where
  "ConfigVar name default_value description ty =
     (let name = NormalizeConfigName name
      in if \<not> IsValidConfigName name then Inl (Invalid_argument (''pans: invalid config name: '' @ name))
         else Inr \<lparr> cv_name = name, cv_description = description, cv_type = ty, cv_value = default_value, cv_listeners = [] \<rparr>)"

definition on_var :: "('w config_var \<Rightarrow> 'w config_var) \<Rightarrow> nat \<Rightarrow> 'w config \<Rightarrow> 'w config" where
  "on_var f p s = s\<lparr> cf_vars := (cf_vars s)[p := f (cf_vars s ! p)] \<rparr>"

definition getValue :: "nat \<Rightarrow> 'w config \<Rightarrow> cvalue" where
  "getValue p s = cv_value (cf_vars s ! p)"

text \<open>Every listener of the snapshot is called, also after one has thrown, which is reported.\<close>

definition notify_one :: "nat \<Rightarrow> cvalue \<Rightarrow> cvalue \<Rightarrow> u64 \<times> 'w on_change \<Rightarrow> 'w config \<Rightarrow> 'w config" where
  "notify_one p old_value new_value entry s =
     (let (threw, w) = snd entry old_value new_value (cf_world s); s = s\<lparr> cf_world := w \<rparr>
      in if threw then ReportConfigError ''ConfigVar::listener'' (cv_name (cf_vars s ! p)) s else s)"

definition notify :: "nat \<Rightarrow> cvalue \<Rightarrow> cvalue \<Rightarrow> 'w config \<Rightarrow> 'w config" where
  "notify p old_value new_value s = fold (notify_one p old_value new_value) (cv_listeners (cf_vars s ! p)) s"

definition setValue :: "cvalue \<Rightarrow> nat \<Rightarrow> 'w config \<Rightarrow> bool \<times> 'w config" where
  "setValue new_value p s =
     (let old_value = getValue p s
      in if old_value = new_value then (False, s)
         else (True, notify p old_value new_value (on_var (\<lambda>v. v\<lparr> cv_value := new_value \<rparr>) p s)))"

definition toNode :: "'n yaml \<Rightarrow> nat \<Rightarrow> 'w config \<Rightarrow> 'n" where
  "toNode y p s = ToNode y (getValue p s)"

definition fromNode :: "type_names \<Rightarrow> 'n yaml \<Rightarrow> 'n \<Rightarrow> nat \<Rightarrow> 'w config \<Rightarrow> bool \<times> 'w config" where
  "fromNode tn y node p s =
     (case FromNode tn y (ty_desc (cv_type (cf_vars s ! p))) node of
        Inr v \<Rightarrow> (True, snd (setValue v p s))
      | Inl _ \<Rightarrow> (False, ReportConfigError ''ConfigVar::fromNode'' (cv_name (cf_vars s ! p)) s))"

text \<open>\<open>emit\<close> prints a node, or fails; \<open>load\<close> parses a text, or throws.\<close>

definition config_toString :: "'n yaml \<Rightarrow> ('n \<Rightarrow> string option) \<Rightarrow> nat \<Rightarrow> 'w config \<Rightarrow> string \<times> 'w config" where
  "config_toString y emit p s =
     (let node = toNode y p s
      in if IsScalar y node then (Scalar y node, s)
         else case emit node of
                Some text \<Rightarrow> (text, s)
              | None \<Rightarrow> ([], ReportConfigError ''ConfigVarBase::toString'' (cv_name (cf_vars s ! p)) s))"

definition config_fromString ::
  "type_names \<Rightarrow> 'n yaml \<Rightarrow> (string \<Rightarrow> 'n option) \<Rightarrow> string \<Rightarrow> nat \<Rightarrow> 'w config \<Rightarrow> bool \<times> 'w config" where
  "config_fromString tn y load val p s =
     (case load val of
        Some node \<Rightarrow> fromNode tn y node p s
      | None \<Rightarrow> (False, ReportConfigError ''ConfigVarBase::fromString'' (cv_name (cf_vars s ! p)) s))"

definition NextListenerId :: "'w config \<Rightarrow> u64 \<times> 'w config" where
  "NextListenerId s = (cf_next_id s, s\<lparr> cf_next_id := cf_next_id s + 1 \<rparr>)"

definition addListener :: "'w on_change option \<Rightarrow> nat \<Rightarrow> 'w config \<Rightarrow> u64 \<times> 'w config" where
  "addListener callback p s =
     (case callback of
        None \<Rightarrow> (0, s)
      | Some f \<Rightarrow>
          let (i, s) = NextListenerId s in (i, on_var (\<lambda>v. v\<lparr> cv_listeners := cv_listeners v @ [(i, f)] \<rparr>) p s))"

fun remove_first :: "u64 \<Rightarrow> (u64 \<times> 'w on_change) list \<Rightarrow> (u64 \<times> 'w on_change) list" where
  "remove_first i [] = []"
| "remove_first i (e # es) = (if fst e = i then es else e # remove_first i es)"

definition removeListener :: "u64 \<Rightarrow> nat \<Rightarrow> 'w config \<Rightarrow> 'w config" where
  "removeListener i = on_var (\<lambda>v. v\<lparr> cv_listeners := remove_first i (cv_listeners v) \<rparr>)"

definition clearListeners :: "nat \<Rightarrow> 'w config \<Rightarrow> 'w config" where
  "clearListeners = on_var (\<lambda>v. v\<lparr> cv_listeners := [] \<rparr>)"

definition listenerCount :: "nat \<Rightarrow> 'w config \<Rightarrow> nat" where
  "listenerCount p s = length (cv_listeners (cf_vars s ! p))"

section \<open>The registry\<close>

definition Config_empty :: "'w \<Rightarrow> 'w config" where
  "Config_empty w = \<lparr> cf_vars = [], cf_datas = Map.empty, cf_next_id = 1, cf_errors = [], cf_loaded = Map.empty, cf_world = w \<rparr>"

definition LookupFromMap :: "string \<Rightarrow> 'w config \<Rightarrow> nat option" where
  "LookupFromMap name s = cf_datas s name"

definition LookupBase :: "string \<Rightarrow> 'w config \<Rightarrow> nat option" where
  "LookupBase name s = LookupFromMap (NormalizeConfigName name) s"

definition CheckType :: "nat \<Rightarrow> string \<Rightarrow> 'w config \<Rightarrow> nat option \<times> 'w config" where
  "CheckType p type_name s =
     (if ty_name (cv_type (cf_vars s ! p)) \<noteq> type_name
      then (None, ReportConfigError ''Config::Lookup'' (cv_name (cf_vars s ! p)) s)
      else (Some p, s))"

text \<open>The variable is made outside the lock; \<open>env\<close> is what other threads did between the lookup and the
  insertion, which keeps an entry that is there already.\<close>

definition emplace_var :: "string \<Rightarrow> 'w config_var \<Rightarrow> 'w config \<Rightarrow> nat \<times> 'w config" where
  "emplace_var name v s =
     (case cf_datas s name of
        Some p \<Rightarrow> (p, s)
      | None \<Rightarrow> (length (cf_vars s), s\<lparr> cf_vars := cf_vars s @ [v], cf_datas := (cf_datas s)(name \<mapsto> length (cf_vars s)) \<rparr>))"

definition LookupOrCreate ::
  "('w config \<Rightarrow> 'w config) \<Rightarrow> string \<Rightarrow> string \<Rightarrow> (string \<Rightarrow> std_exception + 'w config_var) \<Rightarrow> ('w config, nat option) op" where
  "LookupOrCreate env name type_name create s =
     (let normalized = NormalizeConfigName name
      in if \<not> IsValidConfigName normalized
         then (Inl (Invalid_argument (''pans: invalid config name: '' @ normalized)), ReportConfigError ''Config::Lookup'' normalized s)
         else case LookupFromMap normalized s of
                Some p \<Rightarrow> map_prod Inr id (CheckType p type_name s)
              | None \<Rightarrow>
                  (case create normalized of
                     Inl e \<Rightarrow> (Inl e, s)
                   | Inr new_val \<Rightarrow>
                       let (p, s) = emplace_var normalized new_val (env s)
                       in map_prod Inr id (CheckType p type_name s)))"

text \<open>The cast succeeds when the variable has the type with the same converter.\<close>

definition Config_Lookup ::
  "('w config \<Rightarrow> 'w config) \<Rightarrow> string \<Rightarrow> config_type \<Rightarrow> cvalue \<Rightarrow> string \<Rightarrow> ('w config, nat option) op" where
  "Config_Lookup env name ty default_value description s =
     (case LookupOrCreate env name (ty_name ty) (\<lambda>n. ConfigVar n default_value description ty) s of
        (Inr (Some p), s) \<Rightarrow>
          if ty_tag (cv_type (cf_vars s ! p)) = ty_tag ty then (Inr (Some p), s)
          else (Inr None, ReportConfigError ''Config::Lookup'' (cv_name (cf_vars s ! p)) s)
      | r \<Rightarrow> r)"

definition Lookup_existing :: "string \<Rightarrow> config_type \<Rightarrow> 'w config \<Rightarrow> nat option" where
  "Lookup_existing name ty s =
     (case LookupBase name s of
        Some p \<Rightarrow> if ty_tag (cv_type (cf_vars s ! p)) = ty_tag ty then Some p else None
      | None \<Rightarrow> None)"

section \<open>Loading\<close>

text \<open>The members of a node with their dotted names, in the order they are visited, and the errors
  reported; \<open>depth\<close> bounds the nesting, \<open>None\<close> is a node nested deeper.\<close>

type_synonym 'n members = "((string \<times> 'n) list \<times> (string \<times> string) list) option"

definition collect_entry :: "(string \<Rightarrow> 'n \<Rightarrow> 'n members) \<Rightarrow> 'n yaml \<Rightarrow> string \<Rightarrow> 'n \<times> 'n \<Rightarrow> 'n members \<Rightarrow> 'n members" where
  "collect_entry collect y prefix entry acc =
     (case acc of
        None \<Rightarrow> None
      | Some (out, errors) \<Rightarrow>
          if \<not> IsScalar y (fst entry) then Some (out, errors @ [(''Config::LoadFromYaml'', prefix)])
          else let key = NormalizeConfigName (Scalar y (fst entry))
               in if \<not> IsValidConfigName key then Some (out, errors @ [(''Config::LoadFromYaml'', key)])
                  else (case collect (if prefix \<noteq> [] then prefix @ ''.'' @ key else key) (snd entry) of
                          None \<Rightarrow> None
                        | Some (out', errors') \<Rightarrow> Some (out @ out', errors @ errors')))"

fun CollectMembers :: "nat \<Rightarrow> 'n yaml \<Rightarrow> string \<Rightarrow> 'n \<Rightarrow> 'n members" where
  "CollectMembers 0 y prefix node = None"
| "CollectMembers (Suc depth) y prefix node =
     (let own = (if prefix \<noteq> [] then [(prefix, node)] else [])
      in if \<not> IsMap y node then Some (own, [])
         else fold (collect_entry (CollectMembers depth y) y prefix) (entries y node) (Some (own, [])))"

definition load_member :: "type_names \<Rightarrow> 'n yaml \<Rightarrow> string \<times> 'n \<Rightarrow> 'w config \<Rightarrow> 'w config" where
  "load_member tn y m s = (case LookupFromMap (fst m) s of Some p \<Rightarrow> snd (fromNode tn y (snd m) p s) | None \<Rightarrow> s)"

definition LoadFromYaml :: "nat \<Rightarrow> type_names \<Rightarrow> 'n yaml \<Rightarrow> 'n \<Rightarrow> 'w config \<Rightarrow> 'w config option" where
  "LoadFromYaml depth tn y root s =
     (if \<not> IsDefined y root \<or> IsNull y root then Some s
      else case CollectMembers depth y [] root of
             None \<Rightarrow> None
           | Some (nodes, errors) \<Rightarrow> Some (fold (load_member tn y) nodes (s\<lparr> cf_errors := cf_errors s @ errors \<rparr>)))"

definition IsFileUnchanged :: "string \<Rightarrow> int \<Rightarrow> 'w config \<Rightarrow> bool" where
  "IsFileUnchanged path write_time s \<longleftrightarrow> cf_loaded s path = Some write_time"

definition MarkFileLoaded :: "string \<Rightarrow> int \<Rightarrow> 'w config \<Rightarrow> 'w config" where
  "MarkFileLoaded path write_time s = s\<lparr> cf_loaded := (cf_loaded s)(path \<mapsto> write_time) \<rparr>"

text \<open>The file system: the absolute, normal form of a path, which may throw, what a directory holds, the time
  a file was written and the node in it, which may both throw.\<close>

record 'n files =
  fs_absolute :: "string \<Rightarrow> string option"
  fs_dir :: "string \<Rightarrow> dir_status"
  fs_write_time :: "string \<Rightarrow> int option"
  fs_load :: "string \<Rightarrow> 'n option"

definition load_file :: "nat \<Rightarrow> type_names \<Rightarrow> 'n yaml \<Rightarrow> 'n files \<Rightarrow> bool \<Rightarrow> string \<Rightarrow> 'w config \<Rightarrow> 'w config option" where
  "load_file depth tn y fs force file_name s =
     (case fs_write_time fs file_name of
        None \<Rightarrow> Some (ReportConfigError ''Config::LoadFromConfDir'' file_name s)
      | Some write_time \<Rightarrow>
          if \<not> force \<and> IsFileUnchanged file_name write_time s then Some s
          else case fs_load fs file_name of
                 None \<Rightarrow> Some (ReportConfigError ''Config::LoadFromConfDir'' file_name s)
               | Some root \<Rightarrow> map_option (MarkFileLoaded file_name write_time) (LoadFromYaml depth tn y root s))"

definition conf_files :: "'n files \<Rightarrow> string \<Rightarrow> string list" where
  "conf_files fs directory =
     ListAllFile (fs_dir fs) (ListAllFile (fs_dir fs) [] directory ''.yml'') directory ''.yaml''"

definition LoadFromConfDir :: "nat \<Rightarrow> type_names \<Rightarrow> 'n yaml \<Rightarrow> 'n files \<Rightarrow> string \<Rightarrow> bool \<Rightarrow> 'w config \<Rightarrow> 'w config option" where
  "LoadFromConfDir depth tn y fs path force s =
     (if path = [] then Some (ReportConfigError ''Config::LoadFromConfDir'' [] s)
      else case fs_absolute fs path of
             None \<Rightarrow> Some (ReportConfigError ''Config::LoadFromConfDir'' path s)
           | Some directory \<Rightarrow>
               (case fs_dir fs directory of
                  Not_directory \<Rightarrow> Some (ReportConfigError ''Config::LoadFromConfDir'' directory s)
                | Status_throws \<Rightarrow> Some (ReportConfigError ''Config::LoadFromConfDir'' path s)
                | Directory _ \<Rightarrow>
                    fold (\<lambda>f s. Option.bind s (load_file depth tn y fs force f))
                      (conf_files fs directory) (Some s)))"

definition registered :: "'w config \<Rightarrow> nat list" where
  "registered s = filter (\<lambda>p. cf_datas s (cv_name (cf_vars s ! p)) = Some p) [0..<length (cf_vars s)]"

definition ClearAllListeners :: "'w config \<Rightarrow> 'w config" where
  "ClearAllListeners s = fold clearListeners (registered s) s"

text \<open>The order of the hash map is unspecified; here it is that of registration.\<close>

definition Config_Visit :: "(nat \<Rightarrow> 'w config \<Rightarrow> 'w config) option \<Rightarrow> 'w config \<Rightarrow> 'w config" where
  "Config_Visit callback s = (case callback of None \<Rightarrow> s | Some f \<Rightarrow> fold f (registered s) s)"

definition Config_Size :: "'w config \<Rightarrow> nat" where
  "Config_Size s = length (registered s)"

section \<open>The registry is consistent\<close>

definition cfg_inv :: "'w config \<Rightarrow> bool" where
  "cfg_inv s \<longleftrightarrow>
     (\<forall>name p. cf_datas s name = Some p \<longrightarrow> p < length (cf_vars s) \<and> cv_name (cf_vars s ! p) = name) \<and>
     (\<forall>p < length (cf_vars s). cf_datas s (cv_name (cf_vars s ! p)) = Some p \<and> IsValidConfigName (cv_name (cf_vars s ! p)))"

lemma cfg_inv_at: "cfg_inv s \<Longrightarrow> cf_datas s name = Some p \<Longrightarrow> p < length (cf_vars s) \<and> cv_name (cf_vars s ! p) = name"
  by (simp add: cfg_inv_def)

text \<open>What stays of a variable whatever is done: its address, name and type.\<close>

definition keeps :: "'w config \<Rightarrow> 'w config \<Rightarrow> bool" where
  "keeps s s' \<longleftrightarrow>
     (\<forall>name p. cf_datas s name = Some p \<longrightarrow> cf_datas s' name = Some p) \<and> length (cf_vars s) \<le> length (cf_vars s') \<and>
     (\<forall>p < length (cf_vars s). cv_name (cf_vars s' ! p) = cv_name (cf_vars s ! p) \<and> cv_type (cf_vars s' ! p) = cv_type (cf_vars s ! p))"

lemma keeps_refl [simp]: "keeps s s"
  by (simp add: keeps_def)

lemma keeps_trans: "keeps s t \<Longrightarrow> keeps t u \<Longrightarrow> keeps s u"
  unfolding keeps_def by auto

text \<open>An operation that leaves the map and the shape of the variables alone.\<close>

definition same_shape :: "'w config \<Rightarrow> 'w config \<Rightarrow> bool" where
  "same_shape s s' \<longleftrightarrow> cf_datas s' = cf_datas s \<and>
     map (\<lambda>v. (cv_name v, cv_type v)) (cf_vars s') = map (\<lambda>v. (cv_name v, cv_type v)) (cf_vars s)"

lemma same_shape_refl [simp]: "same_shape s s"
  by (simp add: same_shape_def)

lemma same_shape_trans: "same_shape s t \<Longrightarrow> same_shape t u \<Longrightarrow> same_shape s u"
  by (simp add: same_shape_def)

lemma same_shape_nth:
  assumes "same_shape s s'"
  shows "length (cf_vars s') = length (cf_vars s)"
    "p < length (cf_vars s) \<Longrightarrow> cv_name (cf_vars s' ! p) = cv_name (cf_vars s ! p) \<and> cv_type (cf_vars s' ! p) = cv_type (cf_vars s ! p)"
proof -
  show l: "length (cf_vars s') = length (cf_vars s)" using assms map_eq_imp_length_eq unfolding same_shape_def by blast
  assume p: "p < length (cf_vars s)"
  have "map (\<lambda>v. (cv_name v, cv_type v)) (cf_vars s') ! p = map (\<lambda>v. (cv_name v, cv_type v)) (cf_vars s) ! p"
    using assms by (simp add: same_shape_def)
  then show "cv_name (cf_vars s' ! p) = cv_name (cf_vars s ! p) \<and> cv_type (cf_vars s' ! p) = cv_type (cf_vars s ! p)"
    using p l by simp
qed

lemma same_shape_keeps: "same_shape s s' \<Longrightarrow> keeps s s'"
  using same_shape_nth [of s s'] by (simp add: keeps_def same_shape_def)

lemma same_shape_inv: "same_shape s s' \<Longrightarrow> cfg_inv s \<Longrightarrow> cfg_inv s'"
  using same_shape_nth [of s s'] by (simp add: cfg_inv_def same_shape_def)

lemma on_var_shape: "(\<And>v. cv_name (f v) = cv_name v \<and> cv_type (f v) = cv_type v) \<Longrightarrow> same_shape s (on_var f p s)"
  by (cases "p < length (cf_vars s)")
    (auto simp: same_shape_def on_var_def map_update list_update_same_conv list_update_beyond)

lemma report_shape [simp]: "same_shape s (ReportConfigError op n s)"
  by (simp add: same_shape_def ReportConfigError_def)

lemma fold_shape: "(\<And>x s. same_shape s (f x s)) \<Longrightarrow> same_shape s (fold f xs s)"
  by (induction xs arbitrary: s) (auto intro: same_shape_trans)

lemma notify_one_const [simp]:
  "cf_vars (notify_one p old new e s) = cf_vars s" "cf_datas (notify_one p old new e s) = cf_datas s"
  "cf_loaded (notify_one p old new e s) = cf_loaded s"
  by (simp_all add: notify_one_def Let_def ReportConfigError_def split: prod.split)

lemma fold_notify:
  "cf_vars (fold (notify_one p old new) es s) = cf_vars s \<and> cf_datas (fold (notify_one p old new) es s) = cf_datas s \<and>
   cf_loaded (fold (notify_one p old new) es s) = cf_loaded s"
  by (induction es arbitrary: s) simp_all

lemma notify_const [simp]:
  "cf_vars (notify p old new s) = cf_vars s" "cf_datas (notify p old new s) = cf_datas s"
  "cf_loaded (notify p old new s) = cf_loaded s"
  by (simp_all add: notify_def fold_notify)

lemma setValue_shape: "same_shape s (snd (setValue v p s))"
proof -
  have "same_shape s (on_var (\<lambda>x. x\<lparr> cv_value := v \<rparr>) p s)" by (rule on_var_shape) simp
  then show ?thesis by (simp add: setValue_def Let_def same_shape_def)
qed

lemma fromNode_shape: "same_shape s (snd (fromNode tn y node p s))"
  by (simp add: fromNode_def setValue_shape split: sum.splits)

lemma load_member_shape: "same_shape s (load_member tn y m s)"
  by (simp add: load_member_def fromNode_shape split: option.splits)

lemma fold_members_shape: "same_shape s (fold (load_member tn y) nodes s)"
  by (rule fold_shape) (rule load_member_shape)

lemma LoadFromYaml_shape: "LoadFromYaml depth tn y root s = Some s' \<Longrightarrow> same_shape s s'"
  using fold_members_shape [of "s\<lparr> cf_errors := e \<rparr>" tn y for e]
  by (auto simp: LoadFromYaml_def same_shape_def split: if_splits option.splits)

lemma emplace_facts:
  assumes "cfg_inv s" "cv_name v = name" "IsValidConfigName name" "emplace_var name v s = (p, s')"
  shows "cfg_inv s' \<and> keeps s s' \<and> cf_datas s' name = Some p \<and> p < length (cf_vars s') \<and>
    (cf_datas s name = None \<longrightarrow> cf_vars s' ! p = v)"
proof (cases "cf_datas s name")
  case None
  then have s': "s' = s\<lparr> cf_vars := cf_vars s @ [v], cf_datas := (cf_datas s)(name \<mapsto> length (cf_vars s)) \<rparr>" "p = length (cf_vars s)"
    using assms(4) by (auto simp: emplace_var_def)
  have "cv_name (cf_vars s ! q) \<noteq> name" if "q < length (cf_vars s)" for q
    using assms(1) None that by (auto simp: cfg_inv_def)
  moreover have "q < length (cf_vars s) \<and> cv_name (cf_vars s ! q) = n" if "cf_datas s n = Some q" for n q
    using assms(1) that by (simp add: cfg_inv_def)
  moreover have "\<forall>q < length (cf_vars s). cf_datas s (cv_name (cf_vars s ! q)) = Some q \<and> IsValidConfigName (cv_name (cf_vars s ! q))"
    using assms(1) by (simp add: cfg_inv_def)
  ultimately have "cfg_inv s'" using assms(2,3)
    unfolding cfg_inv_def s' by (auto simp: nth_append less_Suc_eq)
  then show ?thesis using None assms(2) by (auto simp: s' keeps_def nth_append)
next
  case (Some q)
  then show ?thesis using assms by (auto simp: emplace_var_def cfg_inv_def)
qed

text \<open>The program's threads: each step is one locked section.\<close>

inductive cfg_step :: "type_names \<Rightarrow> 'n yaml \<Rightarrow> 'w config \<Rightarrow> 'w config \<Rightarrow> bool" for tn y where
  emplace: "ConfigVar name default_value description ty = Inr v \<Longrightarrow> cfg_step tn y s (snd (emplace_var (NormalizeConfigName name) v s))"
| report: "cfg_step tn y s (ReportConfigError operation name s)"
| set_value: "cfg_step tn y s (snd (setValue v p s))"
| from_node: "cfg_step tn y s (snd (fromNode tn y node p s))"
| add_listener: "cfg_step tn y s (snd (addListener callback p s))"
| remove_listener: "cfg_step tn y s (removeListener i p s)"
| clear_listeners: "cfg_step tn y s (clearListeners p s)"
| load_yaml: "LoadFromYaml depth tn y root s = Some s' \<Longrightarrow> cfg_step tn y s s'"
| mark: "cfg_step tn y s (MarkFileLoaded path time s)"

inductive cfg_steps :: "type_names \<Rightarrow> 'n yaml \<Rightarrow> 'w config \<Rightarrow> 'w config \<Rightarrow> bool" for tn y where
  stay: "cfg_steps tn y s s"
| go: "cfg_steps tn y s t \<Longrightarrow> cfg_step tn y t u \<Longrightarrow> cfg_steps tn y s u"

lemma on_var_shape_of:
  "same_shape s t \<Longrightarrow> (\<And>v. cv_name (f v) = cv_name v \<and> cv_type (f v) = cv_type v) \<Longrightarrow> same_shape s (on_var f p t)"
  using on_var_shape same_shape_trans by blast

lemma listener_shape: "same_shape s (snd (addListener callback p s))" "same_shape s (removeListener i p s)" "same_shape s (clearListeners p s)"
proof -
  have "same_shape s (s\<lparr> cf_next_id := i \<rparr>)" for i by (simp add: same_shape_def)
  then show "same_shape s (snd (addListener callback p s))"
    by (auto simp: addListener_def NextListenerId_def split: option.splits intro!: on_var_shape_of)
  show "same_shape s (removeListener i p s)" "same_shape s (clearListeners p s)"
    by (auto simp: removeListener_def clearListeners_def intro!: on_var_shape_of)
qed

lemma cfg_step_inv:
  assumes "cfg_step tn y s s'" "cfg_inv s"
  shows "cfg_inv s' \<and> keeps s s'"
  using assms(1)
proof (cases rule: cfg_step.cases)
  case (emplace name d desc ty v)
  then have "cv_name v = NormalizeConfigName name" "IsValidConfigName (NormalizeConfigName name)"
    by (auto simp: ConfigVar_def Let_def split: if_splits)
  then show ?thesis
    using emplace_facts [OF assms(2), of v "NormalizeConfigName name"] emplace
    by (cases "emplace_var (NormalizeConfigName name) v s") auto
next
  case (mark path time)
  then have "same_shape s s'" by (simp add: same_shape_def MarkFileLoaded_def)
  then show ?thesis using same_shape_inv same_shape_keeps assms(2) by blast
qed (use assms(2) in \<open>auto intro!: same_shape_inv [OF _ assms(2)] same_shape_keeps
    intro: setValue_shape fromNode_shape listener_shape LoadFromYaml_shape\<close>)

lemma cfg_steps_inv: "cfg_steps tn y s s' \<Longrightarrow> cfg_inv s \<Longrightarrow> cfg_inv s' \<and> keeps s s'"
  by (induction rule: cfg_steps.induct) (auto intro: keeps_trans dest: cfg_step_inv)

lemma empty_inv: "cfg_inv (Config_empty w)"
  by (simp add: cfg_inv_def Config_empty_def)

section \<open>One variable per name\<close>

lemma lower_names [simp]: "NormalizeConfigName (NormalizeConfigName name) = NormalizeConfigName name"
  by (simp add: NormalizeConfigName_def comp_def case_fold)

text \<open>a name is one variable: looking up a valid name with a type, while other threads run, gives the
  registered variable of that name and type, or null with a report when the name is registered with
  another type; asking again, in any letter case, after anything else the program did gives the same
  variable, and a variable that was there keeps its value and is not replaced by the default.\<close>

theorem config_lookup_unique:
  fixes s :: "'w config"
  assumes "cfg_inv s" and "IsValidConfigName (NormalizeConfigName name)" and "cfg_steps tn y s (env s)"
    and "Config_Lookup env name ty default_value description s = (r, s1)"
    and "cfg_steps tn y s1 s2" and "NormalizeConfigName name' = NormalizeConfigName name"
  shows "cfg_inv s1 \<and> (\<exists>p. cf_datas s1 (NormalizeConfigName name) = Some p \<and> p < length (cf_vars s1) \<and>
    r = Inr (if ty_name (cv_type (cf_vars s1 ! p)) = ty_name ty \<and> ty_tag (cv_type (cf_vars s1 ! p)) = ty_tag ty then Some p else None) \<and>
    (r = Inr (Some p) \<longrightarrow> (\<forall>env' d'. Config_Lookup env' name' ty d' description s2 = (Inr (Some p), s2)) \<and> Lookup_existing name' ty s2 = Some p) \<and>
    (\<forall>q. cf_datas s (NormalizeConfigName name) = Some q \<longrightarrow> p = q \<and> getValue p s1 = getValue p s))"
proof -
  let ?n = "NormalizeConfigName name"
  have check: "map_prod Inr id (CheckType p (ty_name ty) t) =
      (Inr (if ty_name (cv_type (cf_vars t ! p)) = ty_name ty then Some p else None),
       if ty_name (cv_type (cf_vars t ! p)) = ty_name ty then t else ReportConfigError ''Config::Lookup'' (cv_name (cf_vars t ! p)) t)" for p t
    by (simp add: CheckType_def)
  obtain v :: "'w config_var" where v: "ConfigVar ?n default_value description ty = Inr v" "cv_name v = ?n"
    using assms(2) by (auto simp: ConfigVar_def)
  obtain p t where t: "(case cf_datas s ?n of Some q \<Rightarrow> (q, s) | None \<Rightarrow> emplace_var ?n v (env s)) = (p, t)" by fastforce
  have env: "cfg_inv (env s)" "keeps s (env s)" using cfg_steps_inv [OF assms(3,1)] by auto
  have ti: "cfg_inv t \<and> cf_datas t ?n = Some p \<and> p < length (cf_vars t)"
    using t assms(1) emplace_facts [OF env(1) v(2) assms(2), of p t] by (auto simp: cfg_inv_def split: option.splits)
  have old: "p = q \<and> t = s" if "cf_datas s ?n = Some q" for q using t that by simp
  let ?same = "ty_name (cv_type (cf_vars t ! p)) = ty_name ty \<and> ty_tag (cv_type (cf_vars t ! p)) = ty_tag ty"
  have res: "r = Inr (if ?same then Some p else None)"
    "s1 = (if ?same then t else ReportConfigError ''Config::Lookup'' (cv_name (cf_vars t ! p)) t)"
    using assms(2,4) t v(1)
    by (auto simp: Config_Lookup_def LookupOrCreate_def Let_def LookupFromMap_def check split: option.splits if_splits prod.splits)
  have same: "cf_vars s1 = cf_vars t" "cf_datas s1 = cf_datas t" by (simp_all add: res ReportConfigError_def)
  have i1: "cfg_inv s1" using ti same by (simp add: cfg_inv_def)
  have later: "(\<forall>env' d'. Config_Lookup env' name' ty d' description s2 = (Inr (Some p), s2)) \<and> Lookup_existing name' ty s2 = Some p"
    if "r = Inr (Some p)"
  proof -
    have "cf_datas s2 ?n = Some p" "cv_type (cf_vars s2 ! p) = cv_type (cf_vars s1 ! p)"
      using cfg_steps_inv [OF assms(5) i1] ti same by (auto simp: keeps_def)
    moreover have ?same using that res(1) by (simp split: if_splits)
    ultimately show ?thesis using assms(2,6) same
      by (simp add: Config_Lookup_def LookupOrCreate_def Let_def LookupFromMap_def CheckType_def Lookup_existing_def LookupBase_def)
  qed
  have "p = q \<and> getValue p s1 = getValue p s" if "cf_datas s ?n = Some q" for q
    using old [OF that] same by (simp add: getValue_def)
  then show ?thesis using i1 ti res(1) same later by auto
qed

theorem config_lookup_unique_witness:
  "\<exists>s1. Config_Lookup id ''Tcp.Timeout'' \<lparr> ty_name = ''u64'', ty_tag = 0, ty_desc = CInt 0 100 \<rparr> (VInt 7) [] (Config_empty ()) = (Inr (Some 0), s1) \<and>
     Config_Lookup id ''tcp.timeout'' \<lparr> ty_name = ''u64'', ty_tag = 0, ty_desc = CInt 0 100 \<rparr> (VInt 9) [] s1 = (Inr (Some 0), s1)"
proof -
  let ?ty = "\<lparr> ty_name = ''u64'', ty_tag = 0, ty_desc = CInt 0 100 \<rparr>"
  have n: "NormalizeConfigName ''tcp.timeout'' = NormalizeConfigName ''Tcp.Timeout''" "NormalizeConfigName ''Tcp.Timeout'' = ''tcp.timeout''"
    "IsValidConfigName ''tcp.timeout''" by code_simp+
  let ?v = "\<lparr> cv_name = ''tcp.timeout'', cv_description = [], cv_type = ?ty, cv_value = VInt 7, cv_listeners = [] \<rparr>"
  let ?s1 = "(Config_empty ())\<lparr> cf_vars := [?v], cf_datas := [''tcp.timeout'' \<mapsto> 0] \<rparr>"
  have l: "Config_Lookup id ''Tcp.Timeout'' ?ty (VInt 7) [] (Config_empty ()) = (Inr (Some 0), ?s1)"
    by (simp add: Config_Lookup_def LookupOrCreate_def Let_def n n(1) [unfolded n(2)] ConfigVar_def emplace_var_def CheckType_def LookupFromMap_def Config_empty_def)
  have "cfg_steps (\<lambda>_. []) tree_yaml (Config_empty ()) (id (Config_empty ()))" "cfg_steps (\<lambda>_. []) tree_yaml ?s1 ?s1"
    by (simp_all add: cfg_steps.stay)
  from config_lookup_unique [OF empty_inv _ this(1) l this(2) n(1)] n l show ?thesis by auto
qed

section \<open>Loading sets the variables that are named\<close>

lemma fold_option:
  assumes "\<And>e acc. e \<in> set es \<Longrightarrow> \<exists>acc'. f e (Some acc) = Some acc'"
  shows "\<exists>acc'. fold f es (Some acc) = Some acc'"
  using assms
proof (induction es arbitrary: acc)
  case (Cons e es)
  then obtain acc1 where "f e (Some acc) = Some acc1" by force
  with Cons show ?case by simp
qed simp

text \<open>A node that is nested less deeply than the bound is collected whole.\<close>

lemma collect_returns:
  assumes h: "\<forall>n. \<forall>e \<in> set (entries y n). h (snd e) < (h n :: nat)"
  shows "h node < depth \<Longrightarrow> \<exists>r. CollectMembers depth y prefix node = Some r"
proof (induction depth arbitrary: prefix node)
  case (Suc depth)
  have sub: "\<exists>r. CollectMembers depth y prefix' (snd e) = Some r" if "e \<in> set (entries y node)" for e prefix'
    using Suc.IH [of "snd e" prefix'] h that Suc.prems by fastforce
  have "\<exists>acc'. collect_entry (CollectMembers depth y) y prefix e (Some acc) = Some acc'" if e: "e \<in> set (entries y node)" for e acc
  proof -
    let ?key = "NormalizeConfigName (Scalar y (fst e))"
    obtain out errors where "CollectMembers depth y (if prefix \<noteq> [] then prefix @ ''.'' @ ?key else ?key) (snd e) = Some (out, errors)"
      using sub [OF e] by fastforce
    then show ?thesis by (cases acc) (simp add: collect_entry_def Let_def)
  qed
  then show ?case using fold_option [of "entries y node" "collect_entry (CollectMembers depth y) y prefix"]
    by (simp add: Let_def)
qed simp

text \<open>What a document says: a node under a path of scalar keys, each a valid name in lower case, is a
  member, whose name joins the keys with dots.\<close>

inductive says :: "'n yaml \<Rightarrow> string list \<Rightarrow> 'n \<Rightarrow> string list \<Rightarrow> 'n \<Rightarrow> bool" for y where
  here: "says y path node path node"
| below: "IsMap y node \<Longrightarrow> (k, c) \<in> set (entries y node) \<Longrightarrow> IsScalar y k \<Longrightarrow> IsValidConfigName (NormalizeConfigName (Scalar y k)) \<Longrightarrow>
    says y (path @ [NormalizeConfigName (Scalar y k)]) c path' node' \<Longrightarrow> says y path node path' node'"

fun dotted :: "string list \<Rightarrow> string" where
  "dotted [] = []"
| "dotted [key] = key"
| "dotted (key # keys) = key @ ''.'' @ dotted keys"

lemma dotted_snoc: "keys \<noteq> [] \<Longrightarrow> dotted (keys @ [key]) = dotted keys @ ''.'' @ key"
  by (induction keys rule: dotted.induct) auto

lemma dotted_nonempty: "[] \<notin> set keys \<Longrightarrow> dotted keys = [] \<longleftrightarrow> keys = []"
  by (induction keys rule: dotted.induct) auto

definition members_of :: "'n yaml \<Rightarrow> string list \<Rightarrow> 'n \<Rightarrow> (string \<times> 'n) set" where
  "members_of y path node = {(dotted path', n) | path' n. says y path node path' n \<and> path' \<noteq> []}"

definition entry_members :: "'n yaml \<Rightarrow> string list \<Rightarrow> 'n \<times> 'n \<Rightarrow> (string \<times> 'n) set" where
  "entry_members y path e =
     (if IsScalar y (fst e) \<and> IsValidConfigName (NormalizeConfigName (Scalar y (fst e)))
      then members_of y (path @ [NormalizeConfigName (Scalar y (fst e))]) (snd e) else {})"

lemma members_of_unfold:
  "members_of y path node = (if path \<noteq> [] then {(dotted path, node)} else {}) \<union>
     (if IsMap y node then (\<Union>e \<in> set (entries y node). entry_members y path e) else {})" (is "?l = ?r")
proof
  show "?l \<subseteq> ?r"
  proof
    fix x
    assume "x \<in> ?l"
    then obtain path' n where x: "x = (dotted path', n)" "says y path node path' n" "path' \<noteq> []" by (auto simp: members_of_def)
    from x(2) show "x \<in> ?r"
    proof cases
      case here
      then show ?thesis using x by simp
    next
      case (below k c)
      then have "x \<in> entry_members y path (k, c)" using x by (auto simp: entry_members_def members_of_def)
      then show ?thesis using below by auto
    qed
  qed
  show "?r \<subseteq> ?l"
  proof
    fix x
    assume "x \<in> ?r"
    then consider "path \<noteq> []" "x = (dotted path, node)"
      | e where "IsMap y node" "e \<in> set (entries y node)" "x \<in> entry_members y path e" by (auto split: if_splits)
    then show "x \<in> ?l"
    proof cases
      case 1
      then show ?thesis using says.here [of y path node] unfolding members_of_def by blast
    next
      case (2 e)
      then obtain path' n where "x = (dotted path', n)" "path' \<noteq> []" "IsScalar y (fst e)"
        "IsValidConfigName (NormalizeConfigName (Scalar y (fst e)))"
        "says y (path @ [NormalizeConfigName (Scalar y (fst e))]) (snd e) path' n"
        by (auto simp: entry_members_def members_of_def split: if_splits)
      moreover from this 2 have "says y path node path' n" using says.below [of y node "fst e" "snd e"] by simp
      ultimately show ?thesis by (auto simp: members_of_def)
    qed
  qed
qed

lemma fold_entries:
  assumes "\<And>e out errors. e \<in> set es \<Longrightarrow> IsScalar y (fst e) \<Longrightarrow> IsValidConfigName (NormalizeConfigName (Scalar y (fst e))) \<Longrightarrow>
      collect (if prefix \<noteq> [] then prefix @ ''.'' @ NormalizeConfigName (Scalar y (fst e)) else NormalizeConfigName (Scalar y (fst e))) (snd e) = Some (out, errors) \<Longrightarrow>
      set out = entry_members y path e"
    and "fold (collect_entry collect y prefix) es (Some (out0, errors0)) = Some (out, errors)"
  shows "set out = set out0 \<union> (\<Union>e \<in> set es. entry_members y path e)"
  using assms
proof (induction es arbitrary: out0 errors0)
  case (Cons e es)
  obtain out1 errors1 where one: "collect_entry collect y prefix e (Some (out0, errors0)) = Some (out1, errors1)"
  proof -
    have "fold (collect_entry collect y prefix) es None = None" by (induction es) (simp_all add: collect_entry_def)
    then show ?thesis using Cons.prems(2) that by (cases "collect_entry collect y prefix e (Some (out0, errors0))") auto
  qed
  then have "set out1 = set out0 \<union> entry_members y path e"
    using Cons.prems(1) [of e]
    by (auto simp: collect_entry_def Let_def entry_members_def split: if_splits option.splits)
  with Cons one show ?case by auto
qed simp

lemma collect_members:
  "CollectMembers depth y (dotted path) node = Some (out, errors) \<Longrightarrow> [] \<notin> set path \<Longrightarrow> set out = members_of y path node"
proof (induction depth arbitrary: path node out errors)
  case (Suc depth)
  have key: "dotted (path @ [k]) = (if dotted path \<noteq> [] then dotted path @ ''.'' @ k else k)" for k
    using dotted_snoc [of path k] dotted_nonempty [OF Suc.prems(2)] by auto
  have step: "set out' = entry_members y path e" if "IsScalar y (fst e)" "IsValidConfigName (NormalizeConfigName (Scalar y (fst e)))"
    "CollectMembers depth y (if dotted path \<noteq> [] then dotted path @ ''.'' @ NormalizeConfigName (Scalar y (fst e))
       else NormalizeConfigName (Scalar y (fst e))) (snd e) = Some (out', errors')" for e out' errors'
    using that Suc.IH [of "path @ [NormalizeConfigName (Scalar y (fst e))]" "snd e" out' errors'] Suc.prems(2)
    by (simp add: entry_members_def key) (metis IsValidConfigName_def)
  show ?case
  proof (cases "IsMap y node")
    case True
    with Suc.prems(1) have "set out = set (if dotted path \<noteq> [] then [(dotted path, node)] else []) \<union> (\<Union>e \<in> set (entries y node). entry_members y path e)"
      by (intro fold_entries [of "entries y node" y "CollectMembers depth y" "dotted path", OF step]) (auto simp: Let_def)
    then show ?thesis using True dotted_nonempty [OF Suc.prems(2)] members_of_unfold [of y path node] by simp
  next
    case False
    then show ?thesis using Suc.prems(1) dotted_nonempty [OF Suc.prems(2)] members_of_unfold [of y path node]
      by (auto simp: Let_def)
  qed
qed simp

lemma setValue_value:
  "p < length (cf_vars s) \<Longrightarrow> getValue q (snd (setValue v p s)) = (if q = p then v else getValue q s)"
  by (auto simp: setValue_def getValue_def on_var_def Let_def)

lemma fromNode_value:
  "p < length (cf_vars s) \<Longrightarrow> getValue q (snd (fromNode tn y node p s)) =
   (if q = p then (case FromNode tn y (ty_desc (cv_type (cf_vars s ! p))) node of Inr v \<Rightarrow> v | Inl _ \<Rightarrow> getValue p s) else getValue q s)"
  by (auto simp: fromNode_def setValue_value split: sum.splits) (simp_all add: getValue_def ReportConfigError_def)

text \<open>The last node of the name that converts decides; one that does not leaves the value alone.\<close>

definition loaded_value :: "type_names \<Rightarrow> 'n yaml \<Rightarrow> ctype \<Rightarrow> string \<Rightarrow> (string \<times> 'n) list \<Rightarrow> cvalue \<Rightarrow> cvalue" where
  "loaded_value tn y t name nodes old =
     fold (\<lambda>m v. if fst m = name then case FromNode tn y t (snd m) of Inr v' \<Rightarrow> v' | Inl _ \<Rightarrow> v else v) nodes old"

lemma members_value:
  assumes "cfg_inv s" "cf_datas s name = Some p"
  shows "getValue p (fold (load_member tn y) nodes s) =
    loaded_value tn y (ty_desc (cv_type (cf_vars s ! p))) name nodes (getValue p s)"
  using assms
proof (induction nodes arbitrary: s)
  case (Cons m nodes)
  let ?s = "load_member tn y m s"
  have sh: "same_shape s ?s" by (rule load_member_shape)
  have p: "p < length (cf_vars s)" "cv_name (cf_vars s ! p) = name" using cfg_inv_at [OF Cons.prems] by simp_all
  have ty: "cv_type (cf_vars ?s ! p) = cv_type (cf_vars s ! p)" using same_shape_nth [OF sh] p by simp
  have d: "cf_datas ?s name = Some p" using sh Cons.prems by (simp add: same_shape_def)
  have "getValue p ?s = (if fst m = name then case FromNode tn y (ty_desc (cv_type (cf_vars s ! p))) (snd m) of Inr v \<Rightarrow> v | Inl _ \<Rightarrow> getValue p s
      else getValue p s)"
  proof (cases "cf_datas s (fst m)")
    case None
    then show ?thesis using Cons.prems by (auto simp: load_member_def LookupFromMap_def)
  next
    case (Some q)
    then have q: "q < length (cf_vars s)" "cv_name (cf_vars s ! q) = fst m"
      using cfg_inv_at [OF Cons.prems(1) Some] by simp_all
    then have "q = p \<longleftrightarrow> fst m = name" using p(2) Some Cons.prems(2) by (metis option.inject)
    then show ?thesis using Some q(1) by (cases "q = p") (simp_all add: load_member_def LookupFromMap_def fromNode_value)
  qed
  then show ?case using Cons.IH [OF same_shape_inv [OF sh Cons.prems(1)] d] by (simp add: loaded_value_def ty)
qed (simp add: loaded_value_def)

text \<open>C39: loading a document always returns when its nodes are nested less deeply than the bound, and
  then the members visited are exactly the nodes under a path of valid scalar keys, named by the keys
  joined with dots, and every registered variable has the value of the last member with its name that
  converts to its type; a variable that is not named, or only by nodes that do not convert, keeps its value.  The
  registry itself is unchanged.\<close>

theorem config_load_exact:
  assumes "cfg_inv s" and "cf_datas s name = Some p"
    and "\<forall>n. \<forall>e \<in> set (entries y n). h (snd e) < (h n :: nat)" and "h root < depth"
    and "IsDefined y root" and "\<not> IsNull y root"
  shows "\<exists>nodes errors s'. CollectMembers depth y [] root = Some (nodes, errors) \<and> set nodes = members_of y [] root \<and>
    LoadFromYaml depth tn y root s = Some s' \<and> same_shape s s' \<and> getValue p s' = loaded_value tn y (ty_desc (cv_type (cf_vars s ! p))) name nodes (getValue p s)"
proof -
  obtain nodes errors where c: "CollectMembers depth y [] root = Some (nodes, errors)"
    using collect_returns [of y h root depth "[]"] assms(3,4) by fastforce
  let ?s = "s\<lparr> cf_errors := cf_errors s @ errors \<rparr>"
  have "cfg_inv ?s" "cf_datas ?s name = Some p" using assms(1,2) by (simp_all add: cfg_inv_def)
  from members_value [OF this, of tn y nodes] have "getValue p (fold (load_member tn y) nodes ?s) =
      loaded_value tn y (ty_desc (cv_type (cf_vars s ! p))) name nodes (getValue p s)" by (simp add: getValue_def)
  moreover have l: "LoadFromYaml depth tn y root s = Some (fold (load_member tn y) nodes ?s)"
    using assms(5,6) c by (simp add: LoadFromYaml_def)
  moreover have "set nodes = members_of y [] root" using collect_members [of depth y "[]" root nodes errors] c by simp
  ultimately show ?thesis using c LoadFromYaml_shape [OF l] by blast
qed


lemma tree_rank: "\<forall>n. \<forall>e \<in> set (entries tree_yaml n). size (snd e) < size n"
proof (intro allI ballI)
  fix n e
  assume e: "e \<in> set (entries tree_yaml n)"
  then obtain m where n: "n = YMap m" by (cases n) (simp_all add: tree_yaml_def)
  then have "e \<in> set m" using e by (simp add: tree_yaml_def)
  then have "size (snd e) < size (YMap m)" by (induction m) auto
  then show "size (snd e) < size n" using n by simp
qed

definition document_example :: ynode where
  "document_example = YMap [(YScalar ''Tcp'', YMap [(YScalar ''timeout'', YScalar ''0x1F''), (YScalar ''name'', YSeq [])]),
     (YScalar ''tcp.timeout'', YScalar ''many'')]"

definition config_example :: "unit config" where
  "config_example = (Config_empty ())\<lparr> cf_vars := [\<lparr> cv_name = ''tcp.timeout'', cv_description = [],
       cv_type = \<lparr> ty_name = ''u64'', ty_tag = 0, ty_desc = CInt 0 100 \<rparr>, cv_value = VInt 7, cv_listeners = [] \<rparr>],
     cf_datas := [''tcp.timeout'' \<mapsto> 0] \<rparr>"

lemma config_example_inv: "cfg_inv config_example"
proof -
  have "IsValidConfigName ''tcp.timeout''" by code_simp
  then show ?thesis by (simp add: cfg_inv_def config_example_def Config_empty_def)
qed

theorem config_load_exact_witness:
  "\<exists>s'. LoadFromYaml 100 (\<lambda>_. []) tree_yaml document_example config_example = Some s' \<and> getValue 0 s' = VInt 31"
proof -
  have d: "cf_datas config_example ''tcp.timeout'' = Some 0" by (simp add: config_example_def)
  have h: "size document_example < 100" by (simp add: document_example_def)
  have n: "IsDefined tree_yaml document_example" "\<not> IsNull tree_yaml document_example" by code_simp+
  from config_load_exact [where h = size and tn = "\<lambda>_. []", OF config_example_inv d tree_rank h n] obtain nodes errors s' where
    c: "CollectMembers 100 tree_yaml [] document_example = Some (nodes, errors)"
    and l: "LoadFromYaml 100 (\<lambda>_. []) tree_yaml document_example config_example = Some s'"
    and v: "getValue 0 s' = loaded_value (\<lambda>_. []) tree_yaml (ty_desc (cv_type (cf_vars config_example ! 0))) ''tcp.timeout'' nodes
      (getValue 0 config_example)" by blast
  have "loaded_value (\<lambda>_. []) tree_yaml (CInt 0 100) ''tcp.timeout''
      (fst (the (CollectMembers 100 tree_yaml [] document_example))) (VInt 7) = VInt 31" by code_simp
  moreover have "ty_desc (cv_type (cf_vars config_example ! 0)) = CInt 0 100" "getValue 0 config_example = VInt 7"
    by (simp_all add: config_example_def getValue_def)
  ultimately show ?thesis using c l v by simp
qed

section \<open>Files are read once\<close>

lemma LoadFromYaml_loaded: "LoadFromYaml depth tn y root s = Some s' \<Longrightarrow> cf_loaded s' = cf_loaded s"
proof -
  have "cf_loaded (load_member tn y m s) = cf_loaded s" for m and s :: "'a config"
    by (auto simp: load_member_def fromNode_def setValue_def on_var_def ReportConfigError_def Let_def split: option.splits sum.splits)
  then have "cf_loaded (fold (load_member tn y) nodes s) = cf_loaded s" for nodes and s :: "'a config"
    by (induction nodes arbitrary: s) simp_all
  then show "LoadFromYaml depth tn y root s = Some s' \<Longrightarrow> cf_loaded s' = cf_loaded s"
    by (auto simp: LoadFromYaml_def split: if_splits option.splits)
qed

lemma load_file_marks:
  assumes "load_file depth tn y fs force f s = Some s'" "fs_write_time fs f = Some t" "fs_load fs f \<noteq> None"
  shows "cf_loaded s' = (cf_loaded s)(f \<mapsto> t)"
  using assms by (auto simp: load_file_def IsFileUnchanged_def MarkFileLoaded_def LoadFromYaml_loaded split: if_splits option.splits)

lemma load_files_mark:
  assumes "\<forall>f \<in> set files. fs_write_time fs f \<noteq> None \<and> fs_load fs f \<noteq> None"
    and "fold (\<lambda>f s. Option.bind s (load_file depth tn y fs force f)) files (Some s) = Some s'"
  shows "(\<forall>f \<in> set files. cf_loaded s' f = fs_write_time fs f)"
  using assms
proof (induction files arbitrary: s' rule: rev_induct)
  case (snoc f files)
  then obtain s1 where s1: "fold (\<lambda>f s. Option.bind s (load_file depth tn y fs force f)) files (Some s) = Some s1"
    and l: "load_file depth tn y fs force f s1 = Some s'" by (auto simp: bind_eq_Some_conv)
  obtain t where t: "fs_write_time fs f = Some t" using snoc.prems(1) by auto
  have "cf_loaded s' = (cf_loaded s1)(f \<mapsto> t)" using load_file_marks [OF l t] snoc.prems(1) by simp
  with snoc.IH [OF _ s1] snoc.prems(1) t show ?case by auto
qed simp

lemma load_files_skip:
  assumes "\<forall>f \<in> set files. fs_write_time fs f \<noteq> None \<and> cf_loaded s f = fs_write_time fs f"
  shows "fold (\<lambda>f s. Option.bind s (load_file depth tn y fs False f)) files (Some s) = Some s"
  using assms by (induction files) (auto simp: load_file_def IsFileUnchanged_def)

text \<open>The files of a directory that are loaded: those with one of the two suffixes, and no others.\<close>

lemma set_conf_files:
  assumes "fs_dir fs directory = Directory items" and "directory \<noteq> []"
  shows "set (conf_files fs directory) =
    {f. Entry (Some True) f \<in> set (walked items) \<and> (\<exists>p. f = p @ ''.yml'' \<or> f = p @ ''.yaml'')}"
proof -
  obtain yml where yml: "ListAllFile (fs_dir fs) [] directory ''.yml'' = yml"
    "set yml = {f. Entry (Some True) f \<in> set (walked items) \<and> (\<exists>p. f = p @ ''.yml'')}"
    using list_all_file_exact [where dir = "fs_dir fs" and path = directory, OF assms, of "[]" "''.yml''"] by auto
  obtain yaml where "ListAllFile (fs_dir fs) yml directory ''.yaml'' = yml @ yaml"
    "set yaml = {f. Entry (Some True) f \<in> set (walked items) \<and> (\<exists>p. f = p @ ''.yaml'')}"
    by (rule list_all_file_exact [where dir = "fs_dir fs" and path = directory, OF assms, of yml "''.yaml''"])
  with yml show ?thesis by (auto simp: conf_files_def)
qed

text \<open>A file that has not been written since it was loaded is not loaded again: after a directory whose
  files can be read was loaded, forced or not, loading it again changes nothing.\<close>

theorem unchanged_files_skipped:
  assumes l: "LoadFromConfDir depth tn y fs path force s = Some s'" and p: "path \<noteq> []"
    and d: "fs_absolute fs path = Some directory" "fs_dir fs directory = Directory items"
    and f: "\<forall>f \<in> set (conf_files fs directory). fs_write_time fs f \<noteq> None \<and> fs_load fs f \<noteq> None"
  shows "LoadFromConfDir depth tn y fs path False s' = Some s'"
proof -
  have "\<forall>f \<in> set (conf_files fs directory). cf_loaded s' f = fs_write_time fs f"
    using l p d by (intro load_files_mark [OF f, of depth tn y force s]) (simp add: LoadFromConfDir_def)
  then show ?thesis using p d f load_files_skip [of "conf_files fs directory" fs s' depth tn y] by (simp add: LoadFromConfDir_def)
qed

definition conf_example :: "ynode files" where
  "conf_example = \<lparr> fs_absolute = \<lambda>p. Some (CHR ''/'' # p),
     fs_dir = \<lambda>_. Directory [Entry (Some True) ''/conf/b.txt'', Entry (Some True) ''/conf/a.yml'', Entry (Some False) ''/conf/d.yml''],
     fs_write_time = \<lambda>_. Some 5, fs_load = \<lambda>_. Some document_example \<rparr>"

lemma conf_example_files: "conf_files conf_example ''/conf'' = [''/conf/a.yml'']" by code_simp

theorem unchanged_files_skipped_witness:
  "\<exists>s'. LoadFromConfDir 100 (\<lambda>_. []) tree_yaml conf_example ''conf'' True config_example = Some s' \<and>
        LoadFromConfDir 100 (\<lambda>_. []) tree_yaml conf_example ''conf'' False s' = Some s'"
proof -
  have d: "fs_absolute conf_example ''conf'' = Some ''/conf''"
    "fs_dir conf_example ''/conf'' = Directory [Entry (Some True) ''/conf/b.txt'', Entry (Some True) ''/conf/a.yml'', Entry (Some False) ''/conf/d.yml'']"
    and f: "fs_write_time conf_example = (\<lambda>_. Some 5)" "fs_load conf_example = (\<lambda>_. Some document_example)"
    by (simp_all add: conf_example_def)
  have "LoadFromYaml 100 (\<lambda>_. []) tree_yaml document_example config_example \<noteq> None" by code_simp
  then obtain s' where l: "LoadFromConfDir 100 (\<lambda>_. []) tree_yaml conf_example ''conf'' True config_example = Some s'"
    by (auto simp: LoadFromConfDir_def load_file_def conf_example_files d f)
  have "LoadFromConfDir 100 (\<lambda>_. []) tree_yaml conf_example ''conf'' False s' = Some s'"
    by (rule unchanged_files_skipped [OF l _ d]) (simp_all add: f)
  with l show ?thesis by blast
qed

end
