(* ===== verification/Locks.thy ===== *)
theory Locks
  imports Prelude
begin

text \<open>
  The locks of include/droplet/mutex.h, each as the steps one thread takes: every access to the atomic
  flag is a step, and any thread may take its next step at any time.  A step of \<open>awl_step\<close>,
  \<open>tsl_step\<close> or \<open>spin_step\<close> takes the value of the flag and the place of the thread in the code, and gives the
  new value, the new place, and whether it calls \<open>atomic_notify_one\<close>.  \<open>compare_exchange_weak\<close> may fail
  though the flag is as expected; \<open>atomic_wait\<close> puts a thread to sleep only while the flag is set, and looks
  at the flag again when it is woken, which may also happen for no reason.  Threads see the accesses to
  the flag in one order.  On Linux \<open>Spinlock\<close> is pthread's; the one modelled is the portable one.
\<close>

section \<open>The steps\<close>

text \<open>What a thread does next: call \<open>lock\<close>, \<open>try_lock\<close> or \<open>unlock\<close>, or go on in the call it is in; the
  argument is whether a weak exchange fails without reason.\<close>

datatype move = Lock | TryLock | Unlock | Go bool

datatype awl_pc = A_out | A_exchange | A_wait | A_asleep | A_in | A_notify

fun awl_step :: "move \<Rightarrow> bool \<Rightarrow> awl_pc \<Rightarrow> (bool \<times> awl_pc \<times> bool) option" where
  "awl_step Lock locked A_out = Some (locked, A_exchange, False)"
| "awl_step TryLock locked A_out = Some (True, if locked then A_out else A_in, False)"
| "awl_step Unlock locked A_in = Some (False, A_notify, False)"
| "awl_step (Go fails) locked A_exchange =
     Some (if \<not> locked \<and> \<not> fails then (True, A_in, False) else (locked, A_wait, False))"
| "awl_step (Go fails) locked A_wait = Some (locked, if locked then A_asleep else A_exchange, False)"
| "awl_step (Go fails) locked A_notify = Some (locked, A_out, True)"
| "awl_step _ _ _ = None"

definition kSpinLimit :: nat where "kSpinLimit = 64"
definition kYieldLimit :: nat where "kYieldLimit = 8"

text \<open>The counters are those of spins and of yields.\<close>

datatype tsl_pc =
    T_out | T_load nat nat | T_exchange nat nat | T_back_off nat nat | T_wait | T_asleep | T_in | T_notify

fun tsl_step :: "move \<Rightarrow> bool \<Rightarrow> tsl_pc \<Rightarrow> (bool \<times> tsl_pc \<times> bool) option" where
  "tsl_step Lock locked T_out = Some (locked, T_load 0 0, False)"
| "tsl_step TryLock locked T_out = Some (True, if locked then T_out else T_in, False)"
| "tsl_step Unlock locked T_in = Some (False, T_notify, False)"
| "tsl_step (Go fails) locked (T_load spins yields) =
     Some (locked, if locked then T_back_off spins yields else T_exchange spins yields, False)"
| "tsl_step (Go fails) locked (T_exchange spins yields) =
     Some (if \<not> locked \<and> \<not> fails then (True, T_in, False) else (locked, T_back_off spins yields, False))"
| "tsl_step (Go fails) locked (T_back_off spins yields) =
     Some (locked, if spins < kSpinLimit then T_load (spins + 1) yields
                   else if yields < kYieldLimit then T_load spins (yields + 1) else T_wait, False)"
| "tsl_step (Go fails) locked T_wait = Some (locked, if locked then T_asleep else T_load 0 0, False)"
| "tsl_step (Go fails) locked T_notify = Some (locked, T_out, True)"
| "tsl_step _ _ _ = None"

datatype spin_pc = S_out | S_set | S_test | S_in

fun spin_step :: "move \<Rightarrow> bool \<Rightarrow> spin_pc \<Rightarrow> (bool \<times> spin_pc \<times> bool) option" where
  "spin_step Lock locked S_out = Some (locked, S_set, False)"
| "spin_step TryLock locked S_out = Some (True, if locked then S_out else S_in, False)"
| "spin_step Unlock locked S_in = Some (False, S_out, False)"
| "spin_step (Go fails) locked S_set = Some (True, if locked then S_test else S_in, False)"
| "spin_step (Go fails) locked S_test = Some (locked, if locked then S_test else S_set, False)"
| "spin_step _ _ _ = None"

section \<open>Threads\<close>

record 'p lock_system =
  lk_locked :: bool
  lk_pc :: "nat \<Rightarrow> 'p"

text \<open>A step of the thread \<open>t\<close>; a notification wakes one of the other threads that sleep, if there is one.\<close>

inductive lock_steps ::
  "(move \<Rightarrow> bool \<Rightarrow> 'p \<Rightarrow> (bool \<times> 'p \<times> bool) option) \<Rightarrow> ('p \<Rightarrow> bool) \<Rightarrow> 'p \<Rightarrow> 'p lock_system \<Rightarrow> 'p lock_system \<Rightarrow> bool"
  for step :: "move \<Rightarrow> bool \<Rightarrow> 'p \<Rightarrow> (bool \<times> 'p \<times> bool) option" and asleep :: "'p \<Rightarrow> bool" and woken :: 'p where
  plain: "step m (lk_locked s) (lk_pc s t) = Some (l, p, notify) \<Longrightarrow> \<not> notify \<or> (\<forall>u. u \<noteq> t \<longrightarrow> \<not> asleep (lk_pc s u)) \<Longrightarrow>
    lock_steps step asleep woken s \<lparr> lk_locked = l, lk_pc = (lk_pc s)(t := p) \<rparr>"
| notifies: "step m (lk_locked s) (lk_pc s t) = Some (l, p, True) \<Longrightarrow> u \<noteq> t \<Longrightarrow> asleep (lk_pc s u) \<Longrightarrow>
    lock_steps step asleep woken s \<lparr> lk_locked = l, lk_pc = (lk_pc s)(t := p, u := woken) \<rparr>"
| wakes: "asleep (lk_pc s u) \<Longrightarrow> lock_steps step asleep woken s (s\<lparr> lk_pc := (lk_pc s)(u := woken) \<rparr>)"

text \<open>A new lock is free and no thread is in one of its functions.\<close>

inductive lock_reach ::
  "(move \<Rightarrow> bool \<Rightarrow> 'p \<Rightarrow> (bool \<times> 'p \<times> bool) option) \<Rightarrow> 'p \<Rightarrow> ('p \<Rightarrow> bool) \<Rightarrow> 'p \<Rightarrow> 'p lock_system \<Rightarrow> bool"
  for step :: "move \<Rightarrow> bool \<Rightarrow> 'p \<Rightarrow> (bool \<times> 'p \<times> bool) option" and outside :: 'p and asleep :: "'p \<Rightarrow> bool" and woken :: 'p where
  start: "lock_reach step outside asleep woken \<lparr> lk_locked = False, lk_pc = \<lambda>_. outside \<rparr>"
| move: "lock_reach step outside asleep woken s \<Longrightarrow> lock_steps step asleep woken s s' \<Longrightarrow> lock_reach step outside asleep woken s'"

text \<open>At most one thread is within, and the flag is set exactly while one is.\<close>

definition one_within :: "'p \<Rightarrow> 'p lock_system \<Rightarrow> bool" where
  "one_within within s \<longleftrightarrow>
     (\<forall>t u. lk_pc s t = within \<longrightarrow> lk_pc s u = within \<longrightarrow> t = u) \<and> (lk_locked s \<longleftrightarrow> (\<exists>t. lk_pc s t = within))"

text \<open>While a thread sleeps, the lock is held or some thread is busy about it.\<close>

definition watched :: "('p \<Rightarrow> bool) \<Rightarrow> ('p \<Rightarrow> bool) \<Rightarrow> 'p lock_system \<Rightarrow> bool" where
  "watched asleep busy s \<longleftrightarrow> (\<exists>t. asleep (lk_pc s t)) \<longrightarrow> lk_locked s \<or> (\<exists>t. busy (lk_pc s t))"

section \<open>What the steps of a lock promise\<close>

text \<open>A thread gets in only by setting the free flag, and clears the flag when it leaves.\<close>

locale lock_protocol =
  fixes step :: "move \<Rightarrow> bool \<Rightarrow> 'p \<Rightarrow> (bool \<times> 'p \<times> bool) option" and outside :: 'p and asleep :: "'p \<Rightarrow> bool" and woken within :: 'p
  assumes others: "outside \<noteq> within" "\<not> asleep within" "woken \<noteq> within"
    and enters: "step m l p = Some (l', within, n) \<Longrightarrow> \<not> l \<and> l'"
    and leaves: "step m l within = Some (l', p', n) \<Longrightarrow> \<not> l'"
    and passes: "step m l p = Some (l', p', n) \<Longrightarrow> p \<noteq> within \<Longrightarrow> p' \<noteq> within \<Longrightarrow> l' = l"
begin

lemma within_stays: "step m l within = Some (l', p', n) \<Longrightarrow> p' \<noteq> within"
  using enters leaves by blast

lemma one_within_step:
  assumes "one_within within s" and "step m (lk_locked s) (lk_pc s t) = Some (l, p, n)"
  shows "one_within within \<lparr> lk_locked = l, lk_pc = (lk_pc s)(t := p) \<rparr>"
proof (cases "lk_pc s t = within")
  case True
  have "p \<noteq> within" "\<not> l" using assms(2) [unfolded True] by (rule within_stays, rule leaves)
  moreover have "lk_pc s u = within \<Longrightarrow> u = t" for u using assms(1) True by (auto simp: one_within_def)
  ultimately show ?thesis by (auto simp: one_within_def)
next
  case out: False
  show ?thesis
  proof (cases "p = within")
    case True
    then have "\<not> lk_locked s" "l" using assms(2) enters by blast+
    then show ?thesis using assms(1) True by (auto simp: one_within_def)
  next
    case False
    then have "l = lk_locked s" using assms(2) out passes by blast
    then show ?thesis using assms(1) False out by (auto simp: one_within_def)
  qed
qed

lemma one_within_woken: "one_within within s \<Longrightarrow> lk_pc s u \<noteq> within \<Longrightarrow> one_within within (s\<lparr> lk_pc := (lk_pc s)(u := woken) \<rparr>)"
  using others by (auto simp: one_within_def)

lemma mutual_exclusion: "lock_reach step outside asleep woken s \<Longrightarrow> one_within within s"
proof (induction rule: lock_reach.induct)
  case start
  then show ?case using others by (simp add: one_within_def)
next
  case (move s s')
  from move.hyps(2) show ?case
  proof cases
    case plain
    then show ?thesis using one_within_step [OF move.IH] by simp
  next
    case (notifies m t l p u)
    have "one_within within \<lparr> lk_locked = l, lk_pc = (lk_pc s)(t := p) \<rparr>" by (rule one_within_step [OF move.IH notifies(2)])
    from one_within_woken [OF this, of u] show ?thesis
      using notifies(1,3,4) others(2) by (cases "lk_pc s u = within") simp_all
  next
    case (wakes u)
    then show ?thesis
      using one_within_woken [OF move.IH, of u] others(2) by (cases "lk_pc s u = within") simp_all
  qed
qed

end

text \<open>A thread sleeps only when it has seen the flag set, and whoever clears the flag is then on the way to a
  notification; \<open>busy\<close> are the places of a thread that will notify or try again.\<close>

locale sleeping_lock = lock_protocol step outside asleep woken within
  for step :: "move \<Rightarrow> bool \<Rightarrow> 'p \<Rightarrow> (bool \<times> 'p \<times> bool) option" and outside :: 'p and asleep :: "'p \<Rightarrow> bool" and woken within :: 'p +
  fixes busy :: "'p \<Rightarrow> bool"
  assumes sleeps: "step m l p = Some (l', p', n) \<Longrightarrow> asleep p' \<Longrightarrow> l'"
    and released: "step m l within = Some (l', p', n) \<Longrightarrow> busy p'"
    and goes_on: "step m l p = Some (l', p', n) \<Longrightarrow> busy p \<Longrightarrow> busy p' \<or> asleep p' \<or> p' = within \<or> n"
    and wakes_busy: "busy woken" "\<not> asleep outside"
begin

lemma watched_step:
  assumes w: "watched asleep busy s" and o: "one_within within s" and st: "step m (lk_locked s) (lk_pc s t) = Some (l, p, n)"
    and n: "n \<Longrightarrow> \<forall>u. u \<noteq> t \<longrightarrow> \<not> asleep (lk_pc s u)"
  shows "watched asleep busy \<lparr> lk_locked = l, lk_pc = (lk_pc s)(t := p) \<rparr>"
proof -
  let ?s = "\<lparr> lk_locked = l, lk_pc = (lk_pc s)(t := p) \<rparr>"
  show ?thesis
  proof (cases "\<not> l \<and> (\<exists>u. asleep (lk_pc ?s u))")
    case False
    then show ?thesis by (auto simp: watched_def simp del: fun_upd_apply)
  next
    case True
    then have p: "\<not> asleep p" "p \<noteq> within" using sleeps enters st by blast+
    then obtain u where u: "u \<noteq> t" "asleep (lk_pc s u)" using True by (auto split: if_splits)
    then have "\<not> n" using n by blast
    show ?thesis
    proof (cases "lk_pc s t = within")
      case True
      then have "busy p" using st released by simp
      then show ?thesis by (auto simp: watched_def)
    next
      case out: False
      then have "l = lk_locked s" using st p passes by blast
      then obtain v where v: "busy (lk_pc s v)" using w u True by (auto simp: watched_def)
      show ?thesis
      proof (cases "v = t")
        case True
        then have "busy p" using goes_on [OF st] v p \<open>\<not> n\<close> by blast
        then show ?thesis by (auto simp: watched_def)
      next
        case False
        then show ?thesis using v by (auto simp: watched_def)
      qed
    qed
  qed
qed

lemma no_lost_wakeup: "lock_reach step outside asleep woken s \<Longrightarrow> watched asleep busy s"
proof (induction rule: lock_reach.induct)
  case start
  then show ?case using wakes_busy by (simp add: watched_def)
next
  case (move s s')
  from move.hyps(2) show ?case
  proof cases
    case plain
    then show ?thesis using watched_step [OF move.IH mutual_exclusion [OF move.hyps(1)]] by auto
  next
    case notifies
    then show ?thesis using wakes_busy by (auto simp: watched_def)
  next
    case wakes
    then show ?thesis using wakes_busy by (auto simp: watched_def)
  qed
qed

end

section \<open>The three locks\<close>

definition awl_busy :: "awl_pc \<Rightarrow> bool" where
  "awl_busy p \<longleftrightarrow> p \<in> {A_exchange, A_wait, A_notify}"

definition tsl_busy :: "tsl_pc \<Rightarrow> bool" where
  "tsl_busy p \<longleftrightarrow> p \<notin> {T_out, T_asleep, T_in}"

interpretation awl: sleeping_lock awl_step A_out "(=) A_asleep" A_wait A_in awl_busy
  by unfold_locales (auto simp: awl_busy_def elim!: awl_step.elims split: if_splits)

interpretation tsl: sleeping_lock tsl_step T_out "(=) T_asleep" T_wait T_in tsl_busy
  by unfold_locales (auto simp: tsl_busy_def elim!: tsl_step.elims split: if_splits)

text \<open>No thread sleeps on a spin lock.\<close>

interpretation spin: lock_protocol spin_step S_out "\<lambda>_. False" S_set S_in
  by unfold_locales (auto elim!: spin_step.elims split: if_splits)

section \<open>Runs\<close>

text \<open>Threads that call in turn and wake nobody.\<close>

fun lock_turns :: "(move \<Rightarrow> bool \<Rightarrow> 'p \<Rightarrow> (bool \<times> 'p \<times> bool) option) \<Rightarrow> (nat \<times> move) list \<Rightarrow> 'p lock_system \<Rightarrow> 'p lock_system option" where
  "lock_turns step [] s = Some s"
| "lock_turns step ((t, m) # turns) s = (case step m (lk_locked s) (lk_pc s t) of
     Some (l, p, False) \<Rightarrow> lock_turns step turns \<lparr> lk_locked = l, lk_pc = (lk_pc s)(t := p) \<rparr> | _ \<Rightarrow> None)"

lemma lock_turns_reach:
  "lock_turns step turns s = Some s' \<Longrightarrow> lock_reach step outside asleep woken s \<Longrightarrow> lock_reach step outside asleep woken s'"
proof (induction turns arbitrary: s)
  case (Cons turn turns)
  obtain t m where "turn = (t, m)" by (cases turn)
  moreover then obtain l p where st: "step m (lk_locked s) (lk_pc s t) = Some (l, p, False)"
    and rest: "lock_turns step turns \<lparr> lk_locked = l, lk_pc = (lk_pc s)(t := p) \<rparr> = Some s'"
    using Cons.prems(1) by (auto split: option.splits bool.splits)
  have "lock_steps step asleep woken s \<lparr> lk_locked = l, lk_pc = (lk_pc s)(t := p) \<rparr>"
    by (rule lock_steps.plain [where t = t and m = m and notify = False]) (simp_all add: st)
  from Cons.IH [OF rest lock_reach.move [OF Cons.prems(2) this]] show ?case .
qed simp

definition new_lock :: "'p \<Rightarrow> 'p lock_system" where
  "new_lock outside = \<lparr> lk_locked = False, lk_pc = \<lambda>_. outside \<rparr>"

lemmas turns_from_new = lock_turns_reach [OF _ lock_reach.start [folded new_lock_def]]

text \<open>Thread 0 holds the lock and thread 1 waits for it: asleep, asleep after all its tries, and testing.\<close>

definition awl_demo :: "awl_pc lock_system" where
  "awl_demo = the (lock_turns awl_step [(0, Lock), (0, Go False), (1, Lock), (1, Go False), (1, Go False)] (new_lock A_out))"

definition tsl_demo :: "tsl_pc lock_system" where
  "tsl_demo = the (lock_turns tsl_step ([(0, Lock), (0, Go False), (0, Go False), (1, Lock)] @
     replicate (2 * (kSpinLimit + kYieldLimit + 1) + 1) (1, Go False)) (new_lock T_out))"

definition spin_demo :: "spin_pc lock_system" where
  "spin_demo = the (lock_turns spin_step [(0, Lock), (0, Go False), (1, Lock), (1, Go False), (1, Go False)] (new_lock S_out))"

lemmas demo_defs = new_lock_def kSpinLimit_def kYieldLimit_def awl_demo_def tsl_demo_def spin_demo_def

lemma awl_demo_run: "lock_turns awl_step [(0, Lock), (0, Go False), (1, Lock), (1, Go False), (1, Go False)] (new_lock A_out) = Some awl_demo"
  by (simp add: demo_defs)

lemma spin_demo_run: "lock_turns spin_step [(0, Lock), (0, Go False), (1, Lock), (1, Go False), (1, Go False)] (new_lock S_out) = Some spin_demo"
  by (simp add: demo_defs)

lemma tsl_demo_run: "lock_turns tsl_step ([(0, Lock), (0, Go False), (0, Go False), (1, Lock)] @
     replicate (2 * (kSpinLimit + kYieldLimit + 1) + 1) (1, Go False)) (new_lock T_out) = Some tsl_demo"
  by (simp add: demo_defs numeral_eq_Suc)

lemmas demo_reach = turns_from_new [OF awl_demo_run] turns_from_new [OF tsl_demo_run] turns_from_new [OF spin_demo_run]

lemma demo_places:
  "lk_pc awl_demo 0 = A_in" "lk_pc awl_demo 1 = A_asleep" "lk_pc tsl_demo 0 = T_in" "lk_pc tsl_demo 1 = T_asleep"
  "lk_pc spin_demo 0 = S_in" "lk_pc spin_demo 1 = S_test"
  by (simp_all add: demo_defs numeral_eq_Suc)

section \<open>What holds of the locks\<close>

text \<open>C12: In every state that threads can bring a lock to by calling its functions in any interleaving, weak
  exchanges and wake-ups without reason included, at most one thread is between \<open>lock\<close> and \<open>unlock\<close>, and the
  flag is set exactly while one is: for the lock that waits on its flag, for the one in three stages and for
  the portable spin lock.\<close>

theorem locks_exclude:
  "(lock_reach awl_step A_out ((=) A_asleep) A_wait s \<longrightarrow> one_within A_in s) \<and>
   (lock_reach tsl_step T_out ((=) T_asleep) T_wait s' \<longrightarrow> one_within T_in s') \<and>
   (lock_reach spin_step S_out (\<lambda>_. False) S_set s'' \<longrightarrow> one_within S_in s'')"
  using awl.mutual_exclusion tsl.mutual_exclusion spin.mutual_exclusion by blast

lemma locks_exclude_witness:
  "one_within A_in awl_demo \<and> one_within T_in tsl_demo \<and> one_within S_in spin_demo \<and>
   lk_pc awl_demo 0 = A_in \<and> lk_pc tsl_demo 0 = T_in \<and> lk_pc spin_demo 0 = S_in"
  using locks_exclude [of awl_demo tsl_demo spin_demo] demo_reach demo_places by blast

text \<open>C13: No wake-up of a lock is lost: whenever a thread sleeps in \<open>lock\<close>, the lock is held, or a thread that
  gave it back has still to notify, or a thread is awake in \<open>lock\<close> and looks at the flag again; no thread
  sleeps beside a free lock that nobody is about to take or to announce.\<close>

theorem sleepers_watched:
  "(lock_reach awl_step A_out ((=) A_asleep) A_wait s \<longrightarrow> watched ((=) A_asleep) awl_busy s) \<and>
   (lock_reach tsl_step T_out ((=) T_asleep) T_wait s' \<longrightarrow> watched ((=) T_asleep) tsl_busy s')"
  using awl.no_lost_wakeup tsl.no_lost_wakeup by blast

lemma sleepers_watched_witness:
  "watched ((=) A_asleep) awl_busy awl_demo \<and> watched ((=) T_asleep) tsl_busy tsl_demo \<and>
   lk_pc awl_demo 1 = A_asleep \<and> lk_pc tsl_demo 1 = T_asleep"
  using sleepers_watched [of awl_demo tsl_demo] demo_reach demo_places by blast

end
