(* ===== verification/Spec2Isabelle.thy ===== *)
theory Spec2Isabelle
  imports Byte_Codec Http_Exchange Http_Pool String_Utils Tcp_Server Logger Config Locks
begin

text \<open>
  droplet is a C++ framework (src/droplet) of fibers, a scheduler, hooked system calls, sockets, an HTTP
  server and client, configuration and logging.  This library models its run-time logic and proves what
  makes each part correct.  Every theory names the files it models; a definition has the name of the
  function it translates, with the class as a prefix or a suffix where names clash.

  \<^bold>\<open>The program.\<close>  A \<open>Scheduler\<close> runs tasks (fibers and callbacks) on threads; the \<open>IOManager\<close> adds events of
  descriptors through epoll and a \<open>TimerManager\<close>.  The hooks (\<open>hook.cc\<close>) turn a blocking call made in a
  fiber into: try, register the fiber with the IO manager, give the processor up, try again; they keep
  what they know of a descriptor in the \<open>FdManager\<close>.  \<open>Socket\<close> is an object over the hooked calls,
  \<open>TcpServer\<close> accepts connections in a fiber and hands them to workers, \<open>SocketStream\<close> and \<open>ByteArray\<close> move
  bytes.  \<open>HttpSession\<close> and \<open>HttpServer\<close> read requests from a stream, dispatch them to servlets and
  write responses; \<open>HttpConnection\<close> and its pool are the client.  \<open>Config\<close> keeps typed variables loaded
  from YAML; loggers format records and hand them to appenders.

  \<^bold>\<open>Theories.\<close>
  \<^item> \<open>Prelude\<close>: machine integers of types.h, \<open>std::string_view\<close> operations, numbers as text, exceptions as a
    sum with the state (\<open>op\<close>), the collections of simplification rules.  \<open>Std_Map\<close>: \<open>std::map\<close> and \<open>std::set\<close>
    over a comparator, once for every comparator (locale \<open>strict_weak_order\<close>).
  \<^item> \<open>Byte_Array\<close>, \<open>Byte_Codec\<close> (stream/bytearray): the chain of nodes and the typed reads and writes; the
    refinement to a plain list of bytes.  \<open>Stream\<close> (stream/stream, stream/socket_stream).
  \<^item> \<open>Timer\<close>, \<open>Fiber\<close>, \<open>Scheduler\<close>, \<open>Io_Manager\<close> (scheduler/*, fiber/fiber): shared objects by address, the
    loop of a scheduling thread cut into the steps other threads can observe, one function for each
    event operation.
  \<^item> \<open>Fd_Manager\<close>, \<open>Hook\<close>, \<open>Address\<close>, \<open>Socket\<close>, \<open>Tcp_Server\<close> (socket/*, hook/hook, tcpserver/tcp_server).
  \<^item> \<open>Http_Types\<close>, \<open>Http_Message\<close>, \<open>Http_Parser\<close>, \<open>Http_Response_Parser\<close>, \<open>Http_Session\<close>, \<open>Http_Server\<close>,
    \<open>Http_Client\<close>, \<open>Http_Pool\<close>, \<open>Uri\<close> (http/*); \<open>Http_Round_Trip\<close> and \<open>Http_Exchange\<close> put printers against
    parsers and the client against the server.
  \<^item> \<open>String_Utils\<close> (utils/string_utils), \<open>Config_Convert\<close>, \<open>Config\<close> (config/*), \<open>Log_Format\<close>, \<open>Logger\<close> (logger/*).
  \<^item> \<open>System_Utils\<close> (utils/system_utils, thread_utils, fs_utils): directory listings, thread names, printed stacks.
  \<^item> \<open>Locks\<close> (mutex.h): the lock classes as steps of threads between accesses to the flag.

  \<^bold>\<open>State.\<close>  A class is a record of its members; an object shared by pointers is an index into a list of
  records (timers, fibers, descriptor contexts, sockets, connections, loggers, variables).  A C++
  exception is the left side of a sum, errno an option or the left side of a call's result, an assertion
  its early return.  Machine integers are words where they can wrap, otherwise integers.  A section under
  a mutex is one step; where another thread can act between two sections, the model has two steps, or an
  argument that is what the others do there.

  \<^bold>\<open>The world outside\<close> is a parameter: the kernel's calls (records \<open>os\<close>, \<open>originals\<close>, \<open>calls\<close>, and \<open>ctl\<close>
  for epoll), the segments that arrive at a socket, the clock, resolvers, \<open>fnmatch\<close>, \<open>localtime_r\<close> and
  \<open>strftime\<close>, yaml-cpp's nodes, user callbacks.  What a theorem asks of them is a named hypothesis
  (\<open>kernel_laws\<close>, \<open>discreet\<close>, \<open>fair\<close>, \<open>session_blind\<close>, \<open>calm\<close> and others), stated where it is defined; each such
  theorem has a witness at a concrete world.

  \<^bold>\<open>Lemma groups.\<close>
  \<^item> Bytes: writing and reading a \<open>ByteArray\<close> refines a list of bytes with a position (interpretation \<open>ba\<close> of
    \<open>byte_store\<close>); typed values read back; a stream fills an array with the bytes that arrived, however
    they were cut (interpretation \<open>ss\<close> of \<open>byte_stream\<close>).
  \<^item> Fibers and tasks: which fibers execute; no fiber runs on two threads; tasks leave the queue in order,
    and none is lost (interpretations \<open>base\<close> and \<open>io\<close> of \<open>scheduler_hooks\<close>: the plain scheduler and the IO
    manager share the queue laws).
  \<^item> Events: the invariant of the IO manager, every handler scheduled exactly once, what one idle round
    delivers; the timers that have expired, in order, and when the scan ends.
  \<^item> Hooks and sockets: how a waiting call can end, that close and timeout release it, the flag and timeout
    views of a descriptor; who owns a descriptor; binding all or nothing; the end of an accept loop when
    its listener is closed.  The table's contract is the locale \<open>fd_table\<close>, interpreted as \<open>ft\<close>.
    \<open>Socket.steps\<close> is the other shared device: a relation that holds across every call that opens and
    closes nothing holds across the operations made of them.
  \<^item> HTTP: what is printed is parsed back, for every message, chunked or not, and however it is cut into
    segments; a connection's answers are those of its requests in order; the pool never gives one
    connection to two requests; a whole exchange of client and server.
  \<^item> Text and tables: URIs, addresses and their networks, UTF-8, configuration values, log patterns and
    records against the reference definitions \<open>formatted_records_exact\<close> and \<open>network_exact\<close> name.
    \<open>strict_weak_order\<close> is interpreted for header names (\<open>ci\<close>), the timer order (\<open>tl\<close>), addresses (\<open>addr\<close>)
    and interface names (\<open>names\<close>).
  \<^item> Locks: mutual exclusion in every interleaving (locale \<open>lock_protocol\<close>) and no lost wake-up (\<open>sleeping_lock\<close>,
    which extends it), interpreted for the three classes (\<open>awl\<close>, \<open>tsl\<close>, \<open>spin\<close>).

  \<^bold>\<open>Bounds and loops.\<close>  Loops are total functions with a measure wherever the code's loop always ends.  The
  expiry scan and the retry of an interrupted call may not end, so they are \<open>partial_function (option)\<close>, and
  when they return is a theorem (\<open>Timer.expired_callbacks_terminates\<close>, \<open>Hook.call_retry_once\<close>).  A call that
  waits takes one environment for each time it gives its fiber up; a call whose list is used up is still
  waiting, which is a result of its own, never success.  \<open>startAccept\<close> takes one element for each turn in
  the same way.  \<open>Config.CollectMembers\<close> takes a bound on the nesting of a document, and
  \<open>Config.config_load_exact\<close> shows that a bound above the depth of the document is enough.

  \<^bold>\<open>Not modelled.\<close>  The glibc \<open>Spinlock\<close>, which forwards to pthread, and memory orders weaker than one
  order of the accesses (mutex.h); the other models take a locked section as one step.  The assembly of
  the context switch (fiber/fcontext), modelled by the points it leaves and enters.  The functions that
  fs_utils.h declares and no file defines, macros, export marks, the singleton template and type names.  Floating-point configuration values and user-specialised
  types; listeners that change the configuration; the log lines that other components write; allocation
  failures other than the fiber's stack.  The HTTP session and client are modelled over the stream of
  \<open>Stream\<close>, whose socket is a sequence of segments, and not over \<open>Socket\<close>.
\<close>

end
